(* ===== verification/Prelude.thy ===== *)
theory Prelude imports Main "HOL-Library.AList" "HOL-Library.Multiset" begin

text \<open>
  What every component of the development shares: the types that name the data of the
  program, the JavaScript conversions the sources rely on (\<open>||\<close>, \<open>trim\<close>,
  \<open>includes\<close>, \<open>split\<close>), the insertion-ordered \<open>Map\<close> of the language, runs of a
  component over a list of events, and the interfaces that most components use:
  \<open>keyed_store\<close> (what a client may rely on when it stores under a key), \<open>obligations\<close> (every
  call is answered once) and \<open>invariant_machine\<close> (a step function together with a predicate that each step keeps) with its guarded form
  \<open>guarded_machine\<close>, where only the events that satisfy a guard keep it.
\<close>

section \<open>Types\<close>

type_synonym serial = string
type_synonym channel = string
type_synonym millis = int

named_theorems comp_defs "the definitions a component's step unfolds to"
named_theorems inv_intros "introduction rules for component invariants"

section \<open>Conversions of the language\<close>

text \<open>\<open>a || b\<close> on numbers: zero is falsy. Strings: the empty string is falsy.\<close>

definition num_or :: "int \<Rightarrow> int \<Rightarrow> int" where
  "num_or a b = (if a = 0 then b else a)"

definition opt_num_or :: "int option \<Rightarrow> int \<Rightarrow> int" where
  "opt_num_or a b = (case a of None \<Rightarrow> b | Some n \<Rightarrow> num_or n b)"

definition str_or :: "string \<Rightarrow> string \<Rightarrow> string" where
  "str_or a b = (if a = [] then b else a)"

definition truthy_str :: "string option \<Rightarrow> bool" where
  "truthy_str s = (case s of None \<Rightarrow> False | Some t \<Rightarrow> t \<noteq> [])"

text \<open>White space of \<open>trim\<close> and of the class \<open>\s\<close>, over one-byte characters.\<close>

definition is_ws :: "char \<Rightarrow> bool" where
  "is_ws c \<longleftrightarrow> c \<in> {CHR '' '', CHR 0x09, CHR 0x0A, CHR 0x0B, CHR 0x0C, CHR 0x0D}"

definition trim :: "string \<Rightarrow> string" where
  "trim s = rev (dropWhile is_ws (rev (dropWhile is_ws s)))"

fun split_char :: "char \<Rightarrow> string \<Rightarrow> string list" where
  "split_char d [] = [[]]"
| "split_char d (c # cs) =
     (if c = d then [] # split_char d cs
      else (case split_char d cs of [] \<Rightarrow> [[c]] | w # ws \<Rightarrow> (c # w) # ws))"

text \<open>\<open>split(/\s+/)\<close> of a trimmed, non-empty line.\<close>

fun split_ws_aux :: "string \<Rightarrow> bool \<Rightarrow> string \<Rightarrow> string list" where
  "split_ws_aux acc inws [] = [rev acc]"
| "split_ws_aux acc inws (c # cs) =
     (if is_ws c then (if inws then split_ws_aux acc True cs
                       else rev acc # split_ws_aux [] True cs)
      else split_ws_aux (c # acc) False cs)"

definition split_ws :: "string \<Rightarrow> string list" where
  "split_ws s = split_ws_aux [] False s"

fun starts_with :: "string \<Rightarrow> string \<Rightarrow> bool" where
  "starts_with [] s = True"
| "starts_with (p # ps) [] = False"
| "starts_with (p # ps) (c # cs) = (p = c \<and> starts_with ps cs)"

fun str_includes :: "string \<Rightarrow> string \<Rightarrow> bool" where
  "str_includes s [] = starts_with s []"
| "str_includes s (c # cs) = (starts_with s (c # cs) \<or> str_includes s cs)"

lemma starts_with_iff: "starts_with p s \<longleftrightarrow> (\<exists>r. s = p @ r)"
  by (induction p s rule: starts_with.induct) auto

lemma str_includes_iff: "str_includes p s \<longleftrightarrow> (\<exists>a b. s = a @ p @ b)"
proof (induction s)
  case Nil
  then show ?case by (auto simp: starts_with_iff)
next
  case (Cons c cs)
  show ?case
  proof
    assume "str_includes p (c # cs)"
    then consider "starts_with p (c # cs)" | "str_includes p cs" by auto
    then show "\<exists>a b. c # cs = a @ p @ b"
    proof cases
      case 1
      then obtain r where "c # cs = [] @ p @ r" by (auto simp: starts_with_iff)
      then show ?thesis by blast
    next
      case 2
      then obtain a b where "c # cs = (c # a) @ p @ b" using Cons.IH by auto
      then show ?thesis by blast
    qed
  next
    assume "\<exists>a b. c # cs = a @ p @ b"
    then obtain a b where ab: "c # cs = a @ p @ b" by blast
    show "str_includes p (c # cs)"
    proof (cases a)
      case Nil
      then have "starts_with p (c # cs)" using ab by (auto simp: starts_with_iff)
      then show ?thesis by simp
    next
      case (Cons x xs)
      then show ?thesis using ab Cons.IH by auto
    qed
  qed
qed

lemma str_includes_char: "str_includes [c] s \<longleftrightarrow> c \<in> set s"
  by (auto simp: str_includes_iff in_set_conv_decomp)

text \<open>\<open>slice\<close> (and \<open>subarray\<close>): a negative index counts from the end.\<close>

definition slice_index :: "int \<Rightarrow> 'a list \<Rightarrow> nat" where
  "slice_index i xs = (if i < 0 then nat (int (length xs) + i) else min (nat i) (length xs))"

definition slice_to :: "int \<Rightarrow> 'a list \<Rightarrow> 'a list" where
  "slice_to i xs = take (slice_index i xs) xs"

definition slice_from :: "int \<Rightarrow> 'a list \<Rightarrow> 'a list" where
  "slice_from i xs = drop (slice_index i xs) xs"

definition slice_range :: "int \<Rightarrow> int \<Rightarrow> 'a list \<Rightarrow> 'a list" where
  "slice_range i j xs = take (slice_index j xs - slice_index i xs) (drop (slice_index i xs) xs)"

lemma slice_nat [simp]: "slice_to (int n) xs = take n xs" "slice_from (int n) xs = drop n xs"
  by (auto simp: slice_to_def slice_from_def slice_index_def min_def)

lemma length_slice_from: "length (slice_from i xs) \<le> length xs"
  by (simp add: slice_from_def)

lemma slice_range_nat: "slice_range (int m) (int n) xs = take (n - m) (drop m xs)"
  by (auto simp: slice_range_def slice_index_def min_def)

section \<open>Pending tasks\<close>

text \<open>The tasks of a component that wait for the event loop, in a list; any of them may be next.\<close>

definition remove_nth :: "nat \<Rightarrow> 'a list \<Rightarrow> 'a list" where
  "remove_nth n xs = take n xs @ drop (Suc n) xs"

lemma mset_remove_nth: "n < length xs \<Longrightarrow> mset (map f xs) = add_mset (f (xs ! n)) (mset (map f (remove_nth n xs)))"
  by (simp add: remove_nth_def) (metis (no_types, lifting) append_take_drop_id Cons_nth_drop_Suc image_mset_add_mset mset.simps(2) mset_append
      union_mset_add_mset_right mset_map image_mset_union)

section \<open>The insertion-ordered map\<close>

text \<open>
  A \<open>Map\<close> iterates in insertion order; \<open>set\<close> on a present key keeps its position,
  on a new key appends; \<open>delete\<close> removes the entry. It is an association list.
\<close>

type_synonym ('k, 'v) omap = "('k \<times> 'v) list"

definition om_get :: "('k, 'v) omap \<Rightarrow> 'k \<Rightarrow> 'v option" where
  "om_get m k = map_of m k"

definition om_set :: "'k \<Rightarrow> 'v \<Rightarrow> ('k, 'v) omap \<Rightarrow> ('k, 'v) omap" where
  "om_set k v m = AList.update k v m"

definition om_del :: "'k \<Rightarrow> ('k, 'v) omap \<Rightarrow> ('k, 'v) omap" where
  "om_del k m = AList.delete k m"

definition om_has :: "('k, 'v) omap \<Rightarrow> 'k \<Rightarrow> bool" where
  "om_has m k = (om_get m k \<noteq> None)"

definition om_keys :: "('k, 'v) omap \<Rightarrow> 'k list" where
  "om_keys m = map fst m"

definition om_ok :: "('k, 'v) omap \<Rightarrow> bool" where
  "om_ok m = distinct (map fst m)"

lemma om_ok_empty [simp, inv_intros]: "om_ok []"
  by (simp add: om_ok_def)

lemma om_ok_set [simp, inv_intros]: "om_ok m \<Longrightarrow> om_ok (om_set k v m)"
  by (simp add: om_ok_def om_set_def distinct_update)

lemma om_ok_del [simp, inv_intros]: "om_ok m \<Longrightarrow> om_ok (om_del k m)"
  by (simp add: om_ok_def om_del_def distinct_delete)

lemma om_get_empty [simp]: "om_get [] k = None"
  by (simp add: om_get_def)

lemma om_get_set [simp]: "om_get (om_set k v m) j = (if j = k then Some v else om_get m j)"
  by (simp add: om_get_def om_set_def update_conv)

lemma om_get_del [simp]: "om_get (om_del k m) j = (if j = k then None else om_get m j)"
  by (simp add: om_get_def om_del_def delete_conv)

lemma om_has_set [simp]: "om_has (om_set k v m) j = (j = k \<or> om_has m j)"
  by (simp add: om_has_def)

lemma om_has_del [simp]: "om_has (om_del k m) j = (j \<noteq> k \<and> om_has m j)"
  by (simp add: om_has_def)

lemma om_has_keys: "om_has m k \<longleftrightarrow> k \<in> set (om_keys m)"
  by (simp add: om_has_def om_get_def om_keys_def map_of_eq_None_iff)

lemma om_keys_new: "\<not> om_has m k \<Longrightarrow> om_keys (om_set k v m) = om_keys m @ [k]"
  by (simp add: om_has_keys) (simp add: om_keys_def om_set_def update_keys)

lemma om_keys_old: "om_has m k \<Longrightarrow> om_keys (om_set k v m) = om_keys m"
  by (simp add: om_has_keys) (simp add: om_keys_def om_set_def update_keys)

lemma om_keys_del: "om_keys (om_del k m) = filter (\<lambda>j. j \<noteq> k) (om_keys m)"
  by (induction m) (auto simp: om_keys_def om_del_def AList.delete_eq)

section \<open>Storing under a key\<close>

text \<open>
  The contract of every keyed collection of the program (the language's \<open>Map\<close>, an object
  used as a dictionary): what a look-up returns after a store or a removal.
\<close>

locale keyed_store =
  fixes get :: "'m \<Rightarrow> 'k \<Rightarrow> 'v option"
    and put :: "'k \<Rightarrow> 'v \<Rightarrow> 'm \<Rightarrow> 'm"
    and rem :: "'k \<Rightarrow> 'm \<Rightarrow> 'm"
  assumes get_put: "get (put k v m) j = (if j = k then Some v else get m j)"
    and get_rem: "get (rem k m) j = (if j = k then None else get m j)"
begin

lemma get_put_same: "get (put k v m) k = Some v"
  by (simp add: get_put)

lemma get_after_remove: "get (rem k (put k v m)) j = (if j = k then None else get m j)"
  by (simp add: get_put get_rem)

lemma fold_rem: "get (fold rem ks m) j = (if j \<in> set ks then None else get m j)"
  by (induction ks arbitrary: m) (auto simp: get_rem)

lemma put_commute_get:
  "i \<noteq> k \<Longrightarrow> get (put i u (put k v m)) j = get (put k v (put i u m)) j"
  by (auto simp: get_put)

end

interpretation om: keyed_store om_get om_set om_del
  by unfold_locales simp_all

section \<open>Runs of a component\<close>

text \<open>
  A component is a step function: it takes the state and an event of its environment (a
  message, a timer that fires, a call) and returns the new state and what the code sends,
  emits or calls meanwhile, in order. A run is the fold over a list of events.
\<close>

fun run :: "('s \<Rightarrow> 'e \<Rightarrow> 's \<times> 'o list) \<Rightarrow> 's \<Rightarrow> 'e list \<Rightarrow> 's \<times> 'o list" where
  "run step s [] = (s, [])"
| "run step s (e # es) =
     (let r1 = step s e; r2 = run step (fst r1) es in (fst r2, snd r1 @ snd r2))"

text \<open>State and output apart, to evaluate a run without copying the states into the outputs.\<close>

lemma run_fst: "fst (run step s []) = s" "fst (run step s (e # es)) = fst (run step (fst (step s e)) es)"
  by (simp_all add: Let_def)

lemma run_snd: "snd (run step s []) = []" "snd (run step s (e # es)) = snd (step s e) @ snd (run step (fst (step s e)) es)"
  by (simp_all add: Let_def)

lemma run_append:
  "run step s (es @ fs) =
     (let r1 = run step s es; r2 = run step (fst r1) fs in (fst r2, snd r1 @ snd r2))"
  by (induction es arbitrary: s) (auto simp: Let_def)

locale guarded_machine =
  fixes step :: "'s \<Rightarrow> 'e \<Rightarrow> 's \<times> 'o list"
    and inv :: "'s \<Rightarrow> bool"
    and ok :: "'e \<Rightarrow> bool"
  assumes inv_step: "inv s \<Longrightarrow> ok e \<Longrightarrow> inv (fst (step s e))"
begin

lemma inv_run: "inv s \<Longrightarrow> list_all ok es \<Longrightarrow> inv (fst (run step s es))"
  by (induction es arbitrary: s) (auto simp: Let_def inv_step)

lemma output_run:
  assumes "inv s" and "list_all ok es"
    and "\<And>s e x. inv s \<Longrightarrow> ok e \<Longrightarrow> x \<in> set (snd (step s e)) \<Longrightarrow> P x"
    and "x \<in> set (snd (run step s es))"
  shows "P x"
  using assms(1,2,4)
proof (induction es arbitrary: s)
  case Nil
  then show ?case by simp
next
  case (Cons e es)
  from Cons.prems(3) consider "x \<in> set (snd (step s e))"
    | "x \<in> set (snd (run step (fst (step s e)) es))" by (auto simp: Let_def)
  then show ?case
  proof cases
    case 1
    then show ?thesis using assms(3) [of s e x] Cons.prems by simp
  next
    case 2
    then show ?thesis using Cons.IH [of "fst (step s e)"] Cons.prems inv_step by simp
  qed
qed

end

locale invariant_machine =
  fixes step :: "'s \<Rightarrow> 'e \<Rightarrow> 's \<times> 'o list"
    and inv :: "'s \<Rightarrow> bool"
  assumes always_step: "inv s \<Longrightarrow> inv (fst (step s e))"

sublocale invariant_machine \<subseteq> guarded_machine step inv "\<lambda>_. True"
  by unfold_locales (rule always_step)

context invariant_machine begin

lemma always_run: "inv s \<Longrightarrow> inv (fst (run step s es))"
  by (rule inv_run) (simp_all add: list_all_iff)

lemma always_output:
  "inv s \<Longrightarrow> (\<And>s e x. inv s \<Longrightarrow> x \<in> set (snd (step s e)) \<Longrightarrow> P x) \<Longrightarrow>
   x \<in> set (snd (run step s es)) \<Longrightarrow> P x"
  by (rule output_run [of s es]) (auto simp: list_all_iff)

end

section \<open>Promises\<close>

text \<open>
  What a caller of an asynchronous operation relies on: a call that has been made is owed an
  answer until it gets one. The law is one of multisets, so it also says that no answer comes
  twice. Several components of the program are instances.
\<close>

locale obligations =
  fixes step :: "'s \<Rightarrow> 'e \<Rightarrow> 's \<times> 'o list"
    and owed :: "'s \<Rightarrow> 'k list"
    and answers :: "'o list \<Rightarrow> 'k list"
    and calls :: "'e \<Rightarrow> 'k list"
  assumes conserve: "mset (owed (fst (step s e))) + mset (answers (snd (step s e))) = mset (owed s) + mset (calls e)"
    and answers_Nil: "answers [] = []"
    and answers_append: "answers (xs @ ys) = answers xs @ answers ys"
begin

lemma conserve_run:
  "mset (owed (fst (run step s es))) + mset (answers (snd (run step s es))) =
   mset (owed s) + mset (concat (map calls es))"
proof (induction es arbitrary: s)
  case Nil
  then show ?case by (simp add: answers_Nil)
next
  case (Cons e es)
  have "mset (owed (fst (run step s (e # es)))) + mset (answers (snd (run step s (e # es)))) =
      mset (answers (snd (step s e))) + (mset (owed (fst (run step (fst (step s e)) es))) +
        mset (answers (snd (run step (fst (step s e)) es))))"
    by (simp add: Let_def answers_append)
  also have "\<dots> = mset (answers (snd (step s e))) + (mset (owed (fst (step s e))) + mset (concat (map calls es)))"
    by (simp only: Cons.IH)
  also have "\<dots> = mset (owed s) + mset (calls e) + mset (concat (map calls es))"
    using conserve [of s e] by (simp only: ac_simps)
  finally show ?case by (simp add: ac_simps)
qed

lemma answered_once:
  assumes "owed s = []" and "distinct (concat (map calls es))"
  shows "distinct (answers (snd (run step s es)))"
    and "set (owed (fst (run step s es))) \<inter> set (answers (snd (run step s es))) = {}"
    and "set (owed (fst (run step s es))) \<union> set (answers (snd (run step s es))) = set (concat (map calls es))"
proof -
  let ?p = "owed (fst (run step s es))" and ?a = "answers (snd (run step s es))"
  have m: "mset (?p @ ?a) = mset (concat (map calls es))" using conserve_run [of s es] assms(1) by simp
  have "distinct (?p @ ?a)" using assms(2) mset_eq_imp_distinct_iff [OF m] by blast
  then show "distinct ?a" and "set ?p \<inter> set ?a = {}" by simp_all
  show "set ?p \<union> set ?a = set (concat (map calls es))" using arg_cong [OF m, of set_mset] by simp
qed

end

end
