(* ===== verification/Bytes.thy ===== *)
theory Bytes imports Prelude "HOL-Library.Word" begin

text \<open>
  Buffers of the language: a \<open>Buffer\<close> is a list of bytes (\<open>8 word\<close>), with the big-endian
  readers and writers the sources use (\<open>readUInt16BE\<close>, \<open>readUInt32BE\<close>, \<open>readInt32BE\<close>,
  \<open>writeUInt16BE\<close>, \<open>writeUInt32BE\<close>, \<open>writeInt32BE\<close>) and hexadecimal text
  (\<open>toString('hex')\<close>, \<open>Buffer.from(s, 'hex')\<close>, \<open>parseInt(s, 16)\<close>). The lemmas say that
  the readers invert the writers.
\<close>

type_synonym byte = "8 word"

section \<open>Big-endian numbers\<close>

definition u16 :: "byte list \<Rightarrow> nat \<Rightarrow> nat" where
  "u16 b i = unat (b ! i) * 256 + unat (b ! Suc i)"

definition u32 :: "byte list \<Rightarrow> nat \<Rightarrow> nat" where
  "u32 b i = u16 b i * 65536 + u16 b (i + 2)"

definition i32 :: "byte list \<Rightarrow> nat \<Rightarrow> int" where
  "i32 b i = (if u32 b i < 2 ^ 31 then int (u32 b i) else int (u32 b i) - 2 ^ 32)"

definition put16 :: "nat \<Rightarrow> byte list" where
  "put16 n = [of_nat (n div 256), of_nat n]"

definition put32 :: "nat \<Rightarrow> byte list" where
  "put32 n = put16 (n div 65536) @ put16 n"

definition put_i32 :: "int \<Rightarrow> byte list" where
  "put_i32 i = put32 (nat (i mod 2 ^ 32))"

lemma unat_byte: "unat (of_nat n :: byte) = n mod 256"
  by (simp add: unat_of_nat)

lemma length_put [simp]: "length (put16 n) = 2" "length (put32 n) = 4" "length (put_i32 i) = 4"
  by (simp_all add: put16_def put32_def put_i32_def)

lemma u16_put16: "n < 65536 \<Longrightarrow> u16 (put16 n) 0 = n"
  by (simp add: u16_def put16_def unat_byte)

lemma u16_mod: "u16 (put16 n) 0 = n mod 65536"
  by (simp add: u16_def put16_def unat_byte mod_mult2_eq [of n 256 256, simplified])

lemma u16_at: "length p = i \<Longrightarrow> u16 (p @ put16 n @ r) i = n mod 65536"
proof -
  assume p: "length p = i"
  have "(p @ put16 n @ r) ! i = put16 n ! 0" "(p @ put16 n @ r) ! Suc i = put16 n ! 1"
    using p by (simp_all add: nth_append put16_def)
  then show ?thesis using u16_mod [of n] by (simp add: u16_def)
qed

lemma u32_at: "length p = i \<Longrightarrow> u32 (p @ put32 n @ r) i = n mod 2 ^ 32"
proof -
  assume p: "length p = i"
  have "u16 (p @ put32 n @ r) i = n div 65536 mod 65536"
    using u16_at [OF p, of "n div 65536" "put16 n @ r"] by (simp add: put32_def)
  moreover have "u16 (p @ put32 n @ r) (i + 2) = n mod 65536"
    using u16_at [of "p @ put16 (n div 65536)" "i + 2" n r] p by (simp add: put32_def)
  ultimately show ?thesis
    by (simp add: u32_def mod_mult2_eq [of n 65536 65536, simplified])
qed

lemma i32_at:
  assumes "length p = i" and "- (2 ^ 31) \<le> x" and "x < 2 ^ 31"
  shows "i32 (p @ put_i32 x @ r) i = x"
proof -
  have m: "u32 (p @ put_i32 x @ r) i = nat (x mod 2 ^ 32)"
    using u32_at [OF assms(1), of "nat (x mod 2 ^ 32)" r] by (simp add: put_i32_def nat_less_iff)
  show ?thesis
  proof (cases "0 \<le> x")
    case True
    then have "x mod 2 ^ 32 = x" using assms(3) by simp
    then show ?thesis using m True assms(3) by (simp add: i32_def nat_less_iff)
  next
    case False
    then have "(x + 2 ^ 32) mod 2 ^ 32 = x + 2 ^ 32" using assms(2) by (intro mod_pos_pos_trivial) simp_all
    then have "x mod 2 ^ 32 = x + 2 ^ 32" by simp
    then show ?thesis using m False assms(2) by (simp add: i32_def nat_less_iff)
  qed
qed

section \<open>Hexadecimal text\<close>

definition hex_char :: "nat \<Rightarrow> char" where
  "hex_char n = ''0123456789abcdef'' ! n"

definition hex_value :: "char \<Rightarrow> nat option" where
  "hex_value c =
     (let n = of_char c in
      if 48 \<le> n \<and> n \<le> 57 then Some (n - 48)
      else if 97 \<le> n \<and> n \<le> 102 then Some (n - 87)
      else if 65 \<le> n \<and> n \<le> 70 then Some (n - 55) else None)"

lemma hex_value_char:
  assumes "n < 16"
  shows "hex_value (hex_char n) = Some n"
proof -
  have "list_all (\<lambda>n. hex_value (hex_char n) = Some n) [0..<16]"
    by (simp add: upt_rec hex_char_def hex_value_def)
  then show ?thesis using assms by (simp add: list_all_iff)
qed

text \<open>\<open>buffer.toString('hex')\<close>, and \<open>Buffer.from(s, 'hex')\<close>, which stops at the first pair that is not hexadecimal.\<close>

definition hex_of :: "byte list \<Rightarrow> string" where
  "hex_of b = concat (map (\<lambda>x. [hex_char (unat x div 16), hex_char (unat x mod 16)]) b)"

fun of_hex :: "string \<Rightarrow> byte list" where
  "of_hex (c # d # cs) =
     (case hex_value c of None \<Rightarrow> []
      | Some m \<Rightarrow> (case hex_value d of None \<Rightarrow> [] | Some n \<Rightarrow> of_nat (16 * m + n) # of_hex cs))"
| "of_hex _ = []"

lemma of_hex_of [simp]: "of_hex (hex_of b) = b"
proof (induction b)
  case Nil
  then show ?case by (simp add: hex_of_def)
next
  case (Cons x b)
  have "unat x < 256" using unsigned_less [of x, where 'a = nat] by simp
  then have "unat x div 16 < 16" "unat x mod 16 < 16" by simp_all
  moreover have "(of_nat (16 * (unat x div 16) + unat x mod 16) :: byte) = x" by simp
  ultimately show ?case using Cons by (simp add: hex_of_def hex_value_char)
qed

end
