(* ===== verification/Ttl_Set.thy ===== *)
theory Ttl_Set imports Prelude begin

text \<open>
  \<open>lib/util/ttlset.ts\<close>: the set of values with a time to live that the reaper keeps. The
  code is a doubly linked list through mutable items plus a dictionary from values to items,
  so the model keeps an explicit heap of items; \<open>None\<close> is \<open>null\<close>. The one pending
  timeout is its due time. Keys that name members of \<open>Object.prototype\<close> are outside the
  model (\<open>mapping\<close> is a plain object in the code).

  The second half abstracts the heap to what a client can see, the set of present values and
  the line of values in check order, and proves that every operation implements the abstract
  one.
\<close>

unbundle bit_operations_syntax

section \<open>State\<close>

record ttl_item =
  it_value :: string
  it_time :: millis
  it_prev :: "nat option"
  it_next :: "nat option"

record ttl_set =
  tt_ttl :: millis
  tt_heap :: "nat \<Rightarrow> ttl_item"
  tt_alloc :: nat
  tt_head :: "nat option"
  tt_tail :: "nat option"
  tt_map :: "string \<rightharpoonup> nat"
  tt_timer :: "millis option"

datatype ttl_event = Insert string | Drop string

definition SILENT :: int where
  "SILENT = 1"

definition ttl_new :: "millis \<Rightarrow> ttl_set" where
  "ttl_new t = \<lparr>tt_ttl = t, tt_heap = (\<lambda>_. \<lparr>it_value = [], it_time = 0, it_prev = None, it_next = None\<rparr>),
     tt_alloc = 0, tt_head = None, tt_tail = None, tt_map = Map.empty, tt_timer = None\<rparr>"

abbreviation nx :: "ttl_set \<Rightarrow> nat \<Rightarrow> nat option" where
  "nx s a \<equiv> it_next (tt_heap s a)"

abbreviation pv :: "ttl_set \<Rightarrow> nat \<Rightarrow> nat option" where
  "pv s a \<equiv> it_prev (tt_heap s a)"

definition set_item :: "nat \<Rightarrow> (ttl_item \<Rightarrow> ttl_item) \<Rightarrow> ttl_set \<Rightarrow> ttl_set" where
  "set_item a f s = s\<lparr>tt_heap := (tt_heap s)(a := f (tt_heap s a))\<rparr>"

section \<open>Operations\<close>

definition ttl_schedule :: "ttl_set \<Rightarrow> millis \<Rightarrow> ttl_set" where
  "ttl_schedule s now = s\<lparr>tt_timer :=
     (case tt_head s of None \<Rightarrow> None
      | Some h \<Rightarrow> Some (now + max 0 (tt_ttl s - (now - it_time (tt_heap s h)))))\<rparr>"

fun ttl_remove :: "ttl_set \<Rightarrow> nat option \<Rightarrow> ttl_set \<times> nat option" where
  "ttl_remove s None = (s, None)"
| "ttl_remove s (Some a) =
     (let s1 = (case pv s a of None \<Rightarrow> s | Some p \<Rightarrow> set_item p (\<lambda>i. i\<lparr>it_next := nx s a\<rparr>) s);
          s2 = (case nx s1 a of None \<Rightarrow> s1 | Some n \<Rightarrow> set_item n (\<lambda>i. i\<lparr>it_prev := pv s1 a\<rparr>) s1);
          s3 = (if tt_head s2 = Some a then s2\<lparr>tt_head := nx s2 a\<rparr> else s2);
          s4 = (if tt_tail s3 = Some a then s3\<lparr>tt_tail := pv s3 a\<rparr> else s3)
      in (set_item a (\<lambda>i. i\<lparr>it_next := None, it_prev := None\<rparr>) s4, Some a))"

definition ttl_silent :: "int \<Rightarrow> bool" where
  "ttl_silent flags = (flags AND SILENT = SILENT)"

definition ttl_create :: "ttl_set \<Rightarrow> string \<Rightarrow> nat option \<Rightarrow> int \<Rightarrow> ttl_set \<times> nat \<times> ttl_event list" where
  "ttl_create s value prev flags =
     (let a = tt_alloc s
      in (s\<lparr>tt_heap := (tt_heap s)(a := \<lparr>it_value = value, it_time = 0, it_prev = prev, it_next = None\<rparr>),
            tt_alloc := Suc a, tt_map := (tt_map s)(value \<mapsto> a)\<rparr>,
          a, if ttl_silent flags then [] else [Insert value]))"

definition ttl_bump :: "ttl_set \<Rightarrow> string \<Rightarrow> millis \<Rightarrow> millis \<Rightarrow> int \<Rightarrow> ttl_set \<times> ttl_event list" where
  "ttl_bump s value time now flags =
     (let r = ttl_remove s (tt_map s value);
          c = (case snd r of Some a \<Rightarrow> (fst r, a, []) | None \<Rightarrow> ttl_create (fst r) value (tt_tail (fst r)) flags);
          a = fst (snd c);
          s1 = set_item a (\<lambda>i. i\<lparr>it_time := num_or time now\<rparr>) (fst c);
          s2 = s1\<lparr>tt_tail := Some a\<rparr>;
          s3 = (case pv s2 a of Some p \<Rightarrow> set_item p (\<lambda>i. i\<lparr>it_next := Some a\<rparr>) s2
                | None \<Rightarrow> s2\<lparr>tt_head := Some a\<rparr>)
      in (ttl_schedule s3 now, snd (snd c)))"

fun ttl_drop_item :: "ttl_set \<Rightarrow> nat option \<Rightarrow> int \<Rightarrow> ttl_set \<times> ttl_event list" where
  "ttl_drop_item s None flags = (s, [])"
| "ttl_drop_item s (Some a) flags =
     (let s1 = fst (ttl_remove s (Some a)); v = it_value (tt_heap s1 a)
      in (s1\<lparr>tt_map := (tt_map s1)(v := None)\<rparr>, if ttl_silent flags then [] else [Drop v]))"

definition ttl_drop :: "ttl_set \<Rightarrow> string \<Rightarrow> int \<Rightarrow> ttl_set \<times> ttl_event list" where
  "ttl_drop s value flags = ttl_drop_item s (tt_map s value) flags"

definition ttl_stop :: "ttl_set \<Rightarrow> ttl_set" where
  "ttl_stop s = s\<lparr>tt_timer := None\<rparr>"

text \<open>The loop of \<open>check\<close>: nothing in the code bounds it, so not returning is \<open>None\<close>.\<close>

partial_function (option) ttl_check_loop ::
  "ttl_set \<Rightarrow> millis \<Rightarrow> ttl_event list \<Rightarrow> (ttl_set \<times> ttl_event list) option" where
  "ttl_check_loop s now evs =
     (case tt_head s of None \<Rightarrow> Some (s, evs)
      | Some a \<Rightarrow>
          (if now - it_time (tt_heap s a) > tt_ttl s
           then ttl_check_loop (fst (ttl_drop_item s (Some a) 0)) now
                  (evs @ snd (ttl_drop_item s (Some a) 0))
           else Some (s, evs)))"

definition ttl_check :: "ttl_set \<Rightarrow> millis \<Rightarrow> (ttl_set \<times> ttl_event list) option" where
  "ttl_check s now = map_option (\<lambda>r. (ttl_schedule (fst r) now, snd r)) (ttl_check_loop s now [])"

section \<open>Linked lines\<close>

fun path :: "(nat \<Rightarrow> nat option) \<Rightarrow> nat option \<Rightarrow> nat list \<Rightarrow> bool" where
  "path n p [] = (p = None)"
| "path n p (a # as) = (p = Some a \<and> path n (n a) as)"

lemma path_unique: "path n p xs \<Longrightarrow> path n p ys \<Longrightarrow> xs = ys"
proof (induction xs arbitrary: p ys)
  case Nil
  then show ?case by (cases ys) auto
next
  case (Cons a xs)
  then show ?case by (cases ys) auto
qed

lemma path_suffix: "path n p (ys @ a # zs) \<Longrightarrow> path n (Some a) (a # zs)"
  by (induction ys arbitrary: p) auto

lemma path_distinct: "path n p xs \<Longrightarrow> distinct xs"
proof (induction xs arbitrary: p)
  case Nil
  then show ?case by simp
next
  case (Cons a as)
  have "a \<notin> set as"
  proof
    assume "a \<in> set as"
    then obtain ys zs where as: "as = ys @ a # zs" by (auto dest: split_list)
    from Cons.prems have "path n (Some a) (a # as)" by simp
    moreover from Cons.prems as have "path n (Some a) (a # zs)"
      using path_suffix [of n "n a" ys a zs] by simp
    ultimately have "a # as = a # zs" by (rule path_unique)
    then show False using as by simp
  qed
  then show ?case using Cons.IH [of "n a"] Cons.prems by simp
qed

lemma path_upd: "a \<notin> set xs \<Longrightarrow> path (n(a := q)) p xs = path n p xs"
  by (induction xs arbitrary: p) auto

lemma path_cong: "(\<And>a. a \<in> set xs \<Longrightarrow> n a = n' a) \<Longrightarrow> path n p xs = path n' p xs"
  by (induction xs arbitrary: p) auto

lemma path_last: "path n p xs \<Longrightarrow> xs \<noteq> [] \<Longrightarrow> n (last xs) = None"
proof (induction xs arbitrary: p)
  case (Cons a xs)
  then show ?case by (cases xs) auto
qed simp

lemma path_hd: "path n p xs \<Longrightarrow> p = (case xs of [] \<Rightarrow> None | a # _ \<Rightarrow> Some a)"
  by (cases xs) auto

lemma path_link: "path n p (ys @ a # zs) \<Longrightarrow> ys \<noteq> [] \<Longrightarrow> n (last ys) = Some a"
proof (induction ys arbitrary: p)
  case (Cons y ys)
  then show ?case by (cases ys) auto
qed simp

lemma path_step_in: "path n p xs \<Longrightarrow> a \<in> set xs \<Longrightarrow> n a = Some b \<Longrightarrow> b \<in> set xs"
proof (induction xs arbitrary: p)
  case (Cons x xs)
  then show ?case by (cases xs) auto
qed simp

lemma path_snoc: "path n p xs \<Longrightarrow> xs \<noteq> [] \<Longrightarrow> b \<notin> set xs \<Longrightarrow>
  path (n(last xs := Some b, b := None)) p (xs @ [b])"
proof (induction xs arbitrary: p)
  case (Cons x xs)
  show ?case
  proof (cases xs)
    case Nil
    then show ?thesis using Cons.prems by auto
  next
    case (Cons y ys)
    have "distinct (x # xs)" using path_distinct Cons.prems(1) by blast
    then have "last xs \<noteq> x" using \<open>xs = y # ys\<close> last_in_set [of xs] by (metis distinct.simps(2) list.discI)
    then show ?thesis using Cons.IH [of "n x"] Cons.prems \<open>xs = y # ys\<close> by auto
  qed
qed simp

lemma path_unlink:
  "path n p (ys @ a # zs) \<Longrightarrow> ys \<noteq> [] \<Longrightarrow> path (n(last ys := n a, a := None)) p (ys @ zs)"
proof (induction ys arbitrary: p)
  case (Cons y ys)
  have d: "distinct (y # ys @ a # zs)" using path_distinct Cons.prems(1) by fastforce
  show ?case
  proof (cases ys)
    case Nil
    have "path (n(y := n a, a := None)) (n a) zs = path n (n a) zs"
      by (rule path_cong) (use d Nil in auto)
    then show ?thesis using Cons.prems Nil d by (simp add: fun_upd_def)
  next
    case (Cons z us)
    then have "last ys \<noteq> y" using d last_in_set [of ys] by (metis Un_iff distinct.simps(2) list.discI set_append)
    then show ?thesis using Cons.IH [of "n y"] Cons.prems d \<open>ys = z # us\<close> by auto
  qed
qed simp

section \<open>The heap invariant\<close>

text \<open>
  \<open>ttl_ok s xs\<close>: the items reachable from the head are \<open>xs\<close>, in this order; the tail is the
  last of them; links are symmetric over the whole heap (also between items that are no
  longer reachable from the head, see \<open>ttl_bump_old\<close>) and go from older to newer items; the dictionary points to allocated
  items that hold their key; every item of the line is in the dictionary.
\<close>

definition links_ok :: "ttl_set \<Rightarrow> bool" where
  "links_ok s \<longleftrightarrow> (\<forall>a b. (nx s a = Some b \<longleftrightarrow> pv s b = Some a) \<and> (nx s a = Some b \<longrightarrow> a < b))"

definition map_ok :: "ttl_set \<Rightarrow> bool" where
  "map_ok s \<longleftrightarrow> (\<forall>v a. tt_map s v = Some a \<longrightarrow> a < tt_alloc s \<and> it_value (tt_heap s a) = v)"

definition fresh_ok :: "ttl_set \<Rightarrow> bool" where
  "fresh_ok s \<longleftrightarrow> (\<forall>a \<ge> tt_alloc s. nx s a = None \<and> pv s a = None)"

definition line_ok :: "ttl_set \<Rightarrow> nat list \<Rightarrow> bool" where
  "line_ok s xs \<longleftrightarrow> path (nx s) (tt_head s) xs \<and> tt_tail s = (if xs = [] then None else Some (last xs)) \<and>
     (xs \<noteq> [] \<longrightarrow> pv s (hd xs) = None)"

definition ttl_ok :: "ttl_set \<Rightarrow> nat list \<Rightarrow> bool" where
  "ttl_ok s xs \<longleftrightarrow> links_ok s \<and> map_ok s \<and> fresh_ok s \<and> line_ok s xs \<and>
     (\<forall>a \<in> set xs. tt_map s (it_value (tt_heap s a)) = Some a)"

lemma ttl_ok_new: "ttl_ok (ttl_new t) []"
  by (simp add: ttl_ok_def ttl_new_def links_ok_def map_ok_def fresh_ok_def line_ok_def)

lemma line_distinct: "line_ok s xs \<Longrightarrow> distinct xs"
  by (auto simp: line_ok_def dest: path_distinct)

lemma line_outside:
  assumes "links_ok s" and "line_ok s xs" and "a \<notin> set xs"
  shows "nx s a = Some n \<Longrightarrow> n \<notin> set xs" and "pv s a = Some p \<Longrightarrow> p \<notin> set xs"
proof -
  show "n \<notin> set xs" if n: "nx s a = Some n"
  proof
    assume "n \<in> set xs"
    then obtain ys zs where xs: "xs = ys @ n # zs" by (auto dest: split_list)
    have pa: "pv s n = Some a" using n assms(1) by (simp add: links_ok_def)
    show False
    proof (cases "ys = []")
      case True
      then show False using assms(2) xs pa by (simp add: line_ok_def)
    next
      case False
      then have "nx s (last ys) = Some n" using assms(2) xs path_link by (auto simp: line_ok_def)
      then have "last ys = a" using pa assms(1) by (simp add: links_ok_def)
      then show False using assms(3) xs False last_in_set [of ys] by auto
    qed
  qed
  show "p \<notin> set xs" if p: "pv s a = Some p"
  proof
    assume "p \<in> set xs"
    moreover have "nx s p = Some a" using p assms(1) by (simp add: links_ok_def)
    ultimately show False using assms(2,3) path_step_in by (auto simp: line_ok_def)
  qed
qed

section \<open>Unlinking\<close>

text \<open>What \<open>remove\<close> leaves of the heap, in one equation per field.\<close>

lemma ttl_remove_fields:
  fixes s :: ttl_set and a b :: nat
  assumes "links_ok s"
  defines "t \<equiv> fst (ttl_remove s (Some a))"
  shows "nx t b = (if b = a then None else if pv s a = Some b then nx s a else nx s b)"
    and "pv t b = (if b = a then None else if nx s a = Some b then pv s a else pv s b)"
    and "tt_head t = (if tt_head s = Some a then nx s a else tt_head s)"
    and "tt_tail t = (if tt_tail s = Some a then pv s a else tt_tail s)"
    and "it_value (tt_heap t b) = it_value (tt_heap s b)"
    and "it_time (tt_heap t b) = it_time (tt_heap s b)"
    and "tt_map t = tt_map s" and "tt_alloc t = tt_alloc s" and "tt_ttl t = tt_ttl s"
proof -
  have n: "nx s a \<noteq> Some a" using assms(1) by (auto simp: links_ok_def)
  then have p: "pv s a \<noteq> Some a" using assms(1) by (simp add: links_ok_def)
  show "nx t b = (if b = a then None else if pv s a = Some b then nx s a else nx s b)"
    using n p by (auto simp: t_def set_item_def Let_def fun_eq_iff split: option.splits)
  show "pv t b = (if b = a then None else if nx s a = Some b then pv s a else pv s b)"
    using n p by (auto simp: t_def set_item_def Let_def fun_eq_iff split: option.splits)
  show "tt_head t = (if tt_head s = Some a then nx s a else tt_head s)"
    using n p by (auto simp: t_def set_item_def Let_def split: option.splits)
  show "tt_tail t = (if tt_tail s = Some a then pv s a else tt_tail s)"
    using n p by (auto simp: t_def set_item_def Let_def split: option.splits)
  show "it_value (tt_heap t b) = it_value (tt_heap s b)"
    "it_time (tt_heap t b) = it_time (tt_heap s b)"
    "tt_map t = tt_map s" "tt_alloc t = tt_alloc s" "tt_ttl t = tt_ttl s"
    by (auto simp: t_def set_item_def Let_def split: option.splits)
qed

declare ttl_remove.simps(2) [simp del]

lemma ttl_remove_links:
  assumes "links_ok s"
  shows "links_ok (fst (ttl_remove s (Some a)))"
proof -
  have sym: "nx s x = Some y \<longleftrightarrow> pv s y = Some x" and ord: "nx s x = Some y \<Longrightarrow> x < y" for x y
    using assms by (auto simp: links_ok_def)
  have pord: "pv s y = Some x \<Longrightarrow> x < y" for x y using sym ord by blast
  show ?thesis
    unfolding links_ok_def ttl_remove_fields(1,2) [OF assms]
  proof (intro allI conjI impI)
    fix x y
    show "((if x = a then None else if pv s a = Some x then nx s a else nx s x) = Some y) =
          ((if y = a then None else if nx s a = Some y then pv s a else pv s y) = Some x)"
      using sym [of x y] sym [of x a] sym [of a y] ord [of a a] pord [of a a] by auto
    assume "(if x = a then None else if pv s a = Some x then nx s a else nx s x) = Some y"
    then show "x < y" using ord [of x y] ord [of a y] pord [of a x] by (auto split: if_splits)
  qed
qed

lemma ttl_remove_fresh:
  assumes "links_ok s" and "fresh_ok s"
  shows "fresh_ok (fst (ttl_remove s (Some a)))"
proof -
  have "pv s a \<noteq> Some b \<and> nx s a \<noteq> Some b" if "tt_alloc s \<le> b" for b
    using assms that by (metis fresh_ok_def links_ok_def option.distinct(1))
  then show ?thesis
    using assms(2) ttl_remove_fields(1,2,8) [OF assms(1), of a] by (simp add: fresh_ok_def)
qed

lemma line_ends:
  assumes "links_ok s" and "line_ok s (ys @ a # zs)"
  shows "pv s a = (if ys = [] then None else Some (last ys))"
    and "nx s a = (if zs = [] then None else Some (hd zs))"
    and "tt_head s = Some a \<longleftrightarrow> ys = []" and "tt_tail s = Some a \<longleftrightarrow> zs = []"
proof -
  have d: "distinct (ys @ a # zs)" using assms(2) by (rule line_distinct)
  have pth: "path (nx s) (tt_head s) (ys @ a # zs)" using assms(2) by (simp add: line_ok_def)
  show "pv s a = (if ys = [] then None else Some (last ys))"
    using assms path_link [OF pth] by (auto simp: line_ok_def links_ok_def)
  have "path (nx s) (Some a) (a # zs)" using path_suffix [OF pth] .
  then show "nx s a = (if zs = [] then None else Some (hd zs))" by (cases zs) auto
  show "tt_head s = Some a \<longleftrightarrow> ys = []"
    using path_hd [OF pth] d by (cases ys) auto
  show "tt_tail s = Some a \<longleftrightarrow> zs = []"
    using assms(2) d by (auto simp: line_ok_def)
qed

lemma ttl_remove_line_in:
  assumes "links_ok s" and "line_ok s (ys @ a # zs)"
  shows "line_ok (fst (ttl_remove s (Some a))) (ys @ zs)"
proof -
  let ?t = "fst (ttl_remove s (Some a))"
  note f = ttl_remove_fields [OF assms(1), of a] and e = line_ends [OF assms]
  have d: "distinct (ys @ a # zs)" using assms(2) by (rule line_distinct)
  have pth: "path (nx s) (tt_head s) (ys @ a # zs)" using assms(2) by (simp add: line_ok_def)
  have n: "nx ?t = (if ys = [] then (nx s)(a := None) else (nx s)(last ys := nx s a, a := None))"
    using f(1) e(1) d by (auto simp: fun_eq_iff)
  have "path (nx ?t) (tt_head ?t) (ys @ zs)"
  proof (cases "ys = []")
    case True
    then have "path (nx s) (nx s a) zs" using pth by simp
    then show ?thesis using True n f(3) e(3) d by (simp add: path_upd)
  next
    case False
    then show ?thesis using path_unlink [OF pth False] n f(3) e(3) by simp
  qed
  moreover have "tt_tail ?t = (if ys @ zs = [] then None else Some (last (ys @ zs)))"
    using f(4) e(1,4) assms(2) by (auto simp: line_ok_def)
  moreover have "pv ?t (hd (ys @ zs)) = None" if "ys @ zs \<noteq> []"
  proof (cases ys)
    case Nil
    then have "nx s a = Some (hd zs)" using that e(2) by auto
    then show ?thesis using Nil e(1) f(2) by simp
  next
    case (Cons y ys')
    then have "nx s a \<noteq> Some y" "pv s y = None" using e(2) d assms(2) by (auto simp: line_ok_def split: if_splits)
    then show ?thesis using Cons f(2) by simp
  qed
  ultimately show ?thesis by (simp add: line_ok_def)
qed

lemma ttl_remove_line_out:
  assumes "links_ok s" and "line_ok s xs" and "a \<notin> set xs"
  shows "line_ok (fst (ttl_remove s (Some a))) xs"
proof -
  let ?t = "fst (ttl_remove s (Some a))"
  note f = ttl_remove_fields [OF assms(1), of a]
  have pth: "path (nx s) (tt_head s) xs" using assms(2) by (simp add: line_ok_def)
  have h: "tt_head s \<noteq> Some a" using path_hd [OF pth] assms(3) by (cases xs) auto
  have l: "tt_tail s \<noteq> Some a" using assms(2,3) by (auto simp: line_ok_def)
  have "path (nx ?t) (tt_head s) xs = path (nx s) (tt_head s) xs"
    by (rule path_cong) (use f(1) assms(3) line_outside(2) [OF assms] in auto)
  moreover have "pv ?t (hd xs) = pv s (hd xs)" if "xs \<noteq> []"
    using f(2) assms(3) line_outside(1) [OF assms, of "hd xs"] that by auto
  ultimately show ?thesis using assms(2) h l f(3,4) by (auto simp: line_ok_def)
qed

lemma ttl_remove_line:
  assumes "links_ok s" and "line_ok s xs"
  shows "line_ok (fst (ttl_remove s (Some a))) (remove1 a xs)"
proof (cases "a \<in> set xs")
  case True
  then obtain ys zs where xs: "xs = ys @ a # zs" and "a \<notin> set ys" by (auto dest: split_list_first)
  then have "remove1 a xs = ys @ zs" by (simp add: remove1_append)
  then show ?thesis using ttl_remove_line_in assms xs by simp
next
  case False
  then show ?thesis using ttl_remove_line_out [OF assms] by (simp add: remove1_idem)
qed

section \<open>The abstract set\<close>

text \<open>
  What a client of the set can observe: which values are present, and the values that the
  expiry check walks over, oldest first, with the times they were last bumped at.
\<close>

record ttl_view =
  vw_present :: "string set"
  vw_line :: "(string \<times> millis) list"

definition view_bump :: "ttl_view \<Rightarrow> string \<Rightarrow> millis \<Rightarrow> ttl_view" where
  "view_bump A v t =
     (if v \<in> vw_present A then A\<lparr>vw_line := [(v, t)]\<rparr>
      else \<lparr>vw_present = insert v (vw_present A), vw_line = vw_line A @ [(v, t)]\<rparr>)"

definition view_drop :: "ttl_view \<Rightarrow> string \<Rightarrow> ttl_view" where
  "view_drop A v = \<lparr>vw_present = vw_present A - {v}, vw_line = filter (\<lambda>e. fst e \<noteq> v) (vw_line A)\<rparr>"

definition view_expired :: "millis \<Rightarrow> millis \<Rightarrow> string \<times> millis \<Rightarrow> bool" where
  "view_expired ttl now e \<longleftrightarrow> now - snd e > ttl"

definition view_check :: "ttl_view \<Rightarrow> millis \<Rightarrow> millis \<Rightarrow> ttl_view" where
  "view_check A ttl now =
     \<lparr>vw_present = vw_present A - set (map fst (takeWhile (view_expired ttl now) (vw_line A))),
      vw_line = dropWhile (view_expired ttl now) (vw_line A)\<rparr>"

definition ttl_entry :: "ttl_set \<Rightarrow> nat \<Rightarrow> string \<times> millis" where
  "ttl_entry s a = (it_value (tt_heap s a), it_time (tt_heap s a))"

definition ttl_view_of :: "ttl_set \<Rightarrow> nat list \<Rightarrow> ttl_view" where
  "ttl_view_of s xs = \<lparr>vw_present = dom (tt_map s), vw_line = map (ttl_entry s) xs\<rparr>"

definition ttl_sim :: "ttl_set \<Rightarrow> ttl_view \<Rightarrow> bool" where
  "ttl_sim s A \<longleftrightarrow> (\<exists>xs. ttl_ok s xs \<and> A = ttl_view_of s xs)"

lemma ttl_okD:
  assumes "ttl_ok s xs"
  shows "links_ok s" "map_ok s" "fresh_ok s" "line_ok s xs" "distinct xs"
    and "a \<in> set xs \<Longrightarrow> tt_map s (it_value (tt_heap s a)) = Some a"
  using assms line_distinct by (auto simp: ttl_ok_def)

lemma ttl_ok_schedule [simp]: "ttl_ok (ttl_schedule s now) xs = ttl_ok s xs"
  by (simp add: ttl_ok_def ttl_schedule_def links_ok_def map_ok_def fresh_ok_def line_ok_def)

lemma ttl_view_schedule [simp]: "ttl_view_of (ttl_schedule s now) xs = ttl_view_of s xs"
  by (simp add: ttl_view_of_def ttl_schedule_def ttl_entry_def)

lemma ttl_entry_schedule [simp]: "ttl_entry (ttl_schedule s now) = ttl_entry s"
  by (auto simp: ttl_schedule_def ttl_entry_def fun_eq_iff)

lemma ttl_schedule_ttl: "tt_ttl (ttl_schedule s now) = tt_ttl s"
  by (simp add: ttl_schedule_def)

lemma ttl_ok_stop [simp]: "ttl_ok (ttl_stop s) xs = ttl_ok s xs"
  by (simp add: ttl_ok_def ttl_stop_def links_ok_def map_ok_def fresh_ok_def line_ok_def)

lemma ttl_view_stop [simp]: "ttl_view_of (ttl_stop s) xs = ttl_view_of s xs"
  by (simp add: ttl_view_of_def ttl_stop_def ttl_entry_def)

lemma ttl_map_schedule [simp]: "tt_map (ttl_schedule s now) = tt_map s"
  by (simp add: ttl_schedule_def)

lemma line_value_iff:
  assumes "ttl_ok s xs" and "tt_map s v = Some a" and "b \<in> set xs"
  shows "it_value (tt_heap s b) = v \<longleftrightarrow> b = a"
  using ttl_okD(2,6) [OF assms(1)] assms(2,3) by (auto simp: map_ok_def)

lemma remove1_filter_value:
  assumes "ttl_ok s xs" and "tt_map s v = Some a"
  shows "map (ttl_entry s) (remove1 a xs) = filter (\<lambda>e. fst e \<noteq> v) (map (ttl_entry s) xs)"
proof -
  have "remove1 a xs = filter (\<lambda>b. b \<noteq> a) xs"
    using ttl_okD(5) [OF assms(1)]
    by (simp add: distinct_remove1_removeAll removeAll_filter_not_eq) (auto intro: filter_cong)
  also have "\<dots> = filter (\<lambda>b. it_value (tt_heap s b) \<noteq> v) xs"
    using line_value_iff [OF assms] by (intro filter_cong) auto
  finally show ?thesis by (simp add: filter_map ttl_entry_def comp_def)
qed

lemma ttl_drop_item_ok:
  fixes flags :: int
  assumes "ttl_ok s xs" and "tt_map s v = Some a"
  defines "t \<equiv> fst (ttl_drop_item s (Some a) flags)"
  shows "ttl_ok t (remove1 a xs)" and "ttl_entry t = ttl_entry s" and "tt_map t = (tt_map s)(v := None)"
    and "tt_ttl t = tt_ttl s"
    and "snd (ttl_drop_item s (Some a) flags) = (if ttl_silent flags then [] else [Drop v])"
proof -
  let ?r = "fst (ttl_remove s (Some a))"
  note ok = ttl_okD [OF assms(1)]
  note f = ttl_remove_fields [OF ok(1), of a]
  have va: "it_value (tt_heap s a) = v" using ok(2) assms(2) by (auto simp: map_ok_def)
  have t: "t = ?r\<lparr>tt_map := (tt_map s)(v := None)\<rparr>"
    by (simp add: t_def Let_def f(5,7) va)
  show "ttl_entry t = ttl_entry s" using t f(5,6) by (auto simp: ttl_entry_def fun_eq_iff)
  show m: "tt_map t = (tt_map s)(v := None)" using t by simp
  show "tt_ttl t = tt_ttl s" using t f(9) by simp
  show "snd (ttl_drop_item s (Some a) flags) = (if ttl_silent flags then [] else [Drop v])"
    by (simp add: Let_def f(5) va)
  have "links_ok t" using ttl_remove_links [OF ok(1), of a] t by (simp add: links_ok_def)
  moreover have "line_ok t (remove1 a xs)"
    using ttl_remove_line [OF ok(1,4), of a] t by (simp add: line_ok_def)
  moreover have "map_ok t" using ok(2) t f(5,8) by (auto simp: map_ok_def)
  moreover have "fresh_ok t"
    using ttl_remove_fresh [OF ok(1,3), of a] t by (simp add: fresh_ok_def)
  moreover have "tt_map t (it_value (tt_heap t b)) = Some b" if "b \<in> set (remove1 a xs)" for b
    using that ok(5,6) line_value_iff [OF assms(1,2), of b] m t f(5) by auto
  ultimately show "ttl_ok t (remove1 a xs)" by (simp add: ttl_ok_def)
qed

lemma ttl_drop_view:
  assumes "ttl_ok s xs"
  shows "\<exists>ys. ttl_ok (fst (ttl_drop s v flags)) ys \<and>
    ttl_view_of (fst (ttl_drop s v flags)) ys = view_drop (ttl_view_of s xs) v"
proof (cases "tt_map s v")
  case None
  have "filter (\<lambda>e. fst e \<noteq> v) (map (ttl_entry s) xs) = map (ttl_entry s) xs"
    using ttl_okD(6) [OF assms] None by (auto simp: ttl_entry_def filter_id_conv)
  then show ?thesis
    using None assms by (auto simp: ttl_drop_def view_drop_def ttl_view_of_def intro!: exI [of _ xs])
next
  case (Some a)
  note d = ttl_drop_item_ok [OF assms Some, of flags]
  show ?thesis
    using d(1-3) remove1_filter_value [OF assms Some]
    by (intro exI [of _ "remove1 a xs"]) (auto simp: ttl_drop_def view_drop_def ttl_view_of_def Some)
qed

lemma ttl_bump_old_ok:
  fixes time now :: millis and flags :: int
  assumes "ttl_ok s xs" and "tt_map s v = Some a"
  defines "t \<equiv> fst (ttl_bump s v time now flags)"
  shows "ttl_ok t [a]" and "ttl_view_of t [a] = view_bump (ttl_view_of s xs) v (num_or time now)"
    and "snd (ttl_bump s v time now flags) = []"
proof -
  let ?r = "fst (ttl_remove s (Some a))"
  note ok = ttl_okD [OF assms(1)]
  note f = ttl_remove_fields [OF ok(1), of a]
  have va: "it_value (tt_heap s a) = v" using ok(2) assms(2) by (auto simp: map_ok_def)
  have sr: "snd (ttl_remove s (Some a)) = Some a" by (simp add: ttl_remove.simps(2) Let_def)
  have pa: "pv ?r a = None" and na: "nx ?r a = None" using f(1,2) [of a] by simp_all
  define u where "u = (set_item a (\<lambda>i. i\<lparr>it_time := num_or time now\<rparr>) ?r)\<lparr>tt_tail := Some a, tt_head := Some a\<rparr>"
  have t: "t = ttl_schedule u now"
    using assms(2) sr pa by (simp add: t_def ttl_bump_def u_def Let_def set_item_def)
  have un: "nx u b = nx ?r b" and up: "pv u b = pv ?r b" and uv: "it_value (tt_heap u b) = it_value (tt_heap s b)" for b
    using f(5) [of b] f(5) [of a] by (auto simp: u_def set_item_def)
  have um: "tt_map u = tt_map s" "tt_alloc u = tt_alloc s" using f(7,8) by (auto simp: u_def set_item_def)
  have "links_ok u" using ttl_remove_links [OF ok(1), of a] un up by (simp add: links_ok_def)
  moreover have "line_ok u [a]" using un up pa na by (simp add: line_ok_def) (simp add: u_def set_item_def)
  moreover have "map_ok u" using ok(2) uv um by (simp add: map_ok_def)
  moreover have "fresh_ok u"
    using ttl_remove_fresh [OF ok(1,3), of a] un up um f(8) by (simp add: fresh_ok_def)
  ultimately have "ttl_ok u [a]" using um uv va assms(2) by (simp add: ttl_ok_def)
  then show "ttl_ok t [a]" using t by simp
  have "ttl_entry u a = (v, num_or time now)"
    using va f(5) [of a] by (simp add: ttl_entry_def u_def set_item_def)
  then show "ttl_view_of t [a] = view_bump (ttl_view_of s xs) v (num_or time now)"
    using t um assms(2) by (simp add: ttl_view_of_def view_bump_def domI)
  show "snd (ttl_bump s v time now flags) = []"
    using assms(2) sr by (simp add: ttl_bump_def Let_def)
qed

lemma ttl_bump_new_ok:
  fixes time now :: millis and flags :: int
  assumes "ttl_ok s xs" and "tt_map s v = None"
  defines "t \<equiv> fst (ttl_bump s v time now flags)"
  shows "ttl_ok t (xs @ [tt_alloc s])"
    and "ttl_view_of t (xs @ [tt_alloc s]) = view_bump (ttl_view_of s xs) v (num_or time now)"
    and "snd (ttl_bump s v time now flags) = (if ttl_silent flags then [] else [Insert v])"
proof -
  let ?a = "tt_alloc s"
  note ok = ttl_okD [OF assms(1)]
  have low: "b < ?a" if "b \<in> set xs" for b using ok(2,6) that by (auto simp: map_ok_def)
  have tl: "tt_tail s = (if xs = [] then None else Some (last xs))" using ok(4) by (simp add: line_ok_def)
  define it where "it = \<lparr>it_value = v, it_time = num_or time now, it_prev = tt_tail s, it_next = None\<rparr>"
  define u where "u = s\<lparr>tt_heap := (case tt_tail s of None \<Rightarrow> (tt_heap s)(?a := it)
        | Some p \<Rightarrow> (tt_heap s)(?a := it, p := (tt_heap s p)\<lparr>it_next := Some ?a\<rparr>)),
    tt_alloc := Suc ?a, tt_map := (tt_map s)(v \<mapsto> ?a), tt_tail := Some ?a,
    tt_head := (if tt_tail s = None then Some ?a else tt_head s)\<rparr>"
  have tne: "tt_tail s \<noteq> Some ?a" using tl low [of "last xs"] last_in_set [of xs] by (auto split: if_splits)
  have t: "t = ttl_schedule u now"
    using assms(2) tne
    by (cases "tt_tail s"; simp add: t_def ttl_bump_def ttl_create_def u_def it_def Let_def set_item_def;
        intro arg_cong [where f = "\<lambda>x. ttl_schedule x now"] ttl_set.equality; simp)
  have ub: "tt_heap u b = (if b = ?a then it else if tt_tail s = Some b then (tt_heap s b)\<lparr>it_next := Some ?a\<rparr> else tt_heap s b)" for b
    using tne by (auto simp: u_def split: option.splits)
  have un: "nx u b = (if b = ?a then None else if tt_tail s = Some b then Some ?a else nx s b)"
    and up: "pv u b = (if b = ?a then tt_tail s else pv s b)"
    and uv: "it_value (tt_heap u b) = (if b = ?a then v else it_value (tt_heap s b))"
    and ut: "it_time (tt_heap u b) = (if b = ?a then num_or time now else it_time (tt_heap s b))" for b
    by (auto simp: ub it_def)
  have uf: "tt_alloc u = Suc ?a" "tt_map u = (tt_map s)(v \<mapsto> ?a)" "tt_tail u = Some ?a"
    "tt_head u = (if xs = [] then Some ?a else tt_head s)"
    using tl by (auto simp: u_def)
  have f0: "nx s ?a = None" "pv s ?a = None" using ok(3) by (simp_all add: fresh_ok_def)
  have f1: "nx s b \<noteq> Some ?a" for b
  proof
    assume "nx s b = Some ?a"
    then have "pv s ?a = Some b" using ok(1) by (simp add: links_ok_def)
    then show False using f0 by simp
  qed
  have f2: "pv s b \<noteq> Some ?a" for b
  proof
    assume "pv s b = Some ?a"
    then have "nx s ?a = Some b" using ok(1) by (simp add: links_ok_def)
    then show False using f0 by simp
  qed
  note fa = f1 f2 f0
  have lastn: "nx s b = None" if "tt_tail s = Some b" for b
    using that tl ok(4) path_last by (auto simp: line_ok_def split: if_splits)
  have tlow: "b < ?a" if "tt_tail s = Some b" for b
    using that tl low [of "last xs"] last_in_set [of xs] by (auto split: if_splits)
  have "links_ok u"
    unfolding links_ok_def un up
  proof (intro allI conjI impI)
    fix x y
    have xy: "nx s x = Some y \<longleftrightarrow> pv s y = Some x" "nx s x = Some y \<longrightarrow> x < y"
      using ok(1) by (simp_all add: links_ok_def)
    show "((if x = ?a then None else if tt_tail s = Some x then Some ?a else nx s x) = Some y) =
        ((if y = ?a then tt_tail s else pv s y) = Some x)"
      using xy fa(1) [of x] fa(2) [of y] fa(3,4) lastn [of x] tlow [of x] tne by (cases "y = ?a") auto
    assume "(if x = ?a then None else if tt_tail s = Some x then Some ?a else nx s x) = Some y"
    then show "x < y" using xy tlow [of x] by (auto split: if_splits)
  qed
  moreover have "line_ok u (xs @ [?a])"
  proof (cases "xs = []")
    case True
    then show ?thesis using un up tl uf by (simp add: line_ok_def)
  next
    case False
    have "path ((nx s)(last xs := Some ?a, ?a := None)) (tt_head s) (xs @ [?a])"
      using ok(4) False low by (intro path_snoc) (auto simp: line_ok_def)
    moreover have "nx u = (nx s)(last xs := Some ?a, ?a := None)"
      using un tl False by (auto simp: fun_eq_iff)
    ultimately show ?thesis using False up low [of "hd xs"] ok(4) hd_in_set [of xs]
      by (auto simp: line_ok_def uf)
  qed
  moreover have "map_ok u" using ok(2) assms(2) by (auto simp: map_ok_def uf uv intro: less_SucI)
  moreover have "fresh_ok u"
    using ok(3) low [of "last xs"] last_in_set [of xs] tl unfolding fresh_ok_def un up uf
    by (auto split: if_splits)
  moreover have "tt_map u (it_value (tt_heap u b)) = Some b" if "b \<in> set (xs @ [?a])" for b
    using that ok(6) [of b] assms(2) low by (auto simp: uf uv)
  ultimately have "ttl_ok u (xs @ [?a])" by (simp add: ttl_ok_def)
  then show "ttl_ok t (xs @ [?a])" using t by simp
  have "map (ttl_entry u) xs = map (ttl_entry s) xs" using low by (auto simp: ttl_entry_def uv ut)
  then show "ttl_view_of t (xs @ [?a]) = view_bump (ttl_view_of s xs) v (num_or time now)"
    using t assms(2) by (auto simp: ttl_view_of_def view_bump_def ttl_entry_def uf uv ut)
  show "snd (ttl_bump s v time now flags) = (if ttl_silent flags then [] else [Insert v])"
    using assms(2) by (simp add: ttl_bump_def ttl_create_def Let_def)
qed

lemma ttl_bump_view:
  assumes "ttl_ok s xs"
  shows "\<exists>ys. ttl_ok (fst (ttl_bump s v time now flags)) ys \<and>
    ttl_view_of (fst (ttl_bump s v time now flags)) ys = view_bump (ttl_view_of s xs) v (num_or time now)"
proof (cases "tt_map s v")
  case None
  then show ?thesis using ttl_bump_new_ok [OF assms None] by blast
next
  case (Some a)
  then show ?thesis using ttl_bump_old_ok [OF assms Some] by blast
qed

section \<open>The expiry check\<close>

lemma ttl_check_loop_step:
  "tt_head s = Some a \<Longrightarrow> now - it_time (tt_heap s a) > tt_ttl s \<Longrightarrow>
   ttl_check_loop s now evs =
     ttl_check_loop (fst (ttl_drop_item s (Some a) 0)) now (evs @ snd (ttl_drop_item s (Some a) 0))"
  by (subst ttl_check_loop.simps) simp

lemma ttl_check_loop_done:
  "(\<And>a. tt_head s = Some a \<Longrightarrow> \<not> now - it_time (tt_heap s a) > tt_ttl s) \<Longrightarrow>
   ttl_check_loop s now evs = Some (s, evs)"
  by (subst ttl_check_loop.simps) (auto split: option.splits)

lemma ttl_not_silent_0 [simp]: "\<not> ttl_silent 0"
  by (simp add: ttl_silent_def SILENT_def)

lemma ttl_check_loop_ok:
  assumes "ttl_ok s xs"
  shows "\<exists>t ys. ttl_check_loop s now evs = Some (t, evs @ map (\<lambda>e. Drop (fst e))
            (takeWhile (view_expired (tt_ttl s) now) (map (ttl_entry s) xs))) \<and>
          ttl_ok t ys \<and> ttl_view_of t ys = view_check (ttl_view_of s xs) (tt_ttl s) now \<and> tt_ttl t = tt_ttl s"
  using assms
proof (induction xs arbitrary: s evs)
  case Nil
  then have "tt_head s = None" by (auto simp: ttl_ok_def line_ok_def)
  then have "ttl_check_loop s now evs = Some (s, evs)" by (intro ttl_check_loop_done) simp
  then show ?case using Nil
    by (intro exI [of _ s] exI [of _ "[]"]) (auto simp: view_check_def ttl_view_of_def)
next
  case (Cons a xs)
  note ok = ttl_okD [OF Cons.prems]
  have h: "tt_head s = Some a" using ok(4) by (simp add: line_ok_def)
  show ?case
  proof (cases "now - it_time (tt_heap s a) > tt_ttl s")
    case False
    then have "ttl_check_loop s now evs = Some (s, evs)" using h by (intro ttl_check_loop_done) simp
    then show ?thesis using False Cons.prems
      by (intro exI [of _ s] exI [of _ "a # xs"])
        (auto simp: view_check_def ttl_view_of_def view_expired_def ttl_entry_def)
  next
    case True
    define v where "v = it_value (tt_heap s a)"
    have m: "tt_map s v = Some a" using ok(6) [of a] by (simp add: v_def)
    note d = ttl_drop_item_ok [OF Cons.prems m, of 0]
    let ?t = "fst (ttl_drop_item s (Some a) 0)"
    have "ttl_ok ?t xs" using d(1) by simp
    from Cons.IH [OF this, of "evs @ [Drop v]"] obtain t ys where
      l: "ttl_check_loop ?t now (evs @ [Drop v]) = Some (t, (evs @ [Drop v]) @ map (\<lambda>e. Drop (fst e))
            (takeWhile (view_expired (tt_ttl s) now) (map (ttl_entry s) xs)))"
      and t: "ttl_ok t ys" "ttl_view_of t ys = view_check (ttl_view_of ?t xs) (tt_ttl s) now" "tt_ttl t = tt_ttl s"
      using d(2,4) by auto
    have e: "view_expired (tt_ttl s) now (ttl_entry s a)" "fst (ttl_entry s a) = v"
      using True by (auto simp: view_expired_def ttl_entry_def v_def)
    have "view_check (ttl_view_of ?t xs) (tt_ttl s) now = view_check (ttl_view_of s (a # xs)) (tt_ttl s) now"
      using d(2,3) e by (auto simp: view_check_def ttl_view_of_def)
    then show ?thesis using l t e d(5) ttl_check_loop_step [OF h True, of evs] by auto
  qed
qed

section \<open>The operations implement the abstract set\<close>

lemma ttl_sim_new: "ttl_sim (ttl_new t) \<lparr>vw_present = {}, vw_line = []\<rparr>"
  unfolding ttl_sim_def
  by (intro exI [of _ "[]"]) (use ttl_ok_new in \<open>auto simp: ttl_view_of_def ttl_new_def\<close>)

lemma ttl_sim_bump [intro]:
  "ttl_sim s A \<Longrightarrow> ttl_sim (fst (ttl_bump s v time now flags)) (view_bump A v (num_or time now))"
  unfolding ttl_sim_def using ttl_bump_view by metis

lemma ttl_sim_drop [intro]: "ttl_sim s A \<Longrightarrow> ttl_sim (fst (ttl_drop s v flags)) (view_drop A v)"
  unfolding ttl_sim_def using ttl_drop_view by metis

lemma ttl_sim_check:
  assumes "ttl_sim s A"
  shows "\<exists>t. ttl_check s now = Some (t, map (\<lambda>e. Drop (fst e)) (takeWhile (view_expired (tt_ttl s) now) (vw_line A))) \<and>
    ttl_sim t (view_check A (tt_ttl s) now) \<and> tt_ttl t = tt_ttl s"
proof -
  obtain xs where x: "ttl_ok s xs" "A = ttl_view_of s xs" using assms by (auto simp: ttl_sim_def)
  from ttl_check_loop_ok [OF x(1), of now "[]"] obtain t ys where
    "ttl_check_loop s now [] = Some (t, map (\<lambda>e. Drop (fst e)) (takeWhile (view_expired (tt_ttl s) now) (vw_line A)))"
    "ttl_ok t ys" "ttl_view_of t ys = view_check A (tt_ttl s) now" "tt_ttl t = tt_ttl s"
    using x(2) by (auto simp: ttl_view_of_def)
  then show ?thesis
    by (intro exI [of _ "ttl_schedule t now"]) (auto simp: ttl_check_def ttl_sim_def ttl_schedule_ttl)
qed

lemma ttl_sim_stop [simp]: "ttl_sim (ttl_stop s) A = ttl_sim s A"
  by (simp add: ttl_sim_def)

lemma ttl_drop_ttl: "ttl_sim s A \<Longrightarrow> tt_ttl (fst (ttl_drop s v flags)) = tt_ttl s"
  by (cases "tt_map s v") (auto simp: ttl_drop_def ttl_sim_def dest: ttl_drop_item_ok(4))

lemma ttl_sim_present: "ttl_sim s A \<Longrightarrow> vw_present A = dom (tt_map s)"
  by (auto simp: ttl_sim_def ttl_view_of_def)

lemma ttl_bump_ttl [simp]: "tt_ttl (fst (ttl_bump s v time now flags)) = tt_ttl s"
  by (auto simp: ttl_bump_def ttl_create_def ttl_schedule_def set_item_def Let_def ttl_remove.simps(2)
      split: option.splits) (cases "tt_map s v"; auto simp: ttl_remove.simps(2) Let_def set_item_def split: option.splits)+

lemma ttl_bump_events:
  assumes "ttl_sim s A"
  shows "snd (ttl_bump s v time now flags) =
    (if v \<in> vw_present A \<or> ttl_silent flags then [] else [Insert v])"
proof -
  obtain xs where x: "ttl_ok s xs" "A = ttl_view_of s xs" using assms by (auto simp: ttl_sim_def)
  show ?thesis
  proof (cases "tt_map s v")
    case None
    then show ?thesis using ttl_bump_new_ok(3) [OF x(1) None] x(2) by (auto simp: ttl_view_of_def)
  next
    case (Some a)
    then show ?thesis using ttl_bump_old_ok(3) [OF x(1) Some] x(2) by (auto simp: ttl_view_of_def)
  qed
qed

lemma ttl_drop_events:
  assumes "ttl_sim s A"
  shows "snd (ttl_drop s v flags) = (if v \<in> vw_present A \<and> \<not> ttl_silent flags then [Drop v] else [])"
proof -
  obtain xs where x: "ttl_ok s xs" "A = ttl_view_of s xs" using assms by (auto simp: ttl_sim_def)
  show ?thesis
  proof (cases "tt_map s v")
    case None
    then show ?thesis using x(2) by (auto simp: ttl_drop_def ttl_view_of_def)
  next
    case (Some a)
    then show ?thesis using ttl_drop_item_ok(5) [OF x(1) Some] x(2) by (auto simp: ttl_drop_def ttl_view_of_def)
  qed
qed

text \<open>
  C23. The linked list with its dictionary implements the abstract set: from any simulated
  state \<open>bump\<close>, \<open>drop\<close> and \<open>check\<close> lead to the state the abstract operation gives, they
  emit exactly the events it prescribes (an insertion only for a value that was absent, a
  removal for every expired value at the front of the line, in order, and nothing when
  silenced), and the loop of \<open>check\<close> returns.
\<close>

theorem ttl_set_refines_view:
  assumes "ttl_sim s A"
  shows "ttl_sim (fst (ttl_bump s v time now flags)) (view_bump A v (num_or time now)) \<and>
    snd (ttl_bump s v time now flags) = (if v \<in> vw_present A \<or> ttl_silent flags then [] else [Insert v]) \<and>
    ttl_sim (fst (ttl_drop s v flags)) (view_drop A v) \<and>
    snd (ttl_drop s v flags) = (if v \<in> vw_present A \<and> \<not> ttl_silent flags then [Drop v] else []) \<and>
    (\<exists>t. ttl_check s now = Some (t, map (\<lambda>e. Drop (fst e)) (takeWhile (view_expired (tt_ttl s) now) (vw_line A))) \<and>
         ttl_sim t (view_check A (tt_ttl s) now))"
  using ttl_sim_bump [OF assms] ttl_bump_events [OF assms] ttl_sim_drop [OF assms]
    ttl_drop_events [OF assms] ttl_sim_check [OF assms] by blast

text \<open>
  A bump of a value that is already present empties the line: every other value stays
  present, but no later \<open>check\<close>, at whatever time, ever drops it, and no event reports it.
  Only values that were never
  followed by such a bump expire: \<open>bump\<close> makes the item the head because \<open>remove\<close> has just
  cleared its \<open>prev\<close>.
\<close>

theorem ttl_bump_forgets_others:
  assumes "ttl_sim s A" and "v \<in> vw_present A" and "w \<in> vw_present A" and "v \<noteq> w"
  shows "tt_map (fst (ttl_bump s v time now flags)) w \<noteq> None \<and>
    (\<exists>u evs. ttl_check (fst (ttl_bump s v time now flags)) later = Some (u, evs) \<and>
       Drop w \<notin> set evs \<and> tt_map u w \<noteq> None)"
proof -
  let ?t = "fst (ttl_bump s v time now flags)"
  let ?B = "view_bump A v (num_or time now)"
  have B: "?B = A\<lparr>vw_line := [(v, num_or time now)]\<rparr>" using assms(2) by (simp add: view_bump_def)
  have t: "ttl_sim ?t ?B" using assms(1) by (rule ttl_sim_bump)
  obtain u where u: "ttl_check ?t later = Some (u, map (\<lambda>e. Drop (fst e))
      (takeWhile (view_expired (tt_ttl ?t) later) (vw_line ?B)))" and us: "ttl_sim u (view_check ?B (tt_ttl ?t) later)"
    using ttl_sim_check [OF t] by blast
  have "w \<in> vw_present (view_check ?B (tt_ttl ?t) later)" using B assms(3,4) by (auto simp: view_check_def)
  then have "tt_map u w \<noteq> None" using ttl_sim_present [OF us] by auto
  moreover have "tt_map ?t w \<noteq> None" using ttl_sim_present [OF t] B assms(3) by auto
  ultimately show ?thesis using u B assms(4) by auto
qed

text \<open>Both hold of two devices that were introduced in turn.\<close>

definition two_devices :: ttl_set where
  "two_devices = fst (ttl_bump (fst (ttl_bump (ttl_new 30000) ''a'' 5 5 0)) ''b'' 7 7 0)"

lemma two_devices_sim: "ttl_sim two_devices \<lparr>vw_present = {''b'', ''a''}, vw_line = [(''a'', 5), (''b'', 7)]\<rparr>"
  using ttl_sim_bump [OF ttl_sim_bump [OF ttl_sim_new [of 30000], of "''a''" 5 5 0], of "''b''" 7 7 0]
  by (simp add: two_devices_def view_bump_def num_or_def)

theorem ttl_set_refines_view_witness:
  "\<exists>t. ttl_check two_devices 40000 = Some (t, [Drop ''a'', Drop ''b''])"
proof -
  have "tt_ttl two_devices = 30000" by (simp add: two_devices_def) (simp add: ttl_new_def)
  then show ?thesis
    using ttl_set_refines_view [OF two_devices_sim, of "[]" 0 40000 0] by (auto simp: view_expired_def)
qed

theorem ttl_bump_forgets_others_witness:
  "\<exists>u evs. ttl_check (fst (ttl_bump two_devices ''a'' 9 9 0)) 1000000 = Some (u, evs) \<and>
     Drop ''b'' \<notin> set evs \<and> tt_map u ''b'' \<noteq> None"
  using ttl_bump_forgets_others [OF two_devices_sim, of "''a''" "''b''" 9 9 0 1000000] by simp

end
