(* ===== verification/Channel_Manager.thy ===== *)
theory Channel_Manager imports Prelude begin

text \<open>
  \<open>lib/wire/channelmanager.ts\<close>: the channels of a device with their inactivity timeouts. A
  channel object can be reachable under two keys (its id and its alias), so the objects live
  in an explicit store and the dictionary \<open>channels\<close> maps keys to references. Pending
  timeouts are kept as (handle, due time, id); \<open>Date.now()\<close> is an argument of each
  operation that reads the clock, once per reading.
\<close>

section \<open>State\<close>

record chan =
  ch_timeout :: int
  ch_alias :: "string option"
  ch_last :: millis
  ch_timer :: "nat option"

record chan_state =
  cm_chans :: "string \<rightharpoonup> nat"
  cm_objs :: "nat \<Rightarrow> chan"
  cm_next :: nat
  cm_timers :: "(nat \<times> millis \<times> string) list"
  cm_handle :: nat

datatype chan_out = ChanTimeout string
datatype chan_error = AliasExists string string

definition chan_new :: chan_state where
  "chan_new = \<lparr>cm_chans = Map.empty,
     cm_objs = (\<lambda>_. \<lparr>ch_timeout = 0, ch_alias = None, ch_last = 0, ch_timer = None\<rparr>),
     cm_next = 0, cm_timers = [], cm_handle = 0\<rparr>"

definition chan_at :: "chan_state \<Rightarrow> string \<Rightarrow> chan option" where
  "chan_at s cid = map_option (cm_objs s) (cm_chans s cid)"

definition upd_chan :: "nat \<Rightarrow> (chan \<Rightarrow> chan) \<Rightarrow> chan_state \<Rightarrow> chan_state" where
  "upd_chan a f s = s\<lparr>cm_objs := (cm_objs s)(a := f (cm_objs s a))\<rparr>"

definition clear_timer :: "nat option \<Rightarrow> chan_state \<Rightarrow> chan_state" where
  "clear_timer h s = (case h of None \<Rightarrow> s
     | Some n \<Rightarrow> s\<lparr>cm_timers := filter (\<lambda>t. fst t \<noteq> n) (cm_timers s)\<rparr>)"

section \<open>Operations\<close>

definition MAX_INT32 :: int where
  "MAX_INT32 = 2147483647"

definition chan_unregister :: "chan_state \<Rightarrow> string \<Rightarrow> chan_state" where
  "chan_unregister s cid =
     (case cm_chans s cid of None \<Rightarrow> s
      | Some a \<Rightarrow>
          let c = cm_objs s a;
              s1 = s\<lparr>cm_chans := (cm_chans s)(cid := None)\<rparr>;
              s2 = clear_timer (ch_timer c) s1
          in (if truthy_str (ch_alias c) then s2\<lparr>cm_chans := (cm_chans s2)(the (ch_alias c) := None)\<rparr> else s2))"

definition chan_check :: "chan_state \<Rightarrow> string \<Rightarrow> millis \<Rightarrow> chan_state \<times> chan_out list" where
  "chan_check s cid now =
     (case cm_chans s cid of None \<Rightarrow> (s, [])
      | Some a \<Rightarrow>
          let c = cm_objs s a; inactive = now - ch_last c
          in (if inactive \<ge> ch_timeout c then (chan_unregister s cid, [ChanTimeout cid])
              else if ch_timeout c > 1 then
                (let h = cm_handle s
                 in ((upd_chan a (\<lambda>c. c\<lparr>ch_timer := Some h\<rparr>) s)
                       \<lparr>cm_timers := cm_timers s @ [(h, now + min (ch_timeout c - inactive) MAX_INT32, cid)],
                        cm_handle := Suc h\<rparr>, []))
              else (s, [])))"

definition chan_register ::
  "chan_state \<Rightarrow> string \<Rightarrow> int \<Rightarrow> string option \<Rightarrow> millis \<Rightarrow> millis \<Rightarrow> chan_error + (chan_state \<times> chan_out list)" where
  "chan_register s cid timeout alias now now' =
     (let a = cm_next s;
          c = \<lparr>ch_timeout = timeout, ch_alias = alias, ch_last = now, ch_timer = None\<rparr>;
          s1 = s\<lparr>cm_objs := (cm_objs s)(a := c), cm_next := Suc a\<rparr>
      in (if truthy_str alias \<and> cm_chans s1 (the alias) \<noteq> None
          then Inl (AliasExists (the alias) cid)
          else (let s2 = (if truthy_str alias then s1\<lparr>cm_chans := (cm_chans s1)(the alias \<mapsto> a)\<rparr> else s1);
                    s3 = s2\<lparr>cm_chans := (cm_chans s2)(cid \<mapsto> a)\<rparr>
                in Inr (chan_check s3 cid now'))))"

definition chan_keepalive :: "chan_state \<Rightarrow> string \<Rightarrow> millis \<Rightarrow> chan_state" where
  "chan_keepalive s cid now =
     (case cm_chans s cid of None \<Rightarrow> s | Some a \<Rightarrow> upd_chan a (\<lambda>c. c\<lparr>ch_last := now\<rparr>) s)"

definition chan_update_timeout :: "chan_state \<Rightarrow> string \<Rightarrow> int \<Rightarrow> chan_state" where
  "chan_update_timeout s cid d =
     (case cm_chans s cid of None \<Rightarrow> s | Some a \<Rightarrow> upd_chan a (\<lambda>c. c\<lparr>ch_timeout := ch_timeout c + d\<rparr>) s)"

definition chan_get_timeout :: "chan_state \<Rightarrow> string \<Rightarrow> int option" where
  "chan_get_timeout s cid = map_option ch_timeout (chan_at s cid)"

text \<open>The timer with handle \<open>h\<close> fires at \<open>now\<close>, which is not before its due time.\<close>

definition chan_fire :: "chan_state \<Rightarrow> nat \<Rightarrow> millis \<Rightarrow> chan_state \<times> chan_out list" where
  "chan_fire s h now =
     (case find (\<lambda>t. fst t = h \<and> fst (snd t) \<le> now) (cm_timers s) of
        None \<Rightarrow> (s, [])
      | Some t \<Rightarrow> chan_check (clear_timer (Some h) s) (snd (snd t)) now)"

lemmas chan_defs = chan_unregister_def chan_check_def chan_register_def chan_keepalive_def
  chan_update_timeout_def chan_get_timeout_def chan_at_def upd_chan_def clear_timer_def

section \<open>What the operations do to the dictionary\<close>

lemma chans_clear_timer [simp]: "cm_chans (clear_timer h s) = cm_chans s" "cm_objs (clear_timer h s) = cm_objs s"
  by (auto simp: clear_timer_def split: option.splits)

lemma chans_upd [simp]: "cm_chans (upd_chan a f s) = cm_chans s" "cm_timers (upd_chan a f s) = cm_timers s"
  by (auto simp: upd_chan_def)

lemma unregister_chans:
  "cm_chans s cid = Some a \<Longrightarrow> cm_chans (chan_unregister s cid) =
     (if truthy_str (ch_alias (cm_objs s a)) then (cm_chans s)(cid := None, the (ch_alias (cm_objs s a)) := None)
      else (cm_chans s)(cid := None))"
  by (auto simp: chan_unregister_def Let_def)

lemma unregister_gone: "cm_chans (chan_unregister s cid) cid = None"
  by (auto simp: chan_unregister_def Let_def split: option.splits)

lemma unregister_none [simp]: "cm_chans s cid = None \<Longrightarrow> chan_unregister s cid = s"
  by (simp add: chan_unregister_def)

lemma unregister_objs [simp]: "cm_objs (chan_unregister s cid) = cm_objs s"
  by (auto simp: chan_unregister_def Let_def split: option.splits)

lemma check_cases:
  obtains (absent) "cm_chans s cid = None" "chan_check s cid now = (s, [])"
  | (expired) a where "cm_chans s cid = Some a" "now - ch_last (cm_objs s a) \<ge> ch_timeout (cm_objs s a)"
      "chan_check s cid now = (chan_unregister s cid, [ChanTimeout cid])"
  | (kept) a where "cm_chans s cid = Some a" "now - ch_last (cm_objs s a) < ch_timeout (cm_objs s a)"
      "cm_chans (fst (chan_check s cid now)) = cm_chans s" "snd (chan_check s cid now) = []"
      "\<And>b. ch_timeout (cm_objs (fst (chan_check s cid now)) b) = ch_timeout (cm_objs s b)"
      "\<And>b. ch_last (cm_objs (fst (chan_check s cid now)) b) = ch_last (cm_objs s b)"
      "\<And>b. ch_alias (cm_objs (fst (chan_check s cid now)) b) = ch_alias (cm_objs s b)"
proof (cases "cm_chans s cid")
  case None
  then show ?thesis using absent by (simp add: chan_check_def)
next
  case (Some a)
  show ?thesis
  proof (cases "now - ch_last (cm_objs s a) \<ge> ch_timeout (cm_objs s a)")
    case True
    then show ?thesis using expired Some by (simp add: chan_check_def)
  next
    case False
    then show ?thesis using kept Some by (simp add: chan_check_def Let_def upd_chan_def)
  qed
qed

section \<open>The registry that a client relies on\<close>

text \<open>
  What the group plugin needs of its channels: a registered channel can be looked up, stays
  until it is unregistered or has been inactive for its timeout, and an extension of the
  timeout is visible in the next look-up. The look-up is the one the client makes,
  \<open>getTimeout\<close>.
\<close>

locale timeout_registry =
  fixes get :: "'s \<Rightarrow> string \<Rightarrow> int option"
    and unreg :: "'s \<Rightarrow> string \<Rightarrow> 's"
    and extend :: "'s \<Rightarrow> string \<Rightarrow> int \<Rightarrow> 's"
    and touch :: "'s \<Rightarrow> string \<Rightarrow> millis \<Rightarrow> 's"
  assumes get_unreg: "get (unreg s k) k = None"
    and get_extend: "get (extend s k d) k = map_option (\<lambda>t. t + d) (get s k)"
    and get_touch: "get (touch s k now) j = get s j"
    and extend_absent: "get s k = None \<Longrightarrow> extend s k d = s"
begin

lemma get_extend_twice: "get (extend (extend s k d) k e) k = map_option (\<lambda>t. t + (d + e)) (get s k)"
  by (simp add: get_extend option.map_comp comp_def add.assoc)

lemma extend_fold:
  "get (fold (\<lambda>d s. extend s k d) ds s) k = map_option (\<lambda>t. t + sum_list ds) (get s k)"
proof (induction ds arbitrary: s)
  case Nil
  then show ?case by (simp add: option.map_ident)
next
  case (Cons d ds)
  then show ?case by (simp add: get_extend option.map_comp comp_def add.assoc)
qed

lemma unreg_extend_unreg: "get (extend (unreg s k) k d) k = None"
  by (simp add: get_extend get_unreg)

end

interpretation cm: timeout_registry chan_get_timeout chan_unregister chan_update_timeout chan_keepalive
proof unfold_locales
  fix s :: chan_state and k :: string and d :: int and now :: millis and j :: string
  show "chan_get_timeout (chan_unregister s k) k = None"
    by (simp add: chan_get_timeout_def chan_at_def unregister_gone)
  show "chan_get_timeout (chan_update_timeout s k d) k = map_option (\<lambda>t. t + d) (chan_get_timeout s k)"
    by (auto simp: chan_defs split: option.splits)
  show "chan_get_timeout (chan_keepalive s k now) j = chan_get_timeout s j"
    by (cases "cm_chans s j") (auto simp: chan_defs split: option.splits)
  show "chan_get_timeout s k = None \<Longrightarrow> chan_update_timeout s k d = s"
    by (auto simp: chan_defs split: option.splits)
qed

section \<open>Properties\<close>

text \<open>Registering without an alias clash, or with one that is free.\<close>

lemma register_ok_fields:
  assumes "chan_register s cid timeout alias now now' = Inr (t, out)"
    and "now' - now < timeout" and "timeout > 0"
  shows "cm_chans t = (if truthy_str alias then (cm_chans s)(the alias \<mapsto> cm_next s, cid \<mapsto> cm_next s)
                       else (cm_chans s)(cid \<mapsto> cm_next s))"
    and "out = []" and "ch_timeout (cm_objs t (cm_next s)) = timeout" and "ch_last (cm_objs t (cm_next s)) = now"
    and "chan_get_timeout t cid = Some timeout"
  using assms by (auto simp: chan_register_def chan_check_def chan_get_timeout_def chan_at_def Let_def upd_chan_def
      split: if_splits)

text \<open>The events of the manager's environment, for runs.\<close>

datatype chan_event =
    Fire nat millis
  | Keepalive string millis
  | UpdateTimeout string int

fun chan_step :: "chan_state \<Rightarrow> chan_event \<Rightarrow> chan_state \<times> chan_out list" where
  "chan_step s (Fire h now) = chan_fire s h now"
| "chan_step s (Keepalive cid now) = (chan_keepalive s cid now, [])"
| "chan_step s (UpdateTimeout cid d) = (chan_update_timeout s cid d, [])"

text \<open>
  The deadline of a channel: while timers fire before it, activity is never reported from
  before \<open>t0\<close> and the timeout is never shortened, the channel stays. The last conjunct says
  that no other channel claims \<open>cid\<close> as its alias.
\<close>

fun event_before :: "millis \<Rightarrow> int \<Rightarrow> chan_event \<Rightarrow> bool" where
  "event_before t0 T (Fire h now) = (now < t0 + T)"
| "event_before t0 T (Keepalive cid now) = (t0 \<le> now)"
| "event_before t0 T (UpdateTimeout cid d) = (0 \<le> d)"

definition alive_from :: "string \<Rightarrow> nat \<Rightarrow> millis \<Rightarrow> int \<Rightarrow> chan_state \<Rightarrow> bool" where
  "alive_from cid a t0 T s \<longleftrightarrow> cm_chans s cid = Some a \<and> t0 \<le> ch_last (cm_objs s a) \<and> T \<le> ch_timeout (cm_objs s a)
     \<and> (\<forall>k b. cm_chans s k = Some b \<and> b \<noteq> a \<longrightarrow> ch_alias (cm_objs s b) \<noteq> Some cid)"

lemma alive_check:
  assumes "alive_from cid a t0 T s" and "now < t0 + T"
  shows "alive_from cid a t0 T (fst (chan_check s k now)) \<and> ChanTimeout cid \<notin> set (snd (chan_check s k now))"
proof (cases rule: check_cases [of s k now])
  case absent
  then show ?thesis using assms by simp
next
  case (expired b)
  then have "b \<noteq> a" using assms by (auto simp: alive_from_def)
  then have "k \<noteq> cid" and "ch_alias (cm_objs s b) \<noteq> Some cid"
    using expired(1) assms(1) by (auto simp: alive_from_def)
  then have "cm_chans (chan_unregister s k) cid = Some a"
    using assms(1) unregister_chans [OF expired(1)] by (auto simp: alive_from_def truthy_str_def split: option.splits)
  moreover have "cm_chans (chan_unregister s k) j = Some c \<Longrightarrow> cm_chans s j = Some c" for j c
    using unregister_chans [OF expired(1)] by (auto split: if_splits)
  ultimately show ?thesis using assms(1) expired(3) \<open>k \<noteq> cid\<close> by (auto simp: alive_from_def)
next
  case (kept b)
  then show ?thesis using assms(1) by (auto simp: alive_from_def)
qed

lemma alive_clear_timer [simp]: "alive_from cid a t0 T (clear_timer h s) = alive_from cid a t0 T s"
  by (simp add: alive_from_def)

lemma alive_fire:
  assumes "alive_from cid a t0 T s" and "now < t0 + T"
  shows "alive_from cid a t0 T (fst (chan_fire s h now)) \<and> ChanTimeout cid \<notin> set (snd (chan_fire s h now))"
  using assms alive_check by (auto simp: chan_fire_def split: option.splits)

lemma alive_step:
  assumes "alive_from cid a t0 T s" and "event_before t0 T e"
  shows "alive_from cid a t0 T (fst (chan_step s e)) \<and> ChanTimeout cid \<notin> set (snd (chan_step s e))"
proof (cases e)
  case (Fire h now)
  then show ?thesis using assms alive_fire by simp
next
  case (Keepalive k now)
  then show ?thesis using assms by (auto simp: alive_from_def chan_keepalive_def upd_chan_def split: option.splits)
next
  case (UpdateTimeout k d)
  then show ?thesis using assms
    by (auto simp: alive_from_def chan_update_timeout_def upd_chan_def split: option.splits)
qed

interpretation alive: guarded_machine chan_step "alive_from cid a t0 T" "event_before t0 T"
  for cid a t0 T
  by unfold_locales (use alive_step in blast)

lemma alive_register:
  assumes "chan_register s cid T alias t0 now' = Inr (t, out)" and "now' - t0 < T" and "T > 0"
    and "\<forall>k b. cm_chans s k = Some b \<longrightarrow> ch_alias (cm_objs s b) \<noteq> Some cid"
    and "\<forall>k b. cm_chans s k = Some b \<longrightarrow> b < cm_next s"
  shows "alive_from cid (cm_next s) t0 T t"
proof -
  have o: "b \<noteq> cm_next s \<Longrightarrow> cm_objs t b = cm_objs s b" for b
    using assms(1-3) by (auto simp: chan_register_def chan_check_def Let_def upd_chan_def split: if_splits)
  show ?thesis
    using register_ok_fields [OF assms(1-3)] assms(4) o
    by (auto simp: alive_from_def split: if_splits)
qed

text \<open>
  A channel registered at \<open>t0\<close> with timeout \<open>T\<close> is not timed out before \<open>t0 + T\<close>:
  whatever timers fire before that, whatever is kept alive and however often timeouts are
  extended, no \<open>timeout\<close> event names it and its timeout can still be read.
\<close>

theorem channel_lives_until_deadline:
  assumes "chan_register s cid T alias t0 now' = Inr (t, out)" and "now' - t0 < T" and "T > 0"
    and "\<forall>k b. cm_chans s k = Some b \<longrightarrow> ch_alias (cm_objs s b) \<noteq> Some cid \<and> b < cm_next s"
    and "list_all (event_before t0 T) es"
  shows "ChanTimeout cid \<notin> set (snd (run chan_step t es)) \<and>
    chan_get_timeout (fst (run chan_step t es)) cid \<noteq> None"
proof -
  have a: "alive_from cid (cm_next s) t0 T t" using assms alive_register by blast
  have "x \<noteq> ChanTimeout cid" if "x \<in> set (snd (run chan_step t es))" for x
    using alive.output_run [OF a assms(5) _ that, of "\<lambda>x. x \<noteq> ChanTimeout cid"] alive_step by blast
  moreover have "alive_from cid (cm_next s) t0 T (fst (run chan_step t es))"
    by (rule alive.inv_run [OF a assms(5)])
  ultimately show ?thesis by (auto simp: chan_get_timeout_def chan_at_def alive_from_def)
qed

text \<open>The other direction: with no activity the pending timer removes the channel.\<close>

definition handles_ok :: "chan_state \<Rightarrow> bool" where
  "handles_ok s \<longleftrightarrow> (\<forall>t \<in> set (cm_timers s). fst t < cm_handle s)"

lemma find_append_fresh: "(\<And>x. x \<in> set xs \<Longrightarrow> \<not> P x) \<Longrightarrow> P y \<Longrightarrow> find P (xs @ [y]) = Some y"
  by (induction xs) auto

text \<open>
  A channel registered with a finite timeout (\<open>1\<close> stands for none) that fits the
  platform's timer range has a pending timer at the end of its inactivity period; when it
  fires with no activity in between, the channel and its alias are gone and one \<open>timeout\<close>
  event reports it.
\<close>

theorem channel_times_out:
  assumes "chan_register s cid T alias t0 now' = Inr (t, out)" and "handles_ok s"
    and "t0 \<le> now'" and "now' - t0 < T" and "1 < T" and "T \<le> MAX_INT32"
  shows "\<exists>h. (h, t0 + T, cid) \<in> set (cm_timers t) \<and>
    snd (chan_fire t h (t0 + T)) = [ChanTimeout cid] \<and>
    cm_chans (fst (chan_fire t h (t0 + T))) cid = None \<and>
    (truthy_str alias \<longrightarrow> cm_chans (fst (chan_fire t h (t0 + T))) (the alias) = None)"
proof -
  let ?h = "cm_handle s" and ?a = "cm_next s"
  note f = register_ok_fields [OF assms(1,4)]
  have tm: "cm_timers t = cm_timers s @ [(?h, t0 + T, cid)]"
    using assms by (auto simp: chan_register_def chan_check_def Let_def upd_chan_def split: if_splits)
  have al: "ch_alias (cm_objs t ?a) = alias"
    using assms by (auto simp: chan_register_def chan_check_def Let_def upd_chan_def split: if_splits)
  have "find (\<lambda>x. fst x = ?h \<and> fst (snd x) \<le> t0 + T) (cm_timers t) = Some (?h, t0 + T, cid)"
    unfolding tm by (rule find_append_fresh) (use assms(2) in \<open>auto simp: handles_ok_def\<close>)
  then have "chan_fire t ?h (t0 + T) = chan_check (clear_timer (Some ?h) t) cid (t0 + T)"
    by (simp add: chan_fire_def)
  moreover have "cm_chans t cid = Some ?a" using f(1) assms(5) by auto
  ultimately have fire: "chan_fire t ?h (t0 + T) =
      (chan_unregister (clear_timer (Some ?h) t) cid, [ChanTimeout cid])"
    using f(3,4) assms(5) by (simp add: chan_check_def)
  show ?thesis
    using tm fire unregister_gone unregister_chans [of "clear_timer (Some ?h) t" cid ?a] al \<open>cm_chans t cid = Some ?a\<close>
    by (intro exI [of _ ?h]) auto
qed

theorem channel_lives_until_deadline_witness:
  "ChanTimeout ''g'' \<notin> set (snd (run chan_step
      (fst (projr (chan_register chan_new ''g'' 500 (Some ''solo'') 1000 1000))) [Fire 0 1400, Keepalive ''g'' 1450]))"
proof -
  let ?r = "chan_register chan_new ''g'' 500 (Some ''solo'') 1000 1000"
  have "?r = Inr (fst (projr ?r), snd (projr ?r))"
    by (simp add: chan_register_def chan_new_def Let_def)
  from channel_lives_until_deadline [OF this, of "[Fire 0 1400, Keepalive ''g'' 1450]"]
  show ?thesis by (simp add: chan_new_def)
qed

theorem channel_times_out_witness:
  "\<exists>h t. chan_register chan_new ''g'' 500 (Some ''solo'') 1000 1001 = Inr (t, []) \<and>
     snd (chan_fire t h 1500) = [ChanTimeout ''g''] \<and> cm_chans (fst (chan_fire t h 1500)) ''solo'' = None"
proof -
  let ?r = "chan_register chan_new ''g'' 500 (Some ''solo'') 1000 1001"
  have e: "?r = Inr (fst (projr ?r), [])"
    by (simp add: chan_register_def chan_check_def chan_new_def upd_chan_def Let_def)
  have "handles_ok chan_new" by (simp add: handles_ok_def chan_new_def)
  from channel_times_out [OF e this] e show ?thesis by (auto simp: MAX_INT32_def truthy_str_def)
qed

end
