(* ===== verification/Message_Stream.thy ===== *)
theory Message_Stream imports Bytes begin

text \<open>
  \<open>lib/wire/messagestream.ts\<close>: the length-delimited framing between the device unit and the
  helper application on the device. Bytes are \<open>8 word\<close>; the shift operators of the language
  convert to signed 32-bit integers, which is written out in \<open>to_int32\<close>; \<open>slice\<close> with a
  negative index counts from the end.
\<close>

unbundle bit_operations_syntax

section \<open>Numbers and buffers of the language\<close>

definition to_int32 :: "int \<Rightarrow> int" where
  "to_int32 x = (x + 2 ^ 31) mod 2 ^ 32 - 2 ^ 31"

definition js_shl :: "int \<Rightarrow> nat \<Rightarrow> int" where
  "js_shl x k = to_int32 (to_int32 x * 2 ^ (k mod 32))"

definition js_shr :: "int \<Rightarrow> nat \<Rightarrow> int" where
  "js_shr x k = to_int32 x div 2 ^ (k mod 32)"

lemma to_int32_id: "0 \<le> x \<Longrightarrow> x < 2 ^ 31 \<Longrightarrow> to_int32 x = x"
  by (simp add: to_int32_def)

lemma to_int32_lt: "to_int32 x < 2 ^ 31"
  using pos_mod_bound [of "2 ^ 32" "x + 2 ^ 31"] by (simp add: to_int32_def)

section \<open>The writer\<close>

function length_bytes :: "int \<Rightarrow> int list" where
  "length_bytes n = (if n > 0x7f then (0x80 + n mod 0x80) # length_bytes (js_shr n 7) else [n])"
  by pat_completeness auto
termination
proof (relation "measure nat")
  fix n :: int
  assume n: "n > 0x7f"
  have "js_shr n 7 < n"
  proof (cases "n < 2 ^ 31")
    case True
    then show ?thesis using n by (simp add: js_shr_def to_int32_id)
  next
    case False
    have "js_shr n 7 \<le> (2 ^ 31 - 1) div 2 ^ 7"
      using zdiv_mono1 [of "to_int32 n" "2 ^ 31 - 1" "2 ^ 7"] to_int32_lt [of n] by (simp add: js_shr_def)
    then show ?thesis using False by simp
  qed
  then show "(js_shr n 7, n) \<in> measure nat" using n by simp
qed simp

declare length_bytes.simps [simp del]

text \<open>\<open>_transform\<close> of \<open>DelimitingStream\<close>: what it pushes for a chunk, one buffer after the other.\<close>

definition delimit :: "byte list \<Rightarrow> byte list list" where
  "delimit chunk = [map word_of_int (length_bytes (int (length chunk))), chunk]"

section \<open>The reader\<close>

record delimited =
  ds_length :: int
  ds_index :: nat
  ds_reading :: bool
  ds_buffer :: "byte list"

definition delimited_new :: delimited where
  "delimited_new = \<lparr>ds_length = 0, ds_index = 0, ds_reading = True, ds_buffer = []\<rparr>"

function delimited_loop :: "delimited \<Rightarrow> delimited \<times> byte list list" where
  "delimited_loop s =
     (case ds_buffer s of [] \<Rightarrow> (s, [])
      | b # rest \<Rightarrow>
          (if ds_reading s then
             (let len = ds_length s + js_shl (uint (b AND 0x7f)) (7 * ds_index s)
              in if b AND 0x80 \<noteq> 0
                 then delimited_loop \<lparr>ds_length = len, ds_index = Suc (ds_index s), ds_reading = True, ds_buffer = rest\<rparr>
                 else delimited_loop \<lparr>ds_length = len, ds_index = 0, ds_reading = False, ds_buffer = rest\<rparr>)
           else if ds_length s \<le> int (length (ds_buffer s)) then
             (let r = delimited_loop \<lparr>ds_length = 0, ds_index = ds_index s, ds_reading = True,
                        ds_buffer = slice_from (ds_length s) (ds_buffer s)\<rparr>
              in (fst r, slice_to (ds_length s) (ds_buffer s) # snd r))
           else (s, [])))"
  by pat_completeness auto
termination
proof (relation "measure (\<lambda>s. 2 * length (ds_buffer s) + (if ds_reading s then 0 else 1))")
  fix s :: delimited and b rest
  assume "ds_buffer s = b # rest" "\<not> ds_reading s" "ds_length s \<le> int (length (ds_buffer s))"
  then show "(\<lparr>ds_length = 0, ds_index = ds_index s, ds_reading = True,
      ds_buffer = slice_from (ds_length s) (ds_buffer s)\<rparr>, s)
    \<in> measure (\<lambda>s. 2 * length (ds_buffer s) + (if ds_reading s then 0 else 1))"
    using length_slice_from [of "ds_length s" "ds_buffer s"] by simp
qed auto

declare delimited_loop.simps [simp del]

definition delimited_transform :: "delimited \<Rightarrow> byte list \<Rightarrow> delimited \<times> byte list list" where
  "delimited_transform s chunk = delimited_loop (s\<lparr>ds_buffer := ds_buffer s @ chunk\<rparr>)"

section \<open>Bytes of a length\<close>

lemma and_7f: "uint ((b :: byte) AND 0x7f) = uint b mod 0x80"
proof -
  have "uint (b AND 0x7f) = uint b AND mask 7"
    by (simp add: unsigned_and_eq mask_numeral)
  then show ?thesis by (simp add: take_bit_eq_mask [symmetric] take_bit_eq_mod)
qed

lemma and_80: "(b :: byte) AND 0x80 \<noteq> 0 \<longleftrightarrow> 0x80 \<le> uint b"
proof -
  have "b AND 0x80 = b AND 2 ^ 7" by simp
  then have "b AND 0x80 \<noteq> 0 \<longleftrightarrow> bit b 7" by (metis and_exp_eq_0_iff_not_bit)
  also have "\<dots> \<longleftrightarrow> bit (uint b) 7" by (simp add: bit_uint_iff)
  also have "\<dots> \<longleftrightarrow> odd (uint b div 2 ^ 7)" by (rule bit_iff_odd)
  also have "\<dots> \<longleftrightarrow> 0x80 \<le> uint b"
  proof -
    have "0 \<le> uint b" "uint b < 256" using uint_bounded [of b] by auto
    then have "uint b div 128 = 0 \<or> uint b div 128 = 1" by auto
    then show ?thesis using \<open>0 \<le> uint b\<close> by auto
  qed
  finally show ?thesis .
qed

lemma byte_uint: "0 \<le> k \<Longrightarrow> k < 256 \<Longrightarrow> uint (word_of_int k :: byte) = k"
  by (simp add: unsigned_of_int take_bit_eq_mod)

lemma length_bytes_small: "n \<le> 0x7f \<Longrightarrow> length_bytes n = [n]"
  by (simp add: length_bytes.simps)

lemma length_bytes_big:
  "0x7f < n \<Longrightarrow> n < 2 ^ 31 \<Longrightarrow> length_bytes n = (0x80 + n mod 0x80) # length_bytes (n div 0x80)"
  by (simp add: length_bytes.simps [of n] js_shr_def to_int32_id)

section \<open>Where the reader is in a stream of frames\<close>

definition frame :: "byte list \<Rightarrow> byte list" where
  "frame m = concat (delimit m)"

abbreviation prefix_bytes :: "int \<Rightarrow> byte list" where
  "prefix_bytes n \<equiv> map word_of_int (length_bytes n)"

text \<open>
  \<open>at_prefix s u m ms\<close>: the reader has read some bytes of the length of \<open>m\<close>, what it still has
  to come (in its buffer and later) is \<open>u\<close>: the rest of the length, \<open>m\<close>, and the frames of \<open>ms\<close>.
\<close>

definition at_prefix :: "delimited \<Rightarrow> byte list \<Rightarrow> byte list \<Rightarrow> byte list list \<Rightarrow> bool" where
  "at_prefix s u m ms \<longleftrightarrow> (\<exists>r. ds_reading s \<and> 0 \<le> ds_length s \<and> 0 \<le> r \<and>
     ds_length s + r * 2 ^ (7 * ds_index s) = int (length m) \<and> (ds_index s = 0 \<or> 1 \<le> r) \<and>
     u = prefix_bytes r @ m @ concat (map frame ms))"

definition at_body :: "delimited \<Rightarrow> byte list \<Rightarrow> byte list \<Rightarrow> byte list list \<Rightarrow> bool" where
  "at_body s u m ms \<longleftrightarrow> \<not> ds_reading s \<and> ds_index s = 0 \<and> ds_length s = int (length m) \<and>
     u = m @ concat (map frame ms)"

definition small :: "byte list \<Rightarrow> bool" where
  "small m \<longleftrightarrow> m \<noteq> [] \<and> int (length m) < 2 ^ 31"

text \<open>\<open>expects s u msgs\<close>: the bytes to come are \<open>u\<close> and the messages still to be pushed \<open>msgs\<close>.\<close>

definition expects :: "delimited \<Rightarrow> byte list \<Rightarrow> byte list list \<Rightarrow> bool" where
  "expects s u msgs \<longleftrightarrow> list_all small msgs \<and>
     (case msgs of [] \<Rightarrow> u = [] \<and> ds_length s = 0 \<and> ds_index s = 0 \<and> ds_reading s
      | m # ms \<Rightarrow> at_prefix s u m ms \<or> at_body s u m ms)"

lemma read_prefix_byte:
  assumes "at_prefix s u m ms" and "small m" and "ds_buffer s = b # rest" and "u = b # v"
  defines "len \<equiv> ds_length s + js_shl (uint (b AND 0x7f)) (7 * ds_index s)"
  shows "(b AND 0x80 \<noteq> 0 \<longrightarrow>
      at_prefix \<lparr>ds_length = len, ds_index = Suc (ds_index s), ds_reading = True, ds_buffer = rest\<rparr> v m ms) \<and>
    (b AND 0x80 = 0 \<longrightarrow> at_body \<lparr>ds_length = len, ds_index = 0, ds_reading = False, ds_buffer = rest\<rparr> v m ms)"
proof -
  obtain r where r: "0 \<le> r" "0 \<le> ds_length s" "ds_length s + r * 2 ^ (7 * ds_index s) = int (length m)"
    "ds_index s = 0 \<or> 1 \<le> r" "u = prefix_bytes r @ m @ concat (map frame ms)"
    using assms(1) by (auto simp: at_prefix_def)
  let ?p = "2 ^ (7 * ds_index s) :: int"
  have m31: "int (length m) < 2 ^ 31" using assms(2) by (simp add: small_def)
  have rp: "r * ?p < 2 ^ 31" using r(2,3) m31 by linarith
  have p1: "1 \<le> ?p" by simp
  have "r \<le> r * ?p" using mult_left_mono [OF p1 r(1)] by simp
  then have r31: "r < 2 ^ 31" using rp by linarith
  have k: "7 * ds_index s < 31"
  proof (cases "ds_index s = 0")
    case False
    then have "?p \<le> r * ?p" using r(4) mult_right_mono [of 1 r ?p] by simp
    then have "?p < 2 ^ 31" using rp by linarith
    then show ?thesis by (simp only: power_strict_increasing_iff)
  qed simp
  have shl: "js_shl (r mod 0x80) (7 * ds_index s) = (r mod 0x80) * ?p"
  proof -
    have "r mod 0x80 \<le> r" using r(1) by (simp add: zmod_le_nonneg_dividend)
    then have "(r mod 0x80) * ?p \<le> r * ?p" by (intro mult_right_mono) auto
    moreover have "0 \<le> (r mod 0x80) * ?p" by simp
    moreover have "r mod 0x80 < 2 ^ 31" using \<open>r mod 0x80 \<le> r\<close> r31 by linarith
    moreover from calculation rp have "(r mod 0x80) * ?p < 2 ^ 31" by linarith
    ultimately have "to_int32 (r mod 0x80 * ?p) = r mod 0x80 * ?p" "to_int32 (r mod 0x80) = r mod 0x80"
      using to_int32_id [of "r mod 0x80 * ?p"] to_int32_id [of "r mod 0x80"] by simp_all
    then show ?thesis using k by (simp add: js_shl_def)
  qed
  show ?thesis
  proof (cases "0x7f < r")
    case True
    then have u: "u = word_of_int (0x80 + r mod 0x80) # prefix_bytes (r div 0x80) @ m @ concat (map frame ms)"
      using r(5) r31 by (simp add: length_bytes_big)
    have "b = word_of_int (0x80 + r mod 0x80)" using u assms(4) by (simp only: list.inject)
    then have ub: "uint b = 0x80 + r mod 0x80" by (simp only:) (rule byte_uint, simp_all)
    have len: "len = ds_length s + (r mod 0x80) * ?p"
      unfolding len_def and_7f ub using shl by simp
    have "len + (r div 0x80) * 2 ^ (7 * Suc (ds_index s)) = int (length m)"
    proof -
      have "r * ?p = (r mod 0x80) * ?p + (r div 0x80) * (2 ^ 7 * ?p)"
      proof -
        have "r * ?p = ((r div 128) * 128 + r mod 128) * ?p" by simp
        also have "\<dots> = (r mod 128) * ?p + (r div 128) * (2 ^ 7 * ?p)" by (simp only: distrib_right) simp
        finally show ?thesis .
      qed
      then show ?thesis using len r(3) by (simp add: power_add)
    qed
    then show ?thesis
      using u assms(4) ub and_80 [of b] True len r(1,2)
      by (auto simp: at_prefix_def intro!: exI [of _ "r div 0x80"])
  next
    case False
    then have u: "u = word_of_int r # m @ concat (map frame ms)" using r(5) by (simp add: length_bytes_small)
    have "b = word_of_int r" using u assms(4) by (simp only: list.inject)
    then have ub: "uint b = r" using False r(1) by (simp only:) (rule byte_uint, simp_all)
    have "r mod 0x80 = r" using False r(1) by simp
    then have "len = int (length m)" unfolding len_def and_7f ub using shl r(3) by simp
    then show ?thesis using u assms(4) ub and_80 [of b] False by (auto simp: at_body_def)
  qed
qed

section \<open>Running the reader over a chunk\<close>

lemma loop_nil: "ds_buffer s = [] \<Longrightarrow> delimited_loop s = (s, [])"
  by (simp add: delimited_loop.simps)

lemma loop_read:
  assumes "ds_buffer s = b # rest" and "ds_reading s"
    and "len = ds_length s + js_shl (uint (b AND 0x7f)) (7 * ds_index s)"
  shows "delimited_loop s = (if b AND 0x80 \<noteq> 0
      then delimited_loop \<lparr>ds_length = len, ds_index = Suc (ds_index s), ds_reading = True, ds_buffer = rest\<rparr>
      else delimited_loop \<lparr>ds_length = len, ds_index = 0, ds_reading = False, ds_buffer = rest\<rparr>)"
  unfolding delimited_loop.simps [of s] assms(1,3) list.case Let_def if_P [OF assms(2)] ..

lemma loop_wait:
  "\<not> ds_reading s \<Longrightarrow> int (length (ds_buffer s)) < ds_length s \<Longrightarrow> delimited_loop s = (s, [])"
  by (cases "ds_buffer s") (simp_all add: delimited_loop.simps)

lemma loop_push:
  "\<not> ds_reading s \<Longrightarrow> ds_length s = int n \<Longrightarrow> n \<le> length (ds_buffer s) \<Longrightarrow> ds_buffer s \<noteq> [] \<Longrightarrow>
   delimited_loop s =
     (let r = delimited_loop \<lparr>ds_length = 0, ds_index = ds_index s, ds_reading = True, ds_buffer = drop n (ds_buffer s)\<rparr>
      in (fst r, take n (ds_buffer s) # snd r))"
  by (subst delimited_loop.simps) (auto split: list.splits)

lemma at_prefix_start: "at_prefix \<lparr>ds_length = 0, ds_index = 0, ds_reading = True, ds_buffer = b\<rparr>
    (prefix_bytes (int (length m)) @ m @ concat (map frame ms)) m ms"
  by (auto simp: at_prefix_def)

lemma expects_boundary:
  assumes "list_all small msgs"
  shows "expects \<lparr>ds_length = 0, ds_index = 0, ds_reading = True, ds_buffer = b\<rparr> (concat (map frame msgs)) msgs"
  using assms at_prefix_start
  by (cases msgs) (auto simp: expects_def delimited_new_def frame_def delimit_def)

lemma expects_loop:
  assumes "expects s u msgs" and "u = ds_buffer s @ later"
  shows "\<exists>msgs'. msgs = snd (delimited_loop s) @ msgs' \<and>
    expects (fst (delimited_loop s)) (ds_buffer (fst (delimited_loop s)) @ later) msgs' \<and>
    (ds_buffer (fst (delimited_loop s)) \<noteq> [] \<longrightarrow> \<not> ds_reading (fst (delimited_loop s)) \<and>
       int (length (ds_buffer (fst (delimited_loop s)))) < ds_length (fst (delimited_loop s)))"
  using assms
proof (induction s arbitrary: u msgs rule: delimited_loop.induct)
  case (1 s)
  show ?case
  proof (cases "ds_buffer s")
    case Nil
    then show ?thesis using 1 by (auto simp: loop_nil)
  next
    case (Cons b rest)
    have u: "u = b # rest @ later" using 1 Cons by simp
    obtain m ms where msgs: "msgs = m # ms" and m: "small m" and ms: "list_all small ms"
      and at: "at_prefix s u m ms \<or> at_body s u m ms"
      using 1(4) u by (cases msgs) (auto simp: expects_def)
    show ?thesis
    proof (cases "ds_reading s")
      case True
      then have pre: "at_prefix s u m ms" using at by (simp add: at_body_def)
      define len where "len = ds_length s + js_shl (uint (b AND 0x7f)) (7 * ds_index s)"
      note rp = read_prefix_byte [OF pre m Cons u, folded len_def]
      show ?thesis
      proof (cases "b AND 0x80 = 0")
        case True
        let ?t = "\<lparr>ds_length = len, ds_index = 0, ds_reading = False, ds_buffer = rest\<rparr>"
        have "delimited_loop s = delimited_loop ?t"
          using loop_read [OF Cons \<open>ds_reading s\<close> len_def] True by simp
        moreover have "expects ?t (rest @ later) msgs" using rp True msgs m ms by (simp add: expects_def)
        moreover have "\<not> b AND 0x80 \<noteq> 0" using True by simp
        ultimately show ?thesis
          by (simp only:) (rule 1(2) [OF Cons \<open>ds_reading s\<close> len_def], simp_all only: delimited.simps not_False_eq_True)
      next
        case False
        let ?t = "\<lparr>ds_length = len, ds_index = Suc (ds_index s), ds_reading = True, ds_buffer = rest\<rparr>"
        have "delimited_loop s = delimited_loop ?t"
          using loop_read [OF Cons \<open>ds_reading s\<close> len_def] False by simp
        moreover have "expects ?t (rest @ later) msgs" using rp False msgs m ms by (simp add: expects_def)
        ultimately show ?thesis
          by (simp only:) (rule 1(1) [OF Cons \<open>ds_reading s\<close> len_def False], simp_all only: delimited.simps not_False_eq_True)
      qed
    next
      case False
      then have body: "at_body s u m ms" using at by (simp add: at_prefix_def)
      show ?thesis
      proof (cases "length m \<le> length (ds_buffer s)")
        case False
        then have "delimited_loop s = (s, [])" using body \<open>\<not> ds_reading s\<close> by (auto simp: at_body_def intro: loop_wait)
        then show ?thesis using 1(4,5) False body by (auto simp: at_body_def)
      next
        case True
        let ?t = "\<lparr>ds_length = 0, ds_index = ds_index s, ds_reading = True, ds_buffer = drop (length m) (ds_buffer s)\<rparr>"
        have len: "ds_length s = int (length m)" "ds_index s = 0" using body by (simp_all add: at_body_def)
        have split: "ds_buffer s @ later = m @ concat (map frame ms)" using body 1(5) by (simp add: at_body_def)
        have "take (length m) (ds_buffer s @ later) = m"
          "drop (length m) (ds_buffer s @ later) = concat (map frame ms)" unfolding split by simp_all
        then have tk: "take (length m) (ds_buffer s) = m"
          and dr: "drop (length m) (ds_buffer s) @ later = concat (map frame ms)" using True by simp_all
        have ex: "expects ?t (concat (map frame ms)) ms" using expects_boundary [OF ms] len by simp
        have fits: "ds_length s \<le> int (length (ds_buffer s))" using len True by simp
        have t: "?t = \<lparr>ds_length = 0, ds_index = ds_index s, ds_reading = True,
            ds_buffer = slice_from (ds_length s) (ds_buffer s)\<rparr>" using len by simp
        have "concat (map frame ms) = ds_buffer ?t @ later" using dr by simp
        then have "\<exists>ms'. ms = snd (delimited_loop ?t) @ ms' \<and>
            expects (fst (delimited_loop ?t)) (ds_buffer (fst (delimited_loop ?t)) @ later) ms' \<and>
            (ds_buffer (fst (delimited_loop ?t)) \<noteq> [] \<longrightarrow> \<not> ds_reading (fst (delimited_loop ?t)) \<and>
             int (length (ds_buffer (fst (delimited_loop ?t)))) < ds_length (fst (delimited_loop ?t)))"
          using ex unfolding t by (intro 1(3) [OF Cons \<open>\<not> ds_reading s\<close> fits])
        then obtain ms' where
          "ms = snd (delimited_loop ?t) @ ms'" and
          "expects (fst (delimited_loop ?t)) (ds_buffer (fst (delimited_loop ?t)) @ later) ms'" and
          "ds_buffer (fst (delimited_loop ?t)) \<noteq> [] \<longrightarrow> \<not> ds_reading (fst (delimited_loop ?t)) \<and>
             int (length (ds_buffer (fst (delimited_loop ?t)))) < ds_length (fst (delimited_loop ?t))"
          by auto
        moreover have "delimited_loop s = (fst (delimited_loop ?t), m # snd (delimited_loop ?t))"
          using loop_push [OF \<open>\<not> ds_reading s\<close> len(1) True] Cons tk by (simp add: Let_def)
        ultimately show ?thesis using msgs by simp
      qed
    qed
  qed
qed

text \<open>A sequence of chunks, as the socket delivers them.\<close>

fun feed :: "delimited \<Rightarrow> byte list list \<Rightarrow> delimited \<times> byte list list" where
  "feed s [] = (s, [])"
| "feed s (c # cs) =
     (let r1 = delimited_transform s c; r2 = feed (fst r1) cs in (fst r2, snd r1 @ snd r2))"

lemma expects_buffer: "expects s u msgs \<Longrightarrow> expects (s\<lparr>ds_buffer := b\<rparr>) u msgs"
  by (cases msgs) (auto simp: expects_def at_prefix_def at_body_def delimited_new_def)

lemma expects_feed:
  assumes "expects s (ds_buffer s @ concat chunks) msgs"
    and "ds_buffer s \<noteq> [] \<longrightarrow> \<not> ds_reading s \<and> int (length (ds_buffer s)) < ds_length s"
  shows "snd (feed s chunks) = msgs \<and> fst (feed s chunks) = delimited_new"
  using assms
proof (induction chunks arbitrary: s msgs)
  case Nil
  show ?case
  proof (cases msgs)
    case Nil
    then show ?thesis using Nil.prems by (simp add: expects_def delimited_new_def)
  next
    case (Cons m ms)
    then have sm: "small m" and at: "at_prefix s (ds_buffer s) m ms \<or> at_body s (ds_buffer s) m ms"
      using Nil.prems(1) by (simp_all add: expects_def)
    from at have False
    proof
      assume a: "at_prefix s (ds_buffer s) m ms"
      then obtain r where "ds_buffer s = prefix_bytes r @ m @ concat (map frame ms)" by (auto simp: at_prefix_def)
      then have "ds_buffer s \<noteq> []" using sm by (simp add: small_def)
      then show False using Nil.prems(2) a by (simp add: at_prefix_def)
    next
      assume "at_body s (ds_buffer s) m ms"
      then show False using Nil.prems(2) sm by (auto simp: at_body_def small_def)
    qed
    then show ?thesis ..
  qed
next
  case (Cons c cs)
  let ?s = "s\<lparr>ds_buffer := ds_buffer s @ c\<rparr>"
  have "expects ?s (ds_buffer s @ c @ concat cs) msgs" using expects_buffer [OF Cons.prems(1)] by simp
  from expects_loop [OF this, of "concat cs"] obtain msgs' where
    "msgs = snd (delimited_loop ?s) @ msgs'"
    "expects (fst (delimited_loop ?s)) (ds_buffer (fst (delimited_loop ?s)) @ concat cs) msgs'"
    "ds_buffer (fst (delimited_loop ?s)) \<noteq> [] \<longrightarrow> \<not> ds_reading (fst (delimited_loop ?s)) \<and>
       int (length (ds_buffer (fst (delimited_loop ?s)))) < ds_length (fst (delimited_loop ?s))"
    by auto
  then show ?case using Cons.IH [of "fst (delimited_loop ?s)" msgs'] by (simp add: delimited_transform_def Let_def)
qed

text \<open>
  C32. What the writer frames the reader recovers: for any messages of one to \<open>2^31 - 1\<close>
  bytes, and however the transport cuts the byte stream into chunks, the reader pushes exactly
  the messages, in order, and is back in its initial state. (The 32-bit shifts do not overflow
  in this range.)
\<close>

theorem delimited_roundtrip:
  assumes "list_all small msgs" and "concat chunks = concat (map (\<lambda>m. concat (delimit m)) msgs)"
  shows "feed delimited_new chunks = (delimited_new, msgs)"
proof -
  have "expects delimited_new (concat (map frame msgs)) msgs"
    using expects_boundary [OF assms(1), of "[]"] by (simp add: delimited_new_def)
  moreover have "frame = (\<lambda>m. concat (delimit m))" by (simp add: fun_eq_iff frame_def)
  then have "concat chunks = concat (map frame msgs)" using assms(2) by simp
  ultimately have "snd (feed delimited_new chunks) = msgs \<and> fst (feed delimited_new chunks) = delimited_new"
    by (intro expects_feed) (simp_all add: delimited_new_def)
  then show ?thesis by (metis prod.collapse)
qed

theorem delimited_roundtrip_witness:
  "feed delimited_new [[2], [7, 9, 1], [5]] = (delimited_new, [[7, 9], [5]])"
proof (rule delimited_roundtrip)
  show "list_all small [[7, 9], [5]]" by (simp add: small_def)
  show "concat [[2], [7, 9, 1], [5 :: byte]] = concat (map (\<lambda>m. concat (delimit m)) [[7, 9], [5]])"
    by (simp add: delimit_def length_bytes.simps)
qed

text \<open>
  An empty message is held back: its length byte alone makes the reader wait, although all
  of the (empty) payload has arrived, and it is pushed only when a byte of the next frame comes.
\<close>

theorem delimited_empty_held_back:
  "snd (delimited_transform delimited_new (concat (delimit []))) = [] \<and>
   snd (feed delimited_new [concat (delimit []), concat (delimit [b])]) = [[], [b]]"
  by (simp add: delimit_def length_bytes.simps delimited_transform_def delimited_new_def Let_def
      delimited_loop.simps js_shl_def to_int32_def slice_from_def slice_to_def slice_index_def)

end
