(* ===== verification/Group_Manager.thy ===== *)
theory Group_Manager imports Channel_Manager begin

text \<open>
  \<open>lib/units/base-device/plugins/group.ts\<close> (who uses the device), its client
  \<open>lib/units/device/plugins/group.ts\<close> (what an Android device does on joining and leaving)
  and \<open>lib/util/grouputil.ts\<close> (the requirements of a request).

  The plugin keeps the current group and a channel of the channel manager of
  \<open>Channel_Manager\<close>. A message handler touches no state before its first \<open>await\<close>, so
  the step of a message is its continuation, with the outcome of the check as an argument.
  The handler of a channel's timeout captures the group when it is called and goes on later:
  the captured pairs wait in \<open>gm_waiting\<close>. Log output is left out; what the plugin sends,
  subscribes to, emits, and the rejections nobody handles are outputs.
\<close>

section \<open>Requirements of a request\<close>

datatype requirement_type = SEMVER | GLOB | EXACT | OtherRequirement

record requirement =
  rq_name :: string
  rq_value :: string
  rq_type :: requirement_type

text \<open>\<open>semver.satisfies\<close> and \<open>minimatch\<close> are parameters; the left value names the requirement that fails.\<close>

fun req_match ::
  "(string \<Rightarrow> string \<Rightarrow> bool) \<Rightarrow> (string \<Rightarrow> string \<Rightarrow> bool) \<Rightarrow> (string \<Rightarrow> string option) \<Rightarrow>
   requirement list \<Rightarrow> string + bool" where
  "req_match satisfies minimatch cap [] = Inr True"
| "req_match satisfies minimatch cap (r # rs) =
     (case cap (rq_name r) of
        None \<Rightarrow> Inl (rq_name r)
      | Some c \<Rightarrow>
          (if c = [] then Inl (rq_name r)
           else case rq_type r of
             SEMVER \<Rightarrow> (if \<not> satisfies c (rq_value r) then Inl (rq_name r) else req_match satisfies minimatch cap rs)
           | GLOB \<Rightarrow> (if \<not> minimatch c (rq_value r) then Inl (rq_name r) else req_match satisfies minimatch cap rs)
           | EXACT \<Rightarrow> (if c \<noteq> rq_value r then Inl (rq_name r) else req_match satisfies minimatch cap rs)
           | OtherRequirement \<Rightarrow> Inl (rq_name r)))"

definition mismatch_message :: "string \<Rightarrow> string" where
  "mismatch_message name = ''Requirement mismatch for '' @ [CHR 0x22] @ name @ [CHR 0x22]"

definition ALREADY_GROUPED :: string where
  "ALREADY_GROUPED = ''Already a member of another group''"

definition NO_GROUP :: string where
  "NO_GROUP = ''Not a member of any group''"

text \<open>The check that the Android unit installs: the rejection carries the error's message.\<close>

definition device_check ::
  "(string \<Rightarrow> string \<Rightarrow> bool) \<Rightarrow> (string \<Rightarrow> string \<Rightarrow> bool) \<Rightarrow> (string \<Rightarrow> string option) \<Rightarrow>
   requirement list option \<Rightarrow> string + bool" where
  "device_check satisfies minimatch ident reqs =
     (case reqs of None \<Rightarrow> Inr True
      | Some rs \<Rightarrow> (case req_match satisfies minimatch ident rs of
          Inl name \<Rightarrow> Inl (mismatch_message name) | Inr b \<Rightarrow> Inr b))"

definition satisfied :: "(string \<Rightarrow> string \<Rightarrow> bool) \<Rightarrow> (string \<Rightarrow> string \<Rightarrow> bool) \<Rightarrow> (string \<Rightarrow> string option) \<Rightarrow> requirement \<Rightarrow> bool" where
  "satisfied satisfies minimatch cap r =
     (\<exists>c. cap (rq_name r) = Some c \<and> c \<noteq> [] \<and>
        (rq_type r = SEMVER \<and> satisfies c (rq_value r) \<or> rq_type r = GLOB \<and> minimatch c (rq_value r) \<or>
         rq_type r = EXACT \<and> c = rq_value r))"

lemma req_match_iff:
  "req_match sat mini cap rs = Inr b \<longleftrightarrow> b \<and> (\<forall>r \<in> set rs. satisfied sat mini cap r)"
  by (induction sat mini cap rs rule: req_match.induct)
    (auto simp: satisfied_def split: option.splits requirement_type.splits)

lemma req_match_first:
  "req_match sat mini cap rs = Inl n \<longleftrightarrow>
   (\<exists>as r bs. rs = as @ r # bs \<and> rq_name r = n \<and> \<not> satisfied sat mini cap r \<and> (\<forall>a \<in> set as. satisfied sat mini cap a))"
proof (induction rs)
  case Nil
  then show ?case by simp
next
  case (Cons r rs)
  have ok: "req_match sat mini cap (r # rs) =
      (if satisfied sat mini cap r then req_match sat mini cap rs else Inl (rq_name r))"
    by (auto simp: satisfied_def split: option.splits requirement_type.splits)
  show ?case
  proof (cases "satisfied sat mini cap r")
    case True
    show ?thesis
    proof
      assume "req_match sat mini cap (r # rs) = Inl n"
      then obtain as x bs where "rs = as @ x # bs" "rq_name x = n" "\<not> satisfied sat mini cap x"
        "\<forall>a \<in> set as. satisfied sat mini cap a" using Cons.IH ok True by auto
      then show "\<exists>as x bs. r # rs = as @ x # bs \<and> rq_name x = n \<and> \<not> satisfied sat mini cap x \<and>
          (\<forall>a \<in> set as. satisfied sat mini cap a)"
        using True by (intro exI [of _ "r # as"] exI [of _ x] exI [of _ bs]) auto
    next
      assume "\<exists>as x bs. r # rs = as @ x # bs \<and> rq_name x = n \<and> \<not> satisfied sat mini cap x \<and>
          (\<forall>a \<in> set as. satisfied sat mini cap a)"
      then obtain as x bs where a: "r # rs = as @ x # bs" "rq_name x = n" "\<not> satisfied sat mini cap x"
        "\<forall>a \<in> set as. satisfied sat mini cap a" by blast
      then obtain as' where "as = r # as'" using True by (cases as) auto
      then have "req_match sat mini cap rs = Inl n" using a Cons.IH by auto
      then show "req_match sat mini cap (r # rs) = Inl n" using ok True by simp
    qed
  next
    case False
    have "n = rq_name r" if "r # rs = as @ x # bs" "rq_name x = n" "\<forall>a \<in> set as. satisfied sat mini cap a" for as x bs
      using that False by (cases as) auto
    then show ?thesis using ok False by (auto intro!: exI [of _ "[]"])
  qed
qed

section \<open>State and outputs of the plugin\<close>

record group_state =
  g_email :: string
  g_name :: string
  g_group :: string

record gm_options =
  op_serial :: serial
  op_group_timeout :: int
  op_solo :: channel

record gm_state =
  gm_group :: "group_state option"
  gm_chans :: chan_state
  gm_waiting :: "(channel \<times> group_state) list"

datatype gm_out =
    SendStatus serial "int option"
  | SendJoin serial group_state string "int option"
  | SendLeave serial group_state string
  | Subscribe channel
  | Unsubscribe channel
  | EmitJoin group_state "string list"
  | EmitLeave
  | EmitAutojoin string bool
  | ReplyOkay channel
  | ReplyFail channel string
  | Unhandled string

definition gm_new :: gm_state where
  "gm_new = \<lparr>gm_group = None, gm_chans = chan_new, gm_waiting = []\<rparr>"

definition QUARTER_MINUTES :: int where
  "QUARTER_MINUTES = 15 * 60 * 1000"

section \<open>Operations\<close>

definition gm_keepalive :: "gm_state \<Rightarrow> millis \<Rightarrow> gm_state" where
  "gm_keepalive s now = (case gm_group s of None \<Rightarrow> s
     | Some g \<Rightarrow> s\<lparr>gm_chans := chan_keepalive (gm_chans s) (g_group g) now\<rparr>)"

text \<open>
  \<open>get\<close> rejects with \<open>NoGroupError\<close>; the handler of \<open>timeout\<close> calls it when the event is
  emitted, so either the rejection is unhandled or a captured group waits.
\<close>

definition gm_get :: "gm_state \<Rightarrow> string + group_state" where
  "gm_get s = (case gm_group s of None \<Rightarrow> Inl NO_GROUP | Some g \<Rightarrow> Inr g)"

fun gm_on_timeout :: "gm_state \<Rightarrow> chan_out list \<Rightarrow> gm_state \<times> gm_out list" where
  "gm_on_timeout s [] = (s, [])"
| "gm_on_timeout s (ChanTimeout c # es) =
     (case gm_get s of
        Inl err \<Rightarrow> (let r = gm_on_timeout s es in (fst r, Unhandled err # snd r))
      | Inr g \<Rightarrow> gm_on_timeout (s\<lparr>gm_waiting := gm_waiting s @ [(c, g)]\<rparr>) es)"

text \<open>
  \<open>join\<close>: the body of the \<open>try\<close>, whose errors (an invalid group, \<open>AlreadyGroupedError\<close>, an
  alias in use) the \<open>catch\<close> only logs; \<open>now\<close> and \<open>now'\<close> are the two readings of the clock
  of \<open>channels.register\<close>.
\<close>

definition gm_join ::
  "gm_options \<Rightarrow> gm_state \<Rightarrow> group_state option \<Rightarrow> int option \<Rightarrow> string \<Rightarrow> string list \<Rightarrow> millis \<Rightarrow> millis \<Rightarrow>
   gm_state \<times> gm_out list" where
  "gm_join opts s new timeout usage keys now now' =
     (if \<not> truthy_str (map_option g_group new) then (s, [])
      else if truthy_str (map_option g_group (gm_group s)) then
        (let g = the (gm_group s) in
         if g_group g \<noteq> g_group (the new) then (s, [])
         else (let cs = chan_update_timeout (gm_chans s) (g_group g) QUARTER_MINUTES;
                   t = opt_num_or (chan_get_timeout cs (g_group g)) 0
               in (s\<lparr>gm_chans := cs\<rparr>, [SendStatus (op_serial opts) (if t = 0 then None else Some t)])))
      else
        (let g = the new; s1 = s\<lparr>gm_group := Some g\<rparr> in
         case chan_register (gm_chans s1) (g_group g) (opt_num_or timeout (op_group_timeout opts))
                (Some (op_solo opts)) now now' of
           Inl err \<Rightarrow> (s1, [])
         | Inr r \<Rightarrow>
             (let r2 = gm_on_timeout (s1\<lparr>gm_chans := fst r\<rparr>) (snd r)
              in (fst r2, snd r2 @ [Subscribe (g_group g), EmitJoin g keys, SendJoin (op_serial opts) g usage timeout]))))"

definition gm_leave :: "gm_options \<Rightarrow> gm_state \<Rightarrow> string \<Rightarrow> string + (gm_state \<times> gm_out list)" where
  "gm_leave opts s reason =
     (case gm_group s of
        None \<Rightarrow> Inl NO_GROUP
      | Some g \<Rightarrow> Inr (s\<lparr>gm_group := None, gm_chans := chan_unregister (gm_chans s) (g_group g)\<rparr>,
          [SendLeave (op_serial opts) g reason, Unsubscribe (g_group g), EmitLeave]))"

text \<open>\<open>checkBeforeAction\<close>: a rejection is answered and counts as a refusal.\<close>

fun gm_checked :: "channel \<Rightarrow> string + bool \<Rightarrow> bool \<times> gm_out list" where
  "gm_checked ch (Inl msg) = (False, [ReplyFail ch msg])"
| "gm_checked ch (Inr b) = (b, [])"

datatype gm_event =
    GroupMsg channel "string + bool" "group_state option" "int option" string "string list" millis millis
  | AutoGroupMsg "group_state option" string millis millis
  | UngroupMsg channel "string + bool"
  | TimerFires nat millis
  | ResumeTimeout
  | Activity channel millis
  | KeepGroup millis
  | ProcessExit

fun gm_step :: "gm_options \<Rightarrow> gm_state \<Rightarrow> gm_event \<Rightarrow> gm_state \<times> gm_out list" where
  "gm_step opts s (GroupMsg ch check owner timeout usage keys now now') =
     (let c = gm_checked ch check in
      if \<not> fst c then (s, snd c)
      else (let r = gm_join opts s owner timeout usage keys now now' in (fst r, snd r @ [ReplyOkay ch])))"
| "gm_step opts s (AutoGroupMsg owner ident now now') =
     (let r = gm_join opts s owner (Some 0) ident [] now now' in (fst r, snd r @ [EmitAutojoin ident True]))"
| "gm_step opts s (UngroupMsg ch check) =
     (let c = gm_checked ch check in
      if \<not> fst c then (s, snd c)
      else (case gm_leave opts s ''ungroup_request'' of
          Inl err \<Rightarrow> (s, [ReplyFail ch err])
        | Inr r \<Rightarrow> (fst r, snd r @ [ReplyOkay ch])))"
| "gm_step opts s (TimerFires h now) =
     (let r = chan_fire (gm_chans s) h now in gm_on_timeout (s\<lparr>gm_chans := fst r\<rparr>) (snd r))"
| "gm_step opts s ResumeTimeout =
     (case gm_waiting s of
        [] \<Rightarrow> (s, [])
      | (c, g) # ws \<Rightarrow>
          (let s1 = s\<lparr>gm_waiting := ws\<rparr> in
           if c = g_group g then
             (case gm_leave opts s1 ''automatic_timeout'' of Inl err \<Rightarrow> (s1, [Unhandled err]) | Inr r \<Rightarrow> r)
           else (s1, [])))"
| "gm_step opts s (Activity ch now) = (s\<lparr>gm_chans := chan_keepalive (gm_chans s) ch now\<rparr>, [])"
| "gm_step opts s (KeepGroup now) = (gm_keepalive s now, [])"
| "gm_step opts s ProcessExit =
     (case gm_leave opts s ''device_absent'' of Inl err \<Rightarrow> (s, []) | Inr r \<Rightarrow> r)"

section \<open>The group and its channel\<close>

definition chan_pair :: "channel \<Rightarrow> channel \<Rightarrow> chan_state \<Rightarrow> bool" where
  "chan_pair solo g cs \<longleftrightarrow>
     (\<exists>a. cm_chans cs = [solo \<mapsto> a, g \<mapsto> a] \<and> ch_alias (cm_objs cs a) = Some solo)"

definition timer_ids :: "chan_state \<Rightarrow> channel set" where
  "timer_ids cs = (\<lambda>t. snd (snd t)) ` set (cm_timers cs)"

text \<open>
  The device is free and has no channel, or it is in a group whose channel is registered with
  the solo alias, or that channel has just timed out and the handler of the timeout waits.
\<close>

definition gm_inv :: "gm_options \<Rightarrow> gm_state \<Rightarrow> bool" where
  "gm_inv opts s \<longleftrightarrow> op_solo opts \<noteq> [] \<and> op_solo opts \<notin> timer_ids (gm_chans s) \<and>
     (case gm_group s of
        None \<Rightarrow> cm_chans (gm_chans s) = Map.empty
      | Some g \<Rightarrow> g_group g \<noteq> [] \<and> g_group g \<noteq> op_solo opts \<and>
          (chan_pair (op_solo opts) (g_group g) (gm_chans s) \<or>
           cm_chans (gm_chans s) = Map.empty \<and>
           (\<exists>w \<in> set (gm_waiting s). fst w = g_group g \<and> g_group (snd w) = g_group g)))"

fun gm_event_ok :: "gm_options \<Rightarrow> gm_event \<Rightarrow> bool" where
  "gm_event_ok opts (GroupMsg ch check owner timeout usage keys now now') =
     (map_option g_group owner \<noteq> Some (op_solo opts))"
| "gm_event_ok opts (AutoGroupMsg owner ident now now') = (map_option g_group owner \<noteq> Some (op_solo opts))"
| "gm_event_ok opts e = True"

lemma chan_pair_unregister:
  "chan_pair solo g cs \<Longrightarrow> solo \<noteq> [] \<Longrightarrow> cm_chans (chan_unregister cs g) = Map.empty"
  by (auto simp: chan_pair_def unregister_chans truthy_str_def fun_eq_iff)

lemma not_chan_pair_empty: "cm_chans cs = Map.empty \<Longrightarrow> \<not> chan_pair solo g cs"
  by (auto simp: chan_pair_def dest: fun_cong [of _ _ g])

lemma timer_ids_unregister: "timer_ids (chan_unregister cs g) \<subseteq> timer_ids cs"
  by (auto simp: timer_ids_def chan_unregister_def clear_timer_def Let_def split: option.splits)

lemma timer_ids_clear: "timer_ids (clear_timer h cs) \<subseteq> timer_ids cs"
  by (auto simp: timer_ids_def clear_timer_def split: option.splits)

lemma timer_ids_keepalive [simp]: "timer_ids (chan_keepalive cs c now) = timer_ids cs"
  by (auto simp: timer_ids_def chan_keepalive_def split: option.splits)

lemma timer_ids_extend [simp]: "timer_ids (chan_update_timeout cs c d) = timer_ids cs"
  by (auto simp: timer_ids_def chan_update_timeout_def split: option.splits)

lemma timer_ids_check: "timer_ids (fst (chan_check cs c now)) \<subseteq> insert c (timer_ids cs)"
proof (cases "cm_chans cs c")
  case None
  then show ?thesis by (auto simp: chan_check_def)
next
  case (Some a)
  show ?thesis
  proof (cases "now - ch_last (cm_objs cs a) \<ge> ch_timeout (cm_objs cs a)")
    case True
    then show ?thesis using Some timer_ids_unregister [of cs c] by (auto simp: chan_check_def)
  next
    case False
    then show ?thesis using Some by (auto simp: chan_check_def timer_ids_def upd_chan_def Let_def)
  qed
qed

lemma chans_keepalive [simp]: "cm_chans (chan_keepalive cs c now) = cm_chans cs"
  by (auto simp: chan_keepalive_def split: option.splits)

lemma chans_extend [simp]: "cm_chans (chan_update_timeout cs c d) = cm_chans cs"
  by (auto simp: chan_update_timeout_def split: option.splits)

lemma alias_keepalive [simp]: "ch_alias (cm_objs (chan_keepalive cs c now) a) = ch_alias (cm_objs cs a)"
  by (auto simp: chan_keepalive_def upd_chan_def split: option.splits)

lemma alias_extend [simp]: "ch_alias (cm_objs (chan_update_timeout cs c d) a) = ch_alias (cm_objs cs a)"
  by (auto simp: chan_update_timeout_def upd_chan_def split: option.splits)

lemma chan_pair_keepalive [simp]: "chan_pair solo g (chan_keepalive cs c now) = chan_pair solo g cs"
  by (simp add: chan_pair_def)

lemma chan_pair_extend [simp]: "chan_pair solo g (chan_update_timeout cs c d) = chan_pair solo g cs"
  by (simp add: chan_pair_def)

lemma chan_pair_clear [simp]: "chan_pair solo g (clear_timer h cs) = chan_pair solo g cs"
  by (simp add: chan_pair_def)

lemma chan_pair_check:
  assumes "chan_pair solo g cs" and "c \<noteq> solo" and "solo \<noteq> []"
  obtains (stays) "chan_pair solo g (fst (chan_check cs c now))" "snd (chan_check cs c now) = []"
  | (expires) "c = g" "cm_chans (fst (chan_check cs c now)) = Map.empty" "snd (chan_check cs c now) = [ChanTimeout g]"
proof (cases rule: check_cases [of cs c now])
  case absent
  then show ?thesis using stays assms by simp
next
  case (expired a)
  then have "c = g" using assms by (auto simp: chan_pair_def split: if_splits)
  then show ?thesis using expires expired chan_pair_unregister [OF assms(1,3)] by simp
next
  case (kept a)
  then show ?thesis using stays assms by (auto simp: chan_pair_def)
qed

lemma fire_empty: "cm_chans cs = Map.empty \<Longrightarrow> cm_chans (fst (chan_fire cs h now)) = Map.empty \<and> snd (chan_fire cs h now) = []"
  by (auto simp: chan_fire_def chan_check_def split: option.splits)

lemma timer_ids_fire: "timer_ids (fst (chan_fire cs h now)) \<subseteq> timer_ids cs"
proof (cases "find (\<lambda>t. fst t = h \<and> fst (snd t) \<le> now) (cm_timers cs)")
  case None
  then show ?thesis by (simp add: chan_fire_def)
next
  case (Some t)
  then have "snd (snd t) \<in> timer_ids cs" by (auto simp: find_Some_iff timer_ids_def)
  then show ?thesis using Some timer_ids_check timer_ids_clear by (fastforce simp: chan_fire_def)
qed

lemma chan_pair_fire:
  assumes "chan_pair solo g cs" and "solo \<notin> timer_ids cs" and "solo \<noteq> []"
  obtains (stays) "chan_pair solo g (fst (chan_fire cs h now))" "snd (chan_fire cs h now) = []"
  | (expires) "cm_chans (fst (chan_fire cs h now)) = Map.empty" "snd (chan_fire cs h now) = [ChanTimeout g]"
proof (cases "find (\<lambda>t. fst t = h \<and> fst (snd t) \<le> now) (cm_timers cs)")
  case None
  then show ?thesis using stays assms by (simp add: chan_fire_def)
next
  case (Some t)
  then have "snd (snd t) \<noteq> solo" using assms(2) by (auto simp: find_Some_iff timer_ids_def)
  moreover have "chan_pair solo g (clear_timer (Some h) cs)" using assms(1) by simp
  ultimately show ?thesis
    using stays expires Some chan_pair_check [of solo g "clear_timer (Some h) cs" "snd (snd t)" now] assms(3)
    by (auto simp: chan_fire_def)
qed

text \<open>Registering the group of a free device never fails, and either its channel is there or has expired at once.\<close>

lemma register_free:
  assumes "cm_chans cs = Map.empty" and "solo \<noteq> []" and "g \<noteq> solo" and "solo \<notin> timer_ids cs"
  obtains ds out where "chan_register cs g t (Some solo) now now' = Inr (ds, out)"
    and "solo \<notin> timer_ids ds"
    and "chan_pair solo g ds \<and> out = [] \<or> cm_chans ds = Map.empty \<and> out = [ChanTimeout g]"
proof -
  let ?c = "\<lparr>ch_timeout = t, ch_alias = Some solo, ch_last = now, ch_timer = None\<rparr>"
  let ?s3 = "cs\<lparr>cm_objs := (cm_objs cs)(cm_next cs := ?c), cm_next := Suc (cm_next cs),
      cm_chans := [solo \<mapsto> cm_next cs, g \<mapsto> cm_next cs]\<rparr>"
  have r: "chan_register cs g t (Some solo) now now' = Inr (chan_check ?s3 g now')"
    using assms(1,2) by (simp add: chan_register_def truthy_str_def Let_def)
  have p: "chan_pair solo g ?s3" by (auto simp: chan_pair_def)
  have "solo \<notin> timer_ids ?s3" using assms(4) by (simp add: timer_ids_def)
  then have "solo \<notin> timer_ids (fst (chan_check ?s3 g now'))"
    using timer_ids_check [of ?s3 g now'] assms(3) by auto
  moreover have "chan_pair solo g (fst (chan_check ?s3 g now')) \<and> snd (chan_check ?s3 g now') = [] \<or>
      cm_chans (fst (chan_check ?s3 g now')) = Map.empty \<and> snd (chan_check ?s3 g now') = [ChanTimeout g]"
    using chan_pair_check [OF p assms(3,2), of now'] by blast
  ultimately show ?thesis using that [of "fst (chan_check ?s3 g now')" "snd (chan_check ?s3 g now')"] r by simp
qed

section \<open>Every step keeps the group and its channel together\<close>

lemma join_cases:
  assumes "gm_inv opts s" and "map_option g_group owner \<noteq> Some (op_solo opts)"
  obtains (refused) "gm_join opts s owner timeout usage keys now now' = (s, [])"
      "\<not> truthy_str (map_option g_group owner) \<or>
       (\<exists>g. gm_group s = Some g \<and> Some (g_group g) \<noteq> map_option g_group owner)"
  | (extended) g t where "gm_group s = Some g" "map_option g_group owner = Some (g_group g)"
      "gm_join opts s owner timeout usage keys now now' =
        (s\<lparr>gm_chans := chan_update_timeout (gm_chans s) (g_group g) QUARTER_MINUTES\<rparr>, [SendStatus (op_serial opts) t])"
  | (joined) g cs ws where "gm_group s = None" "owner = Some g" "g_group g \<noteq> []" "op_solo opts \<notin> timer_ids cs"
      "chan_pair (op_solo opts) (g_group g) cs \<and> ws = [] \<or> cm_chans cs = Map.empty \<and> ws = [(g_group g, g)]"
      "gm_join opts s owner timeout usage keys now now' =
        (s\<lparr>gm_group := Some g, gm_chans := cs, gm_waiting := gm_waiting s @ ws\<rparr>,
         [Subscribe (g_group g), EmitJoin g keys, SendJoin (op_serial opts) g usage timeout])"
proof (cases "truthy_str (map_option g_group owner)")
  case False
  then show ?thesis using refused by (simp add: gm_join_def)
next
  case True
  then obtain h where h: "owner = Some h" "g_group h \<noteq> []" by (auto simp: truthy_str_def split: option.splits)
  show ?thesis
  proof (cases "gm_group s")
    case (Some g)
    then have "g_group g \<noteq> []" using assms(1) by (simp add: gm_inv_def)
    show ?thesis
    proof (cases "g_group g = g_group h")
      case True
      then show ?thesis using extended [of g] Some h by (simp add: gm_join_def truthy_str_def Let_def)
    next
      case False
      then show ?thesis using refused Some h \<open>g_group g \<noteq> []\<close> by (simp add: gm_join_def truthy_str_def Let_def)
    qed
  next
    case None
    let ?T = "opt_num_or timeout (op_group_timeout opts)"
    have e: "cm_chans (gm_chans s) = Map.empty" "op_solo opts \<noteq> []" "op_solo opts \<notin> timer_ids (gm_chans s)"
      using assms(1) None by (simp_all add: gm_inv_def)
    have n: "g_group h \<noteq> op_solo opts" using assms(2) h by simp
    obtain cs out where r: "chan_register (gm_chans s) (g_group h) ?T (Some (op_solo opts)) now now' = Inr (cs, out)"
      and t: "op_solo opts \<notin> timer_ids cs"
      and o: "chan_pair (op_solo opts) (g_group h) cs \<and> out = [] \<or> cm_chans cs = Map.empty \<and> out = [ChanTimeout (g_group h)]"
      by (rule register_free [OF e(1,2) n e(3)])
    from o show ?thesis
    proof
      assume "chan_pair (op_solo opts) (g_group h) cs \<and> out = []"
      then show ?thesis using joined [of h cs "[]"] None h t r by (simp add: gm_join_def truthy_str_def Let_def)
    next
      assume "cm_chans cs = Map.empty \<and> out = [ChanTimeout (g_group h)]"
      then show ?thesis using joined [of h cs "[(g_group h, h)]"] None h t r
        by (simp add: gm_join_def gm_get_def truthy_str_def Let_def)
    qed
  qed
qed

lemma join_inv:
  assumes "gm_inv opts s" and "map_option g_group owner \<noteq> Some (op_solo opts)"
  shows "gm_inv opts (fst (gm_join opts s owner timeout usage keys now now'))"
  using assms
proof (cases rule: join_cases [where timeout = timeout and usage = usage and keys = keys and now = now and now' = now'])
  case refused
  then show ?thesis using assms(1) by simp
next
  case (extended g t)
  then show ?thesis using assms(1) by (simp add: gm_inv_def)
next
  case (joined g cs ws)
  then show ?thesis using assms by (auto simp: gm_inv_def)
qed

lemma leave_inv:
  assumes "gm_inv opts s" and "gm_leave opts s reason = Inr r"
  shows "gm_inv opts (fst r)"
proof -
  obtain g where g: "gm_group s = Some g" using assms(2) by (auto simp: gm_leave_def split: option.splits)
  have "cm_chans (chan_unregister (gm_chans s) (g_group g)) = Map.empty"
    using assms(1) g chan_pair_unregister by (auto simp: gm_inv_def)
  then show ?thesis using assms g timer_ids_unregister [of "gm_chans s" "g_group g"] by (auto simp: gm_inv_def gm_leave_def)
qed

lemma gm_inv_waiting: "gm_inv opts s \<Longrightarrow> set (gm_waiting s) \<subseteq> set ws \<Longrightarrow> gm_inv opts (s\<lparr>gm_waiting := ws\<rparr>)"
  by (auto simp: gm_inv_def split: option.splits)

lemma fire_inv:
  assumes "gm_inv opts s"
  shows "gm_inv opts (fst (gm_step opts s (TimerFires h now)))"
proof -
  let ?r = "chan_fire (gm_chans s) h now"
  have t: "op_solo opts \<notin> timer_ids (fst ?r)" using timer_ids_fire assms by (fastforce simp: gm_inv_def)
  show ?thesis
  proof (cases "gm_group s")
    case None
    then have "cm_chans (gm_chans s) = Map.empty" using assms by (simp add: gm_inv_def)
    then show ?thesis using fire_empty [of "gm_chans s" h now] None t assms by (simp add: gm_inv_def Let_def)
  next
    case (Some g)
    then consider "chan_pair (op_solo opts) (g_group g) (gm_chans s)" | "cm_chans (gm_chans s) = Map.empty"
      using assms by (auto simp: gm_inv_def)
    then show ?thesis
    proof cases
      case 1
      moreover have "op_solo opts \<notin> timer_ids (gm_chans s)" "op_solo opts \<noteq> []" using assms by (simp_all add: gm_inv_def)
      ultimately show ?thesis
      proof (cases rule: chan_pair_fire [of "op_solo opts" "g_group g" "gm_chans s" h now])
        case stays
        then show ?thesis using Some t assms by (simp add: gm_inv_def Let_def)
      next
        case expires
        then show ?thesis using Some t assms by (auto simp: gm_inv_def gm_get_def Let_def)
      qed
    next
      case 2
      then show ?thesis using fire_empty [of "gm_chans s" h now] Some t assms not_chan_pair_empty
        by (auto simp: gm_inv_def Let_def)
    qed
  qed
qed

lemma gm_resume_inv:
  assumes "gm_inv opts s"
  shows "gm_inv opts (fst (gm_step opts s ResumeTimeout))"
proof (cases "gm_waiting s")
  case Nil
  then show ?thesis using assms by simp
next
  case (Cons w ws)
  obtain c g where w: "w = (c, g)" by (cases w)
  show ?thesis
  proof (cases "c = g_group g")
    case False
    then have "gm_inv opts (s\<lparr>gm_waiting := ws\<rparr>)" using assms Cons w by (auto simp: gm_inv_def split: option.splits)
    then show ?thesis using Cons w False by (simp add: Let_def)
  next
    case True
    show ?thesis
    proof (cases "gm_group s")
      case None
      then show ?thesis using assms Cons w True by (simp add: gm_leave_def gm_inv_def Let_def)
    next
      case (Some g')
      have "cm_chans (chan_unregister (gm_chans s) (g_group g')) = Map.empty"
        using assms Some chan_pair_unregister by (auto simp: gm_inv_def)
      then show ?thesis using assms Cons w True Some timer_ids_unregister [of "gm_chans s" "g_group g'"]
        by (auto simp: gm_leave_def gm_inv_def Let_def)
    qed
  qed
qed

lemma gm_step_inv:
  assumes "gm_inv opts s" and "gm_event_ok opts e"
  shows "gm_inv opts (fst (gm_step opts s e))"
proof (cases e)
  case (GroupMsg ch check owner timeout usage keys now now')
  then show ?thesis using assms join_inv [OF assms(1)] by (simp add: Let_def)
next
  case (AutoGroupMsg owner ident now now')
  then show ?thesis using assms join_inv [OF assms(1)] by (simp add: Let_def)
next
  case (UngroupMsg ch check)
  then show ?thesis using assms(1) leave_inv by (auto simp: Let_def split: sum.splits)
next
  case (TimerFires h now)
  then show ?thesis using fire_inv [OF assms(1)] by simp
next
  case ResumeTimeout
  then show ?thesis using gm_resume_inv [OF assms(1)] by simp
next
  case (Activity ch now)
  then show ?thesis using assms(1) by (auto simp: gm_inv_def split: option.splits)
next
  case (KeepGroup now)
  then show ?thesis using assms(1) by (auto simp: gm_inv_def gm_keepalive_def split: option.splits)
next
  case ProcessExit
  then show ?thesis using assms(1) leave_inv by (auto split: sum.splits)
qed

interpretation group: guarded_machine "gm_step opts" "gm_inv opts" "gm_event_ok opts" for opts
  by unfold_locales (rule gm_step_inv)

lemma gm_inv_new: "op_solo opts \<noteq> [] \<Longrightarrow> gm_inv opts gm_new"
  by (simp add: gm_inv_def gm_new_def chan_new_def timer_ids_def)

section \<open>What the messages say\<close>

text \<open>Who owns the device, as far as an observer of the join and leave messages can tell.\<close>

fun owner_of :: "group_state option \<Rightarrow> gm_out list \<Rightarrow> group_state option option" where
  "owner_of g [] = Some g"
| "owner_of g (SendJoin sr h usage t # os) = (if g = None then owner_of (Some h) os else None)"
| "owner_of g (SendLeave sr h reason # os) = (if g = Some h then owner_of None os else None)"
| "owner_of g (_ # os) = owner_of g os"

lemma owner_of_append:
  "owner_of g (xs @ ys) = (case owner_of g xs of None \<Rightarrow> None | Some h \<Rightarrow> owner_of h ys)"
  by (induction g xs rule: owner_of.induct) auto

lemma owner_of_timeout: "owner_of g (snd (gm_on_timeout s es)) = Some g \<and> gm_group (fst (gm_on_timeout s es)) = gm_group s"
  by (induction s es arbitrary: g rule: gm_on_timeout.induct) (auto simp: Let_def split: sum.splits)

lemma owner_of_leave:
  "gm_leave opts s reason = Inr r \<Longrightarrow> owner_of (gm_group s) (snd r) = Some (gm_group (fst r))"
  by (auto simp: gm_leave_def split: option.splits)

lemma owner_of_join:
  assumes "gm_inv opts s" and "map_option g_group owner \<noteq> Some (op_solo opts)"
  shows "owner_of (gm_group s) (snd (gm_join opts s owner timeout usage keys now now')) =
    Some (gm_group (fst (gm_join opts s owner timeout usage keys now now')))"
  using assms
  by (cases rule: join_cases [where timeout = timeout and usage = usage and keys = keys and now = now and now' = now']) auto

lemma owner_of_step:
  assumes "gm_inv opts s" and "gm_event_ok opts e"
  shows "owner_of (gm_group s) (snd (gm_step opts s e)) = Some (gm_group (fst (gm_step opts s e)))"
proof (cases e)
  case (GroupMsg ch check owner timeout usage keys now now')
  then show ?thesis using assms owner_of_join [OF assms(1)] by (cases check) (auto simp: Let_def owner_of_append)
next
  case (AutoGroupMsg owner ident now now')
  then show ?thesis using assms owner_of_join [OF assms(1)] by (simp add: Let_def owner_of_append)
next
  case (UngroupMsg ch check)
  then show ?thesis using owner_of_leave [of opts s]
    by (cases check) (auto simp: Let_def owner_of_append split: sum.splits)
next
  case (TimerFires h now)
  then show ?thesis
    using owner_of_timeout [of "gm_group s" "s\<lparr>gm_chans := fst (chan_fire (gm_chans s) h now)\<rparr>"] by (simp add: Let_def)
next
  case ResumeTimeout
  then show ?thesis
    by (cases "gm_waiting s") (auto simp: gm_leave_def Let_def split: option.splits)
next
  case ProcessExit
  then show ?thesis using owner_of_leave [of opts s] by (auto split: sum.splits)
qed (auto simp: gm_keepalive_def split: option.splits)

text \<open>
  C18. The join and leave messages tell the truth: in every run, whatever messages, timers and
  timeouts come in whatever order, joins and leaves alternate, every leave names the owner of
  the join before it, and the owner they leave is the plugin's current group.
\<close>

theorem group_messages_track_owner:
  assumes "op_solo opts \<noteq> []" and "list_all (gm_event_ok opts) es"
  shows "owner_of None (snd (run (gm_step opts) gm_new es)) = Some (gm_group (fst (run (gm_step opts) gm_new es)))"
proof -
  have "owner_of (gm_group s) (snd (run (gm_step opts) s es)) = Some (gm_group (fst (run (gm_step opts) s es)))"
    if "gm_inv opts s" for s
    using assms(2) that
  proof (induction es arbitrary: s)
    case (Cons e es)
    then show ?case using owner_of_step [of opts s e] gm_step_inv [of opts s e]
      by (simp add: Let_def owner_of_append)
  qed simp
  moreover have "gm_group gm_new = None" by (simp add: gm_new_def)
  ultimately show ?thesis using gm_inv_new [OF assms(1)] by metis
qed

text \<open>
  A group is never lost track of: in every run the device is in a group exactly when the
  channel manager has its channel, unless that channel has timed out and the handler of the
  timeout is about to leave the group; and joining a free device never fails half way (the
  alias is always free then), so the join message and the subscription are always sent.
\<close>

theorem group_has_its_channel:
  assumes "op_solo opts \<noteq> []" and "list_all (gm_event_ok opts) es" and "s = fst (run (gm_step opts) gm_new es)"
  shows "(case gm_group s of
        None \<Rightarrow> cm_chans (gm_chans s) = Map.empty
      | Some g \<Rightarrow> cm_chans (gm_chans s) (g_group g) \<noteq> None \<or>
          (\<exists>w \<in> set (gm_waiting s). fst w = g_group g \<and> g_group (snd w) = g_group g)) \<and>
    (gm_group s = None \<and> owner = Some h \<and> g_group h \<noteq> [] \<and> g_group h \<noteq> op_solo opts \<longrightarrow>
       gm_group (fst (gm_join opts s owner timeout usage keys now now')) = Some h \<and>
       snd (gm_join opts s owner timeout usage keys now now') =
         [Subscribe (g_group h), EmitJoin h keys, SendJoin (op_serial opts) h usage timeout])"
proof -
  have i: "gm_inv opts s" unfolding assms(3) by (rule group.inv_run [OF gm_inv_new [OF assms(1)] assms(2)])
  have "gm_group s = None \<and> owner = Some h \<and> g_group h \<noteq> [] \<and> g_group h \<noteq> op_solo opts \<Longrightarrow>
       gm_group (fst (gm_join opts s owner timeout usage keys now now')) = Some h \<and>
       snd (gm_join opts s owner timeout usage keys now now') =
         [Subscribe (g_group h), EmitJoin h keys, SendJoin (op_serial opts) h usage timeout]"
    using i by (cases rule: join_cases [where timeout = timeout and usage = usage and keys = keys
          and now = now and now' = now' and owner = owner]) (auto simp: truthy_str_def)
  then show ?thesis using i by (auto simp: gm_inv_def chan_pair_def split: option.splits)
qed

text \<open>
  A request for a device that is in another group changes nothing, and yet it is answered
  with success: \<open>join\<close> swallows \<open>AlreadyGroupedError\<close>, so the failure the handler prepares
  for it is never sent, and \<open>AutoGroupMessage\<close> reports that the device has joined.
\<close>

theorem other_group_is_told_okay:
  assumes "gm_group s = Some g" and "g_group g \<noteq> []" and "g_group h \<noteq> g_group g" and "g_group h \<noteq> []"
  shows "gm_step opts s (GroupMsg ch (Inr True) (Some h) timeout usage keys now now') = (s, [ReplyOkay ch]) \<and>
    gm_step opts s (AutoGroupMsg (Some h) ident now now') = (s, [EmitAutojoin ident True])"
  using assms by (simp add: gm_join_def truthy_str_def Let_def)

text \<open>
  Asking again for the group the device is in adds a quarter of an hour to its timeout,
  tells everyone the new timeout, and neither registers nor announces the group again.
\<close>

theorem same_group_extends_timeout:
  assumes "gm_group s = Some g" and "g_group g \<noteq> []" and "g_group h = g_group g"
    and "chan_get_timeout (gm_chans s) (g_group g) = Some t" and "t + 900000 \<noteq> 0"
  shows "\<exists>s'. gm_join opts s (Some h) timeout usage keys now now' =
      (s', [SendStatus (op_serial opts) (Some (t + 900000))]) \<and>
    chan_get_timeout (gm_chans s') (g_group g) = Some (t + 900000) \<and>
    gm_group s' = gm_group s \<and> cm_chans (gm_chans s') = cm_chans (gm_chans s)"
proof -
  have "chan_get_timeout (chan_update_timeout (gm_chans s) (g_group g) QUARTER_MINUTES) (g_group g) = Some (t + 900000)"
    using cm.get_extend [of "gm_chans s" "g_group g" QUARTER_MINUTES] assms(4) by (simp add: QUARTER_MINUTES_def)
  then show ?thesis using assms by (simp add: gm_join_def truthy_str_def Let_def opt_num_or_def num_or_def)
qed

text \<open>
  Leaving: an accepted \<open>UngroupMessage\<close> announces the owner that leaves, unsubscribes
  from the group's channel and forgets it, and is answered with success; for a free device it
  is answered with the error, and nothing else happens. A rejected check is answered with the
  reason and leaves the state alone.
\<close>

theorem ungroup_leaves:
  "(gm_group s = Some g \<longrightarrow>
      (\<exists>s'. gm_step opts s (UngroupMsg ch (Inr True)) =
         (s', [SendLeave (op_serial opts) g ''ungroup_request'', Unsubscribe (g_group g), EmitLeave, ReplyOkay ch]) \<and>
       gm_group s' = None \<and> chan_get_timeout (gm_chans s') (g_group g) = None)) \<and>
   (gm_group s = None \<longrightarrow> gm_step opts s (UngroupMsg ch (Inr True)) = (s, [ReplyFail ch NO_GROUP])) \<and>
   gm_step opts s (UngroupMsg ch (Inl msg)) = (s, [ReplyFail ch msg])"
  by (auto simp: gm_leave_def cm.get_unreg Let_def)

section \<open>The Android unit\<close>

text \<open>
  What the unit does when the group changes. The commands are strings sent to the device; the
  end of the transaction that asks whether the device is in its original group is an argument
  (\<open>Inl\<close> a failure), and so is whether all the clean-up commands succeed.
\<close>

datatype service_call =
    FreezeRotation int | ThawRotation | AcquireWakeLock | ReleaseWakeLock
  | Command string | PressKey string | SetMasterMute bool | AskIsInOrigin serial

definition clean_commands :: "service_call list" where
  "clean_commands =
     [Command ''settings put system screen_brightness_mode 0'', Command ''settings put system screen_brightness 0'',
      SetMasterMute True, Command ''input keyevent 223'', Command ''settings put global http_proxy :0'',
      Command ''pm clear com.android.chrome'', Command ''pm clear com.chrome.beta'',
      Command ''pm clear com.sec.android.app.sbrowser'', Command ''pm uninstall com.vkontakte.android'',
      Command ''pm uninstall com.vk.im'', Command ''pm uninstall com.vk.clips'', Command ''pm uninstall com.vk.calls'',
      Command ''pm uninstall com.vk.admin'', Command ''pm clear com.mi.globalbrowser'', Command ''pm clear com.microsoft.emmx'',
      Command ''pm clear com.huawei.browser'', Command ''pm uninstall --user 0 com.samsung.clipboardsaveservice'',
      Command ''pm uninstall --user 0 com.samsung.android.clipboarduiservice'', Command ''rm -rf /sdcard/Downloads'',
      Command ''rm -rf /storage/emulated/legacy/Downloads'', Command ''settings put global always_finish_activities 0'',
      Command ''pm enable-user com.google.android.gms'', Command ''settings put system font_scale 1.0'', Command ''su'',
      Command (''echo '' @ [CHR 0x22] @ ''chrome --disable-fre --no-default-browser-check --no-first-run'' @ [CHR 0x22] @
        '' > /data/local/tmp/chrome-command-line''),
      Command ''am set-debug-app --persistent com.android.chrome'']"

definition device_on_join :: "service_call list" where
  "device_on_join = [FreezeRotation 0, Command ''input keyevent 224'', AcquireWakeLock]"

definition device_on_leave :: "serial \<Rightarrow> bool \<Rightarrow> string + bool \<Rightarrow> service_call list" where
  "device_on_leave serial screenReset inOrigin =
     (if screenReset then
        [PressKey ''home'', ThawRotation, AskIsInOrigin serial] @
        (case inOrigin of Inl err \<Rightarrow> [] | Inr b \<Rightarrow> if b then clean_commands else [])
      else []) @ [ReleaseWakeLock]"

fun device_calls :: "serial \<Rightarrow> bool \<Rightarrow> (string + bool) list \<Rightarrow> gm_out list \<Rightarrow> service_call list" where
  "device_calls serial reset answers [] = []"
| "device_calls serial reset answers (EmitJoin g keys # os) = device_on_join @ device_calls serial reset answers os"
| "device_calls serial reset answers (EmitLeave # os) =
     (case answers of
        [] \<Rightarrow> device_on_leave serial reset (Inl ''timeout'') @ device_calls serial reset [] os
      | a # as \<Rightarrow> device_on_leave serial reset a @ device_calls serial reset as os)"
| "device_calls serial reset answers (_ # os) = device_calls serial reset answers os"

fun wake_locks :: "service_call list \<Rightarrow> int" where
  "wake_locks [] = 0"
| "wake_locks (AcquireWakeLock # cs) = 1 + wake_locks cs"
| "wake_locks (ReleaseWakeLock # cs) = wake_locks cs - 1"
| "wake_locks (_ # cs) = wake_locks cs"

fun joins_less_leaves :: "gm_out list \<Rightarrow> int" where
  "joins_less_leaves [] = 0"
| "joins_less_leaves (EmitJoin g keys # os) = 1 + joins_less_leaves os"
| "joins_less_leaves (EmitLeave # os) = joins_less_leaves os - 1"
| "joins_less_leaves (_ # os) = joins_less_leaves os"

lemma wake_locks_append [simp]: "wake_locks (xs @ ys) = wake_locks xs + wake_locks ys"
  by (induction xs rule: wake_locks.induct) auto

lemma wake_locks_leave: "wake_locks (device_on_leave serial reset a) = - 1"
  by (cases a) (simp_all add: device_on_leave_def clean_commands_def)

lemma wake_locks_calls: "wake_locks (device_calls serial reset answers os) = joins_less_leaves os"
proof (induction os arbitrary: answers)
  case Nil
  then show ?case by simp
next
  case (Cons x os)
  then show ?case
    by (cases x) (auto simp: device_on_join_def wake_locks_leave split: list.splits)
qed

lemma joins_append [simp]: "joins_less_leaves (xs @ ys) = joins_less_leaves xs + joins_less_leaves ys"
  by (induction xs rule: joins_less_leaves.induct) auto

definition in_group :: "gm_state \<Rightarrow> int" where
  "in_group s = (if gm_group s = None then 0 else 1)"

lemma joins_timeout: "joins_less_leaves (snd (gm_on_timeout s es)) = 0"
  by (induction s es rule: gm_on_timeout.induct) (auto simp: Let_def split: sum.splits)

lemma joins_leave: "gm_leave opts s reason = Inr r \<Longrightarrow> joins_less_leaves (snd r) = in_group (fst r) - in_group s"
  by (auto simp: gm_leave_def in_group_def split: option.splits)

lemma joins_join:
  assumes "gm_inv opts s" and "map_option g_group owner \<noteq> Some (op_solo opts)"
  shows "joins_less_leaves (snd (gm_join opts s owner timeout usage keys now now')) =
    in_group (fst (gm_join opts s owner timeout usage keys now now')) - in_group s"
  using assms
  by (cases rule: join_cases [where timeout = timeout and usage = usage and keys = keys and now = now and now' = now'])
    (auto simp: in_group_def)

lemma joins_step:
  assumes "gm_inv opts s" and "gm_event_ok opts e"
  shows "joins_less_leaves (snd (gm_step opts s e)) = in_group (fst (gm_step opts s e)) - in_group s"
proof (cases e)
  case (GroupMsg ch check owner timeout usage keys now now')
  then show ?thesis using assms joins_join [OF assms(1)] by (cases check) (auto simp: Let_def)
next
  case (AutoGroupMsg owner ident now now')
  then show ?thesis using assms joins_join [OF assms(1)] by (simp add: Let_def)
next
  case (UngroupMsg ch check)
  then show ?thesis using joins_leave [of opts s] by (cases check) (auto simp: Let_def split: sum.splits)
next
  case (TimerFires h now)
  then show ?thesis
    using owner_of_timeout [of "gm_group s" "s\<lparr>gm_chans := fst (chan_fire (gm_chans s) h now)\<rparr>"]
    by (simp add: Let_def joins_timeout in_group_def)
next
  case ResumeTimeout
  then show ?thesis
    by (cases "gm_waiting s") (auto simp: gm_leave_def in_group_def Let_def split: option.splits if_splits)
next
  case ProcessExit
  then show ?thesis using joins_leave [of opts s] by (auto split: sum.splits)
qed (auto simp: gm_keepalive_def in_group_def split: option.splits)

text \<open>
  The wake lock of the device is held exactly while it is in a group: in every run, with
  any answers of the server and any failures while cleaning the device, the handlers of \<open>join\<close>
  and \<open>leave\<close> have together taken it once if the device is in a group and given back every
  lock otherwise.
\<close>

theorem wake_lock_follows_group:
  assumes "op_solo opts \<noteq> []" and "list_all (gm_event_ok opts) es"
  shows "wake_locks (device_calls serial reset answers (snd (run (gm_step opts) gm_new es))) =
    (if gm_group (fst (run (gm_step opts) gm_new es)) = None then 0 else 1)"
proof -
  have "joins_less_leaves (snd (run (gm_step opts) s es)) = in_group (fst (run (gm_step opts) s es)) - in_group s"
    if "gm_inv opts s" for s
    using assms(2) that
  proof (induction es arbitrary: s)
    case (Cons e es)
    then show ?case using joins_step [of opts s e] gm_step_inv [of opts s e] by (simp add: Let_def)
  qed simp
  from this [OF gm_inv_new [OF assms(1)]]
  have "joins_less_leaves (snd (run (gm_step opts) gm_new es)) = in_group (fst (run (gm_step opts) gm_new es)) - in_group gm_new" .
  moreover have "in_group gm_new = 0" by (simp add: in_group_def gm_new_def)
  ultimately show ?thesis unfolding wake_locks_calls in_group_def [of "fst (run (gm_step opts) gm_new es)"] by simp
qed

section \<open>Witnesses\<close>

definition wit_opts :: gm_options where
  "wit_opts = \<lparr>op_serial = ''s1'', op_group_timeout = 900000, op_solo = ''solo''\<rparr>"

definition wit_owner :: "string \<Rightarrow> group_state" where
  "wit_owner g = \<lparr>g_email = ''a@b'', g_name = ''a'', g_group = g\<rparr>"

definition wit_events :: "gm_event list" where
  "wit_events = [GroupMsg ''c'' (Inr True) (Some (wit_owner ''g1'')) None ''u'' [] 0 0, TimerFires 0 900000, ResumeTimeout,
     GroupMsg ''c'' (Inr True) (Some (wit_owner ''g2'')) None ''u'' [] 900001 900001]"

lemma wit_ok: "op_solo wit_opts \<noteq> []" "list_all (gm_event_ok wit_opts) wit_events"
  by (simp_all add: wit_opts_def wit_events_def wit_owner_def)

lemma wit_run: "gm_group (fst (run (gm_step wit_opts) gm_new wit_events)) = Some (wit_owner ''g2'')"
  by (simp add: wit_events_def wit_owner_def wit_opts_def gm_new_def gm_join_def gm_leave_def gm_get_def truthy_str_def
      chan_new_def chan_register_def chan_check_def chan_fire_def chan_unregister_def clear_timer_def upd_chan_def
      opt_num_or_def num_or_def MAX_INT32_def Let_def)

theorem group_messages_track_owner_witness:
  "owner_of None (snd (run (gm_step wit_opts) gm_new wit_events)) = Some (Some (wit_owner ''g2''))"
  using group_messages_track_owner [OF wit_ok] wit_run by simp

theorem group_has_its_channel_witness:
  "(\<exists>d. cm_chans (gm_chans (fst (run (gm_step wit_opts) gm_new wit_events))) ''g2'' = Some d) \<or>
   (\<exists>w \<in> set (gm_waiting (fst (run (gm_step wit_opts) gm_new wit_events))). fst w = ''g2'' \<and> g_group (snd w) = ''g2'')"
  using group_has_its_channel [OF wit_ok refl] wit_run by (simp add: wit_owner_def)

theorem other_group_is_told_okay_witness:
  "gm_step wit_opts (gm_new\<lparr>gm_group := Some (wit_owner ''g1'')\<rparr>)
     (GroupMsg ''c'' (Inr True) (Some (wit_owner ''g2'')) None ''u'' [] 0 0) =
   (gm_new\<lparr>gm_group := Some (wit_owner ''g1'')\<rparr>, [ReplyOkay ''c''])"
  using other_group_is_told_okay [of "gm_new\<lparr>gm_group := Some (wit_owner ''g1'')\<rparr>" "wit_owner ''g1''" "wit_owner ''g2''"]
  by (simp add: wit_owner_def)

theorem same_group_extends_timeout_witness:
  "\<exists>s s'. gm_join wit_opts s (Some (wit_owner ''g2'')) None ''u'' [] 5 5 = (s', [SendStatus ''s1'' (Some 1800000)])"
proof -
  let ?s = "fst (run (gm_step wit_opts) gm_new wit_events)"
  have "chan_get_timeout (gm_chans ?s) ''g2'' = Some 900000"
    by (simp add: wit_events_def wit_owner_def wit_opts_def gm_new_def gm_join_def gm_leave_def gm_get_def truthy_str_def
      chan_new_def chan_register_def chan_check_def chan_fire_def chan_unregister_def clear_timer_def upd_chan_def
      opt_num_or_def num_or_def MAX_INT32_def chan_get_timeout_def chan_at_def Let_def)
  from same_group_extends_timeout [OF wit_run _ _ _, of "wit_owner ''g2''" 900000 wit_opts None "''u''" "[]" 5 5] this
  show ?thesis by (auto simp: wit_owner_def wit_opts_def)
qed

theorem ungroup_leaves_witness:
  "\<exists>s'. gm_step wit_opts (gm_new\<lparr>gm_group := Some (wit_owner ''g1'')\<rparr>) (UngroupMsg ''c'' (Inr True)) =
     (s', [SendLeave ''s1'' (wit_owner ''g1'') ''ungroup_request'', Unsubscribe ''g1'', EmitLeave, ReplyOkay ''c''])"
  using ungroup_leaves [of "gm_new\<lparr>gm_group := Some (wit_owner ''g1'')\<rparr>" "wit_owner ''g1''" wit_opts "''c''" "''x''"]
  by (auto simp: wit_owner_def wit_opts_def)

theorem wake_lock_follows_group_witness:
  "wake_locks (device_calls ''s1'' True [Inl ''Timeout''] (snd (run (gm_step wit_opts) gm_new wit_events))) = 1"
  using wake_lock_follows_group [OF wit_ok, of "''s1''" True "[Inl ''Timeout'']"] wit_run by simp

end
