(* ===== verification/Transactions.thy ===== *)
theory Transactions imports Complex_Main Prelude begin

text \<open>
  Requests and their answers: \<open>lib/wire/util.ts\<close> (the numbered replies of a unit),
  \<open>lib/wire/router.ts\<close> (which handlers a message reaches) and \<open>lib/wire/transmanager.ts\<close>
  (a request that waits for its answer, for the two kinds of transport).

  Decoding and encoding (the envelope, the message of its type, \<open>JSON\<close>) are parameters. A
  promise is its settlement, an output; the emitter calls the listeners that were registered
  when it started, in order of registration, and an exception of one ends the emission.
\<close>

section \<open>Replies\<close>

record done_msg =
  dm_source :: string
  dm_seq :: int
  dm_success :: bool
  dm_data :: string
  dm_body :: "string option"

record progress_msg =
  pm_source :: string
  pm_seq :: int
  pm_data :: string
  pm_progress :: int

datatype reply_msg = DoneMsg done_msg | ProgressMsg progress_msg

record replier =
  rp_source :: string
  rp_seq :: int

definition reply_new :: "string \<Rightarrow> replier" where
  "reply_new source = \<lparr>rp_source = source, rp_seq = 0\<rparr>"

text \<open>\<open>body ? JSON.stringify(body) : undefined\<close> for a string body; \<open>stringify\<close> is a parameter.\<close>

definition body_of :: "(string \<Rightarrow> string) \<Rightarrow> string option \<Rightarrow> string option" where
  "body_of stringify b = (if truthy_str b then map_option stringify b else None)"

definition reply_done ::
  "(string \<Rightarrow> string) \<Rightarrow> bool \<Rightarrow> string \<Rightarrow> replier \<Rightarrow> string option \<Rightarrow> string option \<Rightarrow> replier \<times> reply_msg" where
  "reply_done stringify ok dflt r data body =
     (r\<lparr>rp_seq := rp_seq r + 1\<rparr>,
      DoneMsg \<lparr>dm_source = rp_source r, dm_seq = rp_seq r, dm_success = ok,
        dm_data = (case data of None \<Rightarrow> dflt | Some d \<Rightarrow> d), dm_body = body_of stringify body\<rparr>)"

definition reply_okay :: "(string \<Rightarrow> string) \<Rightarrow> replier \<Rightarrow> string option \<Rightarrow> string option \<Rightarrow> replier \<times> reply_msg" where
  "reply_okay stringify = reply_done stringify True ''success''"

definition reply_fail :: "(string \<Rightarrow> string) \<Rightarrow> replier \<Rightarrow> string option \<Rightarrow> string option \<Rightarrow> replier \<times> reply_msg" where
  "reply_fail stringify = reply_done stringify False ''fail''"

text \<open>\<open>Math.round\<close> rounds halves up; an integer is sent as it is. Progress is a rational here.\<close>

definition reply_progress :: "replier \<Rightarrow> string \<Rightarrow> rat \<Rightarrow> replier \<times> reply_msg" where
  "reply_progress r data p =
     (r\<lparr>rp_seq := rp_seq r + 1\<rparr>,
      ProgressMsg \<lparr>pm_source = rp_source r, pm_seq = rp_seq r, pm_data = data, pm_progress = \<lfloor>p + 1 / 2\<rfloor>\<rparr>)"

datatype adb_type = TDevice | TUnauthorized | TOffline | TUnknown | TRecovery | TBootloader | TSideload
datatype device_status = ONLINE | UNAUTHORIZED | OFFLINE

fun to_device_status :: "adb_type \<Rightarrow> device_status" where
  "to_device_status TDevice = ONLINE"
| "to_device_status TUnauthorized = UNAUTHORIZED"
| "to_device_status _ = OFFLINE"

section \<open>The router\<close>

record 'h router =
  rt_listeners :: "(string \<times> 'h) list"
  rt_types :: "(string, string) omap"

definition router_new :: "'h router" where
  "router_new = \<lparr>rt_listeners = [], rt_types = []\<rparr>"

text \<open>\<open>Any.typeNameToUrl\<close> of the generated \<open>any.ts\<close> prefixes the name of a type.\<close>

definition type_url :: "string \<Rightarrow> string" where
  "type_url name = ''type.googleapis.com/'' @ name"

text \<open>\<open>on\<close> with a message type, and with the name of an event.\<close>

definition router_on_type :: "'h router \<Rightarrow> string \<Rightarrow> 'h \<Rightarrow> 'h router" where
  "router_on_type r name fn =
     r\<lparr>rt_listeners := rt_listeners r @ [(name, fn)], rt_types := om_set (type_url name) name (rt_types r)\<rparr>"

definition router_on_event :: "'h router \<Rightarrow> string \<Rightarrow> 'h \<Rightarrow> 'h router" where
  "router_on_event r name fn = r\<lparr>rt_listeners := rt_listeners r @ [(name, fn)]\<rparr>"

definition router_remove_all :: "'h router \<Rightarrow> string \<Rightarrow> 'h router" where
  "router_remove_all r name = r\<lparr>rt_listeners := filter (\<lambda>l. fst l \<noteq> name) (rt_listeners r)\<rparr>"

definition router_remove :: "'h router \<Rightarrow> string \<Rightarrow> 'h \<Rightarrow> 'h router" where
  "router_remove r name fn = r\<lparr>rt_listeners := filter (\<lambda>l. l \<noteq> (name, fn)) (rt_listeners r)\<rparr>"

definition router_emit :: "'h router \<Rightarrow> string \<Rightarrow> 'h list" where
  "router_emit r name = map snd (filter (\<lambda>l. fst l = name) (rt_listeners r))"

record envelope =
  en_message :: "(string \<times> string) option"
  en_channel :: "string option"

datatype 'h dispatch =
    CallType 'h channel string
  | CallMessage 'h channel

definition router_handler :: "'h router \<Rightarrow> channel \<Rightarrow> envelope \<Rightarrow> 'h dispatch list" where
  "router_handler r channel decoded =
     (case en_message decoded of
        None \<Rightarrow> []
      | Some (target, payload) \<Rightarrow>
          (if target = [] then []
           else case om_get (rt_types r) target of
             None \<Rightarrow> []
           | Some name \<Rightarrow>
               map (\<lambda>fn. CallType fn (if truthy_str (en_channel decoded) then the (en_channel decoded) else channel) payload)
                 (router_emit r name) @
               map (\<lambda>fn. CallMessage fn channel) (router_emit r ''message'')))"

section \<open>Requests that wait for an answer\<close>

text \<open>
  A pending transaction is its number and its response channel, in order of registration. Its
  timer runs exactly as long as it is pending. \<open>TxLost\<close>: the listener raised after it had
  given up its timer and its registration.
\<close>

datatype 'j tx_out =
    TxSubscribe channel
  | TxUnsubscribe channel
  | TxSend channel channel string
  | TxResolve nat 'j
  | TxReject nat 'j
  | TxTimeout nat
  | TxLost nat

type_synonym tx_state = "(nat \<times> channel) list"

datatype tx_event =
    TxStart nat channel channel string
  | TxReply channel done_msg
  | TxTimer nat

definition tx_start :: "tx_state \<Rightarrow> nat \<Rightarrow> channel \<Rightarrow> channel \<Rightarrow> string \<Rightarrow> tx_state \<times> 'j tx_out list" where
  "tx_start s i rc ch msg = (s @ [(i, rc)], [TxSubscribe rc, TxSend ch rc msg])"

definition tx_timer :: "tx_state \<Rightarrow> nat \<Rightarrow> tx_state \<times> 'j tx_out list" where
  "tx_timer s i =
     (case find (\<lambda>p. fst p = i) s of
        None \<Rightarrow> (s, [])
      | Some p \<Rightarrow> (remove1 p s, [TxUnsubscribe (snd p), TxTimeout i]))"

text \<open>\<open>runTransaction\<close>: the listener is registered with the channel router under its response channel.\<close>

definition tx_settle :: "done_msg \<Rightarrow> nat \<times> channel \<Rightarrow> done_msg tx_out list" where
  "tx_settle m p = [TxUnsubscribe (snd p), if dm_success m then TxResolve (fst p) m else TxReject (fst p) m]"

fun tx_step :: "tx_state \<Rightarrow> tx_event \<Rightarrow> tx_state \<times> done_msg tx_out list" where
  "tx_step s (TxStart i rc ch msg) = tx_start s i rc ch msg"
| "tx_step s (TxTimer i) = tx_timer s i"
| "tx_step s (TxReply c m) =
     (filter (\<lambda>p. snd p \<noteq> c) s, concat (map (tx_settle m) (filter (\<lambda>p. snd p = c) s)))"

text \<open>
  \<open>runTransactionDev\<close>: the listener is registered for the type \<open>TransactionDoneMessage\<close>. The
  body is parsed (\<open>parse\<close> gives \<open>None\<close> where \<open>JSON.parse\<close> raises) after the clean-up.
\<close>

definition dev_body :: "(string \<Rightarrow> 'j option) \<Rightarrow> 'j \<Rightarrow> string option \<Rightarrow> 'j option" where
  "dev_body parse nil_body b = (if truthy_str b then parse (the b) else Some nil_body)"

fun dev_listeners :: "(string \<Rightarrow> 'j option) \<Rightarrow> 'j \<Rightarrow> done_msg \<Rightarrow> tx_state \<Rightarrow> tx_state \<times> 'j tx_out list" where
  "dev_listeners parse nil_body m [] = ([], [])"
| "dev_listeners parse nil_body m (p # ps) =
     (case dev_body parse nil_body (dm_body m) of
        None \<Rightarrow> (ps, [TxUnsubscribe (snd p), TxLost (fst p)])
      | Some body \<Rightarrow>
          (let r = dev_listeners parse nil_body m ps
           in (fst r, [TxUnsubscribe (snd p), if dm_success m then TxResolve (fst p) body else TxReject (fst p) body] @ snd r)))"

fun dev_step :: "(string \<Rightarrow> 'j option) \<Rightarrow> 'j \<Rightarrow> tx_state \<Rightarrow> tx_event \<Rightarrow> tx_state \<times> 'j tx_out list" where
  "dev_step parse nil_body s (TxStart i rc ch msg) = tx_start s i rc ch msg"
| "dev_step parse nil_body s (TxTimer i) = tx_timer s i"
| "dev_step parse nil_body s (TxReply c m) = dev_listeners parse nil_body m s"

section \<open>Each transaction is settled once\<close>

text \<open>
  Both transports are instances of \<open>obligations\<close>: a transaction that is started is pending
  until it is settled (or lost, when its listener raised).
\<close>

fun tx_ended :: "'j tx_out list \<Rightarrow> nat list" where
  "tx_ended [] = []"
| "tx_ended (TxResolve i m # os) = i # tx_ended os"
| "tx_ended (TxReject i m # os) = i # tx_ended os"
| "tx_ended (TxTimeout i # os) = i # tx_ended os"
| "tx_ended (TxLost i # os) = i # tx_ended os"
| "tx_ended (_ # os) = tx_ended os"

fun tx_called :: "tx_event \<Rightarrow> nat list" where
  "tx_called (TxStart i rc ch msg) = [i]"
| "tx_called _ = []"

definition tx_started :: "tx_event list \<Rightarrow> nat list" where
  "tx_started es = concat (map tx_called es)"

lemma tx_ended_append [simp]: "tx_ended (xs @ ys) = tx_ended xs @ tx_ended ys"
  by (induction xs rule: tx_ended.induct) auto

lemma tx_timer_conserve:
  "mset (map fst (fst (tx_timer s i))) + mset (tx_ended (snd (tx_timer s i))) = mset (map fst s)"
proof (cases "find (\<lambda>p. fst p = i) s")
  case None
  then show ?thesis by (simp add: tx_timer_def)
next
  case (Some p)
  then have p: "p \<in> set s" "fst p = i" by (auto simp: find_Some_iff)
  then have "mset s = add_mset p (mset (remove1 p s))" by simp
  then have "mset (map fst s) = add_mset i (mset (map fst (remove1 p s)))" using p(2) by (metis image_mset_add_mset mset_map)
  then show ?thesis using Some p by (simp add: tx_timer_def)
qed

lemma tx_settle_ended: "tx_ended (concat (map (tx_settle m) ps)) = map fst ps"
  by (induction ps) (auto simp: tx_settle_def)

lemma mset_split: "mset (map f (filter (\<lambda>p. \<not> P p) s)) + mset (map f (filter P s)) = mset (map f s)"
  by (induction s) auto

lemma dev_listeners_conserve:
  "mset (map fst (fst (dev_listeners parse nil_body m s))) + mset (tx_ended (snd (dev_listeners parse nil_body m s))) = mset (map fst s)"
  by (induction s) (auto simp: Let_def split: option.splits)

interpretation tx: obligations tx_step "map fst" tx_ended tx_called
proof
  fix s :: tx_state and e :: tx_event and xs ys :: "done_msg tx_out list"
  show "mset (map fst (fst (tx_step s e))) + mset (tx_ended (snd (tx_step s e))) = mset (map fst s) + mset (tx_called e)"
    using tx_timer_conserve [of s] mset_split [of fst "\<lambda>p. snd p = c" s for c]
    by (cases e) (auto simp: tx_start_def tx_settle_ended)
  show "tx_ended ([] :: done_msg tx_out list) = []" by simp
  show "tx_ended (xs @ ys) = tx_ended xs @ tx_ended ys" by (rule tx_ended_append)
qed

interpretation dev: obligations "dev_step parse nil_body" "map fst" tx_ended tx_called
  for parse :: "string \<Rightarrow> 'j option" and nil_body
proof
  fix s :: tx_state and e :: tx_event and xs ys :: "'j tx_out list"
  show "mset (map fst (fst (dev_step parse nil_body s e))) + mset (tx_ended (snd (dev_step parse nil_body s e))) =
      mset (map fst s) + mset (tx_called e)"
    using tx_timer_conserve [of s] dev_listeners_conserve [of parse nil_body _ s] by (cases e) (auto simp: tx_start_def)
  show "tx_ended ([] :: 'j tx_out list) = []" by simp
  show "tx_ended (xs @ ys) = tx_ended xs @ tx_ended ys" by (rule tx_ended_append)
qed

section \<open>Properties\<close>

text \<open>
  No transaction is answered twice, and none is forgotten: in every run of either
  transport, whatever replies and timeouts come in whatever order, the transactions that were
  started are exactly those that are pending and those that ended, each ended once, and none
  is both.
\<close>

theorem transactions_end_once:
  assumes "distinct (tx_started es)"
  shows "distinct (tx_ended (snd (run tx_step [] es))) \<and>
    set (map fst (fst (run tx_step [] es))) \<inter> set (tx_ended (snd (run tx_step [] es))) = {} \<and>
    set (map fst (fst (run tx_step [] es))) \<union> set (tx_ended (snd (run tx_step [] es))) = set (tx_started es) \<and>
    distinct (tx_ended (snd (run (dev_step parse nil_body) [] es))) \<and>
    set (map fst (fst (run (dev_step parse nil_body) [] es))) \<inter> set (tx_ended (snd (run (dev_step parse nil_body) [] es))) = {} \<and>
    set (map fst (fst (run (dev_step parse nil_body) [] es))) \<union> set (tx_ended (snd (run (dev_step parse nil_body) [] es))) =
      set (tx_started es)"
  using assms unfolding tx_started_def
  by (intro conjI tx.answered_once dev.answered_once) simp_all

text \<open>
  \<open>runTransaction\<close> keeps transactions apart: with response channels of their own, an
  answer on the channel of one settles that one, by its success flag, and leaves the others
  pending; an answer on another channel settles none.
\<close>

theorem answer_settles_its_transaction:
  assumes "distinct (map snd s)"
  shows "((i, rc) \<in> set s \<longrightarrow>
      tx_step s (TxReply rc m) = (remove1 (i, rc) s,
        [TxUnsubscribe rc, if dm_success m then TxResolve i m else TxReject i m])) \<and>
    (rc \<notin> snd ` set s \<longrightarrow> tx_step s (TxReply rc m) = (s, []))"
proof -
  have "(i, rc) \<in> set s \<Longrightarrow> filter (\<lambda>p. snd p = rc) s = [(i, rc)] \<and> filter (\<lambda>p. snd p \<noteq> rc) s = remove1 (i, rc) s"
    using assms
  proof (induction s)
    case (Cons p s)
    show ?case
    proof (cases "p = (i, rc)")
      case True
      then have "rc \<notin> snd ` set s" using Cons.prems(2) by auto
      then have "filter (\<lambda>p. snd p = rc) s = []" "filter (\<lambda>p. snd p \<noteq> rc) s = s"
        by (auto simp: filter_empty_conv filter_id_conv)
      then show ?thesis using True by simp
    next
      case False
      then have "(i, rc) \<in> set s" using Cons.prems(1) by simp
      then have "rc \<in> snd ` set s" by (metis image_eqI snd_conv)
      then have "snd p \<noteq> rc" using Cons.prems(2) by auto
      then show ?thesis using Cons False by simp
    qed
  qed simp
  moreover have "rc \<notin> snd ` set s \<Longrightarrow> filter (\<lambda>p. snd p = rc) s = [] \<and> filter (\<lambda>p. snd p \<noteq> rc) s = s"
    by (auto simp: filter_empty_conv filter_id_conv)
  ultimately show ?thesis by (auto simp: tx_settle_def)
qed

text \<open>
  \<open>runTransactionDev\<close> does not: one answer, on whatever channel and from whatever
  sender, settles every transaction that waits, all with the same body.
\<close>

theorem dev_answer_settles_all:
  assumes "dev_body parse nil_body (dm_body m) = Some body"
  shows "fst (dev_step parse nil_body s (TxReply c m)) = [] \<and>
    tx_ended (snd (dev_step parse nil_body s (TxReply c m))) = map fst s \<and>
    (dm_success m \<and> (i, rc) \<in> set s \<longrightarrow> TxResolve i body \<in> set (snd (dev_step parse nil_body s (TxReply c m))))"
proof -
  have "fst (dev_listeners parse nil_body m s) = [] \<and> tx_ended (snd (dev_listeners parse nil_body m s)) = map fst s \<and>
    (dm_success m \<and> (i, rc) \<in> set s \<longrightarrow> TxResolve i body \<in> set (snd (dev_listeners parse nil_body m s)))"
    by (induction s) (auto simp: assms Let_def)
  then show ?thesis by simp
qed

text \<open>
  The router delivers a message to the handlers of its type, in order of registration,
  with the envelope's own channel when it has one, and then tells the \<open>message\<close> listeners the
  channel it came on; a type nobody registered, and an envelope without a message, reach no
  one.
\<close>

theorem router_delivers:
  fixes r :: "'h router"
  assumes "om_get (rt_types r) (type_url name) = Some name"
  shows "router_handler r ch \<lparr>en_message = Some (type_url name, payload), en_channel = own\<rparr> =
      map (\<lambda>fn. CallType fn (case own of None \<Rightarrow> ch | Some c \<Rightarrow> str_or c ch) payload) (router_emit r name) @
      map (\<lambda>fn. CallMessage fn ch) (router_emit r ''message'') \<and>
    router_handler (router_on_type r n2 fn2) ch \<lparr>en_message = Some (type_url n2, payload), en_channel = None\<rparr> =
      map (\<lambda>fn. CallType fn ch payload) (router_emit r n2 @ [fn2]) @
      map (\<lambda>fn. CallMessage fn ch) (router_emit (router_on_type r n2 fn2) ''message'') \<and>
    (om_get (rt_types r) url = None \<longrightarrow>
      router_handler r ch \<lparr>en_message = Some (url, payload), en_channel = own\<rparr> = []) \<and>
    router_handler r ch \<lparr>en_message = None, en_channel = own\<rparr> = []"
  using assms
  by (auto simp: router_handler_def router_emit_def router_on_type_def type_url_def truthy_str_def str_or_def
      split: option.splits)

fun reply_seq :: "reply_msg \<Rightarrow> int" where
  "reply_seq (DoneMsg m) = dm_seq m"
| "reply_seq (ProgressMsg m) = pm_seq m"

fun reply_source :: "reply_msg \<Rightarrow> string" where
  "reply_source (DoneMsg m) = dm_source m"
| "reply_source (ProgressMsg m) = pm_source m"

datatype reply_call = Okay "string option" "string option" | Fail "string option" "string option" | Progress string rat

fun reply_step :: "(string \<Rightarrow> string) \<Rightarrow> replier \<Rightarrow> reply_call \<Rightarrow> replier \<times> reply_msg list" where
  "reply_step stringify r (Okay d b) = (let x = reply_okay stringify r d b in (fst x, [snd x]))"
| "reply_step stringify r (Fail d b) = (let x = reply_fail stringify r d b in (fst x, [snd x]))"
| "reply_step stringify r (Progress d p) = (let x = reply_progress r d p in (fst x, [snd x]))"

lemma reply_step_fields:
  "rp_seq (fst (reply_step stringify r c)) = rp_seq r + 1" "rp_source (fst (reply_step stringify r c)) = rp_source r"
  "map reply_seq (snd (reply_step stringify r c)) = [rp_seq r]"
  "map reply_source (snd (reply_step stringify r c)) = [rp_source r]"
  by (cases c; simp add: reply_okay_def reply_fail_def reply_done_def reply_progress_def Let_def)+

lemma replies_from:
  "map reply_seq (snd (run (reply_step stringify) r cs)) = map (\<lambda>k. rp_seq r + int k) [0..<length cs] \<and>
   set (map reply_source (snd (run (reply_step stringify) r cs))) \<subseteq> {rp_source r}"
proof (induction cs arbitrary: r)
  case Nil
  then show ?case by simp
next
  case (Cons c cs)
  have "map (\<lambda>k. rp_seq r + int k) [0..<length (c # cs)] = rp_seq r # map (\<lambda>k. rp_seq r + 1 + int k) [0..<length cs]"
    by (simp add: upt_conv_Cons map_Suc_upt [symmetric] comp_def del: upt_Suc)
  then show ?case using Cons.IH [of "fst (reply_step stringify r c)"] reply_step_fields [of stringify r c]
    by (auto simp: Let_def)
qed

text \<open>
  The replies of one request are numbered from zero without a gap, whatever mix of
  progress, success and failure is sent, and all name the unit that answers; a progress that
  is an integer is sent unchanged.
\<close>

theorem replies_are_numbered:
  "map reply_seq (snd (run (reply_step stringify) (reply_new source) cs)) = map int [0..<length cs] \<and>
   set (map reply_source (snd (run (reply_step stringify) (reply_new source) cs))) \<subseteq> {source} \<and>
   (\<exists>m. snd (reply_progress r d (of_int n)) = ProgressMsg m \<and> pm_progress m = n)"
proof -
  have "\<lfloor>of_int n + (1 / 2 :: rat)\<rfloor> = n" by (simp add: floor_unique)
  then show ?thesis using replies_from [of stringify "reply_new source" cs]
    by (simp add: reply_new_def reply_progress_def comp_def)
qed

section \<open>Witnesses\<close>

definition wit_done :: done_msg where
  "wit_done = \<lparr>dm_source = ''s1'', dm_seq = 0, dm_success = True, dm_data = ''success'', dm_body = None\<rparr>"

definition wit_txs :: "tx_event list" where
  "wit_txs = [TxStart 1 ''a'' ''c'' [], TxStart 2 ''b'' ''c'' [], TxReply ''a'' wit_done, TxTimer 1, TxReply ''a'' wit_done]"

theorem transactions_end_once_witness: "distinct (tx_ended (snd (run tx_step [] wit_txs)))"
proof -
  have "distinct (tx_started wit_txs)" by (simp add: wit_txs_def tx_started_def)
  from transactions_end_once [OF this, where parse = Some and nil_body = "[]"] show ?thesis by (rule conjunct1)
qed

theorem answer_settles_its_transaction_witness:
  "tx_step [(1, ''a''), (2, ''b'')] (TxReply ''b'' wit_done) = ([(1, ''a'')], [TxUnsubscribe ''b'', TxResolve 2 wit_done])"
  using answer_settles_its_transaction [of "[(1, ''a''), (2, ''b'')]" 2 "''b''" wit_done]
  by (simp add: wit_done_def)

theorem dev_answer_settles_all_witness:
  "TxResolve 2 ''{}'' \<in> set (snd (dev_step Some ''{}'' [(1, ''a''), (2, ''b'')] (TxReply ''a'' wit_done)))"
  using dev_answer_settles_all [of Some "''{}''" wit_done "''{}''" "[(1, ''a''), (2, ''b'')]" "''a''" 2 "''b''"]
  by (simp add: dev_body_def truthy_str_def wit_done_def)

theorem router_delivers_witness:
  "router_handler (router_on_type router_new ''Done'' (7::nat)) ''c''
     \<lparr>en_message = Some (type_url ''Done'', ''p''), en_channel = Some ''txn''\<rparr> = [CallType 7 ''txn'' ''p'']"
  using router_delivers [of "router_on_type router_new ''Done'' (7::nat)" "''Done''" "''c''" "''p''" "Some ''txn''"]
  by (simp add: router_on_type_def router_new_def router_emit_def om_set_def om_get_def str_or_def)

end
