(* ===== verification/Reaper.thy ===== *)
theory Reaper imports Ttl_Set Transactions begin

text \<open>
  \<open>lib/units/reaper/index.ts\<close>: the unit that decides which devices are present. It keeps
  the set of \<open>Ttl_Set\<close>, whose events it turns into messages, asks the database for the
  present devices when it starts and, if enabled, for dead devices at intervals. The end of
  those transactions is an event (\<open>Inl\<close> the message of the error). The sockets and the log
  are left out; the loop of \<open>check\<close> may fail to return (\<open>Hang\<close>), which is shown not to happen.
\<close>

section \<open>The unit\<close>

record reaper_options =
  ro_cleanup_after :: int
  ro_cleanup_interval :: int

datatype reaper_out =
    SendPresent serial | SendAbsent serial | SendDelete serial
  | AskPresentDevices | AskDeadDevices int | CleanerIn int | InitIn int | Fatal string | Hang

datatype reaper_event =
    Introduction serial millis millis
  | Heartbeat serial millis millis
  | Absent serial
  | TtlTimer millis
  | InitDone "string + serial list option" millis millis
  | InitRetry
  | CleanerTimer
  | CleanerDone "string + (serial \<times> bool) list"
  | Stop

fun reaper_emit :: "ttl_event \<Rightarrow> reaper_out" where
  "reaper_emit (Insert serial) = SendPresent serial"
| "reaper_emit (Drop serial) = SendAbsent serial"

text \<open>A call of the set, with its events sent on.\<close>

definition emitting :: "ttl_set \<times> ttl_event list \<Rightarrow> ttl_set \<times> reaper_out list" where
  "emitting r = (fst r, map reaper_emit (snd r))"

fun bump_all :: "ttl_set \<Rightarrow> serial list \<Rightarrow> millis \<Rightarrow> millis \<Rightarrow> ttl_set \<times> ttl_event list" where
  "bump_all s [] time now = (s, [])"
| "bump_all s (d # ds) time now =
     (let r = ttl_bump s d time now SILENT; r2 = bump_all (fst r) ds time now
      in (fst r2, snd r @ snd r2))"

definition TIMEOUT_MESSAGE :: string where
  "TIMEOUT_MESSAGE = ''Timeout when running transaction''"

definition cleaner_loop :: "reaper_options \<Rightarrow> reaper_out list" where
  "cleaner_loop opts = [CleanerIn (ro_cleanup_interval opts * 60 * 1000)]"

text \<open>What the unit does on its own when it starts.\<close>

definition reaper_start :: "reaper_options \<Rightarrow> millis \<Rightarrow> ttl_set \<times> reaper_out list" where
  "reaper_start opts heartbeat_timeout =
     (ttl_new heartbeat_timeout, (if ro_cleanup_after opts \<noteq> 0 then cleaner_loop opts else []) @ [AskPresentDevices])"

fun reaper_step :: "reaper_options \<Rightarrow> ttl_set \<Rightarrow> reaper_event \<Rightarrow> ttl_set \<times> reaper_out list" where
  "reaper_step opts s (Introduction serial time now) =
     (let d = ttl_drop s serial SILENT; b = ttl_bump (fst d) serial time now 0
      in emitting (fst b, snd d @ snd b))"
| "reaper_step opts s (Heartbeat serial time now) = emitting (ttl_bump s serial time now 0)"
| "reaper_step opts s (Absent serial) = emitting (ttl_drop s serial SILENT)"
| "reaper_step opts s (TtlTimer now) =
     (case ttl_check s now of None \<Rightarrow> (s, [Hang]) | Some r \<Rightarrow> emitting r)"
| "reaper_step opts s (InitDone (Inr devices) time now) =
     emitting (bump_all s (case devices of None \<Rightarrow> [] | Some ds \<Rightarrow> ds) time now)"
| "reaper_step opts s (InitDone (Inl err) time now) =
     (s, [if err = TIMEOUT_MESSAGE then InitIn 2000 else Fatal err])"
| "reaper_step opts s InitRetry = (s, [AskPresentDevices])"
| "reaper_step opts s CleanerTimer = (s, [AskDeadDevices (ro_cleanup_after opts * 60 * 1000)])"
| "reaper_step opts s (CleanerDone (Inr dead)) =
     (s, map (\<lambda>d. SendDelete (fst d)) (filter (\<lambda>d. \<not> snd d) dead) @ cleaner_loop opts)"
| "reaper_step opts s (CleanerDone (Inl err)) = (s, cleaner_loop opts)"
| "reaper_step opts s Stop = (ttl_stop s, [])"

section \<open>The unit on the abstract set\<close>

text \<open>The same events on the abstract set of \<open>Ttl_Set\<close>, with what the unit must announce.\<close>

definition view_bump_all :: "ttl_view \<Rightarrow> serial list \<Rightarrow> millis \<Rightarrow> ttl_view" where
  "view_bump_all A ds t = fold (\<lambda>d B. view_bump B d t) ds A"

fun reaper_spec :: "millis \<Rightarrow> ttl_view \<Rightarrow> reaper_event \<Rightarrow> ttl_view" where
  "reaper_spec ttl A (Introduction serial time now) = view_bump (view_drop A serial) serial (num_or time now)"
| "reaper_spec ttl A (Heartbeat serial time now) = view_bump A serial (num_or time now)"
| "reaper_spec ttl A (Absent serial) = view_drop A serial"
| "reaper_spec ttl A (TtlTimer now) = view_check A ttl now"
| "reaper_spec ttl A (InitDone (Inr (Some ds)) time now) = view_bump_all A ds (num_or time now)"
| "reaper_spec ttl A e = A"

fun announced :: "millis \<Rightarrow> ttl_view \<Rightarrow> reaper_event \<Rightarrow> reaper_out list" where
  "announced ttl A (Introduction serial time now) = [SendPresent serial]"
| "announced ttl A (Heartbeat serial time now) = (if serial \<in> vw_present A then [] else [SendPresent serial])"
| "announced ttl A (TtlTimer now) = map (\<lambda>e. SendAbsent (fst e)) (takeWhile (view_expired ttl now) (vw_line A))"
| "announced ttl A e = []"

fun presence :: "reaper_out \<Rightarrow> bool" where
  "presence (SendPresent d) = True"
| "presence (SendAbsent d) = True"
| "presence Hang = True"
| "presence _ = False"

lemma ttl_silent_SILENT [simp]: "ttl_silent SILENT"
  by (simp add: ttl_silent_def)

lemma bump_all_sim:
  assumes "ttl_sim s A"
  shows "ttl_sim (fst (bump_all s ds time now)) (view_bump_all A ds (num_or time now)) \<and>
    snd (bump_all s ds time now) = [] \<and> tt_ttl (fst (bump_all s ds time now)) = tt_ttl s"
  using assms
proof (induction ds arbitrary: s A)
  case Nil
  then show ?case by (simp add: view_bump_all_def)
next
  case (Cons d ds)
  show ?case
    using Cons.IH [OF ttl_sim_bump [OF Cons.prems, of d time now SILENT]] ttl_bump_events [OF Cons.prems, of d time now SILENT]
    by (simp add: Let_def view_bump_all_def)
qed

lemma reaper_step_sim:
  assumes "ttl_sim s A"
  shows "ttl_sim (fst (reaper_step opts s e)) (reaper_spec (tt_ttl s) A e) \<and>
    filter presence (snd (reaper_step opts s e)) = announced (tt_ttl s) A e \<and>
    tt_ttl (fst (reaper_step opts s e)) = tt_ttl s"
proof (cases e)
  case (Introduction serial time now)
  note d = ttl_sim_drop [OF assms, of serial SILENT]
  show ?thesis
    using ttl_sim_bump [OF d, of serial time now 0] ttl_drop_ttl [OF assms, of serial SILENT] ttl_bump_events [OF d, of serial time now 0]
      ttl_drop_events [OF assms, of serial SILENT] Introduction
    by (simp add: emitting_def Let_def view_drop_def)
next
  case (Heartbeat serial time now)
  then show ?thesis
    using ttl_sim_bump [OF assms, of serial time now 0] ttl_bump_events [OF assms, of serial time now 0]
    by (auto simp: emitting_def)
next
  case (Absent serial)
  then show ?thesis
    using ttl_sim_drop [OF assms, of serial SILENT] ttl_drop_events [OF assms, of serial SILENT] ttl_drop_ttl [OF assms]
    by (auto simp: emitting_def)
next
  case (TtlTimer now)
  obtain t where "ttl_check s now = Some (t, map (\<lambda>e. Drop (fst e)) (takeWhile (view_expired (tt_ttl s) now) (vw_line A)))"
    and "ttl_sim t (view_check A (tt_ttl s) now)" "tt_ttl t = tt_ttl s" using ttl_sim_check [OF assms] by blast
  moreover have "filter presence (map (\<lambda>e. SendAbsent (fst e)) xs) = map (\<lambda>e. SendAbsent (fst e)) xs" for xs :: "(string \<times> millis) list"
    by (induction xs) auto
  ultimately show ?thesis using TtlTimer by (simp add: emitting_def comp_def)
next
  case (InitDone res time now)
  then show ?thesis using bump_all_sim [OF assms] assms
    by (cases res) (auto simp: emitting_def split: option.splits)
next
  case (CleanerDone res)
  have "filter presence (map (\<lambda>d. SendDelete (fst d)) xs) = []" for xs :: "(serial \<times> bool) list"
    by (induction xs) auto
  then show ?thesis using assms CleanerDone by (cases res) (auto simp: cleaner_loop_def)
next
  case Stop
  then show ?thesis using assms by (auto simp: ttl_stop_def [of s, symmetric]) (simp add: ttl_stop_def)
qed (use assms in auto)

interpretation reaper: invariant_machine "reaper_step opts" "\<lambda>s. \<exists>A. ttl_sim s A" for opts
  by unfold_locales (use reaper_step_sim in blast)

lemma view_bump_all_Cons [simp]: "view_bump_all A (d # ds) t = view_bump_all (view_bump A d t) ds t"
  and view_bump_all_Nil [simp]: "view_bump_all A [] t = A"
  by (simp_all add: view_bump_all_def)

lemma view_bump_all_present: "vw_present A \<subseteq> vw_present (view_bump_all A ds t)"
proof (induction ds arbitrary: A)
  case (Cons d ds)
  have "vw_present A \<subseteq> vw_present (view_bump A d t)" by (auto simp: view_bump_def)
  then show ?case using Cons.IH [of "view_bump A d t"] by simp
qed simp

lemma view_bump_all_other:
  "w \<in> vw_present A \<Longrightarrow> w \<notin> fst ` set (vw_line A) \<Longrightarrow> w \<notin> set ds \<Longrightarrow>
   w \<in> vw_present (view_bump_all A ds t) \<and> w \<notin> fst ` set (vw_line (view_bump_all A ds t))"
proof (induction ds arbitrary: A)
  case (Cons d ds)
  have "w \<in> vw_present (view_bump A d t) \<and> w \<notin> fst ` set (vw_line (view_bump A d t))"
    using Cons.prems by (auto simp: view_bump_def)
  then show ?case using Cons.IH [of "view_bump A d t"] Cons.prems by simp
qed simp

lemma ttl_sim_line: "ttl_sim s A \<Longrightarrow> fst ` set (vw_line A) \<subseteq> vw_present A"
  by (force simp: ttl_sim_def ttl_ok_def line_ok_def ttl_view_of_def ttl_entry_def)

lemma reaper_run_sim:
  assumes "ttl_sim s A" and "tt_ttl s = ttl"
  shows "filter presence (snd (run (reaper_step opts) s es)) =
      snd (run (\<lambda>A e. (reaper_spec ttl A e, announced ttl A e)) A es) \<and>
    ttl_sim (fst (run (reaper_step opts) s es)) (fst (run (\<lambda>A e. (reaper_spec ttl A e, announced ttl A e)) A es))"
  using assms
proof (induction es arbitrary: s A)
  case (Cons e es)
  then show ?case using reaper_step_sim [OF Cons.prems(1), of opts e] by (simp add: Let_def)
qed simp

lemma reaper_present:
  "dom (tt_map (fst (run (reaper_step opts) (fst (reaper_start opts ttl)) es))) =
   vw_present (fst (run (\<lambda>A e. (reaper_spec ttl A e, announced ttl A e)) \<lparr>vw_present = {}, vw_line = []\<rparr> es))"
proof -
  have "tt_ttl (ttl_new ttl) = ttl" by (simp add: ttl_new_def)
  from ttl_sim_present [OF conjunct2 [OF reaper_run_sim [OF ttl_sim_new this]]] show ?thesis
    by (simp add: reaper_start_def)
qed

section \<open>Properties\<close>


text \<open>
  No device comes or goes unannounced: in every reachable state and for every event, a
  device that becomes tracked is announced as present (unless it comes from the initial load),
  one that stops being tracked is announced as absent (unless the message says so itself), and
  nothing else is announced, except that an introduction is always repeated to everyone.
\<close>

theorem presence_is_announced:
  assumes "s = fst (run (reaper_step opts) (fst (reaper_start opts ttl)) es)"
    and "t = fst (reaper_step opts s e)" and "out = snd (reaper_step opts s e)"
  shows "(tt_map s d = None \<and> tt_map t d \<noteq> None \<and> (\<forall>r time now. e \<noteq> InitDone r time now) \<longrightarrow> SendPresent d \<in> set out) \<and>
    (tt_map s d \<noteq> None \<and> tt_map t d = None \<and> e \<noteq> Absent d \<longrightarrow> SendAbsent d \<in> set out) \<and>
    (SendPresent d \<in> set out \<longrightarrow> tt_map t d \<noteq> None \<and> (tt_map s d = None \<or> (\<exists>time now. e = Introduction d time now))) \<and>
    (SendAbsent d \<in> set out \<longrightarrow> tt_map s d \<noteq> None \<and> tt_map t d = None)"
proof -
  have "\<exists>A. ttl_sim s A"
    unfolding assms(1) by (rule reaper.always_run) (use ttl_sim_new in \<open>auto simp: reaper_start_def\<close>)
  then obtain A where A: "ttl_sim s A" by blast
  note st = reaper_step_sim [OF A, of opts e]
  have out: "SendPresent d \<in> set out \<longleftrightarrow> SendPresent d \<in> set (announced (tt_ttl s) A e)"
    "SendAbsent d \<in> set out \<longleftrightarrow> SendAbsent d \<in> set (announced (tt_ttl s) A e)"
    unfolding assms(3) using st by (metis (mono_tags) filter_set mem_Collect_eq set_filter presence.simps(1,2))+
  have pres: "tt_map s d = None \<longleftrightarrow> d \<notin> vw_present A"
    "tt_map t d = None \<longleftrightarrow> d \<notin> vw_present (reaper_spec (tt_ttl s) A e)"
    using ttl_sim_present [OF A] ttl_sim_present st unfolding assms(2) by auto
  show ?thesis
  proof (cases e)
    case (InitDone r time now)
    show ?thesis using InitDone out pres view_bump_all_present [of A]
      by (cases "(ttl, A, InitDone r time now)" rule: reaper_spec.cases) auto
  next
    case (TtlTimer now)
    have "fst ` set (takeWhile (view_expired (tt_ttl s) now) (vw_line A)) \<subseteq> vw_present A"
      using ttl_sim_line [OF A] by (auto dest: set_takeWhileD)
    then show ?thesis using TtlTimer out pres by (auto simp: view_check_def image_iff)
  qed (use out pres in \<open>auto simp: view_bump_def view_drop_def split: if_splits\<close>)
qed


text \<open>The events that mention a device, and the devices that the line no longer reaches.\<close>

fun concerns :: "serial \<Rightarrow> reaper_event \<Rightarrow> bool" where
  "concerns w (Introduction d time now) = (d = w)"
| "concerns w (Heartbeat d time now) = (d = w)"
| "concerns w (Absent d) = (d = w)"
| "concerns w (InitDone r time now) = (\<exists>ds. r = Inr (Some ds) \<and> w \<in> set ds)"
| "concerns w e = False"

definition forgotten :: "serial \<Rightarrow> ttl_set \<Rightarrow> bool" where
  "forgotten w s \<longleftrightarrow> (\<exists>A. ttl_sim s A \<and> w \<in> vw_present A \<and> w \<notin> fst ` set (vw_line A))"

lemma forgotten_spec:
  assumes "w \<in> vw_present A" and "w \<notin> fst ` set (vw_line A)" and "\<not> concerns w e"
  shows "w \<in> vw_present (reaper_spec ttl A e) \<and> w \<notin> fst ` set (vw_line (reaper_spec ttl A e)) \<and>
    SendAbsent w \<notin> set (announced ttl A e)"
proof (cases e)
  case (InitDone r time now)
  show ?thesis using InitDone assms view_bump_all_other [of w A]
    by (cases "(ttl, A, InitDone r time now)" rule: reaper_spec.cases) auto
next
  case (TtlTimer now)
  then show ?thesis using assms by (auto simp: view_check_def image_iff dest: set_takeWhileD set_dropWhileD)
qed (use assms in \<open>auto simp: view_bump_def view_drop_def\<close>)

interpretation forgotten: guarded_machine "reaper_step opts" "forgotten w" "\<lambda>e. \<not> concerns w e" for opts w
proof
  fix s e
  assume "forgotten w s" "\<not> concerns w e"
  then show "forgotten w (fst (reaper_step opts s e))"
    unfolding forgotten_def using reaper_step_sim forgotten_spec by metis
qed

text \<open>
  A heartbeat makes every other device immortal: once some device that was already
  tracked has sent one, another tracked device that sends nothing more is never reported as
  absent, whatever the others send and however often the timer fires.
\<close>

theorem heartbeat_makes_others_immortal:
  assumes "s = fst (run (reaper_step opts) (fst (reaper_start opts ttl)) es)"
    and "tt_map s v \<noteq> None" and "tt_map s w \<noteq> None" and "v \<noteq> w"
    and "list_all (\<lambda>e. \<not> concerns w e) later"
  shows "SendAbsent w \<notin> set (snd (run (reaper_step opts) s (Heartbeat v time now # later))) \<and>
    tt_map (fst (run (reaper_step opts) s (Heartbeat v time now # later))) w \<noteq> None"
proof -
  have "\<exists>A. ttl_sim s A"
    unfolding assms(1) by (rule reaper.always_run) (use ttl_sim_new in \<open>auto simp: reaper_start_def\<close>)
  then obtain A where A: "ttl_sim s A" by blast
  let ?t = "fst (reaper_step opts s (Heartbeat v time now))"
  note st = reaper_step_sim [OF A, of opts "Heartbeat v time now"]
  have p: "v \<in> vw_present A" "w \<in> vw_present A" using ttl_sim_present [OF A] assms(2,3) by auto
  then have f: "forgotten w ?t"
    unfolding forgotten_def using st assms(4) by (intro exI [of _ "view_bump A v (num_or time now)"]) (auto simp: view_bump_def)
  have "x \<noteq> SendAbsent w" if "x \<in> set (snd (run (reaper_step opts) ?t later))" for x
  proof (rule forgotten.output_run [OF f assms(5) _ that])
    fix s e x
    assume "forgotten w s" "\<not> concerns w e" and x: "x \<in> set (snd (reaper_step opts s e))"
    then obtain A where A: "ttl_sim s A" "w \<in> vw_present A" "w \<notin> fst ` set (vw_line A)" "\<not> concerns w e"
      by (auto simp: forgotten_def)
    show "x \<noteq> SendAbsent w"
    proof
      assume "x = SendAbsent w"
      then have "SendAbsent w \<in> set (filter presence (snd (reaper_step opts s e)))" using x by simp
      then show False using reaper_step_sim [OF A(1), of opts e] forgotten_spec [OF A(2-4)] by simp
    qed
  qed
  moreover have "x \<noteq> SendAbsent w" if "x \<in> set (snd (reaper_step opts s (Heartbeat v time now)))" for x
  proof
    assume "x = SendAbsent w"
    then have "SendAbsent w \<in> set (filter presence (snd (reaper_step opts s (Heartbeat v time now))))" using that by simp
    moreover have "SendAbsent w \<notin> set (announced (tt_ttl s) A (Heartbeat v time now))" by simp
    ultimately show False using conjunct1 [OF conjunct2 [OF st]] by metis
  qed
  moreover have "forgotten w (fst (run (reaper_step opts) ?t later))" by (rule forgotten.inv_run [OF f assms(5)])
  then have "tt_map (fst (run (reaper_step opts) ?t later)) w \<noteq> None"
    using ttl_sim_present by (auto simp: forgotten_def)
  ultimately show ?thesis by (auto simp: Let_def)
qed

section \<open>Witnesses\<close>

definition wit_reaper :: reaper_options where
  "wit_reaper = \<lparr>ro_cleanup_after = 0, ro_cleanup_interval = 0\<rparr>"

theorem presence_is_announced_witness:
  "SendPresent ''a'' \<in> set (snd (reaper_step wit_reaper (fst (reaper_start wit_reaper 30000)) (Heartbeat ''a'' 5 5)))"
proof -
  let ?s = "fst (reaper_start wit_reaper 30000)"
  have "?s = fst (run (reaper_step wit_reaper) ?s [])" by simp
  note p = presence_is_announced [OF this refl refl, of "''a''" "Heartbeat ''a'' 5 5"]
  have "dom (tt_map (fst (reaper_step wit_reaper ?s (Heartbeat ''a'' 5 5)))) = {''a''}"
    using reaper_present [of wit_reaper 30000 "[Heartbeat ''a'' 5 5]"] by (simp add: Let_def view_bump_def)
  then have "tt_map (fst (reaper_step wit_reaper ?s (Heartbeat ''a'' 5 5))) ''a'' \<noteq> None" by blast
  moreover have "tt_map ?s ''a'' = None" by (simp add: reaper_start_def ttl_new_def)
  ultimately show ?thesis using p by simp
qed


theorem heartbeat_makes_others_immortal_witness:
  "SendAbsent ''b'' \<notin> set (snd (run (reaper_step wit_reaper)
     (fst (run (reaper_step wit_reaper) (fst (reaper_start wit_reaper 30000)) [Introduction ''a'' 5 5, Introduction ''b'' 7 7]))
     [Heartbeat ''a'' 9 9, TtlTimer 10000000]))"
proof -
  let ?s = "fst (run (reaper_step wit_reaper) (fst (reaper_start wit_reaper 30000)) [Introduction ''a'' 5 5, Introduction ''b'' 7 7])"
  have "dom (tt_map ?s) = {''b'', ''a''}"
    using reaper_present [of wit_reaper 30000 "[Introduction ''a'' 5 5, Introduction ''b'' 7 7]"]
    by (simp add: Let_def view_bump_def view_drop_def)
  then have "tt_map ?s ''a'' \<noteq> None" "tt_map ?s ''b'' \<noteq> None" by blast+
  from heartbeat_makes_others_immortal [OF refl this, of "[TtlTimer 10000000]" 9 9] show ?thesis by simp
qed

end
