(* ===== verification/Process_Manager.thy ===== *)
theory Process_Manager imports Prelude "HOL-Library.Multiset" begin

text \<open>
  \<open>lib/util/ProcessManager.ts\<close>: the pool of resources (ports) and the manager of child
  processes that the providers use.

  A managed process is a mutable object that pending calls hold on to after it has left the
  map, so the objects live in a store and the \<open>Map\<close> takes ids to references. Each call of
  \<open>start\<close> that gets as far as spawning is a run with its own promise and its own child; a run
  that restarts the process passes the outcome of the new run on, so a run knows the chain of
  runs that wait for it. Every \<open>await\<close> splits a method: what remains to be done waits as a
  task, and \<open>Resume\<close> continues one of them, with whether the awaited callback succeeded. The
  callbacks, the children's signals and the promises' results are outputs; log output is left
  out.
\<close>

section \<open>The pool\<close>

definition pool_allocate :: "'r list \<Rightarrow> nat \<Rightarrow> ('r list \<times> 'r list) option" where
  "pool_allocate available cnt =
     (if length available < cnt then None else Some (take cnt available, drop cnt available))"

definition pool_release :: "'r list \<Rightarrow> 'r list \<Rightarrow> 'r list" where
  "pool_release available resources = available @ resources"

section \<open>State\<close>

datatype process_state = Waiting | Starting | Running

record ('c, 'r) managed =
  pr_id :: string
  pr_state :: process_state
  pr_start :: millis
  pr_ctx :: 'c
  pr_res :: "'r list"
  pr_timer :: "nat option"
  pr_term :: "nat option"

record start_run =
  rn_proc :: nat
  rn_id :: string
  rn_chain :: "nat list"
  rn_listening :: bool
  rn_messages :: bool
  rn_resolved :: bool

datatype pm_task =
    AfterCleanup nat "string option"
  | AfterStop nat string
  | AfterSpawn nat
  | AfterError nat bool
  | AfterDelay nat
  | AfterReady nat

record ('c, 'r) pm =
  pm_objs :: "nat \<Rightarrow> ('c, 'r) managed"
  pm_next :: nat
  pm_map :: "(string, nat) omap"
  pm_pool :: "'r list option"
  pm_runs :: "nat \<Rightarrow> start_run"
  pm_nrun :: nat
  pm_tasks :: "pm_task list"
  pm_health :: "millis option"

datatype ('c, 'r) pm_out =
    Created bool
  | OnCleanup string 'c
  | OnError string 'c
  | OnReady string 'c
  | Spawn nat string 'c "'r list"
  | Kill nat
  | ClearTimer nat
  | Resolved nat bool
  | StartReturns bool
  | UnhandledRejection

definition pm_get :: "('c, 'r) pm \<Rightarrow> string \<Rightarrow> ('c, 'r) managed option" where
  "pm_get s i = map_option (pm_objs s) (om_get (pm_map s) i)"

definition pm_has :: "('c, 'r) pm \<Rightarrow> string \<Rightarrow> bool" where
  "pm_has s i = om_has (pm_map s) i"

definition upd_obj :: "nat \<Rightarrow> (('c, 'r) managed \<Rightarrow> ('c, 'r) managed) \<Rightarrow> ('c, 'r) pm \<Rightarrow> ('c, 'r) pm" where
  "upd_obj a f s = s\<lparr>pm_objs := (pm_objs s)(a := f (pm_objs s a))\<rparr>"

definition upd_run :: "nat \<Rightarrow> (start_run \<Rightarrow> start_run) \<Rightarrow> ('c, 'r) pm \<Rightarrow> ('c, 'r) pm" where
  "upd_run k f s = s\<lparr>pm_runs := (pm_runs s)(k := f (pm_runs s k))\<rparr>"

definition add_task :: "pm_task \<Rightarrow> ('c, 'r) pm \<Rightarrow> ('c, 'r) pm" where
  "add_task t s = s\<lparr>pm_tasks := pm_tasks s @ [t]\<rparr>"

text \<open>The timer of a process: \<open>if (process.timer) { clearTimeout(process.timer); process.timer = undefined }\<close>.\<close>

definition drop_timer :: "nat \<Rightarrow> ('c, 'r) pm \<Rightarrow> ('c, 'r) pm \<times> ('c, 'r) pm_out list" where
  "drop_timer a s =
     (upd_obj a (\<lambda>p. p\<lparr>pr_timer := None\<rparr>) s,
      case pr_timer (pm_objs s a) of None \<Rightarrow> [] | Some t \<Rightarrow> [ClearTimer t])"

section \<open>Creating\<close>

definition pm_new :: "'r list option \<Rightarrow> millis option \<Rightarrow> 'c \<Rightarrow> ('c, 'r) pm" where
  "pm_new pool health c = \<lparr>pm_objs = (\<lambda>_. \<lparr>pr_id = [], pr_state = Waiting, pr_start = 0, pr_ctx = c, pr_res = [],
       pr_timer = None, pr_term = None\<rparr>),
     pm_next = 0, pm_map = [], pm_pool = pool,
     pm_runs = (\<lambda>_. \<lparr>rn_proc = 0, rn_id = [], rn_chain = [], rn_listening = False, rn_messages = False, rn_resolved = False\<rparr>),
     pm_nrun = 0, pm_tasks = [], pm_health = health\<rparr>"

definition pm_insert :: "('c, 'r) pm \<Rightarrow> string \<Rightarrow> 'c \<Rightarrow> process_state option \<Rightarrow> 'r list \<Rightarrow> millis \<Rightarrow> ('c, 'r) pm" where
  "pm_insert s i ctx st res now =
     s\<lparr>pm_objs := (pm_objs s)(pm_next s := \<lparr>pr_id = i, pr_state = (case st of None \<Rightarrow> Waiting | Some x \<Rightarrow> x),
         pr_start = now, pr_ctx = ctx, pr_res = res, pr_timer = None, pr_term = None\<rparr>),
       pm_next := Suc (pm_next s), pm_map := om_set i (pm_next s) (pm_map s)\<rparr>"

definition pm_create ::
  "('c, 'r) pm \<Rightarrow> string \<Rightarrow> 'c \<Rightarrow> process_state option \<Rightarrow> nat option \<Rightarrow> millis \<Rightarrow> ('c, 'r) pm \<times> ('c, 'r) pm_out list" where
  "pm_create s i ctx st cnt now =
     (if pm_has s i then (s, [Created False])
      else case (pm_pool s, cnt) of
        (Some pool, Some n) \<Rightarrow>
          (if n = 0 then (pm_insert s i ctx st [] now, [Created True])
           else case pool_allocate pool n of
             None \<Rightarrow> (s, [Created False])
           | Some (res, rest) \<Rightarrow> (pm_insert (s\<lparr>pm_pool := Some rest\<rparr>) i ctx st res now, [Created True]))
      | _ \<Rightarrow> (pm_insert s i ctx st [] now, [Created True]))"

section \<open>Starting\<close>

text \<open>
  \<open>resolveOnce\<close> of a run, and of the runs that wait for its promise: the result is passed on
  as long as the promises are open.
\<close>

fun resolve_chain :: "nat list \<Rightarrow> bool \<Rightarrow> ('c, 'r) pm \<Rightarrow> ('c, 'r) pm \<times> ('c, 'r) pm_out list" where
  "resolve_chain [] v s = (s, [])"
| "resolve_chain (k # ks) v s =
     (if rn_resolved (pm_runs s k) then (s, [])
      else (let r = resolve_chain ks v (upd_run k (\<lambda>n. n\<lparr>rn_resolved := True\<rparr>) s)
            in (fst r, Resolved k v # snd r)))"

definition resolve_once :: "nat \<Rightarrow> bool \<Rightarrow> ('c, 'r) pm \<Rightarrow> ('c, 'r) pm \<times> ('c, 'r) pm_out list" where
  "resolve_once k v s = resolve_chain (rn_chain (pm_runs s k)) v s"

text \<open>
  \<open>start\<close> up to the call of \<open>spawn\<close>; \<open>waiting\<close> is the chain of runs that wait for the
  promise it returns (empty for a call from outside, whose early answers are \<open>StartReturns\<close>).
\<close>

definition pm_start :: "('c, 'r) pm \<Rightarrow> string \<Rightarrow> bool \<Rightarrow> nat list \<Rightarrow> millis \<Rightarrow> ('c, 'r) pm \<times> ('c, 'r) pm_out list" where
  "pm_start s i force waiting now =
     (case om_get (pm_map s) i of
        None \<Rightarrow> (let r = resolve_chain waiting False s in (fst r, (if waiting = [] then [StartReturns False] else []) @ snd r))
      | Some a \<Rightarrow>
          (if \<not> force \<and> pr_state (pm_objs s a) = Running then
             (let r = resolve_chain waiting True s in (fst r, (if waiting = [] then [StartReturns True] else []) @ snd r))
           else (let d = drop_timer a s;
                     s1 = upd_obj a (\<lambda>p. p\<lparr>pr_state := Starting, pr_start := now\<rparr>) (fst d);
                     k = pm_nrun s1;
                     s2 = s1\<lparr>pm_runs := (pm_runs s1)(k := \<lparr>rn_proc = a, rn_id = i, rn_chain = k # waiting,
                            rn_listening = False, rn_messages = False, rn_resolved = False\<rparr>), pm_nrun := Suc k\<rparr>
                 in (add_task (AfterSpawn k) s2,
                     snd d @ [Spawn k i (pr_ctx (pm_objs s a)) (pr_res (pm_objs s a))]))))"

text \<open>\<open>cleanup\<close> inside \<open>start\<close> removes all listeners of the child.\<close>

definition unlisten :: "nat \<Rightarrow> ('c, 'r) pm \<Rightarrow> ('c, 'r) pm" where
  "unlisten k s = upd_run k (\<lambda>n. n\<lparr>rn_listening := False, rn_messages := False\<rparr>) s"

text \<open>After \<open>spawn\<close>: the listeners and the terminate handler (of the process that has the id now), or the \<open>catch\<close>.\<close>

definition pm_spawned :: "('c, 'r) pm \<Rightarrow> nat \<Rightarrow> bool \<Rightarrow> ('c, 'r) pm \<times> ('c, 'r) pm_out list" where
  "pm_spawned s k ok =
     (if \<not> ok then resolve_once k False s
      else (let s1 = upd_run k (\<lambda>n. n\<lparr>rn_listening := True, rn_messages := True\<rparr>) s
            in (case om_get (pm_map s1) (rn_id (pm_runs s1 k)) of
                  None \<Rightarrow> s1 | Some b \<Rightarrow> upd_obj b (\<lambda>p. p\<lparr>pr_term := Some k\<rparr>) s1, [])))"

definition handle_error :: "('c, 'r) pm \<Rightarrow> nat \<Rightarrow> bool \<Rightarrow> ('c, 'r) pm \<times> ('c, 'r) pm_out list" where
  "handle_error s k exited =
     (add_task (AfterError k exited) (unlisten k s), [OnError (rn_id (pm_runs s k)) (pr_ctx (pm_objs s (rn_proc (pm_runs s k))))])"

definition after_error :: "('c, 'r) pm \<Rightarrow> nat \<Rightarrow> bool \<Rightarrow> ('c, 'r) pm \<times> ('c, 'r) pm_out list" where
  "after_error s k exited =
     (if \<not> pm_has s (rn_id (pm_runs s k)) then resolve_once k False s
      else if exited then (add_task (AfterDelay k) s, [])
      else resolve_once k False s)"

definition after_delay :: "('c, 'r) pm \<Rightarrow> nat \<Rightarrow> millis \<Rightarrow> ('c, 'r) pm \<times> ('c, 'r) pm_out list" where
  "after_delay s k now =
     (if \<not> pm_has s (rn_id (pm_runs s k)) then resolve_once k False s
      else pm_start s (rn_id (pm_runs s k)) True (rn_chain (pm_runs s k)) now)"

definition handle_ready :: "('c, 'r) pm \<Rightarrow> nat \<Rightarrow> ('c, 'r) pm \<times> ('c, 'r) pm_out list" where
  "handle_ready s k =
     (case om_get (pm_map s) (rn_id (pm_runs s k)) of
        None \<Rightarrow> resolve_once k False s
      | Some b \<Rightarrow>
          (let d = drop_timer b s; s1 = upd_obj b (\<lambda>p. p\<lparr>pr_state := Running\<rparr>) (fst d)
           in (add_task (AfterReady k) s1, snd d @ [OnReady (rn_id (pm_runs s k)) (pr_ctx (pm_objs s b))])))"

text \<open>The child's events, as long as their listeners are there.\<close>

definition child_exit :: "('c, 'r) pm \<Rightarrow> nat \<Rightarrow> int option \<Rightarrow> string option \<Rightarrow> ('c, 'r) pm \<times> ('c, 'r) pm_out list" where
  "child_exit s k code signal =
     (if \<not> rn_listening (pm_runs s k) then (s, [])
      else (let s1 = unlisten k s in
        if truthy_str signal then resolve_once k False s1
        else if code = Some 0 then resolve_once k True s1
        else handle_error s1 k True))"

definition child_error :: "('c, 'r) pm \<Rightarrow> nat \<Rightarrow> ('c, 'r) pm \<times> ('c, 'r) pm_out list" where
  "child_error s k = (if \<not> rn_listening (pm_runs s k) then (s, []) else handle_error s k False)"

definition child_message :: "('c, 'r) pm \<Rightarrow> nat \<Rightarrow> string \<Rightarrow> ('c, 'r) pm \<times> ('c, 'r) pm_out list" where
  "child_message s k msg =
     (if \<not> rn_messages (pm_runs s k) \<or> msg \<noteq> ''ready'' then (s, [])
      else (let r = handle_ready s k in (upd_run k (\<lambda>n. n\<lparr>rn_messages := False\<rparr>) (fst r), snd r)))"

section \<open>Stopping and removing\<close>

definition pm_stop :: "('c, 'r) pm \<Rightarrow> string \<Rightarrow> string option \<Rightarrow> ('c, 'r) pm \<times> ('c, 'r) pm_out list" where
  "pm_stop s i removing =
     (case om_get (pm_map s) i of
        None \<Rightarrow> (s, [])
      | Some a \<Rightarrow> (add_task (AfterCleanup a removing) s, [OnCleanup i (pr_ctx (pm_objs s a))]))"

text \<open>The terminate handler that the last run of the process stored, if any.\<close>

definition terminate_child :: "('c, 'r) pm \<Rightarrow> nat \<Rightarrow> ('c, 'r) pm \<times> ('c, 'r) pm_out list" where
  "terminate_child s a =
     (case pr_term (pm_objs s a) of None \<Rightarrow> (s, []) | Some k \<Rightarrow> (unlisten k s, [Kill k]))"

definition after_cleanup :: "('c, 'r) pm \<Rightarrow> nat \<Rightarrow> string option \<Rightarrow> bool \<Rightarrow> ('c, 'r) pm \<times> ('c, 'r) pm_out list" where
  "after_cleanup s a removing ok =
     (if \<not> ok then (s, [UnhandledRejection])
      else (let r = terminate_child s a
            in (case removing of None \<Rightarrow> fst r | Some i \<Rightarrow> add_task (AfterStop a i) (fst r), snd r)))"

definition pm_remove :: "('c, 'r) pm \<Rightarrow> string \<Rightarrow> ('c, 'r) pm \<times> ('c, 'r) pm_out list" where
  "pm_remove s i = pm_stop s i (Some i)"

definition after_stop :: "('c, 'r) pm \<Rightarrow> nat \<Rightarrow> string \<Rightarrow> ('c, 'r) pm \<times> ('c, 'r) pm_out list" where
  "after_stop s a i =
     (let d = drop_timer a s;
          s1 = fst d;
          res = pr_res (pm_objs s1 a);
          s2 = (case pm_pool s1 of
                  None \<Rightarrow> s1
                | Some pool \<Rightarrow> if res = [] then s1 else s1\<lparr>pm_pool := Some (pool_release pool res)\<rparr>)
      in (s2\<lparr>pm_map := om_del i (pm_map s2)\<rparr>, snd d))"

fun pm_remove_all :: "('c, 'r) pm \<Rightarrow> string list \<Rightarrow> ('c, 'r) pm \<times> ('c, 'r) pm_out list" where
  "pm_remove_all s [] = (s, [])"
| "pm_remove_all s (i # is) = (let r = pm_remove s i; r2 = pm_remove_all (fst r) is in (fst r2, snd r @ snd r2))"

definition pm_cleanup :: "('c, 'r) pm \<Rightarrow> ('c, 'r) pm \<times> ('c, 'r) pm_out list" where
  "pm_cleanup s = pm_remove_all s (om_keys (pm_map s))"

section \<open>State, timers, statistics, health\<close>

definition pm_set_state :: "('c, 'r) pm \<Rightarrow> string \<Rightarrow> process_state \<Rightarrow> millis \<Rightarrow> ('c, 'r) pm \<times> ('c, 'r) pm_out list" where
  "pm_set_state s i st now =
     (case om_get (pm_map s) i of
        None \<Rightarrow> (s, [])
      | Some a \<Rightarrow>
          (let d = drop_timer a s;
               s1 = upd_obj a (\<lambda>p. p\<lparr>pr_state := st\<rparr>) (fst d)
           in (if st = Starting \<or> st = Waiting then upd_obj a (\<lambda>p. p\<lparr>pr_start := now\<rparr>) s1 else s1, snd d)))"

definition pm_set_timer :: "('c, 'r) pm \<Rightarrow> string \<Rightarrow> nat \<Rightarrow> ('c, 'r) pm \<times> ('c, 'r) pm_out list" where
  "pm_set_timer s i t =
     (case om_get (pm_map s) i of
        None \<Rightarrow> (s, [])
      | Some a \<Rightarrow> (upd_obj a (\<lambda>p. p\<lparr>pr_timer := Some t\<rparr>) s,
          case pr_timer (pm_objs s a) of None \<Rightarrow> [] | Some t0 \<Rightarrow> [ClearTimer t0]))"

definition pm_clear_timer :: "('c, 'r) pm \<Rightarrow> string \<Rightarrow> ('c, 'r) pm \<times> ('c, 'r) pm_out list" where
  "pm_clear_timer s i = (case om_get (pm_map s) i of None \<Rightarrow> (s, []) | Some a \<Rightarrow> drop_timer a s)"

record process_stats =
  st_total :: nat
  st_waiting :: "string list"
  st_starting :: "string list"
  st_running :: "string list"

fun add_stat :: "(nat \<Rightarrow> ('c, 'r) managed) \<Rightarrow> string \<times> nat \<Rightarrow> process_stats \<Rightarrow> process_stats" where
  "add_stat objs (i, a) st =
     (case pr_state (objs a) of
        Running \<Rightarrow> st\<lparr>st_running := st_running st @ [i]\<rparr>
      | Starting \<Rightarrow> st\<lparr>st_starting := st_starting st @ [i]\<rparr>
      | Waiting \<Rightarrow> st\<lparr>st_waiting := st_waiting st @ [i]\<rparr>)"

definition pm_stats :: "('c, 'r) pm \<Rightarrow> process_stats" where
  "pm_stats s = fold (add_stat (pm_objs s)) (pm_map s)
     \<lparr>st_total = length (pm_map s), st_waiting = [], st_starting = [], st_running = []\<rparr>"

definition pm_check_health :: "('c, 'r) pm \<Rightarrow> millis \<Rightarrow> string list" where
  "pm_check_health s now =
     (case pm_health s of
        None \<Rightarrow> []
      | Some limit \<Rightarrow> map fst (filter (\<lambda>e. pr_state (pm_objs s (snd e)) = Starting \<and>
          now - pr_start (pm_objs s (snd e)) > limit) (pm_map s)))"

section \<open>The manager as a machine\<close>

datatype 'c pm_event =
    Create string 'c "process_state option" "nat option" millis
  | Start string bool millis
  | StopCall string
  | Remove string
  | CleanupAll
  | SetState string process_state millis
  | SetTimer string nat
  | DropTimer string
  | ChildExit nat "int option" "string option"
  | ChildError nat
  | ChildMessage nat string
  | Resume nat bool millis

fun run_task :: "('c, 'r) pm \<Rightarrow> pm_task \<Rightarrow> bool \<Rightarrow> millis \<Rightarrow> ('c, 'r) pm \<times> ('c, 'r) pm_out list" where
  "run_task s (AfterCleanup a removing) ok now = after_cleanup s a removing ok"
| "run_task s (AfterStop a i) ok now = after_stop s a i"
| "run_task s (AfterSpawn k) ok now = pm_spawned s k ok"
| "run_task s (AfterError k exited) ok now = (if ok then after_error s k exited else (s, [UnhandledRejection]))"
| "run_task s (AfterDelay k) ok now = after_delay s k now"
| "run_task s (AfterReady k) ok now = (if ok then resolve_once k True s else (s, [UnhandledRejection]))"

fun pm_step :: "('c, 'r) pm \<Rightarrow> 'c pm_event \<Rightarrow> ('c, 'r) pm \<times> ('c, 'r) pm_out list" where
  "pm_step s (Create i ctx st cnt now) = pm_create s i ctx st cnt now"
| "pm_step s (Start i force now) = pm_start s i force [] now"
| "pm_step s (StopCall i) = pm_stop s i None"
| "pm_step s (Remove i) = pm_remove s i"
| "pm_step s CleanupAll = pm_cleanup s"
| "pm_step s (SetState i st now) = pm_set_state s i st now"
| "pm_step s (SetTimer i t) = pm_set_timer s i t"
| "pm_step s (DropTimer i) = pm_clear_timer s i"
| "pm_step s (ChildExit k code signal) = child_exit s k code signal"
| "pm_step s (ChildError k) = child_error s k"
| "pm_step s (ChildMessage k msg) = child_message s k msg"
| "pm_step s (Resume n ok now) =
     (if n < length (pm_tasks s)
      then run_task (s\<lparr>pm_tasks := remove_nth n (pm_tasks s)\<rparr>) (pm_tasks s ! n) ok now
      else (s, []))"

section \<open>What the operations leave alone\<close>

definition held :: "('c, 'r) pm \<Rightarrow> 'r multiset" where
  "held s = sum_list (map (\<lambda>e. mset (pr_res (pm_objs s (snd e)))) (pm_map s))"

definition total_resources :: "('c, 'r) pm \<Rightarrow> 'r multiset" where
  "total_resources s = (case pm_pool s of None \<Rightarrow> {#} | Some p \<Rightarrow> mset p) + held s"

fun removal_of :: "pm_task \<Rightarrow> (nat \<times> string) list" where
  "removal_of (AfterCleanup a (Some i)) = [(a, i)]"
| "removal_of (AfterStop a i) = [(a, i)]"
| "removal_of _ = []"

definition removals :: "pm_task list \<Rightarrow> (nat \<times> string) list" where
  "removals ts = concat (map removal_of ts)"

abbreviation pending_removals :: "('c, 'r) pm \<Rightarrow> (nat \<times> string) list" where
  "pending_removals s \<equiv> removals (pm_tasks s)"

lemma removals_simps [simp]:
  "removals [] = []" "removals (t # ts) = removal_of t @ removals ts" "removals (ts @ us) = removals ts @ removals us"
  by (simp_all add: removals_def)

text \<open>\<open>frame s t\<close>: \<open>t\<close> has the processes and resources of \<open>s\<close>, and no other removal is pending.\<close>

definition frame :: "('c, 'r) pm \<Rightarrow> ('c, 'r) pm \<Rightarrow> bool" where
  "frame s t \<longleftrightarrow> pm_map t = pm_map s \<and> pm_pool t = pm_pool s \<and> pm_next t = pm_next s \<and>
     (\<forall>a. pr_res (pm_objs t a) = pr_res (pm_objs s a)) \<and> pending_removals t = pending_removals s"

lemma frame_refl [simp]: "frame s s"
  by (simp add: frame_def)

lemma frame_trans: "frame s t \<Longrightarrow> frame t u \<Longrightarrow> frame s u"
  by (simp add: frame_def)

lemma frame_run [simp]: "frame s (upd_run k f s)"
  by (simp add: frame_def upd_run_def)

lemma frame_obj: "(\<And>p. pr_res (f p) = pr_res p) \<Longrightarrow> frame s (upd_obj a f s)"
  by (simp add: frame_def upd_obj_def)

lemma frame_task [simp]: "removal_of t = [] \<Longrightarrow> frame s (add_task t s)"
  by (simp add: frame_def add_task_def)

lemma frame_drop_timer [simp]: "frame s (fst (drop_timer a s))"
  by (simp add: drop_timer_def frame_obj)

lemma frame_unlisten [simp]: "frame s (unlisten k s)"
  by (simp add: unlisten_def)

lemma frame_resolve [simp]: "frame s (fst (resolve_chain ks v s))"
proof (induction ks arbitrary: s)
  case (Cons k ks)
  have "frame s (fst (resolve_chain ks v (upd_run k (\<lambda>n. n\<lparr>rn_resolved := True\<rparr>) s)))"
    by (rule frame_trans [OF frame_run Cons.IH])
  then show ?case by (simp add: Let_def)
qed simp

lemma frame_resolve_once [simp]: "frame s (fst (resolve_once k v s))"
  by (simp add: resolve_once_def)

lemma frame_start: "frame s (fst (pm_start s i force ks now))"
  by (auto simp: pm_start_def Let_def frame_def add_task_def drop_timer_def upd_obj_def split: option.splits
      simp: frame_resolve [unfolded frame_def])

lemma frame_spawned: "frame s (fst (pm_spawned s k ok))"
  by (auto simp: pm_spawned_def Let_def frame_def upd_obj_def upd_run_def split: option.splits
      simp: frame_resolve_once [unfolded frame_def])

lemma frame_handle_error: "frame s (fst (handle_error s k e))"
  by (auto simp: handle_error_def intro: frame_trans [OF frame_unlisten frame_task])

lemma frame_after_error: "frame s (fst (after_error s k e))"
  by (simp add: after_error_def)

lemma frame_after_delay: "frame s (fst (after_delay s k now))"
  by (simp add: after_delay_def frame_start)

lemma frame_handle_ready: "frame s (fst (handle_ready s k))"
  by (auto simp: handle_ready_def Let_def frame_def add_task_def drop_timer_def upd_obj_def split: option.splits
      simp: frame_resolve_once [unfolded frame_def])

lemma frame_child: "frame s (fst (child_exit s k code sig))" "frame s (fst (child_error s k))" "frame s (fst (child_message s k msg))"
proof -
  show "frame s (fst (child_exit s k code sig))"
    using frame_trans [OF frame_unlisten frame_resolve_once] frame_trans [OF frame_unlisten frame_handle_error]
    by (auto simp: child_exit_def Let_def)
  show "frame s (fst (child_error s k))" using frame_handle_error by (auto simp: child_error_def)
  show "frame s (fst (child_message s k msg))"
    using frame_trans [OF frame_handle_ready frame_run] by (auto simp: child_message_def Let_def)
qed

lemma frame_set: "frame s (fst (pm_set_state s i st now))" "frame s (fst (pm_set_timer s i t))" "frame s (fst (pm_clear_timer s i))"
  by (auto simp: pm_set_state_def pm_set_timer_def pm_clear_timer_def Let_def frame_def drop_timer_def upd_obj_def split: option.splits)

section \<open>Resources are neither lost nor duplicated\<close>

text \<open>
  Every removal that is pending is of a process that is still in the map, and there is one at
  most per process.
\<close>

definition pm_inv :: "('c, 'r) pm \<Rightarrow> bool" where
  "pm_inv s \<longleftrightarrow> om_ok (pm_map s) \<and> distinct (map snd (pm_map s)) \<and> (\<forall>a \<in> snd ` set (pm_map s). a < pm_next s) \<and>
     distinct (map snd (pending_removals s)) \<and> (\<forall>x \<in> set (pending_removals s). om_get (pm_map s) (snd x) = Some (fst x)) \<and>
     (pm_pool s = None \<longrightarrow> held s = {#})"

lemma held_frame: "frame s t \<Longrightarrow> held t = held s"
  by (simp add: frame_def held_def)

lemma frame_inv: "frame s t \<Longrightarrow> pm_inv s \<Longrightarrow> pm_inv t \<and> total_resources t = total_resources s"
  using held_frame [of s t] by (simp add: frame_def pm_inv_def total_resources_def)

lemma om_get_mem: "om_get m i = Some a \<Longrightarrow> (i, a) \<in> set m"
  by (simp add: om_get_def map_of_SomeD)

lemma held_remove:
  assumes "om_ok (pm_map s)" and "om_get (pm_map s) i = Some a"
  shows "held s = mset (pr_res (pm_objs s a)) + sum_list (map (\<lambda>e. mset (pr_res (pm_objs s (snd e)))) (om_del i (pm_map s)))"
proof -
  have "om_ok m \<Longrightarrow> om_get m i = Some a \<Longrightarrow>
      sum_list (map f m) = f (i, a) + sum_list (map f (om_del i m))" for m and f :: "_ \<Rightarrow> 'b multiset"
  proof (induction m)
    case (Cons e m)
    show ?case
    proof (cases "fst e = i")
      case True
      then have "om_del i m = m" "e = (i, a)" using Cons.prems
        by (auto simp: om_ok_def om_get_def om_del_def AList.delete_eq filter_id_conv split: if_splits)
          (metis fst_conv image_eqI)
      then show ?thesis using True by (simp add: om_del_def AList.delete_eq)
    next
      case False
      then show ?thesis using Cons
        by (cases e) (simp add: om_ok_def om_get_def om_del_def AList.delete_eq ac_simps split: if_splits)
    qed
  qed (simp add: om_get_def)
  from this [OF assms, of "\<lambda>e. mset (pr_res (pm_objs s (snd e)))"] show ?thesis by (simp add: held_def)
qed

lemma map_snd_del: "distinct (map snd m) \<Longrightarrow> distinct (map snd (om_del i m))"
  by (induction m) (auto simp: om_del_def AList.delete_eq)

lemma om_del_subset: "set (om_del i m) \<subseteq> set m"
  by (auto simp: om_del_def AList.delete_eq)

lemma after_stop_inv:
  assumes "pm_inv s" and "om_get (pm_map s) i = Some a" and "i \<notin> snd ` set (pending_removals s)"
  shows "pm_inv (fst (after_stop s a i)) \<and> total_resources (fst (after_stop s a i)) = total_resources s"
proof -
  let ?s1 = "fst (drop_timer a s)"
  have f: "pm_map ?s1 = pm_map s" "pm_pool ?s1 = pm_pool s" "pm_next ?s1 = pm_next s"
    "pr_res (pm_objs ?s1 b) = pr_res (pm_objs s b)" "pending_removals ?s1 = pending_removals s" for b
    using frame_drop_timer [of s a] by (simp_all add: frame_def)
  have h: "held s = mset (pr_res (pm_objs s a)) + sum_list (map (\<lambda>e. mset (pr_res (pm_objs s (snd e)))) (om_del i (pm_map s)))"
    using assms(1,2) by (intro held_remove) (simp_all add: pm_inv_def)
  have inv: "om_ok (om_del i (pm_map s))" "distinct (map snd (om_del i (pm_map s)))"
    "\<forall>b \<in> snd ` set (om_del i (pm_map s)). b < pm_next s"
    "\<forall>x \<in> set (pending_removals s). om_get (om_del i (pm_map s)) (snd x) = Some (fst x)"
    using assms(1,3) map_snd_del om_del_subset [of i "pm_map s"] by (auto simp: pm_inv_def image_iff)
  show ?thesis
  proof (cases "pm_pool s")
    case None
    then have "held s = {#}" using assms(1) by (simp add: pm_inv_def)
    then show ?thesis using None h inv f assms(1)
      by (simp add: after_stop_def Let_def pm_inv_def total_resources_def held_def)
  next
    case (Some p)
    have "\<forall>x \<in> set (pending_removals s). snd x \<noteq> i" using assms(3) by auto
    then show ?thesis using Some h inv f assms(1)
      by (simp add: after_stop_def Let_def pm_inv_def total_resources_def held_def pool_release_def ac_simps)
  qed
qed

lemma insert_inv:
  assumes "pm_inv s" and "\<not> pm_has s i" and "pm_pool s = None \<longrightarrow> res = []"
  shows "pm_inv (pm_insert s i ctx st res now) \<and> total_resources (pm_insert s i ctx st res now) = mset res + total_resources s"
proof -
  let ?t = "pm_insert s i ctx st res now"
  have map: "pm_map ?t = pm_map s @ [(i, pm_next s)]"
  proof -
    have "i \<notin> fst ` set m \<Longrightarrow> om_set i b m = m @ [(i, b)]" for m and b :: nat
      by (induction m) (auto simp: om_set_def)
    then show ?thesis using assms(2) by (simp add: pm_insert_def pm_has_def om_has_keys om_keys_def)
  qed
  have lt: "\<forall>e \<in> set (pm_map s). snd e < pm_next s" using assms(1) by (auto simp: pm_inv_def)
  have "held ?t = held s + mset res"
  proof -
    have "map (\<lambda>e. mset (pr_res (pm_objs ?t (snd e)))) (pm_map s) = map (\<lambda>e. mset (pr_res (pm_objs s (snd e)))) (pm_map s)"
      using lt by (intro map_cong) (auto simp: pm_insert_def)
    then have "held ?t = held s + mset (pr_res (pm_objs ?t (pm_next s)))"
      unfolding held_def map map_append sum_list_append by (simp only: list.map sum_list.Cons sum_list.Nil snd_conv add_0_right)
    then show ?thesis by (simp add: pm_insert_def)
  qed
  moreover have "om_ok (pm_map ?t)" using assms(1) by (simp add: pm_insert_def pm_inv_def)
  moreover have "distinct (map snd (pm_map ?t))" using assms(1) lt by (force simp: map pm_inv_def)
  moreover have "\<forall>x \<in> set (pending_removals s). om_get (pm_map ?t) (snd x) = Some (fst x)"
    using assms(1,2) by (auto simp: pm_insert_def pm_inv_def pm_has_def om_has_def)
  moreover have "pm_pool ?t = pm_pool s" "pm_next ?t = Suc (pm_next s)" "pm_tasks ?t = pm_tasks s" by (simp_all add: pm_insert_def)
  ultimately show ?thesis using assms(1,3) lt by (auto simp: pm_inv_def total_resources_def map less_SucI)
qed

lemma create_inv:
  assumes "pm_inv s"
  shows "pm_inv (fst (pm_create s i ctx st cnt now)) \<and> total_resources (fst (pm_create s i ctx st cnt now)) = total_resources s"
proof (cases "pm_has s i")
  case True
  then show ?thesis using assms by (simp add: pm_create_def)
next
  case False
  show ?thesis
  proof (cases "\<exists>pool n. pm_pool s = Some pool \<and> cnt = Some n \<and> n \<noteq> 0")
    case False2: False
    then have "fst (pm_create s i ctx st cnt now) = pm_insert s i ctx st [] now"
      using False by (auto simp: pm_create_def split: option.splits)
    then show ?thesis using insert_inv [OF assms False, of "[]"] by simp
  next
    case True
    then obtain pool n where p: "pm_pool s = Some pool" "cnt = Some n" "n \<noteq> 0" by blast
    show ?thesis
    proof (cases "length pool < n")
      case True
      then show ?thesis using p False assms by (simp add: pm_create_def pool_allocate_def)
    next
      case False2: False
      let ?s = "s\<lparr>pm_pool := Some (drop n pool)\<rparr>"
      have "pm_inv ?s" using assms p by (simp add: pm_inv_def)
      moreover have "\<not> pm_has ?s i" using False by (simp add: pm_has_def)
      ultimately have "pm_inv (pm_insert ?s i ctx st (take n pool) now) \<and>
          total_resources (pm_insert ?s i ctx st (take n pool) now) = mset (take n pool) + total_resources ?s"
        by (intro insert_inv) simp_all
      moreover have "held ?s = held s" by (simp add: held_def)
      moreover have "mset (take n pool) + mset (drop n pool) = mset pool" by (simp flip: mset_append)
      ultimately show ?thesis using p False False2
        by (simp add: pm_create_def pool_allocate_def total_resources_def add.assoc [symmetric])
    qed
  qed
qed

text \<open>What keeps the resources: no process is removed again while its removal is pending.\<close>

fun serial_removal :: "('c, 'r) pm \<Rightarrow> 'c pm_event \<Rightarrow> bool" where
  "serial_removal s (Remove i) = (i \<notin> snd ` set (pending_removals s))"
| "serial_removal s CleanupAll = (pending_removals s = [])"
| "serial_removal s e = True"

lemma remove_inv:
  assumes "pm_inv s" and "i \<notin> snd ` set (pending_removals s)"
  shows "pm_inv (fst (pm_remove s i)) \<and> total_resources (fst (pm_remove s i)) = total_resources s \<and>
    set (pending_removals (fst (pm_remove s i))) \<subseteq> set (pending_removals s) \<union> {x. snd x = i} \<and> pm_map (fst (pm_remove s i)) = pm_map s"
  using assms
  by (auto simp: pm_remove_def pm_stop_def add_task_def pm_inv_def total_resources_def held_def split: option.splits)

lemma remove_all_inv:
  assumes "pm_inv s" and "distinct is" and "snd ` set (pending_removals s) \<inter> set is = {}"
  shows "pm_inv (fst (pm_remove_all s is)) \<and> total_resources (fst (pm_remove_all s is)) = total_resources s"
  using assms
proof (induction "is" arbitrary: s)
  case (Cons i "is")
  have r: "pm_inv (fst (pm_remove s i)) \<and> total_resources (fst (pm_remove s i)) = total_resources s \<and>
    set (pending_removals (fst (pm_remove s i))) \<subseteq> set (pending_removals s) \<union> {x. snd x = i}"
    using remove_inv [OF Cons.prems(1), of i] Cons.prems(3) by auto
  then have "snd ` set (pending_removals (fst (pm_remove s i))) \<inter> set is = {}" using Cons.prems(2,3) by fastforce
  then show ?case using Cons.IH [of "fst (pm_remove s i)"] r Cons.prems(2) by (simp add: Let_def)
qed simp

lemma removals_remove_nth:
  assumes "n < length ts"
  shows "\<exists>xs ys. removals ts = xs @ removal_of (ts ! n) @ ys \<and> removals (remove_nth n ts) = xs @ ys"
proof -
  have "ts = take n ts @ ts ! n # drop (Suc n) ts" using assms by (simp add: id_take_nth_drop)
  then have "removals ts = removals (take n ts) @ removal_of (ts ! n) @ removals (drop (Suc n) ts)"
    by (metis removals_simps(2,3))
  then show ?thesis by (auto simp: remove_nth_def)
qed

lemma resume_inv:
  assumes "pm_inv s" and "n < length (pm_tasks s)"
  shows "pm_inv (fst (pm_step s (Resume n ok now))) \<and> total_resources (fst (pm_step s (Resume n ok now))) = total_resources s"
proof -
  let ?s = "s\<lparr>pm_tasks := remove_nth n (pm_tasks s)\<rparr>"
  obtain xs ys where r: "pending_removals s = xs @ removal_of (pm_tasks s ! n) @ ys" "pending_removals ?s = xs @ ys"
    using removals_remove_nth [OF assms(2)] by auto
  have h: "held ?s = held s" by (simp add: held_def)
  have i: "pm_inv ?s" "total_resources ?s = total_resources s"
    using assms(1) r h by (auto simp: pm_inv_def total_resources_def)
  have fr: "pm_inv (fst x) \<and> total_resources (fst x) = total_resources s" if "frame ?s (fst x)" for x :: "('a, 'b) pm \<times> ('a, 'b) pm_out list"
    using frame_inv [OF that i(1)] i(2) by simp
  show ?thesis
  proof (cases "pm_tasks s ! n")
    case (AfterCleanup a removing)
    have k: "frame ?s (fst (terminate_child ?s a))" by (simp add: terminate_child_def split: option.splits)
    note t = frame_inv [OF k i(1)]
    show ?thesis
    proof (cases removing)
      case None
      then show ?thesis using assms(2) AfterCleanup i t by (simp add: after_cleanup_def Let_def)
    next
      case (Some j)
      let ?t = "fst (terminate_child ?s a)"
      have "pending_removals ?t = xs @ ys" "pm_map ?t = pm_map s" using k r(2) by (simp_all add: frame_def)
      moreover have "distinct (map snd (xs @ (a, j) # ys))" "om_get (pm_map s) j = Some a"
        using assms(1) r(1) AfterCleanup Some by (simp_all add: pm_inv_def)
      ultimately have "pm_inv (add_task (AfterStop a j) ?t)" "total_resources (add_task (AfterStop a j) ?t) = total_resources ?t"
        using t by (auto simp: add_task_def pm_inv_def total_resources_def held_def)
      then show ?thesis using assms(2) AfterCleanup Some i t by (simp add: after_cleanup_def Let_def)
    qed
  next
    case (AfterStop a j)
    then have "j \<notin> snd ` set (pending_removals ?s)" "om_get (pm_map ?s) j = Some a"
      using assms(1) r by (auto simp: pm_inv_def)
    then show ?thesis using after_stop_inv [OF i(1)] i(2) assms(2) AfterStop by simp
  next
    case (AfterSpawn k)
    then show ?thesis using fr [OF frame_spawned] assms(2) by simp
  next
    case (AfterError k ex)
    then show ?thesis using fr [OF frame_after_error] i assms(2) by simp
  next
    case (AfterDelay k)
    then show ?thesis using fr [OF frame_after_delay] assms(2) by simp
  next
    case (AfterReady k)
    then show ?thesis using fr [OF frame_resolve_once] i assms(2) by simp
  qed
qed

lemma pm_step_inv:
  assumes "pm_inv s" and "serial_removal s e"
  shows "pm_inv (fst (pm_step s e)) \<and> total_resources (fst (pm_step s e)) = total_resources s"
proof (cases e)
  case (Create i ctx st cnt now)
  then show ?thesis using create_inv [OF assms(1)] by simp
next
  case (StopCall i)
  have "frame s (fst (pm_stop s i None))" by (simp add: pm_stop_def split: option.splits)
  then show ?thesis using StopCall frame_inv assms(1) by auto
next
  case (Remove i)
  then show ?thesis using remove_inv [OF assms(1)] assms(2) by simp
next
  case CleanupAll
  then show ?thesis using remove_all_inv [OF assms(1), of "om_keys (pm_map s)"] assms
    by (simp add: pm_cleanup_def pm_inv_def om_ok_def om_keys_def)
next
  case (Resume n ok now)
  then show ?thesis using resume_inv [OF assms(1)] assms(1) by (cases "n < length (pm_tasks s)") auto
next
  case (Start i force now)
  then show ?thesis using frame_inv [OF frame_start assms(1)] by simp
next
  case (SetState i st now)
  then show ?thesis using frame_inv [OF frame_set(1) assms(1)] by simp
next
  case (SetTimer i t)
  then show ?thesis using frame_inv [OF frame_set(2) assms(1)] by simp
next
  case (DropTimer i)
  then show ?thesis using frame_inv [OF frame_set(3) assms(1)] by simp
next
  case (ChildExit k code sig)
  then show ?thesis using frame_inv [OF frame_child(1) assms(1)] by simp
next
  case (ChildError k)
  then show ?thesis using frame_inv [OF frame_child(2) assms(1)] by simp
next
  case (ChildMessage k msg)
  then show ?thesis using frame_inv [OF frame_child(3) assms(1)] by simp
qed

section \<open>Every promise of start is settled once\<close>

definition answered :: "nat \<Rightarrow> ('c, 'r) pm_out list \<Rightarrow> nat" where
  "answered k out = length (filter (\<lambda>x. x = Resolved k True \<or> x = Resolved k False) out)"

definition flag :: "nat \<Rightarrow> ('c, 'r) pm \<Rightarrow> nat" where
  "flag k s = (if rn_resolved (pm_runs s k) then 1 else 0)"

definition runs_ok :: "('c, 'r) pm \<Rightarrow> bool" where
  "runs_ok s \<longleftrightarrow> (\<forall>k. set (rn_chain (pm_runs s k)) \<subseteq> {..<pm_nrun s}) \<and>
     (\<forall>k \<ge> pm_nrun s. \<not> rn_resolved (pm_runs s k))"

text \<open>\<open>acct s t out\<close>: a step from \<open>s\<close> to \<open>t\<close> settles, in \<open>out\<close>, the runs that are newly marked.\<close>

definition acct :: "('c, 'r) pm \<Rightarrow> ('c, 'r) pm \<Rightarrow> ('c, 'r) pm_out list \<Rightarrow> bool" where
  "acct s t out \<longleftrightarrow> runs_ok t \<and> (\<forall>k. answered k out + flag k s = flag k t)"

lemma answered_simps [simp]:
  "answered k [] = 0" "answered k (xs @ ys) = answered k xs + answered k ys"
  "answered k (x # xs) = (if x = Resolved k True \<or> x = Resolved k False then 1 else 0) + answered k xs"
  by (auto simp: answered_def)

lemma acct_trans: "acct s t o1 \<Longrightarrow> acct t u o2 \<Longrightarrow> acct s u (o1 @ o2)"
  by (auto simp: acct_def add.assoc) (metis add.assoc add.commute)

lemma acct_same:
  assumes "runs_ok s" and "pm_runs t = pm_runs s" and "pm_nrun t = pm_nrun s" and "\<And>k. answered k out = 0"
  shows "acct s t out"
  using assms by (simp add: acct_def runs_ok_def flag_def)

lemma acct_resolve:
  assumes "runs_ok s" and "set ks \<subseteq> {..<pm_nrun s}"
  shows "acct s (fst (resolve_chain ks v s)) (snd (resolve_chain ks v s))"
  using assms
proof (induction ks arbitrary: s)
  case Nil
  then show ?case by (simp add: acct_def)
next
  case (Cons k ks)
  show ?case
  proof (cases "rn_resolved (pm_runs s k)")
    case True
    then show ?thesis using Cons.prems by (simp add: acct_def)
  next
    case False
    let ?s = "upd_run k (\<lambda>n. n\<lparr>rn_resolved := True\<rparr>) s"
    have a: "acct s ?s [Resolved k v]"
      using Cons.prems False by (cases v) (auto simp: acct_def runs_ok_def flag_def upd_run_def)
    moreover have "acct ?s (fst (resolve_chain ks v ?s)) (snd (resolve_chain ks v ?s))"
      using Cons.prems(2) a by (intro Cons.IH) (auto simp: acct_def upd_run_def)
    ultimately show ?thesis using False acct_trans [of s ?s "[Resolved k v]"] by (simp add: Let_def)
  qed
qed

lemma acct_once: "runs_ok s \<Longrightarrow> acct s (fst (resolve_once k v s)) (snd (resolve_once k v s))"
  unfolding resolve_once_def by (rule acct_resolve) (simp_all add: runs_ok_def)

lemma acct_run:
  assumes "runs_ok s" and "\<And>n. rn_resolved (f n) = rn_resolved n" and "\<And>n. rn_chain (f n) = rn_chain n"
  shows "acct s (upd_run k f s) []"
  using assms by (auto simp: acct_def runs_ok_def flag_def upd_run_def)

lemma runs_drop_timer [simp]: "pm_runs (fst (drop_timer a s)) = pm_runs s" "pm_nrun (fst (drop_timer a s)) = pm_nrun s"
  "answered k (snd (drop_timer a s)) = 0"
  by (auto simp: drop_timer_def upd_obj_def split: option.splits)

lemma runs_upd_obj [simp]: "pm_runs (upd_obj a f s) = pm_runs s" "pm_nrun (upd_obj a f s) = pm_nrun s"
  by (simp_all add: upd_obj_def)

lemma runs_add_task [simp]: "pm_runs (add_task t s) = pm_runs s" "pm_nrun (add_task t s) = pm_nrun s"
  by (simp_all add: add_task_def)

lemma acct_start:
  assumes "runs_ok s" and "set ks \<subseteq> {..<pm_nrun s}"
  shows "acct s (fst (pm_start s i force ks now)) (snd (pm_start s i force ks now))"
proof (cases "om_get (pm_map s) i")
  case None
  then show ?thesis using acct_resolve [OF assms, of False] by (simp add: pm_start_def Let_def acct_def)
next
  case (Some a)
  show ?thesis
  proof (cases "\<not> force \<and> pr_state (pm_objs s a) = Running")
    case True
    then show ?thesis using Some acct_resolve [OF assms, of True] by (simp add: pm_start_def Let_def acct_def)
  next
    case False
    then show ?thesis using Some assms
      by (simp add: pm_start_def Let_def acct_def runs_ok_def flag_def) (force simp: less_SucI)
  qed
qed

lemma acct_unlisten: "runs_ok s \<Longrightarrow> acct s (unlisten k s) []"
  unfolding unlisten_def by (rule acct_run) simp_all

lemma acct_handle_error: "runs_ok s \<Longrightarrow> acct s (fst (handle_error s k e)) (snd (handle_error s k e))"
  using acct_unlisten [of s k] by (simp add: handle_error_def acct_def runs_ok_def flag_def)

lemma acct_handle_ready: "runs_ok s \<Longrightarrow> acct s (fst (handle_ready s k)) (snd (handle_ready s k))"
  using acct_once [of s k False]
  by (auto simp: handle_ready_def Let_def split: option.splits intro!: acct_same)

lemma acct_spawned: "runs_ok s \<Longrightarrow> acct s (fst (pm_spawned s k ok)) (snd (pm_spawned s k ok))"
  using acct_once [of s k False] acct_run [of s "\<lambda>n. n\<lparr>rn_listening := True, rn_messages := True\<rparr>" k]
  by (auto simp: pm_spawned_def Let_def acct_def runs_ok_def flag_def split: option.splits)

lemma acct_then: "acct s t [] \<Longrightarrow> (runs_ok t \<Longrightarrow> acct t (fst r) (snd r)) \<Longrightarrow> acct s (fst r) (snd r)"
  using acct_trans [of s t "[]" "fst r" "snd r"] by (simp add: acct_def)

lemma acct_child_exit: "runs_ok s \<Longrightarrow> acct s (fst (child_exit s k code sig)) (snd (child_exit s k code sig))"
  using acct_then [OF acct_unlisten acct_once, of s k] acct_then [OF acct_unlisten acct_handle_error, of s k]
  by (auto simp: child_exit_def Let_def intro: acct_same)

lemma acct_child_message: "runs_ok s \<Longrightarrow> acct s (fst (child_message s k msg)) (snd (child_message s k msg))"
  using acct_trans [OF acct_handle_ready acct_run, of s k "\<lambda>n. n\<lparr>rn_messages := False\<rparr>" k] acct_handle_ready [of s k]
  by (auto simp: child_message_def Let_def acct_def intro: acct_same)

lemma acct_run_task:
  assumes "runs_ok s"
  shows "acct s (fst (run_task s t ok now)) (snd (run_task s t ok now))"
proof (cases t)
  case (AfterCleanup a removing)
  have "acct s (fst (terminate_child s a)) (snd (terminate_child s a))"
    using assms acct_unlisten [OF assms] by (auto simp: terminate_child_def acct_def split: option.splits)
  then show ?thesis using AfterCleanup assms
    by (auto simp: after_cleanup_def Let_def acct_def runs_ok_def flag_def split: option.splits)
next
  case (AfterStop a i)
  then show ?thesis using assms
    by (auto simp: after_stop_def Let_def split: option.splits intro!: acct_same)
next
  case (AfterSpawn k)
  then show ?thesis using acct_spawned [OF assms] by simp
next
  case (AfterError k ex)
  then show ?thesis using acct_once [OF assms] assms by (auto simp: after_error_def intro: acct_same)
next
  case (AfterDelay k)
  then show ?thesis using acct_once [OF assms] acct_start [OF assms] assms by (auto simp: after_delay_def runs_ok_def)
next
  case (AfterReady k)
  then show ?thesis using acct_once [OF assms] assms by (auto intro: acct_same)
qed

lemma answered_stop [simp]: "answered k (snd (pm_stop s i r)) = 0"
  by (simp add: pm_stop_def split: option.splits)

lemma runs_stop [simp]: "pm_runs (fst (pm_stop s i r)) = pm_runs s" "pm_nrun (fst (pm_stop s i r)) = pm_nrun s"
  by (simp_all add: pm_stop_def split: option.splits)

lemma runs_remove_all [simp]:
  "pm_runs (fst (pm_remove_all s is)) = pm_runs s \<and> pm_nrun (fst (pm_remove_all s is)) = pm_nrun s \<and>
   answered k (snd (pm_remove_all s is)) = 0"
  by (induction "is" arbitrary: s) (auto simp: pm_remove_def Let_def)

lemma acct_step:
  assumes "runs_ok s"
  shows "acct s (fst (pm_step s e)) (snd (pm_step s e))"
proof (cases e)
  case (Create i ctx st cnt now)
  then show ?thesis using assms
    by (auto simp: pm_create_def pm_insert_def split: option.splits intro!: acct_same)
next
  case (Start i force now)
  then show ?thesis using acct_start [OF assms, of "[]"] by simp
next
  case (ChildExit k code sig)
  then show ?thesis using acct_child_exit [OF assms] by simp
next
  case (ChildError k)
  then show ?thesis using acct_handle_error [OF assms] assms by (auto simp: child_error_def intro: acct_same)
next
  case (ChildMessage k msg)
  then show ?thesis using acct_child_message [OF assms] by simp
next
  case (Resume n ok now)
  have "runs_ok (s\<lparr>pm_tasks := remove_nth n (pm_tasks s)\<rparr>)" using assms by (simp add: runs_ok_def)
  from acct_run_task [OF this] show ?thesis using Resume assms by (auto simp: acct_def flag_def intro: acct_same)
next
  case (SetState i st now)
  then show ?thesis using assms by (auto simp: pm_set_state_def Let_def split: option.splits intro!: acct_same)
next
  case (SetTimer i t)
  then show ?thesis using assms by (auto simp: pm_set_timer_def Let_def split: option.splits intro!: acct_same)
next
  case (DropTimer i)
  then show ?thesis using assms by (auto simp: pm_clear_timer_def split: option.splits intro!: acct_same)
next
  case CleanupAll
  then show ?thesis using assms runs_remove_all [of s] by (auto simp: pm_cleanup_def intro!: acct_same)
qed (use assms in \<open>auto simp: pm_remove_def intro!: acct_same\<close>)

interpretation runs: invariant_machine pm_step runs_ok
  by unfold_locales (use acct_step in \<open>auto simp: acct_def\<close>)

section \<open>Properties\<close>

text \<open>The states the manager reaches while no process is removed again before its removal has ended.\<close>

inductive pm_reach :: "'r list option \<Rightarrow> millis option \<Rightarrow> 'c \<Rightarrow> ('c, 'r) pm \<Rightarrow> bool"
  for pool :: "'r list option" and health :: "millis option" and c :: 'c where
  pm_init: "pm_reach pool health c (pm_new pool health c)"
| pm_next_state: "pm_reach pool health c s \<Longrightarrow> serial_removal s e \<Longrightarrow> pm_reach pool health c (fst (pm_step s e))"

lemma pm_reach_inv:
  "pm_reach pool health c s \<Longrightarrow>
   pm_inv s \<and> total_resources s = (case pool of None \<Rightarrow> {#} | Some p \<Rightarrow> mset p)"
proof (induction rule: pm_reach.induct)
  case pm_init
  show ?case by (simp add: pm_inv_def pm_new_def total_resources_def held_def)
next
  case (pm_next_state s e)
  then show ?case using pm_step_inv [of s e] by simp
qed

lemma distinct_parts:
  assumes "mset xs + mset ys + M = mset zs" and "distinct zs"
  shows "set xs \<inter> set ys = {}"
proof (rule ccontr)
  assume "set xs \<inter> set ys \<noteq> {}"
  then obtain x where "x \<in> set xs" "x \<in> set ys" by blast
  then have "1 \<le> count (mset xs) x" "1 \<le> count (mset ys) x" by (simp_all add: Suc_le_eq)
  moreover have "count (mset zs) x \<le> 1" using assms(2) by (auto simp: distinct_count_atmost_1)
  moreover have "count (mset zs) x = count (mset xs) x + count (mset ys) x + count M x"
    using assms(1) by (metis count_union)
  ultimately show False by linarith
qed

lemma held_two:
  assumes "pm_inv s" and "om_get (pm_map s) i = Some a" and "om_get (pm_map s) j = Some b" and "i \<noteq> j"
  shows "\<exists>M. held s = mset (pr_res (pm_objs s a)) + mset (pr_res (pm_objs s b)) + M"
proof -
  have h: "held s = mset (pr_res (pm_objs s a)) + held (s\<lparr>pm_map := om_del i (pm_map s)\<rparr>)"
    using held_remove [of s i a] assms(1,2) by (simp add: pm_inv_def held_def)
  have "om_ok (om_del i (pm_map s))" "om_get (om_del i (pm_map s)) j = Some b" using assms by (simp_all add: pm_inv_def)
  then have "held (s\<lparr>pm_map := om_del i (pm_map s)\<rparr>) = mset (pr_res (pm_objs s b)) +
      sum_list (map (\<lambda>e. mset (pr_res (pm_objs s (snd e)))) (om_del j (om_del i (pm_map s))))"
    using held_remove [of "s\<lparr>pm_map := om_del i (pm_map s)\<rparr>" j b] by simp
  then show ?thesis using h by (auto simp: add.assoc)
qed

text \<open>
  C3. No port is lost and none is given to two processes: in every state reached while
  removals of a process do not overlap, the pool and the processes in the map together hold
  exactly the initial resources; so with pairwise different resources no two processes share
  one and none that is in use is in the pool.
\<close>

theorem resources_are_conserved:
  assumes "pm_reach (Some pool) health c s"
  shows "total_resources s = mset pool \<and>
    (distinct pool \<and> pm_get s i = Some p \<and> pm_get s j = Some q \<and> i \<noteq> j \<longrightarrow>
       set (pr_res p) \<inter> set (pr_res q) = {} \<and> set (pr_res p) \<inter> set (case pm_pool s of None \<Rightarrow> [] | Some f \<Rightarrow> f) = {})"
proof -
  have inv: "pm_inv s" and t: "total_resources s = mset pool" using pm_reach_inv [OF assms] by simp_all
  let ?f = "case pm_pool s of None \<Rightarrow> [] | Some f \<Rightarrow> f"
  have f: "mset ?f + held s = mset pool" using t by (simp add: total_resources_def split: option.splits)
  have "set (pr_res p) \<inter> set (pr_res q) = {} \<and> set (pr_res p) \<inter> set ?f = {}"
    if d: "distinct pool" and p: "pm_get s i = Some p" and q: "pm_get s j = Some q" and ij: "i \<noteq> j"
  proof -
    obtain a b where ab: "om_get (pm_map s) i = Some a" "p = pm_objs s a" "om_get (pm_map s) j = Some b" "q = pm_objs s b"
      using p q by (auto simp: pm_get_def)
    obtain M where "held s = mset (pr_res p) + mset (pr_res q) + M"
      using held_two [OF inv ab(1,3) ij] ab(2,4) by blast
    then have "mset (pr_res p) + mset (pr_res q) + (M + mset ?f) = mset pool"
      and "mset (pr_res p) + mset ?f + (M + mset (pr_res q)) = mset pool"
      using f by (simp_all add: ac_simps)
    then show ?thesis using distinct_parts d by blast
  qed
  then show ?thesis using t by blast
qed

lemma overlapping_removals:
  assumes "om_get (pm_map s) i = Some a" and "pm_tasks s = []" and "pm_pool s = Some pool"
    and "pr_res (pm_objs s a) \<noteq> []"
  shows "pm_pool (fst (run pm_step s [Remove i, Remove i, Resume 0 True t, Resume 0 True t, Resume 0 True t, Resume 0 True t])) =
    Some (pool @ pr_res (pm_objs s a) @ pr_res (pm_objs s a))"
  using assms
  by (simp add: pm_remove_def pm_stop_def add_task_def remove_nth_def after_cleanup_def terminate_child_def after_stop_def
      drop_timer_def upd_obj_def unlisten_def upd_run_def pool_release_def Let_def split: option.splits)

text \<open>
  Overlapping removals break this: a second call of \<open>remove\<close> before the first has passed
  its \<open>await\<close> releases the same resources again, so afterwards the pool has each of them twice
  and hands them to two processes.
\<close>

theorem double_remove_duplicates:
  assumes "om_get (pm_map s) i = Some a" and "pm_tasks s = []" and "pm_pool s = Some pool"
    and "pr_res (pm_objs s a) \<noteq> []"
  shows "pm_pool (fst (run pm_step s [Remove i, Remove i, Resume 0 True 0, Resume 0 True 0, Resume 0 True 0, Resume 0 True 0])) =
    Some (pool @ pr_res (pm_objs s a) @ pr_res (pm_objs s a))"
  by (rule overlapping_removals [OF assms])

text \<open>
  A call of \<open>start\<close> answers at most once: in every run, whatever the children do and in
  whatever order the awaited callbacks end, no promise is settled twice, restarts included.
\<close>

theorem start_settles_once:
  "answered k (snd (run pm_step (pm_new pool health c) es)) \<le> 1"
proof -
  have "answered k (snd (run pm_step s es)) + flag k s = flag k (fst (run pm_step s es))" if "runs_ok s" for s
    using that
  proof (induction es arbitrary: s)
    case (Cons e es)
    have a: "acct s (fst (pm_step s e)) (snd (pm_step s e))" by (rule acct_step [OF Cons.prems])
    then have "runs_ok (fst (pm_step s e))" and "answered k (snd (pm_step s e)) + flag k s = flag k (fst (pm_step s e))"
      by (simp_all add: acct_def)
    then show ?case using Cons.IH [of "fst (pm_step s e)"] by (simp add: Let_def)
  qed simp
  moreover have "runs_ok (pm_new pool health c)" by (simp add: runs_ok_def pm_new_def)
  ultimately have "answered k (snd (run pm_step (pm_new pool health c) es)) + flag k (pm_new pool health c) =
      flag k (fst (run pm_step (pm_new pool health c) es))" by blast
  then show ?thesis by (simp add: flag_def split: if_splits)
qed

text \<open>
  A child that dies with an error code is started again: the error callback runs, after
  the delay the process is spawned again with its own resources, and once the new child says
  \<open>ready\<close> the process is running and the promise of the first start resolves with success.
\<close>

theorem crash_restarts:
  assumes "om_get (pm_map s) i = Some a" and "pm_tasks s = []" and "rn_listening (pm_runs s k)"
    and "rn_id (pm_runs s k) = i" and "rn_chain (pm_runs s k) = [k]" and "\<not> rn_resolved (pm_runs s k)"
    and "k < pm_nrun s" and "code \<noteq> Some 0"
  shows "\<exists>t out. run pm_step s [ChildExit k code None, Resume 0 True 0, Resume 0 True now] = (t, out) \<and>
      Spawn (pm_nrun s) i (pr_ctx (pm_objs s a)) (pr_res (pm_objs s a)) \<in> set out \<and> pr_state (pm_objs t a) = Starting \<and>
    (\<exists>u out'. run pm_step t [Resume 0 True 0, ChildMessage (pm_nrun s) ''ready'', Resume 0 True 0] = (u, out') \<and>
      pr_state (pm_objs u a) = Running \<and> Resolved k True \<in> set out')"
  using assms
  by (simp add: child_exit_def truthy_str_def handle_error_def unlisten_def upd_run_def add_task_def remove_nth_def
      after_error_def pm_has_def om_has_def after_delay_def pm_start_def drop_timer_def upd_obj_def pm_spawned_def
      child_message_def handle_ready_def resolve_once_def Let_def split: option.splits)

text \<open>
  The statistics count every process once, under its state, and the health check names
  exactly the processes that have been starting for longer than the limit.
\<close>

theorem stats_and_health:
  assumes "pm_reach pool health c s"
  shows "st_total (pm_stats s) = length (st_waiting (pm_stats s)) + length (st_starting (pm_stats s)) + length (st_running (pm_stats s)) \<and>
    (i \<in> set (st_running (pm_stats s)) \<longleftrightarrow> (\<exists>p. pm_get s i = Some p \<and> pr_state p = Running)) \<and>
    (i \<in> set (pm_check_health s now) \<longleftrightarrow>
      (\<exists>p limit. pm_health s = Some limit \<and> pm_get s i = Some p \<and> pr_state p = Starting \<and> limit < now - pr_start p))"
proof -
  have ok: "om_ok (pm_map s)" using pm_reach_inv [OF assms] by (simp add: pm_inv_def)
  have mem: "(i, a) \<in> set (pm_map s) \<longleftrightarrow> om_get (pm_map s) i = Some a" for i a
    using ok by (auto simp: om_get_def om_ok_def)
  let ?f = "add_stat (pm_objs s)"
  have total: "st_total (fold ?f es st) = st_total st" for es st
  proof (induction es arbitrary: st)
    case (Cons e es)
    then show ?case by (cases e) (auto split: process_state.splits)
  qed simp
  have len: "length (st_waiting (fold ?f es st)) + length (st_starting (fold ?f es st)) + length (st_running (fold ?f es st)) =
      length es + length (st_waiting st) + length (st_starting st) + length (st_running st)" for es st
  proof (induction es arbitrary: st)
    case (Cons e es)
    then show ?case by (cases e) (auto split: process_state.splits)
  qed simp
  have run: "st_running (fold ?f es st) = st_running st @ map fst (filter (\<lambda>e. pr_state (pm_objs s (snd e)) = Running) es)" for es st
  proof (induction es arbitrary: st)
    case (Cons e es)
    then show ?case by (cases e) (auto split: process_state.splits)
  qed simp
  have "i \<in> set (st_running (pm_stats s)) \<longleftrightarrow> (\<exists>p. pm_get s i = Some p \<and> pr_state p = Running)"
    using mem by (force simp: pm_stats_def run pm_get_def)
  moreover have "i \<in> set (pm_check_health s now) \<longleftrightarrow>
      (\<exists>p limit. pm_health s = Some limit \<and> pm_get s i = Some p \<and> pr_state p = Starting \<and> limit < now - pr_start p)"
    using mem by (force simp: pm_check_health_def pm_get_def split: option.splits)
  ultimately show ?thesis by (simp add: pm_stats_def total len)
qed

section \<open>Witnesses\<close>

definition wit_pm :: "(unit, nat) pm" where
  "wit_pm = fst (run pm_step (pm_new (Some [7400, 7401, 7402, 7403]) (Some 600000) ())
     [Create ''s1'' () None (Some 2) 0, Create ''s2'' () None (Some 2) 0, Start ''s1'' False 5])"

lemma wit_pm_reach: "pm_reach (Some [7400, 7401, 7402, 7403]) (Some 600000) () wit_pm"
  unfolding wit_pm_def run.simps Let_def fst_conv
  by (intro pm_next_state pm_init) simp_all

lemma wit_pm_get: "pm_get wit_pm ''s1'' = Some \<lparr>pr_id = ''s1'', pr_state = Starting, pr_start = 5, pr_ctx = (), pr_res = [7400, 7401],
    pr_timer = None, pr_term = None\<rparr>"
  "pm_get wit_pm ''s2'' = Some \<lparr>pr_id = ''s2'', pr_state = Waiting, pr_start = 0, pr_ctx = (), pr_res = [7402, 7403],
    pr_timer = None, pr_term = None\<rparr>"
  by (simp_all add: wit_pm_def pm_new_def pm_create_def pm_has_def om_has_def pool_allocate_def pm_insert_def pm_start_def
      drop_timer_def upd_obj_def add_task_def pm_get_def Let_def)

theorem resources_are_conserved_witness:
  "total_resources wit_pm = mset [7400, 7401, 7402, 7403]"
  using resources_are_conserved [OF wit_pm_reach, of "''s1''" _ "''s2''"] by blast

theorem double_remove_duplicates_witness:
  "pm_pool (fst (run pm_step (fst (pm_step (pm_new (Some [7400, 7401]) None ()) (Create ''s1'' () None (Some 2) 0)))
     [Remove ''s1'', Remove ''s1'', Resume 0 True 0, Resume 0 True 0, Resume 0 True 0, Resume 0 True 0])) =
   Some [7400, 7401, 7400, 7401 :: nat]"
proof -
  let ?s = "fst (pm_step (pm_new (Some [7400, 7401 :: nat]) None ()) (Create ''s1'' () None (Some 2) 0))"
  have "om_get (pm_map ?s) ''s1'' = Some 0" "pm_tasks ?s = []" "pm_pool ?s = Some []" "pr_res (pm_objs ?s 0) = [7400, 7401]"
    by (simp_all add: pm_new_def pm_create_def pm_has_def om_has_def pool_allocate_def pm_insert_def)
  note f = this
  have "pr_res (pm_objs ?s 0) \<noteq> []" unfolding f(4) by simp
  from double_remove_duplicates [OF f(1-3) this] show ?thesis unfolding f(4) append.simps .
qed

theorem crash_restarts_witness:
  "\<exists>s t out. run pm_step s [ChildExit 0 (Some 1) None, Resume 0 True 0, Resume 0 True 9] = (t, out) \<and>
     Spawn 1 ''s1'' () [7400, 7401 :: nat] \<in> set out"
proof -
  let ?s = "fst (run pm_step (pm_new (Some [7400, 7401 :: nat]) None ())
     [Create ''s1'' () None (Some 2) 0, Start ''s1'' False 5, Resume 0 True 5])"
  have "om_get (pm_map ?s) ''s1'' = Some 0" "pm_tasks ?s = []" "rn_listening (pm_runs ?s 0)" "rn_id (pm_runs ?s 0) = ''s1''"
    "rn_chain (pm_runs ?s 0) = [0]" "\<not> rn_resolved (pm_runs ?s 0)" "0 < pm_nrun ?s" "pm_nrun ?s = 1"
    "pr_res (pm_objs ?s 0) = [7400, 7401]"
    by (simp_all add: pm_new_def pm_create_def pm_has_def om_has_def pool_allocate_def pm_insert_def pm_start_def
      drop_timer_def upd_obj_def upd_run_def add_task_def remove_nth_def pm_spawned_def Let_def)
  note facts = this
  have "Some 1 \<noteq> Some (0 :: int)" by simp
  from crash_restarts [OF facts(1-7) this, of 9] obtain t out where
    "run pm_step ?s [ChildExit 0 (Some 1) None, Resume 0 True 0, Resume 0 True 9] = (t, out)"
    and "Spawn (pm_nrun ?s) ''s1'' (pr_ctx (pm_objs ?s 0)) (pr_res (pm_objs ?s 0)) \<in> set out" by blast
  then show ?thesis unfolding facts(8,9) by (intro exI conjI) (assumption, simp)
qed

theorem stats_and_health_witness:
  "''s1'' \<in> set (pm_check_health wit_pm 700000) \<longleftrightarrow> pm_health wit_pm = Some 600000"
proof -
  have "pm_health wit_pm = Some 600000"
    by (simp add: wit_pm_def pm_new_def pm_create_def pm_has_def om_has_def pool_allocate_def pm_insert_def pm_start_def
      drop_timer_def upd_obj_def add_task_def Let_def)
  then show ?thesis using stats_and_health [OF wit_pm_reach, of "''s1''" 700000] wit_pm_get by simp
qed

end
