(* ===== verification/Provider.thy ===== *)
theory Provider imports Process_Manager Transactions begin

text \<open>
  \<open>lib/units/provider/index.ts\<close>: the unit that watches the devices of a host and runs one
  worker process for each, through the manager of \<open>Process_Manager\<close>, whose callbacks it
  provides.

  The context of a process is an object that the unit mutates, so contexts live in a store and
  the manager holds references. A registration is a promise with a timer. The handlers are
  split at their \<open>await\<close>s: what they wait for is a \<open>work\<close>, which \<open>ResumeWork\<close> continues
  once it is over. The devices come with the tracker's events; the type of a device that is
  read later, and the devices the tracker knows then, are arguments of the event.
\<close>

section \<open>State\<close>

record tracked_device =
  dv_serial :: serial
  dv_type :: adb_type
  dv_stuck :: bool

record device_context =
  cx_resolve :: "nat option"
  cx_register :: nat

datatype promise = Pending | Fulfilled | Rejected

datatype work =
    AwaitRegister serial nat
  | AwaitDelay serial nat bool bool
  | AwaitStart serial nat
  | Started serial bool
  | SetWaiting serial
  | HealthLoop serial "serial list"

record prov_options =
  po_allow_remote :: bool
  po_filter :: "(serial \<Rightarrow> bool) option"

record prov_state =
  pv_pm :: "(nat, nat) pm"
  pv_ctx :: "nat \<Rightarrow> device_context"
  pv_nctx :: nat
  pv_regs :: "nat \<Rightarrow> promise"
  pv_nreg :: nat
  pv_ticks :: "(nat \<times> serial) list"
  pv_reg_timers :: "nat list"
  pv_started :: "nat \<Rightarrow> bool option"
  pv_reconnect :: "(nat \<times> serial) list"
  pv_handle :: nat
  pv_works :: "work list"

datatype prov_out =
    SendIntroduction serial device_status
  | SendAbsent serial
  | SendStatus serial device_status
  | Fork nat serial "nat list"
  | KillWorker nat
  | Reconnect serial

definition STARTUP_TIMEOUT_MS :: int where
  "STARTUP_TIMEOUT_MS = 10 * 60 * 1000"

definition RESOURCE_ALLOCATION_COUNT :: nat where
  "RESOURCE_ALLOCATION_COUNT = 2"

text \<open>\<open>options.ports.slice(0, length - length % RESOURCE_ALLOCATION_COUNT)\<close>, and the unit at its start.\<close>

definition usable_ports :: "nat list \<Rightarrow> nat list" where
  "usable_ports ports = take (length ports - length ports mod RESOURCE_ALLOCATION_COUNT) ports"

definition prov_new :: "nat list \<Rightarrow> prov_state" where
  "prov_new ports =
     \<lparr>pv_pm = pm_new (Some (usable_ports ports)) (Some STARTUP_TIMEOUT_MS) 0,
      pv_ctx = (\<lambda>_. \<lparr>cx_resolve = None, cx_register = 0\<rparr>), pv_nctx = 0,
      pv_regs = (\<lambda>_. Pending), pv_nreg = 0, pv_ticks = [], pv_reg_timers = [], pv_started = (\<lambda>_. None),
      pv_reconnect = [], pv_handle = 0, pv_works = []\<rparr>"

section \<open>Registration\<close>

text \<open>Settling a promise that is no longer pending has no effect.\<close>

definition settle :: "nat \<Rightarrow> promise \<Rightarrow> prov_state \<Rightarrow> prov_state" where
  "settle r v s = (if pv_regs s r = Pending then s\<lparr>pv_regs := (pv_regs s)(r := v)\<rparr> else s)"

text \<open>\<open>resolveRegister\<close> of the context \<open>c\<close>, if it is set.\<close>

definition resolve_register :: "nat \<Rightarrow> prov_state \<Rightarrow> prov_state" where
  "resolve_register c s =
     (case cx_resolve (pv_ctx s c) of
        None \<Rightarrow> s
      | Some r \<Rightarrow> settle r Fulfilled
          (s\<lparr>pv_reg_timers := filter (\<lambda>t. t \<noteq> r) (pv_reg_timers s),
             pv_ctx := (pv_ctx s)(c := (pv_ctx s c)\<lparr>cx_resolve := None\<rparr>)\<rparr>))"

definition prov_register :: "prov_state \<Rightarrow> serial \<Rightarrow> adb_type \<Rightarrow> prov_state \<times> nat \<times> prov_out list" where
  "prov_register s serial ty =
     (s\<lparr>pv_nreg := Suc (pv_nreg s), pv_ticks := pv_ticks s @ [(pv_nreg s, serial)]\<rparr>,
      pv_nreg s, [SendIntroduction serial (to_device_status ty)])"

text \<open>The callback of \<open>process.nextTick\<close> in \<open>register\<close>.\<close>

definition register_tick :: "prov_state \<Rightarrow> prov_state" where
  "register_tick s =
     (case pv_ticks s of
        [] \<Rightarrow> s
      | (r, serial) # ts \<Rightarrow>
          (let s1 = s\<lparr>pv_ticks := ts\<rparr> in
           case pm_get (pv_pm s1) serial of
             None \<Rightarrow> s1
           | Some p \<Rightarrow> s1\<lparr>pv_reg_timers := pv_reg_timers s1 @ [r],
               pv_ctx := (pv_ctx s1)(pr_ctx p := (pv_ctx s1 (pr_ctx p))\<lparr>cx_resolve := Some r\<rparr>)\<rparr>))"

definition register_timeout :: "prov_state \<Rightarrow> nat \<Rightarrow> prov_state" where
  "register_timeout s r =
     (if r \<in> set (pv_reg_timers s)
      then settle r Rejected (s\<lparr>pv_reg_timers := filter (\<lambda>t. t \<noteq> r) (pv_reg_timers s)\<rparr>) else s)"

definition on_registered :: "prov_state \<Rightarrow> serial \<Rightarrow> prov_state" where
  "on_registered s serial =
     (case pm_get (pv_pm s) serial of None \<Rightarrow> s | Some p \<Rightarrow> resolve_register (pr_ctx p) s)"

section \<open>The manager's callbacks\<close>

fun handle_pm_out :: "prov_state \<Rightarrow> (nat, nat) pm_out \<Rightarrow> prov_state \<times> prov_out list" where
  "handle_pm_out s (OnCleanup i c) = (resolve_register c s, [SendAbsent i])"
| "handle_pm_out s (Spawn k i c ports) = (s, [Fork k i ports])"
| "handle_pm_out s (Kill k) = (s, [KillWorker k])"
| "handle_pm_out s (Resolved k v) = (s\<lparr>pv_started := (pv_started s)(k \<mapsto> v)\<rparr>, [])"
| "handle_pm_out s (ClearTimer t) = (s\<lparr>pv_reconnect := filter (\<lambda>x. fst x \<noteq> t) (pv_reconnect s)\<rparr>, [])"
| "handle_pm_out s _ = (s, [])"

fun handle_pm_outs :: "prov_state \<Rightarrow> (nat, nat) pm_out list \<Rightarrow> prov_state \<times> prov_out list" where
  "handle_pm_outs s [] = (s, [])"
| "handle_pm_outs s (x # xs) =
     (let r = handle_pm_out s x; r2 = handle_pm_outs (fst r) xs in (fst r2, snd r @ snd r2))"

definition call_pm :: "prov_state \<Rightarrow> nat pm_event \<Rightarrow> prov_state \<times> prov_out list" where
  "call_pm s e = (let r = pm_step (pv_pm s) e in handle_pm_outs (s\<lparr>pv_pm := fst r\<rparr>) (snd r))"

definition add_work :: "work \<Rightarrow> prov_state \<Rightarrow> prov_state" where
  "add_work w s = s\<lparr>pv_works := pv_works s @ [w]\<rparr>"

section \<open>The work for a device\<close>

definition start_worker :: "prov_state \<Rightarrow> serial \<Rightarrow> millis \<Rightarrow> prov_state \<times> prov_out list" where
  "start_worker s serial now =
     (let k = pm_nrun (pv_pm s);
          out = snd (pm_step (pv_pm s) (Start serial False now));
          r = call_pm s (Start serial False now)
      in (add_work (if StartReturns True \<in> set out then Started serial True
                    else if StartReturns False \<in> set out then Started serial False
                    else AwaitStart serial k) (fst r), snd r))"

text \<open>\<open>startDeviceWork\<close> after its delay, for the process object \<open>a\<close> it looked up before.\<close>

definition device_work_body ::
  "prov_state \<Rightarrow> serial \<Rightarrow> adb_type \<Rightarrow> nat \<Rightarrow> bool \<Rightarrow> bool \<Rightarrow> millis \<Rightarrow> prov_state \<times> prov_out list" where
  "device_work_body s serial ty a restart reregister now =
     (let c = pr_ctx (pm_objs (pv_pm s) a);
          reg = prov_register s serial ty;
          s1 = (if reregister then (fst reg)\<lparr>pv_ctx := (pv_ctx s)(c := (pv_ctx s c)\<lparr>cx_register := fst (snd reg)\<rparr>)\<rparr> else s);
          o1 = (if reregister then snd (snd reg) else [])
      in if \<not> restart then (add_work (AwaitRegister serial (cx_register (pv_ctx s1 c))) s1, o1)
         else (let r = start_worker s1 serial now in (fst r, o1 @ snd r)))"

definition start_device_work ::
  "prov_state \<Rightarrow> serial \<Rightarrow> adb_type \<Rightarrow> bool \<Rightarrow> bool \<Rightarrow> millis \<Rightarrow> prov_state \<times> prov_out list" where
  "start_device_work s serial ty restart reregister now =
     (case om_get (pm_map (pv_pm s)) serial of
        None \<Rightarrow> (s, [])
      | Some a \<Rightarrow>
          (if restart \<or> reregister then (add_work (AwaitDelay serial a restart reregister) s, [])
           else device_work_body s serial ty a restart reregister now))"

definition after_start :: "prov_state \<Rightarrow> serial \<Rightarrow> adb_type \<Rightarrow> bool \<Rightarrow> millis \<Rightarrow> prov_state \<times> prov_out list" where
  "after_start s serial ty ok now =
     (if \<not> ok then start_device_work s serial ty True False now
      else (s, [SendStatus serial (to_device_status ty)]))"

definition remove_device :: "prov_state \<Rightarrow> serial \<Rightarrow> prov_state \<times> prov_out list" where
  "remove_device s serial = call_pm s (Remove serial)"

text \<open>The loop over stuck workers removes one after the other, as far as the tracker knows them.\<close>

fun health_loop :: "prov_state \<Rightarrow> serial list \<Rightarrow> serial list \<Rightarrow> prov_state \<times> prov_out list" where
  "health_loop s tracked [] = (s, [])"
| "health_loop s tracked (i # is) =
     (if i \<in> set tracked
      then (let r = remove_device s i in (add_work (HealthLoop i is) (fst r), snd r))
      else health_loop s tracked is)"

section \<open>The tracker's events\<close>

definition filter_device :: "prov_options \<Rightarrow> serial \<Rightarrow> bool" where
  "filter_device opts serial \<longleftrightarrow>
     serial \<noteq> ''????????????'' \<and> trim serial \<noteq> [] \<and>
     (po_allow_remote opts \<or> \<not> str_includes '':'' serial) \<and>
     (case po_filter opts of None \<Rightarrow> True | Some f \<Rightarrow> f serial)"

definition on_connect :: "prov_state \<Rightarrow> tracked_device \<Rightarrow> millis \<Rightarrow> prov_state \<times> prov_out list" where
  "on_connect s d now =
     (let i = dv_serial d in
      if pm_has (pv_pm s) i then (s, [])
      else
       (let reg = prov_register s i (dv_type d);
            c = pv_nctx s;
            s1 = (fst reg)\<lparr>pv_ctx := (pv_ctx s)(c := \<lparr>cx_resolve = None, cx_register = fst (snd reg)\<rparr>), pv_nctx := Suc c\<rparr>;
            cr = snd (pm_step (pv_pm s1) (Create i c (Some Waiting) (Some RESOURCE_ALLOCATION_COUNT) now));
            r = call_pm s1 (Create i c (Some Waiting) (Some RESOURCE_ALLOCATION_COUNT) now)
        in if Created True \<notin> set cr then (fst r, snd (snd reg) @ snd r)
           else if dv_type d = TDevice then
             (let w = start_device_work (fst r) i (dv_type d) False False now
              in (fst w, snd (snd reg) @ snd r @ snd w))
           else if str_includes '':'' i then
             (let h = pv_handle (fst r);
                  s2 = (fst r)\<lparr>pv_reconnect := pv_reconnect (fst r) @ [(h, i)], pv_handle := Suc h\<rparr>;
                  r2 = call_pm s2 (SetTimer i h)
              in (fst r2, snd (snd reg) @ snd r @ snd r2))
           else (fst r, snd (snd reg) @ snd r)))"

definition reconnect_timer :: "prov_state \<Rightarrow> nat \<Rightarrow> adb_type option \<Rightarrow> prov_state \<times> prov_out list" where
  "reconnect_timer s h known =
     (case find (\<lambda>x. fst x = h) (pv_reconnect s) of
        None \<Rightarrow> (s, [])
      | Some x \<Rightarrow> (s\<lparr>pv_reconnect := filter (\<lambda>x. fst x \<noteq> h) (pv_reconnect s)\<rparr>,
          if known \<noteq> None \<and> known \<noteq> Some TDevice then [Reconnect (snd x)] else []))"

definition on_update :: "prov_state \<Rightarrow> tracked_device \<Rightarrow> millis \<Rightarrow> prov_state \<times> prov_out list" where
  "on_update s d now =
     (let i = dv_serial d; p = pm_get (pv_pm s) i in
      if dv_type d \<noteq> TDevice then
        (if p \<noteq> None \<and> pr_state (the p) \<noteq> Waiting then call_pm s (StopCall i) else (s, []))
      else if map_option pr_state p \<noteq> Some Running then
        (let r = call_pm s (DropTimer i); w = start_device_work (fst r) i (dv_type d) False False now
         in (fst w, snd r @ snd w))
      else (s, []))"

definition on_stuck :: "prov_state \<Rightarrow> tracked_device \<Rightarrow> prov_state \<times> prov_out list" where
  "on_stuck s d = (if \<not> pm_has (pv_pm s) (dv_serial d) then (s, []) else remove_device s (dv_serial d))"

definition on_disconnect :: "prov_state \<Rightarrow> tracked_device \<Rightarrow> prov_state \<times> prov_out list" where
  "on_disconnect s d =
     (if \<not> pm_has (pv_pm s) (dv_serial d) then (s, [])
      else if \<not> dv_stuck d then remove_device s (dv_serial d) else (s, []))"

definition on_healthcheck :: "prov_state \<Rightarrow> serial list \<Rightarrow> millis \<Rightarrow> prov_state \<times> prov_out list" where
  "on_healthcheck s tracked now = health_loop s tracked (pm_check_health (pv_pm s) now)"

section \<open>The unit as a machine\<close>

datatype prov_event =
    Connect tracked_device millis
  | Update tracked_device millis
  | Stuck tracked_device
  | Disconnect tracked_device
  | HealthCheck "serial list" millis
  | Registered serial
  | NextTick
  | RegisterTimer nat
  | ReconnectTimer nat "adb_type option"
  | Worker "nat pm_event"
  | ResumeManager nat millis
  | ResumeWork nat adb_type "serial list" millis
  | Shutdown

fun is_child_event :: "nat pm_event \<Rightarrow> bool" where
  "is_child_event (ChildExit k code sig) = True"
| "is_child_event (ChildError k) = True"
| "is_child_event (ChildMessage k msg) = True"
| "is_child_event _ = False"

text \<open>
  The manager's own continuations; the callbacks of this unit do not fail. When a \<open>stop\<close> has
  ended, the handler of \<open>update\<close> that called it goes on.
\<close>

definition resume_manager :: "prov_state \<Rightarrow> nat \<Rightarrow> millis \<Rightarrow> prov_state \<times> prov_out list" where
  "resume_manager s n now =
     (let r = call_pm s (Resume n True now) in
      (if n < length (pm_tasks (pv_pm s)) then
         (case pm_tasks (pv_pm s) ! n of
            AfterCleanup a None \<Rightarrow> add_work (SetWaiting (pr_id (pm_objs (pv_pm s) a))) (fst r)
          | _ \<Rightarrow> fst r)
       else fst r, snd r))"

text \<open>What a work waits for is over.\<close>

fun work_ready :: "prov_state \<Rightarrow> work \<Rightarrow> bool" where
  "work_ready s (AwaitRegister i r) = (pv_regs s r \<noteq> Pending)"
| "work_ready s (AwaitStart i k) = (pv_started s k \<noteq> None)"
| "work_ready s (HealthLoop i is) = (i \<notin> snd ` set (removals (pm_tasks (pv_pm s))))"
| "work_ready s _ = True"

fun resume_work :: "prov_state \<Rightarrow> work \<Rightarrow> adb_type \<Rightarrow> serial list \<Rightarrow> millis \<Rightarrow> prov_state \<times> prov_out list" where
  "resume_work s (AwaitRegister i r) ty tracked now =
     (if pv_regs s r = Fulfilled then start_worker s i now
      else start_device_work s i ty False True now)"
| "resume_work s (AwaitDelay i a restart reregister) ty tracked now =
     device_work_body s i ty a restart reregister now"
| "resume_work s (AwaitStart i k) ty tracked now = after_start s i ty (pv_started s k = Some True) now"
| "resume_work s (Started i ok) ty tracked now = after_start s i ty ok now"
| "resume_work s (SetWaiting i) ty tracked now = call_pm s (SetState i Waiting now)"
| "resume_work s (HealthLoop i is) ty tracked now = health_loop s tracked is"

fun prov_step :: "prov_options \<Rightarrow> prov_state \<Rightarrow> prov_event \<Rightarrow> prov_state \<times> prov_out list" where
  "prov_step opts s (Connect d now) = (if filter_device opts (dv_serial d) then on_connect s d now else (s, []))"
| "prov_step opts s (Update d now) = (if filter_device opts (dv_serial d) then on_update s d now else (s, []))"
| "prov_step opts s (Stuck d) = on_stuck s d"
| "prov_step opts s (Disconnect d) = (if filter_device opts (dv_serial d) then on_disconnect s d else (s, []))"
| "prov_step opts s (HealthCheck tracked now) = on_healthcheck s tracked now"
| "prov_step opts s (Registered i) = (on_registered s i, [])"
| "prov_step opts s NextTick = (register_tick s, [])"
| "prov_step opts s (RegisterTimer r) = (register_timeout s r, [])"
| "prov_step opts s (ReconnectTimer h known) = reconnect_timer s h known"
| "prov_step opts s (Worker e) = (if is_child_event e then call_pm s e else (s, []))"
| "prov_step opts s (ResumeManager n now) = resume_manager s n now"
| "prov_step opts s (ResumeWork n ty tracked now) =
     (if n < length (pv_works s) \<and> work_ready s (pv_works s ! n)
      then resume_work (s\<lparr>pv_works := remove_nth n (pv_works s)\<rparr>) (pv_works s ! n) ty tracked now
      else (s, []))"
| "prov_step opts s Shutdown = call_pm s CleanupAll"

section \<open>The unit touches its processes through the manager only\<close>

fun prov_call_ok :: "prov_options \<Rightarrow> nat pm_event \<Rightarrow> bool" where
  "prov_call_ok opts (Create i c st cnt now) = (cnt = Some RESOURCE_ALLOCATION_COUNT \<and> filter_device opts i)"
| "prov_call_ok opts e = True"

text \<open>\<open>via_pm opts s t\<close>: the manager of \<open>t\<close> is that of \<open>s\<close> after some of the unit's calls.\<close>

definition via_pm :: "prov_options \<Rightarrow> prov_state \<Rightarrow> prov_state \<Rightarrow> bool" where
  "via_pm opts s t \<longleftrightarrow> (\<exists>es. list_all (prov_call_ok opts) es \<and> pv_pm t = fst (run pm_step (pv_pm s) es))"

lemma via_same: "pv_pm t = pv_pm s \<Longrightarrow> via_pm opts s t"
  unfolding via_pm_def by (rule exI [of _ "[]"]) simp

lemma via_trans: "via_pm opts s t \<Longrightarrow> via_pm opts t u \<Longrightarrow> via_pm opts s u"
  unfolding via_pm_def by (metis (no_types, lifting) fst_conv list_all_append run_append)

lemma pm_settle [simp]: "pv_pm (settle r v s) = pv_pm s"
  by (simp add: settle_def)

lemma pm_resolve_register [simp]: "pv_pm (resolve_register c s) = pv_pm s"
  by (simp add: resolve_register_def split: option.splits)

lemma pm_register [simp]: "pv_pm (fst (prov_register s i ty)) = pv_pm s"
  by (simp add: prov_register_def)

lemma pm_out [simp]: "pv_pm (fst (handle_pm_out s x)) = pv_pm s"
  by (cases x) simp_all

lemma pm_outs [simp]: "pv_pm (fst (handle_pm_outs s xs)) = pv_pm s"
  by (induction xs arbitrary: s) (simp_all add: Let_def)

lemma pm_call [simp]: "pv_pm (fst (call_pm s e)) = fst (pm_step (pv_pm s) e)"
  by (simp add: call_pm_def Let_def)

lemma pm_add_work [simp]: "pv_pm (add_work w s) = pv_pm s"
  by (simp add: add_work_def)

lemma via_step: "pv_pm u = fst (pm_step (pv_pm s) e) \<Longrightarrow> prov_call_ok opts e \<Longrightarrow> via_pm opts s u"
  unfolding via_pm_def by (rule exI [of _ "[e]"]) (simp add: Let_def)

lemma via_call: "prov_call_ok opts e \<Longrightarrow> via_pm opts s (fst (call_pm s e))"
  by (rule via_step) simp_all

lemma via_start: "via_pm opts s (fst (start_worker s i now))"
  by (rule via_step [of _ _ "Start i False now"]) (simp_all add: start_worker_def Let_def)

lemma via_body: "via_pm opts s (fst (device_work_body s i ty a restart rereg now))"
proof -
  have "via_pm opts s (fst (start_worker t i now))" if "pv_pm t = pv_pm s" for t
    using via_trans [OF via_same [OF that] via_start] .
  then show ?thesis by (auto simp: device_work_body_def Let_def intro: via_same)
qed

lemma via_work: "via_pm opts s (fst (start_device_work s i ty restart rereg now))"
  using via_body by (auto simp: start_device_work_def intro: via_same split: option.splits)

lemma via_remove: "via_pm opts s (fst (remove_device s i))"
  unfolding remove_device_def by (rule via_call) simp

lemma via_health: "via_pm opts s (fst (health_loop s tracked is))"
  by (induction s tracked "is" rule: health_loop.induct)
    (auto simp: Let_def remove_device_def intro: via_same via_step [where e = "Remove _"])

lemma via_connect:
  assumes "filter_device opts (dv_serial d)"
  shows "via_pm opts s (fst (on_connect s d now))"
proof (cases "pm_has (pv_pm s) (dv_serial d)")
  case True
  then show ?thesis by (simp add: on_connect_def Let_def via_same)
next
  case False
  let ?i = "dv_serial d"
  let ?e = "Create ?i (pv_nctx s) (Some Waiting) (Some RESOURCE_ALLOCATION_COUNT) now"
  have c: "via_pm opts s (fst (call_pm u ?e))" if "pv_pm u = pv_pm s" for u
    by (rule via_step [of _ _ ?e]) (use assms that in simp_all)
  have w: "via_pm opts s (fst (start_device_work (fst (call_pm u ?e)) ?i ty False False now))" if "pv_pm u = pv_pm s" for u ty
    by (rule via_trans [OF c [OF that] via_work])
  have t: "via_pm opts s (fst (call_pm v (SetTimer ?i h)))" if "pv_pm v = pv_pm (fst (call_pm u ?e))" "pv_pm u = pv_pm s" for u v h
  proof -
    have "via_pm opts (fst (call_pm u ?e)) (fst (call_pm v (SetTimer ?i h)))"
      by (rule via_step [of _ _ "SetTimer ?i h"]) (use that(1) in simp_all)
    then show ?thesis by (rule via_trans [OF c [OF that(2)]])
  qed
  define reg where "reg = prov_register s ?i (dv_type d)"
  define s1 where "s1 = (fst reg)\<lparr>pv_ctx := (pv_ctx s)(pv_nctx s := \<lparr>cx_resolve = None, cx_register = fst (snd reg)\<rparr>), pv_nctx := Suc (pv_nctx s)\<rparr>"
  have s1: "pv_pm s1 = pv_pm s" by (simp add: s1_def reg_def)
  show ?thesis using False c [OF s1] w [OF s1] t [OF _ s1]
    unfolding on_connect_def Let_def reg_def [symmetric] s1_def [symmetric] by simp
qed

lemma via_update: "via_pm opts s (fst (on_update s d now))"
proof -
  have "via_pm opts s (fst (start_device_work (fst (call_pm s (DropTimer i))) i ty False False now))" for i ty
    by (rule via_trans [OF via_call via_work]) simp
  then show ?thesis by (auto simp: on_update_def Let_def intro: via_same via_call)
qed

lemma via_resume: "via_pm opts s (fst (resume_work s w ty tracked now))"
  using via_start via_work via_body via_health
  by (cases w) (auto simp: after_start_def intro: via_same via_call)

lemma via_prov_step: "via_pm opts s (fst (prov_step opts s e))"
proof (cases e)
  case (Connect d now)
  then show ?thesis using via_connect by (auto intro: via_same)
next
  case (Update d now)
  then show ?thesis using via_update by (auto intro: via_same)
next
  case (Stuck d)
  then show ?thesis using via_remove by (auto simp: on_stuck_def intro: via_same)
next
  case (Disconnect d)
  then show ?thesis using via_remove by (auto simp: on_disconnect_def intro: via_same)
next
  case (HealthCheck tracked now)
  then show ?thesis using via_health by (simp add: on_healthcheck_def)
next
  case (Registered i)
  then show ?thesis by (auto simp: on_registered_def intro: via_same split: option.splits)
next
  case NextTick
  then show ?thesis by (auto simp: register_tick_def Let_def intro!: via_same split: list.splits option.splits)
next
  case (RegisterTimer r)
  then show ?thesis by (auto simp: register_timeout_def intro: via_same)
next
  case (ReconnectTimer h known)
  then show ?thesis by (auto simp: reconnect_timer_def intro: via_same split: option.splits)
next
  case (Worker x)
  have "is_child_event x \<Longrightarrow> prov_call_ok opts x" by (cases x) simp_all
  then show ?thesis using Worker via_call by (auto intro: via_same)
next
  case (ResumeManager n now)
  then show ?thesis
    by (intro via_step [of _ _ "Resume n True now"])
      (auto simp: resume_manager_def Let_def split: pm_task.splits option.splits)
next
  case (ResumeWork n ty tracked now)
  then show ?thesis using via_trans [OF via_same via_resume, of "s\<lparr>pv_works := remove_nth n (pv_works s)\<rparr>" s]
    by (auto intro: via_same)
next
  case Shutdown
  then show ?thesis using via_call by simp
qed

lemma via_run: "via_pm opts s (fst (run (prov_step opts) s es))"
proof (induction es arbitrary: s)
  case Nil
  then show ?case by (simp add: via_same)
next
  case (Cons e es)
  then show ?case using via_trans [OF via_prov_step [of opts s e]] by (simp add: Let_def)
qed

section \<open>Ports stay in their groups\<close>

fun pairs :: "nat list \<Rightarrow> (nat \<times> nat) list" where
  "pairs (a # b # xs) = (a, b) # pairs xs"
| "pairs _ = []"

definition unpair :: "(nat \<times> nat) list \<Rightarrow> nat list" where
  "unpair ps = concat (map (\<lambda>p. [fst p, snd p]) ps)"

definition grouped :: "(nat \<times> nat) set \<Rightarrow> (nat, nat) pm \<Rightarrow> bool" where
  "grouped P s \<longleftrightarrow> (\<exists>ps. pm_pool s = Some (unpair ps) \<and> set ps \<subseteq> P) \<and>
     (\<forall>a. pr_res (pm_objs s a) = [] \<or> (\<exists>p \<in> P. pr_res (pm_objs s a) = [fst p, snd p]))"

lemma grouped_frame: "frame s t \<Longrightarrow> grouped P s \<Longrightarrow> grouped P t"
  by (simp add: frame_def grouped_def)

lemma unpair_append: "unpair ps @ [fst p, snd p] = unpair (ps @ [p])"
  by (simp add: unpair_def)

lemma grouped_after_stop:
  assumes "grouped P s"
  shows "grouped P (fst (after_stop s a i))"
proof -
  let ?s1 = "fst (drop_timer a s)"
  have g: "grouped P ?s1" by (rule grouped_frame [OF frame_drop_timer assms])
  then obtain ps where ps: "pm_pool ?s1 = Some (unpair ps)" "set ps \<subseteq> P" by (auto simp: grouped_def)
  show ?thesis
  proof (cases "pr_res (pm_objs ?s1 a) = []")
    case True
    then show ?thesis using g ps by (simp add: after_stop_def Let_def grouped_def)
  next
    case False
    then obtain p where p: "p \<in> P" "pr_res (pm_objs ?s1 a) = [fst p, snd p]" using g by (auto simp: grouped_def)
    have "pm_pool (fst (after_stop s a i)) = Some (unpair (ps @ [p]))"
      using p(2) ps(1) by (simp add: after_stop_def Let_def pool_release_def unpair_append)
    moreover have "pm_objs (fst (after_stop s a i)) = pm_objs ?s1"
      using ps(1) by (simp add: after_stop_def Let_def)
    ultimately show ?thesis using g ps(2) p(1) unfolding grouped_def by (metis Un_subset_iff empty_subsetI insert_subset list.set set_append)
  qed
qed

lemma grouped_create:
  assumes "grouped P s"
  shows "grouped P (fst (pm_create s i c st (Some RESOURCE_ALLOCATION_COUNT) now))"
proof -
  obtain ps where ps: "pm_pool s = Some (unpair ps)" "set ps \<subseteq> P" using assms by (auto simp: grouped_def)
  show ?thesis
  proof (cases ps)
    case Nil
    then show ?thesis using assms ps
      by (simp add: pm_create_def pool_allocate_def unpair_def RESOURCE_ALLOCATION_COUNT_def)
  next
    case (Cons p qs)
    have "pool_allocate (unpair ps) 2 = Some ([fst p, snd p], unpair qs)"
      using Cons by (simp add: pool_allocate_def unpair_def)
    then show ?thesis using assms ps Cons
      by (auto simp: pm_create_def pm_insert_def grouped_def RESOURCE_ALLOCATION_COUNT_def)
  qed
qed

lemma grouped_tasks: "grouped P (s\<lparr>pm_tasks := ts\<rparr>) = grouped P s"
  by (simp add: grouped_def)

lemma grouped_stop [simp]: "grouped P (fst (pm_stop s i r)) = grouped P s"
  by (simp add: pm_stop_def add_task_def grouped_tasks split: option.splits)

lemma grouped_remove_all: "grouped P (fst (pm_remove_all s is)) = grouped P s"
  by (induction "is" arbitrary: s) (simp_all add: pm_remove_def Let_def)

lemma grouped_task:
  assumes "grouped P s"
  shows "grouped P (fst (run_task s t ok now))"
proof (cases t)
  case (AfterCleanup a r)
  have "frame s (fst (terminate_child s a))" by (simp add: terminate_child_def split: option.splits)
  then have "grouped P (fst (terminate_child s a))" using grouped_frame assms by blast
  then show ?thesis using AfterCleanup assms
    by (simp add: after_cleanup_def Let_def add_task_def grouped_tasks split: option.splits)
next
  case (AfterStop a i)
  then show ?thesis using grouped_after_stop [OF assms] by simp
qed (use assms in \<open>auto intro: grouped_frame [OF frame_spawned] grouped_frame [OF frame_after_error]
    grouped_frame [OF frame_after_delay] grouped_frame [OF frame_resolve_once]\<close>)

lemma grouped_step:
  assumes "grouped P s" and "prov_call_ok opts e"
  shows "grouped P (fst (pm_step s e))"
proof (cases e)
  case (Resume n ok now)
  then show ?thesis using grouped_task [of P "s\<lparr>pm_tasks := remove_nth n (pm_tasks s)\<rparr>"] assms(1)
    by (simp add: grouped_tasks)
next
  case (Create i c st cnt now)
  then show ?thesis using grouped_create assms by simp
next
  case (Start i force now)
  then show ?thesis using grouped_frame [OF frame_start assms(1)] by simp
next
  case (SetState i st now)
  then show ?thesis using grouped_frame [OF frame_set(1) assms(1)] by simp
next
  case (SetTimer i t)
  then show ?thesis using grouped_frame [OF frame_set(2) assms(1)] by simp
next
  case (DropTimer i)
  then show ?thesis using grouped_frame [OF frame_set(3) assms(1)] by simp
next
  case (ChildExit k code sig)
  then show ?thesis using grouped_frame [OF frame_child(1) assms(1)] by simp
next
  case (ChildError k)
  then show ?thesis using grouped_frame [OF frame_child(2) assms(1)] by simp
next
  case (ChildMessage k msg)
  then show ?thesis using grouped_frame [OF frame_child(3) assms(1)] by simp
qed (use assms(1) in \<open>simp_all add: pm_remove_def pm_cleanup_def grouped_remove_all\<close>)

interpretation groups: guarded_machine pm_step "grouped P" "prov_call_ok opts" for P opts
  by unfold_locales (rule grouped_step)

lemma create_keys: "pm_has (fst (pm_create s i c st cnt now)) j \<Longrightarrow> pm_has s j \<or> j = i"
  by (auto simp: pm_create_def pm_insert_def pm_has_def split: option.splits if_splits)

lemma stop_map [simp]: "pm_map (fst (pm_stop s i r)) = pm_map s"
  by (simp add: pm_stop_def add_task_def split: option.splits)

lemma remove_all_map [simp]: "pm_map (fst (pm_remove_all s is)) = pm_map s"
  by (induction "is" arbitrary: s) (simp_all add: pm_remove_def Let_def)

lemma after_stop_keys: "pm_has (fst (after_stop s a i)) j \<Longrightarrow> pm_has s j"
  using frame_drop_timer [of s a] by (auto simp: after_stop_def Let_def pm_has_def frame_def split: option.splits if_splits)

lemma frame_keys: "frame s t \<Longrightarrow> pm_has t j = pm_has s j"
  by (simp add: frame_def pm_has_def)

lemma task_keys: "pm_has (fst (run_task s t ok now)) j \<Longrightarrow> pm_has s j"
proof (cases t)
  case (AfterCleanup a r)
  have "frame s (fst (terminate_child s a))" by (simp add: terminate_child_def split: option.splits)
  then have k: "pm_has (fst (terminate_child s a)) j = pm_has s j" by (rule frame_keys)
  assume "pm_has (fst (run_task s t ok now)) j"
  then show ?thesis using AfterCleanup k
    by (auto simp: after_cleanup_def Let_def add_task_def pm_has_def split: if_splits option.splits)
next
  case (AfterStop a i)
  assume "pm_has (fst (run_task s t ok now)) j"
  then show ?thesis using AfterStop after_stop_keys by simp
qed (auto simp: frame_keys [OF frame_spawned] frame_keys [OF frame_after_error] frame_keys [OF frame_after_delay]
    frame_keys [OF frame_resolve_once] split: if_splits)

definition keys_ok :: "prov_options \<Rightarrow> (nat, nat) pm \<Rightarrow> bool" where
  "keys_ok opts s \<longleftrightarrow> (\<forall>i. pm_has s i \<longrightarrow> filter_device opts i)"

lemma keys_step:
  assumes "keys_ok opts s" and "prov_call_ok opts e"
  shows "keys_ok opts (fst (pm_step s e))"
proof (cases e)
  case (Resume n ok now)
  then show ?thesis using task_keys [of "s\<lparr>pm_tasks := remove_nth n (pm_tasks s)\<rparr>"] assms(1)
    by (auto simp: keys_ok_def pm_has_def)
next
  case (Create i c st cnt now)
  then show ?thesis using assms by (auto simp: keys_ok_def dest: create_keys)
qed (use assms(1) in \<open>auto simp: keys_ok_def frame_keys [OF frame_start] frame_keys [OF frame_set(1)] frame_keys [OF frame_set(2)]
    frame_keys [OF frame_set(3)] frame_keys [OF frame_child(1)] frame_keys [OF frame_child(2)] frame_keys [OF frame_child(3)]
    pm_remove_def pm_cleanup_def\<close>, (simp_all add: pm_has_def)?)

interpretation keys: guarded_machine pm_step "keys_ok opts" "prov_call_ok opts" for opts
  by unfold_locales (rule keys_step)

lemma unpair_pairs: "even (length xs) \<Longrightarrow> unpair (pairs xs) = xs"
  by (induction xs rule: pairs.induct) (auto simp: unpair_def)

lemma usable_even: "even (length (usable_ports ports))"
proof -
  have "length (usable_ports ports) = 2 * (length ports div 2)"
    by (simp add: usable_ports_def RESOURCE_ALLOCATION_COUNT_def minus_mod_eq_mult_div)
  then show ?thesis by simp
qed

section \<open>Properties\<close>

text \<open>
  A worker always gets a fixed pair of ports: in every run of the unit, whatever devices
  come and go and in whatever order workers start, crash and end, the ports of a process are
  none or one of the pairs (first and second, third and fourth, and so on) of the usable ports
  of the options, in their order, and the pool is a sequence of such pairs.
\<close>

theorem ports_stay_in_groups:
  fixes opts :: prov_options
  shows "grouped (set (pairs (usable_ports ports))) (pv_pm (fst (run (prov_step opts) (prov_new ports) es)))"
proof -
  obtain fs where fs: "list_all (prov_call_ok opts) fs"
    and pm: "pv_pm (fst (run (prov_step opts) (prov_new ports) es)) = fst (run pm_step (pv_pm (prov_new ports)) fs)"
    using via_run [of opts "prov_new ports" es] by (auto simp: via_pm_def)
  have "grouped (set (pairs (usable_ports ports))) (pv_pm (prov_new ports))"
    using unpair_pairs [OF usable_even, of ports]
    by (auto simp: grouped_def prov_new_def pm_new_def intro!: exI [of _ "pairs (usable_ports ports)"])
  then show ?thesis unfolding pm by (rule groups.inv_run [OF _ fs])
qed

text \<open>
  Filtered devices never get a worker: in every run, each process of the manager is for a
  device that is not the placeholder, not blank, not remote unless that is allowed, and
  accepted by the filter of the options.
\<close>

theorem workers_pass_the_filter:
  assumes "pm_has (pv_pm (fst (run (prov_step opts) (prov_new ports) es))) i"
  shows "i \<noteq> ''????????????'' \<and> trim i \<noteq> [] \<and> (po_allow_remote opts \<or> CHR '':'' \<notin> set i) \<and>
    (\<forall>f. po_filter opts = Some f \<longrightarrow> f i)"
proof -
  obtain fs where fs: "list_all (prov_call_ok opts) fs"
    and pm: "pv_pm (fst (run (prov_step opts) (prov_new ports) es)) = fst (run pm_step (pv_pm (prov_new ports)) fs)"
    using via_run [of opts "prov_new ports" es] by (auto simp: via_pm_def)
  have "keys_ok opts (pv_pm (prov_new ports))"
    by (simp add: keys_ok_def prov_new_def pm_new_def pm_has_def om_has_def)
  from keys.inv_run [OF this fs] have "filter_device opts i" using assms pm by (simp add: keys_ok_def)
  then show ?thesis by (auto simp: filter_device_def str_includes_char)
qed

text \<open>
  With no ports left a device is introduced all the same: it gets no worker, its
  registration never ends, and when it disconnects nobody is told that it is gone.
\<close>

theorem no_ports_no_goodbye:
  assumes "pm_pool (pv_pm s) = Some []" and "\<not> pm_has (pv_pm s) (dv_serial d)" and "filter_device opts (dv_serial d)"
    and "pv_ticks s = []" and "pv_nreg s \<notin> set (pv_reg_timers s)"
  shows "\<exists>t. run (prov_step opts) s [Connect d now, NextTick] = (t, [SendIntroduction (dv_serial d) (to_device_status (dv_type d))]) \<and>
    \<not> pm_has (pv_pm t) (dv_serial d) \<and> pv_reg_timers t = pv_reg_timers s \<and> pv_regs t = pv_regs s \<and>
    snd (run (prov_step opts) t [Registered (dv_serial d), Disconnect d]) = []"
  using assms
  by (auto simp: on_connect_def prov_register_def call_pm_def pm_create_def pool_allocate_def RESOURCE_ALLOCATION_COUNT_def
      register_tick_def pm_get_def pm_has_def om_has_def on_registered_def on_disconnect_def Let_def)

text \<open>
  A device that is stuck while its worker has been starting for too long loses its ports
  twice: the tracker reports the stuck device and then the health check, in one go, so the
  second removal starts before the first is over; afterwards the pool has the same pair of
  ports twice.
\<close>

theorem stuck_worker_duplicates_ports:
  assumes "om_get (pm_map (pv_pm s)) i = Some a" and "pm_map (pv_pm s) = [(i, a)]" and "pm_tasks (pv_pm s) = []"
    and "pm_pool (pv_pm s) = Some pool" and "pr_res (pm_objs (pv_pm s) a) = [p, q]"
    and "pr_state (pm_objs (pv_pm s) a) = Starting" and "pr_timer (pm_objs (pv_pm s) a) = None"
    and "pm_health (pv_pm s) = Some limit" and "limit < now - pr_start (pm_objs (pv_pm s) a)" and "dv_serial d = i"
  shows "pm_pool (pv_pm (fst (run (prov_step opts) s [Stuck d, HealthCheck [i] now, ResumeManager 0 now, ResumeManager 0 now,
      ResumeManager 0 now, ResumeManager 0 now]))) = Some (pool @ [p, q, p, q])"
proof -
  have ch: "pm_check_health (pv_pm s) now = [i]" using assms by (simp add: pm_check_health_def)
  let ?es = "[Remove i, Remove i, Resume 0 True now, Resume 0 True now, Resume 0 True now, Resume 0 True now]"
  have "pv_pm (fst (run (prov_step opts) s [Stuck d, HealthCheck [i] now, ResumeManager 0 now, ResumeManager 0 now,
      ResumeManager 0 now, ResumeManager 0 now])) = fst (run pm_step (pv_pm s) ?es)"
  proof -
    have rm: "pv_pm (fst (resume_manager t 0 now)) = fst (pm_step (pv_pm t) (Resume 0 True now))" for t
      by (simp add: resume_manager_def Let_def del: pm_step.simps split: pm_task.splits option.splits)
    have st: "pv_pm (fst (on_stuck s d)) = fst (pm_step (pv_pm s) (Remove i))"
      using assms(1,10) by (simp add: on_stuck_def pm_has_def om_has_def remove_device_def del: pm_step.simps)
    let ?s1 = "fst (on_stuck s d)"
    have f: "pm_map (fst (pm_step (pv_pm s) (Remove i))) = pm_map (pv_pm s)"
      "pm_objs (fst (pm_step (pv_pm s) (Remove i))) = pm_objs (pv_pm s)"
      "pm_health (fst (pm_step (pv_pm s) (Remove i))) = pm_health (pv_pm s)"
      by (simp_all add: pm_remove_def pm_stop_def add_task_def split: option.splits)
    have "pm_check_health (pv_pm ?s1) now = [i]" using ch unfolding pm_check_health_def st f .
    then have hc: "pv_pm (fst (on_healthcheck ?s1 [i] now)) = fst (pm_step (pv_pm ?s1) (Remove i))"
      by (simp add: on_healthcheck_def remove_device_def Let_def del: pm_step.simps)
    show ?thesis by (simp only: run_fst prov_step.simps rm hc st)
  qed
  moreover have "pm_pool (fst (run pm_step (pv_pm s) ?es)) = Some (pool @ [p, q, p, q])"
    using overlapping_removals [OF assms(1,3,4), of now] unfolding assms(5) append.simps by simp
  ultimately show ?thesis by (simp only:)
qed

section \<open>Witnesses\<close>

definition wit_prov :: prov_options where
  "wit_prov = \<lparr>po_allow_remote = False, po_filter = None\<rparr>"

definition wit_device :: tracked_device where
  "wit_device = \<lparr>dv_serial = ''s1'', dv_type = TDevice, dv_stuck = False\<rparr>"

lemma wit_filter: "filter_device wit_prov (dv_serial wit_device)"
  by (simp add: filter_device_def wit_prov_def wit_device_def trim_def is_ws_def)

lemma wit_connected: "pm_has (pv_pm (fst (run (prov_step wit_prov) (prov_new [7400, 7401, 7402]) [Connect wit_device 0]))) ''s1''"
  using wit_filter
  by (simp add: wit_device_def on_connect_def prov_new_def usable_ports_def RESOURCE_ALLOCATION_COUNT_def pm_new_def
      prov_register_def pm_has_def om_has_def pm_create_def pool_allocate_def pm_insert_def call_pm_def start_device_work_def
      device_work_body_def add_work_def Let_def)

theorem workers_pass_the_filter_witness: "CHR '':'' \<notin> set ''s1''"
  using workers_pass_the_filter [OF wit_connected] by (simp add: wit_prov_def)

theorem no_ports_no_goodbye_witness:
  "\<exists>t. run (prov_step wit_prov) (prov_new [7400]) [Connect wit_device 0, NextTick] = (t, [SendIntroduction ''s1'' ONLINE])"
proof -
  have "pm_pool (pv_pm (prov_new [7400])) = Some []" "\<not> pm_has (pv_pm (prov_new [7400])) (dv_serial wit_device)"
    "pv_ticks (prov_new [7400]) = []" "pv_nreg (prov_new [7400]) \<notin> set (pv_reg_timers (prov_new [7400]))"
    by (simp_all add: prov_new_def pm_new_def usable_ports_def RESOURCE_ALLOCATION_COUNT_def pm_has_def om_has_def)
  note f = this
  from no_ports_no_goodbye [OF f(1,2) wit_filter f(3,4), of 0] show ?thesis
    by (simp add: wit_device_def del: run.simps) blast
qed

theorem stuck_worker_duplicates_ports_witness:
  "\<exists>s. pm_pool (pv_pm (fst (run (prov_step wit_prov) s [Stuck wit_device, HealthCheck [''s1''] 700000, ResumeManager 0 700000,
     ResumeManager 0 700000, ResumeManager 0 700000, ResumeManager 0 700000]))) = Some [7400, 7401, 7400, 7401]"
proof -
  let ?pm = "(pm_new (Some []) (Some STARTUP_TIMEOUT_MS) 0)\<lparr>pm_objs := (\<lambda>_. \<lparr>pr_id = ''s1'', pr_state = Starting, pr_start = 5,
      pr_ctx = 0, pr_res = [7400, 7401], pr_timer = None, pr_term = None\<rparr>), pm_next := 1, pm_map := [(''s1'', 0)]\<rparr>"
  let ?s = "(prov_new [])\<lparr>pv_pm := ?pm\<rparr>"
  have "om_get (pm_map (pv_pm ?s)) ''s1'' = Some 0" "pm_map (pv_pm ?s) = [(''s1'', 0)]" "pm_tasks (pv_pm ?s) = []"
    "pm_pool (pv_pm ?s) = Some []" "pr_res (pm_objs (pv_pm ?s) 0) = [7400, 7401]"
    "pr_state (pm_objs (pv_pm ?s) 0) = Starting" "pr_timer (pm_objs (pv_pm ?s) 0) = None"
    "pm_health (pv_pm ?s) = Some STARTUP_TIMEOUT_MS" "STARTUP_TIMEOUT_MS < 700000 - pr_start (pm_objs (pv_pm ?s) 0)"
    "dv_serial wit_device = ''s1''"
    by (simp_all add: pm_new_def STARTUP_TIMEOUT_MS_def om_get_def wit_device_def)
  from stuck_worker_duplicates_ports [OF this, of wit_prov] show ?thesis unfolding append.simps by (rule exI [of _ "?s"])
qed

end
