(* ===== verification/Adb_Protocol.thy ===== *)
theory Adb_Protocol imports Bytes begin

text \<open>
  The connection to the ADB server of \<open>lib/units/provider/ADBObserver.ts\<close>: the queue of
  requests, the parser of responses, time-outs, and reconnection. Bytes are one-byte
  characters, so \<open>toString\<close> is the identity. A connection is a number; the buffer of
  unprocessed data belongs to its connection. A caller of \<open>sendADBCommand\<close> is a number too,
  whose promise is answered by \<open>Resolve\<close> or \<open>Reject\<close>. A request's timer runs exactly while its
  \<open>timer\<close> is set. The socket's events are the events of the model.
\<close>

section \<open>Lengths in hexadecimal\<close>

fun to_hex :: "nat \<Rightarrow> string" where
  "to_hex n = (if n < 16 then [hex_char n] else to_hex (n div 16) @ [hex_char (n mod 16)])"

declare to_hex.simps [simp del]

definition pad_start4 :: "string \<Rightarrow> string" where
  "pad_start4 s = replicate (4 - length s) (CHR ''0'') @ s"

text \<open>\<open>parseInt(s, 16)\<close>; \<open>None\<close> is \<open>NaN\<close>.\<close>

definition parse_hex :: "string \<Rightarrow> int option" where
  "parse_hex s =
     (let t = dropWhile is_ws s;
          neg = (t \<noteq> [] \<and> hd t = CHR ''-'');
          u = (if t \<noteq> [] \<and> (hd t = CHR ''-'' \<or> hd t = CHR ''+'') then tl t else t);
          v = (if starts_with ''0x'' u \<or> starts_with ''0X'' u then drop 2 u else u);
          ds = takeWhile (\<lambda>c. hex_value c \<noteq> None) v;
          n = int (foldl (\<lambda>a c. a * 16 + the (hex_value c)) 0 ds)
      in if ds = [] then None else Some (if neg then - n else n))"

text \<open>The message that carries a command.\<close>

definition encode_command :: "string \<Rightarrow> string" where
  "encode_command command = pad_start4 (to_hex (length command)) @ command"

section \<open>State\<close>

text \<open>What a request's \<open>resolve\<close> does: answer a caller, or send the caller's command to the device.\<close>

datatype on_resolve = Answer nat | ThenShell nat string

record request =
  rq_key :: nat
  rq_command :: string
  rq_resolve :: on_resolve
  rq_need_data :: bool
  rq_raw :: bool
  rq_timer :: bool
  rq_buffer :: string
  rq_started :: bool

datatype opener = OpenFor nat string "string option" | OpenLoop nat

record adb =
  ad_queue :: "request list"
  ad_conn :: "nat option"
  ad_dead :: "nat list"
  ad_buffer :: "nat \<Rightarrow> string"
  ad_nconn :: nat
  ad_nkey :: nat
  ad_polling :: bool
  ad_destroyed :: bool
  ad_connecting :: bool
  ad_reconnecting :: bool
  ad_waiters :: "(nat \<times> string \<times> string option) list"
  ad_opening :: "(nat \<times> opener) list"
  ad_loops :: "nat list"

datatype adb_out =
    Write nat string
  | Open nat
  | Destroy nat
  | Resolve nat string
  | Reject nat string
  | EmitError string
  | WaitReconnect int

definition adb_new :: adb where
  "adb_new = \<lparr>ad_queue = [], ad_conn = None, ad_dead = [], ad_buffer = (\<lambda>_. []), ad_nconn = 0, ad_nkey = 0,
     ad_polling = False, ad_destroyed = False, ad_connecting = False, ad_reconnecting = False,
     ad_waiters = [], ad_opening = [], ad_loops = []\<rparr>"

definition live :: "adb \<Rightarrow> nat option" where
  "live s = (case ad_conn s of None \<Rightarrow> None | Some c \<Rightarrow> if c \<in> set (ad_dead s) then None else Some c)"

definition caller :: "request \<Rightarrow> nat" where
  "caller r = (case rq_resolve r of Answer k \<Rightarrow> k | ThenShell k c \<Rightarrow> k)"

definition reject_request :: "request \<Rightarrow> string \<Rightarrow> adb_out" where
  "reject_request r msg = Reject (caller r) msg"

definition push_request :: "adb \<Rightarrow> string \<Rightarrow> on_resolve \<Rightarrow> bool \<Rightarrow> bool \<Rightarrow> adb" where
  "push_request s command res need raw =
     s\<lparr>ad_queue := ad_queue s @ [\<lparr>rq_key = ad_nkey s, rq_command = command, rq_resolve = res, rq_need_data = need,
         rq_raw = raw, rq_timer = False, rq_buffer = [], rq_started = False\<rparr>], ad_nkey := Suc (ad_nkey s)\<rparr>"

section \<open>The queue\<close>

definition process_next :: "adb \<Rightarrow> adb \<times> adb_out list" where
  "process_next s =
     (case ad_queue s of
        [] \<Rightarrow> (s, [])
      | r # rs \<Rightarrow>
          (if rq_timer r then (s, [])
           else case live s of
             None \<Rightarrow> (s, [])
           | Some c \<Rightarrow> (s\<lparr>ad_queue := r\<lparr>rq_timer := True\<rparr> # rs\<rparr>, [Write c (encode_command (rq_command r))])))"

text \<open>The first request is done: it leaves the queue, its promise is settled, the next one is sent.\<close>

definition resolve_head :: "adb \<Rightarrow> string \<Rightarrow> adb \<times> adb_out list" where
  "resolve_head s data =
     (case ad_queue s of
        [] \<Rightarrow> (s, [])
      | r # rs \<Rightarrow>
          (let s1 = s\<lparr>ad_queue := rs\<rparr> in
           case rq_resolve r of
             Answer k \<Rightarrow> (s1, [Resolve k data])
           | ThenShell k command \<Rightarrow> process_next (push_request s1 command (Answer k) False True)))"

definition resolve_and_next :: "adb \<Rightarrow> string \<Rightarrow> adb \<times> adb_out list" where
  "resolve_and_next s data =
     (let r = resolve_head s data; n = process_next (fst r) in (fst n, snd r @ snd n))"

definition reject_and_next :: "adb \<Rightarrow> string \<Rightarrow> adb \<times> adb_out list" where
  "reject_and_next s msg =
     (case ad_queue s of
        [] \<Rightarrow> (s, [])
      | r # rs \<Rightarrow> (let n = process_next (s\<lparr>ad_queue := rs\<rparr>) in (fst n, reject_request r msg # snd n)))"

definition close_after_transport :: "adb \<Rightarrow> adb \<times> adb_out list" where
  "close_after_transport s =
     (case live s of
        None \<Rightarrow> (s, [])
      | Some c \<Rightarrow> (s\<lparr>ad_conn := None, ad_dead := c # ad_dead s\<rparr>, [Destroy c]))"

text \<open>A line of raw output is complete: settle, close the tunnel, go on.\<close>

definition finish_raw :: "adb \<Rightarrow> string \<Rightarrow> adb \<times> adb_out list" where
  "finish_raw s data =
     (let r = resolve_head s (trim data); c = close_after_transport (fst r); n = process_next (fst c)
      in (fst n, snd r @ snd c @ snd n))"

section \<open>Responses\<close>

definition accumulate_raw :: "adb \<Rightarrow> request \<Rightarrow> request list \<Rightarrow> string \<Rightarrow> adb \<times> adb_out list" where
  "accumulate_raw s r rs data =
     (let s1 = s\<lparr>ad_queue := r\<lparr>rq_started := True, rq_buffer := data\<rparr> # rs\<rparr>
      in if str_includes [CHR 0x0A] data then finish_raw s1 data else (s1, []))"

text \<open>\<open>processADBResponses\<close>: the new state, the output, and the rest of the buffer.\<close>

definition process_responses :: "adb \<Rightarrow> string \<Rightarrow> (adb \<times> adb_out list) \<times> string" where
  "process_responses s buffer =
     (case ad_queue s of
        [] \<Rightarrow> ((s, []), buffer)
      | r # rs \<Rightarrow>
          (if rq_started r then
             (if buffer \<noteq> [] then accumulate_raw s r rs (rq_buffer r @ buffer) else (s, []), [])
           else if length buffer < 4 then ((s, []), buffer)
           else if take 4 buffer = ''FAIL'' then
             (if length buffer < 8 then ((s, []), buffer)
              else case parse_hex (take 4 (drop 4 buffer)) of
                 None \<Rightarrow> (reject_and_next s ''ADB command failed'', buffer)
               | Some n \<Rightarrow>
                   (if int (length buffer) < 8 + n then ((s, []), buffer)
                    else (reject_and_next s (str_or (slice_range 8 (8 + n) buffer) ''ADB command failed''),
                          slice_from (8 + n) buffer)))
           else if take 4 buffer = ''OKAY'' then
             (if rq_raw r then (accumulate_raw s r rs (drop 4 buffer), [])
              else if rq_need_data r then
                (if length buffer < 8 then ((s, []), buffer)
                 else case parse_hex (take 4 (drop 4 buffer)) of
                    None \<Rightarrow> (resolve_and_next s [], buffer)
                  | Some n \<Rightarrow>
                      (if int (length buffer) - 4 < 4 + n then ((s, []), buffer)
                       else (resolve_and_next s (slice_range 8 (8 + n) buffer), slice_from (8 + n) buffer)))
              else (resolve_and_next s [], drop 4 buffer))
           else ((s, []), buffer)))"

definition on_data :: "adb \<Rightarrow> nat \<Rightarrow> string \<Rightarrow> adb \<times> adb_out list" where
  "on_data s c data =
     (if c \<in> set (ad_dead s) then (s, [])
      else (let r = process_responses s (ad_buffer s c @ data); t = fst (fst r)
            in (t\<lparr>ad_buffer := (ad_buffer t)(c := snd r)\<rparr>, snd (fst r))))"

section \<open>Connecting\<close>

definition create_connection :: "adb \<Rightarrow> opener \<Rightarrow> adb \<times> adb_out list" where
  "create_connection s who =
     (s\<lparr>ad_connecting := True, ad_nconn := Suc (ad_nconn s), ad_opening := ad_opening s @ [(ad_nconn s, who)]\<rparr>, [Open (ad_nconn s)])"

definition enqueue_command :: "adb \<Rightarrow> nat \<Rightarrow> string \<Rightarrow> string option \<Rightarrow> adb \<times> adb_out list" where
  "enqueue_command s k command host =
     process_next (if truthy_str host then push_request s (''host:transport:'' @ the host) (ThenShell k command) False False
                   else push_request s command (Answer k) True False)"

definition send_command :: "adb \<Rightarrow> nat \<Rightarrow> string \<Rightarrow> string option \<Rightarrow> adb \<times> adb_out list" where
  "send_command s k command host =
     (if live s \<noteq> None then enqueue_command s k command host
      else if ad_connecting s \<or> ad_reconnecting s then (s\<lparr>ad_waiters := ad_waiters s @ [(k, command, host)]\<rparr>, [])
      else create_connection s (OpenFor k command host))"

definition waiter_poll :: "adb \<Rightarrow> nat \<Rightarrow> adb \<times> adb_out list" where
  "waiter_poll s n =
     (if n < length (ad_waiters s) then
        (let w = ad_waiters s ! n; s1 = s\<lparr>ad_waiters := remove_nth n (ad_waiters s)\<rparr>
         in if live s \<noteq> None then enqueue_command s1 (fst w) (fst (snd w)) (snd (snd w))
            else if \<not> ad_connecting s \<and> \<not> ad_reconnecting s then (s1, [Reject (fst w) ''Connection failed''])
            else (s, []))
      else (s, []))"

definition MAX_RECONNECT :: nat where
  "MAX_RECONNECT = 8"

definition reconnect_delay :: "nat \<Rightarrow> int" where
  "reconnect_delay attempt = 100 * 2 ^ attempt"

definition reject_all :: "adb \<Rightarrow> string \<Rightarrow> adb \<times> adb_out list" where
  "reject_all s msg = (s\<lparr>ad_queue := []\<rparr>, map (\<lambda>r. reject_request r msg) (ad_queue s))"

definition reconnect_error :: string where
  "reconnect_error = ''Failed to reconnect to ADB server after 8 attempts''"

definition attempt_reconnect :: "adb \<Rightarrow> adb \<times> adb_out list" where
  "attempt_reconnect s =
     (if ad_reconnecting s \<or> ad_destroyed s then (s, [])
      else (s\<lparr>ad_reconnecting := True, ad_loops := ad_loops s @ [0]\<rparr>, [WaitReconnect (reconnect_delay 0)]))"

text \<open>The delay of a reconnection loop is over.\<close>

definition loop_delay :: "adb \<Rightarrow> nat \<Rightarrow> adb \<times> adb_out list" where
  "loop_delay s n =
     (if n < length (ad_loops s) then
        (let s1 = s\<lparr>ad_loops := remove_nth n (ad_loops s)\<rparr>
         in if \<not> ad_polling s \<or> ad_destroyed s then (s1\<lparr>ad_reconnecting := False\<rparr>, [])
            else create_connection s1 (OpenLoop (ad_loops s ! n)))
      else (s, []))"

text \<open>A connection attempt succeeds, or fails.\<close>

definition conn_ok :: "adb \<Rightarrow> nat \<Rightarrow> adb \<times> adb_out list" where
  "conn_ok s c =
     (case map_of (ad_opening s) c of
        None \<Rightarrow> (s, [])
      | Some who \<Rightarrow>
          (let s1 = s\<lparr>ad_opening := remove1 (c, who) (ad_opening s), ad_conn := Some c, ad_connecting := False\<rparr>
           in case who of
                OpenFor k command host \<Rightarrow> enqueue_command s1 k command host
              | OpenLoop n \<Rightarrow> process_next (s1\<lparr>ad_reconnecting := False\<rparr>)))"

definition conn_err :: "adb \<Rightarrow> nat \<Rightarrow> string \<Rightarrow> adb \<times> adb_out list" where
  "conn_err s c msg =
     (case map_of (ad_opening s) c of
        None \<Rightarrow> (s, [])
      | Some who \<Rightarrow>
          (let s1 = s\<lparr>ad_opening := remove1 (c, who) (ad_opening s), ad_conn := None, ad_connecting := False\<rparr>
           in case who of
                OpenFor k command host \<Rightarrow> (s1, [Reject k msg])
              | OpenLoop n \<Rightarrow>
                  (if Suc n < MAX_RECONNECT then (s1\<lparr>ad_loops := ad_loops s1 @ [Suc n]\<rparr>, [WaitReconnect (reconnect_delay (Suc n))])
                   else (let r = reject_all (s1\<lparr>ad_reconnecting := False\<rparr>) reconnect_error
                         in (fst r, EmitError reconnect_error # snd r)))))"

section \<open>The socket's other events\<close>

definition sock_error :: "adb \<Rightarrow> nat \<Rightarrow> string \<Rightarrow> adb \<times> adb_out list" where
  "sock_error s c msg = (s\<lparr>ad_connecting := False, ad_conn := None\<rparr>, [EmitError msg])"

definition sock_end :: "adb \<Rightarrow> nat \<Rightarrow> adb" where
  "sock_end s c = s\<lparr>ad_dead := c # ad_dead s\<rparr>"

definition sock_close :: "adb \<Rightarrow> nat \<Rightarrow> adb \<times> adb_out list" where
  "sock_close s c =
     (let s1 = s\<lparr>ad_conn := None, ad_dead := c # ad_dead s\<rparr> in
      case ad_queue s1 of
        [] \<Rightarrow> (if ad_polling s1 \<and> \<not> ad_destroyed s1 then attempt_reconnect s1 else reject_all s1 ''Connection closed'')
      | r # rs \<Rightarrow>
          (if rq_started r then
             (let h = resolve_head s1 (trim (rq_buffer r))
              in if ad_polling s1 \<and> \<not> ad_destroyed s1
                 then (let n = process_next (fst h) in (fst n, snd h @ snd n)) else h)
           else
             (let s2 = s1\<lparr>ad_queue := r\<lparr>rq_timer := False\<rparr> # rs\<rparr>
              in if ad_polling s2 \<and> \<not> ad_destroyed s2 then attempt_reconnect s2 else reject_all s2 ''Connection closed'')))"

definition request_timeout :: "adb \<Rightarrow> nat \<Rightarrow> adb \<times> adb_out list" where
  "request_timeout s key =
     (case ad_queue s of
        [] \<Rightarrow> (s, [])
      | r # rs \<Rightarrow> (if rq_key r = key \<and> rq_timer r
                   then reject_and_next s (''Request timeout after 5000ms: '' @ rq_command r) else (s, [])))"

definition write_error :: "adb \<Rightarrow> nat \<Rightarrow> string \<Rightarrow> adb \<times> adb_out list" where
  "write_error s key msg =
     (case ad_queue s of
        [] \<Rightarrow> (s, [])
      | r # rs \<Rightarrow> (if rq_key r = key then reject_and_next s msg else (s, [])))"

definition close_connection :: "adb \<Rightarrow> adb \<times> adb_out list" where
  "close_connection s =
     (let c = close_after_transport s; r = reject_all ((fst c)\<lparr>ad_reconnecting := False\<rparr>) ''Connection closed''
      in (fst r, snd c @ snd r))"

definition stop_observer :: "adb \<Rightarrow> adb \<times> adb_out list" where
  "stop_observer s = close_connection (s\<lparr>ad_polling := False\<rparr>)"

section \<open>The connection as a machine\<close>

datatype adb_event =
    Send nat string "string option"
  | Data nat string
  | ConnOk nat
  | ConnErr nat string
  | SockError nat string
  | SockEnd nat
  | SockClose nat
  | RequestTimeout nat
  | WriteError nat string
  | LoopDelay nat
  | WaiterPoll nat
  | StartObserver
  | StopObserver
  | DestroyObserver

fun adb_step :: "adb \<Rightarrow> adb_event \<Rightarrow> adb \<times> adb_out list" where
  "adb_step s (Send k command host) = send_command s k command host"
| "adb_step s (Data c data) = on_data s c data"
| "adb_step s (ConnOk c) = conn_ok s c"
| "adb_step s (ConnErr c msg) = conn_err s c msg"
| "adb_step s (SockError c msg) = sock_error s c msg"
| "adb_step s (SockEnd c) = (sock_end s c, [])"
| "adb_step s (SockClose c) = sock_close s c"
| "adb_step s (RequestTimeout key) = request_timeout s key"
| "adb_step s (WriteError key msg) = write_error s key msg"
| "adb_step s (LoopDelay n) = loop_delay s n"
| "adb_step s (WaiterPoll n) = waiter_poll s n"
| "adb_step s StartObserver = (if ad_polling s \<or> ad_destroyed s then s else s\<lparr>ad_polling := True\<rparr>, [])"
| "adb_step s StopObserver = stop_observer s"
| "adb_step s DestroyObserver = stop_observer (s\<lparr>ad_destroyed := True\<rparr>)"

section \<open>Hexadecimal lengths round-trip\<close>

definition hex_fold :: "nat \<Rightarrow> string \<Rightarrow> nat" where
  "hex_fold a s = foldl (\<lambda>a c. a * 16 + the (hex_value c)) a s"

lemma to_hex_value: "hex_fold 0 (to_hex n) = n"
proof (induction n rule: to_hex.induct)
  case (1 n)
  then show ?case
    by (cases "n < 16") (simp_all add: to_hex.simps [of n] hex_fold_def hex_value_char)
qed

lemma to_hex_digits: "c \<in> set (to_hex n) \<Longrightarrow> hex_value c \<noteq> None"
proof (induction n rule: to_hex.induct)
  case (1 n)
  then show ?case by (cases "n < 16") (auto simp: to_hex.simps [of n] hex_value_char)
qed

lemma length_to_hex: "n < 65536 \<Longrightarrow> 0 < length (to_hex n) \<and> length (to_hex n) \<le> 4"
  by (simp add: to_hex.simps [of n] to_hex.simps [of "n div 16"] to_hex.simps [of "n div 256"] to_hex.simps [of "n div 4096"]
      div_mult2_eq [symmetric])

lemma hex_fold_zeros: "hex_fold 0 (replicate k (CHR ''0'') @ s) = hex_fold 0 s"
  by (induction k) (auto simp: hex_fold_def hex_value_def)

lemma hex_value_facts: "hex_value (CHR ''0'') = Some 0" "hex_value (CHR ''x'') = None" "hex_value (CHR ''X'') = None"
  "hex_value (CHR ''-'') = None" "hex_value (CHR ''+'') = None"
  by (simp_all add: hex_value_def)

lemma hex_not_ws: "hex_value c \<noteq> None \<Longrightarrow> \<not> is_ws c"
  by (auto simp: is_ws_def hex_value_def)

lemma parse_hex_digits:
  assumes "ds \<noteq> []" and "\<forall>c \<in> set ds. hex_value c \<noteq> None"
  shows "parse_hex ds = Some (int (hex_fold 0 ds))"
proof -
  obtain c cs where c: "ds = c # cs" using assms(1) by (cases ds) auto
  have d: "dropWhile is_ws ds = ds" using assms(2) hex_not_ws c by auto
  have h: "c \<noteq> CHR ''-''" "c \<noteq> CHR ''+''" using assms(2) c hex_value_facts by auto
  have x: "\<not> starts_with ''0x'' ds" "\<not> starts_with ''0X'' ds"
    using assms(2) hex_value_facts by (auto simp: starts_with_iff)
  have t: "takeWhile (\<lambda>c. hex_value c \<noteq> None) ds = ds" using assms(2) by (simp add: takeWhile_eq_all_conv)
  have n: "\<not> (ds \<noteq> [] \<and> hd ds = CHR ''-'')" "\<not> (ds \<noteq> [] \<and> (hd ds = CHR ''-'' \<or> hd ds = CHR ''+''))"
    "\<not> (starts_with ''0x'' ds \<or> starts_with ''0X'' ds)" using h x c by simp_all
  show ?thesis
    unfolding parse_hex_def Let_def d if_not_P [OF n(2)] if_not_P [OF n(3)] t if_not_P [OF assms(1)] if_not_P [OF n(1)] hex_fold_def
    by (rule refl)
qed

lemma pad_hex:
  assumes "n < 65536"
  shows "length (pad_start4 (to_hex n)) = 4" and "parse_hex (pad_start4 (to_hex n)) = Some (int n)"
proof -
  have l: "length (to_hex n) \<le> 4" "to_hex n \<noteq> []" using length_to_hex [OF assms] by auto
  then show "length (pad_start4 (to_hex n)) = 4" by (simp add: pad_start4_def)
  have "\<forall>c \<in> set (pad_start4 (to_hex n)). hex_value c \<noteq> None"
    using to_hex_digits hex_value_facts(1) by (auto simp: pad_start4_def)
  then have "parse_hex (pad_start4 (to_hex n)) = Some (int (hex_fold 0 (pad_start4 (to_hex n))))"
    using l by (intro parse_hex_digits) (auto simp: pad_start4_def)
  then show "parse_hex (pad_start4 (to_hex n)) = Some (int n)"
    by (simp add: pad_start4_def hex_fold_zeros to_hex_value)
qed

section \<open>Every caller is answered once\<close>

fun opener_caller :: "nat \<times> opener \<Rightarrow> nat list" where
  "opener_caller (c, OpenFor k command host) = [k]"
| "opener_caller (c, OpenLoop n) = []"

definition adb_owed :: "adb \<Rightarrow> nat list" where
  "adb_owed s = map caller (ad_queue s) @ map fst (ad_waiters s) @ concat (map opener_caller (ad_opening s))"

fun adb_answers :: "adb_out list \<Rightarrow> nat list" where
  "adb_answers [] = []"
| "adb_answers (Resolve k d # os) = k # adb_answers os"
| "adb_answers (Reject k m # os) = k # adb_answers os"
| "adb_answers (_ # os) = adb_answers os"

fun adb_calls :: "adb_event \<Rightarrow> nat list" where
  "adb_calls (Send k command host) = [k]"
| "adb_calls _ = []"

lemma adb_answers_append [simp]: "adb_answers (xs @ ys) = adb_answers xs @ adb_answers ys"
  by (induction xs rule: adb_answers.induct) auto

lemma adb_answers_reject [simp]: "adb_answers (map (\<lambda>r. reject_request r msg) rs) = map caller rs"
  by (induction rs) (auto simp: reject_request_def)

text \<open>\<open>pays s r\<close>: a step from \<open>s\<close> answers exactly the callers that are no longer waiting.\<close>

definition pays :: "adb \<Rightarrow> adb \<times> adb_out list \<Rightarrow> bool" where
  "pays s r \<longleftrightarrow> mset (adb_owed (fst r)) + mset (adb_answers (snd r)) = mset (adb_owed s)"

lemma paysI: "mset (adb_owed t) + mset (adb_answers out) = mset (adb_owed s) \<Longrightarrow> pays s (t, out)"
  by (simp add: pays_def)

lemma pays_refl [simp]: "pays s (s, [])"
  by (simp add: pays_def)

lemma pays_seq: "pays s (t, out) \<Longrightarrow> pays t r \<Longrightarrow> pays s (fst r, out @ snd r)"
  by (auto simp: pays_def ac_simps)

lemma pays_then: "pays s r \<Longrightarrow> pays (fst r) r2 \<Longrightarrow> pays s (fst r2, snd r @ snd r2)"
  using pays_seq [of s "fst r" "snd r" r2] by simp

lemma owed_same: "ad_queue t = ad_queue s \<Longrightarrow> ad_waiters t = ad_waiters s \<Longrightarrow> ad_opening t = ad_opening s \<Longrightarrow> adb_owed t = adb_owed s"
  by (simp add: adb_owed_def)

lemma process_next_owed: "adb_owed (fst (process_next s)) = adb_owed s" "adb_answers (snd (process_next s)) = []"
  by (auto simp: process_next_def adb_owed_def caller_def split: list.splits option.splits)

lemma pays_process_next: "adb_owed t = adb_owed s \<Longrightarrow> pays s (process_next t)"
  by (simp add: pays_def process_next_owed)

lemma push_owed: "mset (adb_owed (push_request s command (Answer k) need raw)) = add_mset k (mset (adb_owed s))"
  "mset (adb_owed (push_request s command (ThenShell k sh) need raw)) = add_mset k (mset (adb_owed s))"
  by (simp_all add: push_request_def adb_owed_def caller_def)

lemma pays_resolve_head: "pays s (resolve_head s data)"
  by (auto simp: resolve_head_def pays_def process_next_owed push_owed Let_def split: list.splits on_resolve.splits)
    (auto simp: adb_owed_def caller_def)

lemma pays_resolve_next: "pays s (resolve_and_next s data)"
  unfolding resolve_and_next_def Let_def
  by (rule pays_then [OF pays_resolve_head pays_process_next]) simp

lemma pays_reject_next: "pays s (reject_and_next s msg)"
  by (auto simp: reject_and_next_def pays_def process_next_owed Let_def reject_request_def split: list.splits)
    (auto simp: adb_owed_def)

lemma close_owed: "adb_owed (fst (close_after_transport s)) = adb_owed s" "adb_answers (snd (close_after_transport s)) = []"
  by (auto simp: close_after_transport_def adb_owed_def split: option.splits)

lemma pays_finish_raw: "pays s (finish_raw s data)"
proof -
  let ?r = "resolve_head s (trim data)"
  have "pays (fst ?r) (close_after_transport (fst ?r))" by (simp add: pays_def close_owed)
  then have "pays s (fst (close_after_transport (fst ?r)), snd ?r @ snd (close_after_transport (fst ?r)))"
    by (rule pays_then [OF pays_resolve_head])
  from pays_seq [OF this pays_process_next [OF refl]] show ?thesis by (simp add: finish_raw_def Let_def)
qed

lemma pays_from: "adb_owed t = adb_owed s \<Longrightarrow> pays t r \<Longrightarrow> pays s r"
  by (simp add: pays_def)

lemma pays_accumulate: "ad_queue s = r # rs \<Longrightarrow> pays s (accumulate_raw s r rs data)"
  unfolding accumulate_raw_def Let_def
  by (auto intro!: pays_from [OF _ pays_finish_raw] paysI simp: adb_owed_def caller_def)

lemma pays_responses: "pays s (fst (process_responses s buffer))"
  using pays_accumulate [of s] pays_reject_next pays_resolve_next
  by (auto simp: process_responses_def split: list.splits option.splits)

lemma pays_data: "pays s (on_data s c data)"
proof (cases "c \<in> set (ad_dead s)")
  case False
  have "adb_owed (t\<lparr>ad_buffer := b\<rparr>) = adb_owed t" for t b by (simp add: adb_owed_def)
  then show ?thesis using pays_responses [of s "ad_buffer s c @ data"] False by (simp add: on_data_def Let_def pays_def)
qed (simp add: on_data_def)

lemma enqueue_owed:
  "mset (adb_owed (fst (enqueue_command s k command host))) = add_mset k (mset (adb_owed s))"
  "adb_answers (snd (enqueue_command s k command host)) = []"
  by (auto simp: enqueue_command_def process_next_owed push_owed)

lemma pays_waiter: "pays s (waiter_poll s n)"
proof (cases "n < length (ad_waiters s)")
  case True
  let ?s1 = "s\<lparr>ad_waiters := remove_nth n (ad_waiters s)\<rparr>"
  have "mset (adb_owed s) = add_mset (fst (ad_waiters s ! n)) (mset (adb_owed ?s1))"
    using mset_remove_nth [OF True, of fst] by (simp add: adb_owed_def)
  then show ?thesis using True by (auto simp: waiter_poll_def Let_def pays_def enqueue_owed)
qed (simp add: waiter_poll_def)

lemma opening_split:
  "x \<in> set xs \<Longrightarrow> mset (concat (map opener_caller xs)) = mset (opener_caller x) + mset (concat (map opener_caller (remove1 x xs)))"
  by (induction xs) (auto simp: ac_simps)

lemma pays_reject_all: "pays s (reject_all s msg)"
  by (simp add: reject_all_def pays_def adb_owed_def)

lemma pays_reconnect: "pays s (attempt_reconnect s)"
  by (auto simp: attempt_reconnect_def pays_def adb_owed_def)

lemma pays_conn_ok: "pays s (conn_ok s c)"
proof (cases "map_of (ad_opening s) c")
  case None
  then show ?thesis by (simp add: conn_ok_def)
next
  case (Some who)
  then have "(c, who) \<in> set (ad_opening s)" by (rule map_of_SomeD)
  note o = opening_split [OF this]
  show ?thesis using Some o
    by (cases who) (auto simp: conn_ok_def Let_def pays_def enqueue_owed process_next_owed, auto simp: adb_owed_def)
qed

lemma pays_conn_err: "pays s (conn_err s c msg)"
proof (cases "map_of (ad_opening s) c")
  case None
  then show ?thesis by (simp add: conn_err_def)
next
  case (Some who)
  then have "(c, who) \<in> set (ad_opening s)" by (rule map_of_SomeD)
  note o = opening_split [OF this]
  show ?thesis using Some o
    by (cases who) (auto simp: conn_err_def Let_def pays_def reject_all_def adb_owed_def)
qed

lemma pays_loop: "pays s (loop_delay s n)"
  by (auto simp: loop_delay_def create_connection_def Let_def pays_def adb_owed_def)

lemma pays_close: "pays s (sock_close s c)"
proof -
  have q: "pays s r" if "pays t r" "ad_queue t = ad_queue s" "ad_waiters t = ad_waiters s" "ad_opening t = ad_opening s" for t r
    using that(1) owed_same [OF that(2-4)] by (simp add: pays_def)
  have r: "pays s x" if "pays t x" "map caller (ad_queue t) = map caller (ad_queue s)" "ad_waiters t = ad_waiters s" "ad_opening t = ad_opening s" for t x
    using that by (simp add: pays_def adb_owed_def)
  have n: "pays t (fst (process_next (fst (resolve_head t d))), snd (resolve_head t d) @ snd (process_next (fst (resolve_head t d))))" for t d
    by (rule pays_then [OF pays_resolve_head pays_process_next]) simp
  show ?thesis
    by (auto simp: sock_close_def Let_def split: list.splits intro!: q [OF n] q [OF pays_resolve_head] q [OF pays_reconnect] q [OF pays_reject_all]
        r [OF pays_reconnect] r [OF pays_reject_all] simp: caller_def)
qed

lemma pays_close_connection:
  assumes "adb_owed t = adb_owed s"
  shows "pays s (close_connection t)"
proof -
  let ?u = "(fst (close_after_transport t))\<lparr>ad_reconnecting := False\<rparr>"
  have "adb_owed ?u = adb_owed s" using close_owed(1) [of t] assms by (simp add: adb_owed_def)
  then show ?thesis using pays_reject_all [of ?u "''Connection closed''"] close_owed(2) [of t]
    by (simp add: close_connection_def Let_def pays_def)
qed

lemma pays_send:
  "mset (adb_owed (fst (send_command s k command host))) + mset (adb_answers (snd (send_command s k command host))) =
   add_mset k (mset (adb_owed s))"
  by (auto simp: send_command_def enqueue_owed create_connection_def) (auto simp: adb_owed_def)

interpretation adb: obligations adb_step adb_owed adb_answers adb_calls
proof
  fix s e and xs ys :: "adb_out list"
  have p: "pays s (adb_step s e)" if "\<forall>k command host. e \<noteq> Send k command host"
  proof (cases e)
    case (Data c d)
    then show ?thesis using pays_data by simp
  next
    case (ConnOk c)
    then show ?thesis using pays_conn_ok by simp
  next
    case (ConnErr c m)
    then show ?thesis using pays_conn_err by simp
  next
    case (SockClose c)
    then show ?thesis using pays_close by simp
  next
    case (RequestTimeout k)
    then show ?thesis using pays_reject_next by (simp add: request_timeout_def split: list.splits)
  next
    case (WriteError k m)
    then show ?thesis using pays_reject_next by (simp add: write_error_def split: list.splits)
  next
    case (LoopDelay n)
    then show ?thesis using pays_loop by simp
  next
    case (WaiterPoll n)
    then show ?thesis using pays_waiter by simp
  next
    case StopObserver
    then show ?thesis using pays_close_connection [of _ s] by (simp add: stop_observer_def adb_owed_def)
  next
    case DestroyObserver
    then show ?thesis using pays_close_connection [of _ s] by (simp add: stop_observer_def adb_owed_def)
  qed (use that in \<open>simp_all add: sock_error_def sock_end_def pays_def adb_owed_def\<close>)
  show "mset (adb_owed (fst (adb_step s e))) + mset (adb_answers (snd (adb_step s e))) = mset (adb_owed s) + mset (adb_calls e)"
  proof (cases "\<exists>k command host. e = Send k command host")
    case True
    then show ?thesis using pays_send [of s] by auto
  next
    case False
    then have "adb_calls e = []" by (cases e) auto
    then show ?thesis using p False by (auto simp: pays_def)
  qed
  show "adb_answers ([] :: adb_out list) = []" by simp
  show "adb_answers (xs @ ys) = adb_answers xs @ adb_answers ys" by (rule adb_answers_append)
qed

section \<open>One request at a time\<close>

definition idle_request :: "request \<Rightarrow> bool" where
  "idle_request r \<longleftrightarrow> \<not> rq_timer r \<and> \<not> rq_started r"

definition flight_queue :: "request list \<Rightarrow> bool" where
  "flight_queue q \<longleftrightarrow> list_all idle_request (tl q) \<and> (\<forall>r \<in> set q. rq_started r \<longrightarrow> rq_raw r)"

abbreviation one_in_flight :: "adb \<Rightarrow> bool" where
  "one_in_flight s \<equiv> flight_queue (ad_queue s)"

lemma flight_Nil [simp]: "flight_queue []"
  by (simp add: flight_queue_def)

lemma flight_next: "one_in_flight s \<Longrightarrow> one_in_flight (fst (process_next s))"
  by (auto simp: process_next_def flight_queue_def split: list.splits option.splits)

lemma flight_push: "one_in_flight s \<Longrightarrow> one_in_flight (push_request s command res need raw)"
  by (cases "ad_queue s") (auto simp: push_request_def flight_queue_def idle_request_def)

lemma flight_tail: "one_in_flight s \<Longrightarrow> ad_queue s = r # rs \<Longrightarrow> one_in_flight (s\<lparr>ad_queue := rs\<rparr>)"
  by (cases rs) (auto simp: flight_queue_def)

lemma flight_resolve: "one_in_flight s \<Longrightarrow> one_in_flight (fst (resolve_head s data))"
proof (cases "ad_queue s")
  case (Cons r rs)
  assume "one_in_flight s"
  from flight_tail [OF this Cons] have t: "one_in_flight (s\<lparr>ad_queue := rs\<rparr>)" .
  show ?thesis
  proof (cases "rq_resolve r")
    case (Answer k)
    then show ?thesis using Cons t by (simp add: resolve_head_def Let_def)
  next
    case (ThenShell k c)
    then show ?thesis using Cons flight_next [OF flight_push [OF t]] by (simp add: resolve_head_def Let_def)
  qed
qed (simp add: resolve_head_def)

lemma flight_resolve_next: "one_in_flight s \<Longrightarrow> one_in_flight (fst (resolve_and_next s data))"
  by (simp add: resolve_and_next_def Let_def flight_next flight_resolve)

lemma flight_reject_next: "one_in_flight s \<Longrightarrow> one_in_flight (fst (reject_and_next s msg))"
  using flight_tail flight_next by (auto simp: reject_and_next_def Let_def split: list.splits)

lemma flight_close [simp]: "one_in_flight (fst (close_after_transport s)) = one_in_flight s"
  by (simp add: close_after_transport_def split: option.splits)

lemma flight_finish: "one_in_flight s \<Longrightarrow> one_in_flight (fst (finish_raw s data))"
  by (simp add: finish_raw_def Let_def flight_next flight_resolve)

lemma flight_accumulate:
  assumes "one_in_flight s" and "ad_queue s = r # rs" and "rq_raw r"
  shows "one_in_flight (fst (accumulate_raw s r rs data))"
proof -
  have "one_in_flight (s\<lparr>ad_queue := r\<lparr>rq_started := True, rq_buffer := data\<rparr> # rs\<rparr>)"
    using assms by (simp add: flight_queue_def)
  then show ?thesis using flight_finish by (simp add: accumulate_raw_def Let_def)
qed

lemma flight_responses: "one_in_flight s \<Longrightarrow> one_in_flight (fst (fst (process_responses s buffer)))"
proof (cases "ad_queue s")
  case Nil
  then show "one_in_flight s \<Longrightarrow> ?thesis" by (simp add: process_responses_def)
next
  case (Cons r rs)
  assume s: "one_in_flight s"
  then have "rq_started r \<Longrightarrow> rq_raw r" using Cons by (simp add: flight_queue_def)
  then show ?thesis
    using Cons s flight_accumulate [OF s Cons] flight_reject_next [OF s] flight_resolve_next [OF s]
    by (auto simp: process_responses_def split: option.splits)
qed

lemma flight_reject_all [simp]: "one_in_flight (fst (reject_all s msg))"
  by (simp add: reject_all_def flight_queue_def)

lemma flight_enqueue: "one_in_flight s \<Longrightarrow> one_in_flight (fst (enqueue_command s k command host))"
  by (simp add: enqueue_command_def flight_next flight_push)

lemma flight_reconnect [simp]: "one_in_flight (fst (attempt_reconnect s)) = one_in_flight s"
  by (simp add: attempt_reconnect_def)

lemma flight_close_event: "one_in_flight s \<Longrightarrow> one_in_flight (fst (sock_close s c))"
proof -
  assume s: "one_in_flight s"
  let ?s = "s\<lparr>ad_conn := None, ad_dead := c # ad_dead s\<rparr>"
  have t: "one_in_flight ?s" using s by simp
  moreover have "one_in_flight (?s\<lparr>ad_queue := r\<lparr>rq_timer := False\<rparr> # rs\<rparr>)" if "ad_queue s = r # rs" for r rs
    using s that by (simp add: flight_queue_def)
  ultimately show ?thesis
    using flight_resolve [OF t] flight_next [OF flight_resolve [OF t]]
    by (auto simp: sock_close_def Let_def split: list.splits)
qed

interpretation flight: invariant_machine adb_step one_in_flight
proof
  fix s e
  assume s: "one_in_flight s"
  show "one_in_flight (fst (adb_step s e))"
  proof (cases e)
    case (Send k command host)
    then show ?thesis using s flight_enqueue by (auto simp: send_command_def create_connection_def)
  next
    case (Data c d)
    then show ?thesis using s flight_responses [OF s] by (auto simp: on_data_def Let_def)
  next
    case (ConnOk c)
    have "one_in_flight t \<Longrightarrow> one_in_flight (fst (enqueue_command t k co ho))" for t k co ho by (rule flight_enqueue)
    moreover have "one_in_flight t \<Longrightarrow> one_in_flight (fst (process_next t))" for t by (rule flight_next)
    moreover have "one_in_flight (s\<lparr>ad_opening := x, ad_conn := y, ad_connecting := z\<rparr>)"
      "one_in_flight (s\<lparr>ad_opening := x, ad_conn := y, ad_connecting := z, ad_reconnecting := w\<rparr>)" for x y z w
      using s by simp_all
    ultimately show ?thesis using ConnOk s by (auto simp: conn_ok_def Let_def split: option.splits opener.splits)
  next
    case (ConnErr c m)
    then show ?thesis using s by (auto simp: conn_err_def Let_def split: option.splits opener.splits)
  next
    case (SockClose c)
    then show ?thesis using flight_close_event [OF s] by simp
  next
    case (RequestTimeout k)
    then show ?thesis using flight_reject_next [OF s] s by (simp add: request_timeout_def split: list.splits)
  next
    case (WriteError k m)
    then show ?thesis using flight_reject_next [OF s] s by (simp add: write_error_def split: list.splits)
  next
    case (LoopDelay n)
    then show ?thesis using s by (simp add: loop_delay_def create_connection_def Let_def)
  next
    case (WaiterPoll n)
    have "one_in_flight (s\<lparr>ad_waiters := w\<rparr>)" for w using s by simp
    then show ?thesis using WaiterPoll s flight_enqueue by (simp add: waiter_poll_def Let_def)
  qed (use s in \<open>simp_all add: sock_error_def sock_end_def stop_observer_def close_connection_def Let_def\<close>)
qed

section \<open>Properties of the protocol\<close>

text \<open>
  C1. Every caller of \<open>sendADBCommand\<close> is answered once: in every run, whatever the server
  sends and however connections break, the callers are exactly those who have an answer and
  those who still wait, no one is answered twice, and at most the first request of the queue
  is on the wire.
\<close>

theorem adb_callers_answered_once:
  assumes "distinct (concat (map adb_calls es))"
  shows "distinct (adb_answers (snd (run adb_step adb_new es))) \<and>
    set (adb_owed (fst (run adb_step adb_new es))) \<inter> set (adb_answers (snd (run adb_step adb_new es))) = {} \<and>
    set (adb_owed (fst (run adb_step adb_new es))) \<union> set (adb_answers (snd (run adb_step adb_new es))) =
      set (concat (map adb_calls es)) \<and>
    list_all idle_request (tl (ad_queue (fst (run adb_step adb_new es))))"
proof -
  have "adb_owed adb_new = []" by (simp add: adb_owed_def adb_new_def)
  note once = adb.answered_once [OF this assms]
  have "one_in_flight adb_new" by (simp add: flight_queue_def adb_new_def)
  from flight.always_run [OF this, of es] show ?thesis using once by (simp add: flight_queue_def)
qed

text \<open>The responses of the server.\<close>

definition data_response :: "string \<Rightarrow> string" where
  "data_response d = ''OKAY'' @ pad_start4 (to_hex (length d)) @ d"

lemma data_response_parts:
  assumes "length d < 65536"
  shows "take 4 (data_response d @ rest) = ''OKAY''"
    and "parse_hex (take 4 (drop 4 (data_response d @ rest))) = Some (int (length d))"
    and "length (data_response d) = 8 + length d"
    and "slice_range 8 (8 + int (length d)) (data_response d @ rest) = d"
    and "slice_from (8 + int (length d)) (data_response d @ rest) = rest"
proof -
  note p = pad_hex [OF assms]
  show "take 4 (data_response d @ rest) = ''OKAY''" by (simp add: data_response_def)
  have "take 4 (drop 4 (data_response d @ rest)) = pad_start4 (to_hex (length d))" by (simp add: data_response_def p(1))
  then show "parse_hex (take 4 (drop 4 (data_response d @ rest))) = Some (int (length d))" using p(2) by simp
  show "length (data_response d) = 8 + length d" by (simp add: data_response_def p(1))
  have "slice_range (int 8) (int (8 + length d)) (data_response d @ rest) = d"
    unfolding slice_range_nat by (simp add: data_response_def p(1))
  then show "slice_range 8 (8 + int (length d)) (data_response d @ rest) = d" by simp
  have "slice_from (int (8 + length d)) (data_response d @ rest) = rest"
  proof -
    have "drop 8 (data_response d @ rest) = d @ rest" by (simp add: data_response_def p(1))
    then have "drop (length d) (drop 8 (data_response d @ rest)) = rest" by simp
    then show ?thesis unfolding slice_nat by (simp only: drop_drop add.commute)
  qed
  then show "slice_from (8 + int (length d)) (data_response d @ rest) = rest" by simp
qed

lemma whole_response:
  assumes "ad_queue s = r # rs" and "rq_need_data r" and "\<not> rq_raw r" and "\<not> rq_started r" and "length d < 65536"
  shows "process_responses s (data_response d @ rest) = (resolve_and_next s d, rest)"
proof -
  note p = data_response_parts [OF assms(5)]
  have "\<not> length (data_response d @ rest) < 4" "\<not> length (data_response d @ rest) < 8" using p(3) by simp_all
  then show ?thesis using assms p by (simp add: process_responses_def)
qed

lemma partial_response:
  assumes "ad_queue s = r # rs" and "rq_need_data r" and "\<not> rq_raw r" and "\<not> rq_started r" and "length d < 65536"
    and "data_response d = p @ q" and "q \<noteq> []"
  shows "process_responses s p = ((s, []), p)"
proof (cases "length p < 8")
  case True
  have "take 4 p = ''OKAY''" if "\<not> length p < 4"
    using data_response_parts(1) [OF assms(5), of "[]"] that assms(6) by simp
  then show ?thesis using assms(1-4) True by (auto simp: process_responses_def)
next
  case False
  then have "take 4 p = ''OKAY''" "parse_hex (take 4 (drop 4 p)) = Some (int (length d))"
    using data_response_parts(1,2) [OF assms(5), of "[]"] assms(6) by simp_all
  moreover have "length p < 8 + length d" using data_response_parts(3) [OF assms(5)] assms(6,7) by (cases q) auto
  ultimately show ?thesis using assms(1-4) False by (simp add: process_responses_def)
qed

text \<open>
  A response is understood however the network cuts it: with a request for data at the
  head of the queue, the chunks of one length-prefixed response produce nothing before the
  last of them and then exactly what the whole response produces; the caller gets the data of
  the response, and no byte of it is left over.
\<close>

theorem chunked_response:
  assumes "ad_queue s = r # rs" and "rq_need_data r" and "\<not> rq_raw r" and "\<not> rq_started r" and "length d < 65536"
    and "c \<notin> set (ad_dead s)" and "ad_buffer s c = []" and "concat chunks @ lst = data_response d" and "lst \<noteq> []"
  shows "snd (run adb_step s (map (Data c) (chunks @ [lst]))) = snd (resolve_and_next s d) \<and>
    ad_buffer (fst (run adb_step s (map (Data c) (chunks @ [lst])))) c = [] \<and>
    (rq_resolve r = Answer k \<longrightarrow> hd (snd (run adb_step s (map (Data c) (chunks @ [lst])))) = Resolve k d)"
proof -
  have "concat pre @ concat cs @ lst = data_response d \<Longrightarrow>
      run adb_step (s\<lparr>ad_buffer := (ad_buffer s)(c := concat pre)\<rparr>) (map (Data c) cs) =
      (s\<lparr>ad_buffer := (ad_buffer s)(c := concat pre @ concat cs)\<rparr>, [])" for pre cs
  proof (induction cs arbitrary: pre)
    case (Cons x cs)
    let ?s = "s\<lparr>ad_buffer := (ad_buffer s)(c := concat pre)\<rparr>"
    have "process_responses ?s (concat pre @ x) = ((?s, []), concat pre @ x)"
      using Cons.prems assms(1-5,9)
      by (intro partial_response [of ?s r rs d "concat pre @ x" "concat cs @ lst"]) simp_all
    then have st: "adb_step ?s (Data c x) = (s\<lparr>ad_buffer := (ad_buffer s)(c := concat (pre @ [x]))\<rparr>, [])"
      using assms(6) by (simp add: on_data_def Let_def)
    have ih: "run adb_step (s\<lparr>ad_buffer := (ad_buffer s)(c := concat (pre @ [x]))\<rparr>) (map (Data c) cs) =
        (s\<lparr>ad_buffer := (ad_buffer s)(c := concat (pre @ [x]) @ concat cs)\<rparr>, [])"
      using Cons.prems by (intro Cons.IH) simp
    have e: "concat (pre @ [x]) @ concat cs = concat pre @ concat (x # cs)" by simp
    show ?case unfolding list.map run.simps st Let_def fst_conv snd_conv ih e append_Nil ..
  qed simp
  from this [of "[]" chunks] have pre: "run adb_step s (map (Data c) chunks) =
      (s\<lparr>ad_buffer := (ad_buffer s)(c := concat chunks)\<rparr>, [])"
    using assms(7,8) by (simp add: fun_upd_idem)
  let ?s = "s\<lparr>ad_buffer := (ad_buffer s)(c := concat chunks)\<rparr>"
  have "process_responses ?s (concat chunks @ lst) = (resolve_and_next ?s d, [])"
    using whole_response [of ?s r rs d "[]"] assms(1-5,8) by simp
  moreover have "live ?s = live s" by (simp add: live_def cong: option.case_cong)
  moreover have "snd (resolve_and_next ?s d) = snd (resolve_and_next s d)"
    using assms(1) \<open>live ?s = live s\<close>
    by (auto simp: resolve_and_next_def resolve_head_def process_next_def push_request_def Let_def live_def
        split: on_resolve.splits list.splits option.splits)
  moreover have "rq_resolve r = Answer k \<Longrightarrow> hd (snd (resolve_and_next s d)) = Resolve k d"
    using assms(1) by (simp add: resolve_and_next_def resolve_head_def Let_def)
  ultimately show ?thesis using pre assms(6) by (simp add: run_append on_data_def Let_def)
qed

text \<open>
  A command is framed so that the length can be read back: for commands of less than
  65536 bytes the first four characters are the length in hexadecimal and the rest is the
  command.
\<close>

theorem encode_command_roundtrip:
  assumes "length command < 65536"
  shows "parse_hex (take 4 (encode_command command)) = Some (int (length command)) \<and>
    drop 4 (encode_command command) = command"
  using pad_hex [OF assms] by (simp add: encode_command_def)

text \<open>
  A queued request is sent into the tunnel: when the server accepts the switch to a
  device while another request waits, the command for the device goes to the end of the queue
  and the other request, meant for the server, is written to the connection that now leads to
  the device.
\<close>

theorem queued_request_enters_tunnel:
  assumes "ad_queue s = [r1, r2]" and "rq_resolve r1 = ThenShell k shell" and "\<not> rq_need_data r1" and "\<not> rq_raw r1"
    and "\<not> rq_started r1" and "\<not> rq_timer r2" and "live s = Some c" and "ad_buffer s c = []"
  shows "\<exists>t r3. adb_step s (Data c ''OKAY'') = (t, [Write c (encode_command (rq_command r2))]) \<and>
    ad_queue t = [r2\<lparr>rq_timer := True\<rparr>, r3] \<and> rq_command r3 = shell \<and> live t = Some c"
  using assms
  by (auto simp: on_data_def process_responses_def resolve_and_next_def resolve_head_def push_request_def process_next_def
      live_def Let_def split: option.splits if_splits)

text \<open>
  A late response answers the wrong request: when a request times out, the next one is
  sent on the same connection, and the response to the first one is then taken for its.
\<close>

theorem late_response_answers_next:
  assumes "ad_queue s = [r1, r2]" and "rq_timer r1" and "rq_need_data r2" and "\<not> rq_raw r2" and "\<not> rq_started r2"
    and "\<not> rq_timer r2" and "rq_resolve r2 = Answer j" and "live s = Some c" and "ad_buffer s c = []" and "length d < 65536"
  shows "\<exists>msg. snd (run adb_step s [RequestTimeout (rq_key r1), Data c (data_response d)]) =
    [Reject (caller r1) msg, Write c (encode_command (rq_command r2)), Resolve j d]"
proof -
  let ?t = "s\<lparr>ad_queue := [r2\<lparr>rq_timer := True\<rparr>]\<rparr>"
  have t: "adb_step s (RequestTimeout (rq_key r1)) = (?t, [Reject (caller r1) (''Request timeout after 5000ms: '' @ rq_command r1),
      Write c (encode_command (rq_command r2))])"
  proof -
    have "live (s\<lparr>ad_queue := [r2]\<rparr>) = Some c" using assms(8) by (simp add: live_def cong: option.case_cong)
    then show ?thesis using assms(1,2,6)
      by (simp add: request_timeout_def reject_and_next_def process_next_def reject_request_def Let_def)
  qed
  have "process_responses ?t (data_response d @ []) = (resolve_and_next ?t d, [])"
    using assms by (intro whole_response [of _ "r2\<lparr>rq_timer := True\<rparr>" "[]"]) simp_all
  moreover have "c \<notin> set (ad_dead s)" using assms(8) by (auto simp: live_def split: option.splits if_splits)
  ultimately have "snd (adb_step ?t (Data c (data_response d))) = [Resolve j d]"
    using assms by (simp add: on_data_def resolve_and_next_def resolve_head_def process_next_def Let_def)
  then show ?thesis using t by (simp add: Let_def del: adb_step.simps)
qed

text \<open>The events of \<open>n\<close> attempts in a row that fail.\<close>

definition failing_attempts :: "nat \<Rightarrow> nat \<Rightarrow> string \<Rightarrow> adb_event list" where
  "failing_attempts base n msg = concat (map (\<lambda>i. [LoopDelay 0, ConnErr (base + i) msg]) [0..<n])"

lemma failing_attempts_Suc:
  "failing_attempts base (Suc n) msg = LoopDelay 0 # ConnErr base msg # failing_attempts (Suc base) n msg"
  by (simp add: failing_attempts_def upt_conv_Cons map_Suc_upt [symmetric] comp_def del: upt_Suc)

lemma failing_loop:
  assumes "ad_loops s = [8 - Suc n]" and "ad_opening s = []" and "ad_polling s" and "\<not> ad_destroyed s" and "n < 8"
  shows "\<exists>t out. run adb_step s (failing_attempts (ad_nconn s) (Suc n) msg) = (t, out) \<and>
    filter (\<lambda>x. \<exists>d. x = WaitReconnect d) out = map (\<lambda>i. WaitReconnect (reconnect_delay (8 - n + i))) [0..<n] \<and>
    filter (\<lambda>x. \<exists>k m. x = Reject k m) out = map (\<lambda>r. Reject (caller r) reconnect_error) (ad_queue s) \<and>
    EmitError reconnect_error \<in> set out \<and> ad_queue t = [] \<and> \<not> ad_reconnecting t \<and> ad_loops t = []"
  using assms
proof (induction n arbitrary: s)
  case 0
  then show ?case
    by (simp add: failing_attempts_Suc failing_attempts_def loop_delay_def create_connection_def remove_nth_def conn_err_def
        MAX_RECONNECT_def reject_all_def reject_request_def filter_map comp_def Let_def del: filter.simps)
      (simp add: filter_map comp_def)
next
  case (Suc n)
  let ?u = "s\<lparr>ad_loops := [8 - Suc n], ad_connecting := False, ad_nconn := Suc (ad_nconn s), ad_opening := [], ad_conn := None\<rparr>"
  have a: "8 - Suc (Suc n) < 8" "Suc (8 - Suc (Suc n)) = 8 - Suc n" "Suc (8 - Suc (Suc n)) < 8" using Suc.prems(5) by auto
  have two: "run adb_step s [LoopDelay 0, ConnErr (ad_nconn s) msg] =
      (?u, [Open (ad_nconn s), WaitReconnect (reconnect_delay (8 - Suc n))])"
    using Suc.prems a
    by (simp add: loop_delay_def create_connection_def remove_nth_def conn_err_def MAX_RECONNECT_def Let_def)
  have "ad_loops ?u = [8 - Suc n]" "ad_opening ?u = []" "ad_polling ?u" "\<not> ad_destroyed ?u" "n < 8" "ad_nconn ?u = Suc (ad_nconn s)"
    "ad_queue ?u = ad_queue s" using Suc.prems by simp_all
  from Suc.IH [OF this(1-5)] obtain t out where
    r: "run adb_step ?u (failing_attempts (Suc (ad_nconn s)) (Suc n) msg) = (t, out)" and
    w: "filter (\<lambda>x. \<exists>d. x = WaitReconnect d) out = map (\<lambda>i. WaitReconnect (reconnect_delay (8 - n + i))) [0..<n]" and
    rej: "filter (\<lambda>x. \<exists>k m. x = Reject k m) out = map (\<lambda>r. Reject (caller r) reconnect_error) (ad_queue s)"
      "EmitError reconnect_error \<in> set out" "ad_queue t = []" "\<not> ad_reconnecting t" "ad_loops t = []" by auto
  have "run adb_step s (failing_attempts (ad_nconn s) (Suc (Suc n)) msg) =
      (t, [Open (ad_nconn s), WaitReconnect (reconnect_delay (8 - Suc n))] @ out)"
    using run_append [of adb_step s "[LoopDelay 0, ConnErr (ad_nconn s) msg]" "failing_attempts (Suc (ad_nconn s)) (Suc n) msg"]
    unfolding failing_attempts_Suc [of "ad_nconn s" "Suc n"] two Let_def fst_conv snd_conv r by simp
  moreover have "map (\<lambda>i. WaitReconnect (reconnect_delay (8 - Suc n + i))) [0..<Suc n] =
      WaitReconnect (reconnect_delay (8 - Suc n)) # map (\<lambda>i. WaitReconnect (reconnect_delay (8 - n + i))) [0..<n]"
  proof -
    have "8 - Suc n + Suc i = 8 - n + i" for i using Suc.prems(5) by simp
    then show ?thesis by (simp add: upt_conv_Cons map_Suc_upt [symmetric] comp_def del: upt_Suc)
  qed
  ultimately show ?case using w rej by auto
qed

text \<open>
  Reconnection is bounded: when the connection closes and every attempt to connect fails,
  the eight attempts wait 100, 200, ..., 12800 milliseconds, and then an error is emitted,
  every queued request is rejected, and the observer is no longer reconnecting.
\<close>

theorem reconnection_gives_up:
  assumes "ad_loops s = []" and "ad_opening s = []" and "ad_polling s" and "\<not> ad_destroyed s" and "\<not> ad_reconnecting s"
    and "\<forall>r \<in> set (ad_queue s). \<not> rq_started r"
  shows "\<exists>t out. run adb_step s (SockClose c # failing_attempts (ad_nconn s) 8 msg) = (t, out) \<and>
    filter (\<lambda>x. \<exists>d. x = WaitReconnect d) out = map (\<lambda>i. WaitReconnect (100 * 2 ^ i)) [0..<8] \<and>
    filter (\<lambda>x. \<exists>k m. x = Reject k m) out = map (\<lambda>r. Reject (caller r) reconnect_error) (ad_queue s) \<and>
    EmitError reconnect_error \<in> set out \<and> ad_queue t = [] \<and> \<not> ad_reconnecting t"
proof -
  let ?s = "fst (sock_close s c)"
  have s: "snd (sock_close s c) = [WaitReconnect (reconnect_delay 0)]" "ad_loops ?s = [0]" "ad_opening ?s = []"
    "ad_polling ?s" "\<not> ad_destroyed ?s" "ad_nconn ?s = ad_nconn s" "map caller (ad_queue ?s) = map caller (ad_queue s)"
    using assms by (auto simp: sock_close_def attempt_reconnect_def caller_def Let_def split: list.splits)
  have "ad_loops ?s = [8 - Suc 7]" "(7::nat) < 8" using s(2) by simp_all
  from failing_loop [OF this(1) s(3-5) this(2), of msg] obtain t out where
    r: "run adb_step ?s (failing_attempts (ad_nconn s) 8 msg) = (t, out)" and
    w: "filter (\<lambda>x. \<exists>d. x = WaitReconnect d) out = map (\<lambda>i. WaitReconnect (reconnect_delay (1 + i))) [0..<7]" and
    rej: "filter (\<lambda>x. \<exists>k m. x = Reject k m) out = map (\<lambda>r. Reject (caller r) reconnect_error) (ad_queue ?s)"
      "EmitError reconnect_error \<in> set out" "ad_queue t = []" "\<not> ad_reconnecting t"
    using s(6) by (auto simp: numeral_eq_Suc)
  have q: "map (\<lambda>r. Reject (caller r) reconnect_error) (ad_queue ?s) = map (\<lambda>r. Reject (caller r) reconnect_error) (ad_queue s)"
    using arg_cong [OF s(7), of "map (\<lambda>k. Reject k reconnect_error)"] by (simp add: comp_def)
  have d: "map (\<lambda>i. WaitReconnect (100 * 2 ^ i)) [0..<8] =
      WaitReconnect (reconnect_delay 0) # map (\<lambda>i. WaitReconnect (reconnect_delay (1 + i))) [0..<7]"
    by (simp add: upt_rec reconnect_delay_def)
  show ?thesis
    using r w rej s(1) unfolding q d by (simp add: Let_def)
qed

section \<open>Witnesses\<close>

definition wit_request :: "nat \<Rightarrow> string \<Rightarrow> on_resolve \<Rightarrow> bool \<Rightarrow> bool \<Rightarrow> request" where
  "wit_request key command res need timer = \<lparr>rq_key = key, rq_command = command, rq_resolve = res, rq_need_data = need,
     rq_raw = False, rq_timer = timer, rq_buffer = [], rq_started = False\<rparr>"

definition wit_adb :: "request list \<Rightarrow> adb" where
  "wit_adb q = adb_new\<lparr>ad_queue := q, ad_conn := Some 0, ad_nconn := 1, ad_polling := True\<rparr>"

lemma wit_adb_fields: "ad_queue (wit_adb q) = q" "live (wit_adb q) = Some 0" "ad_buffer (wit_adb q) 0 = []" "0 \<notin> set (ad_dead (wit_adb q))"
  "ad_loops (wit_adb q) = []" "ad_opening (wit_adb q) = []" "ad_polling (wit_adb q)" "\<not> ad_destroyed (wit_adb q)" "\<not> ad_reconnecting (wit_adb q)"
  by (simp_all add: wit_adb_def adb_new_def live_def)

lemma wit_request_fields: "rq_command (wit_request k c r n t) = c" "rq_resolve (wit_request k c r n t) = r"
  "rq_need_data (wit_request k c r n t) = n" "\<not> rq_raw (wit_request k c r n t)" "rq_timer (wit_request k c r n t) = t"
  "\<not> rq_started (wit_request k c r n t)" "rq_key (wit_request k c r n t) = k"
  by (simp_all add: wit_request_def)

definition wit_calls :: "adb_event list" where
  "wit_calls = [StartObserver, Send 1 ''host:devices'' None, ConnOk 0, Send 2 ''host:x'' None, Data 0 ''OKAY0001a'', RequestTimeout 1]"

lemma wit_calls_callers: "concat (map adb_calls wit_calls) = [1, 2]"
  by (simp add: wit_calls_def)

theorem adb_callers_answered_once_witness:
  "distinct (adb_answers (snd (run adb_step adb_new wit_calls)))"
proof -
  have "distinct (concat (map adb_calls wit_calls))" unfolding wit_calls_callers by simp
  from adb_callers_answered_once [OF this] show ?thesis by (rule conjunct1)
qed

theorem chunked_response_witness:
  "hd (snd (run adb_step (wit_adb [wit_request 0 ''host:devices'' (Answer 5) True True])
     (map (Data 0) ([''OK'', ''AY00'', ''02a''] @ [''b''])))) = Resolve 5 ''ab''"
proof -
  let ?r = "wit_request 0 ''host:devices'' (Answer 5) True True"
  have d: "concat [''OK'', ''AY00'', ''02a''] @ ''b'' = data_response ''ab''"
    by (simp add: data_response_def pad_start4_def to_hex.simps hex_char_def numeral_eq_Suc)
  have n: "rq_need_data ?r" "length ''ab'' < 65536" "''b'' \<noteq> []" by (simp_all add: wit_request_fields)
  from chunked_response [OF wit_adb_fields(1) n(1) wit_request_fields(4,6) n(2) wit_adb_fields(4,3) d n(3)]
  show ?thesis using wit_request_fields(2) by blast
qed

theorem encode_command_roundtrip_witness:
  "drop 4 (encode_command ''host:devices'') = ''host:devices''"
  using encode_command_roundtrip [of "''host:devices''"] by simp

theorem queued_request_enters_tunnel_witness:
  "\<exists>t. adb_step (wit_adb [wit_request 0 ''host:transport:s1'' (ThenShell 5 ''shell:getprop'') False True,
       wit_request 1 ''host:devices'' (Answer 6) True False]) (Data 0 ''OKAY'') = (t, [Write 0 (encode_command ''host:devices'')])"
  using queued_request_enters_tunnel [OF wit_adb_fields(1) wit_request_fields(2) _ wit_request_fields(4,6) _ wit_adb_fields(2,3),
      of 0 "''host:transport:s1''" 5 "''shell:getprop''" False True "wit_request 1 ''host:devices'' (Answer 6) True False"]
    wit_request_fields by auto

theorem late_response_answers_next_witness:
  "\<exists>msg. snd (run adb_step (wit_adb [wit_request 0 ''host:devices'' (Answer 5) True True, wit_request 1 ''host:version'' (Answer 6) True False])
     [RequestTimeout 0, Data 0 (data_response ''s1'')]) =
     [Reject 5 msg, Write 0 (encode_command ''host:version''), Resolve 6 ''s1'']"
  using late_response_answers_next [OF wit_adb_fields(1), of "wit_request 0 ''host:devices'' (Answer 5) True True"
      "wit_request 1 ''host:version'' (Answer 6) True False" 6 0 "''s1''"] wit_request_fields wit_adb_fields
  by (simp add: caller_def)

theorem reconnection_gives_up_witness:
  "\<exists>t out. run adb_step (wit_adb [wit_request 0 ''host:devices'' (Answer 5) True True])
      (SockClose 0 # failing_attempts 1 8 ''refused'') = (t, out) \<and> EmitError reconnect_error \<in> set out \<and> ad_queue t = []"
proof -
  let ?s = "wit_adb [wit_request 0 ''host:devices'' (Answer 5) True True]"
  have "\<forall>r \<in> set (ad_queue ?s). \<not> rq_started r" using wit_adb_fields(1) wit_request_fields(6) by simp
  from reconnection_gives_up [OF wit_adb_fields(5-9) this, of 0 "''refused''"] obtain t out where
    "run adb_step ?s (SockClose 0 # failing_attempts (ad_nconn ?s) 8 ''refused'') = (t, out)"
    "EmitError reconnect_error \<in> set out" "ad_queue t = []" by blast
  moreover have "ad_nconn ?s = 1" by (simp add: wit_adb_def)
  ultimately show ?thesis by (intro exI conjI) simp_all
qed

end
