(* ===== verification/Adb_Observer.thy ===== *)
theory Adb_Observer imports Prelude begin

text \<open>
  \<open>lib/units/provider/ADBObserver.ts\<close>, the part above the protocol: the devices that are tracked,
  the comparison of each listing of the server with them, the health checks and the
  reconnection of devices that are stuck. Device objects are shared by reference between the
  map, the listeners and the awaits, so they live in a store; the entries of the map carry the
  moment of their insertion, which is what an iterator over a \<open>Map\<close> that is changed meanwhile
  goes by. The commands to the server are outputs, their answers events.
\<close>

section \<open>State\<close>

record device_entry =
  de_serial :: serial
  de_state :: string

record adb_device =
  dv_serial :: serial
  dv_type :: string
  dv_stuck :: bool

record device_health =
  hc_attempts :: nat
  hc_timeout :: millis
  hc_first :: millis
  hc_last :: millis

text \<open>The health check in progress: where its iterator is, its counts, the device it waits for.\<close>

record health_round =
  hl_after :: nat
  hl_ok :: nat
  hl_bad :: nat
  hl_wait :: "(serial \<times> nat \<times> millis) option"

datatype reconnect_stage = Disconnecting | Connecting | Pausing | Listing

record observer =
  ob_objs :: "nat \<Rightarrow> adb_device"
  ob_next :: nat
  ob_stamp :: nat
  ob_devices :: "(serial, nat \<times> nat) omap"
  ob_health :: "(serial, device_health) omap"
  ob_polling :: bool
  ob_continue :: bool
  ob_destroyed :: bool
  ob_loop :: "health_round option"
  ob_reconnects :: "(nat \<times> reconnect_stage) list"

datatype observer_out =
    EmitConnect nat
  | EmitUpdate nat string
  | EmitDisconnect nat
  | EmitStuck nat device_health
  | EmitHealthcheck nat nat
  | EmitFailure string
  | Command string "serial option"

definition isOnline :: "string \<Rightarrow> bool" where
  "isOnline t \<longleftrightarrow> t \<in> {''device'', ''emulator''}"

definition HEALTH_ATTEMPTS :: nat where "HEALTH_ATTEMPTS = 3"

definition REQUEST_TIMEOUT :: millis where "REQUEST_TIMEOUT = 5000"

definition obs_new :: observer where
  "obs_new = \<lparr>ob_objs = (\<lambda>_. \<lparr>dv_serial = [], dv_type = [], dv_stuck = False\<rparr>), ob_next = 0, ob_stamp = 0, ob_devices = [],
     ob_health = [], ob_polling = False, ob_continue = False, ob_destroyed = False, ob_loop = None, ob_reconnects = []\<rparr>"

definition upd_device :: "nat \<Rightarrow> (adb_device \<Rightarrow> adb_device) \<Rightarrow> observer \<Rightarrow> observer" where
  "upd_device d f s = s\<lparr>ob_objs := (ob_objs s)(d := f (ob_objs s d))\<rparr>"

definition tracked_ref :: "observer \<Rightarrow> serial \<Rightarrow> nat option" where
  "tracked_ref s i = map_option snd (om_get (ob_devices s) i)"

text \<open>\<open>Map.set\<close>: a key that is present keeps its place in the iteration.\<close>

definition set_device :: "serial \<Rightarrow> nat \<Rightarrow> observer \<Rightarrow> observer" where
  "set_device i d s =
     (case om_get (ob_devices s) i of
        Some (stamp, _) \<Rightarrow> s\<lparr>ob_devices := om_set i (stamp, d) (ob_devices s)\<rparr>
      | None \<Rightarrow> s\<lparr>ob_devices := om_set i (Suc (ob_stamp s), d) (ob_devices s), ob_stamp := Suc (ob_stamp s)\<rparr>)"

section \<open>The listing of the server\<close>

definition parse_line :: "string \<Rightarrow> device_entry list" where
  "parse_line line =
     (let t = trim line in
      if t = [] then []
      else (case split_ws t of
          i # st # _ \<Rightarrow> [\<lparr>de_serial = i, de_state = st\<rparr>]
        | _ \<Rightarrow> []))"

definition parse_devices :: "string \<Rightarrow> device_entry list" where
  "parse_devices output = concat (map parse_line (split_char (CHR 0x0A) (trim output)))"

section \<open>Polling\<close>

definition create_device :: "device_entry \<Rightarrow> observer \<Rightarrow> nat \<times> observer" where
  "create_device e s =
     (ob_next s, s\<lparr>ob_objs := (ob_objs s)(ob_next s := \<lparr>dv_serial = de_serial e, dv_type = de_state e, dv_stuck = False\<rparr>),
        ob_next := Suc (ob_next s)\<rparr>)"

definition poll_entry :: "observer \<Rightarrow> device_entry \<Rightarrow> observer \<times> observer_out list" where
  "poll_entry s e =
     (case tracked_ref s (de_serial e) of
        None \<Rightarrow> (let c = create_device e s in (set_device (de_serial e) (fst c) (snd c), [EmitConnect (fst c)]))
      | Some d \<Rightarrow>
          (if dv_type (ob_objs s d) \<noteq> de_state e then
             (let old = dv_type (ob_objs s d);
                  s1 = upd_device d (\<lambda>v. v\<lparr>dv_type := de_state e\<rparr>) s;
                  s2 = (if isOnline (de_state e) then upd_device d (\<lambda>v. v\<lparr>dv_stuck := False\<rparr>) s1 else s1)
              in (s2, [EmitUpdate d old]))
           else (s, [])))"

definition drop_device :: "serial list \<Rightarrow> observer \<Rightarrow> serial \<Rightarrow> observer \<times> observer_out list" where
  "drop_device current s i =
     (if i \<in> set current then (s, [])
      else (case tracked_ref s i of
          None \<Rightarrow> (s, [])
        | Some d \<Rightarrow> (s\<lparr>ob_devices := om_del i (ob_devices s), ob_health := om_del i (ob_health s)\<rparr>, [EmitDisconnect d])))"

definition poll_start :: "observer \<Rightarrow> observer \<times> observer_out list" where
  "poll_start s =
     (if ob_polling s \<or> ob_destroyed s then (s, [])
      else (s\<lparr>ob_polling := True\<rparr>, [Command ''host:devices'' None]))"

definition poll_listing :: "observer \<Rightarrow> device_entry list \<Rightarrow> observer \<times> observer_out list" where
  "poll_listing s es =
     (let previous = om_keys (ob_devices s);
          a = run poll_entry s es;
          b = run (drop_device (map de_serial es)) (fst a) previous
      in ((fst b)\<lparr>ob_polling := False\<rparr>, snd a @ snd b))"

fun poll_answer :: "observer \<Rightarrow> string + string \<Rightarrow> observer \<times> observer_out list" where
  "poll_answer s (Inl err) = (s\<lparr>ob_polling := False\<rparr>, [EmitFailure (''Failed to get ADB devices: '' @ err)])"
| "poll_answer s (Inr output) = poll_listing s (parse_devices output)"

section \<open>Health checks\<close>

text \<open>The next entry of an iterator that has passed the entries up to a stamp.\<close>

definition next_entry :: "observer \<Rightarrow> nat \<Rightarrow> (serial \<times> nat \<times> nat) option" where
  "next_entry s after = List.find (\<lambda>e. after < fst (snd e)) (ob_devices s)"

text \<open>
  The loop of \<open>performHealthChecks\<close> up to the next \<open>await\<close>. The entries that can still come
  have a stamp the iterator has not passed, and every turn passes one of them.
\<close>

lemma next_entry_Some:
  "next_entry s after = Some (i, stamp, d) \<Longrightarrow> after < stamp \<and> (i, stamp, d) \<in> set (ob_devices s)"
  unfolding next_entry_def find_Some_iff by (auto simp: in_set_conv_nth) (metis fst_conv snd_conv)

function advance :: "observer \<Rightarrow> health_round \<Rightarrow> millis \<Rightarrow> observer \<times> observer_out list" where
  "advance s h now =
     (case next_entry s (hl_after h) of
        None \<Rightarrow> (s\<lparr>ob_loop := None\<rparr>, [EmitHealthcheck (hl_ok h) (hl_bad h)])
      | Some (i, stamp, d) \<Rightarrow>
          (if ob_destroyed s \<or> \<not> ob_continue s then (s\<lparr>ob_loop := None\<rparr>, [EmitHealthcheck (hl_ok h) (hl_bad h)])
           else if dv_stuck (ob_objs s d) \<or> \<not> isOnline (dv_type (ob_objs s d))
           then advance s (h\<lparr>hl_after := stamp\<rparr>) now
           else (s\<lparr>ob_loop := Some (h\<lparr>hl_after := stamp, hl_wait := Some (i, d, now)\<rparr>)\<rparr>,
             [Command ''shell:getprop ro.build.version.sdk'' (Some i)])))"
  by pat_completeness auto
termination
proof (relation "measure (\<lambda>(s, h, now). length (filter (\<lambda>e. hl_after h < fst (snd e)) (ob_devices s)))")
  fix s :: observer and h :: health_round and now :: millis and x i y stamp d
  assume "next_entry s (hl_after h) = Some x" "(i, y) = x" "(stamp, d) = y"
  then have e: "hl_after h < stamp" "(i, stamp, d) \<in> set (ob_devices s)" using next_entry_Some by auto
  have "length (filter (\<lambda>e. stamp < fst (snd e)) xs) < length (filter (\<lambda>e. hl_after h < fst (snd e)) xs)"
    if "(i, stamp, d) \<in> set xs" for xs :: "(serial \<times> nat \<times> nat) list"
  proof -
    have le: "length (filter (\<lambda>e. stamp < fst (snd e)) ys) \<le> length (filter (\<lambda>e. hl_after h < fst (snd e)) ys)"
      for ys :: "(serial \<times> nat \<times> nat) list"
      by (induction ys) (use e(1) in auto)
    from that obtain as bs where "xs = as @ (i, stamp, d) # bs" by (auto simp: in_set_conv_decomp)
    then show ?thesis using le [of as] le [of bs] e(1) by simp
  qed
  from this [OF e(2)] show "((s, h\<lparr>hl_after := stamp\<rparr>, now), s, h, now) \<in>
      measure (\<lambda>(s, h, now). length (filter (\<lambda>e. hl_after h < fst (snd e)) (ob_devices s)))" by simp
qed simp

declare advance.simps [simp del]

definition health_start :: "observer \<Rightarrow> millis \<Rightarrow> observer \<times> observer_out list" where
  "health_start s now =
     (if ob_destroyed s \<or> ob_devices s = [] \<or> ob_loop s \<noteq> None then (s, [])
      else advance s \<lparr>hl_after = 0, hl_ok = 0, hl_bad = 0, hl_wait = None\<rparr> now)"

definition start_reconnect :: "observer \<Rightarrow> nat \<Rightarrow> observer \<times> observer_out list" where
  "start_reconnect s d =
     (let i = dv_serial (ob_objs s d) in
      if CHR '':'' \<in> set i \<and> \<not> ob_destroyed s then
        (if om_has (ob_devices s) i
         then (s\<lparr>ob_reconnects := ob_reconnects s @ [(d, Disconnecting)]\<rparr>, [Command (''host:disconnect:'' @ i) None])
         else (s\<lparr>ob_reconnects := ob_reconnects s @ [(d, Connecting)]\<rparr>, [Command (''host:connect:'' @ i) None]))
      else (s, []))"

definition health_failure :: "observer \<Rightarrow> serial \<Rightarrow> nat \<Rightarrow> millis \<Rightarrow> observer \<times> observer_out list" where
  "health_failure s i d now =
     (case om_get (ob_health s) i of
        None \<Rightarrow>
          (s\<lparr>ob_health := om_set i \<lparr>hc_attempts = 1, hc_timeout = REQUEST_TIMEOUT, hc_first = now, hc_last = now\<rparr> (ob_health s)\<rparr>, [])
      | Some h \<Rightarrow>
          (let h1 = h\<lparr>hc_attempts := Suc (hc_attempts h), hc_last := now\<rparr> in
           if HEALTH_ATTEMPTS \<le> hc_attempts h1 then
             (let s1 = upd_device d (\<lambda>v. v\<lparr>dv_stuck := True\<rparr>) s;
                  s2 = set_device (dv_serial (ob_objs s1 d)) d s1;
                  s3 = s2\<lparr>ob_health := om_del i (ob_health s2)\<rparr>;
                  r = start_reconnect s3 d
              in (fst r, EmitStuck d h1 # snd r))
           else (s\<lparr>ob_health := om_set i h1 (ob_health s)\<rparr>, [])))"

text \<open>The answer to the command of a health check; \<open>now\<close> is the clock at the next device.\<close>

definition health_answer :: "observer \<Rightarrow> bool \<Rightarrow> millis \<Rightarrow> observer \<times> observer_out list" where
  "health_answer s ok now =
     (case ob_loop s of
        None \<Rightarrow> (s, [])
      | Some h \<Rightarrow>
          (case hl_wait h of
             None \<Rightarrow> (s, [])
           | Some (i, d, at) \<Rightarrow>
               (if ok then advance (s\<lparr>ob_health := om_del i (ob_health s)\<rparr>) (h\<lparr>hl_ok := Suc (hl_ok h), hl_wait := None\<rparr>) now
                else (let f = health_failure s i d at;
                          r = advance (fst f) (h\<lparr>hl_bad := Suc (hl_bad h), hl_wait := None\<rparr>) now
                      in (fst r, snd f @ snd r)))))"

section \<open>Reconnecting a device\<close>

text \<open>An await of \<open>reconnect\<close> ends: a command is answered, or the pause is over.\<close>

definition reconnect_resume :: "observer \<Rightarrow> nat \<Rightarrow> string + string \<Rightarrow> observer \<times> observer_out list" where
  "reconnect_resume s n answer =
     (if n < length (ob_reconnects s) then
        (let (d, stage) = ob_reconnects s ! n;
             s1 = s\<lparr>ob_reconnects := remove_nth n (ob_reconnects s)\<rparr>;
             next = (\<lambda>st. s1\<lparr>ob_reconnects := ob_reconnects s1 @ [(d, st)]\<rparr>)
         in case stage of
              Disconnecting \<Rightarrow> (next Connecting, [Command (''host:connect:'' @ dv_serial (ob_objs s d)) None])
            | Connecting \<Rightarrow> (case answer of Inl err \<Rightarrow> (s1, []) | Inr _ \<Rightarrow> (next Pausing, []))
            | Pausing \<Rightarrow> (next Listing, [Command ''host:devices'' None])
            | Listing \<Rightarrow>
                (case answer of
                   Inl err \<Rightarrow> (s1, [])
                 | Inr output \<Rightarrow>
                     (case List.find (\<lambda>e. de_serial e = dv_serial (ob_objs s d)) (parse_devices output) of
                        Some e \<Rightarrow> (if isOnline (de_state e)
                          then (upd_device d (\<lambda>v. v\<lparr>dv_type := ''device'', dv_stuck := False\<rparr>) s1, []) else (s1, []))
                      | None \<Rightarrow> (s1, []))))
      else (s, []))"

section \<open>The observer as a machine\<close>

datatype observer_event =
    StartObserving
  | PollTimer
  | PollAnswer "string + string"
  | HealthTimer millis
  | HealthAnswer bool millis
  | Reconnect nat
  | ReconnectResume nat "string + string"
  | StopObserving
  | DestroyObserving

definition obs_destroy :: "observer \<Rightarrow> observer" where
  "obs_destroy s = s\<lparr>ob_destroyed := True, ob_continue := False, ob_devices := [], ob_health := []\<rparr>"

fun obs_step :: "observer \<Rightarrow> observer_event \<Rightarrow> observer \<times> observer_out list" where
  "obs_step s StartObserving =
     (if ob_continue s \<or> ob_destroyed s then (s, []) else poll_start (s\<lparr>ob_continue := True\<rparr>))"
| "obs_step s PollTimer = poll_start s"
| "obs_step s (PollAnswer a) = (if ob_polling s then poll_answer s a else (s, []))"
| "obs_step s (HealthTimer now) = health_start s now"
| "obs_step s (HealthAnswer ok now) = health_answer s ok now"
| "obs_step s (Reconnect d) = start_reconnect s d"
| "obs_step s (ReconnectResume n a) = reconnect_resume s n a"
| "obs_step s StopObserving = (s\<lparr>ob_continue := False\<rparr>, [])"
| "obs_step s DestroyObserving = (obs_destroy s, [])"

section \<open>A listing is read back\<close>

definition line_of :: "device_entry \<Rightarrow> string" where
  "line_of e = de_serial e @ CHR 0x09 # de_state e"

definition listing :: "device_entry list \<Rightarrow> string" where
  "listing es = concat (map (\<lambda>e. line_of e @ [CHR 0x0A]) es)"

definition word_ok :: "string \<Rightarrow> bool" where
  "word_ok w \<longleftrightarrow> w \<noteq> [] \<and> list_all (\<lambda>c. \<not> is_ws c) w"

definition entry_ok :: "device_entry \<Rightarrow> bool" where
  "entry_ok e \<longleftrightarrow> word_ok (de_serial e) \<and> word_ok (de_state e)"

lemma trim_solid:
  assumes "xs \<noteq> []" and "\<not> is_ws (hd xs)" and "\<not> is_ws (last xs)" and "list_all is_ws ws"
  shows "trim (xs @ ws) = xs"
proof -
  have a: "dropWhile is_ws (xs @ ws) = xs @ ws" using assms(1,2) by (cases xs) simp_all
  have "dropWhile is_ws (rev ws @ rev xs) = dropWhile is_ws (rev xs)"
    using assms(4) by (simp add: dropWhile_append list_all_iff)
  also have "\<dots> = rev xs" using assms(1,3) by (cases xs rule: rev_cases) simp_all
  finally show ?thesis by (simp add: trim_def a)
qed

lemma split_char_none: "d \<notin> set a \<Longrightarrow> split_char d a = [a]"
  by (induction a) auto

lemma split_char_first: "d \<notin> set a \<Longrightarrow> split_char d (a @ d # b) = a # split_char d b"
  by (induction a) auto

lemma split_lines:
  "d \<notin> set l \<Longrightarrow> list_all (\<lambda>a. d \<notin> set a) ls \<Longrightarrow> split_char d (concat (map (\<lambda>a. a @ [d]) ls) @ l) = ls @ [l]"
  by (induction ls) (simp_all add: split_char_none split_char_first)

lemma split_ws_word: "list_all (\<lambda>c. \<not> is_ws c) w \<Longrightarrow> w \<noteq> [] \<Longrightarrow> split_ws_aux acc b (w @ r) = split_ws_aux (rev w @ acc) False r"
proof (induction w arbitrary: acc b)
  case (Cons c w)
  then show ?case by (cases w) auto
qed simp

lemma line_solid:
  assumes "entry_ok e"
  shows "line_of e \<noteq> []" "\<not> is_ws (hd (line_of e))" "\<not> is_ws (last (line_of e))" "CHR 0x0A \<notin> set (line_of e)"
proof -
  have nl: "is_ws (CHR 0x0A)" by (simp add: is_ws_def)
  have w: "de_serial e \<noteq> []" "de_state e \<noteq> []" "\<forall>c \<in> set (de_serial e) \<union> set (de_state e). \<not> is_ws c"
    using assms by (auto simp: entry_ok_def word_ok_def list_all_iff)
  then show "line_of e \<noteq> []" "\<not> is_ws (hd (line_of e))" "\<not> is_ws (last (line_of e))"
    by (simp_all add: line_of_def)
  show "CHR 0x0A \<notin> set (line_of e)" using w(3) nl by (auto simp: line_of_def)
qed

lemma parse_line_of: "entry_ok e \<Longrightarrow> parse_line (line_of e) = [e]"
proof -
  assume e: "entry_ok e"
  have "split_ws (line_of e) = [de_serial e, de_state e]"
    using e split_ws_word [of "de_serial e" "[]" False "CHR 0x09 # de_state e"] split_ws_word [of "de_state e" "[]" True "[]"]
    by (simp add: split_ws_def line_of_def entry_ok_def word_ok_def is_ws_def)
  then show ?thesis using trim_solid [of "line_of e" "[]"] line_solid [OF e] by (simp add: parse_line_def)
qed

lemma parse_listing:
  assumes "list_all entry_ok es"
  shows "parse_devices (listing es) = es"
proof (cases es rule: rev_cases)
  case Nil
  then show ?thesis by (simp add: parse_devices_def listing_def trim_def parse_line_def)
next
  case (snoc fs e)
  let ?b = "concat (map (\<lambda>a. a @ [CHR 0x0A]) (map line_of fs)) @ line_of e"
  have e: "entry_ok e" and fs: "list_all entry_ok fs" using assms snoc by simp_all
  have l: "listing es = ?b @ [CHR 0x0A]" by (simp add: listing_def snoc comp_def)
  have "\<not> is_ws (hd ?b)"
    using line_solid [OF e] fs line_solid [of "hd fs"] by (cases fs) (simp_all add: hd_append)
  then have "trim (listing es) = ?b"
    using trim_solid [of ?b "[CHR 0x0A]"] line_solid [OF e] unfolding l by (simp add: is_ws_def)
  moreover have "split_char (CHR 0x0A) ?b = map line_of fs @ [line_of e]"
    by (rule split_lines) (use fs line_solid(4) e in \<open>auto simp: list_all_iff\<close>)
  moreover have "concat (map parse_line (map line_of gs)) = gs" if "list_all entry_ok gs" for gs
    using that by (induction gs) (simp_all add: parse_line_of)
  from this [OF assms] have "concat (map parse_line (map line_of fs @ [line_of e])) = es" by (simp add: snoc)
  ultimately show ?thesis by (simp add: parse_devices_def)
qed

section \<open>Polling implements an abstract comparison\<close>

text \<open>
  The abstract tracker is a map from serials to types, in order of connection; a listing adds
  and updates entries in its order and then removes what it does not name.
\<close>

datatype tracker_event = Came serial | Changed serial string | Gone serial

definition abs_entry :: "(serial, string) omap \<Rightarrow> device_entry \<Rightarrow> (serial, string) omap \<times> tracker_event list" where
  "abs_entry m e =
     (om_set (de_serial e) (de_state e) m,
      case om_get m (de_serial e) of
        None \<Rightarrow> [Came (de_serial e)]
      | Some t \<Rightarrow> if t = de_state e then [] else [Changed (de_serial e) t])"

definition abs_drop :: "serial list \<Rightarrow> (serial, string) omap \<Rightarrow> serial \<Rightarrow> (serial, string) omap \<times> tracker_event list" where
  "abs_drop current m i = (if i \<in> set current \<or> \<not> om_has m i then (m, []) else (om_del i m, [Gone i]))"

definition abs_poll :: "(serial, string) omap \<Rightarrow> device_entry list \<Rightarrow> (serial, string) omap \<times> tracker_event list" where
  "abs_poll m es =
     (let a = run abs_entry m es; b = run (abs_drop (map de_serial es)) (fst a) (om_keys m) in (fst b, snd a @ snd b))"

definition tracked :: "observer \<Rightarrow> (serial, string) omap" where
  "tracked s = map (\<lambda>(i, v). (i, dv_type (ob_objs s (snd v)))) (ob_devices s)"

fun told :: "observer \<Rightarrow> observer_out \<Rightarrow> tracker_event list" where
  "told s (EmitConnect d) = [Came (dv_serial (ob_objs s d))]"
| "told s (EmitUpdate d old) = [Changed (dv_serial (ob_objs s d)) old]"
| "told s (EmitDisconnect d) = [Gone (dv_serial (ob_objs s d))]"
| "told s _ = []"

abbreviation told_all :: "observer \<Rightarrow> observer_out list \<Rightarrow> tracker_event list" where
  "told_all s outs \<equiv> concat (map (told s) outs)"

definition entry_fine :: "observer \<Rightarrow> serial \<times> nat \<times> nat \<Rightarrow> bool" where
  "entry_fine s e = (case e of (i, st, d) \<Rightarrow> st \<le> ob_stamp s \<and> d < ob_next s \<and> dv_serial (ob_objs s d) = i)"

definition obs_ok :: "observer \<Rightarrow> bool" where
  "obs_ok s \<longleftrightarrow> om_ok (ob_devices s) \<and> list_all (entry_fine s) (ob_devices s)"

lemma tracked_keys: "om_keys (tracked s) = om_keys (ob_devices s)"
  by (simp add: om_keys_def tracked_def comp_def case_prod_beta)

lemma tracked_get: "om_get (tracked s) i = map_option (\<lambda>d. dv_type (ob_objs s d)) (tracked_ref s i)"
  by (simp add: om_get_def tracked_def tracked_ref_def map_of_map option.map_comp comp_def)

lemma ref_fine:
  assumes "obs_ok s" and "tracked_ref s i = Some d"
  shows "d < ob_next s" and "dv_serial (ob_objs s d) = i"
proof -
  from assms(2) obtain st where "om_get (ob_devices s) i = Some (st, d)" by (auto simp: tracked_ref_def)
  then have "(i, st, d) \<in> set (ob_devices s)" by (simp add: om_get_def map_of_SomeD)
  then show "d < ob_next s" "dv_serial (ob_objs s d) = i"
    using assms(1) by (auto simp: obs_ok_def list_all_iff entry_fine_def)
qed

lemma map_set: "map (\<lambda>(i, v). (i, f v)) (om_set k v m) = om_set k (f v) (map (\<lambda>(i, v). (i, f v)) m)"
  by (induction m) (auto simp: om_set_def)

lemma map_del: "map (\<lambda>(i, v). (i, f v)) (om_del k m) = om_del k (map (\<lambda>(i, v). (i, f v)) m)"
  by (induction m) (auto simp: om_del_def AList.delete_eq)

lemma set_same: "om_get m k = Some v \<Longrightarrow> om_set k v m = m"
  by (induction m) (auto simp: om_get_def om_set_def split: if_splits)

lemma set_om_set: "set (om_set k v m) \<subseteq> insert (k, v) (set m)"
  by (induction m) (auto simp: om_set_def)

lemma set_om_del: "set (om_del k m) \<subseteq> set m"
  by (auto simp: om_del_def AList.delete_eq)

lemma map_set_at: "om_has m i \<Longrightarrow> om_ok m \<Longrightarrow> map (\<lambda>(k, v). (k, if k = i then x else f v)) m = om_set i x (map (\<lambda>(k, v). (k, f v)) m)"
proof (induction m)
  case (Cons e m)
  obtain k v where e: "e = (k, v)" by (cases e)
  show ?case
  proof (cases "k = i")
    case True
    then have "\<forall>p \<in> set m. fst p \<noteq> i" using Cons.prems(2) e by (auto simp: om_ok_def image_iff)
    then have "map (\<lambda>(k, v). (k, if k = i then x else f v)) m = map (\<lambda>(k, v). (k, f v)) m" by (auto intro!: map_cong)
    then show ?thesis using True e by (simp add: om_set_def)
  next
    case False
    then show ?thesis using Cons e by (simp add: om_set_def om_has_def om_get_def om_ok_def)
  qed
qed (simp add: om_has_def)

text \<open>A new object does not touch the objects of the map.\<close>

lemma new_tracked:
  assumes "obs_ok s"
  shows "map (\<lambda>(i, v). (i, dv_type (((ob_objs s)(ob_next s := x)) (snd v)))) (ob_devices s) = tracked s"
  unfolding tracked_def using assms by (intro map_cong refl) (auto simp: obs_ok_def list_all_iff entry_fine_def)

lemma connect_refines:
  assumes "obs_ok s" and "tracked_ref s (de_serial e) = None"
  shows "obs_ok (fst (poll_entry s e))" "tracked (fst (poll_entry s e)) = fst (abs_entry (tracked s) e)"
    "told_all (fst (poll_entry s e)) (snd (poll_entry s e)) = snd (abs_entry (tracked s) e)"
proof -
  let ?o = "\<lparr>dv_serial = de_serial e, dv_type = de_state e, dv_stuck = False\<rparr>"
  let ?t = "s\<lparr>ob_objs := (ob_objs s)(ob_next s := ?o), ob_next := Suc (ob_next s),
      ob_devices := om_set (de_serial e) (Suc (ob_stamp s), ob_next s) (ob_devices s), ob_stamp := Suc (ob_stamp s)\<rparr>"
  have n: "om_get (ob_devices s) (de_serial e) = None" using assms(2) by (simp add: tracked_ref_def)
  have p: "poll_entry s e = (?t, [EmitConnect (ob_next s)])"
    using assms(2) n by (simp add: poll_entry_def create_device_def set_device_def Let_def)
  have "entry_fine ?t x" if "x \<in> set (ob_devices ?t)" for x
  proof -
    from that consider "x = (de_serial e, Suc (ob_stamp s), ob_next s)" | "x \<in> set (ob_devices s)"
      using set_om_set [of "de_serial e" "(Suc (ob_stamp s), ob_next s)" "ob_devices s"] by auto
    then show ?thesis
      by cases (use assms(1) in \<open>auto simp: obs_ok_def list_all_iff entry_fine_def\<close>)
  qed
  then show "obs_ok (fst (poll_entry s e))" using assms(1) unfolding p by (simp add: obs_ok_def list_all_iff)
  let ?f = "\<lambda>v :: nat \<times> nat. dv_type (((ob_objs s)(ob_next s := ?o)) (snd v))"
  have "tracked ?t = map (\<lambda>(i, v). (i, ?f v)) (om_set (de_serial e) (Suc (ob_stamp s), ob_next s) (ob_devices s))"
    by (simp add: tracked_def)
  also have "\<dots> = om_set (de_serial e) (de_state e) (map (\<lambda>(i, v). (i, ?f v)) (ob_devices s))"
    by (subst map_set) simp
  also have "\<dots> = om_set (de_serial e) (de_state e) (tracked s)" by (simp only: new_tracked [OF assms(1)])
  finally show "tracked (fst (poll_entry s e)) = fst (abs_entry (tracked s) e)" unfolding p by (simp add: abs_entry_def)
  have "om_get (tracked s) (de_serial e) = None" using assms(2) by (simp add: tracked_get)
  then show "told_all (fst (poll_entry s e)) (snd (poll_entry s e)) = snd (abs_entry (tracked s) e)"
    unfolding p by (simp add: abs_entry_def)
qed

lemma ref_unique:
  assumes "obs_ok s" and "tracked_ref s i = Some d" and "(k, v) \<in> set (ob_devices s)"
  shows "snd v = d \<longleftrightarrow> k = i"
proof
  assume "snd v = d"
  then show "k = i" using assms ref_fine(2) [OF assms(1,2)] by (auto simp: obs_ok_def list_all_iff entry_fine_def)
next
  assume "k = i"
  then have "om_get (ob_devices s) i = Some v" using assms(1,3) by (simp add: om_get_def obs_ok_def om_ok_def)
  then show "snd v = d" using assms(2) by (simp add: tracked_ref_def)
qed

lemma update_refines:
  assumes "obs_ok s" and "tracked_ref s (de_serial e) = Some d"
  shows "obs_ok (fst (poll_entry s e))" "tracked (fst (poll_entry s e)) = fst (abs_entry (tracked s) e)"
    "told_all (fst (poll_entry s e)) (snd (poll_entry s e)) = snd (abs_entry (tracked s) e)"
proof -
  have m: "om_get (tracked s) (de_serial e) = Some (dv_type (ob_objs s d))" using assms(2) by (simp add: tracked_get)
  have i: "dv_serial (ob_objs s d) = de_serial e" using ref_fine(2) [OF assms] .
  have "obs_ok (fst (poll_entry s e)) \<and> tracked (fst (poll_entry s e)) = fst (abs_entry (tracked s) e) \<and>
    told_all (fst (poll_entry s e)) (snd (poll_entry s e)) = snd (abs_entry (tracked s) e)"
  proof (cases "dv_type (ob_objs s d) = de_state e")
    case True
    then show ?thesis using assms m set_same [OF m] by (simp add: poll_entry_def abs_entry_def)
  next
    case False
    let ?g = "\<lambda>v. v\<lparr>dv_type := de_state e, dv_stuck := (if isOnline (de_state e) then False else dv_stuck v)\<rparr>"
    have p: "poll_entry s e = (upd_device d ?g s, [EmitUpdate d (dv_type (ob_objs s d))])"
      using assms(2) False by (simp add: poll_entry_def upd_device_def Let_def)
    have "tracked (upd_device d ?g s) = map (\<lambda>(k, v). (k, if k = de_serial e then de_state e else dv_type (ob_objs s (snd v)))) (ob_devices s)"
      unfolding tracked_def upd_device_def
    proof (rule map_cong)
      fix x
      assume x: "x \<in> set (ob_devices s)"
      obtain k v where k: "x = (k, v)" by (cases x)
      from ref_unique [OF assms, of k v] x show "(case x of (i, v) \<Rightarrow> (i, dv_type (ob_objs (s\<lparr>ob_objs := (ob_objs s)(d := ?g (ob_objs s d))\<rparr>) (snd v)))) =
          (case x of (k, v) \<Rightarrow> (k, if k = de_serial e then de_state e else dv_type (ob_objs s (snd v))))"
        unfolding k by (cases "k = de_serial e") simp_all
    qed simp
    also have "\<dots> = om_set (de_serial e) (de_state e) (tracked s)"
      unfolding tracked_def using assms by (intro map_set_at) (auto simp: obs_ok_def om_has_def tracked_ref_def)
    finally show ?thesis
      using assms(1) m False i unfolding p by (auto simp: obs_ok_def entry_fine_def upd_device_def abs_entry_def list_all_iff split: prod.splits)
  qed
  then show "obs_ok (fst (poll_entry s e))" "tracked (fst (poll_entry s e)) = fst (abs_entry (tracked s) e)"
    "told_all (fst (poll_entry s e)) (snd (poll_entry s e)) = snd (abs_entry (tracked s) e)" by simp_all
qed

lemmas entry_refines = connect_refines update_refines

fun known :: "observer \<Rightarrow> observer_out \<Rightarrow> bool" where
  "known s (EmitConnect d) = (d < ob_next s)"
| "known s (EmitUpdate d old) = (d < ob_next s)"
| "known s (EmitDisconnect d) = (d < ob_next s)"
| "known s _ = True"

definition extends :: "observer \<Rightarrow> observer \<Rightarrow> bool" where
  "extends s t \<longleftrightarrow> ob_next s \<le> ob_next t \<and> (\<forall>d < ob_next s. dv_serial (ob_objs t d) = dv_serial (ob_objs s d))"

lemma extends_trans: "extends s t \<Longrightarrow> extends t u \<Longrightarrow> extends s u"
  by (auto simp: extends_def)

lemma told_extends: "list_all (known s) outs \<Longrightarrow> extends s t \<Longrightarrow> told_all t outs = told_all s outs"
proof (induction outs)
  case (Cons x outs)
  then show ?case by (cases x) (auto simp: extends_def)
qed simp

lemma known_extends: "list_all (known s) outs \<Longrightarrow> extends s t \<Longrightarrow> list_all (known t) outs"
proof (induction outs)
  case (Cons x outs)
  then show ?case by (cases x) (auto simp: extends_def)
qed simp

text \<open>A step implements a step of the abstract tracker, and so does a run.\<close>

definition implements :: "observer \<Rightarrow> observer \<times> observer_out list \<Rightarrow> (serial, string) omap \<times> tracker_event list \<Rightarrow> bool" where
  "implements s r a \<longleftrightarrow> obs_ok (fst r) \<and> tracked (fst r) = fst a \<and> told_all (fst r) (snd r) = snd a \<and>
     list_all (known (fst r)) (snd r) \<and> extends s (fst r)"

lemma implements_seq:
  assumes "implements s (t, o1) (m, e1)" and "implements t (u, o2) (n, e2)"
  shows "implements s (u, o1 @ o2) (n, e1 @ e2)"
  using assms told_extends [of t o1 u] known_extends [of t o1 u] extends_trans [of s t u] by (auto simp: implements_def)

lemma implements_run:
  assumes "\<And>s e. obs_ok s \<Longrightarrow> implements s (f s e) (g (tracked s) e)"
  shows "obs_ok s \<Longrightarrow> implements s (run f s es) (run g (tracked s) es)"
proof (induction es arbitrary: s)
  case Nil
  then show ?case by (simp add: implements_def extends_def)
next
  case (Cons e es)
  obtain t o1 where f: "f s e = (t, o1)" by (cases "f s e")
  obtain m e1 where g: "g (tracked s) e = (m, e1)" by (cases "g (tracked s) e")
  have i: "implements s (t, o1) (m, e1)" using assms [OF Cons.prems, of e] f g by simp
  then have t: "obs_ok t" "tracked t = m" by (simp_all add: implements_def)
  obtain u o2 where u: "run f t es = (u, o2)" by (cases "run f t es")
  obtain n e2 where n: "run g m es = (n, e2)" by (cases "run g m es")
  have "implements t (u, o2) (n, e2)" using Cons.IH [OF t(1)] t(2) u n by simp
  from implements_seq [OF i this] show ?case using f g u n by (simp add: Let_def)
qed

lemma implements_entry: "obs_ok s \<Longrightarrow> implements s (poll_entry s e) (abs_entry (tracked s) e)"
proof -
  assume s: "obs_ok s"
  show ?thesis
  proof (cases "tracked_ref s (de_serial e)")
    case None
    then have "list_all (known (fst (poll_entry s e))) (snd (poll_entry s e))" "extends s (fst (poll_entry s e))"
      by (auto simp: poll_entry_def create_device_def set_device_def tracked_ref_def Let_def extends_def)
    then show ?thesis using connect_refines [OF s None] by (simp add: implements_def)
  next
    case (Some d)
    then have "list_all (known (fst (poll_entry s e))) (snd (poll_entry s e))" "extends s (fst (poll_entry s e))"
      using ref_fine(1) [OF s Some] by (auto simp: poll_entry_def upd_device_def Let_def extends_def)
    then show ?thesis using update_refines [OF s Some] by (simp add: implements_def)
  qed
qed

lemma implements_drop: "obs_ok s \<Longrightarrow> implements s (drop_device cur s i) (abs_drop cur (tracked s) i)"
proof -
  assume s: "obs_ok s"
  show ?thesis
  proof (cases "tracked_ref s i")
    case None
    then have "\<not> om_has (tracked s) i" by (simp add: om_has_def tracked_get)
    then show ?thesis using s None by (simp add: implements_def drop_device_def abs_drop_def extends_def)
  next
    case (Some d)
    have sub: "set (om_del i (ob_devices s)) \<subseteq> set (ob_devices s)" by (rule set_om_del)
    have "om_has (tracked s) i" using Some by (simp add: om_has_def tracked_get)
    then show ?thesis
      using s Some sub ref_fine [OF s Some]
      by (auto simp: implements_def drop_device_def abs_drop_def extends_def obs_ok_def tracked_def map_del list_all_iff entry_fine_def)
  qed
qed

lemma poll_implements: "obs_ok s \<Longrightarrow> implements s (poll_listing s es) (abs_poll (tracked s) es)"
proof -
  assume s: "obs_ok s"
  obtain t o1 where t: "run poll_entry s es = (t, o1)" by (cases "run poll_entry s es")
  obtain m e1 where m: "run abs_entry (tracked s) es = (m, e1)" by (cases "run abs_entry (tracked s) es")
  let ?cur = "map de_serial es" and ?prev = "om_keys (ob_devices s)"
  obtain u o2 where u: "run (drop_device ?cur) t ?prev = (u, o2)" by (cases "run (drop_device ?cur) t ?prev")
  obtain n e2 where n: "run (abs_drop ?cur) m ?prev = (n, e2)" by (cases "run (abs_drop ?cur) m ?prev")
  have a: "implements s (t, o1) (m, e1)" using implements_run [where f = poll_entry and g = abs_entry, OF implements_entry s] t m by metis
  then have "obs_ok t" "tracked t = m" by (simp_all add: implements_def)
  then have "implements t (u, o2) (n, e2)" using implements_run [where f = "drop_device ?cur" and g = "abs_drop ?cur" and s = t, OF implements_drop] u n by metis
  from implements_seq [OF a this] have i: "implements s (u, o1 @ o2) (n, e1 @ e2)" .
  let ?v = "u\<lparr>ob_polling := False\<rparr>"
  have "entry_fine ?v = entry_fine u" by (rule ext) (simp add: entry_fine_def)
  then have "obs_ok ?v = obs_ok u" "tracked ?v = tracked u" "extends u ?v"
    by (simp_all add: obs_ok_def tracked_def extends_def)
  moreover have "list_all (known u) (o1 @ o2)" using i by (simp add: implements_def)
  ultimately have "implements s (?v, o1 @ o2) (n, e1 @ e2)"
    using i told_extends [of u "o1 @ o2" ?v] known_extends [of u "o1 @ o2" ?v] extends_trans [of s u ?v]
    by (simp add: implements_def)
  then show ?thesis by (simp add: poll_listing_def abs_poll_def Let_def t m u n tracked_keys)
qed

text \<open>What the abstract comparison does.\<close>

lemma distinct_map_of_rev:
  assumes "distinct (map de_serial es)"
  shows "map_of (rev (map (\<lambda>e. (de_serial e, de_state e)) es)) = map_of (map (\<lambda>e. (de_serial e, de_state e)) es)"
proof -
  let ?xs = "map (\<lambda>e. (de_serial e, de_state e)) es"
  have "distinct (map fst ?xs)" using assms by (simp add: comp_def)
  moreover have "distinct (map fst (rev ?xs))" using calculation by (simp add: rev_map [symmetric] del: map_map)
  ultimately have eq: "map_of (rev ?xs) k = Some v \<longleftrightarrow> map_of ?xs k = Some v" for k v
    by (simp only: map_of_eq_Some_iff set_rev)
  show ?thesis
  proof (rule ext)
    fix k
    show "map_of (rev ?xs) k = map_of ?xs k"
    proof (cases "map_of ?xs k")
      case (Some v)
      then show ?thesis using iffD2 [OF eq Some] by (simp only:)
    next
      case None
      then have "map_of (rev ?xs) k \<noteq> Some v" for v using eq [of k v] by (simp only:) blast
      then show ?thesis unfolding None by (cases "map_of (rev ?xs) k") blast+
    qed
  qed
qed

lemma abs_entry_parts:
  "fst (abs_entry m e) = om_set (de_serial e) (de_state e) m"
  "snd (abs_entry m e) = (case om_get m (de_serial e) of None \<Rightarrow> [Came (de_serial e)]
     | Some t \<Rightarrow> if t = de_state e then [] else [Changed (de_serial e) t])"
  by (simp_all add: abs_entry_def)

lemma abs_entries_get:
  "om_get (fst (run abs_entry m es)) = om_get m ++ map_of (rev (map (\<lambda>e. (de_serial e, de_state e)) es))"
proof (induction es arbitrary: m)
  case (Cons e es)
  have "om_get (om_set (de_serial e) (de_state e) m) = om_get m ++ [de_serial e \<mapsto> de_state e]" by (auto simp: map_add_def)
  then show ?case using Cons [of "om_set (de_serial e) (de_state e) m"] by (simp add: run_fst abs_entry_parts fun_upd_def del: run.simps)
qed simp

lemma abs_entries_told:
  "distinct (map de_serial es) \<Longrightarrow> snd (run abs_entry m es) = concat (map (\<lambda>e. snd (abs_entry m e)) es)"
proof (induction es arbitrary: m)
  case (Cons e es)
  have m: "map (\<lambda>f. snd (abs_entry (fst (abs_entry m e)) f)) es = map (\<lambda>f. snd (abs_entry m f)) es"
  proof (intro map_cong refl)
    fix f
    assume "f \<in> set es"
    then have "de_serial f \<in> de_serial ` set es" by (rule imageI)
    then have "de_serial f \<noteq> de_serial e" using Cons.prems by auto
    then show "snd (abs_entry (fst (abs_entry m e)) f) = snd (abs_entry m f)" by (simp add: abs_entry_parts)
  qed
  have "snd (run abs_entry (fst (abs_entry m e)) es) = concat (map (\<lambda>f. snd (abs_entry (fst (abs_entry m e)) f)) es)"
    using Cons by simp
  then show ?case by (simp only: run_snd m list.map concat.simps)
qed simp

lemma abs_drops:
  "distinct ks \<Longrightarrow> \<forall>k \<in> set ks. om_has m k \<Longrightarrow>
   om_get (fst (run (abs_drop cur) m ks)) i = (if i \<in> set ks \<and> i \<notin> set cur then None else om_get m i) \<and>
   snd (run (abs_drop cur) m ks) = map Gone (filter (\<lambda>k. k \<notin> set cur) ks)"
proof (induction ks arbitrary: m)
  case (Cons k ks)
  then have "\<forall>j \<in> set ks. om_has (fst (abs_drop cur m k)) j" by (auto simp: abs_drop_def)
  from Cons.IH [OF _ this] Cons.prems show ?case by (auto simp: Let_def abs_drop_def)
qed simp

text \<open>
  C22. Polling tracks the server: whatever the devices were before, a listing (of devices that
  are named once, as text the way the server sends it) leaves exactly the listed devices tracked, each with
  the listed type, and the events are, in order, a connection or a change for each listed
  device that is new or has another type, and a disconnection for each device that is no longer listed;
  nothing else is announced.
\<close>

theorem polling_tracks_the_server:
  assumes "obs_ok s" and "ob_polling s" and "list_all entry_ok es" and "distinct (map de_serial es)"
    and "obs_step s (PollAnswer (Inr (listing es))) = (t, outs)"
  shows "obs_ok t \<and> \<not> ob_polling t \<and> om_get (tracked t) = map_of (map (\<lambda>e. (de_serial e, de_state e)) es) \<and>
    told_all t outs =
      concat (map (\<lambda>e. case om_get (tracked s) (de_serial e) of
                None \<Rightarrow> [Came (de_serial e)]
              | Some old \<Rightarrow> if old = de_state e then [] else [Changed (de_serial e) old]) es) @
      map Gone (filter (\<lambda>i. i \<notin> set (map de_serial es)) (om_keys (tracked s)))"
proof -
  have r: "poll_listing s es = (t, outs)" using assms(2,3,5) by (simp add: parse_listing)
  then have "\<not> ob_polling t" by (auto simp: poll_listing_def Let_def)
  have i: "implements s (t, outs) (abs_poll (tracked s) es)" using poll_implements [OF assms(1), of es] r by simp
  let ?m = "fst (run abs_entry (tracked s) es)" and ?cur = "map de_serial es" and ?ks = "om_keys (tracked s)"
  let ?es = "map (\<lambda>e. (de_serial e, de_state e)) es"
  have dom: "map_of ?es k = None \<longleftrightarrow> k \<notin> set ?cur" for k by (simp add: map_of_eq_None_iff image_image)
  have d: "distinct ?ks" unfolding tracked_keys using assms(1) by (simp add: obs_ok_def om_ok_def om_keys_def)
  have rev: "map_of (rev ?es) = map_of ?es" using assms(4) by (intro distinct_map_of_rev)
  have g: "om_get ?m k = (om_get (tracked s) ++ map_of ?es) k" for k using abs_entries_get [of "tracked s" es] rev by simp
  have "\<forall>k \<in> set ?ks. om_has ?m k" using g by (auto simp: om_has_keys [symmetric] om_has_def map_add_def split: option.splits)
  note drops = abs_drops [OF d this, of ?cur]
  have "om_get (fst (abs_poll (tracked s) es)) k = map_of ?es k" for k
  proof (cases "k \<in> set ?cur")
    case True
    then show ?thesis using drops [of k] g [of k] dom [of k] by (auto simp: abs_poll_def Let_def map_add_def split: option.splits)
  next
    case False
    then have "map_of ?es k = None" using dom by blast
    moreover have "k \<notin> set ?ks \<Longrightarrow> om_get (tracked s) k = None" by (simp add: om_has_keys [symmetric] om_has_def)
    ultimately show ?thesis using drops [of k] g [of k] False by (auto simp: abs_poll_def Let_def map_add_def)
  qed
  then have "om_get (fst (abs_poll (tracked s) es)) = map_of ?es" by (rule ext)
  moreover have "snd (abs_poll (tracked s) es) = concat (map (\<lambda>e. snd (abs_entry (tracked s) e)) es) @
      map Gone (filter (\<lambda>i. i \<notin> set ?cur) ?ks)"
    using abs_entries_told [OF assms(4)] drops by (simp add: abs_poll_def Let_def)
  ultimately show ?thesis using i \<open>\<not> ob_polling t\<close> by (simp add: implements_def abs_entry_def)
qed

section \<open>Health checks find devices that are still there\<close>

definition health_ok :: "observer \<Rightarrow> bool" where
  "health_ok s \<longleftrightarrow> (\<forall>i h. om_get (ob_health s) i = Some h \<longrightarrow> 1 \<le> hc_attempts h \<and> hc_attempts h < HEALTH_ATTEMPTS)"

text \<open>
  The device a health check waits for keeps its serial, and while failures are counted under
  that serial it is the tracked device: a disconnection forgets the count.
\<close>

definition awaited :: "observer \<Rightarrow> serial \<times> nat \<times> millis \<Rightarrow> bool" where
  "awaited s w = (case w of (i, d, at) \<Rightarrow> d < ob_next s \<and> dv_serial (ob_objs s d) = i \<and>
     (om_has (ob_health s) i \<longrightarrow> tracked_ref s i = Some d))"

definition loop_ok :: "observer \<Rightarrow> bool" where
  "loop_ok s \<longleftrightarrow> (\<forall>h w. ob_loop s = Some h \<longrightarrow> hl_wait h = Some w \<longrightarrow> awaited s w)"

definition obs_inv :: "observer \<Rightarrow> bool" where
  "obs_inv s \<longleftrightarrow> obs_ok s \<and> health_ok s \<and> loop_ok s"

lemma entry_unchanged: "ob_health (fst (poll_entry s e)) = ob_health s" "ob_loop (fst (poll_entry s e)) = ob_loop s"
  by (auto simp: poll_entry_def create_device_def set_device_def upd_device_def Let_def split: option.splits)

lemma entry_ref: "tracked_ref s i = Some d \<Longrightarrow> tracked_ref (fst (poll_entry s e)) i = Some d"
  by (auto simp: poll_entry_def create_device_def set_device_def upd_device_def Let_def tracked_ref_def split: option.splits)

lemma entry_keeps:
  assumes "obs_inv s"
  shows "obs_inv (fst (poll_entry s e))"
proof -
  let ?t = "fst (poll_entry s e)"
  have i: "implements s (poll_entry s e) (abs_entry (tracked s) e)" using assms implements_entry by (simp add: obs_inv_def)
  have "awaited ?t w" if "awaited s w" for w
    using that i entry_ref [of s _ _ e] by (cases w) (auto simp: awaited_def implements_def extends_def entry_unchanged)
  then show ?thesis using assms i by (simp add: obs_inv_def implements_def health_ok_def loop_ok_def entry_unchanged)
qed

lemma drop_keeps:
  assumes "obs_inv s"
  shows "obs_inv (fst (drop_device cur s i))"
proof -
  let ?t = "fst (drop_device cur s i)"
  have "implements s (drop_device cur s i) (abs_drop cur (tracked s) i)" using assms implements_drop by (simp add: obs_inv_def)
  then have "obs_ok ?t" by (simp add: implements_def)
  moreover have "awaited ?t w" if "awaited s w" for w
    using that by (cases w) (auto simp: awaited_def drop_device_def tracked_ref_def split: option.splits)
  moreover have "ob_loop ?t = ob_loop s" by (simp add: drop_device_def split: option.splits)
  moreover have "health_ok ?t"
    using assms by (auto simp: obs_inv_def health_ok_def drop_device_def split: option.splits if_splits)
  ultimately show ?thesis using assms by (simp add: obs_inv_def loop_ok_def)
qed

interpretation entries: invariant_machine poll_entry obs_inv
  by unfold_locales (rule entry_keeps)

interpretation drops: invariant_machine "drop_device cur" obs_inv for cur
  by unfold_locales (rule drop_keeps)

text \<open>What does not touch devices, objects and health keeps the invariant.\<close>

definition core :: "observer \<Rightarrow> (nat \<Rightarrow> adb_device) \<times> nat \<times> nat \<times> (serial, nat \<times> nat) omap \<times> (serial, device_health) omap" where
  "core s = (ob_objs s, ob_next s, ob_stamp s, ob_devices s, ob_health s)"

lemma core_ok: "core t = core s \<Longrightarrow> obs_ok t = obs_ok s \<and> health_ok t = health_ok s \<and> awaited t = awaited s"
proof -
  assume c: "core t = core s"
  then have "entry_fine t = entry_fine s" "awaited t = awaited s"
    by (auto simp: core_def fun_eq_iff entry_fine_def awaited_def tracked_ref_def)
  then show ?thesis using c by (auto simp: core_def obs_ok_def health_ok_def)
qed

lemma core_inv: "core t = core s \<Longrightarrow> ob_loop t = ob_loop s \<Longrightarrow> obs_inv s \<Longrightarrow> obs_inv t"
  using core_ok [of t s] by (simp add: obs_inv_def loop_ok_def)

lemma listing_keeps: "obs_inv s \<Longrightarrow> obs_inv (fst (poll_listing s es))"
proof -
  assume "obs_inv s"
  then have i: "obs_inv (fst (run (drop_device (map de_serial es)) (fst (run poll_entry s es)) (om_keys (ob_devices s))))"
    by (intro drops.always_run entries.always_run)
  then show ?thesis by (intro core_inv [OF _ _ i]) (simp_all add: poll_listing_def core_def Let_def)
qed

text \<open>The loop goes on: it waits for an entry of the map, or it ends.\<close>

lemma advance_cases:
  obtains (ends) "advance s h now = (s\<lparr>ob_loop := None\<rparr>, [EmitHealthcheck (hl_ok h) (hl_bad h)])"
  | (asks) i stamp d h' where "(i, stamp, d) \<in> set (ob_devices s)" "hl_wait h' = Some (i, d, now)"
      "\<not> dv_stuck (ob_objs s d)" "isOnline (dv_type (ob_objs s d))"
      "advance s h now = (s\<lparr>ob_loop := Some h'\<rparr>, [Command ''shell:getprop ro.build.version.sdk'' (Some i)])"
proof (induction s h now arbitrary: thesis rule: advance.induct)
  case (1 s h now)
  show ?case
  proof (cases "next_entry s (hl_after h)")
    case None
    then show ?thesis using 1(2) by (simp add: advance.simps [of s h now])
  next
    case (Some e)
    obtain i stamp d where e: "e = (i, stamp, d)" by (cases e) auto
    have m: "(i, stamp, d) \<in> set (ob_devices s)" using next_entry_Some Some e by simp
    consider "ob_destroyed s \<or> \<not> ob_continue s" | "\<not> (ob_destroyed s \<or> \<not> ob_continue s)" "dv_stuck (ob_objs s d) \<or> \<not> isOnline (dv_type (ob_objs s d))"
      | "\<not> (ob_destroyed s \<or> \<not> ob_continue s)" "\<not> (dv_stuck (ob_objs s d) \<or> \<not> isOnline (dv_type (ob_objs s d)))" by blast
    then show ?thesis
    proof cases
      case 1
      then show ?thesis using "1.prems"(1) Some e by (simp add: advance.simps [of s h now])
    next
      case 2
      then have go: "advance s h now = advance s (h\<lparr>hl_after := stamp\<rparr>) now" using Some e by (simp add: advance.simps [of s h now])
      show ?thesis
      proof (rule "1.IH" [OF Some e [symmetric] refl 2])
        assume "advance s (h\<lparr>hl_after := stamp\<rparr>) now =
          (s\<lparr>ob_loop := None\<rparr>, [EmitHealthcheck (hl_ok (h\<lparr>hl_after := stamp\<rparr>)) (hl_bad (h\<lparr>hl_after := stamp\<rparr>))])"
        then show ?thesis using "1.prems"(1) go by simp
      next
        fix i' stamp' d' h'
        assume a: "(i', stamp', d') \<in> set (ob_devices s)" "hl_wait h' = Some (i', d', now)" "\<not> dv_stuck (ob_objs s d')"
          "isOnline (dv_type (ob_objs s d'))"
          "advance s (h\<lparr>hl_after := stamp\<rparr>) now = (s\<lparr>ob_loop := Some h'\<rparr>, [Command ''shell:getprop ro.build.version.sdk'' (Some i')])"
        then show ?thesis using "1.prems"(2) [OF a(1-4)] go by simp
      qed
    next
      case 3
      then show ?thesis
        using "1.prems"(2) [OF m, of "h\<lparr>hl_after := stamp, hl_wait := Some (i, d, now)\<rparr>"] Some e
        by (simp add: advance.simps [of s h now])
    qed
  qed
qed

lemma advance_keeps:
  assumes "obs_ok s" and "health_ok s"
  shows "obs_inv (fst (advance s h now))"
proof (cases rule: advance_cases [of s h now])
  case ends
  then show ?thesis using assms core_ok [of "s\<lparr>ob_loop := None\<rparr>" s] by (simp add: obs_inv_def loop_ok_def core_def)
next
  case (asks i stamp d h')
  let ?t = "s\<lparr>ob_loop := Some h'\<rparr>"
  have c: "obs_ok ?t = obs_ok s" "health_ok ?t = health_ok s" "awaited ?t = awaited s"
    using core_ok [of ?t s] by (simp_all add: core_def)
  have "om_get (ob_devices s) i = Some (stamp, d)" using asks(1) assms(1) by (simp add: obs_ok_def om_ok_def om_get_def)
  then have "tracked_ref s i = Some d" by (simp add: tracked_ref_def)
  then have "awaited s (i, d, now)" using ref_fine [OF assms(1)] by (simp add: awaited_def)
  then show ?thesis using assms asks(2,5) c by (simp add: obs_inv_def loop_ok_def)
qed

lemma advance_out: "x \<in> set (snd (advance s h now)) \<Longrightarrow> (\<exists>a b. x = EmitHealthcheck a b) \<or> (\<exists>c i. x = Command c i)"
  by (cases rule: advance_cases [of s h now]) auto

lemma advance_core: "core (fst (advance s h now)) = core s"
  by (cases rule: advance_cases [of s h now]) (simp_all add: core_def)

lemma reconnect_core: "core (fst (start_reconnect s d)) = core s" "ob_loop (fst (start_reconnect s d)) = ob_loop s"
  by (simp_all add: start_reconnect_def core_def Let_def)

lemma reconnect_out: "x \<in> set (snd (start_reconnect s d)) \<Longrightarrow> \<exists>c. x = Command c None"
  by (auto simp: start_reconnect_def Let_def split: if_splits)

text \<open>A failure counts, and the third one marks the tracked device.\<close>

lemma failure_cases:
  assumes "obs_ok s" and "health_ok s" and "awaited s (i, d, at)"
  obtains (counted) h where "health_failure s i d at = (s\<lparr>ob_health := om_set i h (ob_health s)\<rparr>, [])"
      "1 \<le> hc_attempts h" "hc_attempts h < HEALTH_ATTEMPTS"
  | (marked) h outs where "tracked_ref s i = Some d" "hc_attempts h = HEALTH_ATTEMPTS" "om_has (ob_health s) i"
      "core (fst (health_failure s i d at)) =
         core ((upd_device d (\<lambda>v. v\<lparr>dv_stuck := True\<rparr>) s)\<lparr>ob_health := om_del i (ob_health s)\<rparr>)"
      "snd (health_failure s i d at) = EmitStuck d h # outs" "\<forall>x \<in> set outs. \<exists>c. x = Command c None"
proof (cases "om_get (ob_health s) i")
  case None
  then show ?thesis using counted by (simp add: health_failure_def HEALTH_ATTEMPTS_def)
next
  case (Some h)
  let ?h = "h\<lparr>hc_attempts := Suc (hc_attempts h), hc_last := at\<rparr>"
  have a: "1 \<le> hc_attempts h" "hc_attempts h < HEALTH_ATTEMPTS" using assms(2) Some by (simp_all add: health_ok_def)
  show ?thesis
  proof (cases "Suc (hc_attempts h) < HEALTH_ATTEMPTS")
    case True
    then show ?thesis using Some counted [of ?h] by (simp add: health_failure_def Let_def)
  next
    case False
    have ref: "tracked_ref s i = Some d" "dv_serial (ob_objs s d) = i" and has: "om_has (ob_health s) i"
      using assms(3) Some by (auto simp: awaited_def om_has_def)
    then obtain stamp where st: "om_get (ob_devices s) i = Some (stamp, d)" by (auto simp: tracked_ref_def)
    let ?u = "upd_device d (\<lambda>v. v\<lparr>dv_stuck := True\<rparr>) s"
    have dev: "set_device (dv_serial (ob_objs ?u d)) d ?u = ?u"
      using ref(2) st set_same [OF st] by (simp add: set_device_def upd_device_def)
    have f: "health_failure s i d at =
        (let r = start_reconnect (?u\<lparr>ob_health := om_del i (ob_health s)\<rparr>) d in (fst r, EmitStuck d ?h # snd r))"
      using Some False dev by (simp add: health_failure_def Let_def upd_device_def)
    have n: "hc_attempts ?h = HEALTH_ATTEMPTS" using a False by simp
    show ?thesis
      by (rule marked [OF ref(1) n has]) (use f reconnect_core reconnect_out in \<open>auto simp: Let_def\<close>)
  qed
qed

lemma mark_ok:
  assumes "obs_ok s" and "health_ok s" and "core t = core ((upd_device d (\<lambda>v. v\<lparr>dv_stuck := b\<rparr>) s)\<lparr>ob_health := om_del i (ob_health s)\<rparr>)"
  shows "obs_ok t \<and> health_ok t"
proof -
  let ?u = "(upd_device d (\<lambda>v. v\<lparr>dv_stuck := b\<rparr>) s)\<lparr>ob_health := om_del i (ob_health s)\<rparr>"
  have "entry_fine ?u = entry_fine s" by (auto simp: fun_eq_iff entry_fine_def upd_device_def)
  then have "obs_ok ?u" "health_ok ?u" using assms(1,2) by (auto simp: obs_ok_def health_ok_def upd_device_def)
  then show ?thesis using core_ok [OF assms(3)] by simp
qed

lemma failure_keeps:
  assumes "obs_ok s" and "health_ok s" and "awaited s (i, d, at)"
  shows "obs_ok (fst (health_failure s i d at)) \<and> health_ok (fst (health_failure s i d at))"
proof (cases rule: failure_cases [OF assms])
  case (1 h)
  have "entry_fine (s\<lparr>ob_health := m\<rparr>) = entry_fine s" for m by (rule ext) (simp add: entry_fine_def)
  then show ?thesis using 1 assms(1,2) by (simp add: obs_ok_def health_ok_def)
next
  case (2 h outs)
  then show ?thesis using mark_ok [OF assms(1,2)] by blast
qed

lemma answer_keeps: "obs_inv s \<Longrightarrow> obs_inv (fst (health_answer s ok now))"
proof -
  assume s: "obs_inv s"
  show ?thesis
  proof (cases "ob_loop s")
    case None
    then show ?thesis using s by (simp add: health_answer_def)
  next
    case (Some h)
    show ?thesis
    proof (cases "hl_wait h")
      case None
      then show ?thesis using s Some by (simp add: health_answer_def)
    next
      case (Some w)
      obtain i d at where w: "w = (i, d, at)" by (cases w) auto
      have a: "obs_ok s" "health_ok s" "awaited s (i, d, at)" using s \<open>ob_loop s = Some h\<close> Some w by (auto simp: obs_inv_def loop_ok_def)
      have "entry_fine (s\<lparr>ob_health := m\<rparr>) = entry_fine s" for m by (rule ext) (simp add: entry_fine_def)
      then have "obs_ok (s\<lparr>ob_health := om_del i (ob_health s)\<rparr>)" "health_ok (s\<lparr>ob_health := om_del i (ob_health s)\<rparr>)"
        using a(1,2) by (simp_all add: obs_ok_def health_ok_def)
      note advance_keeps [OF this]
      moreover note advance_keeps [of "fst (health_failure s i d at)"]
      ultimately show ?thesis using failure_keeps [OF a] \<open>ob_loop s = Some h\<close> Some w by (simp add: health_answer_def Let_def)
    qed
  qed
qed

lemma resume_keeps: "obs_inv s \<Longrightarrow> obs_inv (fst (reconnect_resume s n a))"
proof -
  assume s: "obs_inv s"
  have upd: "obs_inv (upd_device d (\<lambda>v. v\<lparr>dv_type := ty, dv_stuck := b\<rparr>) u)" if "obs_inv u" for d ty b u
  proof -
    let ?u = "upd_device d (\<lambda>v. v\<lparr>dv_type := ty, dv_stuck := b\<rparr>) u"
    have "entry_fine ?u = entry_fine u" "awaited ?u = awaited u"
      by (auto simp: fun_eq_iff entry_fine_def awaited_def upd_device_def tracked_ref_def)
    then show ?thesis using that by (simp add: obs_inv_def obs_ok_def health_ok_def loop_ok_def) (simp add: upd_device_def)
  qed
  have recs: "obs_inv (s\<lparr>ob_reconnects := r\<rparr>)" for r by (rule core_inv [OF _ _ s]) (simp_all add: core_def)
  show ?thesis
    using s recs upd by (auto simp: reconnect_resume_def Let_def split: prod.splits reconnect_stage.splits sum.splits option.splits)
qed

interpretation observing: invariant_machine obs_step obs_inv
proof
  fix s e
  assume s: "obs_inv s"
  have start: "obs_inv (fst (poll_start u))" if "obs_inv u" for u
    by (rule core_inv [OF _ _ that]) (simp_all add: poll_start_def core_def)
  show "obs_inv (fst (obs_step s e))"
  proof (cases e)
    case StartObserving
    have "obs_inv (s\<lparr>ob_continue := True\<rparr>)" by (rule core_inv [OF _ _ s]) (simp_all add: core_def)
    then show ?thesis using StartObserving s start by simp
  next
    case (PollAnswer a)
    have "obs_inv (s\<lparr>ob_polling := False\<rparr>)" by (rule core_inv [OF _ _ s]) (simp_all add: core_def)
    then show ?thesis using PollAnswer s listing_keeps by (cases a) simp_all
  next
    case (HealthTimer now)
    then show ?thesis using s advance_keeps by (simp add: health_start_def obs_inv_def)
  next
    case (Reconnect d)
    then show ?thesis using core_inv [OF _ _ s] reconnect_core by simp
  next
    case StopObserving
    then show ?thesis using core_inv [OF _ _ s, of "s\<lparr>ob_continue := False\<rparr>"] by (simp add: core_def)
  next
    case DestroyObserving
    have "awaited (obs_destroy s) w" if "awaited s w" for w
      using that by (cases w) (simp add: awaited_def obs_destroy_def om_has_def)
    then show ?thesis using DestroyObserving s
      by (simp add: obs_inv_def obs_ok_def health_ok_def loop_ok_def) (simp add: obs_destroy_def)
  qed (use s start answer_keeps resume_keeps in simp_all)
qed

lemma obs_inv_new: "obs_inv obs_new"
  by (simp add: obs_inv_def obs_ok_def health_ok_def loop_ok_def obs_new_def)

section \<open>Properties of the health checks\<close>

text \<open>
  A report that a device is stuck is earned: in every run, whatever listings, answers, timers
  and reconnections come in whatever order, a device is reported as stuck only after exactly three failures
  in a row, it is the object that is tracked under its serial, before and after (so the map is
  never made to hold a device that has been disconnected), it is marked, and its failures are forgotten.
\<close>

theorem stuck_reports_are_earned:
  assumes "s = fst (run obs_step obs_new es)" and "obs_step s e = (t, outs)" and "EmitStuck d h \<in> set outs"
  shows "hc_attempts h = 3 \<and> (\<exists>i. tracked_ref s i = Some d \<and> tracked_ref t i = Some d \<and> om_get (ob_health t) i = None) \<and>
    dv_stuck (ob_objs t d)"
proof -
  have s: "obs_inv s" unfolding assms(1) by (rule observing.always_run [OF obs_inv_new])
  have quiet: "EmitStuck d h \<notin> set (snd (advance u k now))" "EmitStuck d h \<notin> set (snd (start_reconnect u d'))" for u k now d'
    using advance_out reconnect_out by blast+
  have polls: "EmitStuck d h \<notin> set (snd (run poll_entry u xs))" "EmitStuck d h \<notin> set (snd (run (drop_device cur) u ys))" for u xs ys cur
    by (induction xs arbitrary: u) (auto simp: Let_def poll_entry_def split: option.splits if_splits,
      induction ys arbitrary: u, auto simp: Let_def drop_device_def split: option.splits if_splits)
  have pl: "EmitStuck d h \<notin> set (snd (poll_answer u a))" for u a
    using polls by (cases a) (auto simp: poll_listing_def Let_def)
  have q: "advance u k now = (t', o') \<Longrightarrow> EmitStuck d h \<notin> set o'" "start_reconnect u d' = (t', o') \<Longrightarrow> EmitStuck d h \<notin> set o'"
    "poll_answer u a = (t', o') \<Longrightarrow> EmitStuck d h \<notin> set o'" for u k now d' a t' o'
    using quiet(1) [of u k now] quiet(2) [of u d'] pl [of u a] by auto
  obtain ok now where e: "e = HealthAnswer ok now"
    using assms(2,3)
    by (cases e) (auto dest: q simp: poll_start_def health_start_def reconnect_resume_def Let_def
        split: if_splits prod.splits reconnect_stage.splits sum.splits option.splits)
  have r: "health_answer s ok now = (t, outs)" using assms(2) e by simp
  then obtain k i d' at where k: "ob_loop s = Some k" "hl_wait k = Some (i, d', at)"
    using assms(3) by (auto simp: health_answer_def split: option.splits)
  then have a: "obs_ok s" "health_ok s" "awaited s (i, d', at)" using s by (auto simp: obs_inv_def loop_ok_def)
  have nok: "\<not> ok" using r k assms(3) by (auto simp: health_answer_def dest: q)
  let ?f = "health_failure s i d' at"
  have t: "core t = core (fst ?f)" and o: "EmitStuck d h \<in> set (snd ?f)"
    using r k nok assms(3) quiet(1) advance_core by (auto simp: health_answer_def Let_def)
  show ?thesis
  proof (cases rule: failure_cases [OF a])
    case (1 h')
    then show ?thesis using o by simp
  next
    case (2 h' outs')
    then have "d' = d" "h' = h" using o by auto
    then show ?thesis using 2 t by (auto simp: core_def upd_device_def tracked_ref_def HEALTH_ATTEMPTS_def intro!: exI [of _ i])
  qed
qed

text \<open>
  Three failures in a row make a device stuck, and no fewer: the first two failures of a
  tracked device are only counted, the third marks it, reports it with the times of the first and the last
  failure, and starts the count afresh; a success in between would have deleted the count.
\<close>

theorem third_failure_is_stuck:
  assumes "obs_ok s" and "tracked_ref s i = Some d" and "om_get (ob_health s) i = None"
  shows "\<exists>s1 s2 s3 outs. health_failure s i d t1 = (s1, []) \<and> health_failure s1 i d t2 = (s2, []) \<and>
    health_failure s2 i d t3 = (s3, EmitStuck d \<lparr>hc_attempts = 3, hc_timeout = 5000, hc_first = t1, hc_last = t3\<rparr> # outs) \<and>
    dv_stuck (ob_objs s3 d) \<and> om_get (ob_health s3) i = None \<and> tracked_ref s3 i = Some d \<and>
    om_get (ob_health (fst (health_answer (s1\<lparr>ob_loop := Some (h\<lparr>hl_wait := Some (i, d, t1)\<rparr>)\<rparr>) True now))) i = None"
proof -
  let ?h1 = "\<lparr>hc_attempts = 1, hc_timeout = REQUEST_TIMEOUT, hc_first = t1, hc_last = t1\<rparr>"
  let ?s1 = "s\<lparr>ob_health := om_set i ?h1 (ob_health s)\<rparr>"
  let ?s2 = "?s1\<lparr>ob_health := om_set i (?h1\<lparr>hc_attempts := 2, hc_last := t2\<rparr>) (ob_health ?s1)\<rparr>"
  have f1: "health_failure s i d t1 = (?s1, [])" using assms(3) by (simp add: health_failure_def)
  have f2: "health_failure ?s1 i d t2 = (?s2, [])" by (simp add: health_failure_def Let_def HEALTH_ATTEMPTS_def numeral_eq_Suc)
  obtain stamp where st: "om_get (ob_devices s) i = Some (stamp, d)" using assms(2) by (auto simp: tracked_ref_def)
  let ?u = "upd_device d (\<lambda>v. v\<lparr>dv_stuck := True\<rparr>) ?s2"
  have ser: "dv_serial (ob_objs s d) = i" by (rule ref_fine(2) [OF assms(1,2)])
  then have dev: "set_device (dv_serial (ob_objs ?u d)) d ?u = ?u"
    using st set_same [OF st] by (simp add: set_device_def upd_device_def)
  let ?r = "start_reconnect (?u\<lparr>ob_health := om_del i (ob_health ?u)\<rparr>) d"
  have f3: "health_failure ?s2 i d t3 =
      (fst ?r, EmitStuck d \<lparr>hc_attempts = 3, hc_timeout = 5000, hc_first = t1, hc_last = t3\<rparr> # snd ?r)"
    using dev by (simp add: health_failure_def Let_def HEALTH_ATTEMPTS_def REQUEST_TIMEOUT_def numeral_eq_Suc)
  have c: "core (fst ?r) = core (?u\<lparr>ob_health := om_del i (ob_health ?u)\<rparr>)" by (rule reconnect_core)
  have ok: "om_get (ob_health (fst (health_answer (?s1\<lparr>ob_loop := Some (h\<lparr>hl_wait := Some (i, d, t1)\<rparr>)\<rparr>) True now))) i = None"
    using advance_core [of "?s1\<lparr>ob_loop := Some (h\<lparr>hl_wait := Some (i, d, t1)\<rparr>), ob_health := om_del i (ob_health ?s1)\<rparr>"
        "h\<lparr>hl_ok := Suc (hl_ok h), hl_wait := None\<rparr>" now]
    by (simp add: health_answer_def core_def)
  have "dv_stuck (ob_objs (fst ?r) d) \<and> om_get (ob_health (fst ?r)) i = None \<and> tracked_ref (fst ?r) i = Some d"
    using c assms(2) by (simp add: core_def upd_device_def tracked_ref_def)
  then show ?thesis using f1 f2 f3 ok by blast
qed

text \<open>
  A device that was stuck and has been reconnected is not announced: when the reconnection of a
  network device ends well, the device is online again and no longer stuck, but nothing is
  emitted, and no later listing that shows it online emits anything for its serial, so the provider, which
  has stopped its worker, is never told to start it again.
\<close>

theorem reconnected_device_is_not_announced:
  assumes "obs_ok s" and "tracked_ref s i = Some d" and "n < length (ob_reconnects s)" and "ob_reconnects s ! n = (d, Listing)"
    and "list_all entry_ok es" and "distinct (map de_serial es)" and "\<lparr>de_serial = i, de_state = ''device''\<rparr> \<in> set es"
    and "list_all entry_ok fs" and "distinct (map de_serial fs)" and "\<lparr>de_serial = i, de_state = ''device''\<rparr> \<in> set fs"
    and "t = fst (obs_step s (ReconnectResume n (Inr (listing es))))"
  shows "snd (obs_step s (ReconnectResume n (Inr (listing es)))) = [] \<and>
    dv_type (ob_objs t d) = ''device'' \<and> \<not> dv_stuck (ob_objs t d) \<and>
    (\<forall>x \<in> set (told_all (fst (poll_listing t fs)) (snd (poll_listing t fs))). \<forall>old. x \<noteq> Came i \<and> x \<noteq> Changed i old \<and> x \<noteq> Gone i)"
proof -
  let ?e = "\<lparr>de_serial = i, de_state = ''device''\<rparr>"
  have ser: "dv_serial (ob_objs s d) = i" by (rule ref_fine(2) [OF assms(1,2)])
  have only: "e = ?e" if "e \<in> set gs" "de_serial e = i" "distinct (map de_serial gs)" "?e \<in> set gs" for e gs
  proof -
    have "inj_on de_serial (set gs)" using that(3) by (simp add: distinct_map)
    from inj_onD [OF this _ that(1,4)] that(2) show ?thesis by simp
  qed
  have "List.find (\<lambda>e. de_serial e = i) es = Some ?e"
  proof -
    obtain e where f: "List.find (\<lambda>e. de_serial e = i) es = Some e"
      using assms(7) by (cases "List.find (\<lambda>e. de_serial e = i) es") (auto simp: find_None_iff)
    then have "e \<in> set es" "de_serial e = i" by (auto simp: find_Some_iff)
    from only [OF this assms(6,7)] f show ?thesis by simp
  qed
  then have step: "obs_step s (ReconnectResume n (Inr (listing es))) =
      (upd_device d (\<lambda>v. v\<lparr>dv_type := ''device'', dv_stuck := False\<rparr>) (s\<lparr>ob_reconnects := remove_nth n (ob_reconnects s)\<rparr>), [])"
    using assms(3,4,5) ser by (simp add: reconnect_resume_def Let_def parse_listing isOnline_def)
  have t: "t = upd_device d (\<lambda>v. v\<lparr>dv_type := ''device'', dv_stuck := False\<rparr>) (s\<lparr>ob_reconnects := remove_nth n (ob_reconnects s)\<rparr>)"
    using assms(11) step by simp
  have "entry_fine t = entry_fine s" unfolding t by (auto simp: fun_eq_iff entry_fine_def upd_device_def)
  then have ok: "obs_ok t" using assms(1) unfolding t by (simp add: obs_ok_def upd_device_def)
  have "tracked_ref t i = Some d" using assms(2) unfolding t by (simp add: tracked_ref_def upd_device_def)
  then have g: "om_get (tracked t) i = Some ''device''" unfolding t by (simp add: tracked_get upd_device_def)
  have told: "told_all (fst (poll_listing t fs)) (snd (poll_listing t fs)) = snd (abs_poll (tracked t) fs)"
    using poll_implements [OF ok, of fs] by (simp add: implements_def)
  have "om_get (fst (run abs_entry (tracked t) fs)) k = (om_get (tracked t) ++ map_of (rev (map (\<lambda>e. (de_serial e, de_state e)) fs))) k" for k
    by (simp add: abs_entries_get)
  then have has: "\<forall>k \<in> set (om_keys (tracked t)). om_has (fst (run abs_entry (tracked t) fs)) k"
    by (auto simp: om_has_keys [symmetric] om_has_def map_add_def split: option.splits)
  have d: "distinct (om_keys (tracked t))" unfolding tracked_keys using ok by (simp add: obs_ok_def om_ok_def om_keys_def)
  have mem: "i \<in> set (map de_serial fs)" using assms(10) by (auto intro: rev_image_eqI)
  have quiet: "x \<noteq> Came i \<and> x \<noteq> Changed i old \<and> x \<noteq> Gone i" if "x \<in> set (snd (abs_poll (tracked t) fs))" for x old
  proof -
    from that consider e where "e \<in> set fs" "x \<in> set (snd (abs_entry (tracked t) e))" | k where "x = Gone k" "k \<notin> set (map de_serial fs)"
      using abs_entries_told [OF assms(9), of "tracked t"] abs_drops [OF d has, of "map de_serial fs" i]
      by (auto simp: abs_poll_def Let_def)
    then show ?thesis
    proof cases
      case 1
      show ?thesis
      proof (cases "de_serial e = i")
        case True
        have "e = ?e" by (rule only [OF 1(1) True assms(9,10)])
        then show ?thesis using 1(2) g by (simp add: abs_entry_parts)
      next
        case False
        then show ?thesis using 1(2) by (auto simp: abs_entry_parts split: option.splits if_splits)
      qed
    next
      case 2
      then show ?thesis using mem by auto
    qed
  qed
  have "dv_type (ob_objs t d) = ''device''" "\<not> dv_stuck (ob_objs t d)" unfolding t by (simp_all add: upd_device_def)
  then show ?thesis using step quiet unfolding told by simp
qed

section \<open>Witnesses\<close>

definition wit_entry :: device_entry where
  "wit_entry = \<lparr>de_serial = ''a:1'', de_state = ''device''\<rparr>"

definition wit_observer :: observer where
  "wit_observer = fst (run obs_step obs_new [StartObserving, PollAnswer (Inr (listing [wit_entry]))])"

lemma wit_entry_ok: "list_all entry_ok [wit_entry]" "distinct (map de_serial [wit_entry])"
  by (simp_all add: wit_entry_def entry_ok_def word_ok_def is_ws_def)

lemma wit_observer_inv: "obs_ok wit_observer"
  using observing.always_run [OF obs_inv_new] by (simp add: wit_observer_def obs_inv_def del: run.simps)

lemma wit_observer_state: "wit_observer = obs_new\<lparr>ob_continue := True,
    ob_objs := (ob_objs obs_new)(0 := \<lparr>dv_serial = ''a:1'', dv_type = ''device'', dv_stuck = False\<rparr>), ob_next := 1, ob_stamp := 1,
    ob_devices := [(''a:1'', 1, 0)]\<rparr>"
  by (simp add: wit_observer_def run_fst poll_start_def obs_new_def parse_listing wit_entry_ok poll_listing_def Let_def
      poll_entry_def tracked_ref_def create_device_def set_device_def om_set_def wit_entry_def drop_device_def om_keys_def
      entry_ok_def word_ok_def is_ws_def)

theorem polling_tracks_the_server_witness:
  "om_get (tracked (fst (obs_step (wit_observer\<lparr>ob_polling := True\<rparr>) (PollAnswer (Inr (listing [wit_entry])))))) ''a:1'' = Some ''device''"
proof -
  let ?s = "wit_observer\<lparr>ob_polling := True\<rparr>"
  have "obs_ok ?s" using wit_observer_inv core_ok [of ?s wit_observer] by (simp add: core_def)
  moreover have "ob_polling ?s" by simp
  moreover obtain t outs where "obs_step ?s (PollAnswer (Inr (listing [wit_entry]))) = (t, outs)" by (metis surj_pair)
  ultimately show ?thesis using polling_tracks_the_server [OF _ _ wit_entry_ok, of ?s t outs] by (simp add: wit_entry_def del: obs_step.simps)
qed

theorem third_failure_is_stuck_witness:
  "\<exists>s1 s2 s3 outs. health_failure wit_observer ''a:1'' 0 10 = (s1, []) \<and> health_failure s1 ''a:1'' 0 20 = (s2, []) \<and>
    health_failure s2 ''a:1'' 0 30 = (s3, EmitStuck 0 \<lparr>hc_attempts = 3, hc_timeout = 5000, hc_first = 10, hc_last = 30\<rparr> # outs)"
proof -
  have "tracked_ref wit_observer ''a:1'' = Some 0" "om_get (ob_health wit_observer) ''a:1'' = None"
    by (simp_all add: wit_observer_state tracked_ref_def obs_new_def om_get_def)
  from third_failure_is_stuck [OF wit_observer_inv this, of 10 20 30] show ?thesis by blast
qed

definition wit_failing :: "nat \<Rightarrow> millis option \<Rightarrow> millis \<Rightarrow> observer" where
  "wit_failing n wait at = wit_observer\<lparr>
     ob_loop := map_option (\<lambda>now. \<lparr>hl_after = 1, hl_ok = 0, hl_bad = 0, hl_wait = Some (''a:1'', 0, now)\<rparr>) wait,
     ob_health := (if n = 0 then [] else [(''a:1'', \<lparr>hc_attempts = n, hc_timeout = 5000, hc_first = 10, hc_last = at\<rparr>)])\<rparr>"

lemma wit_timer: "fst (obs_step (wit_failing n None at) (HealthTimer now)) = wit_failing n (Some now) at"
  unfolding wit_failing_def wit_observer_state
  by (simp add: obs_new_def health_start_def advance.simps next_entry_def isOnline_def)

lemma wit_ends: "advance (wit_observer\<lparr>ob_loop := l, ob_health := m\<rparr>) \<lparr>hl_after = Suc 0, hl_ok = 0, hl_bad = Suc 0, hl_wait = None\<rparr> now =
   (wit_observer\<lparr>ob_loop := None, ob_health := m\<rparr>, [EmitHealthcheck 0 (Suc 0)])"
  unfolding wit_observer_state by (simp add: advance.simps next_entry_def)

lemma wit_fails: "n < 2 \<Longrightarrow> (n = 0 \<longrightarrow> now = 10) \<Longrightarrow>
   fst (obs_step (wit_failing n (Some now) at) (HealthAnswer False later)) = wit_failing (Suc n) None now"
  by (cases n) (simp_all add: wit_failing_def health_answer_def health_failure_def om_get_def om_set_def HEALTH_ATTEMPTS_def
      REQUEST_TIMEOUT_def Let_def wit_ends)

lemma wit_third: "EmitStuck 0 \<lparr>hc_attempts = 3, hc_timeout = 5000, hc_first = 10, hc_last = now\<rparr> \<in>
   set (snd (obs_step (wit_failing 2 (Some now) at) (HealthAnswer False later)))"
  by (simp add: wit_failing_def health_answer_def health_failure_def om_get_def HEALTH_ATTEMPTS_def Let_def)

theorem stuck_reports_are_earned_witness:
  "\<exists>t outs h. obs_step (fst (run obs_step obs_new [StartObserving, PollAnswer (Inr (listing [wit_entry])), HealthTimer 10,
       HealthAnswer False 10, HealthTimer 20, HealthAnswer False 20, HealthTimer 30])) (HealthAnswer False 50) = (t, outs) \<and>
     EmitStuck 0 h \<in> set outs \<and> hc_attempts h = 3 \<and> dv_stuck (ob_objs t 0)"
proof -
  let ?es = "[StartObserving, PollAnswer (Inr (listing [wit_entry])), HealthTimer 10, HealthAnswer False 10, HealthTimer 20,
     HealthAnswer False 20, HealthTimer 30]"
  have start: "fst (obs_step (fst (obs_step obs_new StartObserving)) (PollAnswer (Inr (listing [wit_entry])))) = wit_failing 0 None 0"
  proof -
    have "fst (obs_step (fst (obs_step obs_new StartObserving)) (PollAnswer (Inr (listing [wit_entry])))) = wit_observer"
      by (simp only: wit_observer_def run_fst)
    also have "\<dots> = wit_failing 0 None 0" unfolding wit_failing_def wit_observer_state by (simp add: obs_new_def)
    finally show ?thesis .
  qed
  have s: "fst (run obs_step obs_new ?es) = wit_failing 2 (Some 30) 20"
    by (simp only: run_fst start wit_timer) (simp add: wit_fails wit_timer del: obs_step.simps flip: numeral_2_eq_2)
  obtain t outs where r: "obs_step (wit_failing 2 (Some 30) 20) (HealthAnswer False 50) = (t, outs)" by (metis surj_pair)
  then have m: "EmitStuck 0 \<lparr>hc_attempts = 3, hc_timeout = 5000, hc_first = 10, hc_last = 30\<rparr> \<in> set outs"
    using wit_third [of 30 20 50] by simp
  from stuck_reports_are_earned [OF s [symmetric] r m] r m show ?thesis unfolding s by blast
qed

theorem reconnected_device_is_not_announced_witness:
  "snd (obs_step (wit_observer\<lparr>ob_reconnects := [(0, Listing)]\<rparr>) (ReconnectResume 0 (Inr (listing [wit_entry])))) = []"
proof -
  let ?s = "wit_observer\<lparr>ob_reconnects := [(0, Listing)]\<rparr>"
  have s: "obs_ok ?s" using wit_observer_inv core_ok [of ?s wit_observer] by (simp add: core_def)
  have r: "tracked_ref ?s ''a:1'' = Some 0" "0 < length (ob_reconnects ?s)" "ob_reconnects ?s ! 0 = (0, Listing)"
    by (simp_all add: wit_observer_state tracked_ref_def om_get_def)
  have e: "\<lparr>de_serial = ''a:1'', de_state = ''device''\<rparr> \<in> set [wit_entry]" by (simp add: wit_entry_def)
  from reconnected_device_is_not_announced [OF s r wit_entry_ok e wit_entry_ok e refl] show ?thesis by (rule conjunct1)
qed

end
