(* ===== verification/Vnc_Connection.thy ===== *)
theory Vnc_Connection imports Bytes Complex_Main begin

text \<open>
  \<open>lib/units/device/plugins/vnc/util/connection.js\<close>: the server side of the remote
  framebuffer protocol for one client. The socket is a list of bytes that have arrived and were not
  read; \<open>_read\<close> queues a read that waits for the authentication calls of that moment
  (\<open>Promise.all(this._blockingOps)\<close>), so queued reads are tasks with the number of calls they
  wait for. The buffer is \<open>[]\<close> where the source has \<open>null\<close>; it is never an empty \<open>Buffer\<close>.
  The answer of \<open>security.auth\<close> is an event of the environment.
\<close>

section \<open>State\<close>

record pixel_format =
  pf_bits :: nat
  pf_depth :: nat
  pf_big :: nat
  pf_true :: nat
  pf_red_max :: nat
  pf_green_max :: nat
  pf_blue_max :: nat
  pf_red_shift :: nat
  pf_green_shift :: nat
  pf_blue_shift :: nat

datatype vnc_phase =
    NeedVersion | NeedSecurity | NeedInit | NeedVncAuth | NeedMessage
  | NeedSetPixelFormat | NeedSetEncodings | NeedEncodingsValue | NeedFbUpdateRequest
  | NeedKeyEvent | NeedPointerEvent | NeedCutText | NeedCutTextValue

record vnc =
  vc_phase :: vnc_phase
  vc_buffer :: "byte list"
  vc_security :: "nat list"
  vc_challenge :: "byte list"
  vc_width :: nat
  vc_height :: nat
  vc_name :: string
  vc_version :: "nat option"
  vc_choice :: "nat option"
  vc_share :: nat
  vc_format :: pixel_format
  vc_count :: nat
  vc_encodings :: "int list"
  vc_cut :: nat
  vc_ops :: "bool list"
  vc_reads :: "nat list"
  vc_socket :: "byte list"

datatype vnc_out =
    Written "byte list"
  | Authenticate nat "byte list"
  | EmitAuthenticated
  | EmitUserActivity
  | EmitFormatChange pixel_format
  | EmitFbUpdateRequest nat nat nat nat nat
  | EmitPointer nat "rat option" "rat option"
  | EmitVncError string
  | EmitEnd
  | EmitClose
  | EndConn
  | Uncaught string

definition SECURITY_NONE :: nat where "SECURITY_NONE = 1"

definition SECURITY_VNC :: nat where "SECURITY_VNC = 2"

definition ascii :: "string \<Rightarrow> byte list" where
  "ascii s = map of_char s"

definition version_line :: "string \<Rightarrow> byte list" where
  "version_line v = ascii (''RFB 003.00'' @ v @ [CHR 0x0A])"

definition server_format :: "nat \<Rightarrow> pixel_format" where
  "server_format big = \<lparr>pf_bits = 32, pf_depth = 24, pf_big = big, pf_true = 1, pf_red_max = 255, pf_green_max = 255,
     pf_blue_max = 255, pf_red_shift = 16, pf_green_shift = 8, pf_blue_shift = 0\<rparr>"

section \<open>Writing\<close>

definition supported_security :: "vnc \<Rightarrow> byte list" where
  "supported_security s = of_nat (length (vc_security s)) # map of_nat (vc_security s)"

definition security_okay :: "byte list" where
  "security_okay = put32 0"

definition security_fail :: "string \<Rightarrow> byte list" where
  "security_fail reason = put32 1 @ put32 (length reason) @ ascii reason"

text \<open>\<open>writeUInt16BE\<close> throws when the number does not fit.\<close>

definition server_init :: "nat \<Rightarrow> vnc \<Rightarrow> byte list option" where
  "server_init big s =
     (let f = server_format big in
      if vc_width s < 65536 \<and> vc_height s < 65536
      then Some (put16 (vc_width s) @ put16 (vc_height s) @
             map of_nat [pf_bits f, pf_depth f, pf_big f, pf_true f] @
             put16 (pf_red_max f) @ put16 (pf_green_max f) @ put16 (pf_blue_max f) @
             map of_nat [pf_red_shift f, pf_green_shift f, pf_blue_shift f, 0, 0, 0] @
             put32 (length (vc_name s)) @ ascii (vc_name s))
      else None)"

section \<open>Reading\<close>

definition parse_version :: "byte list \<Rightarrow> nat option" where
  "parse_version chunk =
     (if chunk = version_line ''8'' then Some 3008
      else if chunk = version_line ''7'' then Some 3007
      else if chunk = version_line ''3'' then Some 3003 else None)"

definition parse_security :: "byte list \<Rightarrow> nat option" where
  "parse_security chunk =
     (let t = unat (hd chunk) in if t = SECURITY_NONE \<or> t = SECURITY_VNC then Some t else None)"

definition consume :: "nat \<Rightarrow> byte list \<Rightarrow> (byte list \<times> byte list) option" where
  "consume n buf = (if buf \<noteq> [] \<and> n \<le> length buf then Some (take n buf, drop n buf) else None)"

text \<open>The quotient of two numbers; \<open>None\<close> is a value that is not finite.\<close>

definition quotient :: "nat \<Rightarrow> nat \<Rightarrow> rat option" where
  "quotient a b = (if b = 0 then None else Some (of_nat a / of_nat b))"

definition format_of :: "byte list \<Rightarrow> pixel_format" where
  "format_of c = \<lparr>pf_bits = unat (c ! 3), pf_depth = unat (c ! 4), pf_big = unat (c ! 5), pf_true = unat (c ! 6),
     pf_red_max = u16 c 7, pf_green_max = u16 c 9, pf_blue_max = u16 c 11,
     pf_red_shift = unat (c ! 13), pf_green_shift = unat (c ! 14), pf_blue_shift = unat (c ! 15)\<rparr>"

text \<open>
  One turn of the inner loop: \<open>Again\<close> when a chunk was consumed, \<open>Wait\<close> when there were too
  few bytes, \<open>Return\<close> where the source leaves \<open>_unguardedRead\<close>.
\<close>

datatype turn = Again | Wait | Return

definition taking :: "nat \<Rightarrow> vnc \<Rightarrow> (byte list \<Rightarrow> vnc \<Rightarrow> (vnc \<times> vnc_out list) \<times> turn) \<Rightarrow> (vnc \<times> vnc_out list) \<times> turn" where
  "taking n s k =
     (case consume n (vc_buffer s) of
        None \<Rightarrow> ((s, []), Wait)
      | Some (chunk, rest) \<Rightarrow> k chunk (s\<lparr>vc_buffer := rest\<rparr>))"

definition vnc_auth :: "vnc \<Rightarrow> byte list \<Rightarrow> vnc \<times> vnc_out list" where
  "vnc_auth s response = (s\<lparr>vc_ops := vc_ops s @ [False]\<rparr>, [Authenticate (length (vc_ops s)) response])"

definition client_version :: "byte list \<Rightarrow> vnc \<Rightarrow> (vnc \<times> vnc_out list) \<times> turn" where
  "client_version chunk s =
     (case parse_version chunk of
        None \<Rightarrow> ((s\<lparr>vc_version := None\<rparr>, [EndConn]), Return)
      | Some v \<Rightarrow> ((s\<lparr>vc_version := Some v, vc_phase := NeedSecurity\<rparr>, [Written (supported_security s)]), Again))"

definition client_security :: "byte list \<Rightarrow> vnc \<Rightarrow> (vnc \<times> vnc_out list) \<times> turn" where
  "client_security chunk s =
     (case parse_security chunk of
        None \<Rightarrow> ((s\<lparr>vc_choice := None\<rparr>, [Written (security_fail ''Unimplemented security type''), EndConn]), Return)
      | Some t \<Rightarrow>
          (let s1 = s\<lparr>vc_choice := Some t\<rparr> in
           if t \<notin> set (vc_security s)
           then ((s1, [Written (security_fail ''Unsupported security type''), EndConn]), Return)
           else if t = SECURITY_NONE
           then ((s1\<lparr>vc_phase := NeedInit\<rparr>, [Written security_okay, EmitAuthenticated]), Return)
           else ((s1\<lparr>vc_phase := NeedVncAuth\<rparr>, [Written (vc_challenge s)]), Again)))"

definition client_init :: "nat \<Rightarrow> byte list \<Rightarrow> vnc \<Rightarrow> (vnc \<times> vnc_out list) \<times> turn" where
  "client_init big chunk s =
     (let s1 = s\<lparr>vc_share := unat (hd chunk)\<rparr> in
      case server_init big s of
        None \<Rightarrow> ((s1, [Uncaught ''out of range'']), Return)
      | Some bytes \<Rightarrow> ((s1\<lparr>vc_phase := NeedMessage\<rparr>, [Written bytes]), Again))"

definition client_message :: "byte list \<Rightarrow> vnc \<Rightarrow> (vnc \<times> vnc_out list) \<times> turn" where
  "client_message chunk s =
     (let t = unat (hd chunk) in
      if t = 0 then ((s\<lparr>vc_phase := NeedSetPixelFormat\<rparr>, []), Again)
      else if t = 2 then ((s\<lparr>vc_phase := NeedSetEncodings\<rparr>, []), Again)
      else if t = 3 then ((s\<lparr>vc_phase := NeedFbUpdateRequest\<rparr>, []), Again)
      else if t = 4 then ((s\<lparr>vc_phase := NeedKeyEvent\<rparr>, [EmitUserActivity]), Again)
      else if t = 5 then ((s\<lparr>vc_phase := NeedPointerEvent\<rparr>, [EmitUserActivity]), Again)
      else if t = 6 then ((s\<lparr>vc_phase := NeedCutText\<rparr>, [EmitUserActivity]), Again)
      else ((s, [EmitVncError ''Unsupported message type'', EndConn]), Return))"

fun vnc_turn :: "nat \<Rightarrow> vnc_phase \<Rightarrow> vnc \<Rightarrow> (vnc \<times> vnc_out list) \<times> turn" where
  "vnc_turn big NeedVersion s = taking 12 s client_version"
| "vnc_turn big NeedSecurity s = taking 1 s client_security"
| "vnc_turn big NeedVncAuth s = taking 16 s (\<lambda>chunk s. (vnc_auth s chunk, Return))"
| "vnc_turn big NeedInit s = taking 1 s (client_init big)"
| "vnc_turn big NeedMessage s = taking 1 s client_message"
| "vnc_turn big NeedSetPixelFormat s = taking 19 s (\<lambda>chunk s.
     ((s\<lparr>vc_format := format_of chunk, vc_phase := NeedMessage\<rparr>, [EmitFormatChange (format_of chunk)]), Again))"
| "vnc_turn big NeedSetEncodings s = taking 3 s (\<lambda>chunk s.
     ((s\<lparr>vc_count := u16 chunk 1, vc_phase := NeedEncodingsValue\<rparr>, []), Again))"
| "vnc_turn big NeedEncodingsValue s = taking (4 * vc_count s) s (\<lambda>chunk s.
     ((s\<lparr>vc_encodings := map (\<lambda>i. i32 chunk (4 * i)) [0..<vc_count s], vc_phase := NeedMessage\<rparr>, []), Again))"
| "vnc_turn big NeedFbUpdateRequest s = taking 9 s (\<lambda>chunk s.
     ((s\<lparr>vc_phase := NeedMessage\<rparr>,
       [EmitFbUpdateRequest (unat (chunk ! 0)) (u16 chunk 1) (u16 chunk 3) (u16 chunk 5) (u16 chunk 7)]), Again))"
| "vnc_turn big NeedKeyEvent s = taking 7 s (\<lambda>chunk s. ((s\<lparr>vc_phase := NeedMessage\<rparr>, []), Again))"
| "vnc_turn big NeedPointerEvent s = taking 5 s (\<lambda>chunk s.
     ((s\<lparr>vc_phase := NeedMessage\<rparr>,
       [EmitPointer (unat (chunk ! 0)) (quotient (u16 chunk 1) (vc_width s)) (quotient (u16 chunk 3) (vc_height s))]), Again))"
| "vnc_turn big NeedCutText s = taking 7 s (\<lambda>chunk s.
     ((s\<lparr>vc_cut := u32 chunk 3, vc_phase := NeedCutTextValue\<rparr>, []), Again))"
| "vnc_turn big NeedCutTextValue s = taking (vc_cut s) s (\<lambda>chunk s. ((s\<lparr>vc_phase := NeedMessage\<rparr>, []), Again))"

text \<open>
  The inner loop. Every turn that goes on consumes a byte, or, when it reads a value of length
  zero, leaves the phase of that value; the measure counts both.
\<close>

definition vnc_measure :: "vnc \<Rightarrow> nat" where
  "vnc_measure s = 2 * length (vc_buffer s) +
     (if vc_phase s = NeedEncodingsValue \<or> vc_phase s = NeedCutTextValue then 1 else 0)"

lemma taking_cases:
  obtains (wait) "taking n s k = ((s, []), Wait)"
  | (chunk) "vc_buffer s \<noteq> []" "n \<le> length (vc_buffer s)"
      "taking n s k = k (take n (vc_buffer s)) (s\<lparr>vc_buffer := drop n (vc_buffer s)\<rparr>)"
  by (cases "vc_buffer s \<noteq> [] \<and> n \<le> length (vc_buffer s)") (auto simp: taking_def consume_def)

lemma turn_measure:
  assumes "vnc_turn big (vc_phase s) s = ((t, out), Again)"
  shows "vnc_measure t < vnc_measure s"
  using assms
  by (cases "vc_phase s")
    (auto simp: taking_def consume_def vnc_measure_def client_version_def client_security_def client_init_def
      client_message_def vnc_auth_def Let_def split: if_splits option.splits)

function vnc_loop :: "nat \<Rightarrow> vnc \<Rightarrow> (vnc \<times> vnc_out list) \<times> bool" where
  "vnc_loop big s =
     (case vnc_turn big (vc_phase s) s of
        ((t, out), Again) \<Rightarrow> (let r = vnc_loop big t in ((fst (fst r), out @ snd (fst r)), snd r))
      | ((t, out), Wait) \<Rightarrow> ((t, out), False)
      | ((t, out), Return) \<Rightarrow> ((t, out), True))"
  by pat_completeness auto
termination
  by (relation "measure (\<lambda>(big, s). vnc_measure s)") (auto simp: turn_measure [OF sym])

declare vnc_loop.simps [simp del]

definition unguarded_read :: "nat \<Rightarrow> vnc \<Rightarrow> vnc \<times> vnc_out list" where
  "unguarded_read big s =
     (if vc_socket s = [] then (s, [])
      else fst (vnc_loop big (s\<lparr>vc_buffer := vc_buffer s @ vc_socket s, vc_socket := []\<rparr>)))"

section \<open>The connection as a machine\<close>

record rect =
  rc_x :: nat
  rc_y :: nat
  rc_width :: nat
  rc_height :: nat
  rc_encoding :: int
  rc_data :: "byte list"

definition ENCODING_RAW :: int where "ENCODING_RAW = 0"

definition ENCODING_DESKTOPSIZE :: int where "ENCODING_DESKTOPSIZE = -223"

definition rect_header :: "rect \<Rightarrow> byte list option" where
  "rect_header r =
     (if rc_x r < 65536 \<and> rc_y r < 65536 \<and> rc_width r < 65536 \<and> rc_height r < 65536 \<and>
         - (2 ^ 31) \<le> rc_encoding r \<and> rc_encoding r < 2 ^ 31
      then Some (put16 (rc_x r) @ put16 (rc_y r) @ put16 (rc_width r) @ put16 (rc_height r) @ put_i32 (rc_encoding r))
      else None)"

text \<open>\<open>writeFramebufferUpdate\<close>; the last component says that it did not throw.\<close>

fun write_rects :: "vnc \<Rightarrow> rect list \<Rightarrow> (vnc \<times> vnc_out list) \<times> bool" where
  "write_rects s [] = ((s, []), True)"
| "write_rects s (r # rs) =
     (case rect_header r of
        None \<Rightarrow> ((s, []), False)
      | Some h \<Rightarrow>
          (if rc_encoding r = ENCODING_RAW then
             (let t = write_rects s rs in ((fst (fst t), Written h # Written (rc_data r) # snd (fst t)), snd t))
           else if rc_encoding r = ENCODING_DESKTOPSIZE then
             (let t = write_rects (s\<lparr>vc_width := rc_width r, vc_height := rc_height r\<rparr>) rs
              in ((fst (fst t), Written h # snd (fst t)), snd t))
           else ((s, [Written h]), False)))"

definition write_update :: "vnc \<Rightarrow> rect list \<Rightarrow> (vnc \<times> vnc_out list) \<times> bool" where
  "write_update s rects =
     (if length rects < 65536
      then (let t = write_rects s rects in ((fst (fst t), Written ([0, 0] @ put16 (length rects)) # snd (fst t)), snd t))
      else ((s, []), False))"

definition vnc_new :: "nat \<Rightarrow> nat list \<Rightarrow> byte list \<Rightarrow> nat \<Rightarrow> nat \<Rightarrow> string \<Rightarrow> vnc" where
  "vnc_new big security challenge width height name =
     \<lparr>vc_phase = NeedVersion, vc_buffer = [], vc_security = security, vc_challenge = challenge, vc_width = width,
      vc_height = height, vc_name = name, vc_version = None, vc_choice = None, vc_share = 0, vc_format = server_format big,
      vc_count = 0, vc_encodings = [], vc_cut = 0, vc_ops = [], vc_reads = [0], vc_socket = []\<rparr>"

definition vnc_greeting :: "vnc_out list" where
  "vnc_greeting = [Written (version_line ''8'')]"

text \<open>\<open>_read\<close> queues a read behind the calls of \<open>security.auth\<close> made so far.\<close>

definition queue_read :: "vnc \<Rightarrow> vnc" where
  "queue_read s = s\<lparr>vc_reads := vc_reads s @ [length (vc_ops s)]\<rparr>"

definition read_ready :: "vnc \<Rightarrow> nat \<Rightarrow> bool" where
  "read_ready s k \<longleftrightarrow> k < length (vc_reads s) \<and> list_all (\<lambda>b. b) (take (vc_reads s ! k) (vc_ops s))"

definition auth_done :: "vnc \<Rightarrow> nat \<Rightarrow> bool \<Rightarrow> vnc \<times> vnc_out list" where
  "auth_done s k ok =
     (if k < length (vc_ops s) \<and> \<not> vc_ops s ! k then
        (if ok then ((queue_read (s\<lparr>vc_phase := NeedInit\<rparr>))\<lparr>vc_ops := (vc_ops s)[k := True]\<rparr>, [Written security_okay, EmitAuthenticated])
         else (s\<lparr>vc_ops := (vc_ops s)[k := True]\<rparr>, [Written (security_fail ''Authentication failure''), EndConn]))
      else (s, []))"

datatype vnc_event =
    Readable "byte list"
  | ReadTurn nat
  | AuthDone nat bool
  | SocketError string
  | SocketEnd
  | SocketClose
  | CallUpdate "rect list"
  | CallEnd

fun vnc_step :: "nat \<Rightarrow> vnc \<Rightarrow> vnc_event \<Rightarrow> vnc \<times> vnc_out list" where
  "vnc_step big s (Readable d) = (queue_read (s\<lparr>vc_socket := vc_socket s @ d\<rparr>), [])"
| "vnc_step big s (ReadTurn k) =
     (if read_ready s k then unguarded_read big (s\<lparr>vc_reads := remove_nth k (vc_reads s)\<rparr>) else (s, []))"
| "vnc_step big s (AuthDone k ok) = auth_done s k ok"
| "vnc_step big s (SocketError msg) = (s, [EmitVncError msg, EndConn])"
| "vnc_step big s SocketEnd = (s, [EmitEnd])"
| "vnc_step big s SocketClose = (s, [EmitClose])"
| "vnc_step big s (CallUpdate rects) =
     (let r = write_update s rects in (fst (fst r), snd (fst r) @ (if snd r then [] else [Uncaught ''out of range''])))"
| "vnc_step big s CallEnd = (s, [EndConn])"

section \<open>The parser does not see where the bytes were cut\<close>

abbreviation more :: "vnc \<Rightarrow> byte list \<Rightarrow> vnc" where
  "more s b \<equiv> s\<lparr>vc_buffer := vc_buffer s @ b\<rparr>"

lemma taking_more:
  assumes "taking n s k = ((t, out), x)" and "x \<noteq> Wait"
    and "\<And>c u. k c (more u b) = ((more (fst (fst (k c u))) b, snd (fst (k c u))), snd (k c u))"
  shows "taking n (more s b) k = ((more t b, out), x)"
  using assms(1,2) assms(3) [of "take n (vc_buffer s)" "s\<lparr>vc_buffer := drop n (vc_buffer s)\<rparr>"]
  by (auto simp: taking_def consume_def split: if_splits)

lemma taking_wait: "taking n s k = ((t, out), Wait) \<Longrightarrow> (\<And>c u. snd (k c u) \<noteq> Wait) \<Longrightarrow> t = s \<and> out = []"
  by (auto simp: taking_def consume_def split: if_splits) (metis snd_conv)+

lemma handlers_more:
  "client_version c (more u b) = ((more (fst (fst (client_version c u))) b, snd (fst (client_version c u))), snd (client_version c u))"
  "client_security c (more u b) = ((more (fst (fst (client_security c u))) b, snd (fst (client_security c u))), snd (client_security c u))"
  "client_init big c (more u b) = ((more (fst (fst (client_init big c u))) b, snd (fst (client_init big c u))), snd (client_init big c u))"
  "client_message c (more u b) = ((more (fst (fst (client_message c u))) b, snd (fst (client_message c u))), snd (client_message c u))"
  by (simp_all add: client_version_def client_security_def client_init_def client_message_def server_init_def supported_security_def
      Let_def split: option.splits)

lemma handlers_go_on:
  "snd (client_version c u) \<noteq> Wait" "snd (client_security c u) \<noteq> Wait" "snd (client_init big c u) \<noteq> Wait"
  "snd (client_message c u) \<noteq> Wait"
  by (simp_all add: client_version_def client_security_def client_init_def client_message_def Let_def split: option.splits)

lemma turn_more:
  assumes "vnc_turn big p s = ((t, out), x)" and "x \<noteq> Wait"
  shows "vnc_turn big p (more s b) = ((more t b, out), x)"
  using assms(1)
  by (cases p; simp; intro taking_more [OF _ assms(2)])
    (simp_all add: handlers_more vnc_auth_def)

lemma turn_wait: "vnc_turn big p s = ((t, out), Wait) \<Longrightarrow> t = s \<and> out = []"
  by (cases p; simp; erule taking_wait) (simp_all add: handlers_go_on)

lemma loop_more:
  "vnc_loop big (more s b) =
     (let r = vnc_loop big s in
      if snd r then ((more (fst (fst r)) b, snd (fst r)), True)
      else (let q = vnc_loop big (more (fst (fst r)) b) in ((fst (fst q), snd (fst r) @ snd (fst q)), snd q)))"
proof (induction big s rule: vnc_loop.induct)
  case (1 big s)
  obtain t out x where turn: "vnc_turn big (vc_phase s) s = ((t, out), x)" by (metis surj_pair)
  show ?case
  proof (cases x)
    case Again
    have "vnc_loop big (more s b) = (let r = vnc_loop big (more t b) in ((fst (fst r), out @ snd (fst r)), snd r))"
      using turn_more [OF turn] Again by (subst vnc_loop.simps) simp
    moreover have "vnc_loop big s = (let r = vnc_loop big t in ((fst (fst r), out @ snd (fst r)), snd r))"
      using turn Again by (subst vnc_loop.simps) simp
    ultimately show ?thesis using 1 [OF turn [symmetric] refl] Again by (simp add: Let_def)
  next
    case Wait
    then have "t = s" "out = []" using turn_wait turn by blast+
    moreover have "vnc_loop big s = ((t, out), False)" using turn Wait by (subst vnc_loop.simps) simp
    ultimately show ?thesis by (simp add: Let_def)
  next
    case Return
    have "vnc_loop big (more s b) = ((more t b, out), True)"
      using turn_more [OF turn] Return by (subst vnc_loop.simps) simp
    moreover have "vnc_loop big s = ((t, out), True)" using turn Return by (subst vnc_loop.simps) simp
    ultimately show ?thesis by (simp add: Let_def)
  qed
qed

section \<open>The messages of a client\<close>

text \<open>
  What a client may send once it is initialised, and the bytes of each message, as the
  protocol defines them; \<open>handled\<close> is what the connection emits for a message.
\<close>

datatype client_msg =
    SetPixelFormat pixel_format
  | SetEncodings "int list"
  | FbUpdateRequest nat nat nat nat nat
  | KeyEvent nat nat
  | PointerEvent nat nat nat
  | CutText "byte list"

fun encode_msg :: "client_msg \<Rightarrow> byte list" where
  "encode_msg (SetPixelFormat f) = [0] @ ([0, 0, 0] @ map of_nat [pf_bits f, pf_depth f, pf_big f, pf_true f] @
     put16 (pf_red_max f) @ put16 (pf_green_max f) @ put16 (pf_blue_max f) @
     map of_nat [pf_red_shift f, pf_green_shift f, pf_blue_shift f] @ [0, 0, 0])"
| "encode_msg (SetEncodings es) = [2] @ ([0] @ put16 (length es)) @ concat (map put_i32 es)"
| "encode_msg (FbUpdateRequest inc x y w h) = [3] @ ([of_nat inc] @ put16 x @ put16 y @ put16 w @ put16 h)"
| "encode_msg (KeyEvent down key) = [4] @ ([of_nat down, 0, 0] @ put32 key)"
| "encode_msg (PointerEvent buttons x y) = [5] @ ([of_nat buttons] @ put16 x @ put16 y)"
| "encode_msg (CutText text) = [6] @ ([0, 0, 0] @ put32 (length text)) @ text"

definition format_ok :: "pixel_format \<Rightarrow> bool" where
  "format_ok f \<longleftrightarrow> list_all (\<lambda>n. n < 256) [pf_bits f, pf_depth f, pf_big f, pf_true f, pf_red_shift f, pf_green_shift f, pf_blue_shift f] \<and>
     list_all (\<lambda>n. n < 65536) [pf_red_max f, pf_green_max f, pf_blue_max f]"

fun msg_ok :: "client_msg \<Rightarrow> bool" where
  "msg_ok (SetPixelFormat f) = format_ok f"
| "msg_ok (SetEncodings es) = (length es < 65536 \<and> list_all (\<lambda>e. - (2 ^ 31) \<le> e \<and> e < 2 ^ 31) es)"
| "msg_ok (FbUpdateRequest inc x y w h) = (inc < 256 \<and> list_all (\<lambda>n. n < 65536) [x, y, w, h])"
| "msg_ok (KeyEvent down key) = (down < 256 \<and> key < 2 ^ 32)"
| "msg_ok (PointerEvent buttons x y) = (buttons < 256 \<and> x < 65536 \<and> y < 65536)"
| "msg_ok (CutText text) = (length text < 2 ^ 32)"

fun handled :: "nat \<Rightarrow> nat \<Rightarrow> client_msg \<Rightarrow> vnc_out list" where
  "handled w h (SetPixelFormat f) = [EmitFormatChange f]"
| "handled w h (SetEncodings es) = []"
| "handled w h (FbUpdateRequest inc x y w' h') = [EmitFbUpdateRequest inc x y w' h']"
| "handled w h (KeyEvent down key) = [EmitUserActivity]"
| "handled w h (PointerEvent buttons x y) = [EmitUserActivity, EmitPointer buttons (quotient x w) (quotient y h)]"
| "handled w h (CutText text) = [EmitUserActivity]"

text \<open>
  Between two messages: the connection waits for a type byte, or it still waits for a value of
  length zero, which it takes with the next bytes only.
\<close>

definition between :: "vnc \<Rightarrow> bool" where
  "between s \<longleftrightarrow> vc_phase s = NeedMessage \<or> vc_phase s = NeedEncodingsValue \<and> vc_count s = 0 \<or>
     vc_phase s = NeedCutTextValue \<and> vc_cut s = 0"

definition vnc_frame :: "vnc \<Rightarrow> (nat \<times> nat) \<times> (bool list \<times> nat list \<times> byte list)" where
  "vnc_frame s = ((vc_width s, vc_height s), (vc_ops s, vc_reads s, vc_socket s))"

definition emitting_first :: "vnc_out list \<Rightarrow> (vnc \<times> vnc_out list) \<times> bool \<Rightarrow> (vnc \<times> vnc_out list) \<times> bool" where
  "emitting_first out r = ((fst (fst r), out @ snd (fst r)), snd r)"

lemma emitting_simps [simp]:
  "emitting_first [] r = r" "emitting_first a (emitting_first b r) = emitting_first (a @ b) r"
  "emitting_first a ((t, out), x) = ((t, a @ out), x)"
  by (simp_all add: emitting_first_def)

lemma loop_again: "vnc_turn big (vc_phase s) s = ((t, out), Again) \<Longrightarrow> vnc_loop big s = emitting_first out (vnc_loop big t)"
  by (subst vnc_loop.simps) (simp add: emitting_first_def Let_def)

lemma turn_empty: "vc_buffer s = [] \<Longrightarrow> vnc_turn big p s = ((s, []), Wait)"
  by (cases p) (simp_all add: taking_def consume_def)

lemma loop_empty: "vc_buffer s = [] \<Longrightarrow> vnc_loop big s = ((s, []), False)"
  by (subst vnc_loop.simps) (simp add: turn_empty)

lemma taking_chunk:
  "vc_buffer s = c @ r \<Longrightarrow> length c = n \<Longrightarrow> c @ r \<noteq> [] \<Longrightarrow> taking n s k = k c (s\<lparr>vc_buffer := r\<rparr>)"
  by (simp add: taking_def consume_def)

lemma between_next:
  assumes "between s" and "vc_buffer s \<noteq> []"
  shows "\<exists>t. vnc_loop big s = vnc_loop big t \<and> vc_phase t = NeedMessage \<and> vc_buffer t = vc_buffer s \<and> vnc_frame t = vnc_frame s"
proof (cases "vc_phase s = NeedMessage")
  case False
  then have z: "vc_phase s = NeedEncodingsValue \<and> vc_count s = 0 \<or> vc_phase s = NeedCutTextValue \<and> vc_cut s = 0"
    using assms(1) by (simp add: between_def)
  have k: "taking 0 s k = k [] s" for k using taking_chunk [of s "[]" "vc_buffer s" 0 k] assms(2) by simp
  from z obtain t where "vnc_turn big (vc_phase s) s = ((t, []), Again)" "vc_phase t = NeedMessage"
    "vc_buffer t = vc_buffer s" "vnc_frame t = vnc_frame s"
    by (elim disjE) (auto simp: k vnc_frame_def)
  then show ?thesis using loop_again [of big s t "[]"] by auto
qed auto

lemma i32_list:
  "list_all (\<lambda>e. - (2 ^ 31) \<le> e \<and> e < 2 ^ 31) es \<Longrightarrow> map (\<lambda>i. i32 (concat (map put_i32 es)) (4 * i)) [0..<length es] = es"
proof (rule nth_equalityI)
  fix i
  assume es: "list_all (\<lambda>e. - (2 ^ 31) \<le> e \<and> e < 2 ^ 31) es" and "i < length (map (\<lambda>i. i32 (concat (map put_i32 es)) (4 * i)) [0..<length es])"
  then have i: "i < length es" by simp
  let ?p = "concat (map put_i32 (take i es))"
  have "es = take i es @ es ! i # drop (Suc i) es" using i by (simp add: id_take_nth_drop)
  then have c: "concat (map put_i32 es) = ?p @ put_i32 (es ! i) @ concat (map put_i32 (drop (Suc i) es))"
    by (metis concat.simps(2) concat_append list.simps(9) map_append)
  have "length ?p = 4 * i" using i by (simp add: length_concat comp_def sum_list_triv min_def)
  from i32_at [OF this, of "es ! i"] show "map (\<lambda>i. i32 (concat (map put_i32 es)) (4 * i)) [0..<length es] ! i = es ! i"
    using c es i by (simp add: list_all_length)
qed simp

definition advances :: "nat \<Rightarrow> vnc \<Rightarrow> vnc_out list \<Rightarrow> vnc \<Rightarrow> bool" where
  "advances big s out t \<longleftrightarrow> vnc_loop big s = emitting_first out (vnc_loop big t) \<and> vnc_frame t = vnc_frame s"

lemma adv_refl: "advances big s [] s"
  by (simp add: advances_def)

lemma adv_turn: "vnc_turn big (vc_phase s) s = ((t, out), Again) \<Longrightarrow> vnc_frame t = vnc_frame s \<Longrightarrow> advances big s out t"
  by (simp add: advances_def loop_again)

lemma adv_trans: "advances big s out t \<Longrightarrow> advances big t out' u \<Longrightarrow> advances big s (out @ out') u"
  by (simp add: advances_def)

lemma adv_type:
  assumes "between s" and "vc_buffer s = [b] @ r"
  shows "\<exists>u. vc_phase u = NeedMessage \<and> vc_buffer u = r \<and> vnc_frame u = vnc_frame s \<and>
    (\<forall>v out. client_message [b] u = ((v, out), Again) \<and> vnc_frame v = vnc_frame u \<longrightarrow> advances big s out v)"
proof -
  from between_next [OF assms(1)] assms(2) obtain u where
    u: "vnc_loop big s = vnc_loop big u" "vc_phase u = NeedMessage" "vc_buffer u = [b] @ r" "vnc_frame u = vnc_frame s" by auto
  let ?u = "u\<lparr>vc_buffer := r\<rparr>"
  have "vnc_turn big (vc_phase u) u = client_message [b] ?u"
    using u(2) taking_chunk [OF u(3), of 1] by simp
  then have "advances big s out v" if "client_message [b] ?u = ((v, out), Again)" "vnc_frame v = vnc_frame ?u" for v out
    using that loop_again [of big u v out] u by (simp add: advances_def vnc_frame_def)
  moreover have "vc_phase ?u = NeedMessage" "vc_buffer ?u = r" "vnc_frame ?u = vnc_frame s"
    using u by (simp_all add: vnc_frame_def)
  ultimately show ?thesis by blast
qed

text \<open>After the type byte: the phase for the rest of the message, and what was emitted.\<close>

lemma adv_enter:
  assumes "between s" and "vc_buffer s = [of_nat n] @ r"
    and "(n, p, out) \<in> {(0, NeedSetPixelFormat, []), (2, NeedSetEncodings, []), (3, NeedFbUpdateRequest, []),
       (4, NeedKeyEvent, [EmitUserActivity]), (5, NeedPointerEvent, [EmitUserActivity]), (6, NeedCutText, [EmitUserActivity])}"
  shows "\<exists>t. advances big s out t \<and> vc_phase t = p \<and> vc_buffer t = r"
proof -
  from adv_type [OF assms(1,2)] obtain u where u: "vc_buffer u = r"
    "\<And>v out. client_message [of_nat n] u = ((v, out), Again) \<Longrightarrow> vnc_frame v = vnc_frame u \<Longrightarrow> advances big s out v" by blast
  have "client_message [of_nat n] u = ((u\<lparr>vc_phase := p\<rparr>, out), Again)"
    using assms(3) by (elim insertE) (simp_all add: client_message_def)
  from u(2) [OF this] u(1) show ?thesis by (intro exI [of _ "u\<lparr>vc_phase := p\<rparr>"]) (simp add: vnc_frame_def)
qed

lemma u16_pair: "n < 65536 \<Longrightarrow> unat (of_nat (n div 256) :: byte) * 256 + unat (of_nat n :: byte) = n"
  by (simp add: unat_byte)

lemma unat_small: "n < 256 \<Longrightarrow> unat (of_nat n :: byte) = n"
  by (simp add: unat_byte)

lemma format_of_encoded:
  "format_ok f \<Longrightarrow> format_of ([0, 0, 0] @ map of_nat [pf_bits f, pf_depth f, pf_big f, pf_true f] @
     put16 (pf_red_max f) @ put16 (pf_green_max f) @ put16 (pf_blue_max f) @
     map of_nat [pf_red_shift f, pf_green_shift f, pf_blue_shift f] @ [0, 0, 0]) = f"
  by (simp add: format_of_def format_ok_def u16_def put16_def u16_pair unat_small)

lemma one_message:
  assumes "between s" and "vc_buffer s = encode_msg m @ rest" and "msg_ok m"
  shows "\<exists>t. advances big s (handled (vc_width s) (vc_height s) m) t \<and> between t \<and> vc_buffer t = rest"
proof (cases m)
  case (SetPixelFormat f)
  let ?c = "[0, 0, 0] @ map of_nat [pf_bits f, pf_depth f, pf_big f, pf_true f] @
     put16 (pf_red_max f) @ put16 (pf_green_max f) @ put16 (pf_blue_max f) @
     map of_nat [pf_red_shift f, pf_green_shift f, pf_blue_shift f] @ [0, 0, 0] :: byte list"
  have "vc_buffer s = [of_nat 0] @ ?c @ rest" using assms(2) SetPixelFormat by simp
  from adv_enter [OF assms(1) this, of NeedSetPixelFormat "[]"] obtain t where
    t: "advances big s [] t" "vc_phase t = NeedSetPixelFormat" "vc_buffer t = ?c @ rest" by auto
  let ?v = "t\<lparr>vc_buffer := rest, vc_format := f, vc_phase := NeedMessage\<rparr>"
  have f: "format_of ?c = f" using assms(3) SetPixelFormat by (intro format_of_encoded) simp
  have "advances big t [EmitFormatChange f] ?v"
    by (rule adv_turn) (use f in \<open>simp_all add: t(2) taking_chunk [OF t(3)] vnc_frame_def\<close>)
  from adv_trans [OF t(1) this] SetPixelFormat show ?thesis
    by (intro exI [of _ ?v]) (simp add: between_def)
next
  case (SetEncodings es)
  let ?c = "[0] @ put16 (length es) :: byte list" and ?d = "concat (map put_i32 es)"
  have "vc_buffer s = [of_nat 2] @ ?c @ ?d @ rest" using assms(2) SetEncodings by simp
  from adv_enter [OF assms(1) this, of NeedSetEncodings "[]"] obtain t where
    t: "advances big s [] t" "vc_phase t = NeedSetEncodings" "vc_buffer t = ?c @ ?d @ rest" by auto
  let ?v = "t\<lparr>vc_buffer := ?d @ rest, vc_count := length es, vc_phase := NeedEncodingsValue\<rparr>"
  have n: "u16 ?c 1 = length es" using assms(3) SetEncodings by (simp add: u16_def put16_def u16_pair)
  have v: "advances big t [] ?v"
    by (rule adv_turn) (use n in \<open>simp_all add: t(2) taking_chunk [OF t(3)] vnc_frame_def\<close>)
  show ?thesis
  proof (cases "es = []")
    case True
    then show ?thesis using adv_trans [OF t(1) v] SetEncodings by (intro exI [of _ ?v]) (simp add: between_def)
  next
    case False
    let ?w = "?v\<lparr>vc_buffer := rest, vc_encodings := es, vc_phase := NeedMessage\<rparr>"
    have d: "vc_buffer ?v = ?d @ rest" "?d \<noteq> []" "length ?d = 4 * length es"
      using False by (cases es, simp_all add: put_i32_def put32_def put16_def length_concat comp_def sum_list_triv)
    have e: "map (\<lambda>i. i32 ?d (4 * i)) [0..<length es] = es" using assms(3) SetEncodings by (intro i32_list) simp
    have "advances big ?v [] ?w"
      by (rule adv_turn) (use d e in \<open>simp_all add: taking_chunk [OF d(1)] vnc_frame_def\<close>)
    from adv_trans [OF t(1) adv_trans [OF v this]] SetEncodings show ?thesis
      by (intro exI [of _ ?w]) (simp add: between_def)
  qed
next
  case (FbUpdateRequest inc x y w h)
  let ?c = "[of_nat inc] @ put16 x @ put16 y @ put16 w @ put16 h :: byte list"
  have "vc_buffer s = [of_nat 3] @ ?c @ rest" using assms(2) FbUpdateRequest by simp
  from adv_enter [OF assms(1) this, of NeedFbUpdateRequest "[]"] obtain t where
    t: "advances big s [] t" "vc_phase t = NeedFbUpdateRequest" "vc_buffer t = ?c @ rest" by auto
  let ?v = "t\<lparr>vc_buffer := rest, vc_phase := NeedMessage\<rparr>"
  have "advances big t [EmitFbUpdateRequest inc x y w h] ?v"
    by (rule adv_turn) (use assms(3) FbUpdateRequest in
        \<open>simp_all add: t(2) taking_chunk [OF t(3)] vnc_frame_def put16_def u16_def u16_pair unat_small\<close>)
  from adv_trans [OF t(1) this] FbUpdateRequest show ?thesis by (intro exI [of _ ?v]) (simp add: between_def)
next
  case (KeyEvent down key)
  let ?c = "[of_nat down, 0, 0] @ put32 key :: byte list"
  have "vc_buffer s = [of_nat 4] @ ?c @ rest" using assms(2) KeyEvent by simp
  from adv_enter [OF assms(1) this, of NeedKeyEvent "[EmitUserActivity]"] obtain t where
    t: "advances big s [EmitUserActivity] t" "vc_phase t = NeedKeyEvent" "vc_buffer t = ?c @ rest" by auto
  let ?v = "t\<lparr>vc_buffer := rest, vc_phase := NeedMessage\<rparr>"
  have "advances big t [] ?v"
    by (rule adv_turn) (simp_all add: t(2) taking_chunk [OF t(3)] vnc_frame_def)
  from adv_trans [OF t(1) this] KeyEvent show ?thesis by (intro exI [of _ ?v]) (simp add: between_def)
next
  case (PointerEvent buttons x y)
  let ?c = "[of_nat buttons] @ put16 x @ put16 y :: byte list"
  have "vc_buffer s = [of_nat 5] @ ?c @ rest" using assms(2) PointerEvent by simp
  from adv_enter [OF assms(1) this, of NeedPointerEvent "[EmitUserActivity]"] obtain t where
    t: "advances big s [EmitUserActivity] t" "vc_phase t = NeedPointerEvent" "vc_buffer t = ?c @ rest" by auto
  let ?v = "t\<lparr>vc_buffer := rest, vc_phase := NeedMessage\<rparr>"
  have w: "vc_width t = vc_width s" "vc_height t = vc_height s" using t(1) by (simp_all add: advances_def vnc_frame_def)
  have "advances big t [EmitPointer buttons (quotient x (vc_width s)) (quotient y (vc_height s))] ?v"
    by (rule adv_turn) (use assms(3) PointerEvent w in
        \<open>simp_all add: t(2) taking_chunk [OF t(3)] vnc_frame_def put16_def u16_def u16_pair unat_small\<close>)
  from adv_trans [OF t(1) this] PointerEvent show ?thesis by (intro exI [of _ ?v]) (simp add: between_def)
next
  case (CutText bs)
  let ?c = "[0, 0, 0] @ put32 (length bs) :: byte list"
  have "vc_buffer s = [of_nat 6] @ ?c @ bs @ rest" using assms(2) CutText by simp
  from adv_enter [OF assms(1) this, of NeedCutText "[EmitUserActivity]"] obtain t where
    t: "advances big s [EmitUserActivity] t" "vc_phase t = NeedCutText" "vc_buffer t = ?c @ bs @ rest" by auto
  let ?v = "t\<lparr>vc_buffer := bs @ rest, vc_cut := length bs, vc_phase := NeedCutTextValue\<rparr>"
  have n: "u32 ?c 3 = length bs" using u32_at [of "[0, 0, 0]" 3 "length bs" "[]"] assms(3) CutText by simp
  have v: "advances big t [] ?v"
    by (rule adv_turn) (use n in \<open>simp_all add: t(2) taking_chunk [OF t(3)] vnc_frame_def\<close>)
  show ?thesis
  proof (cases "bs = []")
    case True
    then show ?thesis using adv_trans [OF t(1) v] CutText by (intro exI [of _ ?v]) (simp add: between_def)
  next
    case False
    let ?w = "?v\<lparr>vc_buffer := rest, vc_phase := NeedMessage\<rparr>"
    have d: "vc_buffer ?v = bs @ rest" by simp
    have "advances big ?v [] ?w" by (rule adv_turn) (use False in \<open>simp_all add: taking_chunk [OF d] vnc_frame_def\<close>)
    from adv_trans [OF t(1) adv_trans [OF v this]] CutText show ?thesis
      by (intro exI [of _ ?w]) (simp add: between_def)
  qed
qed

lemma loop_messages:
  "between s \<Longrightarrow> vc_buffer s = concat (map encode_msg ms) \<Longrightarrow> list_all msg_ok ms \<Longrightarrow>
   \<exists>t. vnc_loop big s = ((t, concat (map (handled (vc_width s) (vc_height s)) ms)), False) \<and> between t \<and> vc_buffer t = []"
proof (induction ms arbitrary: s)
  case Nil
  then show ?case using loop_empty [of s big] by simp
next
  case (Cons m ms)
  from one_message [of s m "concat (map encode_msg ms)" big] Cons.prems obtain t where
    t: "advances big s (handled (vc_width s) (vc_height s) m) t" "between t" "vc_buffer t = concat (map encode_msg ms)" by auto
  have wh: "vc_width t = vc_width s" "vc_height t = vc_height s" using t(1) by (simp_all add: advances_def vnc_frame_def)
  from Cons.IH [OF t(2,3)] Cons.prems(3) show ?case using t(1) unfolding wh by (auto simp: advances_def)
qed

section \<open>Chunks from the network\<close>

fun arrivals :: "byte list list \<Rightarrow> vnc_event list" where
  "arrivals [] = []"
| "arrivals (c # cs) = Readable c # ReadTurn 0 # arrivals cs"

definition idle :: "vnc \<Rightarrow> bool" where
  "idle s \<longleftrightarrow> vc_reads s = [] \<and> vc_socket s = [] \<and> list_all (\<lambda>b. b) (vc_ops s)"

lemma arrival:
  assumes "idle s" and "c \<noteq> []"
  shows "fst (vnc_step big (fst (vnc_step big s (Readable c))) (ReadTurn 0)) = fst (fst (vnc_loop big (more s c)))"
    and "snd (vnc_step big (fst (vnc_step big s (Readable c))) (ReadTurn 0)) = snd (fst (vnc_loop big (more s c)))"
proof -
  let ?s = "(fst (vnc_step big s (Readable c)))\<lparr>vc_reads := remove_nth 0 (vc_reads (fst (vnc_step big s (Readable c))))\<rparr>"
  have "read_ready (fst (vnc_step big s (Readable c))) 0"
    using assms(1) by (simp add: read_ready_def queue_read_def idle_def)
  then have "vnc_step big (fst (vnc_step big s (Readable c))) (ReadTurn 0) = unguarded_read big ?s" by simp
  moreover have "vc_socket ?s = c" using assms(1) by (simp add: queue_read_def idle_def)
  moreover have "?s\<lparr>vc_buffer := vc_buffer ?s @ c, vc_socket := []\<rparr> = more s c"
    using assms(1) by (cases s) (simp add: queue_read_def idle_def remove_nth_def)
  ultimately have "vnc_step big (fst (vnc_step big s (Readable c))) (ReadTurn 0) = fst (vnc_loop big (more s c))"
    using assms(2) by (simp add: unguarded_read_def)
  then show "fst (vnc_step big (fst (vnc_step big s (Readable c))) (ReadTurn 0)) = fst (fst (vnc_loop big (more s c)))"
    "snd (vnc_step big (fst (vnc_step big s (Readable c))) (ReadTurn 0)) = snd (fst (vnc_loop big (more s c)))" by simp_all
qed

lemma turn_idle:
  "vnc_turn big p s = ((t, out), x) \<Longrightarrow> x \<noteq> Return \<Longrightarrow> vc_reads t = vc_reads s \<and> vc_socket t = vc_socket s \<and> vc_ops t = vc_ops s"
  by (cases p) (auto simp: taking_def client_version_def client_security_def client_init_def client_message_def Let_def
      split: if_splits option.splits)

text \<open>A loop that ended for want of bytes made no call, and has nothing more to do.\<close>

lemma loop_waits:
  "vnc_loop big s = ((t, out), False) \<Longrightarrow>
   vnc_loop big t = ((t, []), False) \<and> vc_reads t = vc_reads s \<and> vc_socket t = vc_socket s \<and> vc_ops t = vc_ops s"
proof (induction big s arbitrary: out rule: vnc_loop.induct)
  case (1 big s)
  obtain u o1 x where turn: "vnc_turn big (vc_phase s) s = ((u, o1), x)" by (metis surj_pair)
  show ?case
  proof (cases x)
    case Again
    with turn have "vnc_loop big s = emitting_first o1 (vnc_loop big u)" by (intro loop_again) simp
    with 1(2) obtain out' where "vnc_loop big u = ((t, out'), False)"
      by (cases "vnc_loop big u") (auto simp: emitting_first_def)
    from 1(1) [OF turn [symmetric] refl Again this] show ?thesis using turn_idle [OF turn] Again by simp
  next
    case Wait
    then have u: "u = s" "o1 = []" using turn_wait turn by blast+
    then have l: "vnc_loop big s = ((s, []), False)" using turn Wait by (subst vnc_loop.simps) simp
    then have "t = s" using 1(2) by simp
    then show ?thesis using l by simp
  next
    case Return
    then have "vnc_loop big s = ((u, o1), True)" using turn by (subst vnc_loop.simps) simp
    then show ?thesis using 1(2) by simp
  qed
qed

lemma arrivals_loop:
  "vnc_loop big s = ((s, []), False) \<Longrightarrow> idle s \<Longrightarrow> [] \<notin> set cs \<Longrightarrow> vnc_loop big (more s (concat cs)) = ((t, out), False) \<Longrightarrow>
   run (vnc_step big) s (arrivals cs) = (t, out)"
proof (induction cs arbitrary: s out)
  case Nil
  then show ?case by simp
next
  case (Cons c cs)
  obtain u o1 x where u: "vnc_loop big (more s c) = ((u, o1), x)" by (metis surj_pair)
  have all: "vnc_loop big (more (more s c) (concat cs)) = ((t, out), False)" using Cons.prems(4) by simp
  then have x: "\<not> x" using loop_more [of big "more s c" "concat cs"] u by (auto simp: Let_def)
  then obtain o2 where rest: "vnc_loop big (more u (concat cs)) = ((t, o2), False)" "out = o1 @ o2"
    using loop_more [of big "more s c" "concat cs"] u all by (cases "vnc_loop big (more u (concat cs))") (auto simp: Let_def)
  have "idle u" using loop_waits [of big "more s c" u o1] u x Cons.prems(2) by (simp add: idle_def)
  then have "run (vnc_step big) u (arrivals cs) = (t, o2)"
    using Cons.IH [of u o2] loop_waits [of big "more s c" u o1] u x rest(1) Cons.prems(3) by simp
  moreover have "c \<noteq> []" using Cons.prems(3) by auto
  note step = arrival [OF Cons.prems(2) this, of big, unfolded u fst_conv snd_conv]
  ultimately show ?case
    by (intro prod_eqI) (simp_all only: arrivals.simps run_fst run_snd step, simp_all add: rest(2))
qed

section \<open>Properties\<close>

text \<open>
  C5. The messages of a client survive the network: once a connection is initialised and
  between two messages, the bytes of any list of messages, cut into chunks in any way, make
  the connection emit exactly what the messages ask for, in order, pointer positions relative to
  the size of the screen included, and nothing of them is left in the buffer.
\<close>

theorem vnc_messages_survive_chunking:
  assumes "between s" and "vc_buffer s = []" and "idle s"
    and "list_all msg_ok ms" and "concat cs = concat (map encode_msg ms)" and "[] \<notin> set cs"
  shows "\<exists>t. run (vnc_step big) s (arrivals cs) = (t, concat (map (handled (vc_width s) (vc_height s)) ms)) \<and>
    between t \<and> vc_buffer t = []"
proof -
  have "between (more s (concat cs))" "vc_buffer (more s (concat cs)) = concat (map encode_msg ms)"
    using assms(1,2,5) by (simp_all add: between_def)
  from loop_messages [OF this assms(4), of big] obtain t where
    "vnc_loop big (more s (concat cs)) = ((t, concat (map (handled (vc_width s) (vc_height s)) ms)), False)"
    "between t" "vc_buffer t = []" by auto
  then show ?thesis using arrivals_loop [OF loop_empty [OF assms(2)] assms(3,6)] by blast
qed

text \<open>What only an authenticated client may cause.\<close>

fun client_event :: "vnc_out \<Rightarrow> bool" where
  "client_event EmitAuthenticated = True"
| "client_event EmitUserActivity = True"
| "client_event (EmitFormatChange f) = True"
| "client_event (EmitFbUpdateRequest i x y w h) = True"
| "client_event (EmitPointer b x y) = True"
| "client_event _ = False"

definition unauthenticated :: "vnc \<Rightarrow> bool" where
  "unauthenticated s \<longleftrightarrow> vc_phase s \<in> {NeedVersion, NeedSecurity, NeedVncAuth} \<and> SECURITY_NONE \<notin> set (vc_security s)"

definition quiet :: "vnc \<times> vnc_out list \<Rightarrow> bool" where
  "quiet r \<longleftrightarrow> unauthenticated (fst r) \<and> list_all (\<lambda>x. \<not> client_event x) (snd r)"

lemma turn_quiet: "unauthenticated s \<Longrightarrow> quiet (fst (vnc_turn big (vc_phase s) s))"
  by (cases "vc_phase s")
    (auto simp: unauthenticated_def quiet_def taking_def client_version_def client_security_def vnc_auth_def Let_def
      split: option.splits)

lemma loop_quiet: "unauthenticated s \<Longrightarrow> quiet (fst (vnc_loop big s))"
proof (induction big s rule: vnc_loop.induct)
  case (1 big s)
  obtain u out x where turn: "vnc_turn big (vc_phase s) s = ((u, out), x)" by (metis surj_pair)
  have u: "quiet (u, out)" using turn_quiet [OF 1(2), of big] turn by simp
  show ?case
  proof (cases x)
    case Again
    have "quiet (fst (vnc_loop big u))" using 1(1) [OF turn [symmetric] refl Again] u by (simp add: quiet_def)
    then show ?thesis using loop_again [of big s u out] turn Again u by (simp add: emitting_first_def quiet_def)
  qed (use turn u in \<open>subst vnc_loop.simps, simp\<close>)+
qed

lemma rects_quiet: "unauthenticated s \<Longrightarrow> quiet (fst (write_rects s rs))"
  by (induction s rs rule: write_rects.induct)
    (auto simp: quiet_def unauthenticated_def Let_def split: option.splits)

lemma step_quiet:
  assumes "unauthenticated s" and "\<forall>k. e \<noteq> AuthDone k True"
  shows "quiet (vnc_step big s e)"
proof (cases e)
  case (ReadTurn k)
  have "unauthenticated (t\<lparr>vc_buffer := b, vc_socket := []\<rparr>)" "unauthenticated (s\<lparr>vc_reads := r\<rparr>)"
    if "unauthenticated t" for t b r using that assms(1) by (simp_all add: unauthenticated_def)
  then show ?thesis using ReadTurn assms(1) loop_quiet
    by (simp add: unguarded_read_def quiet_def)
next
  case (CallUpdate rects)
  then show ?thesis using rects_quiet [OF assms(1), of rects] assms(1)
    by (simp add: write_update_def quiet_def Let_def)
qed (use assms in \<open>auto simp: quiet_def unauthenticated_def queue_read_def auth_done_def\<close>)

interpretation vnc_gate: guarded_machine "vnc_step big" unauthenticated "\<lambda>e. \<forall>k. e \<noteq> AuthDone k True" for big
  by unfold_locales (use step_quiet in \<open>auto simp: quiet_def\<close>)

text \<open>
  C33. Nothing gets past the authentication: on a server that does not offer access without
  it, in every run in which no authentication call has succeeded, whatever bytes arrive and
  in whatever order reads, failures and updates happen, the connection emits no pointer event, no request
  for a frame, no format change, no activity, and never says that the client is authenticated.
\<close>

theorem vnc_no_events_before_authentication:
  assumes "SECURITY_NONE \<notin> set security" and "\<forall>k. AuthDone k True \<notin> set es"
  shows "filter client_event (snd (run (vnc_step big) (vnc_new big security challenge w h name) es)) = []"
proof -
  have s: "unauthenticated (vnc_new big security challenge w h name)"
    using assms(1) by (simp add: unauthenticated_def vnc_new_def)
  have es: "list_all (\<lambda>e. \<forall>k. e \<noteq> AuthDone k True) es" using assms(2) by (auto simp: list_all_iff)
  have "\<not> client_event x" if "x \<in> set (snd (run (vnc_step big) (vnc_new big security challenge w h name) es))" for x
    by (rule vnc_gate.output_run [OF s es _ that]) (use step_quiet in \<open>auto simp: quiet_def list_all_iff\<close>)
  then show ?thesis by (simp add: filter_empty_conv)
qed

text \<open>
  A refused client may go on guessing: when the authentication call fails the connection
  writes the failure and calls \<open>end\<close>, but it stays in its phase and keeps reading, so the next
  sixteen bytes are a second attempt, and if that one succeeds the client is authenticated.
\<close>

theorem vnc_refused_client_retries:
  assumes "vc_phase s = NeedVncAuth" and "vc_buffer s = []" and "idle s" and "length r = 16" and "length r' = 16"
  shows "snd (run (vnc_step big) s [Readable r, ReadTurn 0, AuthDone (length (vc_ops s)) False, Readable r', ReadTurn 0,
      AuthDone (Suc (length (vc_ops s))) True]) =
    [Authenticate (length (vc_ops s)) r, Written (security_fail ''Authentication failure''), EndConn,
     Authenticate (Suc (length (vc_ops s))) r', Written security_okay, EmitAuthenticated]"
proof -
  have auth: "fst (vnc_loop big (more u c)) = (u\<lparr>vc_ops := vc_ops u @ [False]\<rparr>, [Authenticate (length (vc_ops u)) c])"
    if "vc_phase u = NeedVncAuth" "vc_buffer u = []" "length c = 16" for u c
  proof -
    have "vnc_turn big (vc_phase (more u c)) (more u c) =
        ((u\<lparr>vc_ops := vc_ops u @ [False]\<rparr>, [Authenticate (length (vc_ops u)) c]), Return)"
      using that by (cases u) (auto simp: vnc_auth_def taking_def consume_def)
    then show ?thesis by (subst vnc_loop.simps) simp
  qed
  let ?s1 = "s\<lparr>vc_ops := vc_ops s @ [False]\<rparr>" and ?s2 = "s\<lparr>vc_ops := vc_ops s @ [True]\<rparr>"
  have n: "r \<noteq> []" "r' \<noteq> []" using assms(4,5) by auto
  note a1 = arrival [OF assms(3) n(1), of big, unfolded auth [OF assms(1,2,4)] fst_conv snd_conv]
  have fail: "vnc_step big ?s1 (AuthDone (length (vc_ops s)) False) =
      (?s2, [Written (security_fail ''Authentication failure''), EndConn])" by (simp add: auth_done_def)
  have s2: "idle ?s2" "vc_phase ?s2 = NeedVncAuth" "vc_buffer ?s2 = []" using assms(1-3) by (simp_all add: idle_def)
  note a2 = arrival [OF s2(1) n(2), of big, unfolded auth [OF s2(2,3) assms(5)] fst_conv snd_conv]
  let ?s3 = "?s2\<lparr>vc_ops := vc_ops ?s2 @ [False]\<rparr>"
  have okay: "snd (vnc_step big ?s3 (AuthDone (Suc (length (vc_ops s))) True)) = [Written security_okay, EmitAuthenticated]"
    by (simp add: auth_done_def nth_append)
  have r: "snd (vnc_step big u (Readable d)) = []" for u d by simp
  show ?thesis by (simp only: run_snd a1 fail fst_conv snd_conv a2 okay r) simp
qed

section \<open>Witnesses\<close>

definition wit_vnc :: vnc where
  "wit_vnc = (vnc_new 0 [SECURITY_VNC] (replicate 16 0) 600 800 ''s1'')\<lparr>vc_reads := []\<rparr>"

theorem vnc_messages_survive_chunking_witness:
  "\<exists>t. run (vnc_step 0) (wit_vnc\<lparr>vc_phase := NeedMessage\<rparr>) (arrivals [[5, 1, 0], [150], [0, 200, 6, 0, 0, 0], [0, 0, 0, 0]]) =
     (t, [EmitUserActivity, EmitPointer 1 (Some (1 / 4)) (Some (1 / 4)), EmitUserActivity])"
proof -
  let ?s = "wit_vnc\<lparr>vc_phase := NeedMessage\<rparr>"
  have "between ?s" "vc_buffer ?s = []" "idle ?s" by (simp_all add: between_def idle_def wit_vnc_def vnc_new_def)
  note s = this
  have b: "concat [[5, 1, 0], [150], [0, 200, 6, 0, 0, 0], [0, 0, 0, 0]] = concat (map encode_msg [PointerEvent 1 150 200, CutText []])"
    by (simp add: put16_def put32_def)
  have q: "quotient 150 600 = Some (1 / 4)" "quotient 200 800 = Some (1 / 4)" by (simp_all add: quotient_def)
  have w: "vc_width ?s = 600" "vc_height ?s = 800" by (simp_all add: wit_vnc_def vnc_new_def)
  from vnc_messages_survive_chunking [OF s _ b, of 0] show ?thesis unfolding w by (simp add: q del: arrivals.simps) blast
qed

theorem vnc_no_events_before_authentication_witness:
  "filter client_event (snd (run (vnc_step 0) (vnc_new 0 [SECURITY_VNC] [] 600 800 ''s1'')
     [ReadTurn 0, Readable (version_line ''8''), ReadTurn 0, Readable [2], ReadTurn 0, Readable (replicate 20 5), ReadTurn 0, AuthDone 0 False])) = []"
  by (rule vnc_no_events_before_authentication) (simp_all add: SECURITY_NONE_def SECURITY_VNC_def)

theorem vnc_refused_client_retries_witness:
  "snd (run (vnc_step 0) (wit_vnc\<lparr>vc_phase := NeedVncAuth\<rparr>) [Readable (replicate 16 1), ReadTurn 0, AuthDone 0 False,
      Readable (replicate 16 2), ReadTurn 0, AuthDone 1 True]) =
    [Authenticate 0 (replicate 16 1), Written (security_fail ''Authentication failure''), EndConn,
     Authenticate 1 (replicate 16 2), Written security_okay, EmitAuthenticated]"
proof -
  let ?s = "wit_vnc\<lparr>vc_phase := NeedVncAuth\<rparr>"
  have s: "vc_phase ?s = NeedVncAuth" "vc_buffer ?s = []" "idle ?s" and ops: "length (vc_ops ?s) = 0"
    by (simp_all add: idle_def wit_vnc_def vnc_new_def)
  have l: "length (replicate 16 1 :: byte list) = 16" "length (replicate 16 2 :: byte list) = 16" by (simp_all only: length_replicate)
  from vnc_refused_client_retries [OF s l, of 0] show ?thesis unfolding ops One_nat_def .
qed

end
