(* ===== verification/Vnc.thy ===== *)
theory Vnc imports Vnc_Connection Group_Manager begin

text \<open>
  \<open>lib/units/device/plugins/vnc/index.js\<close> and \<open>util/pointertranslator.js\<close>: what the plugin
  makes of one client. The translator turns pointer events into calls of the touch plugin;
  the frame state decides when the screen is sent; the authentication handler waits for the
  group plugin. \<open>jpeg.decompressSync\<close> is a parameter. A call of \<open>writeFramebufferUpdate\<close> is an
  output here; the connection's part of it is in \<open>Vnc_Connection\<close>.
\<close>

unbundle bit_operations_syntax

section \<open>Pointer events to touches\<close>

record pointer =
  po_buttons :: nat
  po_x :: "rat option"
  po_y :: "rat option"

datatype touch_call =
    TouchDown nat "rat option" "rat option"
  | TouchMove nat "rat option" "rat option"
  | TouchUp nat
  | TouchCommit

definition push_pointer :: "pointer option \<Rightarrow> pointer \<Rightarrow> pointer option \<times> touch_call list" where
  "push_pointer previous e =
     (if po_buttons e AND 0xFE \<noteq> 0 then (previous, [])
      else (Some e,
        (case previous of
           Some p \<Rightarrow>
             (if (po_buttons e XOR po_buttons p) AND 1 \<noteq> 0 then
                (if po_buttons e AND 1 \<noteq> 0 then [TouchDown 1 (po_x e) (po_y e), TouchCommit]
                 else [TouchUp 1, TouchCommit])
              else if po_buttons e AND 1 \<noteq> 0 then [TouchMove 1 (po_x e) (po_y e), TouchCommit] else [])
         | None \<Rightarrow> (if po_buttons e AND 1 \<noteq> 0 then [TouchDown 1 (po_x e) (po_y e), TouchCommit] else []))))"

text \<open>
  What the touch device can take of one contact: it goes down, moves while it is down, goes
  up, and every change is committed. The result says whether the contact is down at the end.
\<close>

fun gesture :: "bool \<Rightarrow> touch_call list \<Rightarrow> bool option" where
  "gesture d [] = Some d"
| "gesture d (TouchDown c x y # TouchCommit # r) = (if d \<or> c \<noteq> 1 then None else gesture True r)"
| "gesture d (TouchMove c x y # TouchCommit # r) = (if d \<and> c = 1 then gesture True r else None)"
| "gesture d (TouchUp c # TouchCommit # r) = (if d \<and> c = 1 then gesture False r else None)"
| "gesture d _ = None"

definition primary_held :: "pointer option \<Rightarrow> bool" where
  "primary_held p = (case p of None \<Rightarrow> False | Some e \<Rightarrow> odd (po_buttons e))"

lemma gesture_append: "gesture d xs = Some d' \<Longrightarrow> gesture d (xs @ ys) = gesture d' ys"
  by (induction d xs rule: gesture.induct) (auto split: if_splits)

lemma push_gesture: "gesture (primary_held p) (snd (push_pointer p e)) = Some (primary_held (fst (push_pointer p e)))"
  by (auto simp: push_pointer_def primary_held_def and_one_eq mod_2_eq_odd even_xor_iff split: option.splits)

text \<open>
  C35. The touches make sense: for any sequence of pointer events, with any buttons, the calls
  of the touch plugin press, move and release one contact in that order, each committed, and
  the contact is down at the end exactly when the last event that was not ignored (one without
  other buttons) has the primary button.
\<close>

theorem pointer_gestures_well_formed:
  "gesture False (snd (run push_pointer None es)) = Some (primary_held (fst (run push_pointer None es)))"
proof -
  have "gesture (primary_held p) (snd (run push_pointer p es)) = Some (primary_held (fst (run push_pointer p es)))" for p
  proof (induction es arbitrary: p)
    case (Cons e es)
    then show ?case using gesture_append [OF push_gesture [of p e]] by (simp add: Let_def)
  qed simp
  from this [of None] show ?thesis by (simp add: primary_held_def)
qed

section \<open>Frames\<close>

datatype jpeg_format = FORMAT_RGB | FORMAT_BGR | FORMAT_GRAY | FORMAT_BGRX | FORMAT_XBGR | FORMAT_RGBX | FORMAT_XRGB

record 'f frames =
  fr_last :: "'f option"
  fr_time :: "millis option"
  fr_sent :: "millis option"
  fr_requests :: nat
  fr_format :: jpeg_format

definition frames_new :: "'f frames" where
  "frames_new = \<lparr>fr_last = None, fr_time = None, fr_sent = None, fr_requests = 0, fr_format = FORMAT_RGB\<rparr>"

text \<open>The format for a client's pixel format; \<open>big\<close> says that the machine is big-endian.\<close>

definition client_format :: "bool \<Rightarrow> pixel_format \<Rightarrow> jpeg_format \<Rightarrow> jpeg_format" where
  "client_format big f old =
     (let same = (big = (pf_big f \<noteq> 0)); order = ((pf_red_shift f > pf_blue_shift f) = same) in
      if pf_bits f = 8 then FORMAT_GRAY
      else if pf_bits f = 24 then (if order then FORMAT_BGR else FORMAT_RGB)
      else if pf_bits f = 32 then
        (if order then (if pf_blue_shift f = 0 then FORMAT_BGRX else FORMAT_XBGR)
         else (if pf_red_shift f = 0 then FORMAT_RGBX else FORMAT_XRGB))
      else old)"

definition frame_rects :: "nat \<times> nat \<times> byte list \<Rightarrow> rect list" where
  "frame_rects d =
     [\<lparr>rc_x = 0, rc_y = 0, rc_width = fst d, rc_height = fst (snd d), rc_encoding = ENCODING_RAW, rc_data = snd (snd d)\<rparr>,
      \<lparr>rc_x = 0, rc_y = 0, rc_width = fst d, rc_height = fst (snd d), rc_encoding = ENCODING_DESKTOPSIZE, rc_data = []\<rparr>]"

definition maybe_send_frame :: "(jpeg_format \<Rightarrow> 'f \<Rightarrow> nat \<times> nat \<times> byte list) \<Rightarrow> 'f frames \<Rightarrow> 'f frames \<times> rect list list" where
  "maybe_send_frame decompress s =
     (if fr_requests s = 0 then (s, [])
      else case fr_last s of
        None \<Rightarrow> (s, [])
      | Some f \<Rightarrow>
          (if fr_time s = fr_sent s then (s, [])
           else (s\<lparr>fr_requests := 0, fr_sent := fr_time s\<rparr>, [frame_rects (decompress (fr_format s) f)])))"

datatype 'f frame_event = NewFrame 'f millis | UpdateRequested | FormatChanged pixel_format

fun frame_step :: "bool \<Rightarrow> (jpeg_format \<Rightarrow> 'f \<Rightarrow> nat \<times> nat \<times> byte list) \<Rightarrow> 'f frames \<Rightarrow> 'f frame_event \<Rightarrow>
    'f frames \<times> rect list list" where
  "frame_step big dec s (NewFrame f now) = maybe_send_frame dec (s\<lparr>fr_last := Some f, fr_time := Some now\<rparr>)"
| "frame_step big dec s UpdateRequested = maybe_send_frame dec (s\<lparr>fr_requests := fr_requests s + 1\<rparr>)"
| "frame_step big dec s (FormatChanged f) = (s\<lparr>fr_format := client_format big f (fr_format s)\<rparr>, [])"

fun asked :: "'f frame_event \<Rightarrow> nat" where
  "asked UpdateRequested = 1"
| "asked _ = 0"

lemma frame_step_paid: "fr_requests (fst (frame_step big dec s e)) + length (snd (frame_step big dec s e)) \<le> fr_requests s + asked e"
  by (cases e) (auto simp: maybe_send_frame_def split: option.splits)

text \<open>
  The screen is sent on request only, and never twice: in every run no more updates are
  sent than were asked for, requests that wait included; and when a request comes while the
  newest frame has not been sent, that frame is sent at once in the client's format, while a
  frame that has been sent, or one that arrived in the same millisecond as the one sent last,
  is not.
\<close>

theorem frames_on_request:
  assumes "fr_last s = Some f"
  shows "fr_requests (fst (run (frame_step big dec) frames_new es)) + length (snd (run (frame_step big dec) frames_new es)) \<le>
      sum_list (map asked es) \<and>
    snd (frame_step big dec s UpdateRequested) = (if fr_time s = fr_sent s then [] else [frame_rects (dec (fr_format s) f)])"
proof -
  have "fr_requests (fst (run (frame_step big dec) s es)) + length (snd (run (frame_step big dec) s es)) \<le>
      fr_requests s + sum_list (map asked es)" for s
  proof (induction es arbitrary: s)
    case (Cons e es)
    from Cons [of "fst (frame_step big dec s e)"] frame_step_paid [of big dec s e] show ?case by (simp add: Let_def)
  qed simp
  from this [of frames_new] show ?thesis using assms by (simp add: frames_new_def maybe_send_frame_def)
qed

section \<open>The authentication handler\<close>

text \<open>
  Each call of \<open>vncAuthHandler\<close> waits for the group plugin: \<open>join\<close> rejects it unless the
  second argument of the event, read as hexadecimal, is its response (the group plugin emits
  the list of keys there; \<open>coerce\<close> is the byte the language makes of a list element),
  \<open>autojoin\<close> settles it when the identifier is its response, and after five seconds it is
  rejected. \<open>notify\<close> is registered on the router with the generated message class and removed
  with the deprecated proxy, which is a function and not an object, so it is never removed.
\<close>

record attempt =
  at_response :: "byte list"
  at_result :: "bool option"

record vauth =
  va_attempts :: "attempt list"
  va_notify :: "byte list list"

datatype vauth_out =
    SendJoinByVnc string "channel option"
  | Settled nat bool

datatype vauth_event =
    AuthCall "byte list" "channel option"
  | HearJoin "string list"
  | HearAutojoin string bool
  | AuthTimeout nat
  | ResponsesUpdated "channel option"

definition vauth_new :: vauth where
  "vauth_new = \<lparr>va_attempts = [], va_notify = []\<rparr>"

definition settle_attempt :: "nat \<Rightarrow> bool \<Rightarrow> vauth \<Rightarrow> vauth \<times> vauth_out list" where
  "settle_attempt k ok s =
     (if k < length (va_attempts s) \<and> at_result (va_attempts s ! k) = None
      then (s\<lparr>va_attempts := (va_attempts s)[k := (va_attempts s ! k)\<lparr>at_result := Some ok\<rparr>]\<rparr>, [Settled k ok])
      else (s, []))"

text \<open>An event of the group plugin reaches the listeners in the order of the calls.\<close>

fun hear :: "(byte list \<Rightarrow> bool option) \<Rightarrow> nat list \<Rightarrow> vauth \<Rightarrow> vauth \<times> vauth_out list" where
  "hear verdict [] s = (s, [])"
| "hear verdict (k # ks) s =
     (case verdict (at_response (va_attempts s ! k)) of
        None \<Rightarrow> hear verdict ks s
      | Some ok \<Rightarrow> (let r = settle_attempt k ok s; q = hear verdict ks (fst r) in (fst q, snd r @ snd q)))"

definition on_join :: "(string \<Rightarrow> byte) \<Rightarrow> string list \<Rightarrow> byte list \<Rightarrow> bool option" where
  "on_join coerce keys response = (if response \<noteq> map coerce keys then Some False else None)"

definition on_autojoin :: "string \<Rightarrow> bool \<Rightarrow> byte list \<Rightarrow> bool option" where
  "on_autojoin ident joined response = (if response = of_hex ident then Some joined else None)"

fun vauth_step :: "(string \<Rightarrow> byte) \<Rightarrow> vauth \<Rightarrow> vauth_event \<Rightarrow> vauth \<times> vauth_out list" where
  "vauth_step coerce s (AuthCall response grp) =
     (s\<lparr>va_attempts := va_attempts s @ [\<lparr>at_response = response, at_result = None\<rparr>], va_notify := va_notify s @ [response]\<rparr>,
      [SendJoinByVnc (hex_of response) grp])"
| "vauth_step coerce s (HearJoin keys) = hear (on_join coerce keys) [0..<length (va_attempts s)] s"
| "vauth_step coerce s (HearAutojoin ident joined) = hear (on_autojoin ident joined) [0..<length (va_attempts s)] s"
| "vauth_step coerce s (AuthTimeout k) = settle_attempt k False s"
| "vauth_step coerce s (ResponsesUpdated grp) = (s, map (\<lambda>r. SendJoinByVnc (hex_of r) grp) (va_notify s))"

fun vauth_hears :: "gm_out \<Rightarrow> vauth_event list" where
  "vauth_hears (EmitJoin g keys) = [HearJoin keys]"
| "vauth_hears (EmitAutojoin ident joined) = [HearAutojoin ident joined]"
| "vauth_hears _ = []"

definition vauth_listens :: "(string \<Rightarrow> byte) \<Rightarrow> vauth \<Rightarrow> gm_out list \<Rightarrow> vauth \<times> vauth_out list" where
  "vauth_listens coerce s outs = run (vauth_step coerce) s (concat (map vauth_hears outs))"

text \<open>What \<open>_auth\<close> of the connection makes of a settled call.\<close>

fun auth_result :: "vauth_out \<Rightarrow> vnc_event list" where
  "auth_result (Settled k ok) = [AuthDone k ok]"
| "auth_result _ = []"

lemma hear_append:
  "hear v (xs @ ys) s = (let r = hear v xs s; q = hear v ys (fst r) in (fst q, snd r @ snd q))"
  by (induction xs arbitrary: s) (auto simp: Let_def split: option.splits)

text \<open>With one call that waits after settled ones, only that one is settled.\<close>

definition one_waiting :: "vauth \<Rightarrow> byte list \<Rightarrow> bool" where
  "one_waiting s r \<longleftrightarrow> (\<exists>xs. va_attempts s = xs @ [\<lparr>at_response = r, at_result = None\<rparr>] \<and> list_all (\<lambda>a. at_result a \<noteq> None) xs)"

lemma hear_settled:
  "list_all (\<lambda>k. k < length (va_attempts s) \<and> at_result (va_attempts s ! k) \<noteq> None) ks \<Longrightarrow> hear v ks s = (s, [])"
proof (induction ks)
  case (Cons k ks)
  then have "settle_attempt k ok s = (s, [])" for ok by (auto simp: settle_attempt_def)
  then show ?case using Cons by (simp add: Let_def split: option.splits)
qed simp

lemma hear_last:
  assumes "one_waiting s r"
  shows "hear v [0..<length (va_attempts s)] s =
    (case v r of None \<Rightarrow> (s, []) | Some ok \<Rightarrow> settle_attempt (length (va_attempts s) - 1) ok s)"
proof -
  from assms obtain xs where xs: "va_attempts s = xs @ [\<lparr>at_response = r, at_result = None\<rparr>]"
    "list_all (\<lambda>a. at_result a \<noteq> None) xs" by (auto simp: one_waiting_def)
  have "hear v [0..<length xs] s = (s, [])"
    using xs by (intro hear_settled) (auto simp: list_all_length nth_append)
  then show ?thesis by (simp add: xs(1) hear_append split: option.splits)
qed

lemma settle_last:
  assumes "one_waiting s r"
  shows "snd (settle_attempt (length (va_attempts s) - 1) ok s) = [Settled (length (va_attempts s) - 1) ok]"
    and "list_all (\<lambda>a. at_result a \<noteq> None) (va_attempts (fst (settle_attempt (length (va_attempts s) - 1) ok s)))"
    and "length (va_attempts (fst (settle_attempt (length (va_attempts s) - 1) ok s))) = length (va_attempts s)"
  using assms by (auto simp: one_waiting_def settle_attempt_def)

lemma hear_all_settled:
  "list_all (\<lambda>a. at_result a \<noteq> None) (va_attempts s) \<Longrightarrow> hear v [0..<length (va_attempts s)] s = (s, [])"
  by (intro hear_settled) (auto simp: list_all_length)

section \<open>The group plugin and the client's authentication\<close>

text \<open>
  A client cannot log in to a free device: when the device is in no group and the group
  plugin handles the \<open>AutoGroupMessage\<close> that answers the client's own request, the device joins
  the client's group, but the event \<open>join\<close> carries the empty list of keys where the handler
  expects the identifier, so the call is rejected before \<open>autojoin\<close> comes, and the connection writes
  the failure and ends.
\<close>

theorem vnc_free_device_refused:
  assumes "op_solo opts \<noteq> []" and "list_all (gm_event_ok opts) es" and "s = fst (run (gm_step opts) gm_new es)"
    and "gm_group s = None" and "g_group h \<noteq> []" and "g_group h \<noteq> op_solo opts"
    and "one_waiting a r" and "length r = 16"
  shows "gm_group (fst (gm_step opts s (AutoGroupMsg (Some h) (hex_of r) now now'))) = Some h \<and>
    snd (vauth_listens coerce a (snd (gm_step opts s (AutoGroupMsg (Some h) (hex_of r) now now')))) =
      [Settled (length (va_attempts a) - 1) False]"
proof -
  have inv: "gm_inv opts s" unfolding assms(3) by (rule group.inv_run [OF gm_inv_new [OF assms(1)] assms(2)])
  have j: "gm_group (fst (gm_join opts s (Some h) (Some 0) (hex_of r) [] now now')) = Some h \<and>
    snd (gm_join opts s (Some h) (Some 0) (hex_of r) [] now now') =
       [Subscribe (g_group h), EmitJoin h [], SendJoin (op_serial opts) h (hex_of r) (Some 0)]"
  proof -
    have "map_option g_group (Some h) \<noteq> Some (op_solo opts)" using assms(6) by simp
    with inv show ?thesis
      by (cases rule: join_cases [where timeout = "Some 0" and usage = "hex_of r" and keys = "[]"
            and now = now and now' = now' and owner = "Some h"]) (use assms(4-6) in \<open>auto simp: truthy_str_def\<close>)
  qed
  have "on_join coerce [] r = Some False" using assms(8) by (auto simp: on_join_def)
  then have first: "vauth_step coerce a (HearJoin []) = settle_attempt (length (va_attempts a) - 1) False a"
    using hear_last [OF assms(7), of "on_join coerce []"] by simp
  let ?a = "fst (settle_attempt (length (va_attempts a) - 1) False a)"
  have then_none: "vauth_step coerce ?a (HearAutojoin ident ok) = (?a, [])" for ident ok
    using hear_all_settled [OF settle_last(2) [OF assms(7), of False]] by simp
  have "snd (run (vauth_step coerce) a [HearJoin [], HearAutojoin (hex_of r) True]) = [Settled (length (va_attempts a) - 1) False]"
    by (simp only: run_snd first then_none settle_last(1) [OF assms(7)] snd_conv append.simps)
  then show ?thesis using j by (simp add: vauth_listens_def Let_def del: run.simps vauth_step.simps)
qed

text \<open>
  A client logs in to a device that someone else uses: when the device is in another
  group, \<open>join\<close> swallows the error, \<open>autojoin\<close> reports success all the same, the call is
  resolved, and the connection that waits for it tells the client that it is authenticated, from where on
  its pointer events reach the touch plugin, while the device stays in the other group.
\<close>

theorem vnc_other_group_admitted:
  assumes "gm_group s = Some g" and "g_group g \<noteq> []" and "g_group h \<noteq> []" and "g_group h \<noteq> g_group g"
    and "one_waiting a r" and "length (vc_ops c) = length (va_attempts a)" and "\<not> last (vc_ops c)"
  shows "fst (gm_step opts s (AutoGroupMsg (Some h) (hex_of r) now now')) = s \<and>
    EmitAuthenticated \<in> set (snd (run (vnc_step big) c (concat (map auth_result
      (snd (vauth_listens coerce a (snd (gm_step opts s (AutoGroupMsg (Some h) (hex_of r) now now')))))))))"
proof -
  have g: "gm_step opts s (AutoGroupMsg (Some h) (hex_of r) now now') = (s, [EmitAutojoin (hex_of r) True])"
    using assms(1-4) by (simp add: gm_join_def truthy_str_def)
  have "on_autojoin (hex_of r) True r = Some True" by (simp add: on_autojoin_def)
  then have l: "snd (vauth_listens coerce a [EmitAutojoin (hex_of r) True]) = [Settled (length (va_attempts a) - 1) True]"
    using hear_last [OF assms(5), of "on_autojoin (hex_of r) True"] settle_last(1) [OF assms(5), of True]
    by (simp add: vauth_listens_def)
  have "vc_ops c \<noteq> []" using assms(5,6) by (auto simp: one_waiting_def)
  then have "\<not> vc_ops c ! (length (va_attempts a) - 1)" "length (va_attempts a) - 1 < length (vc_ops c)"
    using assms(6,7) by (simp_all add: last_conv_nth flip: assms(6))
  then have "snd (vnc_step big c (AuthDone (length (va_attempts a) - 1) True)) = [Written security_okay, EmitAuthenticated]"
    by (simp add: auth_done_def)
  then show ?thesis unfolding g snd_conv l by (simp add: run_snd del: vnc_step.simps)
qed

text \<open>
  Every login leaves a listener behind: after any calls, whatever came of them, each change
  of the stored responses makes the plugin ask the server to join once for every client that
  ever tried.
\<close>

theorem vnc_listeners_leak:
  "snd (vauth_step coerce (fst (run (vauth_step coerce) vauth_new es)) (ResponsesUpdated grp)) =
     map (\<lambda>r. SendJoinByVnc (hex_of r) grp) [r. AuthCall r g \<leftarrow> es]"
proof -
  have keep: "va_notify (fst (settle_attempt k ok s)) = va_notify s" for k ok s by (simp add: settle_attempt_def)
  have hear: "va_notify (fst (hear v ks s)) = va_notify s" for v ks s
    by (induction ks arbitrary: s) (auto simp: Let_def keep split: option.splits)
  have "va_notify (fst (run (vauth_step coerce) s es)) = va_notify s @ [r. AuthCall r g \<leftarrow> es]" for s
  proof (induction es arbitrary: s)
    case (Cons e es)
    then show ?case by (cases e) (simp_all add: Let_def keep hear)
  qed simp
  then show ?thesis by (simp add: vauth_new_def)
qed

section \<open>Witnesses\<close>

definition wit_attempts :: vauth where
  "wit_attempts = \<lparr>va_attempts = [\<lparr>at_response = replicate 16 7, at_result = None\<rparr>], va_notify = []\<rparr>"

lemma wit_waiting: "one_waiting wit_attempts (replicate 16 7)" and wit_length: "length (va_attempts wit_attempts) = 1"
  by (simp_all add: one_waiting_def wit_attempts_def)

theorem frames_on_request_witness:
  "fr_requests (fst (run (frame_step False (\<lambda>_ n. (n, 2, [0]))) frames_new [NewFrame 3 5, UpdateRequested, UpdateRequested])) +
     length (snd (run (frame_step False (\<lambda>_ n. (n, 2, [0]))) frames_new [NewFrame 3 5, UpdateRequested, UpdateRequested])) \<le> 2"
  using frames_on_request [of "frames_new\<lparr>fr_last := Some 3\<rparr>" 3 False "\<lambda>_ n. (n, 2, [0])" "[NewFrame 3 5, UpdateRequested, UpdateRequested]"]
  by simp

theorem vnc_free_device_refused_witness:
  "snd (vauth_listens (\<lambda>_. 0) wit_attempts (snd (gm_step wit_opts gm_new (AutoGroupMsg (Some (wit_owner ''g2'')) (hex_of (replicate 16 7)) 0 0)))) =
     [Settled 0 False]"
proof -
  have o: "op_solo wit_opts \<noteq> []" "g_group (wit_owner ''g2'') \<noteq> []" "g_group (wit_owner ''g2'') \<noteq> op_solo wit_opts" "gm_group gm_new = None"
    by (simp_all add: wit_opts_def wit_owner_def gm_new_def)
  have e: "list_all (gm_event_ok wit_opts) []" "gm_new = fst (run (gm_step wit_opts) gm_new [])" by simp_all
  have l: "length (replicate 16 (7 :: byte)) = 16" by (simp only: length_replicate)
  from vnc_free_device_refused [OF o(1) e o(4,2,3) wit_waiting l, of 0 0 "\<lambda>_. 0"] show ?thesis unfolding wit_length by simp
qed

theorem vnc_other_group_admitted_witness:
  "EmitAuthenticated \<in> set (snd (run (vnc_step 0) (wit_vnc\<lparr>vc_ops := [False]\<rparr>) (concat (map auth_result
      (snd (vauth_listens (\<lambda>_. 0) wit_attempts (snd (gm_step wit_opts (gm_new\<lparr>gm_group := Some (wit_owner ''g1'')\<rparr>)
        (AutoGroupMsg (Some (wit_owner ''g2'')) (hex_of (replicate 16 7)) 0 0)))))))))"
proof -
  let ?s = "gm_new\<lparr>gm_group := Some (wit_owner ''g1'')\<rparr>" and ?c = "wit_vnc\<lparr>vc_ops := [False]\<rparr>"
  have s: "gm_group ?s = Some (wit_owner ''g1'')" "g_group (wit_owner ''g1'') \<noteq> []" "g_group (wit_owner ''g2'') \<noteq> []"
    "g_group (wit_owner ''g2'') \<noteq> g_group (wit_owner ''g1'')" by (simp_all add: wit_owner_def)
  have c: "length (vc_ops ?c) = length (va_attempts wit_attempts)" "\<not> last (vc_ops ?c)" unfolding wit_length by simp_all
  from vnc_other_group_admitted [OF s wit_waiting c, of wit_opts 0 0 0 "\<lambda>_. 0"] show ?thesis by (rule conjunct2)
qed

end
