(* ===== verification/Touch_Queue.thy ===== *)
theory Touch_Queue imports Prelude begin

text \<open>
  The queues of the touch plugin: \<open>lib/wire/seqqueue.js\<close> (messages of a gesture put back in
  order), \<open>lib/util/statequeue.js\<close> (the states an object still has to go through) and
  \<open>lib/util/failcounter.ts\<close> (failures in a window of time). The handlers of the sequence queue
  are values; the one that stops the queue is told apart, the others are what they would call.
\<close>

section \<open>The sequence queue\<close>

datatype 'c handler = StopQueue | Handle 'c

record 'c seq_queue =
  sq_lo :: nat
  sq_size :: nat
  sq_max :: nat
  sq_waiting :: nat
  sq_list :: "nat \<Rightarrow> 'c handler option"
  sq_locked :: bool

definition sq_new :: "nat \<Rightarrow> nat \<Rightarrow> 'c seq_queue" where
  "sq_new n w = \<lparr>sq_lo = 0, sq_size = n, sq_max = w, sq_waiting = 0, sq_list = (\<lambda>_. None), sq_locked = True\<rparr>"

text \<open>The loop of \<open>maybeConsume\<close>, which does not look at the lock again.\<close>

function sq_loop :: "'c seq_queue \<Rightarrow> 'c seq_queue \<times> 'c handler list" where
  "sq_loop s =
     (if sq_waiting s = 0 then (s, [])
      else
        (let s1 = (if sq_size s \<le> sq_lo s then s\<lparr>sq_lo := 0\<rparr> else s) in
         case sq_list s1 (sq_lo s1) of
           Some h \<Rightarrow>
             (let s2 = s1\<lparr>sq_list := (sq_list s1)(sq_lo s1 := None), sq_locked := (if h = StopQueue then True else sq_locked s1)\<rparr>;
                  r = sq_loop (s2\<lparr>sq_lo := sq_lo s2 + 1, sq_waiting := sq_waiting s2 - 1\<rparr>)
              in (fst r, h # snd r))
         | None \<Rightarrow>
             (if sq_max s1 \<le> sq_waiting s1
              then sq_loop (s1\<lparr>sq_lo := sq_lo s1 + 1, sq_waiting := sq_waiting s1 - 1\<rparr>)
              else (s1, []))))"
  by pat_completeness auto
termination
  by (relation "measure sq_waiting") (auto simp: Let_def split: if_splits)

declare sq_loop.simps [simp del]

definition sq_maybe_consume :: "'c seq_queue \<Rightarrow> 'c seq_queue \<times> 'c handler list" where
  "sq_maybe_consume s = (if sq_locked s then (s, []) else sq_loop s)"

definition sq_start :: "'c seq_queue \<Rightarrow> nat \<Rightarrow> 'c seq_queue \<times> 'c handler list" where
  "sq_start s seq = sq_maybe_consume (s\<lparr>sq_locked := False, sq_lo := seq + 1\<rparr>)"

definition sq_stop :: "'c seq_queue \<Rightarrow> 'c seq_queue \<times> 'c handler list" where
  "sq_stop s = sq_maybe_consume (s\<lparr>sq_locked := True\<rparr>)"

definition sq_push :: "'c seq_queue \<Rightarrow> nat \<Rightarrow> 'c handler \<Rightarrow> 'c seq_queue \<times> 'c handler list" where
  "sq_push s seq h =
     (if sq_size s \<le> seq then (s, [])
      else sq_maybe_consume (s\<lparr>sq_list := (sq_list s)(seq := Some h), sq_waiting := sq_waiting s + 1\<rparr>))"

lemma sq_stop_only_locks: "sq_stop s = (s\<lparr>sq_locked := True\<rparr>, [])"
  by (simp add: sq_stop_def sq_maybe_consume_def)

section \<open>Messages out of order\<close>

text \<open>
  The client numbers the messages of a gesture that starts with \<open>s0\<close>: message \<open>i\<close> has the
  number \<open>s0 + 1 + i\<close> modulo the size. \<open>holds s0 h R m q\<close>: of the messages \<open>h i\<close>, those of
  \<open>R\<close> have arrived, those before \<open>m\<close> have been handled, the others wait in their slots.
\<close>

definition slot :: "nat \<Rightarrow> nat \<Rightarrow> nat \<Rightarrow> nat" where
  "slot n s0 i = (s0 + 1 + i) mod n"

definition holds :: "nat \<Rightarrow> (nat \<Rightarrow> 'c) \<Rightarrow> nat set \<Rightarrow> nat \<Rightarrow> 'c seq_queue \<Rightarrow> bool" where
  "holds s0 h R m q \<longleftrightarrow> 0 < sq_size q \<and> \<not> sq_locked q \<and> finite R \<and> {..<m} \<subseteq> R \<and> R \<subseteq> {..<m + sq_size q} \<and>
     sq_lo q \<le> sq_size q \<and> sq_lo q mod sq_size q = slot (sq_size q) s0 m \<and>
     sq_waiting q = card (R - {..<m}) \<and>
     (\<forall>i \<in> R - {..<m}. sq_list q (slot (sq_size q) s0 i) = Some (Handle (h i))) \<and>
     (\<forall>j. sq_list q j \<noteq> None \<longrightarrow> (\<exists>i \<in> R - {..<m}. j = slot (sq_size q) s0 i))"

lemma holds_waits: "holds s0 h R m q \<Longrightarrow> \<forall>i \<in> R - {..<m}. sq_list q (slot (sq_size q) s0 i) = Some (Handle (h i))"
  unfolding holds_def by (elim conjE)

lemma holds_only: "holds s0 h R m q \<Longrightarrow> \<forall>j. sq_list q j \<noteq> None \<longrightarrow> (\<exists>i \<in> R - {..<m}. j = slot (sq_size q) s0 i)"
  unfolding holds_def by (elim conjE)

lemma slot_inj: "slot n s0 i = slot n s0 j \<Longrightarrow> m \<le> i \<Longrightarrow> m \<le> j \<Longrightarrow> i < m + n \<Longrightarrow> j < m + n \<Longrightarrow> i = j"
proof -
  assume s: "slot n s0 i = slot n s0 j" and b: "m \<le> i" "m \<le> j" "i < m + n" "j < m + n"
  have "(s0 + 1 + i) mod n = (s0 + 1 + j) mod n" using s by (simp add: slot_def)
  then have "int (s0 + 1 + i) mod int n = int (s0 + 1 + j) mod int n" by (metis zmod_int)
  then have "int n dvd int (s0 + 1 + i) - int (s0 + 1 + j)" by (simp add: mod_eq_dvd_iff)
  then have d: "int n dvd int i - int j" by simp
  have "\<bar>int i - int j\<bar> < int n" using b by linarith
  have "int i - int j = 0"
  proof (rule ccontr)
    assume "int i - int j \<noteq> 0"
    then have "int n \<le> \<bar>int i - int j\<bar>" using dvd_imp_le_int [OF _ d] by simp
    then show False using \<open>\<bar>int i - int j\<bar> < int n\<close> by linarith
  qed
  then show "i = j" by simp
qed

definition missing :: "nat set \<Rightarrow> nat \<Rightarrow> nat" where
  "missing R m = (LEAST i. m \<le> i \<and> i \<notin> R)"

text \<open>The loop runs the messages that are there up to the first missing one.\<close>

lemma loop_runs:
  "holds s0 h R m q \<Longrightarrow> card (R - {..<missing R m}) < sq_max q \<Longrightarrow>
   \<exists>t. sq_loop q = (t, map (\<lambda>i. Handle (h i)) [m..<missing R m]) \<and> holds s0 h R (missing R m) t \<and>
     sq_size t = sq_size q \<and> sq_max t = sq_max q"
proof (induction "sq_waiting q" arbitrary: q m)
  case 0
  then have "finite (R - {..<m})" "card (R - {..<m}) = 0" by (simp_all add: holds_def)
  then have "R - {..<m} = {}" by (simp only: card_0_eq)
  then have "missing R m = m" unfolding missing_def by (intro Least_equality) auto
  then show ?case using 0 by (intro exI [of _ q]) (simp add: sq_loop.simps [of q])
next
  case (Suc w)
  let ?n = "sq_size q"
  let ?q = "if ?n \<le> sq_lo q then q\<lparr>sq_lo := 0\<rparr> else q"
  have n: "0 < ?n" and lo: "sq_lo q \<le> ?n" "sq_lo q mod ?n = slot ?n s0 m" and fin: "finite R"
    using Suc.prems(1) by (simp_all add: holds_def)
  have lo': "sq_lo ?q = slot ?n s0 m" using lo n by auto
  have inf: "\<exists>i. m \<le> i \<and> i \<notin> R" using fin by (metis finite_nat_set_iff_bounded_le linorder_not_le nat_le_linear not_less_eq_eq)
  show ?case
  proof (cases "m \<in> R")
    case True
    then have l: "sq_list ?q (sq_lo ?q) = Some (Handle (h m))" using Suc.prems(1) lo' by (auto simp: holds_def)
    let ?t = "?q\<lparr>sq_list := (sq_list q)(slot ?n s0 m := None), sq_lo := slot ?n s0 m + 1, sq_waiting := w\<rparr>"
    have step: "sq_loop q = (let r = sq_loop ?t in (fst r, Handle (h m) # snd r))"
      using l Suc.hyps(2) [symmetric] lo' by (subst sq_loop.simps) (auto simp: Let_def)
    have R: "R - {..<m} = insert m (R - {..<Suc m})" using True by auto
    then have card: "w = card (R - {..<Suc m})" using Suc.prems(1) Suc.hyps(2) fin by (simp add: holds_def)
    have other: "slot ?n s0 i \<noteq> slot ?n s0 m" if "i \<in> R - {..<Suc m}" for i
      using slot_inj [of ?n s0 i m m] that Suc.prems(1) by (auto simp: holds_def)
    have waits: "\<forall>i \<in> R - {..<m}. sq_list q (slot ?n s0 i) = Some (Handle (h i))"
      and held: "\<forall>j. sq_list q j \<noteq> None \<longrightarrow> (\<exists>i \<in> R - {..<m}. j = slot ?n s0 i)"
      using holds_waits [OF Suc.prems(1)] holds_only [OF Suc.prems(1)] .
    have q: "sq_size ?t = ?n" "sq_locked ?t = sq_locked q" "sq_lo ?t = slot ?n s0 m + 1" "sq_waiting ?t = w"
      "sq_list ?t = (sq_list q)(slot ?n s0 m := None)" "sq_max ?t = sq_max q" by simp_all
    have bounds: "{..<Suc m} \<subseteq> R" "R \<subseteq> {..<Suc m + ?n}"
      using Suc.prems(1) True by (auto simp: holds_def less_Suc_eq)
    have "slot ?n s0 m < ?n" using n by (simp add: slot_def)
    then have pos: "slot ?n s0 m + 1 \<le> ?n" "(slot ?n s0 m + 1) mod ?n = slot ?n s0 (Suc m)"
      by (simp_all add: slot_def mod_Suc_eq)
    have there: "\<forall>i \<in> R - {..<Suc m}. ((sq_list q)(slot ?n s0 m := None)) (slot ?n s0 i) = Some (Handle (h i))"
    proof
      fix i
      assume i: "i \<in> R - {..<Suc m}"
      then have "i \<in> R - {..<m}" by auto
      then have "sq_list q (slot ?n s0 i) = Some (Handle (h i))" using waits by blast
      then show "((sq_list q)(slot ?n s0 m := None)) (slot ?n s0 i) = Some (Handle (h i))" using other [OF i] by simp
    qed
    have only: "\<forall>j. ((sq_list q)(slot ?n s0 m := None)) j \<noteq> None \<longrightarrow> (\<exists>i \<in> R - {..<Suc m}. j = slot ?n s0 i)"
    proof (intro allI impI)
      fix j
      assume "((sq_list q)(slot ?n s0 m := None)) j \<noteq> None"
      then have j: "j \<noteq> slot ?n s0 m" "sq_list q j \<noteq> None" by (auto split: if_splits)
      from held [rule_format, OF j(2)] obtain i where i: "i \<in> R - {..<m}" "j = slot ?n s0 i" by (elim bexE)
      then have "i \<noteq> m" using j(1) by auto
      then have "i \<in> R - {..<Suc m}" using i(1) by auto
      then show "\<exists>i \<in> R - {..<Suc m}. j = slot ?n s0 i" using i(2) by (rule bexI [rotated])
    qed
    have "\<not> sq_locked q" using Suc.prems(1) by (simp add: holds_def)
    then have hold: "holds s0 h R (Suc m) ?t"
      unfolding holds_def q by (intro conjI n fin bounds pos card there only)
    have mm: "missing R (Suc m) = missing R m"
    proof -
      have "(Suc m \<le> i \<and> i \<notin> R) = (m \<le> i \<and> i \<notin> R)" for i using True by (auto simp: Suc_le_eq le_less)
      then show ?thesis by (simp only: missing_def)
    qed
    have "card (R - {..<missing R (Suc m)}) < sq_max ?t" unfolding mm q by (rule Suc.prems(2))
    from Suc.hyps(1) [OF q(4) [symmetric] hold this] obtain t where
      t: "sq_loop ?t = (t, map (\<lambda>i. Handle (h i)) [Suc m..<missing R m])" "holds s0 h R (missing R m) t"
        "sq_size t = ?n" "sq_max t = sq_max q" unfolding mm q by blast
    have "m \<le> missing R m \<and> missing R m \<notin> R" unfolding missing_def using LeastI_ex [OF inf] .
    then have "m < missing R m" using True by (cases "m = missing R m") auto
    then have "sq_loop q = (t, map (\<lambda>i. Handle (h i)) [m..<missing R m])"
      unfolding step t(1) by (simp add: upt_conv_Cons)
    then show ?thesis using t(2-4) by blast
  next
    case False
    then have miss: "missing R m = m" unfolding missing_def by (intro Least_equality) auto
    have "sq_list ?q (sq_lo ?q) = None"
    proof (rule ccontr)
      assume "sq_list ?q (sq_lo ?q) \<noteq> None"
      then have "sq_list q (slot ?n s0 m) \<noteq> None" unfolding lo' by (simp split: if_splits)
      from holds_only [OF Suc.prems(1), rule_format, OF this]
      obtain i where i: "i \<in> R - {..<m}" "slot ?n s0 m = slot ?n s0 i" by (elim bexE)
      moreover have "i < m + ?n" using i(1) Suc.prems(1) by (auto simp: holds_def)
      ultimately show False using slot_inj [of ?n s0 m i m] False n by auto
    qed
    moreover have "sq_waiting q < sq_max q" using Suc.prems miss by (simp add: holds_def)
    ultimately have "sq_loop q = (?q, [])" using Suc.hyps(2) by (subst sq_loop.simps) (auto simp: Let_def)
    moreover have "holds s0 h R m ?q" using Suc.prems(1) lo' n unfolding holds_def by (simp split: if_splits)
    ultimately show ?thesis using miss by (intro exI [of _ ?q]) simp
  qed
qed

text \<open>A message that had not come arrives.\<close>

lemma holds_insert:
  assumes "holds s0 h R m q" and "i \<notin> R" and "i < m + sq_size q"
  shows "holds s0 h (insert i R) m (q\<lparr>sq_list := (sq_list q)(slot (sq_size q) s0 i := Some (Handle (h i))), sq_waiting := sq_waiting q + 1\<rparr>)"
proof -
  let ?n = "sq_size q"
  have "{..<m} \<subseteq> R" using assms(1) by (simp add: holds_def)
  then have "m \<le> i" using assms(2) by (meson lessThan_iff not_le subsetD)
  then have R: "insert i R - {..<m} = insert i (R - {..<m})" by auto
  have "finite R" using assms(1) by (simp add: holds_def)
  then have card: "sq_waiting q + 1 = card (insert i R - {..<m})" using assms(1,2) unfolding R by (simp add: holds_def)
  have other: "slot ?n s0 j \<noteq> slot ?n s0 i" if "j \<in> R - {..<m}" for j
    using slot_inj [of ?n s0 j i m] that assms \<open>m \<le> i\<close> by (auto simp: holds_def)
  have "\<forall>j \<in> insert i (R - {..<m}). ((sq_list q)(slot ?n s0 i := Some (Handle (h i)))) (slot ?n s0 j) = Some (Handle (h j))"
    using holds_waits [OF assms(1)] other by auto
  moreover have "\<forall>x. ((sq_list q)(slot ?n s0 i := Some (Handle (h i)))) x \<noteq> None \<longrightarrow> (\<exists>j \<in> insert i (R - {..<m}). x = slot ?n s0 j)"
  proof (intro allI impI)
    fix x
    assume x: "((sq_list q)(slot ?n s0 i := Some (Handle (h i)))) x \<noteq> None"
    show "\<exists>j \<in> insert i (R - {..<m}). x = slot ?n s0 j"
    proof (cases "x = slot ?n s0 i")
      case False
      then have "sq_list q x \<noteq> None" using x by simp
      from holds_only [OF assms(1), rule_format, OF this] show ?thesis by (elim bexE) (rule bexI, auto)
    qed auto
  qed
  ultimately show ?thesis using assms card unfolding holds_def R by auto
qed

definition first_missing :: "nat set \<Rightarrow> nat" where
  "first_missing R = (LEAST i. i \<notin> R)"

lemma missing_first: "{..<m} \<subseteq> R \<Longrightarrow> missing R m = first_missing R"
proof -
  assume "{..<m} \<subseteq> R"
  then have "(m \<le> i \<and> i \<notin> R) = (i \<notin> R)" for i by (auto simp: not_less [symmetric])
  then show ?thesis by (simp add: missing_def first_missing_def)
qed

text \<open>
  What the network may do to a gesture: no message comes twice or is a whole cycle early, and
  after each arrival fewer messages than the limit are ahead of the first one that is missing.
\<close>

definition orderly :: "nat \<Rightarrow> nat \<Rightarrow> nat list \<Rightarrow> bool" where
  "orderly n w p \<longleftrightarrow> distinct p \<and> (\<forall>k < length p. p ! k < first_missing (set (take k p)) + n \<and>
     card (set (take (Suc k) p) - {..<first_missing (set (take (Suc k) p))}) < w)"

definition gesture_push :: "nat \<Rightarrow> nat \<Rightarrow> (nat \<Rightarrow> 'c) \<Rightarrow> 'c seq_queue \<Rightarrow> nat \<Rightarrow> 'c seq_queue \<times> 'c handler list" where
  "gesture_push n s0 h q i = sq_push q (slot n s0 i) (Handle (h i))"

lemma push_runs:
  assumes "holds s0 h R (first_missing R) q" and "i \<notin> R" and "i < first_missing R + n" and "n = sq_size q"
    and "card (insert i R - {..<first_missing (insert i R)}) < sq_max q"
  shows "\<exists>t. gesture_push n s0 h q i = (t, map (\<lambda>i. Handle (h i)) [first_missing R..<first_missing (insert i R)]) \<and>
    holds s0 h (insert i R) (first_missing (insert i R)) t \<and> sq_size t = n \<and> sq_max t = sq_max q"
proof -
  let ?q = "q\<lparr>sq_list := (sq_list q)(slot n s0 i := Some (Handle (h i))), sq_waiting := sq_waiting q + 1\<rparr>"
  have u: "0 < n" "\<not> sq_locked q" "{..<first_missing R} \<subseteq> R" using assms(1,4) by (simp_all add: holds_def)
  then have p: "gesture_push n s0 h q i = sq_loop ?q"
  proof -
    have "\<not> sq_size q \<le> slot n s0 i" using u(1) assms(4) by (simp add: slot_def not_le)
    then show ?thesis using u(2) by (simp add: gesture_push_def sq_push_def sq_maybe_consume_def)
  qed
  have h: "holds s0 h (insert i R) (first_missing R) ?q" using holds_insert [OF assms(1,2)] assms(3,4) by simp
  have m: "missing (insert i R) (first_missing R) = first_missing (insert i R)" using u(3) by (intro missing_first) auto
  have "sq_max ?q = sq_max q" "sq_size ?q = n" using assms(4) by simp_all
  then show ?thesis using loop_runs [OF h] assms(5) unfolding m p by simp
qed

lemma first_missing_mono: "finite S \<Longrightarrow> R \<subseteq> S \<Longrightarrow> first_missing R \<le> first_missing S"
  unfolding first_missing_def by (metis (mono_tags, lifting) LeastI_ex Least_le finite_nat_set_iff_bounded_le not_less_eq_eq order_refl subsetD)

lemma gesture_runs:
  assumes "holds s0 h {} 0 q" and "n = sq_size q" and "w = sq_max q" and "orderly n w p"
  shows "\<exists>t. run (gesture_push n s0 h) q p = (t, map (\<lambda>i. Handle (h i)) [0..<first_missing (set p)]) \<and>
    holds s0 h (set p) (first_missing (set p)) t \<and> sq_size t = n \<and> sq_max t = w"
  using assms(4)
proof (induction p rule: rev_induct)
  case Nil
  have "first_missing {} = 0" by (simp add: first_missing_def)
  then show ?case using assms(1-3) by simp
next
  case (snoc i p)
  have "orderly n w p" using snoc.prems by (auto simp: orderly_def nth_append less_Suc_eq split: if_splits)
  then obtain t where t: "run (gesture_push n s0 h) q p = (t, map (\<lambda>i. Handle (h i)) [0..<first_missing (set p)])"
    "holds s0 h (set p) (first_missing (set p)) t" "sq_size t = n" "sq_max t = w" using snoc.IH by blast
  have i: "i \<notin> set p" "i < first_missing (set p) + n" "card (insert i (set p) - {..<first_missing (insert i (set p))}) < sq_max t"
    using snoc.prems t(4) by (auto simp: orderly_def nth_append dest: spec [of _ "length p"])
  from push_runs [OF t(2) i(1,2) t(3) [symmetric] i(3)] obtain u where
    u: "gesture_push n s0 h t i = (u, map (\<lambda>i. Handle (h i)) [first_missing (set p)..<first_missing (insert i (set p))])"
      "holds s0 h (insert i (set p)) (first_missing (insert i (set p))) u" "sq_size u = n" "sq_max u = w" using t(4) by auto
  have "first_missing (set p) \<le> first_missing (insert i (set p))" by (rule first_missing_mono) auto
  then have "[0..<first_missing (insert i (set p))] = [0..<first_missing (set p)] @ [first_missing (set p)..<first_missing (insert i (set p))]"
    by (metis le0 le_add_diff_inverse upt_add_eq_append)
  then show ?case using t u by (simp add: run_append Let_def)
qed

lemma started_holds: "s0 < n \<Longrightarrow> holds s0 h {} 0 (fst (sq_start (sq_new n w) s0))"
  by (simp add: sq_start_def sq_maybe_consume_def sq_new_def sq_loop.simps holds_def slot_def)

lemma started_fields: "sq_size (fst (sq_start (sq_new n w) s0)) = n" "sq_max (fst (sq_start (sq_new n w) s0)) = w"
  "snd (sq_start (sq_new n w) s0) = []"
  by (simp_all add: sq_start_def sq_maybe_consume_def sq_new_def sq_loop.simps)

text \<open>
  Touches are handled in the order of the finger: when a gesture starts and its messages
  arrive in any order the network may choose (never as many ahead of a missing one as the queue
  tolerates), the queue calls their handlers exactly once each and in the order in which they were
  sent, the numbers wrapping around at the size.
\<close>

theorem gesture_messages_in_order:
  assumes "s0 < n" and "orderly n w p" and "set p = {..<k}"
  shows "snd (run (gesture_push n s0 h) (fst (sq_start (sq_new n w) s0)) p) = map (\<lambda>i. Handle (h i)) [0..<k]"
proof -
  have "first_missing {..<k} = k" unfolding first_missing_def by (intro Least_equality) auto
  moreover obtain t where "run (gesture_push n s0 h) (fst (sq_start (sq_new n w) s0)) p =
      (t, map (\<lambda>i. Handle (h i)) [0..<first_missing (set p)])"
    using gesture_runs [where h = h, OF started_holds [OF assms(1)] started_fields(1,2) [symmetric] assms(2)] by blast
  ultimately show ?thesis using assms(3) by simp
qed

section \<open>A lost message\<close>

text \<open>The loop handles as many messages as it thinks are waiting, when they are there.\<close>

lemma loop_one:
  assumes "sq_waiting q = Suc w" and "sq_lo q \<le> n" and "sq_lo q mod n = x" and "0 < n" and "sq_size q = n"
    and "sq_list q x = Some (Handle c)"
  shows "sq_loop q = (let r = sq_loop (q\<lparr>sq_list := (sq_list q)(x := None), sq_lo := x + 1, sq_waiting := w\<rparr>)
    in (fst r, Handle c # snd r))"
proof -
  consider "n \<le> sq_lo q" "x = 0" | "\<not> n \<le> sq_lo q" "sq_lo q = x" using assms(2-4) by (cases "n \<le> sq_lo q") auto
  then show ?thesis
    by cases (use assms(1,5,6) in \<open>subst sq_loop.simps, simp add: Let_def\<close>)+
qed

definition waits_from :: "nat \<Rightarrow> (nat \<Rightarrow> 'c) \<Rightarrow> nat \<Rightarrow> nat \<Rightarrow> 'c seq_queue \<Rightarrow> bool" where
  "waits_from s0 h m c q \<longleftrightarrow> 0 < sq_size q \<and> sq_lo q \<le> sq_size q \<and> sq_lo q mod sq_size q = slot (sq_size q) s0 m \<and>
     (\<forall>j < c. sq_list q (slot (sq_size q) s0 (m + j)) = Some (Handle (h (m + j))))"

lemma loop_counts:
  "waits_from s0 h m c q \<Longrightarrow> sq_waiting q = w \<Longrightarrow> w \<le> c \<Longrightarrow> c \<le> sq_size q \<Longrightarrow>
   \<exists>t. sq_loop q = (t, map (\<lambda>i. Handle (h i)) [m..<m + w]) \<and> waits_from s0 h (m + w) (c - w) t \<and> sq_waiting t = 0 \<and>
     sq_size t = sq_size q \<and> sq_max t = sq_max q \<and> sq_locked t = sq_locked q"
proof (induction w arbitrary: q m c)
  case 0
  then show ?case by (intro exI [of _ q]) (simp add: sq_loop.simps [of q])
next
  case (Suc w)
  let ?n = "sq_size q" and ?x = "slot (sq_size q) s0 m"
  let ?q = "q\<lparr>sq_list := (sq_list q)(?x := None), sq_lo := ?x + 1, sq_waiting := w\<rparr>"
  have n: "0 < ?n" "?x < ?n" using Suc.prems(1) by (simp_all add: waits_from_def slot_def)
  have l: "sq_list q ?x = Some (Handle (h m))" using Suc.prems(1,3) by (auto simp: waits_from_def dest: spec [of _ 0])
  have step: "sq_loop q = (let r = sq_loop ?q in (fst r, Handle (h m) # snd r))"
    by (rule loop_one [OF Suc.prems(2) _ _ n(1) refl l]) (use Suc.prems(1) in \<open>simp_all add: waits_from_def\<close>)
  have "waits_from s0 h (Suc m) (c - 1) ?q"
  proof -
    have "sq_list ?q (slot ?n s0 (Suc m + j)) = Some (Handle (h (Suc m + j)))" if "j < c - 1" for j
    proof -
      have "slot ?n s0 (Suc m + j) \<noteq> ?x"
      proof
        assume "slot ?n s0 (Suc m + j) = ?x"
        moreover have "Suc j < ?n" using that Suc.prems(4) by linarith
        ultimately show False using slot_inj [of ?n s0 "Suc m + j" m m] by simp
      qed
      moreover have "sq_list q (slot ?n s0 (m + Suc j)) = Some (Handle (h (m + Suc j)))"
        using Suc.prems(1) that unfolding waits_from_def by (auto dest: spec [of _ "Suc j"])
      ultimately show ?thesis by simp
    qed
    moreover have "(?x + 1) mod ?n = slot ?n s0 (Suc m)" by (simp add: slot_def mod_Suc_eq)
    ultimately show ?thesis using n by (simp add: waits_from_def)
  qed
  from Suc.IH [OF this] Suc.prems(3,4) have "\<exists>t. sq_loop ?q = (t, map (\<lambda>i. Handle (h i)) [Suc m..<Suc m + w]) \<and>
      waits_from s0 h (Suc m + w) (c - 1 - w) t \<and> sq_waiting t = 0 \<and> sq_size t = ?n \<and> sq_max t = sq_max q \<and> sq_locked t = sq_locked q"
    by (simp del: upt_Suc)
  then obtain t where
    t: "sq_loop ?q = (t, map (\<lambda>i. Handle (h i)) [Suc m..<Suc m + w])" "waits_from s0 h (Suc m + w) (c - 1 - w) t" "sq_waiting t = 0"
      "sq_size t = ?n" "sq_max t = sq_max q" "sq_locked t = sq_locked q" by blast
  have "sq_loop q = (t, map (\<lambda>i. Handle (h i)) [m..<m + Suc w])" unfolding step t(1) by (simp add: upt_conv_Cons del: upt_Suc)
  then show ?case using t(2-6) by (intro exI [of _ t]) simp
qed

text \<open>One behind: the queue thinks that nothing waits, but the last message is in its slot.\<close>

definition one_behind :: "nat \<Rightarrow> nat \<Rightarrow> (nat \<Rightarrow> 'c) \<Rightarrow> nat \<Rightarrow> 'c seq_queue \<Rightarrow> bool" where
  "one_behind n s0 h m q \<longleftrightarrow> sq_waiting q = 0 \<and> \<not> sq_locked q \<and> sq_size q = n \<and> waits_from s0 h m 1 q"

lemma behind_push:
  assumes "one_behind n s0 h m q" and "1 < n"
  shows "\<exists>t. gesture_push n s0 h q (Suc m) = (t, [Handle (h m)]) \<and> one_behind n s0 h (Suc m) t"
proof -
  let ?q = "q\<lparr>sq_list := (sq_list q)(slot n s0 (Suc m) := Some (Handle (h (Suc m)))), sq_waiting := 1\<rparr>"
  have q: "sq_waiting q = 0" "\<not> sq_locked q" "sq_size q = n" "waits_from s0 h m 1 q" using assms(1) by (simp_all add: one_behind_def)
  have d: "slot n s0 m \<noteq> slot n s0 (Suc m)"
  proof
    assume "slot n s0 m = slot n s0 (Suc m)"
    from slot_inj [OF this, of m] assms(2) show False by simp
  qed
  have "\<not> n \<le> slot n s0 (Suc m)" using assms(2) by (simp add: slot_def not_le)
  then have p: "gesture_push n s0 h q (Suc m) = sq_loop ?q" using q by (simp add: gesture_push_def sq_push_def sq_maybe_consume_def)
  have "waits_from s0 h m 2 ?q" using q(3,4) d by (auto simp: waits_from_def less_2_cases_iff)
  from loop_counts [OF this, of 1] assms(2) q(2,3) obtain t where
    "sq_loop ?q = (t, [Handle (h m)])" "waits_from s0 h (Suc m) 1 t" "sq_waiting t = 0" "sq_size t = n" "\<not> sq_locked t" by auto
  then show ?thesis unfolding p one_behind_def by auto
qed

lemma behind_run:
  "one_behind n s0 h m q \<Longrightarrow> 1 < n \<Longrightarrow>
   \<exists>t. run (gesture_push n s0 h) q [Suc m..<Suc m + k] = (t, map (\<lambda>i. Handle (h i)) [m..<m + k]) \<and> one_behind n s0 h (m + k) t"
proof (induction k)
  case (Suc k)
  then obtain t where t: "run (gesture_push n s0 h) q [Suc m..<Suc m + k] = (t, map (\<lambda>i. Handle (h i)) [m..<m + k])"
    "one_behind n s0 h (m + k) t" by blast
  from behind_push [OF t(2) Suc.prems(2)] obtain u where
    "gesture_push n s0 h t (Suc (m + k)) = (u, [Handle (h (m + k))])" "one_behind n s0 h (Suc (m + k)) u" by blast
  then show ?case using t by (simp add: run_append Let_def)
qed simp

text \<open>The first message of a gesture does not come; the next ones, as many as the queue tolerates, come in order.\<close>

lemma gap_opens:
  assumes "s0 < n" and "0 < w" and "w < n"
  shows "\<exists>t. run (gesture_push n s0 h) (fst (sq_start (sq_new n w) s0)) [1..<Suc w] = (t, map (\<lambda>i. Handle (h i)) [1..<w]) \<and>
    one_behind n s0 h w t"
proof -
  have first: "first_missing {1..<k} = 0" for k unfolding first_missing_def by (intro Least_equality) auto
  have ord: "orderly n w [1..<w]"
  proof -
    have upto: "set (take j [1..<w]) = {1..<Suc j}" if "j < w" for j
      using that by (simp only: take_upt set_upt) simp
    show ?thesis
      unfolding orderly_def
    proof (intro conjI allI impI)
      fix k
      assume "k < length [1..<w]"
      then have k: "k < w" "Suc k < w" by simp_all
      show "[1..<w] ! k < first_missing (set (take k [1..<w])) + n"
        unfolding upto [OF k(1)] first using k assms(3) by simp
      show "card (set (take (Suc k) [1..<w]) - {..<first_missing (set (take (Suc k) [1..<w]))}) < w"
        unfolding upto [OF k(2)] first using k by simp
    qed simp
  qed
  obtain q where q: "run (gesture_push n s0 h) (fst (sq_start (sq_new n w) s0)) [1..<w] = (q, [])"
    "holds s0 h {1..<w} 0 q" "sq_size q = n" "sq_max q = w"
    using gesture_runs [where h = h, OF started_holds [OF assms(1)] started_fields(1,2) [symmetric] ord] first by auto
  let ?q = "q\<lparr>sq_list := (sq_list q)(slot n s0 w := Some (Handle (h w))), sq_waiting := sq_waiting q + 1\<rparr>"
  have h: "holds s0 h {1..<Suc w} 0 ?q"
    using holds_insert [OF q(2), of w] assms q(3) by (simp add: atLeastLessThanSuc)
  have "\<not> n \<le> slot n s0 w" using assms by (simp add: slot_def not_le)
  then have p: "gesture_push n s0 h q w = sq_loop ?q"
    using q(2,3) by (simp add: gesture_push_def sq_push_def sq_maybe_consume_def holds_def)
  have wq: "sq_waiting ?q = w" using h by (simp add: holds_def)
  have lo: "sq_lo q \<le> n" "sq_lo q mod n = slot n s0 0" using q(2,3) by (simp_all add: holds_def)
  have none: "sq_list ?q (slot n s0 0) = None"
  proof (rule ccontr)
    assume "sq_list ?q (slot n s0 0) \<noteq> None"
    from holds_only [OF h, rule_format, OF this] q(3)
    obtain i where i: "i \<in> {1..<Suc w}" "slot n s0 0 = slot n s0 i" by auto
    then show False using slot_inj [OF i(2), of 0] assms(3) by simp
  qed
  let ?q2 = "q\<lparr>sq_list := (sq_list q)(slot n s0 w := Some (Handle (h w))), sq_lo := slot n s0 0 + 1, sq_waiting := w - 1\<rparr>"
  consider "n \<le> sq_lo q" "slot n s0 0 = 0" | "\<not> n \<le> sq_lo q" "sq_lo q = slot n s0 0"
    using lo assms by (cases "n \<le> sq_lo q") auto
  then have skip: "sq_loop ?q = sq_loop ?q2"
    by cases (use none wq q(3,4) assms(2) in \<open>subst sq_loop.simps, simp add: Let_def\<close>)+
  have from1: "waits_from s0 h 1 w ?q2"
  proof -
    have "sq_list ?q (slot n s0 (1 + j)) = Some (Handle (h (1 + j)))" if "j < w" for j
      using holds_waits [OF h] that q(3) by simp
    moreover have "slot n s0 0 < n" using assms by (simp add: slot_def)
    moreover have "(slot n s0 0 + 1) mod n = slot n s0 1" by (simp add: slot_def mod_Suc_eq)
    ultimately show ?thesis using q(3) assms by (simp add: waits_from_def)
  qed
  have "w - 1 \<le> w" "w \<le> sq_size ?q2" "sq_waiting ?q2 = w - 1" using assms q(3) by simp_all
  from loop_counts [OF from1 this(3,1,2)] obtain t where
    "sq_loop ?q2 = (t, map (\<lambda>i. Handle (h i)) [1..<1 + (w - 1)])" "waits_from s0 h (1 + (w - 1)) (w - (w - 1)) t" "sq_waiting t = 0"
    "sq_size t = sq_size ?q2" "sq_locked t = sq_locked ?q2" by blast
  moreover have "1 + (w - 1) = w" "w - (w - 1) = 1" using assms(2) by simp_all
  ultimately have t: "sq_loop ?q = (t, map (\<lambda>i. Handle (h i)) [1..<w])" "waits_from s0 h w 1 t" "sq_waiting t = 0"
    "sq_size t = n" "\<not> sq_locked t"
    using skip q(2,3) by (simp_all add: holds_def del: One_nat_def)
  have "[1..<Suc w] = [1..<w] @ [w]" using assms(2) by simp
  then have "run (gesture_push n s0 h) (fst (sq_start (sq_new n w) s0)) [1..<Suc w] = (t, map (\<lambda>i. Handle (h i)) [1..<w])"
    using q(1) p t(1) by (simp add: run_append Let_def)
  then show ?thesis using t by (auto simp: one_behind_def)
qed

text \<open>
  A lost message costs two: when the first message of a gesture is lost and the others
  come in order, the queue skips it once enough are waiting, but the skip is counted as if a message
  had been handled, so from then on the queue is one behind, and the last message that arrived (the end
  of the gesture, say) is not handled, however many have come.
\<close>

theorem lost_message_holds_back_last:
  assumes "s0 < n" and "0 < w" and "w < n"
  shows "snd (run (gesture_push n s0 h) (fst (sq_start (sq_new n w) s0)) [1..<Suc (w + k)]) = map (\<lambda>i. Handle (h i)) [1..<w + k]"
proof -
  from gap_opens [OF assms, of h] obtain t where t: "run (gesture_push n s0 h) (fst (sq_start (sq_new n w) s0)) [1..<Suc w] =
      (t, map (\<lambda>i. Handle (h i)) [1..<w])" "one_behind n s0 h w t" by blast
  have "1 < n" using assms(2,3) by simp
  from behind_run [OF t(2) this, of k] obtain u where
    u: "run (gesture_push n s0 h) t [Suc w..<Suc w + k] = (u, map (\<lambda>i. Handle (h i)) [w..<w + k])" by blast
  have "[1..<Suc (w + k)] = [1..<Suc w] @ [Suc w..<Suc w + k]" using upt_add_eq_append [of 1 "Suc w" k] by simp
  moreover have "[1..<w + k] = [1..<w] @ [w..<w + k]" using assms(2) upt_add_eq_append [of 1 w k] by simp
  ultimately show ?thesis using t(1) u by (simp add: run_append Let_def)
qed

section \<open>The queue of states\<close>

definition stq_next :: "'s list \<Rightarrow> 's option \<times> 's list" where
  "stq_next q = (case q of [] \<Rightarrow> (None, []) | x # xs \<Rightarrow> (Some x, xs))"

fun stq_push :: "'s list \<Rightarrow> 's \<Rightarrow> 's list" where
  "stq_push [] st = [st]"
| "stq_push (x # xs) st = (if x = st then [x] else x # stq_push xs st)"

lemma stq_push_set: "set (stq_push q st) \<subseteq> insert st (set q)"
  by (induction q) auto

text \<open>The queue ends with what was asked for last, and asks for nothing twice.\<close>

lemma stq_push_distinct: "distinct q \<Longrightarrow> distinct (stq_push q st)"
proof (induction q)
  case (Cons x xs)
  then show ?case using stq_push_set [of xs st] by auto
qed simp

lemma stq_push_last: "stq_push q st \<noteq> [] \<and> last (stq_push q st) = st"
  by (induction q) auto

section \<open>Failures in a window of time\<close>

definition fail_inc :: "nat \<Rightarrow> millis \<Rightarrow> millis list \<Rightarrow> millis \<Rightarrow> millis list \<times> bool" where
  "fail_inc threshold time vals now =
     (let kept = dropWhile (\<lambda>v. time \<le> now - v) vals @ [now] in (kept, threshold < length kept))"

text \<open>With a clock that does not go back, the counter is the number of failures in the window.\<close>

lemma fail_inc_window:
  assumes "sorted vals"
  shows "fst (fail_inc n time vals now) = filter (\<lambda>v. now - v < time) vals @ [now]"
proof -
  have "dropWhile (\<lambda>v. time \<le> now - v) vals = filter (\<lambda>v. now - v < time) vals"
    using assms
  proof (induction vals)
    case (Cons v vs)
    then show ?case by (cases "time \<le> now - v") (auto intro!: filter_True [symmetric])
  qed simp
  then show ?thesis by (simp add: fail_inc_def Let_def)
qed

definition failures_at :: "nat \<Rightarrow> millis \<Rightarrow> millis list \<Rightarrow> millis list" where
  "failures_at n time ts = fold (\<lambda>now vals. fst (fail_inc n time vals now)) ts []"

lemma failures_kept: "0 < time \<Longrightarrow> sorted ts \<Longrightarrow> failures_at n time ts = filter (\<lambda>v. last ts - v < time) ts"
proof (induction ts rule: rev_induct)
  case (snoc now ts)
  have s: "sorted ts" "\<forall>v \<in> set ts. v \<le> now" using snoc.prems(2) by (auto simp: sorted_append)
  have k: "failures_at n time ts = filter (\<lambda>v. last ts - v < time) ts" using snoc.IH snoc.prems(1) s(1) by blast
  have "failures_at n time (ts @ [now]) = filter (\<lambda>v. now - v < time) (filter (\<lambda>v. last ts - v < time) ts) @ [now]"
    using fail_inc_window [of "failures_at n time ts" n time now] s(1) k sorted_filter [of id ts]
    by (simp add: failures_at_def)
  also have "filter (\<lambda>v. now - v < time) (filter (\<lambda>v. last ts - v < time) ts) = filter (\<lambda>v. now - v < time) ts"
  proof -
    have "(last ts - v < time \<and> now - v < time) = (now - v < time)" if "v \<in> set ts" for v
    proof -
      have "last ts \<le> now" using s(2) that by (cases ts rule: rev_cases) auto
      then show ?thesis by linarith
    qed
    then show ?thesis by (simp add: filter_filter) (rule filter_cong, auto)
  qed
  finally show ?case using snoc.prems(1) by simp
qed (simp add: failures_at_def)

text \<open>
  The limit on failures is one of a window of time: with a clock that does not go back,
  a failure exceeds the limit exactly when, it included, more than the threshold have happened less than
  the given time ago, however many there were before.
\<close>

theorem fail_limit_is_a_window:
  assumes "0 < time" and "sorted (ts @ [now])"
  shows "snd (fail_inc n time (failures_at n time ts) now) \<longleftrightarrow> n < length (filter (\<lambda>v. now - v < time) (ts @ [now]))"
proof -
  have "fst (fail_inc n time (failures_at n time ts) now) = failures_at n time (ts @ [now])" by (simp add: failures_at_def)
  also have "\<dots> = filter (\<lambda>v. now - v < time) (ts @ [now])" using failures_kept [OF assms] by simp
  finally show ?thesis by (simp add: fail_inc_def Let_def)
qed

section \<open>Witnesses\<close>

lemma first_missing_eq: "k \<notin> T \<Longrightarrow> {..<k} \<subseteq> T \<Longrightarrow> first_missing T = k"
  unfolding first_missing_def by (rule Least_equality) (auto simp: not_less [symmetric] subset_iff)

theorem gesture_messages_in_order_witness:
  "snd (run (gesture_push 100 97 (\<lambda>i. i)) (fst (sq_start (sq_new 100 4) 97)) [1, 0, 2]) = map (\<lambda>i. Handle i) [0..<3]"
proof (rule gesture_messages_in_order)
  have f: "first_missing {} = 0" "first_missing {1} = 0" "first_missing {1, 0} = 2" "first_missing {1, 0, 2} = 3"
    by (rule first_missing_eq; force simp: less_Suc_eq numeral_2_eq_2 numeral_3_eq_3)+
  have "[1, 0, 2] ! k < first_missing (set (take k [1, 0, 2])) + 100 \<and>
      card (set (take (Suc k) [1, 0, 2]) - {..<first_missing (set (take (Suc k) [1, 0, 2]))}) < 4"
    if k: "k < 3" for k
  proof -
    have c: "card (A - B) < 4" if "A \<subseteq> {0, 1, 2}" for A B :: "nat set"
    proof -
      have "card (A - B) \<le> card {0, 1, 2 :: nat}" using that by (intro card_mono) auto
      then show ?thesis by simp
    qed
    consider "k = 0" | "k = 1" | "k = 2" using k by linarith
    then show ?thesis
    proof cases
      case 1
      then show ?thesis using c [of "{1}"] by (simp add: f)
    next
      case 2
      then show ?thesis using c [of "{1, 0}"] by (simp add: f)
    next
      case 3
      then show ?thesis using c [of "{1, 0, 2}"] by (simp add: f numeral_2_eq_2)
    qed
  qed
  then show "orderly 100 4 [1, 0, 2]" by (simp add: orderly_def)
qed auto

theorem lost_message_holds_back_last_witness:
  "snd (run (gesture_push 100 7 (\<lambda>i. i)) (fst (sq_start (sq_new 100 4) 7)) [1..<Suc (4 + 2)]) = map (\<lambda>i. Handle i) [1..<4 + 2]"
  by (rule lost_message_holds_back_last) simp_all

theorem fail_limit_is_a_window_witness:
  "snd (fail_inc 3 10000 (failures_at 3 10000 [0, 9000, 9500, 9600]) 10000) \<longleftrightarrow> 3 < length [9000, 9500, 9600, 10000 :: millis]"
  using fail_limit_is_a_window [of 10000 "[0, 9000, 9500, 9600]" 10000 3] by simp

end
