(* ===== verification/Touch.thy ===== *)
theory Touch imports Vnc Touch_Queue begin

text \<open>
  \<open>lib/units/device/plugins/touch/index.ts\<close>: the consumer that runs the minitouch service on the
  device and writes touches to its socket, and the plugin that feeds it from the sequence queue.
  Every await of an asynchronous method is a task of the state; an event resumes one task with
  its outcome. Coordinates are rationals (\<open>None\<close> is NaN), so the rounding of floating-point products is
  not modelled; streams are numbered in the order they are opened. The limit of ten seconds on
  \<open>_stopService\<close> is left out: its two attempts to kill take two seconds each at most.
\<close>

section \<open>Numbers of the language\<close>

fun show_nat :: "nat \<Rightarrow> string" where
  "show_nat n = (if n < 10 then [char_of (48 + n)] else show_nat (n div 10) @ [char_of (48 + n mod 10)])"

declare show_nat.simps [simp del]

definition show_number :: "int option \<Rightarrow> string" where
  "show_number v =
     (case v of None \<Rightarrow> ''NaN'' | Some i \<Rightarrow> (if i < 0 then CHR ''-'' # show_nat (nat (- i)) else show_nat (nat i)))"

definition is_digit :: "char \<Rightarrow> bool" where
  "is_digit c \<longleftrightarrow> 48 \<le> (of_char c :: nat) \<and> of_char c < (58 :: nat)"

definition read_digits :: "string \<Rightarrow> int option" where
  "read_digits s = (if list_all is_digit s then Some (int (foldl (\<lambda>n c. 10 * n + (of_char c - 48)) 0 s)) else None)"

text \<open>
  \<open>Number\<close> on a missing argument and on the numerals of minitouch: decimal digits with a sign.
  The other spellings that \<open>Number\<close> knows (fractions, exponents, hexadecimals) are left out.
\<close>

definition to_number :: "string option \<Rightarrow> int option" where
  "to_number arg =
     (case arg of
        None \<Rightarrow> None
      | Some s \<Rightarrow>
          (let t = trim s in
           if t \<noteq> [] \<and> hd t = CHR ''-'' then (if tl t = [] then None else map_option uminus (read_digits (tl t)))
           else if t \<noteq> [] \<and> hd t = CHR ''+'' then (if tl t = [] then None else read_digits (tl t))
           else read_digits t))"

section \<open>Touches and the lines they become\<close>

record touch_point =
  tp_contact :: nat
  tp_x :: "rat option"
  tp_y :: "rat option"
  tp_pressure :: "rat option"

datatype origin = TopLeft | BottomLeft

definition origin_x :: "origin \<Rightarrow> touch_point \<Rightarrow> rat option" where
  "origin_x org p = (case org of TopLeft \<Rightarrow> tp_x p | BottomLeft \<Rightarrow> map_option (\<lambda>y. 1 - y) (tp_y p))"

definition origin_y :: "origin \<Rightarrow> touch_point \<Rightarrow> rat option" where
  "origin_y org p = (case org of TopLeft \<Rightarrow> tp_y p | BottomLeft \<Rightarrow> tp_x p)"

record banner =
  bn_pid :: "int option"
  bn_version :: "int option"
  bn_contacts :: "int option"
  bn_max_x :: "int option"
  bn_max_y :: "int option"
  bn_max_pressure :: "int option"

datatype writer = WDown touch_point | WMove touch_point | WUp nat | WCommit | WReset

definition scaled :: "rat option \<Rightarrow> int option \<Rightarrow> int option" where
  "scaled v limit = (case (v, limit) of (Some r, Some m) \<Rightarrow> Some \<lceil>r * of_int m\<rceil> | _ \<Rightarrow> None)"

definition pressure_of :: "touch_point \<Rightarrow> rat option" where
  "pressure_of p = (case tp_pressure p of None \<Rightarrow> Some (1 / 2) | Some r \<Rightarrow> Some (if r = 0 then 1 / 2 else r))"

definition point_line :: "char \<Rightarrow> origin \<Rightarrow> banner \<Rightarrow> touch_point \<Rightarrow> string" where
  "point_line c org b p =
     [c, CHR '' ''] @ show_nat (tp_contact p) @ '' '' @ show_number (scaled (origin_x org p) (bn_max_x b)) @ '' '' @
     show_number (scaled (origin_y org p) (bn_max_y b)) @ '' '' @ show_number (scaled (pressure_of p) (bn_max_pressure b)) @
     [CHR 0x0A]"

fun line_of_writer :: "origin \<Rightarrow> banner \<Rightarrow> writer \<Rightarrow> string" where
  "line_of_writer org b (WDown p) = point_line CHR ''d'' org b p"
| "line_of_writer org b (WMove p) = point_line CHR ''m'' org b p"
| "line_of_writer org b (WUp c) = ''u '' @ show_nat c @ [CHR 0x0A]"
| "line_of_writer org b WCommit = [CHR ''c'', CHR 0x0A]"
| "line_of_writer org b WReset = [CHR ''r'', CHR 0x0A]"

section \<open>The consumer\<close>

datatype run_state = STATE_STOPPED | STATE_STARTING | STATE_STARTED | STATE_STOPPING

text \<open>Who waits for a call of \<open>_stop\<close>, and the awaits.\<close>

datatype stopper = AfterFailure string | AfterStopState | AfterRestart | AfterLimit

datatype touch_task =
    AwaitRun
  | AwaitSocket nat millis
  | AwaitDelay nat millis
  | AwaitLine nat banner
  | AwaitDisconnect stopper
  | AwaitKill stopper nat "int option" bool
  | AwaitStopped stopper
  | Immediate

record touch =
  tc_running :: run_state
  tc_desired :: "run_state list"
  tc_output :: "nat option"
  tc_socket :: "nat option"
  tc_banner :: "banner option"
  tc_failures :: "millis list"
  tc_failed :: bool
  tc_writes :: "writer list"
  tc_lock :: bool
  tc_split :: bool
  tc_opened :: nat
  tc_ended :: "nat \<Rightarrow> bool"
  tc_expected :: "nat \<Rightarrow> bool"
  tc_tasks :: "touch_task list"

datatype touch_out =
    RunService
  | OpenLocal
  | Sleep millis
  | SocketWrite nat string
  | EndStream nat
  | ShellKill int "int option"
  | EmitStart
  | EmitStop
  | EmitTouchError string
  | NullBanner
  | FatalExit

definition touch_new :: touch where
  "touch_new = \<lparr>tc_running = STATE_STOPPED, tc_desired = [], tc_output = None, tc_socket = None, tc_banner = None, tc_failures = [],
     tc_failed = False, tc_writes = [], tc_lock = False, tc_split = False, tc_opened = 0, tc_ended = (\<lambda>_. False),
     tc_expected = (\<lambda>_. False), tc_tasks = []\<rparr>"

definition await :: "touch_task \<Rightarrow> touch \<Rightarrow> touch" where
  "await t s = s\<lparr>tc_tasks := tc_tasks s @ [t]\<rparr>"

definition expect_end :: "nat \<Rightarrow> touch \<Rightarrow> touch" where
  "expect_end k s = s\<lparr>tc_expected := (tc_expected s)(k := True)\<rparr>"

text \<open>
  A writer runs with the banner and the socket of the moment; only those that place a point
  look at the banner, and a missing one is an exception. Without a socket nothing is written.
\<close>

definition empty_banner :: banner where
  "empty_banner = \<lparr>bn_pid = Some (-1), bn_version = Some 0, bn_contacts = Some 0, bn_max_x = Some 0, bn_max_y = Some 0,
     bn_max_pressure = Some 0\<rparr>"

fun places :: "writer \<Rightarrow> bool" where
  "places (WDown p) = True"
| "places (WMove p) = True"
| "places _ = False"

definition write_now :: "origin \<Rightarrow> touch \<Rightarrow> writer \<Rightarrow> touch_out list" where
  "write_now org s w =
     (if places w \<and> tc_banner s = None then [NullBanner]
      else (case tc_socket s of
          None \<Rightarrow> []
        | Some k \<Rightarrow> [SocketWrite k (line_of_writer org (case tc_banner s of None \<Rightarrow> empty_banner | Some b \<Rightarrow> b) w)]))"

definition queue_write :: "origin \<Rightarrow> touch \<Rightarrow> writer \<Rightarrow> touch \<times> touch_out list" where
  "queue_write org s w =
     (if tc_running s = STATE_STARTED then (s, write_now org s w)
      else (s\<lparr>tc_writes := tc_writes s @ [w]\<rparr>, []))"

definition process_writes :: "origin \<Rightarrow> touch \<Rightarrow> touch \<times> touch_out list" where
  "process_writes org s = (s\<lparr>tc_writes := []\<rparr>, concat (map (write_now org s) (tc_writes s)))"

definition tap :: "origin \<Rightarrow> touch \<Rightarrow> touch_point \<Rightarrow> touch \<times> touch_out list" where
  "tap org s p = run (queue_write org) s [WDown p, WCommit, WUp (tp_contact p), WCommit]"

section \<open>Stopping\<close>

text \<open>\<open>_stop\<close> up to its first await: the socket is ended unless it is gone.\<close>

definition stop_begin :: "stopper \<Rightarrow> touch \<Rightarrow> touch \<times> touch_out list" where
  "stop_begin who s =
     (case tc_socket s of
        None \<Rightarrow> (await (AwaitDisconnect who) s, [])
      | Some k \<Rightarrow>
          (if tc_ended s k then (await (AwaitDisconnect who) s, [])
           else (await (AwaitDisconnect who) (expect_end k s), [EndStream k])))"

text \<open>\<open>_stopService\<close>: a service without a known process is ended by its output.\<close>

definition force_end :: "stopper \<Rightarrow> nat \<Rightarrow> touch \<Rightarrow> touch \<times> touch_out list" where
  "force_end who k s = (await (AwaitStopped who) (expect_end k s), [EndStream k])"

definition kill :: "stopper \<Rightarrow> nat \<Rightarrow> int option \<Rightarrow> bool \<Rightarrow> touch \<Rightarrow> touch \<times> touch_out list" where
  "kill who k pid kindly s =
     (case pid of
        Some p \<Rightarrow>
          (if p \<le> 0 then force_end who k s
           else (await (AwaitKill who k pid kindly) (expect_end k s), [ShellKill (if kindly then -15 else -9) pid]))
      | None \<Rightarrow> (await (AwaitKill who k pid kindly) (expect_end k s), [ShellKill (if kindly then -15 else -9) pid]))"

definition stop_service :: "stopper \<Rightarrow> touch \<Rightarrow> touch \<times> touch_out list" where
  "stop_service who s =
     (case tc_output s of
        None \<Rightarrow> (await (AwaitStopped who) s, [])
      | Some k \<Rightarrow>
          (if tc_ended s k then (await (AwaitStopped who) s, [])
           else kill who k (case tc_banner s of None \<Rightarrow> Some (-1) | Some b \<Rightarrow> bn_pid b) True s))"

definition stopped :: "touch \<Rightarrow> touch" where
  "stopped s = s\<lparr>tc_running := STATE_STOPPED, tc_split := False, tc_output := None, tc_socket := None, tc_banner := None\<rparr>"

section \<open>Reaching the desired state\<close>

definition take_desired :: "touch \<Rightarrow> run_state option \<times> touch" where
  "take_desired s = (fst (stq_next (tc_desired s)), s\<lparr>tc_desired := snd (stq_next (tc_desired s))\<rparr>)"

definition start_state :: "touch \<Rightarrow> touch \<times> touch_out list" where
  "start_state s =
     (let (d, s1) = take_desired s in
      if d \<noteq> Some STATE_STARTED then (await Immediate (s1\<lparr>tc_lock := False\<rparr>), [])
      else (await AwaitRun (s1\<lparr>tc_running := STATE_STARTING\<rparr>), [RunService]))"

definition stop_state :: "touch \<Rightarrow> touch \<times> touch_out list" where
  "stop_state s =
     (let (d, s1) = take_desired s in
      if d \<noteq> Some STATE_STOPPED then (await Immediate (s1\<lparr>tc_lock := False\<rparr>), [])
      else stop_begin AfterStopState (s1\<lparr>tc_running := STATE_STOPPING\<rparr>))"

definition ensure_state :: "touch \<Rightarrow> touch \<times> touch_out list" where
  "ensure_state s =
     (if tc_desired s = [] \<or> tc_failed s \<or> tc_lock s then (s, [])
      else (let s1 = s\<lparr>tc_lock := True\<rparr> in
        case tc_running s1 of
          STATE_STARTING \<Rightarrow> (s1, [])
        | STATE_STOPPING \<Rightarrow> (s1, [])
        | STATE_STOPPED \<Rightarrow> start_state s1
        | STATE_STARTED \<Rightarrow> stop_state s1))"

definition desire :: "run_state \<Rightarrow> touch \<Rightarrow> touch" where
  "desire d s = s\<lparr>tc_desired := stq_push (tc_desired s) d\<rparr>"

definition touch_start :: "touch \<Rightarrow> touch \<times> touch_out list" where
  "touch_start s = ensure_state (desire STATE_STARTED s)"

definition touch_stop :: "touch \<Rightarrow> touch \<times> touch_out list" where
  "touch_stop s = ensure_state (desire STATE_STOPPED s)"

definition restart :: "touch \<Rightarrow> touch \<times> touch_out list" where
  "restart s = (if tc_running s \<in> {STATE_STARTED, STATE_STARTING} then stop_begin AfterRestart s else (s, []))"

text \<open>\<open>failCounter.inc\<close>, which may call \<open>_failLimitExceeded\<close>.\<close>

definition LIMIT_MESSAGE :: string where "LIMIT_MESSAGE = ''Failed more than 3 times in 10000ms''"

definition count_failure :: "millis \<Rightarrow> touch \<Rightarrow> touch \<times> touch_out list" where
  "count_failure now s =
     (let (vs, over) = fail_inc 3 10000 (tc_failures s) now; s1 = s\<lparr>tc_failures := vs\<rparr> in
      if over then (let r = stop_begin AfterLimit s1 in ((fst r)\<lparr>tc_failed := True\<rparr>, snd r @ [EmitTouchError LIMIT_MESSAGE]))
      else (s1, []))"

definition stream_ended :: "nat \<Rightarrow> millis \<Rightarrow> touch \<Rightarrow> touch \<times> touch_out list" where
  "stream_ended k now s =
     (if tc_opened s \<le> k \<or> tc_ended s k then (s, [])
      else (let s1 = s\<lparr>tc_ended := (tc_ended s)(k := True)\<rparr> in
        if tc_expected s1 k then (s1, [])
        else (let a = count_failure now s1; b = restart (fst a) in (fst b, snd a @ snd b))))"

definition release :: "touch \<Rightarrow> touch \<times> touch_out list" where
  "release s = ensure_state (s\<lparr>tc_lock := False\<rparr>)"

text \<open>What follows \<open>_stop\<close> in each of its callers.\<close>

fun after_stopping :: "stopper \<Rightarrow> millis \<Rightarrow> touch \<Rightarrow> touch \<times> touch_out list" where
  "after_stopping (AfterFailure msg) now s =
     (let a = count_failure now s; b = release (fst a) in (fst b, snd a @ [EmitTouchError msg] @ snd b))"
| "after_stopping AfterStopState now s = release s"
| "after_stopping AfterRestart now s = ensure_state (desire STATE_STARTED (desire STATE_STOPPED s))"
| "after_stopping AfterLimit now s = (s, [])"

definition stop_end :: "stopper \<Rightarrow> millis \<Rightarrow> touch \<Rightarrow> touch \<times> touch_out list" where
  "stop_end who now s = (let r = after_stopping who now (stopped s) in (fst r, EmitStop # snd r))"

section \<open>Starting\<close>

definition start_failed :: "string \<Rightarrow> touch \<Rightarrow> touch \<times> touch_out list" where
  "start_failed msg s = stop_begin (AfterFailure msg) s"

text \<open>The lines of the banner: version, limits, process; a wrong one is an error.\<close>

definition nth_arg :: "nat \<Rightarrow> string list \<Rightarrow> int option" where
  "nth_arg n args = to_number (if n < length args then Some (args ! n) else None)"

definition read_banner_line :: "nat \<Rightarrow> banner \<Rightarrow> string \<Rightarrow> banner option" where
  "read_banner_line stage b line =
     (let args = split_char CHR '' '' line in
      if stage = 0 then (if hd args = ''v'' then Some (b\<lparr>bn_version := nth_arg 1 args\<rparr>) else None)
      else if stage = 1 then
        (if hd args = [CHR 0x5E] then Some (b\<lparr>bn_contacts := nth_arg 1 args, bn_max_x := nth_arg 2 args, bn_max_y := nth_arg 3 args,
            bn_max_pressure := nth_arg 4 args\<rparr>) else None)
      else (if hd args = ''$'' then Some (b\<lparr>bn_pid := nth_arg 1 args\<rparr>) else None))"

definition banner_error :: "nat \<Rightarrow> string \<Rightarrow> string" where
  "banner_error stage line =
     (if stage = 0 then ''Unexpected output \"'' @ line @ ''\", expecting version line''
      else if stage = 1 then ''Unknown output \"'' @ line @ ''\", expecting limits line''
      else ''Unexpected output \"'' @ line @ ''\", expecting pid line'')"

text \<open>
  After the banner: when another call of \<open>_stop\<close> has taken the socket away meanwhile, reading
  on is an exception.
\<close>

definition start_done :: "origin \<Rightarrow> banner \<Rightarrow> touch \<Rightarrow> touch \<times> touch_out list" where
  "start_done org b s =
     (let s1 = s\<lparr>tc_banner := Some b\<rparr> in
      if tc_socket s1 = None then start_failed ''Cannot read properties of null'' s1
      else (let p = process_writes org s1; r = release ((fst p)\<lparr>tc_running := STATE_STARTED\<rparr>)
            in (fst r, snd p @ [EmitStart] @ snd r)))"

datatype answer = Okay | Failed string | Line string

fun connect_answer :: "nat \<Rightarrow> millis \<Rightarrow> touch \<Rightarrow> answer \<Rightarrow> touch \<times> touch_out list" where
  "connect_answer tries delay s (Failed msg) =
     (if str_includes ''closed'' msg \<and> 1 < tries then (await (AwaitDelay tries delay) s, [Sleep delay]) else start_failed msg s)"
| "connect_answer tries delay s _ =
     (await (AwaitLine 0 empty_banner) (s\<lparr>tc_socket := Some (tc_opened s), tc_opened := Suc (tc_opened s)\<rparr>), [])"

fun resume_task :: "origin \<Rightarrow> touch_task \<Rightarrow> answer \<Rightarrow> millis \<Rightarrow> touch \<Rightarrow> touch \<times> touch_out list" where
  "resume_task org AwaitRun ans now s =
     (case ans of
        Failed msg \<Rightarrow> start_failed msg s
      | _ \<Rightarrow> (await (AwaitSocket 7 100) (s\<lparr>tc_output := Some (tc_opened s), tc_opened := Suc (tc_opened s), tc_split := True\<rparr>), [OpenLocal]))"
| "resume_task org (AwaitSocket tries delay) ans now s = connect_answer tries delay s ans"
| "resume_task org (AwaitDelay tries delay) ans now s = (await (AwaitSocket (tries - 1) (delay * 2)) s, [OpenLocal])"
| "resume_task org (AwaitLine stage b) ans now s =
     (case ans of
        Line line \<Rightarrow>
          (case read_banner_line stage b line of
             None \<Rightarrow> start_failed (banner_error stage line) s
           | Some b1 \<Rightarrow> (if stage < 2 then (await (AwaitLine (Suc stage) b1) s, []) else start_done org b1 s))
      | Failed msg \<Rightarrow> start_failed msg s
      | Okay \<Rightarrow> start_failed ''Stream ended'' s)"
| "resume_task org (AwaitDisconnect who) ans now s = stop_service who s"
| "resume_task org (AwaitKill who k pid kindly) ans now s =
     (case ans of
        Failed msg \<Rightarrow> (if kindly \<and> msg = ''Timeout'' then kill who k pid False s else force_end who k s)
      | _ \<Rightarrow> stop_end who now s)"
| "resume_task org (AwaitStopped who) ans now s = stop_end who now s"
| "resume_task org Immediate ans now s = ensure_state s"

datatype touch_event =
    CallWrite writer
  | CallTap touch_point
  | CallStart
  | CallStop
  | CallRestart
  | Resume nat answer millis
  | StreamEnds nat millis
  | ServiceLine string

fun touch_step :: "origin \<Rightarrow> touch \<Rightarrow> touch_event \<Rightarrow> touch \<times> touch_out list" where
  "touch_step org s (CallWrite w) = queue_write org s w"
| "touch_step org s (CallTap p) = tap org s p"
| "touch_step org s CallStart = touch_start s"
| "touch_step org s CallStop = touch_stop s"
| "touch_step org s CallRestart = restart s"
| "touch_step org s (Resume k ans now) =
     (if k < length (tc_tasks s)
      then resume_task org (tc_tasks s ! k) ans now (s\<lparr>tc_tasks := remove_nth k (tc_tasks s)\<rparr>) else (s, []))"
| "touch_step org s (StreamEnds k now) = stream_ended k now s"
| "touch_step org s (ServiceLine line) = (s, if tc_split s \<and> str_includes ''ERROR'' line then [FatalExit] else [])"

section \<open>The lock is never lost\<close>

text \<open>
  The tasks of \<open>startState\<close> and \<open>stopState\<close> hold the lock until they end. \<open>lock_with n s\<close>: one
  task holds the lock when it is taken, counting \<open>n\<close> for the code that runs now; the lock is taken while
  the service starts or stops, and a started service has its socket and its banner.
\<close>

fun holds_lock :: "stopper \<Rightarrow> bool" where
  "holds_lock (AfterFailure msg) = True"
| "holds_lock AfterStopState = True"
| "holds_lock _ = False"

fun holder :: "touch_task \<Rightarrow> bool" where
  "holder (AwaitDisconnect who) = holds_lock who"
| "holder (AwaitKill who k pid kindly) = holds_lock who"
| "holder (AwaitStopped who) = holds_lock who"
| "holder Immediate = False"
| "holder _ = True"

definition lock_with :: "nat \<Rightarrow> touch \<Rightarrow> bool" where
  "lock_with n s \<longleftrightarrow> length (filter holder (tc_tasks s)) + n = (if tc_lock s then 1 else 0) \<and>
     (tc_running s \<in> {STATE_STARTING, STATE_STOPPING} \<longrightarrow> tc_lock s) \<and>
     (tc_running s = STATE_STARTED \<longrightarrow> tc_socket s \<noteq> None \<and> tc_banner s \<noteq> None)"

text \<open>Somebody will look at the states that are still desired.\<close>

definition awake :: "touch \<Rightarrow> bool" where
  "awake s \<longleftrightarrow> (tc_desired s \<noteq> [] \<and> \<not> tc_failed s \<longrightarrow> tc_lock s \<or> Immediate \<in> set (tc_tasks s))"

definition lock_ok :: "touch \<Rightarrow> bool" where
  "lock_ok s \<longleftrightarrow> lock_with 0 s \<and> awake s"

lemma stop_begin_lock:
  "lock_with n s \<Longrightarrow> n = (if holds_lock who then 1 else 0) \<Longrightarrow> lock_with 0 (fst (stop_begin who s))"
  by (auto simp: stop_begin_def await_def expect_end_def lock_with_def split: option.splits if_splits)

lemma stop_begin_awake: "awake s \<Longrightarrow> awake (fst (stop_begin who s))"
  by (auto simp: stop_begin_def await_def expect_end_def awake_def split: option.splits)

lemma stop_begin_keeps:
  "tc_running (fst (stop_begin who s)) = tc_running s" "tc_desired (fst (stop_begin who s)) = tc_desired s"
  "tc_lock (fst (stop_begin who s)) = tc_lock s" "tc_failed (fst (stop_begin who s)) = tc_failed s"
  "tc_writes (fst (stop_begin who s)) = tc_writes s" "tc_socket (fst (stop_begin who s)) = tc_socket s"
  "tc_banner (fst (stop_begin who s)) = tc_banner s" "tc_tasks (fst (stop_begin who s)) = tc_tasks s @ [AwaitDisconnect who]"
  by (auto simp: stop_begin_def await_def expect_end_def split: option.splits)

lemma ensure_lock: "lock_with 0 s \<Longrightarrow> lock_ok (fst (ensure_state s))"
  unfolding ensure_state_def start_state_def stop_state_def take_desired_def
  by (auto simp: lock_ok_def lock_with_def awake_def await_def Let_def stop_begin_keeps split: run_state.splits if_splits)

lemma release_lock: "lock_with 1 s \<Longrightarrow> lock_ok (fst (release s))" if "tc_running s \<in> {STATE_STOPPED, STATE_STARTED}"
proof -
  assume "lock_with 1 s"
  then have "lock_with 0 (s\<lparr>tc_lock := False\<rparr>)" using that by (auto simp: lock_with_def split: if_splits)
  then show ?thesis by (simp add: release_def ensure_lock)
qed

lemma count_failure_keeps:
  "lock_with n s \<Longrightarrow> lock_with n (fst (count_failure now s))" "awake s \<Longrightarrow> awake (fst (count_failure now s))"
  "tc_running (fst (count_failure now s)) = tc_running s" "tc_writes (fst (count_failure now s)) = tc_writes s"
  "tc_failed s \<Longrightarrow> tc_failed (fst (count_failure now s))" "tc_lock (fst (count_failure now s)) = tc_lock s"
  by (auto simp: count_failure_def Let_def lock_with_def awake_def stop_begin_keeps split: prod.splits)

lemma kill_lock:
  "lock_with n s \<Longrightarrow> n = (if holds_lock who then 1 else 0) \<Longrightarrow> lock_with 0 (fst (kill who k pid kindly s))"
  "awake s \<Longrightarrow> awake (fst (kill who k pid kindly s))"
  by (auto simp: kill_def force_end_def await_def expect_end_def lock_with_def awake_def split: option.splits if_splits)

lemma force_end_lock:
  "lock_with n s \<Longrightarrow> n = (if holds_lock who then 1 else 0) \<Longrightarrow> lock_with 0 (fst (force_end who k s))"
  "awake s \<Longrightarrow> awake (fst (force_end who k s))"
  by (auto simp: force_end_def await_def expect_end_def lock_with_def awake_def split: if_splits)

lemma await_stopped_lock:
  "lock_with n s \<Longrightarrow> n = (if holds_lock who then 1 else 0) \<Longrightarrow> lock_with 0 (await (AwaitStopped who) s)"
  "awake s \<Longrightarrow> awake (await (AwaitStopped who) s)"
  by (auto simp: await_def lock_with_def awake_def split: if_splits)

lemma stop_service_lock:
  "lock_with n s \<Longrightarrow> n = (if holds_lock who then 1 else 0) \<Longrightarrow> lock_with 0 (fst (stop_service who s))"
  "awake s \<Longrightarrow> awake (fst (stop_service who s))"
  by (auto simp: stop_service_def await_stopped_lock kill_lock split: option.splits)

lemma stopped_lock: "lock_with n s \<Longrightarrow> lock_with n (stopped s)" "awake s \<Longrightarrow> awake (stopped s)"
  unfolding stopped_def lock_with_def awake_def by (auto split: if_splits)

lemma stop_end_lock:
  assumes "lock_with n s" and "n = (if holds_lock who then 1 else 0)" and "n = 0 \<Longrightarrow> awake s"
  shows "lock_ok (fst (stop_end who now s))"
proof -
  have s: "lock_with n (stopped s)" "tc_running (stopped s) = STATE_STOPPED"
    by (rule stopped_lock(1) [OF assms(1)], simp add: stopped_def)
  show ?thesis
  proof (cases who)
    case (AfterFailure msg)
    then have "lock_with 1 (fst (count_failure now (stopped s)))" using s assms(2) by (simp add: count_failure_keeps)
    then show ?thesis using AfterFailure s(2) by (simp add: stop_end_def Let_def release_lock count_failure_keeps)
  next
    case AfterStopState
    then show ?thesis using s assms(2) by (simp add: stop_end_def Let_def release_lock)
  next
    case AfterRestart
    then have "lock_with 0 (desire STATE_STARTED (desire STATE_STOPPED (stopped s)))"
      using s(1) assms(2) by (simp add: desire_def lock_with_def)
    then show ?thesis using AfterRestart by (simp add: stop_end_def Let_def ensure_lock)
  next
    case AfterLimit
    then show ?thesis using s(1) assms(2,3) by (simp add: stop_end_def Let_def lock_ok_def stopped_lock)
  qed
qed

lemma start_failed_lock: "lock_with 1 s \<Longrightarrow> lock_ok (fst (start_failed msg s))"
  by (auto simp: start_failed_def lock_ok_def lock_with_def awake_def stop_begin_keeps split: if_splits)

lemma await_lock:
  "lock_with 1 s \<Longrightarrow> holder t \<Longrightarrow> lock_ok (await t s)"
  by (auto simp: lock_ok_def lock_with_def awake_def await_def split: if_splits)

lemma start_done_lock: "lock_with 1 s \<Longrightarrow> lock_ok (fst (start_done org b s))"
proof -
  assume l: "lock_with 1 s"
  then have "lock_with 1 (s\<lparr>tc_banner := Some b\<rparr>)" by (simp add: lock_with_def)
  moreover have "lock_with 1 (s\<lparr>tc_banner := Some b, tc_writes := [], tc_running := STATE_STARTED\<rparr>)" if "tc_socket s \<noteq> None"
    using l that by (simp add: lock_with_def)
  ultimately show ?thesis
    by (simp add: start_done_def process_writes_def Let_def start_failed_lock release_lock)
qed

lemma stream_ended_lock: "lock_ok s \<Longrightarrow> lock_ok (fst (stream_ended k now s))"
proof -
  assume "lock_ok s"
  then have s: "lock_with 0 (s\<lparr>tc_ended := (tc_ended s)(k := True)\<rparr>)" "awake (s\<lparr>tc_ended := (tc_ended s)(k := True)\<rparr>)"
    by (simp_all add: lock_ok_def lock_with_def awake_def)
  have "lock_ok (fst (restart t))" if "lock_ok t" for t
    using that by (simp add: restart_def lock_ok_def stop_begin_lock [of 0] stop_begin_awake)
  from this [of "fst (count_failure now (s\<lparr>tc_ended := (tc_ended s)(k := True)\<rparr>))"] s \<open>lock_ok s\<close>
  show ?thesis by (simp add: stream_ended_def Let_def lock_ok_def count_failure_keeps)
qed

lemma remove_nth_holders:
  "k < length ts \<Longrightarrow> length (filter p ts) = length (filter p (remove_nth k ts)) + (if p (ts ! k) then 1 else 0)"
proof -
  assume k: "k < length ts"
  then have "ts = take k ts @ ts ! k # drop (Suc k) ts" by (rule id_take_nth_drop)
  then have "length (filter p ts) = length (filter p (take k ts @ ts ! k # drop (Suc k) ts))" by simp
  then show ?thesis by (simp add: remove_nth_def)
qed

lemma remove_nth_other: "k < length ts \<Longrightarrow> x \<in> set ts \<Longrightarrow> ts ! k \<noteq> x \<Longrightarrow> x \<in> set (remove_nth k ts)"
proof -
  assume k: "k < length ts" and x: "x \<in> set ts" "ts ! k \<noteq> x"
  have "set ts = set (take k ts @ ts ! k # drop (Suc k) ts)" using id_take_nth_drop [OF k] by simp
  then show ?thesis using x by (auto simp: remove_nth_def)
qed

text \<open>A task is taken: its code holds the lock now, if it did.\<close>

lemma task_taken:
  assumes "lock_ok s" and "k < length (tc_tasks s)"
  shows "lock_with (if holder (tc_tasks s ! k) then 1 else 0) (s\<lparr>tc_tasks := remove_nth k (tc_tasks s)\<rparr>)"
    and "tc_tasks s ! k \<noteq> Immediate \<Longrightarrow> awake (s\<lparr>tc_tasks := remove_nth k (tc_tasks s)\<rparr>)"
  using assms remove_nth_holders [OF assms(2), of holder] remove_nth_other [OF assms(2), of Immediate]
  by (auto simp: lock_ok_def lock_with_def awake_def split: if_splits)

lemma stop_lock_ok:
  "lock_with 0 s \<Longrightarrow> awake s \<Longrightarrow> lock_ok s"
  by (simp add: lock_ok_def)

lemma resume_lock:
  assumes "lock_with (if holder t then 1 else 0) s" and "t \<noteq> Immediate \<Longrightarrow> awake s"
  shows "lock_ok (fst (resume_task org t ans now s))"
proof (cases t)
  case AwaitRun
  have "lock_with 1 (s\<lparr>tc_output := Some (tc_opened s), tc_opened := Suc (tc_opened s), tc_split := True\<rparr>)"
    using assms(1) AwaitRun by (simp add: lock_with_def)
  then show ?thesis using assms(1) AwaitRun by (cases ans) (simp_all add: start_failed_lock await_lock)
next
  case (AwaitSocket tries delay)
  have "lock_with 1 (s\<lparr>tc_socket := Some (tc_opened s), tc_opened := Suc (tc_opened s)\<rparr>)"
    using assms(1) AwaitSocket by (simp add: lock_with_def)
  then show ?thesis using assms(1) AwaitSocket by (cases ans) (simp_all add: start_failed_lock await_lock)
next
  case (AwaitDelay tries delay)
  then show ?thesis using assms(1) by (simp add: await_lock)
next
  case (AwaitLine stage b)
  then show ?thesis using assms(1)
    by (cases ans) (simp_all add: start_failed_lock start_done_lock await_lock split: option.split)
next
  case (AwaitDisconnect who)
  then show ?thesis using assms
    by (simp add: stop_lock_ok stop_service_lock(1) [OF _ refl] stop_service_lock(2) split: if_splits)
next
  case (AwaitKill who k pid kindly)
  have "lock_ok (fst (stop_end who now s))" by (rule stop_end_lock) (use assms AwaitKill in auto)
  moreover have "lock_ok (fst (force_end who k s))"
    using assms AwaitKill by (intro stop_lock_ok force_end_lock(1) [OF _ refl] force_end_lock(2)) (simp_all split: if_splits)
  moreover have "lock_ok (fst (kill who k pid False s))"
    using assms AwaitKill by (intro stop_lock_ok kill_lock(1) [OF _ refl] kill_lock(2)) (simp_all split: if_splits)
  ultimately show ?thesis using AwaitKill by (cases ans) simp_all
next
  case (AwaitStopped who)
  have "lock_ok (fst (stop_end who now s))" by (rule stop_end_lock) (use assms AwaitStopped in auto)
  then show ?thesis using AwaitStopped by simp
next
  case Immediate
  then show ?thesis using assms(1) by (simp add: ensure_lock)
qed

lemma queue_write_keeps:
  "lock_ok s \<Longrightarrow> lock_ok (fst (queue_write org s w))"
  by (cases "tc_running s = STATE_STARTED") (auto simp: queue_write_def lock_ok_def lock_with_def awake_def split: if_splits)

lemma touch_step_lock: "lock_ok s \<Longrightarrow> lock_ok (fst (touch_step org s e))"
proof (cases e)
  case (CallTap p)
  assume "lock_ok s"
  then have "lock_ok (fst (run (queue_write org) s ws))" for ws
    by (induction ws arbitrary: s) (simp_all add: Let_def queue_write_keeps)
  then show ?thesis using CallTap by (simp only: tap_def touch_step.simps)
next
  case (Resume k ans now)
  assume "lock_ok s"
  then show ?thesis using Resume task_taken [of s k] by (simp add: resume_lock)
next
  case CallRestart
  assume "lock_ok s"
  then show ?thesis using CallRestart
    by (simp add: restart_def lock_ok_def stop_begin_lock [of 0] stop_begin_awake)
next
  case CallStart
  assume "lock_ok s"
  then have "lock_with 0 (desire STATE_STARTED s)" by (simp add: lock_ok_def lock_with_def desire_def)
  then show ?thesis using CallStart by (simp add: touch_start_def ensure_lock)
next
  case CallStop
  assume "lock_ok s"
  then have "lock_with 0 (desire STATE_STOPPED s)" by (simp add: lock_ok_def lock_with_def desire_def)
  then show ?thesis using CallStop by (simp add: touch_stop_def ensure_lock)
qed (simp_all add: queue_write_keeps stream_ended_lock)

interpretation touch_lock: invariant_machine "touch_step org" lock_ok for org
  by unfold_locales (rule touch_step_lock)

lemma touch_new_lock: "lock_ok touch_new"
  by (simp add: touch_new_def lock_ok_def lock_with_def awake_def)

text \<open>
  C19. The consumer never gets stuck: in every run, whatever is called, ends or fails and in
  whatever order, the lock is held exactly when one pending task of a start or a stop will release it;
  the service is starting or stopping only then, so the branch of \<open>_ensureState\<close> that just
  waits, with the lock taken, is never reached; and as long as some state is desired and the
  consumer has not given up, a task is pending that will look at it.
\<close>

theorem touch_lock_is_released:
  fixes es :: "touch_event list" and org :: origin
  defines "s \<equiv> fst (run (touch_step org) touch_new es)"
  shows "length (filter holder (tc_tasks s)) = (if tc_lock s then 1 else 0) \<and>
    (tc_running s \<in> {STATE_STARTING, STATE_STOPPING} \<longrightarrow> tc_lock s) \<and>
    (tc_desired s \<noteq> [] \<and> \<not> tc_failed s \<longrightarrow> tc_lock s \<or> Immediate \<in> set (tc_tasks s))"
  using touch_lock.always_run [OF touch_new_lock, of org es] unfolding s_def lock_ok_def lock_with_def awake_def by simp

section \<open>Touches are written in order\<close>

text \<open>\<open>quiet s r\<close>: an operation that leaves the queue of writers alone and writes nothing.\<close>

fun line_out :: "touch_out \<Rightarrow> string list" where
  "line_out (SocketWrite k l) = [l]"
| "line_out _ = []"

definition touch_lines :: "touch_out list \<Rightarrow> string list" where
  "touch_lines outs = concat (map line_out outs)"

lemma touch_lines_simps [simp]:
  "touch_lines [] = []" "touch_lines (x # xs) = line_out x @ touch_lines xs" "touch_lines (xs @ ys) = touch_lines xs @ touch_lines ys"
  by (simp_all add: touch_lines_def)

definition silent :: "touch \<Rightarrow> touch \<times> touch_out list \<Rightarrow> bool" where
  "silent s r \<longleftrightarrow> tc_writes (fst r) = tc_writes s \<and> (tc_running (fst r) = STATE_STARTED \<longrightarrow> tc_running s = STATE_STARTED) \<and>
     touch_lines (snd r) = [] \<and> NullBanner \<notin> set (snd r)"

lemma silent_then:
  "silent s r \<Longrightarrow> silent (fst r) q \<Longrightarrow> silent s (fst q, snd r @ snd q)"
  by (auto simp: silent_def)

lemma silent_stop_begin: "silent s (stop_begin who s)"
  by (auto simp: silent_def stop_begin_def await_def expect_end_def split: option.splits)

lemma silent_kill: "silent s (kill who k pid kindly s)" "silent s (force_end who k s)" "silent s (stop_service who s)"
  by (auto simp: silent_def stop_service_def kill_def force_end_def await_def expect_end_def split: option.splits)

lemma silent_ensure: "silent s (ensure_state s)"
  using silent_stop_begin [of "s\<lparr>tc_lock := True, tc_desired := snd (stq_next (tc_desired s)), tc_running := STATE_STOPPING\<rparr>" AfterStopState]
  by (auto simp: silent_def ensure_state_def start_state_def stop_state_def take_desired_def await_def Let_def split: run_state.splits)

lemma silent_other:
  "tc_writes t = tc_writes s \<Longrightarrow> (tc_running t = STATE_STARTED \<Longrightarrow> tc_running s = STATE_STARTED) \<Longrightarrow> silent t r \<Longrightarrow> silent s r"
  by (auto simp: silent_def)

lemma silent_release: "silent s (release s)"
  unfolding release_def by (rule silent_other [OF _ _ silent_ensure]) simp_all

lemma silent_count: "silent s (count_failure now s)"
  using silent_stop_begin [of "s\<lparr>tc_failures := fst (fail_inc 3 10000 (tc_failures s) now)\<rparr>" AfterLimit]
  by (auto simp: silent_def count_failure_def Let_def split: prod.splits)

lemma silent_restart: "silent s (restart s)"
  using silent_stop_begin [of s AfterRestart] by (simp add: restart_def silent_def)

lemma silent_stream: "silent s (stream_ended k now s)"
proof -
  let ?s = "s\<lparr>tc_ended := (tc_ended s)(k := True)\<rparr>"
  have "silent ?s (let a = count_failure now ?s; b = restart (fst a) in (fst b, snd a @ snd b))"
    unfolding Let_def by (rule silent_then [OF silent_count silent_restart])
  then show ?thesis by (simp add: stream_ended_def Let_def silent_def)
qed

lemma silent_stop_end: "silent s (stop_end who now s)"
proof -
  have "silent (stopped s) (after_stopping who now (stopped s))"
  proof (cases who)
    case (AfterFailure msg)
    have "silent (stopped s) (fst (count_failure now (stopped s)), snd (count_failure now (stopped s)) @ [EmitTouchError msg])"
      using silent_count [of "stopped s" now] by (simp add: silent_def)
    from silent_then [OF this, of "release (fst (count_failure now (stopped s)))"]
    show ?thesis using AfterFailure by (simp add: Let_def silent_release)
  next
    case AfterRestart
    have "silent (stopped s) (ensure_state (desire STATE_STARTED (desire STATE_STOPPED (stopped s))))"
      by (rule silent_other [OF _ _ silent_ensure]) (simp_all add: desire_def)
    then show ?thesis using AfterRestart by simp
  qed (simp_all add: silent_release, simp add: silent_def)
  then show ?thesis by (simp add: stop_end_def Let_def silent_def stopped_def)
qed

lemma silent_resume:
  assumes "\<And>stage b b1 line. t = AwaitLine stage b \<Longrightarrow> ans = Line line \<Longrightarrow> read_banner_line stage b line = Some b1 \<Longrightarrow> stage < 2"
  shows "silent s (resume_task org t ans now s)"
proof -
  have f: "silent s (start_failed msg s)" for msg by (simp add: start_failed_def silent_stop_begin)
  show ?thesis
  proof (cases t)
    case (AwaitLine stage b)
    then show ?thesis using f assms by (cases ans) (auto simp: silent_def await_def split: option.split)
  next
    case (AwaitKill who k pid kindly)
    then show ?thesis by (cases ans) (simp_all add: silent_stop_end silent_kill)
  qed (use f in \<open>cases ans; simp add: silent_kill silent_stop_end silent_ensure; simp add: silent_def await_def\<close>)+
qed

text \<open>
  \<open>moves org s r c\<close>: the writers queued before and those called for now (\<open>c\<close>) are, in this order, the ones
  that were written, each with the banner of the moment, and the ones that are queued afterwards.
\<close>

definition written_as :: "origin \<Rightarrow> writer \<Rightarrow> string \<Rightarrow> bool" where
  "written_as org w l \<longleftrightarrow> (\<exists>b. l = line_of_writer org b w)"

definition moves :: "origin \<Rightarrow> touch \<Rightarrow> touch \<times> touch_out list \<Rightarrow> writer list \<Rightarrow> bool" where
  "moves org s r c \<longleftrightarrow> (\<exists>ws. list_all2 (written_as org) ws (touch_lines (snd r)) \<and> tc_writes s @ c = ws @ tc_writes (fst r)) \<and>
     NullBanner \<notin> set (snd r) \<and> (tc_running (fst r) = STATE_STARTED \<longrightarrow> tc_writes (fst r) = [])"

definition flow_ok :: "touch \<Rightarrow> bool" where
  "flow_ok s \<longleftrightarrow> lock_ok s \<and> (tc_running s = STATE_STARTED \<longrightarrow> tc_writes s = [])"

lemma silent_moves: "silent s r \<Longrightarrow> (tc_running s = STATE_STARTED \<longrightarrow> tc_writes s = []) \<Longrightarrow> moves org s r []"
  by (auto simp: silent_def moves_def)

lemma moves_then:
  "moves org s r c \<Longrightarrow> moves org (fst r) q d \<Longrightarrow> moves org s (fst q, snd r @ snd q) (c @ d)"
proof -
  assume a: "moves org s r c" and b: "moves org (fst r) q d"
  obtain ws where ws: "list_all2 (written_as org) ws (touch_lines (snd r))" "tc_writes s @ c = ws @ tc_writes (fst r)"
    using a by (auto simp: moves_def)
  obtain vs where vs: "list_all2 (written_as org) vs (touch_lines (snd q))" "tc_writes (fst r) @ d = vs @ tc_writes (fst q)"
    using b by (auto simp: moves_def)
  have "list_all2 (written_as org) (ws @ vs) (touch_lines (snd r @ snd q))" using ws(1) vs(1) by (simp add: list_all2_appendI)
  moreover have "tc_writes s @ c @ d = (ws @ vs) @ tc_writes (fst q)" using ws(2) vs(2) by (metis append_assoc)
  ultimately show ?thesis using a b unfolding moves_def by auto
qed

lemma written_now:
  assumes "tc_banner s \<noteq> None" and "tc_socket s \<noteq> None"
  shows "list_all2 (written_as org) ws (touch_lines (concat (map (write_now org s) ws)))" and "NullBanner \<notin> set (concat (map (write_now org s) ws))"
  using assms by (induction ws) (auto simp: write_now_def written_as_def)

lemma queue_write_moves: "flow_ok s \<Longrightarrow> moves org s (queue_write org s w) [w] \<and> flow_ok (fst (queue_write org s w))"
proof -
  assume s: "flow_ok s"
  show ?thesis
  proof (cases "tc_running s = STATE_STARTED")
    case True
    then have "tc_banner s \<noteq> None" "tc_socket s \<noteq> None" "tc_writes s = []"
      using s by (simp_all add: flow_ok_def lock_ok_def lock_with_def)
    then show ?thesis using s True written_now [of s org "[w]"] by (auto simp: moves_def queue_write_def)
  next
    case False
    have "lock_ok (fst (queue_write org s w))" using s by (simp add: flow_ok_def queue_write_keeps)
    moreover have "moves org s (queue_write org s w) [w]" using False by (auto simp: moves_def queue_write_def)
    ultimately show ?thesis using False by (simp add: flow_ok_def queue_write_def)
  qed
qed

lemma writes_moves: "flow_ok s \<Longrightarrow> moves org s (run (queue_write org) s ws) ws"
proof (induction ws arbitrary: s)
  case Nil
  then show ?case by (auto simp: moves_def flow_ok_def)
next
  case (Cons w ws)
  from queue_write_moves [OF Cons.prems, of org w] Cons.IH [of "fst (queue_write org s w)"]
  show ?case using moves_then [of org s "queue_write org s w" "[w]"] by (simp add: Let_def)
qed

lemma start_done_moves:
  assumes "tc_running s = STATE_STARTED \<longrightarrow> tc_writes s = []"
  shows "moves org s (start_done org b s) []"
proof (cases "tc_socket s")
  case None
  have "silent s (start_failed msg (s\<lparr>tc_banner := Some b\<rparr>))" for msg
    unfolding start_failed_def by (rule silent_other [OF _ _ silent_stop_begin]) simp_all
  then show ?thesis using None assms by (simp add: start_done_def Let_def silent_moves)
next
  case (Some k)
  let ?s = "s\<lparr>tc_banner := Some b\<rparr>" and ?t = "s\<lparr>tc_banner := Some b, tc_writes := [], tc_running := STATE_STARTED\<rparr>"
  have "moves org s (?t, concat (map (write_now org ?s) (tc_writes s)) @ [EmitStart]) []"
    using written_now [of ?s org "tc_writes s"] Some by (auto simp: moves_def)
  from moves_then [OF this, of "release ?t" "[]"]
  show ?thesis using Some silent_moves [OF silent_release, of ?t org]
    by (simp add: start_done_def process_writes_def Let_def)
qed

lemma resume_moves: "tc_running s = STATE_STARTED \<longrightarrow> tc_writes s = [] \<Longrightarrow> moves org s (resume_task org t ans now s) []"
proof (cases "\<exists>stage b b1 line. t = AwaitLine stage b \<and> ans = Line line \<and> read_banner_line stage b line = Some b1 \<and> \<not> stage < 2")
  case True
  assume "tc_running s = STATE_STARTED \<longrightarrow> tc_writes s = []"
  then show ?thesis using True by (auto simp: start_done_moves)
next
  case False
  assume "tc_running s = STATE_STARTED \<longrightarrow> tc_writes s = []"
  then show ?thesis using False by (intro silent_moves silent_resume) auto
qed

fun called :: "touch_event \<Rightarrow> writer list" where
  "called (CallWrite w) = [w]"
| "called (CallTap p) = [WDown p, WCommit, WUp (tp_contact p), WCommit]"
| "called _ = []"

lemma touch_step_moves: "flow_ok s \<Longrightarrow> moves org s (touch_step org s e) (called e)"
proof -
  assume s: "flow_ok s"
  then have f: "tc_running s = STATE_STARTED \<longrightarrow> tc_writes s = []" by (simp add: flow_ok_def)
  show ?thesis
  proof (cases e)
    case (CallWrite w)
    then show ?thesis using s by (simp add: queue_write_moves)
  next
    case (CallTap p)
    then show ?thesis using writes_moves [OF s] by (simp only: touch_step.simps called.simps tap_def)
  next
    case CallStart
    have "silent s (ensure_state (desire STATE_STARTED s))"
      by (rule silent_other [OF _ _ silent_ensure]) (simp_all add: desire_def)
    then show ?thesis using CallStart f by (simp add: touch_start_def silent_moves)
  next
    case CallStop
    have "silent s (ensure_state (desire STATE_STOPPED s))"
      by (rule silent_other [OF _ _ silent_ensure]) (simp_all add: desire_def)
    then show ?thesis using CallStop f by (simp add: touch_stop_def silent_moves)
  next
    case (Resume k ans now)
    have "moves org (s\<lparr>tc_tasks := remove_nth k (tc_tasks s)\<rparr>) (resume_task org (tc_tasks s ! k) ans now (s\<lparr>tc_tasks := remove_nth k (tc_tasks s)\<rparr>)) []"
      by (rule resume_moves) (use f in simp)
    then show ?thesis using Resume f by (auto simp: moves_def)
  next
    case CallRestart
    then show ?thesis using f by (simp add: silent_moves silent_restart)
  next
    case (StreamEnds k now)
    then show ?thesis using f by (simp add: silent_moves silent_stream)
  next
    case (ServiceLine line)
    then show ?thesis using f by (auto simp: moves_def)
  qed
qed

lemma flow_run: "flow_ok s \<Longrightarrow> moves org s (run (touch_step org) s es) (concat (map called es))"
proof (induction es arbitrary: s)
  case Nil
  then show ?case by (auto simp: moves_def flow_ok_def)
next
  case (Cons e es)
  have m: "moves org s (touch_step org s e) (called e)" using Cons.prems by (rule touch_step_moves)
  then have "flow_ok (fst (touch_step org s e))"
    using touch_step_lock [of s org e] Cons.prems by (simp add: flow_ok_def moves_def)
  from moves_then [OF m Cons.IH [OF this]] show ?case by (simp add: Let_def)
qed

text \<open>
  C4. No touch is lost, repeated or reordered: in every run, with the service starting, stopping,
  crashing and restarting at any time, the lines written to its sockets are those of the calls made, in the order of
  the calls, as far as they have been written; exactly the later calls wait in the queue; and no
  writer runs while there is no banner (which would be an exception).
\<close>

theorem touches_written_in_order:
  fixes es :: "touch_event list" and org :: origin
  shows "\<exists>ws. list_all2 (written_as org) ws (touch_lines (snd (run (touch_step org) touch_new es))) \<and>
      concat (map called es) = ws @ tc_writes (fst (run (touch_step org) touch_new es)) \<and>
      NullBanner \<notin> set (snd (run (touch_step org) touch_new es))"
proof -
  have "flow_ok touch_new" by (simp add: flow_ok_def touch_new_lock) (simp add: touch_new_def)
  from flow_run [OF this, of org es] show ?thesis unfolding moves_def touch_new_def by auto
qed

section \<open>Starting the service\<close>

lemma show_nat_digits: "list_all is_digit (show_nat n) \<and> show_nat n \<noteq> []"
proof (induction n rule: show_nat.induct)
  case (1 n)
  have "is_digit (char_of (48 + m))" if "m < 10" for m :: nat
    using that by (simp add: is_digit_def)
  then show ?case using 1 by (simp add: show_nat.simps [of n])
qed

lemma read_digits_append:
  "read_digits s = Some (int v) \<Longrightarrow> is_digit c \<Longrightarrow> read_digits (s @ [c]) = Some (int (10 * v + (of_char c - 48)))"
  by (auto simp: read_digits_def split: if_splits)

lemma read_show: "read_digits (show_nat n) = Some (int n)"
proof (induction n rule: show_nat.induct)
  case (1 n)
  have d: "is_digit (char_of (48 + m))" "(of_char (char_of (48 + m)) :: nat) = 48 + m" if "m < 10" for m :: nat
    using that by (simp_all add: is_digit_def)
  show ?case
  proof (cases "n < 10")
    case True
    then show ?thesis using d [OF True] by (simp add: show_nat.simps [of n] read_digits_def)
  next
    case False
    have m: "n mod 10 < 10" by simp
    have "read_digits (show_nat (n div 10) @ [char_of (48 + n mod 10)]) =
        Some (int (10 * (n div 10) + (of_char (char_of (48 + n mod 10) :: char) - 48)))"
      by (rule read_digits_append [OF 1 [OF False] d(1) [OF m]])
    then show ?thesis using False d(2) [OF m] by (simp add: show_nat.simps [of n])
  qed
qed

lemma digit_not: "is_digit c \<Longrightarrow> \<not> is_ws c \<and> c \<noteq> CHR ''-'' \<and> c \<noteq> CHR ''+'' \<and> c \<noteq> CHR '' ''"
  by (auto simp: is_digit_def is_ws_def)

lemma trim_digits: "list_all is_digit s \<Longrightarrow> trim s = s"
proof -
  assume d: "list_all is_digit s"
  have k: "dropWhile is_ws t = t" if "list_all is_digit t" for t
    using that digit_not by (cases t) auto
  have "list_all is_digit (rev s)" using d by (simp add: list_all_iff)
  then show ?thesis using k [OF d] k [of "rev s"] by (simp add: trim_def)
qed

lemma number_show: "to_number (Some (show_nat n)) = Some (int n)"
proof -
  have d: "list_all is_digit (show_nat n)" "show_nat n \<noteq> []" using show_nat_digits by auto
  then have "hd (show_nat n) \<noteq> CHR ''-''" "hd (show_nat n) \<noteq> CHR ''+''" using digit_not [of "hd (show_nat n)"] by (auto simp: list_all_iff)
  then have "to_number (Some (show_nat n)) = read_digits (show_nat n)"
    unfolding to_number_def option.case trim_digits [OF d(1)] Let_def by simp
  then show ?thesis by (simp add: read_show)
qed

fun join_spaces :: "string list \<Rightarrow> string" where
  "join_spaces [] = []"
| "join_spaces [w] = w"
| "join_spaces (w # ws) = w @ CHR '' '' # join_spaces ws"

lemma split_join:
  "ws \<noteq> [] \<Longrightarrow> list_all (\<lambda>w. CHR '' '' \<notin> set w) ws \<Longrightarrow> split_char CHR '' '' (join_spaces ws) = ws"
proof (induction ws rule: join_spaces.induct)
  case (2 w)
  then have "CHR '' '' \<notin> set w" by simp
  then show ?case by (induction w) auto
next
  case (3 w v vs)
  then have "CHR '' '' \<notin> set w" and s: "split_char CHR '' '' (join_spaces (v # vs)) = v # vs" by simp_all
  then show ?case by (induction w) (auto simp: s)
qed simp

lemma show_no_space: "CHR '' '' \<notin> set (show_nat n)"
  using show_nat_digits [of n] digit_not by (auto simp: list_all_iff)

text \<open>The banner as minitouch prints it.\<close>

definition banner_lines :: "nat \<Rightarrow> nat \<Rightarrow> nat \<Rightarrow> nat \<Rightarrow> nat \<Rightarrow> nat \<Rightarrow> string list" where
  "banner_lines v c x y p pid =
     [join_spaces [''v'', show_nat v], join_spaces [[CHR 0x5E], show_nat c, show_nat x, show_nat y, show_nat p],
      join_spaces [''$'', show_nat pid]]"

definition banner_of :: "nat \<Rightarrow> nat \<Rightarrow> nat \<Rightarrow> nat \<Rightarrow> nat \<Rightarrow> nat \<Rightarrow> banner" where
  "banner_of v c x y p pid = \<lparr>bn_pid = Some (int pid), bn_version = Some (int v), bn_contacts = Some (int c), bn_max_x = Some (int x),
     bn_max_y = Some (int y), bn_max_pressure = Some (int p)\<rparr>"

lemma banner_line_read:
  "ws \<noteq> [] \<Longrightarrow> list_all (\<lambda>w. CHR '' '' \<notin> set w) ws \<Longrightarrow> read_banner_line stage b (join_spaces ws) =
    (if stage = 0 then (if hd ws = ''v'' then Some (b\<lparr>bn_version := nth_arg 1 ws\<rparr>) else None)
     else if stage = 1 then
       (if hd ws = [CHR 0x5E] then Some (b\<lparr>bn_contacts := nth_arg 1 ws, bn_max_x := nth_arg 2 ws, bn_max_y := nth_arg 3 ws,
           bn_max_pressure := nth_arg 4 ws\<rparr>) else None)
     else (if hd ws = ''$'' then Some (b\<lparr>bn_pid := nth_arg 1 ws\<rparr>) else None))"
proof -
  assume "ws \<noteq> []" "list_all (\<lambda>w. CHR '' '' \<notin> set w) ws"
  then have "split_char CHR '' '' (join_spaces ws) = ws" by (rule split_join)
  then show ?thesis by (simp only: read_banner_line_def Let_def)
qed

lemma banner_read:
  "read_banner_line 0 b (banner_lines v c x y p pid ! 0) = Some (b\<lparr>bn_version := Some (int v)\<rparr>)"
  "read_banner_line (Suc 0) b (banner_lines v c x y p pid ! Suc 0) = Some (b\<lparr>bn_contacts := Some (int c), bn_max_x := Some (int x),
     bn_max_y := Some (int y), bn_max_pressure := Some (int p)\<rparr>)"
  "read_banner_line (Suc (Suc 0)) b (banner_lines v c x y p pid ! 2) = Some (b\<lparr>bn_pid := Some (int pid)\<rparr>)"
  unfolding banner_lines_def
  by (simp_all add: banner_line_read nth_arg_def number_show show_no_space del: join_spaces.simps)

lemma queued_writes:
  "tc_running s \<noteq> STATE_STARTED \<Longrightarrow> run (touch_step org) s (map CallWrite ws) = (s\<lparr>tc_writes := tc_writes s @ ws\<rparr>, [])"
  by (induction ws arbitrary: s) (simp_all add: queue_write_def)

text \<open>
  A start ends, and the touches made before it are not lost: when the service and its socket come up
  and the banner is read, the consumer is started with the limits that the banner states, the lock is free,
  and the lines of all touches called before are written, in order and with those limits.
\<close>

theorem start_writes_what_waits:
  assumes "l = banner_lines v c x y p pid"
  shows "let r = run (touch_step org) touch_new (map CallWrite ws @ [CallStart, Resume 0 Okay t, Resume 0 Okay t] @
        map (\<lambda>k. Resume 0 (Line (l ! k)) t) [0, 1, 2])
    in tc_running (fst r) = STATE_STARTED \<and> \<not> tc_lock (fst r) \<and> tc_writes (fst r) = [] \<and>
      tc_banner (fst r) = Some (banner_of v c x y p pid) \<and>
      touch_lines (snd r) = map (line_of_writer org (banner_of v c x y p pid)) ws"
proof -
  let ?b = "banner_of v c x y p pid"
  let ?s = "touch_new\<lparr>tc_writes := ws\<rparr>"
  have flush: "touch_lines (concat (map (write_now org u) ws)) = map (line_of_writer org ?b) ws"
    if "tc_banner u = Some ?b" "tc_socket u = Some k" for u k
    using that by (induction ws) (simp_all add: write_now_def)
  have q: "run (touch_step org) touch_new (map CallWrite ws) = (?s, [])" by (simp add: queued_writes touch_new_def)
  have b: "empty_banner\<lparr>bn_version := Some (int v), bn_contacts := Some (int c), bn_max_x := Some (int x), bn_max_y := Some (int y),
      bn_max_pressure := Some (int p), bn_pid := Some (int pid)\<rparr> = ?b" by (simp add: empty_banner_def banner_of_def)
  show ?thesis
    unfolding run_append q Let_def
    by (simp add: assms touch_new_def touch_start_def desire_def ensure_state_def start_state_def take_desired_def stq_next_def await_def
        remove_nth_def banner_read start_done_def process_writes_def release_def b flush)
qed

section \<open>Connecting to the service\<close>

definition refused :: "millis \<Rightarrow> touch_event list" where
  "refused t = [Resume 0 (Failed ''closed'') t, Resume 0 Okay t]"

lemma closed_included: "str_includes ''closed'' ''closed''"
  by (simp add: str_includes_iff) (metis append_Nil append_Nil2)

lemma refused_attempts:
  "tc_tasks s = [AwaitSocket (Suc n) d] \<Longrightarrow>
   run (touch_step org) s (concat (replicate n (refused t))) =
     (s\<lparr>tc_tasks := [AwaitSocket 1 (d * 2 ^ n)]\<rparr>, concat (map (\<lambda>i. [Sleep (d * 2 ^ i), OpenLocal]) [0..<n]))"
proof (induction n arbitrary: s d)
  case (Suc n)
  have "run (touch_step org) s (refused t) = (s\<lparr>tc_tasks := [AwaitSocket (Suc n) (d * 2)]\<rparr>, [Sleep d, OpenLocal])"
    using Suc.prems by (simp add: refused_def remove_nth_def await_def closed_included)
  moreover have "[0..<Suc n] = 0 # map Suc [0..<n]" by (simp add: map_Suc_upt upt_conv_Cons del: upt_Suc)
  ultimately show ?case using Suc.IH [of "s\<lparr>tc_tasks := [AwaitSocket (Suc n) (d * 2)]\<rparr>" "d * 2"]
    by (simp add: run_append Let_def o_def ac_simps del: upt_Suc)
qed simp

fun slept :: "touch_out \<Rightarrow> millis" where
  "slept (Sleep d) = d"
| "slept _ = 0"

text \<open>
  C34. Connecting ends: when every attempt to open the socket of the service is refused, the
  consumer makes seven of them and sleeps 6300 ms in all; the seventh refusal is the last: it ends the start,
  whose failure is handled by stopping the service, and no task to connect is left.
\<close>

theorem connecting_is_bounded:
  assumes "tc_tasks s = [AwaitRun]"
  shows "let r = run (touch_step org) s (Resume 0 Okay t # concat (replicate 6 (refused t)) @ [Resume 0 (Failed ''closed'') t]) in
    length (filter (\<lambda>x. x = OpenLocal) (snd r)) = 7 \<and> sum_list (map slept (snd r)) = 6300 \<and>
    tc_tasks (fst r) = [AwaitDisconnect (AfterFailure ''closed'')]"
proof -
  let ?u = "s\<lparr>tc_tasks := [AwaitSocket (Suc 6) 100], tc_output := Some (tc_opened s), tc_opened := Suc (tc_opened s), tc_split := True\<rparr>"
  have step: "touch_step org s (Resume 0 Okay t) = (?u, [OpenLocal])" using assms by (simp add: remove_nth_def await_def)
  have "run (touch_step org) ?u (concat (replicate 6 (refused t))) =
      (?u\<lparr>tc_tasks := [AwaitSocket 1 6400]\<rparr>, concat (map (\<lambda>i. [Sleep (100 * 2 ^ i), OpenLocal]) [0..<6]))"
    using refused_attempts [of ?u 6 100 org t] by (simp del: upt_Suc)
  moreover have "[0..<6] = [0, 1, 2, 3, 4, 5]" by (simp add: upt_rec)
  moreover have "touch_step org (?u\<lparr>tc_tasks := [AwaitSocket 1 6400]\<rparr>) (Resume 0 (Failed ''closed'') t) =
      stop_begin (AfterFailure ''closed'') (?u\<lparr>tc_tasks := []\<rparr>)"
    by (simp add: remove_nth_def start_failed_def)
  ultimately show ?thesis unfolding run.simps step run_append Let_def
    by (simp add: stop_begin_def await_def expect_end_def split: option.split)
qed

section \<open>Giving up\<close>

definition given_up :: "touch \<times> touch_out list \<Rightarrow> bool" where
  "given_up r \<longleftrightarrow> tc_failed (fst r) \<and> RunService \<notin> set (snd r)"

lemma given_up_then: "given_up r \<Longrightarrow> given_up q \<Longrightarrow> given_up (fst q, snd r @ xs @ snd q)" if "RunService \<notin> set xs"
  using that by (simp add: given_up_def)

lemma failed_stays:
  assumes "tc_failed s"
  shows "given_up (ensure_state s)" "given_up (stop_begin who s)" "given_up (kill who k pid kindly s)" "given_up (force_end who k s)"
    "given_up (stop_service who s)" "given_up (count_failure now s)" "given_up (release s)" "given_up (restart s)"
  using assms
  by (auto simp: given_up_def ensure_state_def stop_begin_def kill_def force_end_def stop_service_def count_failure_def release_def
      restart_def await_def expect_end_def Let_def split: option.splits prod.splits)

lemma failed_fst: "given_up r \<Longrightarrow> tc_failed (fst r)"
  by (simp add: given_up_def)

lemma failed_stop_end: "tc_failed s \<Longrightarrow> given_up (stop_end who now s)"
proof -
  assume f: "tc_failed s"
  then have s: "tc_failed (stopped s)" "tc_failed (desire STATE_STARTED (desire STATE_STOPPED (stopped s)))"
    by (simp_all add: stopped_def desire_def)
  have "given_up (after_stopping who now (stopped s))"
  proof (cases who)
    case (AfterFailure msg)
    then show ?thesis
      using given_up_then [OF _ failed_stays(6) [OF s(1)] failed_stays(7) [OF failed_fst [OF failed_stays(6) [OF s(1)]]], of "[EmitTouchError msg]" now now]
      by (simp add: Let_def)
  next
    case AfterLimit
    then show ?thesis using s(1) by (simp add: given_up_def)
  qed (simp_all add: failed_stays s)
  then show ?thesis by (simp add: stop_end_def Let_def given_up_def)
qed

lemma failed_resume: "tc_failed s \<Longrightarrow> given_up (resume_task org t ans now s)"
proof -
  assume f: "tc_failed s"
  have g: "given_up (start_failed msg u)" if "tc_failed u" for msg u using that by (simp add: start_failed_def failed_stays)
  have d: "given_up (start_done org b s)" for b
  proof (cases "tc_socket s")
    case None
    then show ?thesis using f g [of "s\<lparr>tc_banner := Some b\<rparr>"] by (simp add: start_done_def Let_def)
  next
    case (Some k)
    have "given_up (release (s\<lparr>tc_banner := Some b, tc_writes := [], tc_running := STATE_STARTED\<rparr>))" using f by (simp add: failed_stays)
    moreover have "RunService \<notin> set (concat (map (write_now org (s\<lparr>tc_banner := Some b\<rparr>)) ws))" for ws
      by (induction ws) (simp_all add: write_now_def Some)
    ultimately show ?thesis using Some by (simp add: start_done_def process_writes_def Let_def given_up_def)
  qed
  show ?thesis
    by (cases t; cases ans)
      (use f d in \<open>simp_all add: g failed_stays failed_stop_end split: option.split, simp_all add: given_up_def await_def\<close>)
qed

lemma failed_step: "tc_failed s \<Longrightarrow> given_up (touch_step org s e)"
proof -
  assume f: "tc_failed s"
  have w: "given_up (queue_write org u w)" if "tc_failed u" for u w
    using that by (auto simp: given_up_def queue_write_def write_now_def split: option.split)
  have "given_up (run (queue_write org) u ws)" if "tc_failed u" for u ws
    using that
  proof (induction ws arbitrary: u)
    case (Cons a ws)
    then show ?case using w [of u a] Cons.IH [of "fst (queue_write org u a)"] by (simp add: given_up_def Let_def)
  qed (simp add: given_up_def)
  then have t: "given_up (tap org s p)" for p using f by (simp only: tap_def)
  have "given_up (stream_ended k now s)" for k now
    using given_up_then [OF _ failed_stays(6) failed_stays(8) [OF failed_fst [OF failed_stays(6)]], of "[]" "s\<lparr>tc_ended := (tc_ended s)(k := True)\<rparr>" "s\<lparr>tc_ended := (tc_ended s)(k := True)\<rparr>" now now] f
    by (simp add: stream_ended_def Let_def given_up_def)
  then show ?thesis using f w t
    by (cases e) (simp_all add: failed_resume touch_start_def touch_stop_def desire_def failed_stays, simp_all add: given_up_def)
qed

text \<open>
  After too many failures the consumer gives up for good: the fourth unexpected end of a stream
  within ten seconds reports the error, and from then on nothing, not even a call of \<open>start\<close>, runs the
  service again.
\<close>

theorem touch_gives_up:
  assumes "tc_failures s = [a, b, c]" and "now - a < 10000"
    and "k < tc_opened s" and "\<not> tc_ended s k" and "\<not> tc_expected s k"
  shows "EmitTouchError LIMIT_MESSAGE \<in> set (snd (touch_step org s (StreamEnds k now))) \<and>
    RunService \<notin> set (snd (run (touch_step org) (fst (touch_step org s (StreamEnds k now))) es))"
proof -
  have fi: "fail_inc 3 10000 [a, b, c] now = ([a, b, c, now], True)"
    using assms(2) by (simp add: fail_inc_def Let_def)
  have keep: "tc_failed (fst (restart u)) = tc_failed u" for u by (simp add: restart_def stop_begin_keeps)
  have f: "tc_failed (fst (touch_step org s (StreamEnds k now)))"
    using assms by (simp add: stream_ended_def count_failure_def Let_def fi keep)
  have "RunService \<notin> set (snd (run (touch_step org) u es))" if "tc_failed u" for u
    using that
  proof (induction es arbitrary: u)
    case (Cons e es)
    then show ?case using failed_step [of u org e] by (auto simp: Let_def given_up_def)
  qed simp
  then show ?thesis using f assms by (simp add: stream_ended_def count_failure_def Let_def fi)
qed

section \<open>From VNC to the panel\<close>

text \<open>The calls of the VNC plugin; it gives no pressure and \<open>touchUp\<close> has no position.\<close>

fun vnc_writer :: "touch_call \<Rightarrow> writer" where
  "vnc_writer (TouchDown c x y) = WDown \<lparr>tp_contact = c, tp_x = x, tp_y = y, tp_pressure = None\<rparr>"
| "vnc_writer (TouchMove c x y) = WMove \<lparr>tp_contact = c, tp_x = x, tp_y = y, tp_pressure = None\<rparr>"
| "vnc_writer (TouchUp c) = WUp c"
| "vnc_writer TouchCommit = WCommit"

definition panel_line :: "char \<Rightarrow> nat \<Rightarrow> int \<Rightarrow> int \<Rightarrow> int \<Rightarrow> string" where
  "panel_line c k x y p = [c, CHR '' ''] @ show_nat k @ '' '' @ show_number (Some x) @ '' '' @ show_number (Some y) @ '' '' @
     show_number (Some p) @ [CHR 0x0A]"

definition on_panel :: "int \<Rightarrow> int \<Rightarrow> int \<Rightarrow> string \<Rightarrow> bool" where
  "on_panel mx my mp l \<longleftrightarrow> (\<exists>c k x y p. l = panel_line c k x y p \<and> 0 \<le> x \<and> x \<le> mx \<and> 0 \<le> y \<and> y \<le> my \<and> 0 \<le> p \<and> p \<le> mp)"

lemma scaled_bounds: "0 \<le> r \<Longrightarrow> r \<le> 1 \<Longrightarrow> 0 \<le> m \<Longrightarrow> \<exists>x. scaled (Some r) (Some m) = Some x \<and> 0 \<le> x \<and> x \<le> m"
proof -
  assume r: "0 \<le> r" "r \<le> 1" and m: "0 \<le> m"
  have "r * of_int m \<le> of_int m" using r m by (simp add: mult_left_le_one_le)
  then have "\<lceil>r * of_int m\<rceil> \<le> m" by (simp add: ceiling_le_iff)
  moreover have "0 \<le> r * of_int m" using r m by simp
  then have "0 \<le> \<lceil>r * of_int m\<rceil>" by (metis ceiling_mono ceiling_zero)
  ultimately show ?thesis by (simp add: scaled_def)
qed

lemma point_on_panel:
  assumes "tp_x p = Some rx" "tp_y p = Some ry" "0 \<le> rx" "rx \<le> 1" "0 \<le> ry" "ry \<le> 1" "tp_pressure p = None"
    and "bn_max_x b = Some mx" "bn_max_y b = Some my" "bn_max_pressure b = Some mp" "0 \<le> mx" "0 \<le> my" "0 \<le> mp"
  shows "on_panel mx my mp (point_line c org b p)"
proof -
  obtain ox oy where o: "origin_x org p = Some ox" "origin_y org p = Some oy" "0 \<le> ox" "ox \<le> 1" "0 \<le> oy" "oy \<le> 1"
    using assms(1-6) by (cases org) (auto simp: origin_x_def origin_y_def)
  obtain x where x: "scaled (Some ox) (Some mx) = Some x" "0 \<le> x" "x \<le> mx" using scaled_bounds [OF o(3,4) assms(11)] by blast
  obtain y where y: "scaled (Some oy) (Some my) = Some y" "0 \<le> y" "y \<le> my" using scaled_bounds [OF o(5,6) assms(12)] by blast
  obtain q where q: "scaled (Some (1 / 2)) (Some mp) = Some q" "0 \<le> q" "q \<le> mp" using scaled_bounds [of "1 / 2" mp] assms(13) by auto
  have "point_line c org b p = panel_line c (tp_contact p) x y q"
    using o x y q assms(7-10) by (simp add: point_line_def panel_line_def pressure_of_def)
  then show ?thesis using x y q unfolding on_panel_def by blast
qed

text \<open>
  C36. Touches from VNC stay on the panel: a pointer event at a position within the screen becomes
  calls whose lines for minitouch, in either orientation, have every coordinate and the pressure between zero and
  the limit that the banner states.
\<close>

theorem vnc_touches_stay_on_panel:
  assumes "px \<le> w" "py \<le> h" "0 < w" "0 < h"
    and "bn_max_x b = Some mx" "bn_max_y b = Some my" "bn_max_pressure b = Some mp" "0 \<le> mx" "0 \<le> my" "0 \<le> mp"
    and "call \<in> set (snd (push_pointer prev \<lparr>po_buttons = n, po_x = quotient px w, po_y = quotient py h\<rparr>))" and "places (vnc_writer call)"
  shows "on_panel mx my mp (line_of_writer org b (vnc_writer call))"
proof -
  have q: "quotient px w = Some (of_nat px / of_nat w)" "quotient py h = Some (of_nat py / of_nat h)" using assms(3,4) by (simp_all add: quotient_def)
  have r: "(0 :: rat) \<le> of_nat px / of_nat w" "of_nat px / of_nat w \<le> (1 :: rat)"
    "(0 :: rat) \<le> of_nat py / of_nat h" "of_nat py / of_nat h \<le> (1 :: rat)" using assms(1-4) by (simp_all add: divide_le_eq_1)
  have "call \<in> {TouchDown 1 (quotient px w) (quotient py h), TouchMove 1 (quotient px w) (quotient py h), TouchUp 1, TouchCommit}"
    using assms(11) by (auto simp: push_pointer_def split: option.splits if_splits)
  then consider "call = TouchDown 1 (quotient px w) (quotient py h)" | "call = TouchMove 1 (quotient px w) (quotient py h)"
    using assms(12) by auto
  then show ?thesis by cases (use r assms(5-10) in \<open>auto simp: q intro!: point_on_panel\<close>)
qed

section \<open>The plugin\<close>









section \<open>Witnesses\<close>

definition wit_banner :: banner where
  "wit_banner = banner_of 1 10 1079 1919 255 42"

definition wit_touch :: touch where
  "wit_touch = touch_new\<lparr>tc_running := STATE_STARTED, tc_banner := Some wit_banner, tc_socket := Some 1, tc_output := Some 0, tc_opened := 2,
     tc_failures := [1000, 2000, 3000]\<rparr>"

theorem touch_lock_is_released_witness:
  "length (filter holder (tc_tasks (fst (run (touch_step TopLeft) touch_new [CallStart])))) = 1 \<and>
    tc_running (fst (run (touch_step TopLeft) touch_new [CallStart])) = STATE_STARTING"
proof -
  have s: "tc_running (fst (run (touch_step TopLeft) touch_new [CallStart])) = STATE_STARTING"
    by (simp add: touch_start_def desire_def ensure_state_def touch_new_def start_state_def take_desired_def stq_next_def await_def)
  then show ?thesis using touch_lock_is_released [of TopLeft "[CallStart]"] by (simp del: run.simps)
qed

theorem start_writes_what_waits_witness:
  "touch_lines (snd (run (touch_step TopLeft) touch_new (map CallWrite [WUp 1, WCommit] @ [CallStart, Resume 0 Okay 0, Resume 0 Okay 0] @
      map (\<lambda>k. Resume 0 (Line (banner_lines 1 10 1079 1919 255 42 ! k)) 0) [0, 1, 2]))) =
    map (line_of_writer TopLeft (banner_of 1 10 1079 1919 255 42)) [WUp 1, WCommit]"
  using start_writes_what_waits [OF refl, of TopLeft "[WUp 1, WCommit]" 0 1 10 1079 1919 255 42] by (simp only: Let_def)

theorem connecting_is_bounded_witness:
  "\<exists>d. snd (touch_step TopLeft (touch_new\<lparr>tc_tasks := [AwaitRun]\<rparr>) (Resume 0 Okay 0)) = d \<and>
    tc_tasks (fst (run (touch_step TopLeft) (touch_new\<lparr>tc_tasks := [AwaitRun]\<rparr>)
      (Resume 0 Okay 0 # concat (replicate 6 (refused 0)) @ [Resume 0 (Failed ''closed'') 0]))) = [AwaitDisconnect (AfterFailure ''closed'')]"
  using connecting_is_bounded [of "touch_new\<lparr>tc_tasks := [AwaitRun]\<rparr>" TopLeft 0] by (simp add: Let_def del: run.simps)

theorem touch_gives_up_witness:
  "EmitTouchError LIMIT_MESSAGE \<in> set (snd (touch_step TopLeft wit_touch (StreamEnds 1 4000))) \<and>
    RunService \<notin> set (snd (run (touch_step TopLeft) (fst (touch_step TopLeft wit_touch (StreamEnds 1 4000))) [CallStart]))"
  by (rule touch_gives_up [of wit_touch 1000 2000 3000]) (simp_all add: wit_touch_def touch_new_def)

theorem vnc_touches_stay_on_panel_witness:
  "on_panel 1079 1919 255 (line_of_writer TopLeft wit_banner (vnc_writer (TouchDown 1 (quotient 300 600) (quotient 800 800))))"
  by (rule vnc_touches_stay_on_panel [of 300 600 800 800 wit_banner 1079 1919 255 _ None 1])
    (simp_all add: wit_banner_def banner_of_def push_pointer_def)


end
