(* ===== verification/Bookings.thy ===== *)
theory Bookings imports Prelude begin

text \<open>
  Groups of devices and their reservations: \<open>lib/util/apiutil.js\<close> (classes, windows, durations, permissions),
  \<open>lib/db/models/group/model.js\<close> and the quotas of \<open>lib/db/models/user/model.js\<close>. The collections of the
  database are a list of groups in their natural order, a map of users and a map of devices (the group that holds
  a device now, until when, and the one it comes from). A function of the model runs to its end here; that requests
  may interleave between its queries is taken up in \<open>Booking_Api\<close>. Identifiers are numbered. What the
  change handlers send is left out, but not what they report: a user is modified when its record changed.
\<close>

section \<open>Classes and windows\<close>

datatype group_class = BOOKABLE | STANDARD | ONCE | HOURLY | DAILY | WEEKLY | MONTHLY | QUATERLY | HALFYEARLY | YEARLY | DEBUG

datatype privilege = ROOT | ADMIN | USER

datatype group_status = PENDING | READY | WAITING

definition ONE_HOUR :: millis where "ONE_HOUR = 3600 * 1000"

definition ONE_DAY :: millis where "ONE_DAY = 24 * ONE_HOUR"

definition ONE_YEAR :: millis where "ONE_YEAR = 365 * ONE_DAY"

text \<open>\<open>None\<close> is \<open>Infinity\<close>.\<close>

fun CLASS_DURATION :: "group_class \<Rightarrow> millis option" where
  "CLASS_DURATION ONCE = None"
| "CLASS_DURATION BOOKABLE = None"
| "CLASS_DURATION STANDARD = None"
| "CLASS_DURATION HOURLY = Some ONE_HOUR"
| "CLASS_DURATION DAILY = Some ONE_DAY"
| "CLASS_DURATION WEEKLY = Some (7 * ONE_DAY)"
| "CLASS_DURATION MONTHLY = Some (30 * ONE_DAY)"
| "CLASS_DURATION QUATERLY = Some (3 * (30 * ONE_DAY))"
| "CLASS_DURATION HALFYEARLY = Some (6 * (30 * ONE_DAY))"
| "CLASS_DURATION YEARLY = Some ONE_YEAR"
| "CLASS_DURATION DEBUG = Some (300 * 1000)"

definition isOriginGroup :: "group_class \<Rightarrow> bool" where
  "isOriginGroup c \<longleftrightarrow> c = BOOKABLE \<or> c = STANDARD"

definition isAdminGroup :: "group_class \<Rightarrow> bool" where
  "isAdminGroup c \<longleftrightarrow> isOriginGroup c \<or> c = DEBUG"

record window =
  wn_start :: millis
  wn_stop :: millis

definition shift :: "millis \<Rightarrow> window \<Rightarrow> window" where
  "shift d w = \<lparr>wn_start = wn_start w + d, wn_stop = wn_stop w + d\<rparr>"

text \<open>
  The loop of \<open>computeGroupDates\<close>, from the repetition \<open>1\<close> to the one before \<open>repetitions\<close>. A class without a
  limit has no repetitions: the dates that the code would compute for them are not valid and are left out.
\<close>

fun repeat_window :: "nat \<Rightarrow> millis \<Rightarrow> window \<Rightarrow> window list" where
  "repeat_window 0 d w = []"
| "repeat_window (Suc n) d w = shift d w # repeat_window n d (shift d w)"

definition computeGroupDates :: "window \<Rightarrow> group_class \<Rightarrow> int \<Rightarrow> window list" where
  "computeGroupDates w c repetitions =
     w # (case CLASS_DURATION c of None \<Rightarrow> [] | Some d \<Rightarrow> repeat_window (nat (repetitions - 1)) d w)"

definition overlaps :: "window \<Rightarrow> window \<Rightarrow> bool" where
  "overlaps v w \<longleftrightarrow> wn_start v < wn_stop w \<and> wn_start w < wn_stop v"

section \<open>The database\<close>

type_synonym gid = nat

record booking =
  bk_id :: gid
  bk_name :: string
  bk_owner :: string
  bk_privilege :: privilege
  bk_class :: group_class
  bk_repetitions :: int
  bk_active :: bool
  bk_dates :: "window list"
  bk_duration :: int
  bk_state :: group_status
  bk_devices :: "serial list"
  bk_users :: "string list"
  bk_moderators :: "string list"

record user =
  us_privilege :: privilege
  us_number :: int
  us_max_number :: int
  us_duration :: int
  us_max_duration :: int
  us_repetitions :: int
  us_default_number :: int
  us_default_duration :: int
  us_default_repetitions :: int
  us_subscribed :: "gid list"
  us_lock :: bool

record device_group =
  dg_current :: gid
  dg_window :: window
  dg_origin :: gid

record db =
  db_groups :: "booking list"
  db_next :: gid
  db_users :: "(string, user) omap"
  db_devices :: "(serial, device_group) omap"

definition getGroup :: "gid \<Rightarrow> db \<Rightarrow> booking option" where
  "getGroup i s = List.find (\<lambda>g. bk_id g = i) (db_groups s)"

definition getRootGroup :: "db \<Rightarrow> booking option" where
  "getRootGroup s = List.find (\<lambda>g. bk_privilege g = ROOT) (db_groups s)"

definition getUserGroup :: "string \<Rightarrow> gid \<Rightarrow> db \<Rightarrow> booking option" where
  "getUserGroup email i s =
     List.find (\<lambda>g. bk_id g = i \<and> (email \<in> set (bk_users g) \<or> email \<in> set (bk_moderators g) \<or> bk_owner g = email)) (db_groups s)"

definition getTransientGroups :: "db \<Rightarrow> booking list" where
  "getTransientGroups s = filter (\<lambda>g. \<not> isOriginGroup (bk_class g)) (db_groups s)"

definition getDeviceTransientGroups :: "serial \<Rightarrow> db \<Rightarrow> booking list" where
  "getDeviceTransientGroups i s = filter (\<lambda>g. i \<in> set (bk_devices g)) (getTransientGroups s)"

definition isDeviceBooked :: "serial \<Rightarrow> db \<Rightarrow> bool" where
  "isDeviceBooked i s \<longleftrightarrow> getDeviceTransientGroups i s \<noteq> []"

definition update_group :: "gid \<Rightarrow> (booking \<Rightarrow> booking) \<Rightarrow> db \<Rightarrow> db" where
  "update_group i f s = s\<lparr>db_groups := map (\<lambda>g. if bk_id g = i then f g else g) (db_groups s)\<rparr>"

definition update_user :: "string \<Rightarrow> (user \<Rightarrow> user) \<Rightarrow> db \<Rightarrow> bool \<times> db" where
  "update_user email f s =
     (case om_get (db_users s) email of
        None \<Rightarrow> (False, s)
      | Some u \<Rightarrow> (f u \<noteq> u, s\<lparr>db_users := om_set email (f u) (db_users s)\<rparr>))"

section \<open>The users of a group\<close>

definition add_to_set :: "'a \<Rightarrow> 'a list \<Rightarrow> 'a list" where
  "add_to_set x xs = (if x \<in> set xs then xs else xs @ [x])"

text \<open>\<open>False\<close> is \<open>unchanged\<close>.\<close>

definition addGroupUser :: "gid \<Rightarrow> string \<Rightarrow> db \<Rightarrow> bool \<times> db" where
  "addGroupUser i email s =
     (let r = update_user email (\<lambda>u. u\<lparr>us_subscribed := add_to_set i (us_subscribed u)\<rparr>) s
      in (getGroup i s = None \<or> fst r, update_group i (\<lambda>g. g\<lparr>bk_users := add_to_set email (bk_users g)\<rparr>) (snd r)))"

definition unsubscribe :: "gid \<Rightarrow> string \<Rightarrow> db \<Rightarrow> db" where
  "unsubscribe i email s = snd (update_user email (\<lambda>u. u\<lparr>us_subscribed := filter (\<lambda>j. j \<noteq> i) (us_subscribed u)\<rparr>) s)"

section \<open>Quotas\<close>

definition reserveUserGroupInstance :: "string \<Rightarrow> db \<Rightarrow> bool \<times> db" where
  "reserveUserGroupInstance email s = update_user email (\<lambda>u. u\<lparr>us_number := min (us_number u + 1) (us_max_number u)\<rparr>) s"

definition releaseUserGroupInstance :: "string \<Rightarrow> db \<Rightarrow> db" where
  "releaseUserGroupInstance email s = snd (update_user email (\<lambda>u. u\<lparr>us_number := max (us_number u - 1) 0\<rparr>) s)"

definition charge :: "int \<Rightarrow> int \<Rightarrow> user \<Rightarrow> user" where
  "charge old new u =
     (if us_duration u + new - old \<le> us_max_duration u then u\<lparr>us_duration := us_duration u + new - old\<rparr> else u)"

text \<open>\<open>modifiedCount\<close>, \<open>matchedCount\<close> and the database.\<close>

definition updateUserGroupDuration :: "string \<Rightarrow> int \<Rightarrow> int \<Rightarrow> db \<Rightarrow> bool \<times> bool \<times> db" where
  "updateUserGroupDuration email old new s =
     (let r = update_user email (charge old new) s in (fst r, om_has (db_users s) email, snd r))"

definition updateUserGroupsQuotas :: "string \<Rightarrow> int \<Rightarrow> int \<Rightarrow> int \<Rightarrow> db \<Rightarrow> bool \<times> db" where
  "updateUserGroupsQuotas email duration number repetitions s =
     update_user email (\<lambda>u. u\<lparr>
       us_max_duration := (if duration \<noteq> 0 \<and> us_duration u \<le> duration \<and> (number = 0 \<or> us_number u \<le> number) then duration else us_max_duration u),
       us_max_number := (if number \<noteq> 0 \<and> us_number u \<le> number \<and> (duration = 0 \<or> us_duration u \<le> duration) then number else us_max_number u),
       us_repetitions := (if repetitions = 0 then us_repetitions u else repetitions)\<rparr>) s"

section \<open>The devices of a group\<close>

definition first_window :: "booking \<Rightarrow> window" where
  "first_window g = (case bk_dates g of w # _ \<Rightarrow> w | [] \<Rightarrow> \<lparr>wn_start = 0, wn_stop = 0\<rparr>)"

definition hold_device :: "booking \<Rightarrow> serial \<Rightarrow> db \<Rightarrow> db" where
  "hold_device g i s =
     (case om_get (db_devices s) i of
        None \<Rightarrow> s
      | Some d \<Rightarrow> s\<lparr>db_devices := om_set i (d\<lparr>dg_current := bk_id g, dg_window := first_window g\<rparr>) (db_devices s)\<rparr>)"

definition updateDevicesCurrentGroup :: "serial list \<Rightarrow> booking \<Rightarrow> db \<Rightarrow> db" where
  "updateDevicesCurrentGroup is g s = fold (hold_device g) is s"

text \<open>Each device goes back to the group it comes from, or else to the root group.\<close>

definition return_device :: "serial \<Rightarrow> db \<Rightarrow> db" where
  "return_device i s =
     (case om_get (db_devices s) i of
        None \<Rightarrow> s
      | Some d \<Rightarrow>
          (case getGroup (dg_origin d) s of
             Some g \<Rightarrow> hold_device g i s
           | None \<Rightarrow> (case getRootGroup s of Some g \<Rightarrow> hold_device g i s | None \<Rightarrow> s)))"

definition updateDevicesCurrentGroupFromOrigin :: "serial list \<Rightarrow> db \<Rightarrow> db" where
  "updateDevicesCurrentGroupFromOrigin is s = fold return_device is s"

definition root_device :: "booking \<Rightarrow> serial \<Rightarrow> db \<Rightarrow> db" where
  "root_device g i s =
     (case om_get (db_devices s) i of
        None \<Rightarrow> s
      | Some d \<Rightarrow> s\<lparr>db_devices := om_set i \<lparr>dg_current = bk_id g, dg_window = first_window g, dg_origin = bk_id g\<rparr> (db_devices s)\<rparr>)"

definition returnDevicesToRoot :: "serial list \<Rightarrow> db \<Rightarrow> db" where
  "returnDevicesToRoot is s = (case getRootGroup s of None \<Rightarrow> s | Some g \<Rightarrow> fold (root_device g) is s)"

section \<open>Operations on groups\<close>

definition checkDatesOverlaps :: "window list \<Rightarrow> booking list \<Rightarrow> booking option" where
  "checkDatesOverlaps dates gs = List.find (\<lambda>g. \<exists>t \<in> set dates. \<exists>c \<in> set (bk_dates g). overlaps t c) gs"

definition computeDuration :: "booking \<Rightarrow> int \<Rightarrow> int" where
  "computeDuration g deviceNumber =
     (int (length (bk_devices g)) + deviceNumber) * (wn_stop (first_window g) - wn_start (first_window g)) * (bk_repetitions g + 1)"

definition union_list :: "'a list \<Rightarrow> 'a list \<Rightarrow> 'a list" where
  "union_list xs ys = rev (foldl (\<lambda>zs x. if x \<in> set zs then zs else x # zs) [] (xs @ ys))"

definition difference :: "'a list \<Rightarrow> 'a list \<Rightarrow> 'a list" where
  "difference xs ys = filter (\<lambda>x. x \<notin> set ys) xs"

text \<open>
  \<open>addGroupDevices\<close> in its three parts: the quota is charged, the other reservations of the devices are looked up, and the
  group is written. The exceptions are \<open>''quota is reached''\<close> and \<open>''dates overlap''\<close>.
\<close>

definition charge_devices :: "booking \<Rightarrow> serial list \<Rightarrow> db \<Rightarrow> bool \<times> db" where
  "charge_devices g is s =
     (let r = updateUserGroupDuration (bk_owner g) (bk_duration g) (computeDuration g (int (length is))) s in (fst r, snd (snd r)))"

definition devices_busy :: "booking \<Rightarrow> serial list \<Rightarrow> db \<Rightarrow> bool" where
  "devices_busy g is s \<longleftrightarrow>
     checkDatesOverlaps (bk_dates g) (filter (\<lambda>h. set (bk_devices h) \<inter> set is \<noteq> {}) (getTransientGroups s)) \<noteq> None"

definition commit_devices :: "booking \<Rightarrow> serial list \<Rightarrow> db \<Rightarrow> db" where
  "commit_devices g is s =
     update_group (bk_id g) (\<lambda>h. h\<lparr>bk_duration := computeDuration g (int (length is)), bk_devices := union_list (bk_devices g) is\<rparr>) s"

definition addGroupDevices :: "booking \<Rightarrow> serial list \<Rightarrow> db \<Rightarrow> string option \<times> db" where
  "addGroupDevices g is s =
     (if is = [] then (None, s)
      else (let c = charge_devices g is s in
        if \<not> fst c then (Some ''quota is reached'', snd c)
        else if devices_busy g is (snd c) then (Some ''dates overlap'', snd c)
        else (None, commit_devices g is (snd c))))"

definition removeGroupDevices :: "booking \<Rightarrow> serial list \<Rightarrow> db \<Rightarrow> db" where
  "removeGroupDevices g is s =
     (let duration = computeDuration g (- int (length is));
          r = updateUserGroupDuration (bk_owner g) (bk_duration g) duration s
      in update_group (bk_id g) (\<lambda>h. h\<lparr>bk_duration := duration, bk_devices := difference (bk_devices g) is\<rparr>) (snd (snd r)))"

text \<open>\<open>createGroup\<close>; the owner and the owner of the root group become its users.\<close>

definition createGroup :: "booking \<Rightarrow> db \<Rightarrow> booking \<times> db" where
  "createGroup g s =
     (let h = g\<lparr>bk_id := db_next s, bk_devices := [], bk_users := union_list (bk_users g) [bk_owner g]\<rparr>
      in (h, s\<lparr>db_groups := db_groups s @ [h], db_next := Suc (db_next s)\<rparr>))"

text \<open>\<open>Inl\<close> is an exception, \<open>Inr None\<close> the refusal because of the quota.\<close>

definition createUserGroup :: "booking \<Rightarrow> db \<Rightarrow> (string + booking option) \<times> db" where
  "createUserGroup g s =
     (let r = reserveUserGroupInstance (bk_owner g) s in
      if \<not> fst r then (Inr None, snd r)
      else (case getRootGroup (snd r) of
          None \<Rightarrow> (Inl ''Root group not found'', snd r)
        | Some root \<Rightarrow>
            (let c = createGroup (g\<lparr>bk_users := [bk_owner root]\<rparr>) (snd r); i = bk_id (fst c);
                 t = snd (addGroupUser i (bk_owner root) (snd (addGroupUser i (bk_owner g) (snd c))))
             in (Inr (getGroup i t), t))))"

definition updateGroupName :: "gid \<Rightarrow> string \<Rightarrow> db \<Rightarrow> db" where
  "updateGroupName i name s = update_group i (\<lambda>g. g\<lparr>bk_name := name\<rparr>) s"

record group_data =
  gd_name :: string
  gd_state :: group_status
  gd_class :: group_class
  gd_active :: bool
  gd_repetitions :: int
  gd_dates :: "window list"
  gd_duration :: int

definition set_data :: "group_data \<Rightarrow> booking \<Rightarrow> booking" where
  "set_data d g = g\<lparr>bk_name := gd_name d, bk_state := gd_state d, bk_class := gd_class d, bk_active := gd_active d,
     bk_repetitions := gd_repetitions d, bk_dates := gd_dates d, bk_duration := gd_duration d\<rparr>"

text \<open>
  \<open>updateUserGroup\<close>; \<open>False\<close> is the refusal. The handlers move the devices when the group becomes active or its dates
  change (of a group that devices come from, only the devices it holds).
\<close>

definition held_by :: "booking \<Rightarrow> db \<Rightarrow> serial \<Rightarrow> bool" where
  "held_by g s i \<longleftrightarrow>
     (isOriginGroup (bk_class g) \<longrightarrow> (case om_get (db_devices s) i of None \<Rightarrow> False | Some d \<Rightarrow> dg_current d = bk_id g))"

definition updateUserGroup :: "booking \<Rightarrow> group_data \<Rightarrow> db \<Rightarrow> bool \<times> db" where
  "updateUserGroup g d s =
     (let r = updateUserGroupDuration (bk_owner g) (bk_duration g) (gd_duration d) s; s1 = snd (snd r) in
      if \<not> fst r \<and> \<not> fst (snd r) \<or> bk_duration g \<noteq> gd_duration d then (False, s1)
      else
        (let s2 = update_group (bk_id g) (set_data d) s1; h = set_data d g;
             changed = (length (bk_dates g) \<noteq> length (bk_dates h) \<or> first_window g \<noteq> first_window h);
             s3 = (if \<not> bk_active g \<and> bk_active h then updateDevicesCurrentGroup (bk_devices h) h s2 else s2);
             s4 = (if bk_active g \<and> \<not> bk_active h then updateDevicesCurrentGroupFromOrigin (bk_devices h) s3 else s3);
             s5 = (if changed \<and> bk_active h then updateDevicesCurrentGroup (filter (held_by h s4) (bk_devices h)) h s4 else s4)
         in (True, s5)))"

definition deleteUserGroup :: "gid \<Rightarrow> db \<Rightarrow> db" where
  "deleteUserGroup i s =
     (case getGroup i s of
        None \<Rightarrow> s
      | Some g \<Rightarrow>
          (if bk_privilege g = ROOT then s
           else
             (let s1 = s\<lparr>db_groups := filter (\<lambda>h. bk_id h \<noteq> i) (db_groups s)\<rparr>;
                  s2 = releaseUserGroupInstance (bk_owner g) (fold (unsubscribe i) (bk_users g) s1);
                  s3 = snd (snd (updateUserGroupDuration (bk_owner g) (bk_duration g) 0 s2))
              in if isOriginGroup (bk_class g) then returnDevicesToRoot (bk_devices g) s3
                 else updateDevicesCurrentGroupFromOrigin (bk_devices g) s3)))"

section \<open>What the operations leave alone\<close>

lemma groups_of_users [simp]:
  "db_groups (snd (update_user email f s)) = db_groups s" "db_next (snd (update_user email f s)) = db_next s"
  by (auto simp: update_user_def split: option.splits)

lemma groups_of_quotas [simp]:
  "db_groups (snd (reserveUserGroupInstance email s)) = db_groups s" "db_next (snd (reserveUserGroupInstance email s)) = db_next s"
  "db_groups (releaseUserGroupInstance email s) = db_groups s" "db_next (releaseUserGroupInstance email s) = db_next s"
  "db_groups (snd (snd (updateUserGroupDuration email old new s))) = db_groups s"
  "db_next (snd (snd (updateUserGroupDuration email old new s))) = db_next s"
  "db_groups (snd (updateUserGroupsQuotas email d n r s)) = db_groups s" "db_next (snd (updateUserGroupsQuotas email d n r s)) = db_next s"
  by (simp_all add: reserveUserGroupInstance_def releaseUserGroupInstance_def updateUserGroupDuration_def updateUserGroupsQuotas_def Let_def)

lemma groups_of_subscriptions [simp]:
  "db_groups (unsubscribe i e s) = db_groups s" "db_next (unsubscribe i e s) = db_next s"
  by (simp_all add: unsubscribe_def)

lemma already_user:
  "(\<And>g. g \<in> set (db_groups s) \<Longrightarrow> bk_id g = i \<Longrightarrow> e \<in> set (bk_users g)) \<Longrightarrow> db_groups (snd (addGroupUser i e s)) = db_groups s"
  by (simp add: addGroupUser_def Let_def update_group_def add_to_set_def map_idI)

lemma fold_frame: "(\<And>i s. h (f i s) = h s) \<Longrightarrow> h (fold f is s) = h s"
  by (induction "is" arbitrary: s) simp_all

lemma unsubscribed_frame [simp]:
  "db_groups (fold (unsubscribe i) es s) = db_groups s" "db_next (fold (unsubscribe i) es s) = db_next s"
  "db_devices (fold (unsubscribe i) es s) = db_devices s"
proof -
  have "db_devices (unsubscribe i e t) = db_devices t" for e t by (auto simp: unsubscribe_def update_user_def split: option.split)
  then show "db_devices (fold (unsubscribe i) es s) = db_devices s" by (rule fold_frame)
qed (rule fold_frame, simp)+

lemma updated_user:
  "om_get (db_users (snd (update_user e f s))) k = (if k = e then map_option f (om_get (db_users s) e) else om_get (db_users s) k)"
  by (auto simp: update_user_def split: option.splits)

lemma unsubscribed_user:
  "om_get (db_users (fold (unsubscribe i) es s)) e =
     map_option (\<lambda>u. if e \<in> set es then u\<lparr>us_subscribed := filter (\<lambda>j. j \<noteq> i) (us_subscribed u)\<rparr> else u) (om_get (db_users s) e)"
proof (induction es arbitrary: s)
  case (Cons k es)
  have "om_get (db_users (unsubscribe i k s)) e =
      (if e = k then map_option (\<lambda>u. u\<lparr>us_subscribed := filter (\<lambda>j. j \<noteq> i) (us_subscribed u)\<rparr>) (om_get (db_users s) k) else om_get (db_users s) e)"
    unfolding unsubscribe_def by (rule updated_user)
  then show ?case using Cons by (cases "om_get (db_users s) e") auto
qed (simp add: option.map_ident)

lemma only_devices [simp]:
  "db_groups (hold_device g i s) = db_groups s" "db_next (hold_device g i s) = db_next s" "db_users (hold_device g i s) = db_users s"
  "db_groups (return_device i s) = db_groups s" "db_next (return_device i s) = db_next s" "db_users (return_device i s) = db_users s"
  "db_groups (root_device g i s) = db_groups s" "db_next (root_device g i s) = db_next s" "db_users (root_device g i s) = db_users s"
  by (auto simp: hold_device_def return_device_def root_device_def split: option.splits)

lemma only_devices_moved [simp]:
  "db_groups (updateDevicesCurrentGroup is g s) = db_groups s" "db_next (updateDevicesCurrentGroup is g s) = db_next s"
  "db_users (updateDevicesCurrentGroup is g s) = db_users s"
  "db_groups (updateDevicesCurrentGroupFromOrigin is s) = db_groups s" "db_next (updateDevicesCurrentGroupFromOrigin is s) = db_next s"
  "db_users (updateDevicesCurrentGroupFromOrigin is s) = db_users s"
  "db_groups (returnDevicesToRoot is s) = db_groups s" "db_next (returnDevicesToRoot is s) = db_next s"
  "db_users (returnDevicesToRoot is s) = db_users s"
  by (simp_all add: updateDevicesCurrentGroup_def updateDevicesCurrentGroupFromOrigin_def returnDevicesToRoot_def fold_frame split: option.split)

lemma update_group_frame [simp]:
  "db_users (update_group i f s) = db_users s" "db_next (update_group i f s) = db_next s" "db_devices (update_group i f s) = db_devices s"
  "db_groups (update_group i f s) = map (\<lambda>g. if bk_id g = i then f g else g) (db_groups s)"
  by (simp_all add: update_group_def)

lemma charged_groups [simp]: "db_groups (snd (charge_devices g is s)) = db_groups s" "db_next (snd (charge_devices g is s)) = db_next s"
  by (simp_all add: charge_devices_def Let_def)

lemma found_group: "getGroup i s = Some g \<Longrightarrow> g \<in> set (db_groups s) \<and> bk_id g = i"
  unfolding getGroup_def find_Some_iff by (metis nth_mem)

lemma found_user_group: "getUserGroup email i s = Some g \<Longrightarrow> g \<in> set (db_groups s) \<and> bk_id g = i"
  unfolding getUserGroup_def find_Some_iff by (metis nth_mem)

section \<open>The windows of a booking\<close>

lemma repeat_window_nth: "k < n \<Longrightarrow> repeat_window n d w ! k = shift (int (Suc k) * d) w"
proof (induction n arbitrary: w k)
  case (Suc n)
  then show ?case by (cases k) (simp_all add: shift_def algebra_simps)
qed simp

lemma length_repeat_window [simp]: "length (repeat_window n d w) = n"
  by (induction n arbitrary: w) simp_all

lemma dates_nonempty [simp]: "computeGroupDates w c r \<noteq> []" "hd (computeGroupDates w c r) = w"
  by (simp_all add: computeGroupDates_def)

lemma in_dates: "t \<in> set (computeGroupDates w c r) \<longleftrightarrow>
    (\<exists>k. t = shift k w \<and> (k = 0 \<or> (\<exists>d n. CLASS_DURATION c = Some d \<and> k = int n * d \<and> 0 < n \<and> int n < r)))"
proof -
  have s: "shift 0 w = w" by (simp add: shift_def)
  show ?thesis
  proof (cases "CLASS_DURATION c")
    case None
    then show ?thesis using s by (auto simp: computeGroupDates_def)
  next
    case (Some d)
    have "t \<in> set (repeat_window m d w) \<longleftrightarrow> (\<exists>n. t = shift (int n * d) w \<and> 0 < n \<and> n \<le> m)" for m
    proof -
      have "t \<in> set (repeat_window m d w) \<longleftrightarrow> (\<exists>k < m. t = shift (int (Suc k) * d) w)"
        by (auto simp: in_set_conv_nth repeat_window_nth)
      also have "\<dots> \<longleftrightarrow> (\<exists>n. t = shift (int n * d) w \<and> 0 < n \<and> n \<le> m)"
        by (metis Suc_le_eq Suc_pred zero_less_Suc)
      finally show ?thesis .
    qed
    then have m: "t \<in> set (repeat_window (nat (r - 1)) d w) \<longleftrightarrow> (\<exists>n. t = shift (int n * d) w \<and> 0 < n \<and> n \<le> nat (r - 1))" .
    have n: "n \<le> nat (r - 1) \<longleftrightarrow> int n < r" if "0 < n" for n using that by linarith
    have "t \<in> set (computeGroupDates w c r) \<longleftrightarrow> t = w \<or> (\<exists>n. t = shift (int n * d) w \<and> 0 < n \<and> int n < r)"
      unfolding computeGroupDates_def Some by (simp add: m) (metis n)
    also have "\<dots> \<longleftrightarrow> (\<exists>k. t = shift k w \<and> (k = 0 \<or> (\<exists>n. k = int n * d \<and> 0 < n \<and> int n < r)))" using s by metis
    finally show ?thesis using Some by simp
  qed
qed

text \<open>Narrower windows, fewer of them: what does not overlap the old ones does not overlap the new ones.\<close>

lemma narrower_dates:
  assumes "t \<in> set (computeGroupDates v c m)" and "overlaps t x"
    and "wn_start w \<le> wn_start v" and "wn_stop v \<le> wn_stop w" and "m \<le> n"
  shows "\<exists>u \<in> set (computeGroupDates w c n). overlaps u x"
proof -
  obtain k where k: "t = shift k v" "k = 0 \<or> (\<exists>d i. CLASS_DURATION c = Some d \<and> k = int i * d \<and> 0 < i \<and> int i < m)"
    using assms(1) unfolding in_dates by blast
  then have "shift k w \<in> set (computeGroupDates w c n)" unfolding in_dates using assms(5) by (intro exI [of _ k]) (auto intro: less_le_trans)
  moreover have "overlaps (shift k w) x" using assms(2-4) k(1) by (simp add: overlaps_def shift_def)
  ultimately show ?thesis by blast
qed

section \<open>Quotas are kept\<close>

definition in_quota :: "user \<Rightarrow> bool" where
  "in_quota u \<longleftrightarrow> 0 \<le> us_number u \<and> us_number u \<le> us_max_number u \<and> us_duration u \<le> us_max_duration u"

definition quotas_kept :: "db \<Rightarrow> bool" where
  "quotas_kept s \<longleftrightarrow> (\<forall>e u. om_get (db_users s) e = Some u \<longrightarrow> in_quota u)"

lemma quotas_same: "db_users t = db_users s \<Longrightarrow> quotas_kept t = quotas_kept s"
  by (simp add: quotas_kept_def)

lemma quotas_update: "(\<And>u. in_quota u \<Longrightarrow> in_quota (f u)) \<Longrightarrow> quotas_kept s \<Longrightarrow> quotas_kept (snd (update_user email f s))"
  by (auto simp: update_user_def quotas_kept_def split: option.splits)

lemma quotas_charged: "quotas_kept s \<Longrightarrow> quotas_kept (snd (snd (updateUserGroupDuration email old new s)))"
  by (simp add: updateUserGroupDuration_def Let_def) (rule quotas_update, auto simp: in_quota_def charge_def)

lemma quotas_instances:
  "quotas_kept s \<Longrightarrow> quotas_kept (snd (reserveUserGroupInstance email s))" "quotas_kept s \<Longrightarrow> quotas_kept (releaseUserGroupInstance email s)"
  unfolding reserveUserGroupInstance_def releaseUserGroupInstance_def
  by (rule quotas_update; auto simp: in_quota_def)+

lemma quotas_changed: "quotas_kept s \<Longrightarrow> quotas_kept (snd (updateUserGroupsQuotas email d n r s))"
  unfolding updateUserGroupsQuotas_def by (rule quotas_update) (auto simp: in_quota_def)

lemma quotas_subscribed:
  "quotas_kept s \<Longrightarrow> quotas_kept (unsubscribe i e s)" "quotas_kept s \<Longrightarrow> quotas_kept (fold (unsubscribe i) es s)"
  "quotas_kept s \<Longrightarrow> quotas_kept (snd (addGroupUser i e s))"
proof -
  have u: "quotas_kept (unsubscribe i e s)" if "quotas_kept s" for e s
    unfolding unsubscribe_def by (rule quotas_update [OF _ that]) (simp add: in_quota_def)
  then show "quotas_kept s \<Longrightarrow> quotas_kept (unsubscribe i e s)" .
  show "quotas_kept s \<Longrightarrow> quotas_kept (fold (unsubscribe i) es s)" by (induction es arbitrary: s) (simp_all add: u)
  show "quotas_kept (snd (addGroupUser i e s))" if "quotas_kept s"
  proof -
    have "quotas_kept (snd (update_user e (\<lambda>u. u\<lparr>us_subscribed := f u\<rparr>) s))" for f by (rule quotas_update [OF _ that]) (simp add: in_quota_def)
    then show ?thesis by (simp add: addGroupUser_def Let_def quotas_same [OF update_group_frame(1)])
  qed
qed

lemma quotas_deleted: "quotas_kept s \<Longrightarrow> quotas_kept (deleteUserGroup i s)"
proof -
  assume q: "quotas_kept s"
  have "quotas_kept (s\<lparr>db_groups := gs\<rparr>)" for gs using q by (simp add: quotas_kept_def)
  then have "quotas_kept (snd (snd (updateUserGroupDuration e d 0 (releaseUserGroupInstance f (fold (unsubscribe i) es (s\<lparr>db_groups := gs\<rparr>))))))" for e d f gs es
    by (intro quotas_charged quotas_instances quotas_subscribed)
  then have "quotas_kept (updateDevicesCurrentGroupFromOrigin is (snd (snd (updateUserGroupDuration e d 0 (releaseUserGroupInstance f (fold (unsubscribe i) es (s\<lparr>db_groups := gs\<rparr>)))))))"
    "quotas_kept (returnDevicesToRoot is (snd (snd (updateUserGroupDuration e d 0 (releaseUserGroupInstance f (fold (unsubscribe i) es (s\<lparr>db_groups := gs\<rparr>)))))))"
    for e d f gs es "is" by (simp_all add: quotas_kept_def)
  then show ?thesis using q by (simp add: deleteUserGroup_def Let_def split: option.split)
qed

lemma quotas_added: "quotas_kept s \<Longrightarrow> quotas_kept (snd (addGroupDevices g is s))"
proof -
  assume q: "quotas_kept s"
  then have "quotas_kept (snd (charge_devices g is s))" by (simp add: charge_devices_def Let_def quotas_charged)
  then show ?thesis using q by (simp add: addGroupDevices_def Let_def commit_devices_def quotas_same [OF update_group_frame(1)])
qed

lemma quotas_removed: "quotas_kept s \<Longrightarrow> quotas_kept (removeGroupDevices g is s)"
  by (simp add: removeGroupDevices_def Let_def quotas_same [OF update_group_frame(1)] quotas_charged)

lemma quotas_created: "quotas_kept s \<Longrightarrow> quotas_kept (snd (createUserGroup g s))"
proof -
  assume "quotas_kept s"
  then have q: "quotas_kept (snd (reserveUserGroupInstance (bk_owner g) s))" by (rule quotas_instances)
  then have "quotas_kept (snd (createGroup h (snd (reserveUserGroupInstance (bk_owner g) s))))" for h
    by (simp add: createGroup_def Let_def quotas_kept_def)
  then show ?thesis using q by (simp add: createUserGroup_def Let_def quotas_subscribed split: option.split)
qed

lemma quotas_updated: "quotas_kept s \<Longrightarrow> quotas_kept (snd (updateUserGroup g d s))"
proof -
  assume q: "quotas_kept s"
  have u: "db_users (snd (updateUserGroup g d s)) = db_users (snd (snd (updateUserGroupDuration (bk_owner g) (bk_duration g) (gd_duration d) s)))"
    by (simp add: updateUserGroup_def Let_def)
  show ?thesis unfolding quotas_same [OF u] by (rule quotas_charged [OF q])
qed

section \<open>Bookings are kept apart\<close>

definition no_overlap :: "window list \<Rightarrow> window list \<Rightarrow> bool" where
  "no_overlap ts cs \<longleftrightarrow> (\<forall>t \<in> set ts. \<forall>c \<in> set cs. \<not> overlaps t c)"

definition apart :: "booking \<Rightarrow> booking \<Rightarrow> bool" where
  "apart g h \<longleftrightarrow> isOriginGroup (bk_class g) \<or> isOriginGroup (bk_class h) \<or> set (bk_devices g) \<inter> set (bk_devices h) = {} \<or>
     no_overlap (bk_dates g) (bk_dates h)"

definition booking_ok :: "gid \<Rightarrow> booking \<Rightarrow> bool" where
  "booking_ok n g \<longleftrightarrow> bk_id g < n \<and> bk_dates g \<noteq> [] \<and>
     (bk_state g = PENDING \<longrightarrow> bk_dates g = computeGroupDates (first_window g) (bk_class g) (bk_repetitions g))"

definition bookings_ok :: "db \<Rightarrow> bool" where
  "bookings_ok s \<longleftrightarrow> distinct (map bk_id (db_groups s)) \<and> (\<forall>g \<in> set (db_groups s). booking_ok (db_next s) g) \<and>
     (\<forall>g \<in> set (db_groups s). \<forall>h \<in> set (db_groups s). bk_id g \<noteq> bk_id h \<longrightarrow> apart g h)"

lemma apart_sym: "apart g h \<Longrightarrow> apart h g"
  by (auto simp: apart_def no_overlap_def overlaps_def)

lemma bookings_same: "db_groups t = db_groups s \<Longrightarrow> db_next t = db_next s \<Longrightarrow> bookings_ok t = bookings_ok s"
  by (simp add: bookings_ok_def)

lemma bookings_kept:
  assumes "bookings_ok s" and "g \<in> set (db_groups s)" and "bk_id (f g) = bk_id g" and "booking_ok (db_next s) (f g)"
    and "\<And>h. h \<in> set (db_groups s) \<Longrightarrow> bk_id h \<noteq> bk_id g \<Longrightarrow> apart (f g) h"
  shows "bookings_ok (update_group (bk_id g) f s)"
proof -
  have d: "distinct (map bk_id (db_groups s))" using assms(1) by (simp add: bookings_ok_def)
  have g: "h = g" if "h \<in> set (db_groups s)" "bk_id h = bk_id g" for h
    using d assms(2) that by (metis distinct_map inj_on_eq_iff)
  have m: "map bk_id (map (\<lambda>h. if bk_id h = bk_id g then f h else h) (db_groups s)) = map bk_id (db_groups s)"
    using g assms(3) by (auto intro!: map_cong)
  have e: "h = f g \<or> (h \<in> set (db_groups s) \<and> bk_id h \<noteq> bk_id g)"
    if "h \<in> set (map (\<lambda>h. if bk_id h = bk_id g then f h else h) (db_groups s))" for h
    using that g by auto
  have o: "apart h k" if "h \<in> set (db_groups s)" "k \<in> set (db_groups s)" "bk_id h \<noteq> bk_id k" for h k
    using assms(1) that by (simp add: bookings_ok_def)
  show ?thesis unfolding bookings_ok_def update_group_frame
  proof (intro conjI ballI impI)
    show "distinct (map bk_id (map (\<lambda>h. if bk_id h = bk_id g then f h else h) (db_groups s)))" unfolding m by (rule d)
  next
    fix h assume "h \<in> set (map (\<lambda>h. if bk_id h = bk_id g then f h else h) (db_groups s))"
    then have "h = f g \<or> (h \<in> set (db_groups s) \<and> bk_id h \<noteq> bk_id g)" by (rule e)
    then show "booking_ok (db_next s) h" using assms(1,4) by (auto simp: bookings_ok_def)
  next
    fix h k
    assume hk: "h \<in> set (map (\<lambda>h. if bk_id h = bk_id g then f h else h) (db_groups s))"
      "k \<in> set (map (\<lambda>h. if bk_id h = bk_id g then f h else h) (db_groups s))" "bk_id h \<noteq> bk_id k"
    from e [OF hk(1)] e [OF hk(2)] show "apart h k" using o assms(3,5) apart_sym hk(3) by metis
  qed
qed

lemma bookings_charged:
  "bookings_ok (snd (snd (updateUserGroupDuration email old new s))) = bookings_ok s"
  "bookings_ok (snd (charge_devices g is s)) = bookings_ok s" "bookings_ok (releaseUserGroupInstance email s) = bookings_ok s"
  "bookings_ok (snd (reserveUserGroupInstance email s)) = bookings_ok s" "bookings_ok (snd (updateUserGroupsQuotas email d n r s)) = bookings_ok s"
  by (rule bookings_same; simp)+

lemma set_union_list [simp]: "set (union_list xs ys) = set xs \<union> set ys"
proof -
  have "set (foldl (\<lambda>zs x. if x \<in> set zs then zs else x # zs) zs ws) = set zs \<union> set ws" for zs ws :: "'a list"
    by (induction ws arbitrary: zs) auto
  then show ?thesis by (simp add: union_list_def)
qed

lemma set_difference [simp]: "set (difference xs ys) = set xs - set ys"
  by (auto simp: difference_def)

lemma not_busy:
  assumes "\<not> devices_busy g is s" and "h \<in> set (db_groups s)" and "\<not> isOriginGroup (bk_class h)" and "set (bk_devices h) \<inter> set is \<noteq> {}"
  shows "no_overlap (bk_dates g) (bk_dates h)"
  using assms by (auto simp: devices_busy_def checkDatesOverlaps_def find_None_iff getTransientGroups_def no_overlap_def)

lemma bookings_committed:
  assumes "bookings_ok s" and "g \<in> set (db_groups s)" and "\<not> devices_busy g is s"
  shows "bookings_ok (commit_devices g is s)"
  unfolding commit_devices_def
proof (rule bookings_kept [OF assms(1,2)])
  show "booking_ok (db_next s) (g\<lparr>bk_duration := computeDuration g (int (length is)), bk_devices := union_list (bk_devices g) is\<rparr>)"
    using assms(1,2) by (auto simp: bookings_ok_def booking_ok_def first_window_def)
next
  fix h
  assume h: "h \<in> set (db_groups s)" "bk_id h \<noteq> bk_id g"
  then have "apart g h" using assms(1,2) by (auto simp: bookings_ok_def)
  then show "apart (g\<lparr>bk_duration := computeDuration g (int (length is)), bk_devices := union_list (bk_devices g) is\<rparr>) h"
    using not_busy [OF assms(3) h(1)] unfolding apart_def by auto
qed simp

lemma bookings_added:
  assumes "bookings_ok s" and "g \<in> set (db_groups s)"
  shows "bookings_ok (snd (addGroupDevices g is s))"
  using assms bookings_committed [of "snd (charge_devices g is s)" g "is"]
  by (simp add: addGroupDevices_def Let_def bookings_charged)

lemma bookings_removed:
  assumes "bookings_ok s" and "g \<in> set (db_groups s)"
  shows "bookings_ok (removeGroupDevices g is s)"
proof -
  have "apart g h" if "h \<in> set (db_groups s)" "bk_id h \<noteq> bk_id g" for h using assms that by (auto simp: bookings_ok_def)
  then have "apart (g\<lparr>bk_duration := x, bk_devices := difference (bk_devices g) is\<rparr>) h" if "h \<in> set (db_groups s)" "bk_id h \<noteq> bk_id g" for h x
    using that unfolding apart_def by fastforce
  moreover have "booking_ok (db_next s) (g\<lparr>bk_duration := x, bk_devices := ds\<rparr>)" for x ds
    using assms by (auto simp: bookings_ok_def booking_ok_def first_window_def)
  ultimately show ?thesis unfolding removeGroupDevices_def Let_def
    by (intro bookings_kept) (simp_all add: bookings_charged assms)
qed

lemma bookings_filtered: "bookings_ok s \<Longrightarrow> bookings_ok (s\<lparr>db_groups := filter P (db_groups s)\<rparr>)"
  by (auto simp: bookings_ok_def distinct_map_filter)

lemma bookings_deleted: "bookings_ok s \<Longrightarrow> bookings_ok (deleteUserGroup i s)"
proof -
  assume b: "bookings_ok s"
  then have "bookings_ok (s\<lparr>db_groups := filter (\<lambda>h. bk_id h \<noteq> i) (db_groups s)\<rparr>)" by (rule bookings_filtered)
  then have d: "bookings_ok t" if "db_groups t = filter (\<lambda>h. bk_id h \<noteq> i) (db_groups s)" "db_next t = db_next s" for t
    using that by (simp add: bookings_ok_def)
  show ?thesis using b by (auto simp: deleteUserGroup_def Let_def split: option.split intro!: d)
qed

lemma bookings_unmoved:
  assumes "bookings_ok s"
    and "\<And>g. bk_id (h g) = bk_id g" "\<And>g. bk_dates (h g) = bk_dates g" "\<And>g. bk_state (h g) = bk_state g" "\<And>g. bk_class (h g) = bk_class g"
      "\<And>g. bk_repetitions (h g) = bk_repetitions g" "\<And>g. bk_devices (h g) = bk_devices g"
  shows "bookings_ok (update_group i h s)"
proof -
  have w: "first_window (h g) = first_window g" for g using assms(3) by (simp add: first_window_def)
  have "map bk_id (map (\<lambda>g. if bk_id g = i then h g else g) (db_groups s)) = map bk_id (db_groups s)" using assms(2) by simp
  then have "distinct (map bk_id (map (\<lambda>g. if bk_id g = i then h g else g) (db_groups s)))" using assms(1) by (simp only: bookings_ok_def)
  moreover have "apart (h g) k = apart g k" "apart k (h g) = apart k g" for g k using assms by (auto simp: apart_def)
  ultimately show ?thesis using assms w unfolding bookings_ok_def update_group_frame
    by (auto simp: booking_ok_def)
qed

lemma bookings_subscribed: "bookings_ok s \<Longrightarrow> bookings_ok (snd (addGroupUser i e s))"
proof -
  assume "bookings_ok s"
  then have "bookings_ok (snd (update_user e f s))" for f by (simp add: bookings_ok_def)
  then show ?thesis unfolding addGroupUser_def Let_def snd_conv by (rule bookings_unmoved) simp_all
qed

lemma bookings_created:
  assumes "bookings_ok s" and "bk_dates g = computeGroupDates (first_window g) (bk_class g) (bk_repetitions g)"
  shows "bookings_ok (snd (createUserGroup g s))"
proof -
  have c: "bookings_ok (snd (createGroup (g\<lparr>bk_users := us\<rparr>) t))" if "bookings_ok t" for us t
  proof -
    have n: "bk_id h < db_next t" if "h \<in> set (db_groups t)" for h using \<open>bookings_ok t\<close> that by (auto simp: bookings_ok_def booking_ok_def)
    have "booking_ok (Suc (db_next t)) h" if "h \<in> set (db_groups t)" for h
      using \<open>bookings_ok t\<close> that by (auto simp: bookings_ok_def booking_ok_def)
    moreover have w: "first_window (g\<lparr>bk_users := xs, bk_id := db_next t, bk_devices := []\<rparr>) = first_window g" for xs
      by (simp add: first_window_def)
    have "booking_ok (Suc (db_next t)) (g\<lparr>bk_users := xs, bk_id := db_next t, bk_devices := []\<rparr>)" for xs
      using assms(2) by (simp add: booking_ok_def w)
    ultimately have o: "booking_ok (Suc (db_next t)) h"
      if "h \<in> set (db_groups t @ [g\<lparr>bk_users := xs, bk_id := db_next t, bk_devices := []\<rparr>])" for h xs using that by auto
    have e: "apart (g\<lparr>bk_users := xs, bk_id := db_next t, bk_devices := []\<rparr>) h" "apart h (g\<lparr>bk_users := xs, bk_id := db_next t, bk_devices := []\<rparr>)"
      for h xs by (simp_all add: apart_def)
    have p: "apart h k" if "h \<in> set (db_groups t)" "k \<in> set (db_groups t)" "bk_id h \<noteq> bk_id k" for h k
      using \<open>bookings_ok t\<close> that by (simp add: bookings_ok_def)
    have d: "distinct (map bk_id (db_groups t))" "db_next t \<notin> bk_id ` set (db_groups t)" 
      using \<open>bookings_ok t\<close> by (simp add: bookings_ok_def) (use n in force)
    have r: "snd (createGroup (g\<lparr>bk_users := us\<rparr>) t) = t\<lparr>db_groups := db_groups t @ [g\<lparr>bk_users := union_list us [bk_owner g], bk_id := db_next t, bk_devices := []\<rparr>],
        db_next := Suc (db_next t)\<rparr>" by (simp add: createGroup_def Let_def)
    show ?thesis unfolding r bookings_ok_def
    proof (intro conjI ballI impI)
      fix h k
      assume "h \<in> set (db_groups (t\<lparr>db_groups := db_groups t @ [g\<lparr>bk_users := union_list us [bk_owner g], bk_id := db_next t, bk_devices := []\<rparr>], db_next := Suc (db_next t)\<rparr>))"
        "k \<in> set (db_groups (t\<lparr>db_groups := db_groups t @ [g\<lparr>bk_users := union_list us [bk_owner g], bk_id := db_next t, bk_devices := []\<rparr>], db_next := Suc (db_next t)\<rparr>))"
        "bk_id h \<noteq> bk_id k"
      then show "apart h k" using e p by auto
    qed (use d o in \<open>simp_all del: set_append\<close>)
  qed
  show ?thesis using assms(1) c [of "snd (reserveUserGroupInstance (bk_owner g) s)"]
    by (simp add: createUserGroup_def Let_def bookings_charged bookings_subscribed split: option.split)
qed

end
