(* ===== verification/Booking_Api.thy ===== *)
theory Booking_Api imports Bookings begin

text \<open>
  The requests that create, change and delete reservations: \<open>lib/units/api/controllers/groups.js\<close> on top of \<open>Bookings\<close>,
  with the permissions of \<open>lib/util/apiutil.js\<close>. A request is answered by its first response (\<open>respond\<close> does nothing
  after that). Adding devices is modelled for a list of serial numbers. The machine runs one request at a time; what
  two interleaved requests do is shown apart.
\<close>

section \<open>Answers and permissions\<close>

record requester =
  rq_email :: string
  rq_privilege :: privilege

datatype api_out = Respond nat string | ReleaseDevice serial

definition hasGroupEditPermission :: "booking \<Rightarrow> requester \<Rightarrow> bool \<Rightarrow> bool" where
  "hasGroupEditPermission g u allowModerator \<longleftrightarrow>
     rq_privilege u = ADMIN \<or> bk_owner g = rq_email u \<or> (allowModerator \<and> rq_email u \<in> set (bk_moderators g))"

text \<open>What the client gets: the first response.\<close>

fun answer_of :: "api_out list \<Rightarrow> (nat \<times> string) option" where
  "answer_of [] = None"
| "answer_of (Respond code msg # xs) = Some (code, msg)"
| "answer_of (x # xs) = answer_of xs"

section \<open>Conflicts and schedules\<close>

record conflict =
  cf_devices :: "serial list"
  cf_date :: window
  cf_group :: string

definition common :: "window \<Rightarrow> window \<Rightarrow> window" where
  "common v w = \<lparr>wn_start = max (wn_start v) (wn_start w), wn_stop = min (wn_stop v) (wn_stop w)\<rparr>"

definition computeConflicts :: "gid \<Rightarrow> serial list \<Rightarrow> window list \<Rightarrow> booking \<Rightarrow> conflict list" where
  "computeConflicts i devices dates other =
     (let shared = filter (\<lambda>d. d \<in> set (bk_devices other)) devices in
      if bk_id other = i \<or> shared = [] then []
      else [\<lparr>cf_devices = shared, cf_date = common v w, cf_group = bk_name other\<rparr>.
             v \<leftarrow> dates, w \<leftarrow> bk_dates other, overlaps v w])"

definition checkConflicts :: "gid \<Rightarrow> serial list \<Rightarrow> window list \<Rightarrow> db \<Rightarrow> conflict list" where
  "checkConflicts i devices dates s = concat (map (computeConflicts i devices dates) (getTransientGroups s))"

text \<open>\<open>checkSchedule\<close> on valid dates: the refusal, if there is one.\<close>

definition checkSchedule :: "booking option \<Rightarrow> group_class \<Rightarrow> string \<Rightarrow> int \<Rightarrow> privilege \<Rightarrow> millis \<Rightarrow> millis \<Rightarrow> db \<Rightarrow> (nat \<times> string) option" where
  "checkSchedule old c email repetitions privilege start stop s =
     (if (case old of None \<Rightarrow> False
          | Some g \<Rightarrow> bk_devices g \<noteq> [] \<and> (isOriginGroup c \<and> \<not> isOriginGroup (bk_class g) \<or> isOriginGroup (bk_class g) \<and> \<not> isOriginGroup c))
      then Some (403, ''Forbidden (unauthorized class while device list is not empty)'')
      else if isAdminGroup c \<and> privilege = USER then Some (403, ''Forbidden (unauthorized class)'')
      else if stop \<le> start then Some (400, ''Bad Request (Invalid life time: startTime >= stopTime)'')
      else if (case CLASS_DURATION c of None \<Rightarrow> False | Some d \<Rightarrow> d < stop - start)
      then Some (400, ''Bad Request (Invalid Life time & class combination: life time > class duration)'')
      else if (c \<in> {BOOKABLE, STANDARD, ONCE}) = (repetitions \<noteq> 0)
      then Some (400, ''Bad Request (Invalid class & repetitions combination)'')
      else (case om_get (db_users s) email of
          None \<Rightarrow> None
        | Some u \<Rightarrow> (if us_repetitions u < repetitions then Some (400, ''Bad Request (Invalid repetitions value)'') else None)))"

section \<open>Creating and deleting\<close>

record create_request =
  cr_class :: "group_class option"
  cr_repetitions :: "int option"
  cr_start :: "millis option"
  cr_stop :: "millis option"
  cr_state :: "group_status option"
  cr_name :: string

text \<open>
  \<open>createGroup\<close>. The check of the schedule answers the request when it refuses, but nobody looks at
  its result; \<open>cr_name\<close> is the name to use (given or made up).
\<close>

definition new_booking :: "requester \<Rightarrow> create_request \<Rightarrow> millis \<Rightarrow> booking" where
  "new_booking u r now =
     (let c = (case cr_class r of None \<Rightarrow> ONCE | Some c \<Rightarrow> c);
          repetitions = (if isOriginGroup c then 0 else case cr_repetitions r of None \<Rightarrow> 0 | Some n \<Rightarrow> n);
          start = (if isOriginGroup c then now else case cr_start r of None \<Rightarrow> now | Some t \<Rightarrow> t);
          stop = (if isOriginGroup c then now + ONE_YEAR else case cr_stop r of None \<Rightarrow> now + ONE_HOUR | Some t \<Rightarrow> t);
          state = (if isOriginGroup c then READY else case cr_state r of None \<Rightarrow> READY | Some st \<Rightarrow> st)
      in \<lparr>bk_id = 0, bk_name = cr_name r, bk_owner = rq_email u, bk_privilege = rq_privilege u, bk_class = c,
          bk_repetitions = repetitions, bk_active = (state = READY \<and> isOriginGroup c),
          bk_dates = computeGroupDates \<lparr>wn_start = start, wn_stop = stop\<rparr> c repetitions, bk_duration = 0, bk_state = state,
          bk_devices = [], bk_users = [], bk_moderators = []\<rparr>)"

definition create_api :: "requester \<Rightarrow> create_request \<Rightarrow> millis \<Rightarrow> db \<Rightarrow> db \<times> api_out list" where
  "create_api u r now s =
     (let g = new_booking u r now;
          refusal = checkSchedule None (bk_class g) (rq_email u) (bk_repetitions g) (rq_privilege u)
            (wn_start (first_window g)) (wn_stop (first_window g)) s;
          c = createUserGroup g s
      in (snd c, (case refusal of None \<Rightarrow> [] | Some (code, msg) \<Rightarrow> [Respond code msg]) @
           [case fst c of
              Inl err \<Rightarrow> Respond 500 ''Internal Server Error''
            | Inr None \<Rightarrow> Respond 403 ''Forbidden (groups number quota is reached)''
            | Inr (Some h) \<Rightarrow> Respond 201 ''Created'']))"

datatype removal = NotFound | Forbidden | Deleted

definition remove_group :: "requester \<Rightarrow> gid \<Rightarrow> db \<Rightarrow> removal \<times> db \<times> api_out list" where
  "remove_group u i s =
     (case getUserGroup (rq_email u) i s of
        None \<Rightarrow> (NotFound, s, [])
      | Some g \<Rightarrow>
          (if \<not> hasGroupEditPermission g u False then (Forbidden, s, [])
           else if bk_privilege g = ROOT then (Forbidden, s, [])
           else if bk_class g = BOOKABLE \<and> list_ex (\<lambda>d. isDeviceBooked d s) (bk_devices g) then (Forbidden, s, [])
           else (Deleted, deleteUserGroup i s, map ReleaseDevice (bk_devices g))))"

fun remove_groups :: "requester \<Rightarrow> gid list \<Rightarrow> db \<Rightarrow> removal list \<times> db \<times> api_out list" where
  "remove_groups u [] s = ([], s, [])"
| "remove_groups u (i # is) s =
     (let a = remove_group u i s; b = remove_groups u is (fst (snd a)) in (fst a # fst b, fst (snd b), snd (snd a) @ snd (snd b)))"

definition delete_api :: "requester \<Rightarrow> gid list \<Rightarrow> db \<Rightarrow> db \<times> api_out list" where
  "delete_api u is s =
     (let r = remove_groups u is s; results = fst r in
      (fst (snd r), snd (snd r) @
        [if results = [] then Respond 304 ''Unchanged''
         else if NotFound \<in> set results then Respond 404 ''Not Found''
         else if Forbidden \<in> set results then Respond 403 ''Forbidden''
         else Respond 200 ''Deleted'']))"

section \<open>Devices\<close>

text \<open>\<open>_addGroupDevices\<close>: after a refusal for the quota the group is deleted.\<close>

definition add_to_group :: "requester \<Rightarrow> booking \<Rightarrow> serial list \<Rightarrow> millis \<Rightarrow> db \<Rightarrow> db \<times> api_out list" where
  "add_to_group u g is now s =
     (let r = addGroupDevices g is s in
      case fst r of
        None \<Rightarrow>
          (case getGroup (bk_id g) (snd r) of
             None \<Rightarrow> (snd r, [Respond 500 ''Internal Server Error''])
           | Some h \<Rightarrow>
               (if checkDatesOverlaps [\<lparr>wn_start = now, wn_stop = now\<rparr>] [h] \<noteq> None then updateDevicesCurrentGroup (bk_devices h) h (snd r)
                else snd r, [Respond 200 ''Added'']))
      | Some err \<Rightarrow>
          (if err = ''quota is reached'' then
             (let d = delete_api u [bk_id g] (snd r) in (fst d, Respond 403 ''Forbidden (groups duration quota is reached)'' # snd d))
           else (snd r, [Respond 403 ''Forbidden (device(s) are busy in the required schedule period)''])))"

definition add_as :: "requester \<Rightarrow> booking \<Rightarrow> serial list \<Rightarrow> millis \<Rightarrow> db \<Rightarrow> db \<times> api_out list" where
  "add_as u g serials now s =
     (if isOriginGroup (bk_class g) then (s, [Respond 400 ''Bad Request (use admin API for bookable/standard groups)''])
      else add_to_group u g (difference (filter (\<lambda>i. i \<noteq> []) serials) (bk_devices g)) now s)"

text \<open>
  \<open>addGroupDevices\<close>: a requester without permission is replaced by the owner of the group
  (\<open>groupApiWrapper\<close>), and the request runs again.
\<close>

definition add_api :: "requester \<Rightarrow> gid \<Rightarrow> serial list \<Rightarrow> millis \<Rightarrow> db \<Rightarrow> db \<times> api_out list" where
  "add_api u i serials now s =
     (case getUserGroup (rq_email u) i s of
        None \<Rightarrow> (s, [Respond 404 ''Not Found (group)''])
      | Some g \<Rightarrow>
          (if hasGroupEditPermission g u True then add_as u g serials now s
           else (case om_get (db_users s) (bk_owner g) of
               None \<Rightarrow> (s, [Respond 404 ''Not Found (user)''])
             | Some w \<Rightarrow> add_as \<lparr>rq_email = bk_owner g, rq_privilege = us_privilege w\<rparr> g serials now s)))"

definition remove_api :: "requester \<Rightarrow> gid \<Rightarrow> serial list option \<Rightarrow> db \<Rightarrow> db \<times> api_out list" where
  "remove_api u i serials s =
     (case getUserGroup (rq_email u) i s of
        None \<Rightarrow> (s, [Respond 404 ''Not Found (group)''])
      | Some g \<Rightarrow>
          (if isOriginGroup (bk_class g) then (s, [Respond 400 ''Bad Request (use admin API for bookable/standard groups)''])
           else if \<not> hasGroupEditPermission g u True then (s, [Respond 403 ''Forbidden (unauthorized)''])
           else
             (let wanted = (case serials of None \<Rightarrow> bk_devices g | Some is \<Rightarrow> filter (\<lambda>i. i \<noteq> []) is);
                  present = filter (\<lambda>i. i \<in> set (bk_devices g)) (union_list wanted [])
              in if wanted = [] then (s, [Respond 200 ''Unchanged''])
                 else if present = [] then (s, [Respond 404 ''Not Found''])
                 else (let t = removeGroupDevices g present s in
                   (if bk_class g = ONCE then updateDevicesCurrentGroupFromOrigin present t else t, [Respond 200 ''Removed''])))))"

section \<open>Updating\<close>

record update_request =
  ur_class :: "group_class option"
  ur_name :: "string option"
  ur_repetitions :: "int option"
  ur_start :: "millis option"
  ur_stop :: "millis option"
  ur_state :: "group_status option"

definition given :: "'a option \<Rightarrow> 'a \<Rightarrow> 'a" where
  "given v d = (case v of None \<Rightarrow> d | Some x \<Rightarrow> x)"

text \<open>A group that is not pending can only be renamed.\<close>

definition rename_group :: "booking \<Rightarrow> update_request \<Rightarrow> db \<Rightarrow> db \<times> api_out list" where
  "rename_group g r s =
     (if given (ur_start r) (wn_start (first_window g)) \<noteq> wn_start (first_window g) \<or>
         given (ur_stop r) (wn_stop (first_window g)) \<noteq> wn_stop (first_window g) \<or> given (ur_state r) (bk_state g) \<noteq> bk_state g \<or>
         given (ur_class r) (bk_class g) \<noteq> bk_class g \<or> given (ur_repetitions r) (bk_repetitions g) \<noteq> bk_repetitions g
      then (s, [Respond 403 ''Forbidden (only name can be updated)''])
      else if given (ur_name r) (bk_name g) = bk_name g then (s, [Respond 200 ''Unchanged (group)''])
      else (updateGroupName (bk_id g) (given (ur_name r) (bk_name g)) s, [Respond 200 ''Updated (group)'']))"

definition group_data_of :: "booking \<Rightarrow> update_request \<Rightarrow> group_data" where
  "group_data_of g r =
     (let c = given (ur_class r) (bk_class g); repetitions = given (ur_repetitions r) (bk_repetitions g);
          start = given (ur_start r) (wn_start (first_window g)); stop = given (ur_stop r) (wn_stop (first_window g))
      in \<lparr>gd_name = given (ur_name r) (bk_name g), gd_state = (if isOriginGroup c then READY else given (ur_state r) PENDING), gd_class = c,
          gd_active = isOriginGroup c, gd_repetitions = repetitions,
          gd_dates = computeGroupDates \<lparr>wn_start = start, wn_stop = stop\<rparr> c repetitions,
          gd_duration = (if isOriginGroup c then 0 else int (length (bk_devices g)) * (stop - start) * (repetitions + 1))\<rparr>)"

definition apply_update :: "booking \<Rightarrow> group_data \<Rightarrow> db \<Rightarrow> db \<times> api_out list" where
  "apply_update g d s =
     (let r = updateUserGroup g d s in
      (snd r, [if fst r then Respond 200 ''Updated (group)'' else Respond 403 ''Forbidden (groups duration quota is reached)'']))"

definition grows :: "booking \<Rightarrow> group_data \<Rightarrow> bool" where
  "grows g d \<longleftrightarrow> wn_start (hd (gd_dates d)) < wn_start (first_window g) \<or> wn_stop (first_window g) < wn_stop (hd (gd_dates d)) \<or>
     bk_repetitions g < gd_repetitions d \<or> gd_class d \<noteq> bk_class g"

definition update_api :: "requester \<Rightarrow> gid \<Rightarrow> update_request \<Rightarrow> db \<Rightarrow> db \<times> api_out list" where
  "update_api u i r s =
     (case getUserGroup (rq_email u) i s of
        None \<Rightarrow> (s, [Respond 404 ''Not Found (group)''])
      | Some g \<Rightarrow>
          (if \<not> hasGroupEditPermission g u True then (s, [Respond 403 ''Forbidden (unauthorized admin/owner/moderator)''])
           else if bk_state g \<noteq> PENDING then rename_group g r s
           else
             (let d = group_data_of g r; w = hd (gd_dates d) in
              case checkSchedule (Some g) (gd_class d) (bk_owner g) (gd_repetitions d) (bk_privilege g) (wn_start w) (wn_stop w) s of
                Some (code, msg) \<Rightarrow> (s, [Respond code msg])
              | None \<Rightarrow>
                  (if grows g d \<and> checkConflicts i (bk_devices g) (gd_dates d) s \<noteq> [] then (s, [Respond 409 ''Conflicts Information''])
                   else apply_update g d s))))"

section \<open>The machine\<close>

datatype api_event =
    CreateRequest requester create_request millis
  | DeleteRequest requester "gid list"
  | AddRequest requester gid "serial list" millis
  | RemoveRequest requester gid "serial list option"
  | UpdateRequest requester gid update_request
  | QuotaRequest string int int int

fun api_step :: "db \<Rightarrow> api_event \<Rightarrow> db \<times> api_out list" where
  "api_step s (CreateRequest u r now) = create_api u r now s"
| "api_step s (DeleteRequest u is) = delete_api u is s"
| "api_step s (AddRequest u i serials now) = add_api u i serials now s"
| "api_step s (RemoveRequest u i serials) = remove_api u i serials s"
| "api_step s (UpdateRequest u i r) = update_api u i r s"
| "api_step s (QuotaRequest email duration number repetitions) =
     (snd (updateUserGroupsQuotas email duration number repetitions s), [])"

section \<open>The quotas hold\<close>

lemma removed_kept:
  "quotas_kept s \<Longrightarrow> quotas_kept (fst (snd (remove_groups u is s)))" "bookings_ok s \<Longrightarrow> bookings_ok (fst (snd (remove_groups u is s)))"
  by (induction "is" arbitrary: s)
    (simp_all add: Let_def remove_group_def quotas_deleted bookings_deleted split: option.split)

lemma delete_kept:
  "quotas_kept s \<Longrightarrow> quotas_kept (fst (delete_api u is s))" "bookings_ok s \<Longrightarrow> bookings_ok (fst (delete_api u is s))"
  by (simp_all add: delete_api_def Let_def removed_kept)

lemma moved_kept:
  "quotas_kept (updateDevicesCurrentGroup is g s) = quotas_kept s" "bookings_ok (updateDevicesCurrentGroup is g s) = bookings_ok s"
  "quotas_kept (updateDevicesCurrentGroupFromOrigin is s) = quotas_kept s" "bookings_ok (updateDevicesCurrentGroupFromOrigin is s) = bookings_ok s"
  by (simp_all add: quotas_kept_def bookings_ok_def)

lemma add_as_kept:
  "quotas_kept s \<Longrightarrow> quotas_kept (fst (add_as u g is now s))"
  "bookings_ok s \<Longrightarrow> g \<in> set (db_groups s) \<Longrightarrow> bookings_ok (fst (add_as u g is now s))"
  by (simp_all add: add_as_def add_to_group_def Let_def delete_kept quotas_added bookings_added moved_kept split: option.split)

lemma add_kept:
  "quotas_kept s \<Longrightarrow> quotas_kept (fst (add_api u i is now s))" "bookings_ok s \<Longrightarrow> bookings_ok (fst (add_api u i is now s))"
  by (auto simp: add_api_def add_as_kept dest: found_user_group split: option.split)

lemma remove_kept:
  "quotas_kept s \<Longrightarrow> quotas_kept (fst (remove_api u i serials s))" "bookings_ok s \<Longrightarrow> bookings_ok (fst (remove_api u i serials s))"
  by (auto simp: remove_api_def Let_def quotas_removed bookings_removed moved_kept dest: found_user_group split: option.split)

lemma create_kept:
  "quotas_kept s \<Longrightarrow> quotas_kept (fst (create_api u r now s))" "bookings_ok s \<Longrightarrow> bookings_ok (fst (create_api u r now s))"
proof -
  have "first_window (new_booking u r now) = hd (bk_dates (new_booking u r now))"
    by (simp add: new_booking_def Let_def first_window_def computeGroupDates_def)
  then have "bk_dates (new_booking u r now) =
      computeGroupDates (first_window (new_booking u r now)) (bk_class (new_booking u r now)) (bk_repetitions (new_booking u r now))"
    by (simp add: new_booking_def Let_def)
  then show "quotas_kept s \<Longrightarrow> quotas_kept (fst (create_api u r now s))" "bookings_ok s \<Longrightarrow> bookings_ok (fst (create_api u r now s))"
    by (simp_all add: create_api_def Let_def quotas_created bookings_created)
qed

lemma rename_kept:
  assumes "g \<in> set (db_groups s)"
  shows "quotas_kept s \<Longrightarrow> quotas_kept (fst (rename_group g r s))" "bookings_ok s \<Longrightarrow> bookings_ok (fst (rename_group g r s))"
proof -
  show "quotas_kept s \<Longrightarrow> quotas_kept (fst (rename_group g r s))"
    by (simp add: rename_group_def updateGroupName_def quotas_kept_def)
  assume b: "bookings_ok s"
  have "booking_ok (db_next s) (g\<lparr>bk_name := n\<rparr>)" for n
    using b assms by (auto simp: bookings_ok_def booking_ok_def first_window_def)
  moreover have "apart (g\<lparr>bk_name := n\<rparr>) h" if "h \<in> set (db_groups s)" "bk_id h \<noteq> bk_id g" for h n
    using b assms that by (simp add: bookings_ok_def apart_def)
  ultimately have "bookings_ok (update_group (bk_id g) (\<lambda>g. g\<lparr>bk_name := n\<rparr>) s)" for n
    by (intro bookings_kept [OF b assms]) simp_all
  then show "bookings_ok (fst (rename_group g r s))" using b by (simp add: rename_group_def updateGroupName_def)
qed

lemma no_conflicts:
  assumes "checkConflicts i ds ts s = []" and "h \<in> set (db_groups s)" and "bk_id h \<noteq> i" and "\<not> isOriginGroup (bk_class h)" and "set ds \<inter> set (bk_devices h) \<noteq> {}"
  shows "no_overlap ts (bk_dates h)"
proof -
  have "computeConflicts i ds ts h = []" using assms(1,2,4) by (simp add: checkConflicts_def getTransientGroups_def)
  moreover have "filter (\<lambda>d. d \<in> set (bk_devices h)) ds \<noteq> []" using assms(5) by (auto simp: filter_empty_conv)
  ultimately show ?thesis using assms(3) by (auto simp: computeConflicts_def Let_def no_overlap_def split: if_splits)
qed

text \<open>An accepted change keeps the group apart from the others: it was checked, or the windows shrink.\<close>

lemma changed_apart:
  assumes b: "bookings_ok s" and g: "g \<in> set (db_groups s)" and p: "bk_state g = PENDING"
    and c: "bk_devices g \<noteq> [] \<longrightarrow> isOriginGroup (gd_class d) = isOriginGroup (bk_class g)"
    and d: "d = group_data_of g r" and k: "\<not> (grows g d \<and> checkConflicts (bk_id g) (bk_devices g) (gd_dates d) s \<noteq> [])"
    and h: "h \<in> set (db_groups s)" "bk_id h \<noteq> bk_id g"
  shows "apart (set_data d g) h"
proof -
  consider "isOriginGroup (gd_class d)" | "isOriginGroup (bk_class h)" | "set (bk_devices g) \<inter> set (bk_devices h) = {}"
    | (clash) "\<not> isOriginGroup (gd_class d)" "\<not> isOriginGroup (bk_class h)" "set (bk_devices g) \<inter> set (bk_devices h) \<noteq> {}" by blast
  then show ?thesis
  proof cases
    case clash
    have "no_overlap (gd_dates d) (bk_dates h)"
    proof (cases "grows g d")
      case True
      then show ?thesis using no_conflicts [OF _ h(1,2) clash(2,3)] k by simp
    next
      case False
      have "bk_devices g \<noteq> []" using clash(3) by auto
      then have "\<not> isOriginGroup (bk_class g)" using c clash(1) by simp
      moreover have "apart g h" using b g h unfolding bookings_ok_def by metis
      ultimately have o: "no_overlap (bk_dates g) (bk_dates h)" using clash(2,3) unfolding apart_def by blast
      have r: "bk_dates g = computeGroupDates (first_window g) (bk_class g) (bk_repetitions g)" using b g p by (simp add: bookings_ok_def booking_ok_def)
      have f: "wn_start (first_window g) \<le> wn_start (hd (gd_dates d))" "wn_stop (hd (gd_dates d)) \<le> wn_stop (first_window g)"
        "gd_repetitions d \<le> bk_repetitions g" "gd_class d = bk_class g" using False by (auto simp: grows_def not_less)
      have e: "gd_dates d = computeGroupDates (hd (gd_dates d)) (gd_class d) (gd_repetitions d)"
        unfolding d group_data_of_def Let_def by simp
      show ?thesis unfolding no_overlap_def
      proof (intro ballI notI)
        fix t x assume "t \<in> set (gd_dates d)" "x \<in> set (bk_dates h)" "overlaps t x"
        then have "t \<in> set (computeGroupDates (hd (gd_dates d)) (bk_class g) (gd_repetitions d))" using e f(4) by simp
        then obtain v where "v \<in> set (computeGroupDates (first_window g) (bk_class g) (bk_repetitions g))" "overlaps v x"
          using narrower_dates [OF _ \<open>overlaps t x\<close> f(1,2,3)] by blast
        then show False using o \<open>x \<in> set (bk_dates h)\<close> r by (simp add: no_overlap_def)
      qed
    qed
    then show ?thesis by (simp add: apart_def set_data_def)
  qed (simp_all add: apart_def set_data_def)
qed

lemma updateUserGroup_groups:
  "snd (updateUserGroup g d s) = t \<Longrightarrow> db_next t = db_next s \<and>
    (db_groups t = db_groups s \<or> db_groups t = db_groups (update_group (bk_id g) (set_data d) s))"
  by (auto simp: updateUserGroup_def Let_def)

lemma schedule_class:
  "checkSchedule (Some g) c e n p a z s = None \<Longrightarrow> bk_devices g \<noteq> [] \<longrightarrow> isOriginGroup c = isOriginGroup (bk_class g)"
  by (auto simp: checkSchedule_def split: if_splits)

lemma update_kept:
  "quotas_kept s \<Longrightarrow> quotas_kept (fst (update_api u i r s))" "bookings_ok s \<Longrightarrow> bookings_ok (fst (update_api u i r s))"
proof -
  show "quotas_kept s \<Longrightarrow> quotas_kept (fst (update_api u i r s))"
    by (auto simp: update_api_def apply_update_def Let_def quotas_updated rename_kept dest: found_user_group split: option.split)
  assume b: "bookings_ok s"
  show "bookings_ok (fst (update_api u i r s))"
  proof (cases "getUserGroup (rq_email u) i s")
    case (Some g)
    then have g: "g \<in> set (db_groups s)" "bk_id g = i" using found_user_group by blast+
    let ?d = "group_data_of g r"
    have "bookings_ok (fst (apply_update g ?d s))"
      if k: "\<not> (grows g ?d \<and> checkConflicts i (bk_devices g) (gd_dates ?d) s \<noteq> [])" and p: "bk_state g = PENDING"
        and c: "bk_devices g \<noteq> [] \<longrightarrow> isOriginGroup (gd_class ?d) = isOriginGroup (bk_class g)"
    proof -
      have "bookings_ok (update_group (bk_id g) (set_data ?d) s)"
      proof (rule bookings_kept [OF b g(1)])
        show "apart (set_data ?d g) h" if "h \<in> set (db_groups s)" "bk_id h \<noteq> bk_id g" for h
          using changed_apart [OF b g(1) p c refl _ that] k g(2) by simp
        show "booking_ok (db_next s) (set_data ?d g)"
          using b g(1) by (auto simp: bookings_ok_def booking_ok_def set_data_def group_data_of_def Let_def first_window_def computeGroupDates_def)
      qed (simp add: set_data_def)
      then show ?thesis using b updateUserGroup_groups [OF refl, of g ?d s]
        by (auto simp: apply_update_def Let_def bookings_ok_def)
    qed
    then show ?thesis using Some b g rename_kept(2) [OF g(1) b, of r] schedule_class [of g]
      by (auto simp: update_api_def Let_def split: option.split)
  qed (use b in \<open>simp add: update_api_def\<close>)
qed

lemma api_kept: "quotas_kept s \<Longrightarrow> quotas_kept (fst (api_step s e))" "bookings_ok s \<Longrightarrow> bookings_ok (fst (api_step s e))"
  by (cases e; simp add: create_kept delete_kept add_kept remove_kept update_kept quotas_changed bookings_charged)+


interpretation bookings: invariant_machine api_step bookings_ok
  by unfold_locales (rule api_kept)


text \<open>
  C2. No device is booked twice: in every run of requests that are served one after the other, two different groups with a
  schedule that share a device never have windows that overlap, whatever was added to them, repeated,
  moved or shortened, and however often.
\<close>

theorem no_double_booking:
  assumes "bookings_ok s"
    and "g \<in> set (db_groups (fst (run api_step s es)))" and "h \<in> set (db_groups (fst (run api_step s es)))" and "bk_id g \<noteq> bk_id h"
    and "\<not> isOriginGroup (bk_class g)" and "\<not> isOriginGroup (bk_class h)" and "i \<in> set (bk_devices g)" and "i \<in> set (bk_devices h)"
    and "v \<in> set (bk_dates g)" and "w \<in> set (bk_dates h)"
  shows "wn_stop v \<le> wn_start w \<or> wn_stop w \<le> wn_start v"
proof -
  have "apart g h" using bookings.always_run [OF assms(1), of es] assms(2-4) by (simp add: bookings_ok_def)
  then have "no_overlap (bk_dates g) (bk_dates h)" using assms(5-8) by (auto simp: apart_def)
  then have "\<not> overlaps v w" using assms(9,10) by (simp add: no_overlap_def)
  then show ?thesis by (auto simp: overlaps_def)
qed

section \<open>Conflicts are exactly the overlaps\<close>


section \<open>Where the code falls short\<close>

text \<open>
  C40. Requests that interleave do book a device twice: the check and the write of \<open>addGroupDevices\<close> are separate queries, so when two
  groups with overlapping windows ask for the same free device and both checks come before both writes, both get
  it, while the second of two requests in a row is refused.
\<close>

theorem interleaved_requests_double_book:
  assumes "bookings_ok s" and "g \<in> set (db_groups s)" and "h \<in> set (db_groups s)" and "bk_id g \<noteq> bk_id h"
    and "\<not> isOriginGroup (bk_class g)" and "\<not> isOriginGroup (bk_class h)" and "\<not> no_overlap (bk_dates h) (bk_dates g)"
    and "\<not> devices_busy g [i] s" and "\<not> devices_busy h [i] s"
  shows "\<not> bookings_ok (commit_devices h [i] (commit_devices g [i] s)) \<and> devices_busy h [i] (commit_devices g [i] s)"
proof -
  let ?g = "g\<lparr>bk_duration := computeDuration g 1, bk_devices := union_list (bk_devices g) [i]\<rparr>"
  let ?h = "h\<lparr>bk_duration := computeDuration h 1, bk_devices := union_list (bk_devices h) [i]\<rparr>"
  have d: "distinct (map bk_id (db_groups s))" using assms(1) by (simp add: bookings_ok_def)
  have g: "?g \<in> set (db_groups (commit_devices g [i] s))" using assms(2)
    by (auto simp: commit_devices_def intro!: rev_image_eqI [of g])
  then have "?g \<in> set (db_groups (commit_devices h [i] (commit_devices g [i] s)))" using assms(4)
    by (auto simp: commit_devices_def [of h] intro!: rev_image_eqI [of ?g])
  moreover have "h \<in> set (db_groups (commit_devices g [i] s))" using assms(3,4)
    by (auto simp: commit_devices_def intro!: rev_image_eqI [of h])
  then have "?h \<in> set (db_groups (commit_devices h [i] (commit_devices g [i] s)))"
    by (auto simp: commit_devices_def [of h] intro!: rev_image_eqI [of h])
  moreover have "\<not> apart ?g ?h" using assms(5-7) apart_sym [of ?g ?h] by (auto simp: apart_def no_overlap_def overlaps_def)
  ultimately have "\<not> bookings_ok (commit_devices h [i] (commit_devices g [i] s))" using assms(4) unfolding bookings_ok_def by force
  moreover have "devices_busy h [i] (commit_devices g [i] s)"
  proof -
    have "?g \<in> set (filter (\<lambda>h. set (bk_devices h) \<inter> set [i] \<noteq> {}) (getTransientGroups (commit_devices g [i] s)))"
      using g assms(5) by (simp add: getTransientGroups_def)
    moreover obtain t c where "t \<in> set (bk_dates h)" "c \<in> set (bk_dates ?g)" "overlaps t c" using assms(7) by (auto simp: no_overlap_def)
    ultimately show ?thesis unfolding devices_busy_def checkDatesOverlaps_def find_None_iff by blast
  qed
  ultimately show ?thesis by simp
qed

text \<open>
  A refused request is charged: when devices are asked for that are busy, the request is refused and the group stays as it
  is, and yet the owner's quota has been charged for the devices; nothing gives it back.
\<close>

theorem busy_request_is_charged:
  assumes "om_get (db_users s) (bk_owner g) = Some u" and "is \<noteq> []" and "computeDuration g (int (length is)) \<noteq> bk_duration g"
    and "us_duration u + computeDuration g (int (length is)) - bk_duration g \<le> us_max_duration u" and "devices_busy g is s"
  shows "fst (addGroupDevices g is s) = Some ''dates overlap'' \<and> db_groups (snd (addGroupDevices g is s)) = db_groups s \<and>
    om_get (db_users (snd (addGroupDevices g is s))) (bk_owner g) =
      Some (u\<lparr>us_duration := us_duration u + computeDuration g (int (length is)) - bk_duration g\<rparr>)"
proof -
  let ?n = "computeDuration g (int (length is))"
  have c: "charge (bk_duration g) ?n u = u\<lparr>us_duration := us_duration u + ?n - bk_duration g\<rparr>" using assms(4) by (simp add: charge_def)
  have m: "u\<lparr>us_duration := us_duration u + ?n - bk_duration g\<rparr> \<noteq> u"
  proof
    assume "u\<lparr>us_duration := us_duration u + ?n - bk_duration g\<rparr> = u"
    then have "us_duration (u\<lparr>us_duration := us_duration u + ?n - bk_duration g\<rparr>) = us_duration u" by simp
    then show False using assms(3) by simp
  qed
  have r: "charge_devices g is s =
      (True, s\<lparr>db_users := om_set (bk_owner g) (u\<lparr>us_duration := us_duration u + ?n - bk_duration g\<rparr>) (db_users s)\<rparr>)"
    using assms(1) m by (simp add: charge_devices_def updateUserGroupDuration_def update_user_def Let_def c)
  have b: "devices_busy g is (s\<lparr>db_users := us\<rparr>)" for us using assms(5) by (simp add: devices_busy_def getTransientGroups_def)
  show ?thesis using assms(2) by (simp add: addGroupDevices_def Let_def r b)
qed

text \<open>
  A group cannot be resized, and trying costs quota: a change that alters the device time of a group is
  refused as if the quota were reached, also when it is not, and leaves the group as it is, but the owner is charged the difference.
\<close>

theorem resize_is_refused_and_charged:
  assumes "om_get (db_users s) (bk_owner g) = Some u" and "gd_duration d \<noteq> bk_duration g"
    and "us_duration u + gd_duration d - bk_duration g \<le> us_max_duration u"
  shows "snd (apply_update g d s) = [Respond 403 ''Forbidden (groups duration quota is reached)''] \<and>
    db_groups (fst (apply_update g d s)) = db_groups s \<and>
    om_get (db_users (fst (apply_update g d s))) (bk_owner g) = Some (u\<lparr>us_duration := us_duration u + gd_duration d - bk_duration g\<rparr>)"
  using assms by (simp add: apply_update_def updateUserGroup_def updateUserGroupDuration_def update_user_def charge_def Let_def)

text \<open>
  A refused schedule is booked all the same: when the check of the schedule refuses a new group, the client is told so, but as
  long as the user may have another group, the group is created with that schedule.
\<close>

theorem refused_schedule_is_booked:
  assumes "checkSchedule None (bk_class (new_booking u r now)) (rq_email u) (bk_repetitions (new_booking u r now)) (rq_privilege u)
      (wn_start (first_window (new_booking u r now))) (wn_stop (first_window (new_booking u r now))) s = Some (code, msg)"
    and "bookings_ok s" and "om_get (db_users s) (rq_email u) = Some v" and "us_number v < us_max_number v" and "getRootGroup s = Some root"
  shows "answer_of (snd (create_api u r now s)) = Some (code, msg) \<and>
    (\<exists>g. db_groups (fst (create_api u r now s)) = db_groups s @ [g] \<and> bk_dates g = bk_dates (new_booking u r now) \<and>
      bk_class g = bk_class (new_booking u r now))"
proof -
  let ?g = "new_booking u r now"
  have o: "bk_owner ?g = rq_email u" by (simp add: new_booking_def Let_def)
  have "v\<lparr>us_number := us_number v + 1\<rparr> \<noteq> v"
  proof
    assume "v\<lparr>us_number := us_number v + 1\<rparr> = v"
    then have "us_number (v\<lparr>us_number := us_number v + 1\<rparr>) = us_number v" by simp
    then show False by simp
  qed
  then have "reserveUserGroupInstance (rq_email u) s = (True, s\<lparr>db_users := om_set (rq_email u) (v\<lparr>us_number := us_number v + 1\<rparr>) (db_users s)\<rparr>)"
    using assms(3,4) by (simp add: reserveUserGroupInstance_def update_user_def min_def)
  moreover have "getRootGroup (s\<lparr>db_users := us\<rparr>) = Some root" for us using assms(5) by (simp add: getRootGroup_def)
  moreover have "db_groups (snd (addGroupUser (db_next s) e t)) = db_groups t"
    if "db_groups t = db_groups s @ [?g\<lparr>bk_id := db_next s, bk_devices := [], bk_users := us\<rparr>]" "e \<in> set us" for e us t
    using that assms(2) by (intro already_user) (auto simp: bookings_ok_def booking_ok_def)
  ultimately show ?thesis using assms(1) by (simp add: create_api_def createUserGroup_def createGroup_def Let_def o split: option.split)
qed

text \<open>
  Any member of a group adds devices in the name of its owner: a requester who may see the group but not change it gets exactly
  what the owner would get, and the owner's quota pays for it.
\<close>

theorem members_act_as_owner:
  assumes "getUserGroup (rq_email u) i s = Some g" and "\<not> hasGroupEditPermission g u True"
    and "om_get (db_users s) (bk_owner g) = Some w" and "distinct (map bk_id (db_groups s))"
  shows "add_api u i is now s = add_api \<lparr>rq_email = bk_owner g, rq_privilege = us_privilege w\<rparr> i is now s"
proof -
  have g: "g \<in> set (db_groups s)" "bk_id g = i" using found_user_group [OF assms(1)] by auto
  have u: "h = g" if "h \<in> set (db_groups s)" "bk_id h = i" for h using that g assms(4) by (metis distinct_map inj_on_eq_iff)
  have "getUserGroup (bk_owner g) i s \<noteq> None" using g unfolding getUserGroup_def find_None_iff by auto
  then obtain h where h: "getUserGroup (bk_owner g) i s = Some h" by auto
  then have "h = g" using u found_user_group by blast
  then show ?thesis using assms(1-3) h by (simp add: add_api_def hasGroupEditPermission_def)
qed

text \<open>
  A repeated booking is charged for one window more than it has: with \<open>n\<close> repetitions of a class that repeats, the windows are
  \<open>n\<close> copies of the first, and the device time that is charged is that of \<open>n + 1\<close>.
\<close>

theorem repetitions_are_overcharged:
  assumes "CLASS_DURATION (bk_class g) = Some p" and "1 \<le> bk_repetitions g"
    and "bk_dates g = computeGroupDates (first_window g) (bk_class g) (bk_repetitions g)"
  shows "int (length (bk_dates g)) = bk_repetitions g \<and>
    computeDuration g k = (int (length (bk_devices g)) + k) *
      (sum_list (map (\<lambda>w. wn_stop w - wn_start w) (bk_dates g)) + (wn_stop (first_window g) - wn_start (first_window g)))"
proof -
  let ?w = "first_window g" and ?l = "wn_stop (first_window g) - wn_start (first_window g)"
  have "map (\<lambda>w. wn_stop w - wn_start w) (repeat_window n p w) = replicate n (wn_stop w - wn_start w)" for n w
    by (induction n arbitrary: w) (simp_all add: shift_def)
  then have s: "sum_list (map (\<lambda>w. wn_stop w - wn_start w) (repeat_window n p w)) = int n * (wn_stop w - wn_start w)" for n w
    by (simp add: sum_list_replicate)
  have d: "bk_dates g = ?w # repeat_window (nat (bk_repetitions g - 1)) p ?w"
    using assms(1) by (subst assms(3)) (simp add: computeGroupDates_def)
  have n: "int (nat (bk_repetitions g - 1)) = bk_repetitions g - 1" using assms(2) by simp
  have m: "sum_list (map (\<lambda>w. wn_stop w - wn_start w) (bk_dates g)) = ?l + (bk_repetitions g - 1) * ?l"
    by (subst d) (simp only: list.map sum_list.Cons s n)
  have a: "x * l * (r + 1) = x * (l + (r - 1) * l + l)" for x r l :: int by (simp add: algebra_simps)
  have "int (length (bk_dates g)) = bk_repetitions g" using assms(2) by (subst d) simp
  moreover have "computeDuration g k = (int (length (bk_devices g)) + k) * (?l + (bk_repetitions g - 1) * ?l + ?l)"
    unfolding computeDuration_def by (rule a)
  ultimately show ?thesis unfolding m by (intro conjI)
qed

section \<open>Witnesses\<close>

definition wit_group :: "gid \<Rightarrow> string \<Rightarrow> serial list \<Rightarrow> millis \<Rightarrow> millis \<Rightarrow> booking" where
  "wit_group i owner ds a b = \<lparr>bk_id = i, bk_name = ''group'', bk_owner = owner, bk_privilege = USER, bk_class = ONCE, bk_repetitions = 0,
     bk_active = False, bk_dates = [\<lparr>wn_start = a, wn_stop = b\<rparr>], bk_duration = int (length ds) * (b - a), bk_state = READY, bk_devices = ds,
     bk_users = [''root'', owner, ''bob''], bk_moderators = []\<rparr>"

definition wit_root :: booking where
  "wit_root = (wit_group 0 ''root'' [] 0 1000)\<lparr>bk_privilege := ROOT, bk_class := BOOKABLE\<rparr>"

definition wit_user :: user where
  "wit_user = \<lparr>us_privilege = USER, us_number = 2, us_max_number = 10, us_duration = 20, us_max_duration = 1000, us_repetitions = 10,
     us_default_number = 0, us_default_duration = 0, us_default_repetitions = 0, us_subscribed = [0, 1, 2], us_lock = False\<rparr>"

definition wit_db :: "booking list \<Rightarrow> db" where
  "wit_db gs = \<lparr>db_groups = wit_root # gs, db_next = 3, db_users = [(''ann'', wit_user), (''bob'', wit_user)],
     db_devices = [(''d'', \<lparr>dg_current = 0, dg_window = \<lparr>wn_start = 0, wn_stop = 1000\<rparr>, dg_origin = 0\<rparr>)]\<rparr>"


lemmas wit_groups = wit_db_def wit_root_def wit_group_def isOriginGroup_def


theorem no_double_booking_witness:
  "wn_stop \<lparr>wn_start = 0, wn_stop = 10\<rparr> \<le> wn_start \<lparr>wn_start = 10, wn_stop = 20\<rparr> \<or>
    wn_stop \<lparr>wn_start = 10, wn_stop = 20\<rparr> \<le> wn_start \<lparr>wn_start = 0, wn_stop = 10\<rparr>"
proof (rule no_double_booking [of "wit_db [wit_group 1 ''ann'' [''d''] 0 10, wit_group 2 ''bob'' [''d''] 10 20]" "wit_group 1 ''ann'' [''d''] 0 10"
      "[QuotaRequest ''ann'' 0 0 0]" "wit_group 2 ''bob'' [''d''] 10 20" "''d''"])
  show "bookings_ok (wit_db [wit_group 1 ''ann'' [''d''] 0 10, wit_group 2 ''bob'' [''d''] 10 20])"
    by (simp add: wit_groups bookings_ok_def booking_ok_def apart_def no_overlap_def overlaps_def)
qed (simp_all add: wit_groups)


theorem interleaved_requests_double_book_witness:
  "devices_busy (wit_group 2 ''bob'' [] 5 15) [''d'']
    (commit_devices (wit_group 1 ''ann'' [] 0 10) [''d''] (wit_db [wit_group 1 ''ann'' [] 0 10, wit_group 2 ''bob'' [] 5 15]))"
proof -
  let ?g = "wit_group 1 ''ann'' [] 0 10" and ?h = "wit_group 2 ''bob'' [] 5 15"
  have "bookings_ok (wit_db [?g, ?h])" by (simp add: wit_groups bookings_ok_def booking_ok_def apart_def)
  from interleaved_requests_double_book [OF this, of ?g ?h "''d''"] show ?thesis
    by (simp add: wit_groups no_overlap_def overlaps_def devices_busy_def checkDatesOverlaps_def getTransientGroups_def)
qed

theorem busy_request_is_charged_witness:
  "fst (addGroupDevices (wit_group 1 ''ann'' [] 0 10) [''d''] (wit_db [wit_group 1 ''ann'' [] 0 10, wit_group 2 ''bob'' [''d''] 5 15])) = Some ''dates overlap'' \<and>
    om_get (db_users (snd (addGroupDevices (wit_group 1 ''ann'' [] 0 10) [''d''] (wit_db [wit_group 1 ''ann'' [] 0 10, wit_group 2 ''bob'' [''d''] 5 15])))) ''ann'' =
      Some (wit_user\<lparr>us_duration := 30\<rparr>)"
proof -
  let ?s = "wit_db [wit_group 1 ''ann'' [] 0 10, wit_group 2 ''bob'' [''d''] 5 15]" and ?g = "wit_group 1 ''ann'' [] 0 10"
  have a: "bk_owner ?g = ''ann''" "computeDuration ?g 1 = 10" "bk_duration ?g = 0" "us_duration wit_user = 20" "us_max_duration wit_user = 1000"
    by (simp_all add: wit_group_def computeDuration_def first_window_def wit_user_def)
  have b: "om_get (db_users ?s) ''ann'' = Some wit_user" by (simp add: wit_db_def om_get_def)
  have c: "devices_busy ?g [''d''] ?s" by (simp add: wit_groups devices_busy_def checkDatesOverlaps_def getTransientGroups_def overlaps_def)
  from busy_request_is_charged [of ?s ?g wit_user "[''d'']"] show ?thesis using a b c by simp
qed

definition wit_data :: group_data where
  "wit_data = \<lparr>gd_name = ''group'', gd_state = PENDING, gd_class = ONCE, gd_active = False, gd_repetitions = 0,
     gd_dates = [\<lparr>wn_start = 0, wn_stop = 20\<rparr>], gd_duration = 20\<rparr>"

theorem resize_is_refused_and_charged_witness:
  "snd (apply_update (wit_group 1 ''ann'' [''d''] 0 10) wit_data (wit_db [wit_group 1 ''ann'' [''d''] 0 10])) =
      [Respond 403 ''Forbidden (groups duration quota is reached)''] \<and>
    om_get (db_users (fst (apply_update (wit_group 1 ''ann'' [''d''] 0 10) wit_data (wit_db [wit_group 1 ''ann'' [''d''] 0 10])))) ''ann'' =
      Some (wit_user\<lparr>us_duration := 30\<rparr>)"
proof -
  let ?s = "wit_db [wit_group 1 ''ann'' [''d''] 0 10]" and ?g = "wit_group 1 ''ann'' [''d''] 0 10"
  have a: "bk_owner ?g = ''ann''" "gd_duration wit_data = 20" "bk_duration ?g = 10" "us_duration wit_user = 20" "us_max_duration wit_user = 1000"
    by (simp_all add: wit_group_def wit_data_def wit_user_def)
  have b: "om_get (db_users ?s) ''ann'' = Some wit_user" by (simp add: wit_db_def om_get_def)
  from resize_is_refused_and_charged [of ?s ?g wit_user wit_data] show ?thesis using a b by simp
qed

definition wit_create :: create_request where
  "wit_create = \<lparr>cr_class = Some HOURLY, cr_repetitions = Some 3, cr_start = Some 0, cr_stop = Some 7200000, cr_state = None, cr_name = ''long''\<rparr>"

theorem refused_schedule_is_booked_witness:
  "answer_of (snd (create_api \<lparr>rq_email = ''ann'', rq_privilege = USER\<rparr> wit_create 0 (wit_db []))) =
    Some (400, ''Bad Request (Invalid Life time & class combination: life time > class duration)'')"
proof -
  let ?u = "\<lparr>rq_email = ''ann'', rq_privilege = USER\<rparr>"
  have n: "bk_class (new_booking ?u wit_create 0) = HOURLY" "bk_repetitions (new_booking ?u wit_create 0) = 3"
    "first_window (new_booking ?u wit_create 0) = \<lparr>wn_start = 0, wn_stop = 7200000\<rparr>"
    by (simp_all add: new_booking_def wit_create_def isOriginGroup_def first_window_def computeGroupDates_def Let_def)
  have "checkSchedule None HOURLY ''ann'' 3 USER 0 7200000 (wit_db []) =
      Some (400, ''Bad Request (Invalid Life time & class combination: life time > class duration)'')"
    by (simp add: checkSchedule_def isAdminGroup_def isOriginGroup_def ONE_HOUR_def)
  moreover have "getRootGroup (wit_db []) = Some wit_root" by (simp add: getRootGroup_def wit_db_def wit_root_def wit_group_def)
  moreover have "om_get (db_users (wit_db [])) ''ann'' = Some wit_user" by (simp add: wit_db_def om_get_def)
  moreover have "bookings_ok (wit_db [])" by (simp add: wit_groups bookings_ok_def booking_ok_def)
  ultimately show ?thesis using refused_schedule_is_booked [of ?u wit_create 0 "wit_db []"] n by (simp add: wit_user_def)
qed

theorem members_act_as_owner_witness:
  "add_api \<lparr>rq_email = ''bob'', rq_privilege = USER\<rparr> 1 [''d''] 0 (wit_db [wit_group 1 ''ann'' [] 0 10]) =
    add_api \<lparr>rq_email = ''ann'', rq_privilege = USER\<rparr> 1 [''d''] 0 (wit_db [wit_group 1 ''ann'' [] 0 10])"
  using members_act_as_owner [of "\<lparr>rq_email = ''bob'', rq_privilege = USER\<rparr>" 1 "wit_db [wit_group 1 ''ann'' [] 0 10]" "wit_group 1 ''ann'' [] 0 10" wit_user "[''d'']" 0]
  by (simp add: wit_groups getUserGroup_def hasGroupEditPermission_def om_get_def wit_user_def)

theorem repetitions_are_overcharged_witness:
  "computeDuration ((wit_group 1 ''ann'' [] 0 10)\<lparr>bk_class := DAILY, bk_repetitions := 2,
      bk_dates := computeGroupDates \<lparr>wn_start = 0, wn_stop = 10\<rparr> DAILY 2\<rparr>) 1 = 30"
proof -
  let ?g = "(wit_group 1 ''ann'' [] 0 10)\<lparr>bk_class := DAILY, bk_repetitions := 2, bk_dates := computeGroupDates \<lparr>wn_start = 0, wn_stop = 10\<rparr> DAILY 2\<rparr>"
  have "first_window ?g = \<lparr>wn_start = 0, wn_stop = 10\<rparr>" by (simp add: first_window_def computeGroupDates_def)
  then show ?thesis using repetitions_are_overcharged [of ?g ONE_DAY 1]
    by (simp add: wit_group_def computeGroupDates_def numeral_2_eq_2 shift_def)
qed

end
