(* ===== verification/Booking_Scheduler.thy ===== *)
theory Booking_Scheduler imports Booking_Api begin

text \<open>
  \<open>lib/db/handlers/group/scheduler.js\<close>: the scheduler that makes groups active when their window starts and
  moves or deletes them when it ends. A job is a value that names what the closure of the code does; a task that is due when it is set is
  processed at once (\<open>ProcessNow\<close>, a job that the environment lets run later) and queued as well. The debounced reload of all
  groups is an event; a job runs to its end, on the group that the database has at that moment.
\<close>

section \<open>Tasks and the queue\<close>

datatype job = BecomeActive | DeleteGroup | RenewOrigin | MoveWindow nat bool | EndWindow bool

record sched_task =
  tk_group :: gid
  tk_time :: millis
  tk_job :: job

record scheduler =
  sc_queue :: "nat list"
  sc_tasks :: "nat \<Rightarrow> sched_task option"
  sc_next :: nat
  sc_timer :: "(nat \<times> millis) option"
  sc_jobs :: "sched_task list"

definition sched_new :: scheduler where
  "sched_new = \<lparr>sc_queue = [], sc_tasks = (\<lambda>_. None), sc_next = 0, sc_timer = None, sc_jobs = []\<rparr>"

text \<open>The loop over the queue: the key goes before the first task that is later.\<close>

fun enqueue :: "(nat \<Rightarrow> sched_task option) \<Rightarrow> nat \<Rightarrow> millis \<Rightarrow> nat list \<Rightarrow> nat list" where
  "enqueue tasks key time [] = [key]"
| "enqueue tasks key time (k # ks) =
     (if (case tasks k of None \<Rightarrow> False | Some t \<Rightarrow> time < tk_time t) then key # k # ks else k # enqueue tasks key time ks)"

definition setScheduledTask :: "millis \<Rightarrow> sched_task \<Rightarrow> scheduler \<Rightarrow> scheduler" where
  "setScheduledTask now t c =
     (let c1 = (if tk_time t \<le> now then c\<lparr>sc_jobs := sc_jobs c @ [t]\<rparr> else c);
          tasks = (sc_tasks c1)(sc_next c1 := Some t)
      in c1\<lparr>sc_tasks := tasks, sc_queue := enqueue tasks (sc_next c1) (tk_time t) (sc_queue c1), sc_next := Suc (sc_next c1)\<rparr>)"

function schedule_next :: "millis \<Rightarrow> scheduler \<Rightarrow> scheduler" where
  "schedule_next now c =
     (case sc_queue c of
        [] \<Rightarrow> c\<lparr>sc_timer := None\<rparr>
      | key # rest \<Rightarrow>
          (case sc_tasks c key of
             None \<Rightarrow> c\<lparr>sc_timer := None, sc_queue := rest\<rparr>
           | Some t \<Rightarrow>
               (if ONE_YEAR \<le> max 0 (tk_time t - now)
                then schedule_next now (c\<lparr>sc_timer := None, sc_queue := rest, sc_tasks := (sc_tasks c)(key := None)\<rparr>)
                else c\<lparr>sc_queue := rest, sc_timer := Some (key, now + max 0 (tk_time t - now))\<rparr>)))"
  by pat_completeness auto
termination
  by (relation "measure (\<lambda>(now, c). length (sc_queue c))") auto

declare schedule_next.simps [simp del]

section \<open>What is to be done for a group\<close>

definition last_window :: "booking \<Rightarrow> window" where
  "last_window g = last (bk_dates g)"

text \<open>\<open>findIndex\<close> over the windows from the number \<open>i\<close> on.\<close>

fun find_window :: "int \<Rightarrow> millis \<Rightarrow> nat \<Rightarrow> window list \<Rightarrow> nat option" where
  "find_window r now i [] = None"
| "find_window r now i (w # ws) = (if r - 1 < int i \<and> now < wn_stop w then Some i else find_window r now (Suc i) ws)"

definition processGroup :: "millis \<Rightarrow> booking \<Rightarrow> sched_task list" where
  "processGroup now g =
     (let task = (\<lambda>t j. \<lparr>tk_group = bk_id g, tk_time = t, tk_job = j\<rparr>) in
      if bk_dates g = [] then []
      else if wn_stop (last_window g) \<le> now
      then [task (wn_stop (last_window g)) (if isOriginGroup (bk_class g) then RenewOrigin else DeleteGroup)]
      else if isOriginGroup (bk_class g) then []
      else
        (if bk_class g = ONCE then []
         else (case find_window (bk_repetitions g) now 0 (bk_dates g) of
             Some (Suc i) \<Rightarrow> [task (wn_stop (bk_dates g ! i)) (MoveWindow (Suc i) (bk_active g))]
           | _ \<Rightarrow> [])) @
        (if now < wn_stop (first_window g) \<and> \<not> bk_active g then [task (wn_start (first_window g)) BecomeActive] else []) @
        [task (wn_stop (first_window g)) (EndWindow (length (bk_dates g) = 1))])"

definition getReadyGroups :: "db \<Rightarrow> booking list" where
  "getReadyGroups s = filter (\<lambda>g. bk_state g \<noteq> PENDING) (db_groups s)"

definition all_tasks :: "millis \<Rightarrow> db \<Rightarrow> sched_task list" where
  "all_tasks now s = concat (map (processGroup now) (getReadyGroups s))"

definition scheduleAllGroupsTasks :: "millis \<Rightarrow> db \<Rightarrow> scheduler \<Rightarrow> scheduler" where
  "scheduleAllGroupsTasks now s c =
     schedule_next now (fold (setScheduledTask now) (all_tasks now s) (c\<lparr>sc_tasks := (\<lambda>_. None), sc_queue := []\<rparr>))"

section \<open>Jobs\<close>

text \<open>
  \<open>updateGroupDates\<close>. Without a window that is left the code throws, which \<open>processTask\<close> only logs.
\<close>

definition updateGroupDates :: "booking \<Rightarrow> nat \<Rightarrow> bool \<Rightarrow> db \<Rightarrow> db" where
  "updateGroupDates g k active s =
     (let repetitions = bk_repetitions g - int k; dates = drop k (bk_dates g) in
      case dates of
        [] \<Rightarrow> s
      | w # _ \<Rightarrow>
          (let duration = int (length (bk_devices g)) * (wn_stop w - wn_start w) * (repetitions + 1);
               s1 = update_group (bk_id g) (\<lambda>h. h\<lparr>bk_dates := dates, bk_repetitions := repetitions, bk_duration := duration,
                      bk_active := active, bk_state := READY\<rparr>) s;
               s2 = (if \<not> active then updateDevicesCurrentGroupFromOrigin (bk_devices g) s1 else s1)
           in snd (snd (updateUserGroupDuration (bk_owner g) (bk_duration g) duration s2))))"

definition doBecomeActiveGroup :: "booking \<Rightarrow> db \<Rightarrow> db" where
  "doBecomeActiveGroup g s =
     updateDevicesCurrentGroup (bk_devices g) g (update_group (bk_id g) (\<lambda>h. h\<lparr>bk_active := True\<rparr>) s)"

definition doBecomeUnactiveGroup :: "booking \<Rightarrow> db \<Rightarrow> db" where
  "doBecomeUnactiveGroup g s = updateGroupDates g 0 True s"

definition updateOriginGroupLifetime :: "booking \<Rightarrow> millis \<Rightarrow> db \<Rightarrow> db" where
  "updateOriginGroupLifetime g now s =
     update_group (bk_id g) (\<lambda>h. h\<lparr>bk_dates := [\<lparr>wn_start = now,
       wn_stop = max (now + (wn_stop (first_window g) - wn_start (first_window g))) ONE_HOUR\<rparr>]\<rparr>) s"

fun do_job :: "job \<Rightarrow> booking \<Rightarrow> millis \<Rightarrow> db \<Rightarrow> db" where
  "do_job BecomeActive g now s = doBecomeActiveGroup g s"
| "do_job DeleteGroup g now s = deleteUserGroup (bk_id g) s"
| "do_job RenewOrigin g now s = updateOriginGroupLifetime g now s"
| "do_job (MoveWindow k active) g now s = updateGroupDates g k active s"
| "do_job (EndWindow isLastRepetition) g now s =
     (if bk_class g = ONCE \<or> isLastRepetition then deleteUserGroup (bk_id g) s else doBecomeUnactiveGroup g s)"

definition processTask :: "sched_task \<Rightarrow> millis \<Rightarrow> db \<Rightarrow> db" where
  "processTask t now s = (case getGroup (tk_group t) s of None \<Rightarrow> s | Some g \<Rightarrow> do_job (tk_job t) g now s)"

section \<open>The machine\<close>

datatype sched_event =
    Reload millis
  | TimerFires millis
  | RunJob nat millis

fun sched_step :: "db \<times> scheduler \<Rightarrow> sched_event \<Rightarrow> (db \<times> scheduler) \<times> unit list" where
  "sched_step (s, c) (Reload now) = ((s, scheduleAllGroupsTasks now s c), [])"
| "sched_step (s, c) (TimerFires now) =
     (case sc_timer c of
        None \<Rightarrow> ((s, c), [])
      | Some (key, due) \<Rightarrow>
          (if now < due then ((s, c), [])
           else
             (let c1 = c\<lparr>sc_timer := None, sc_tasks := (sc_tasks c)(key := None)\<rparr>;
                  s1 = (case sc_tasks c key of None \<Rightarrow> s | Some t \<Rightarrow> processTask t now s)
              in ((s1, schedule_next now c1), []))))"
| "sched_step (s, c) (RunJob k now) =
     (if k < length (sc_jobs c) then ((processTask (sc_jobs c ! k) now s, c\<lparr>sc_jobs := remove_nth k (sc_jobs c)\<rparr>), [])
      else ((s, c), []))"

section \<open>The queue is sorted\<close>

text \<open>The tasks of the queue, and the insertion on them.\<close>

definition queue_tasks :: "scheduler \<Rightarrow> sched_task list" where
  "queue_tasks c = map (\<lambda>k. the (sc_tasks c k)) (sc_queue c)"

definition keys_known :: "scheduler \<Rightarrow> bool" where
  "keys_known c \<longleftrightarrow> (\<forall>k \<in> set (sc_queue c). k < sc_next c \<and> sc_tasks c k \<noteq> None)"

fun insert_task :: "sched_task \<Rightarrow> sched_task list \<Rightarrow> sched_task list" where
  "insert_task t [] = [t]"
| "insert_task t (u # us) = (if tk_time t < tk_time u then t # u # us else u # insert_task t us)"

lemma set_enqueue: "set (enqueue tasks key time ks) = insert key (set ks)"
  by (induction ks) auto

lemma enqueue_tasks:
  assumes "\<forall>k \<in> set ks. k \<noteq> key \<and> tasks k \<noteq> None"
  shows "map (\<lambda>k. the ((tasks(key := Some t)) k)) (enqueue (tasks(key := Some t)) key (tk_time t) ks) = insert_task t (map (\<lambda>k. the (tasks k)) ks)"
  using assms by (induction ks) auto

lemma setScheduledTask_queue:
  assumes "keys_known c"
  shows "queue_tasks (setScheduledTask now t c) = insert_task t (queue_tasks c) \<and> keys_known (setScheduledTask now t c)"
proof -
  have k: "\<forall>k \<in> set (sc_queue c). k \<noteq> sc_next c \<and> sc_tasks c k \<noteq> None" using assms by (auto simp: keys_known_def)
  show ?thesis using enqueue_tasks [OF k] assms
    by (auto simp: queue_tasks_def setScheduledTask_def keys_known_def Let_def set_enqueue cong: if_cong)
qed

lemma insert_task_sorts: "sort_key tk_time (ts @ [t]) = insert_task t (sort_key tk_time ts)"
proof (rule properties_for_sort_key)
  have m: "mset (insert_task t us) = add_mset t (mset us)" for us by (induction us) auto
  then show "mset (insert_task t (sort_key tk_time ts)) = mset (ts @ [t])" by simp
  have s: "sorted (map tk_time (insert_task t us))" if "sorted (map tk_time us)" for us
  proof -
    have "set (insert_task t vs) = insert t (set vs)" for vs using arg_cong [OF m [of vs], of set_mset] by simp
    then show ?thesis using that by (induction us) auto
  qed
  show "sorted (map tk_time (insert_task t (sort_key tk_time ts)))" by (rule s) simp
  have f: "filter (\<lambda>x. tk_time k = tk_time x) (insert_task t us) = filter (\<lambda>x. tk_time k = tk_time x) us @ (if tk_time k = tk_time t then [t] else [])"
    if "sorted (map tk_time us)" for us k
    using that
  proof (induction us)
    case (Cons a us)
    have "filter (\<lambda>x. tk_time t = tk_time x) us = []" if "tk_time t < tk_time a"
      using Cons.prems that by (force simp: filter_empty_conv)
    then show ?case using Cons by auto
  qed simp
  show "filter (\<lambda>x. tk_time k = tk_time x) (insert_task t (sort_key tk_time ts)) = filter (\<lambda>x. tk_time k = tk_time x) (ts @ [t])" for k
  proof -
    have "filter (\<lambda>x. tk_time k = tk_time x) (sort_key tk_time ts) = filter (\<lambda>x. tk_time k = tk_time x) ts"
      using sort_key_stable [of tk_time "tk_time k" ts] by (simp add: eq_commute)
    then show ?thesis by (simp add: f)
  qed
qed

lemma fold_queue:
  "keys_known c \<Longrightarrow> queue_tasks c = sort_key tk_time us \<Longrightarrow>
   queue_tasks (fold (setScheduledTask now) ts c) = sort_key tk_time (us @ ts) \<and> keys_known (fold (setScheduledTask now) ts c)"
proof (induction ts arbitrary: c us)
  case (Cons t ts)
  have "queue_tasks (setScheduledTask now t c) = sort_key tk_time (us @ [t])" "keys_known (setScheduledTask now t c)"
    using setScheduledTask_queue [OF Cons.prems(1), of now t] Cons.prems(2) by (simp_all add: insert_task_sorts)
  from Cons.IH [OF this(2,1)] show ?case by simp
qed simp

text \<open>
  The scheduler works in order of time: whatever tasks are set in whatever order, the queue holds them sorted by
  their times, tasks of the same time in the order they were set; and the timer that is started then is for the first of them,
  at its time or at once if that is over (unless it is more than a year away).
\<close>

theorem scheduler_takes_earliest:
  assumes "sort_key tk_time (all_tasks now s) = t # ts" and "tk_time t - now < ONE_YEAR"
  shows "queue_tasks (fold (setScheduledTask now) us (c\<lparr>sc_tasks := (\<lambda>_. None), sc_queue := []\<rparr>)) = sort_key tk_time us \<and>
    (\<exists>key. sc_timer (scheduleAllGroupsTasks now s c) = Some (key, max now (tk_time t)) \<and> sc_tasks (scheduleAllGroupsTasks now s c) key = Some t) \<and>
    queue_tasks (scheduleAllGroupsTasks now s c) = ts"
proof -
  let ?c = "c\<lparr>sc_tasks := (\<lambda>_. None), sc_queue := []\<rparr>"
  have k: "keys_known ?c" "queue_tasks ?c = sort_key tk_time []" by (simp_all add: keys_known_def queue_tasks_def)
  let ?d = "fold (setScheduledTask now) (all_tasks now s) ?c"
  have d: "queue_tasks ?d = t # ts" "keys_known ?d" using fold_queue [OF k, of now "all_tasks now s"] assms(1) by simp_all
  then obtain key rest where q: "sc_queue ?d = key # rest" "the (sc_tasks ?d key) = t" "map (\<lambda>k. the (sc_tasks ?d k)) rest = ts"
    by (auto simp: queue_tasks_def)
  then have t: "sc_tasks ?d key = Some t" using d(2) by (auto simp: keys_known_def)
  have "schedule_next now ?d = ?d\<lparr>sc_queue := rest, sc_timer := Some (key, now + max 0 (tk_time t - now))\<rparr>"
    using q(1) t assms(2) by (simp add: schedule_next.simps [of now ?d] ONE_YEAR_def ONE_DAY_def ONE_HOUR_def max_def)
  moreover have "now + max 0 (tk_time t - now) = max now (tk_time t)" by (simp add: max_def)
  ultimately show ?thesis using fold_queue [OF k, of now us] q t
    by (simp add: scheduleAllGroupsTasks_def queue_tasks_def)
qed

section \<open>Groups and devices after a job\<close>

lemma getGroup_update:
  "(\<And>g. bk_id (f g) = bk_id g) \<Longrightarrow> getGroup i (update_group j f s) = (if i = j then map_option f (getGroup i s) else getGroup i s)"
proof -
  assume f: "\<And>g. bk_id (f g) = bk_id g"
  have "List.find (\<lambda>g. bk_id g = i) (map (\<lambda>g. if bk_id g = j then f g else g) gs) =
      (if i = j then map_option f (List.find (\<lambda>g. bk_id g = i) gs) else List.find (\<lambda>g. bk_id g = i) gs)" for gs
    by (induction gs) (auto simp: f)
  then show ?thesis by (simp add: getGroup_def)
qed

lemma getGroup_same: "db_groups t = db_groups s \<Longrightarrow> getGroup i t = getGroup i s"
  by (simp add: getGroup_def)

lemma held_devices:
  "om_get (db_devices (updateDevicesCurrentGroup is g s)) d =
    (if d \<in> set is then map_option (\<lambda>x. x\<lparr>dg_current := bk_id g, dg_window := first_window g\<rparr>) (om_get (db_devices s) d)
     else om_get (db_devices s) d)"
proof -
  have one: "om_get (db_devices (hold_device g i s)) j =
      (if j = i then map_option (\<lambda>x. x\<lparr>dg_current := bk_id g, dg_window := first_window g\<rparr>) (om_get (db_devices s) j) else om_get (db_devices s) j)"
    for i j s by (auto simp: hold_device_def split: option.splits)
  have "om_get (db_devices (fold (hold_device g) is s)) d =
    (if d \<in> set is then map_option (\<lambda>x. x\<lparr>dg_current := bk_id g, dg_window := first_window g\<rparr>) (om_get (db_devices s) d)
     else om_get (db_devices s) d)" for "is" s
    by (induction "is" arbitrary: s) (auto simp: one option.map_comp o_def)
  then show ?thesis by (simp add: updateDevicesCurrentGroup_def)
qed

text \<open>
  An active booking has its devices: when the window of a group starts, the scheduler's job makes the group active and
  every device of the group that the database knows is held by it until the end of that window, while
  other devices stay where they are.
\<close>

theorem booking_takes_its_devices:
  assumes "getGroup i s = Some g" and "t = \<lparr>tk_group = i, tk_time = a, tk_job = BecomeActive\<rparr>" and "om_get (db_devices s) d = Some x"
  shows "map_option bk_active (getGroup i (processTask t now s)) = Some True \<and>
    om_get (db_devices (processTask t now s)) d =
      Some (if d \<in> set (bk_devices g) then x\<lparr>dg_current := i, dg_window := first_window g\<rparr> else x)"
proof -
  have g: "bk_id g = i" using assms(1) found_group by blast
  have p: "processTask t now s = updateDevicesCurrentGroup (bk_devices g) g (update_group i (\<lambda>h. h\<lparr>bk_active := True\<rparr>) s)"
    using assms(1,2) g by (simp add: processTask_def doBecomeActiveGroup_def)
  have "getGroup i (processTask t now s) = getGroup i (update_group i (\<lambda>h. h\<lparr>bk_active := True\<rparr>) s)"
    unfolding p by (rule getGroup_same) (simp only: only_devices_moved)
  then have "getGroup i (processTask t now s) = Some (g\<lparr>bk_active := True\<rparr>)" using assms(1) by (simp add: getGroup_update)
  then show ?thesis using assms(3) g unfolding p held_devices by simp
qed

lemma returned_devices:
  assumes "om_get (db_devices s) d = Some x" and "getGroup (dg_origin x) s = Some h" and "d \<in> set is"
  shows "om_get (db_devices (updateDevicesCurrentGroupFromOrigin is s)) d = Some (x\<lparr>dg_current := dg_origin x, dg_window := first_window h\<rparr>)"
proof -
  have h: "bk_id h = dg_origin x" using assms(2) found_group by blast
  have other: "om_get (db_devices (return_device i u)) d = om_get (db_devices u) d" if "i \<noteq> d" for i u
    using that by (auto simp: return_device_def hold_device_def split: option.splits)
  have self: "om_get (db_devices (return_device d u)) d = Some (y\<lparr>dg_current := bk_id h, dg_window := first_window h\<rparr>)"
    if "om_get (db_devices u) d = Some y" "getGroup (dg_origin y) u = Some h" for u y
    using that by (simp add: return_device_def hold_device_def)
  have again: "om_get (db_devices (fold return_device is u)) d = om_get (db_devices u) d"
    if "om_get (db_devices u) d = Some y" "y = y\<lparr>dg_current := bk_id h, dg_window := first_window h\<rparr>" "getGroup (dg_origin y) u = Some h" for "is" u y
    using that
  proof (induction "is" arbitrary: u)
    case (Cons i "is")
    have e: "om_get (db_devices (return_device i u)) d = Some y"
    proof (cases "i = d")
      case True
      then show ?thesis using self [OF Cons.prems(1,3)] Cons.prems(2) by (metis True)
    next
      case False
      then show ?thesis using other Cons.prems(1) by simp
    qed
    have "getGroup (dg_origin y) (return_device i u) = Some h" using Cons.prems(3) by (simp add: getGroup_def)
    from Cons.IH [OF e Cons.prems(2) this] show ?case using e Cons.prems(1) by simp
  qed simp
  have "om_get (db_devices (fold return_device is u)) d = Some (x\<lparr>dg_current := bk_id h, dg_window := first_window h\<rparr>)"
    if "om_get (db_devices u) d = Some x" "getGroup (dg_origin x) u = Some h" "d \<in> set is" for u "is"
    using that
  proof (induction "is" arbitrary: u)
    case (Cons i "is")
    show ?case
    proof (cases "i = d")
      case True
      let ?y = "x\<lparr>dg_current := bk_id h, dg_window := first_window h\<rparr>"
      have "om_get (db_devices (return_device i u)) d = Some ?y" using self [OF Cons.prems(1,2)] True by simp
      moreover have "getGroup (dg_origin ?y) (return_device i u) = Some h" using Cons.prems(2) by (simp add: getGroup_def)
      ultimately show ?thesis using again [of "return_device i u" ?y "is"] by simp
    next
      case False
      then have "om_get (db_devices (return_device i u)) d = Some x" "getGroup (dg_origin x) (return_device i u) = Some h"
        using Cons.prems(1,2) other by (simp_all add: getGroup_def)
      from Cons.IH [OF this] show ?thesis using Cons.prems(3) False by simp
    qed
  qed simp
  from this [OF assms] show ?thesis by (simp add: updateDevicesCurrentGroupFromOrigin_def h)
qed

lemma devices_of_quotas:
  "db_devices (snd (snd (updateUserGroupDuration e old new s))) = db_devices s" "db_devices (releaseUserGroupInstance e s) = db_devices s"
  by (auto simp: updateUserGroupDuration_def releaseUserGroupInstance_def update_user_def Let_def split: option.splits)

text \<open>
  An expired booking gives back everything: when the job that deletes a user group has run, no group has its id,
  every device of it that is known has returned to the group it comes from (with that group's life time), the owner's number of
  groups is one less and the duration that the group was charged for is released, and the owner no longer subscribes to the group.
\<close>

theorem expired_booking_gives_everything_back:
  assumes "getGroup i s = Some g" and "bk_privilege g \<noteq> ROOT" and "\<not> isOriginGroup (bk_class g)"
    and "om_get (db_users s) (bk_owner g) = Some u" and "us_duration u \<le> us_max_duration u" and "0 \<le> bk_duration g"
    and "bk_owner g \<in> set (bk_users g)" and "d \<in> set (bk_devices g)" and "om_get (db_devices s) d = Some x" and "getGroup (dg_origin x) s = Some h" and "dg_origin x \<noteq> i"
    and "t = \<lparr>tk_group = i, tk_time = a, tk_job = DeleteGroup\<rparr>"
  shows "getGroup i (processTask t now s) = None \<and>
    om_get (db_devices (processTask t now s)) d = Some (x\<lparr>dg_current := dg_origin x, dg_window := first_window h\<rparr>) \<and>
    om_get (db_users (processTask t now s)) (bk_owner g) =
      Some (u\<lparr>us_number := max (us_number u - 1) 0, us_duration := us_duration u - bk_duration g, us_subscribed := filter (\<lambda>j. j \<noteq> i) (us_subscribed u)\<rparr>)"
proof -
  have g: "bk_id g = i" using assms(1) found_group by blast
  define s1 where "s1 = fold (unsubscribe i) (bk_users g) (s\<lparr>db_groups := filter (\<lambda>h. bk_id h \<noteq> i) (db_groups s)\<rparr>)"
  define s3 where "s3 = snd (snd (updateUserGroupDuration (bk_owner g) (bk_duration g) 0 (releaseUserGroupInstance (bk_owner g) s1)))"
  have p: "processTask t now s = updateDevicesCurrentGroupFromOrigin (bk_devices g) s3"
    using assms(1,2,3,12) g by (simp add: processTask_def deleteUserGroup_def s3_def s1_def Let_def)
  have "List.find (\<lambda>h. bk_id h = i) (filter (\<lambda>h. bk_id h \<noteq> i) gs) = None" for gs :: "booking list" by (simp add: find_None_iff)
  then have "getGroup i s3 = None" by (simp add: getGroup_def s3_def s1_def)
  moreover have "getGroup i (updateDevicesCurrentGroupFromOrigin (bk_devices g) s3) = getGroup i s3" by (rule getGroup_same) simp
  moreover have "om_get (db_users s3) (bk_owner g) = Some (charge (bk_duration g) 0
      (u\<lparr>us_subscribed := filter (\<lambda>j. j \<noteq> i) (us_subscribed u), us_number := max (us_number u - 1) 0\<rparr>))"
    using assms(4,7) by (simp add: s3_def updateUserGroupDuration_def releaseUserGroupInstance_def updated_user unsubscribed_user Let_def s1_def)
  moreover have "db_users (updateDevicesCurrentGroupFromOrigin (bk_devices g) s3) = db_users s3" by simp
  moreover have "om_get (db_devices (updateDevicesCurrentGroupFromOrigin (bk_devices g) s3)) d =
      Some (x\<lparr>dg_current := dg_origin x, dg_window := first_window h\<rparr>)"
  proof (rule returned_devices)
    show "om_get (db_devices s3) d = Some x" using assms(9) by (simp add: s3_def s1_def devices_of_quotas)
    have "List.find (\<lambda>h. bk_id h = k) (filter (\<lambda>h. bk_id h \<noteq> i) gs) = List.find (\<lambda>h. bk_id h = k) gs" if "k \<noteq> i" for k and gs :: "booking list"
      using that by (induction gs) auto
    then show "getGroup (dg_origin x) s3 = Some h" using assms(10,11) by (simp add: getGroup_def s3_def s1_def)
  qed (rule assms(8))
  ultimately show ?thesis unfolding p using assms(5,6) by (simp add: charge_def)
qed

section \<open>Repeated bookings\<close>

text \<open>The reloads of a run come before the end of the last window of a group.\<close>

fun reloads_before :: "millis \<Rightarrow> sched_event \<Rightarrow> bool" where
  "reloads_before stop (Reload now) = (now < stop)"
| "reloads_before stop _ = True"

text \<open>What stays true of the group \<open>i\<close> and of the tasks for it.\<close>

definition stuck_group :: "gid \<Rightarrow> booking \<Rightarrow> db \<Rightarrow> bool" where
  "stuck_group i g s \<longleftrightarrow> getGroup i s \<noteq> None \<and>
     (\<forall>h \<in> set (db_groups s). bk_id h = i \<longrightarrow> bk_dates h = bk_dates g \<and> bk_repetitions h = bk_repetitions g \<and> bk_class h = bk_class g)"

definition stuck_task :: "gid \<Rightarrow> sched_task \<Rightarrow> bool" where
  "stuck_task i t \<longleftrightarrow> tk_group t = i \<longrightarrow> tk_job t = BecomeActive \<or> tk_job t = EndWindow False"

definition stuck_tasks :: "gid \<Rightarrow> scheduler \<Rightarrow> bool" where
  "stuck_tasks i c \<longleftrightarrow> (\<forall>t \<in> set (sc_jobs c). stuck_task i t) \<and> (\<forall>k t. sc_tasks c k = Some t \<longrightarrow> stuck_task i t)"

definition repeated :: "booking \<Rightarrow> bool" where
  "repeated g \<longleftrightarrow> CLASS_DURATION (bk_class g) \<noteq> None \<and> 2 \<le> bk_repetitions g \<and>
     bk_dates g = computeGroupDates (first_window g) (bk_class g) (bk_repetitions g)"

lemma find_window_late: "int (i + length ws) \<le> r \<Longrightarrow> find_window r now i ws = None"
  by (induction ws arbitrary: i) auto

lemma repeated_length: "repeated g \<Longrightarrow> int (length (bk_dates g)) = bk_repetitions g"
proof -
  assume r: "repeated g"
  then obtain e where e: "CLASS_DURATION (bk_class g) = Some e" "2 \<le> bk_repetitions g" by (auto simp: repeated_def)
  have d: "bk_dates g = computeGroupDates (first_window g) (bk_class g) (bk_repetitions g)" using r by (simp add: repeated_def)
  have "length (computeGroupDates w (bk_class g) (bk_repetitions g)) = Suc (nat (bk_repetitions g - 1))" for w
    using e by (simp add: computeGroupDates_def)
  then show ?thesis using e(2) by (subst d) simp
qed

lemma repeated_class: "CLASS_DURATION c \<noteq> None \<Longrightarrow> c \<noteq> ONCE \<and> \<not> isOriginGroup c"
  by (cases c) (auto simp: isOriginGroup_def)

lemma repeated_tasks:
  assumes "repeated g" and "bk_dates h = bk_dates g" and "bk_repetitions h = bk_repetitions g" and "bk_class h = bk_class g"
    and "now < wn_stop (last_window g)" and "t \<in> set (processGroup now h)"
  shows "tk_job t = BecomeActive \<or> tk_job t = EndWindow False"
proof -
  have l: "int (length (bk_dates h)) = bk_repetitions h" "2 \<le> length (bk_dates h)"
    using repeated_length [OF assms(1)] assms(1,2,3) by (simp_all add: repeated_def)
  then have "find_window (bk_repetitions h) now 0 (bk_dates h) = None" by (simp add: find_window_late)
  moreover have "last_window h = last_window g" by (simp add: last_window_def assms(2))
  moreover have "bk_class h \<noteq> ONCE" "\<not> isOriginGroup (bk_class h)" using repeated_class assms(1,4) by (auto simp: repeated_def)
  ultimately show ?thesis using assms(5,6) l(2) by (auto simp: processGroup_def Let_def split: if_splits)
qed

lemma stuck_update:
  assumes "stuck_group i g s" and "\<And>h. bk_id (f h) = bk_id h"
    and "j \<noteq> i \<or> (\<forall>h \<in> set (db_groups s). bk_id h = i \<longrightarrow> bk_dates (f h) = bk_dates g \<and> bk_repetitions (f h) = bk_repetitions g \<and> bk_class (f h) = bk_class g)"
  shows "stuck_group i g (update_group j f s)"
proof -
  have "getGroup i (update_group j f s) \<noteq> None" using assms(1) getGroup_update [of f i j s, OF assms(2)] by (auto simp: stuck_group_def)
  then show ?thesis using assms by (auto simp: stuck_group_def)
qed

lemma stuck_same: "db_groups t = db_groups s \<Longrightarrow> stuck_group i g t = stuck_group i g s"
  by (simp add: stuck_group_def getGroup_def)

lemma stuck_deleted:
  assumes "stuck_group i g s" and "j \<noteq> i"
  shows "stuck_group i g (deleteUserGroup j s)"
proof -
  have "List.find (\<lambda>h. bk_id h = i) (filter (\<lambda>h. bk_id h \<noteq> j) gs) = List.find (\<lambda>h. bk_id h = i) gs" for gs :: "booking list"
    using assms(2) by (induction gs) auto
  then have "stuck_group i g (s\<lparr>db_groups := filter (\<lambda>h. bk_id h \<noteq> j) (db_groups s)\<rparr>)" using assms(1) by (simp add: stuck_group_def getGroup_def)
  then have "stuck_group i g t" if "db_groups t = filter (\<lambda>h. bk_id h \<noteq> j) (db_groups s)" for t
    using stuck_same [of t "s\<lparr>db_groups := filter (\<lambda>h. bk_id h \<noteq> j) (db_groups s)\<rparr>"] that by simp
  then show ?thesis using assms(1) by (auto simp: deleteUserGroup_def Let_def split: option.split)
qed

definition moved_window :: "booking \<Rightarrow> nat \<Rightarrow> bool \<Rightarrow> int \<Rightarrow> booking \<Rightarrow> booking" where
  "moved_window h k active n x = x\<lparr>bk_dates := drop k (bk_dates h), bk_repetitions := bk_repetitions h - int k,
     bk_duration := n, bk_active := active, bk_state := READY\<rparr>"

lemma updateGroupDates_groups:
  assumes "drop k (bk_dates h) \<noteq> []"
  shows "db_groups (updateGroupDates h k active s) = db_groups (update_group (bk_id h)
    (moved_window h k active (int (length (bk_devices h)) * (wn_stop (hd (drop k (bk_dates h))) - wn_start (hd (drop k (bk_dates h)))) *
      (bk_repetitions h - int k + 1))) s)"
  using assms by (cases "drop k (bk_dates h)") (auto simp: updateGroupDates_def Let_def moved_window_def)

lemma stuck_moved:
  assumes "stuck_group i g s" and "getGroup (bk_id h) s = Some h" and "bk_id h = i \<Longrightarrow> k = 0"
  shows "stuck_group i g (updateGroupDates h k active s)"
proof (cases "drop k (bk_dates h) = []")
  case True
  then have "updateGroupDates h k active s = s" by (simp add: updateGroupDates_def Let_def)
  then show ?thesis using assms(1) by simp
next
  case False
  have "bk_dates h = bk_dates g \<and> bk_repetitions h = bk_repetitions g" if "bk_id h = i"
    using assms(1,2) that found_group by (auto simp: stuck_group_def)
  then have "stuck_group i g (update_group (bk_id h) (moved_window h k active n) s)" for n
    using assms(3) by (intro stuck_update [OF assms(1)]) (use assms(1) in \<open>auto simp: stuck_group_def moved_window_def\<close>)
  then show ?thesis using stuck_same [OF updateGroupDates_groups [OF False]] by simp
qed

lemma stuck_processed:
  assumes "stuck_group i g s" and "stuck_task i t" and "repeated g"
  shows "stuck_group i g (processTask t now s)"
proof (cases "getGroup (tk_group t) s")
  case (Some h)
  then have h: "h \<in> set (db_groups s)" "bk_id h = tk_group t" using found_group by blast+
  have j: "tk_job t = BecomeActive \<or> tk_job t = EndWindow False" "bk_class h \<noteq> ONCE" if "tk_group t = i"
    using assms h that repeated_class by (auto simp: stuck_task_def stuck_group_def repeated_def)
  have m: "stuck_group i g (updateGroupDates h k active s)" if "bk_id h = i \<Longrightarrow> k = 0" for k active
    using Some h(2) that by (intro stuck_moved [OF assms(1)]) simp_all
  have d: "stuck_group i g (deleteUserGroup (bk_id h) s)" if "bk_id h \<noteq> i" using stuck_deleted [OF assms(1)] that by simp
  have a: "stuck_group i g (doBecomeActiveGroup h s)"
  proof -
    have "stuck_group i g (update_group (bk_id h) (\<lambda>x. x\<lparr>bk_active := True\<rparr>) s)"
      using assms(1) by (intro stuck_update) (auto simp: stuck_group_def)
    moreover have "stuck_group i g (updateDevicesCurrentGroup is h u) = stuck_group i g u" for "is" u by (rule stuck_same) simp
    ultimately show ?thesis by (simp add: doBecomeActiveGroup_def)
  qed
  have o: "stuck_group i g (updateOriginGroupLifetime h now s)" if "bk_id h \<noteq> i"
    unfolding updateOriginGroupLifetime_def by (rule stuck_update [OF assms(1)]) (use that in auto)
  show ?thesis
  proof (cases "tk_group t = i")
    case True
    then show ?thesis using j [OF True] Some a m by (auto simp: processTask_def doBecomeUnactiveGroup_def)
  next
    case False
    then show ?thesis using Some h a m d o by (cases "tk_job t") (auto simp: processTask_def doBecomeUnactiveGroup_def)
  qed
qed (simp add: processTask_def assms(1))

lemma stuck_set:
  assumes "stuck_tasks i c" and "stuck_task i t"
  shows "stuck_tasks i (setScheduledTask now t c)"
  using assms by (auto simp: stuck_tasks_def setScheduledTask_def Let_def)

lemma stuck_fold: "stuck_tasks i c \<Longrightarrow> \<forall>t \<in> set ts. stuck_task i t \<Longrightarrow> stuck_tasks i (fold (setScheduledTask now) ts c)"
  by (induction ts arbitrary: c) (simp_all add: stuck_set)

lemma stuck_next: "stuck_tasks i c \<Longrightarrow> stuck_tasks i (schedule_next now c)"
proof (induction now c rule: schedule_next.induct)
  case (1 now c)
  show ?case
  proof (cases "sc_queue c")
    case Nil
    then show ?thesis using 1 by (simp add: schedule_next.simps [of now c] stuck_tasks_def)
  next
    case (Cons key rest)
    show ?thesis
    proof (cases "sc_tasks c key")
      case None
      then show ?thesis using 1 Cons by (simp add: schedule_next.simps [of now c] stuck_tasks_def)
    next
      case (Some t)
      have "stuck_tasks i (c\<lparr>sc_timer := None, sc_queue := rest, sc_tasks := (sc_tasks c)(key := None)\<rparr>)"
        "stuck_tasks i (c\<lparr>sc_queue := rest, sc_timer := w\<rparr>)" for w
        using 1(2) by (auto simp: stuck_tasks_def)
      then show ?thesis using 1(1) [OF Cons Some] Cons Some by (simp add: schedule_next.simps [of now c])
    qed
  qed
qed

lemma stuck_reload:
  assumes "stuck_group i g s" and "stuck_tasks i c" and "repeated g" and "now < wn_stop (last_window g)"
  shows "stuck_tasks i (scheduleAllGroupsTasks now s c)"
proof -
  have "stuck_task i t" if "t \<in> set (all_tasks now s)" for t
  proof -
    from that obtain h where h: "h \<in> set (db_groups s)" "t \<in> set (processGroup now h)" by (auto simp: all_tasks_def getReadyGroups_def)
    have "tk_group t = bk_id h" using h(2) by (auto simp: processGroup_def Let_def split: if_splits option.splits nat.splits)
    then show ?thesis using repeated_tasks [OF assms(3) _ _ _ assms(4) h(2)] assms(1) h(1)
      by (auto simp: stuck_task_def stuck_group_def)
  qed
  moreover have "stuck_tasks i (c\<lparr>sc_tasks := (\<lambda>_. None), sc_queue := []\<rparr>)" using assms(2) by (simp add: stuck_tasks_def)
  ultimately show ?thesis unfolding scheduleAllGroupsTasks_def by (intro stuck_next stuck_fold) auto
qed

definition stuck :: "gid \<Rightarrow> booking \<Rightarrow> db \<times> scheduler \<Rightarrow> bool" where
  "stuck i g z \<longleftrightarrow> repeated g \<and> stuck_group i g (fst z) \<and> stuck_tasks i (snd z)"

lemma stuck_step:
  assumes "stuck i g z" and "reloads_before (wn_stop (last_window g)) e"
  shows "stuck i g (fst (sched_step z e))"
proof -
  obtain s c where z: "z = (s, c)" by (cases z)
  have a: "repeated g" "stuck_group i g s" "stuck_tasks i c" using assms(1) z by (simp_all add: stuck_def)
  show ?thesis
  proof (cases e)
    case (Reload now)
    then show ?thesis using stuck_reload [OF a(2,3,1)] assms(2) a z by (simp add: stuck_def)
  next
    case (TimerFires now)
    have n: "stuck_tasks i (schedule_next now (c\<lparr>sc_timer := None, sc_tasks := (sc_tasks c)(key := None)\<rparr>))" for key
      using a(3) by (intro stuck_next) (auto simp: stuck_tasks_def)
    have t: "stuck_group i g (processTask t now s)" if "sc_tasks c key = Some t" for key t
      using that a(3) by (intro stuck_processed [OF a(2) _ a(1)]) (auto simp: stuck_tasks_def)
    show ?thesis using a n t z TimerFires by (auto simp: stuck_def Let_def split: option.split)
  next
    case (RunJob k now)
    have "stuck_tasks i (c\<lparr>sc_jobs := remove_nth k (sc_jobs c)\<rparr>)"
      using a(3) by (auto simp: stuck_tasks_def remove_nth_def dest: in_set_takeD in_set_dropD)
    moreover have "stuck_group i g (processTask (sc_jobs c ! k) now s)" if "k < length (sc_jobs c)"
      using that a(3) by (intro stuck_processed [OF a(2) _ a(1)]) (auto simp: stuck_tasks_def)
    ultimately show ?thesis using a z RunJob by (simp add: stuck_def)
  qed
qed

interpretation repeated_group: guarded_machine sched_step "stuck i g" "reloads_before (wn_stop (last_window g))" for i g
  by unfold_locales (rule stuck_step)

text \<open>
  C20. A repeated booking never moves on to its next window: as long as the reloads come before the end of the last window, every run of the scheduler
  leaves a group with at least two repetitions with all its windows and repetitions. The job for the end of the first window only marks the group as
  active and returns no device, so that a booking of an hour a day holds its devices from the first
  hour to the last one (\<open>findIndex\<close> looks behind the windows that are there, and \<open>doBecomeUnactiveGroup\<close> passes the window \<open>0\<close> and \<open>true\<close>).
\<close>

theorem repeated_booking_never_moves_on:
  assumes "repeated g" and "getGroup i s = Some g" and "distinct (map bk_id (db_groups s))"
    and "list_all (reloads_before (wn_stop (last_window g))) es"
    and "t = \<lparr>tk_group = i, tk_time = wn_stop (first_window g), tk_job = EndWindow False\<rparr>"
  shows "map_option bk_dates (getGroup i (fst (fst (run sched_step (s, sched_new) es)))) = Some (bk_dates g) \<and>
    map_option bk_repetitions (getGroup i (fst (fst (run sched_step (s, sched_new) es)))) = Some (bk_repetitions g) \<and>
    map_option bk_active (getGroup i (processTask t now s)) = Some True \<and> db_devices (processTask t now s) = db_devices s"
proof -
  have g: "g \<in> set (db_groups s)" "bk_id g = i" using found_group [OF assms(2)] by simp_all
  have "h = g" if "h \<in> set (db_groups s)" "bk_id h = i" for h using assms(3) g that by (metis distinct_map inj_on_eq_iff)
  then have "stuck i g (s, sched_new)" using assms(1,2) by (auto simp: stuck_def stuck_group_def stuck_tasks_def sched_new_def)
  from repeated_group.inv_run [OF this assms(4)] have r: "stuck_group i g (fst (fst (run sched_step (s, sched_new) es)))" by (simp add: stuck_def)
  then obtain h where "getGroup i (fst (fst (run sched_step (s, sched_new) es))) = Some h" by (auto simp: stuck_group_def)
  then have 1: "map_option bk_dates (getGroup i (fst (fst (run sched_step (s, sched_new) es)))) = Some (bk_dates g)"
    "map_option bk_repetitions (getGroup i (fst (fst (run sched_step (s, sched_new) es)))) = Some (bk_repetitions g)"
    using r found_group by (auto simp: stuck_group_def)
  have p: "processTask t now s = updateGroupDates g 0 True s"
    using assms(1,2,5) repeated_class by (auto simp: processTask_def doBecomeUnactiveGroup_def repeated_def)
  have d: "drop 0 (bk_dates g) \<noteq> []" using assms(1) by (simp add: repeated_def)
  obtain n where "db_groups (processTask t now s) = db_groups (update_group i (moved_window g 0 True n) s)"
    using updateGroupDates_groups [OF d, of True s] g(2) unfolding p by blast
  then have "getGroup i (processTask t now s) = getGroup i (update_group i (moved_window g 0 True n) s)" by (rule getGroup_same)
  also have "\<dots> = Some (moved_window g 0 True n g)" using assms(2) by (subst getGroup_update) (simp_all add: moved_window_def)
  finally have 2: "map_option bk_active (getGroup i (processTask t now s)) = Some True" by (simp add: moved_window_def)
  have "db_devices (processTask t now s) = db_devices s"
    unfolding p using d by (cases "bk_dates g") (simp_all add: updateGroupDates_def Let_def devices_of_quotas)
  then show ?thesis using 1 2 by simp
qed

section \<open>Witnesses\<close>

definition wit_daily :: booking where
  "wit_daily = (wit_group 1 ''ann'' [''d''] 0 10)\<lparr>bk_class := DAILY, bk_repetitions := 2,
     bk_dates := computeGroupDates \<lparr>wn_start = 0, wn_stop = 10\<rparr> DAILY 2\<rparr>"

lemma wit_daily_repeated:
  "repeated wit_daily" "bk_dates wit_daily = [\<lparr>wn_start = 0, wn_stop = 10\<rparr>, \<lparr>wn_start = ONE_DAY, wn_stop = 10 + ONE_DAY\<rparr>]"
proof -
  show d: "bk_dates wit_daily = [\<lparr>wn_start = 0, wn_stop = 10\<rparr>, \<lparr>wn_start = ONE_DAY, wn_stop = 10 + ONE_DAY\<rparr>]"
    by (simp add: wit_daily_def computeGroupDates_def numeral_2_eq_2 shift_def)
  have "first_window wit_daily = \<lparr>wn_start = 0, wn_stop = 10\<rparr>" by (simp add: first_window_def d)
  then show "repeated wit_daily" by (simp add: repeated_def wit_daily_def)
qed

theorem repeated_booking_never_moves_on_witness:
  "map_option bk_repetitions (getGroup 1 (fst (fst (run sched_step (wit_db [wit_daily], sched_new) [Reload 20, RunJob 0 21, RunJob 0 22, Reload 30])))) = Some 2"
proof -
  have "list_all (reloads_before (wn_stop (last_window wit_daily))) [Reload 20, RunJob 0 21, RunJob 0 22, Reload 30]"
    by (simp add: last_window_def wit_daily_repeated ONE_DAY_def ONE_HOUR_def)
  moreover have "getGroup 1 (wit_db [wit_daily]) = Some wit_daily" "distinct (map bk_id (db_groups (wit_db [wit_daily])))"
    by (simp_all add: getGroup_def wit_db_def wit_daily_def wit_root_def wit_group_def)
  ultimately have "map_option bk_repetitions (getGroup 1 (fst (fst (run sched_step (wit_db [wit_daily], sched_new) [Reload 20, RunJob 0 21, RunJob 0 22, Reload 30])))) =
      Some (bk_repetitions wit_daily)"
    using repeated_booking_never_moves_on [of wit_daily 1 "wit_db [wit_daily]" "[Reload 20, RunJob 0 21, RunJob 0 22, Reload 30]"
      "\<lparr>tk_group = 1, tk_time = wn_stop (first_window wit_daily), tk_job = EndWindow False\<rparr>" 20] wit_daily_repeated(1) by simp
  then show ?thesis by (simp add: wit_daily_def)
qed

theorem scheduler_takes_earliest_witness:
  "map tk_job (queue_tasks (scheduleAllGroupsTasks 0 (wit_db [wit_group 1 ''ann'' [''d''] 5 10]) sched_new)) = [EndWindow True]"
proof -
  let ?s = "wit_db [wit_group 1 ''ann'' [''d''] 5 10]"
  let ?b = "\<lparr>tk_group = 1, tk_time = 5, tk_job = BecomeActive\<rparr>" and ?e = "\<lparr>tk_group = 1, tk_time = 10, tk_job = EndWindow True\<rparr>"
  have a: "all_tasks 0 ?s = [?b, ?e]"
    by (simp add: all_tasks_def getReadyGroups_def wit_groups processGroup_def last_window_def first_window_def Let_def)
  have "sort_key tk_time [?b, ?e] = [?b, ?e]" by simp
  then have "sort_key tk_time (all_tasks 0 ?s) = ?b # [?e]" unfolding a .
  from scheduler_takes_earliest [OF this] show ?thesis by (simp add: ONE_YEAR_def ONE_DAY_def ONE_HOUR_def)
qed

definition wit_phone :: device_group where
  "wit_phone = \<lparr>dg_current = 0, dg_window = \<lparr>wn_start = 0, wn_stop = 1000\<rparr>, dg_origin = 0\<rparr>"

definition wit_held :: db where
  "wit_held = wit_db [wit_group 1 ''ann'' [''d''] 5 10]"

theorem booking_takes_its_devices_witness:
  "map_option dg_current (om_get (db_devices (processTask \<lparr>tk_group = 1, tk_time = 5, tk_job = BecomeActive\<rparr> 6 wit_held)) ''d'') = Some 1"
proof -
  have "getGroup 1 wit_held = Some (wit_group 1 ''ann'' [''d''] 5 10)"
    by (simp add: wit_held_def getGroup_def wit_groups)
  moreover have "om_get (db_devices wit_held) ''d'' = Some wit_phone" by (simp add: wit_held_def wit_db_def wit_phone_def om_get_def)
  ultimately show ?thesis
    using booking_takes_its_devices [of 1 wit_held "wit_group 1 ''ann'' [''d''] 5 10" _ 5 "''d''" wit_phone 6] by (simp add: wit_group_def)
qed

theorem expired_booking_gives_everything_back_witness:
  "map_option dg_current (om_get (db_devices (processTask \<lparr>tk_group = 1, tk_time = 10, tk_job = DeleteGroup\<rparr> 11 wit_held)) ''d'') = Some 0"
proof -
  let ?g = "wit_group 1 ''ann'' [''d''] 5 10"
  have "getGroup 1 wit_held = Some ?g" "getGroup 0 wit_held = Some wit_root"
    by (simp_all add: wit_held_def getGroup_def wit_groups)
  moreover have "om_get (db_devices wit_held) ''d'' = Some wit_phone" by (simp add: wit_held_def wit_db_def wit_phone_def om_get_def)
  moreover have "om_get (db_users wit_held) ''ann'' = Some wit_user" by (simp add: wit_held_def wit_db_def om_get_def)
  ultimately show ?thesis
    using expired_booking_gives_everything_back [of 1 wit_held ?g wit_user "''d''" wit_phone wit_root _ 10 11]
    by (simp add: wit_group_def wit_user_def wit_phone_def isOriginGroup_def)
qed

end
