(* ===== verification/Members.thy ===== *)
theory Members imports Booking_Api begin

text \<open>
  Users, members and moderators of groups: the requests of \<open>lib/units/api/controllers/groups.js\<close> that change who belongs to a group,
  those of \<open>lib/units/api/controllers/users.js\<close> that create, delete and limit users, with the lock of a user
  (\<open>lib/db/models/user/model.js\<close>, \<open>lib/util/apiutil.js\<close>, \<open>lib/util/lockutil.js\<close>) that they take. A request runs to its
  end before the next one; a lock that a request finds taken was left by another one that has not released it.
\<close>

section \<open>The lock of a user\<close>

record lock_stats =
  ls_modified :: bool
  ls_matched :: bool
  ls_locked :: bool

text \<open>\<open>Inl\<close> is an exception.\<close>

definition setLockOnUser :: "string \<Rightarrow> bool \<Rightarrow> db \<Rightarrow> (string + lock_stats) \<times> db" where
  "setLockOnUser email state s =
     (case om_get (db_users s) email of
        None \<Rightarrow> (Inl ''not found'', s)
      | Some u \<Rightarrow> (Inr \<lparr>ls_modified = (us_lock u \<noteq> state), ls_matched = True, ls_locked = False\<rparr>,
          snd (update_user email (\<lambda>u. u\<lparr>us_lock := state\<rparr>) s)))"

definition lockResult :: "lock_stats \<Rightarrow> bool \<times> lock_stats" where
  "lockResult st =
     (if ls_modified st \<or> ls_matched st then (True, st\<lparr>ls_locked := False\<rparr>) else (False, st\<lparr>ls_locked := True\<rparr>))"

text \<open>\<open>setIntervalWrapper\<close>: at most \<open>n\<close> attempts, until one succeeds or throws.\<close>

fun setIntervalWrapper :: "nat \<Rightarrow> (db \<Rightarrow> (string + (bool \<times> lock_stats)) \<times> db) \<Rightarrow> lock_stats option \<Rightarrow> db \<Rightarrow>
    ((string + lock_stats option) + lock_stats) \<times> db" where
  "setIntervalWrapper 0 f l s = (Inl (Inr l), s)"
| "setIntervalWrapper (Suc n) f l s =
     (case f s of
        (Inl err, t) \<Rightarrow> (Inl (Inl err), t)
      | (Inr (status, data), t) \<Rightarrow> (if status then (Inr data, t) else setIntervalWrapper n f (Some data) t))"

definition lockUser :: "string \<Rightarrow> db \<Rightarrow> ((string + lock_stats option) + lock_stats) \<times> db" where
  "lockUser email s =
     setIntervalWrapper 10 (\<lambda>t. case setLockOnUser email True t of (Inl err, t1) \<Rightarrow> (Inl err, t1) | (Inr st, t1) \<Rightarrow> (Inr (lockResult st), t1)) None s"

definition unlockUser :: "string \<Rightarrow> db \<Rightarrow> db" where
  "unlockUser email s = snd (setLockOnUser email False s)"

text \<open>What \<open>lightComputeStats\<close> returns, or the answer after which it rejects with \<open>busy\<close>.\<close>

definition lightComputeStats :: "lock_stats \<Rightarrow> api_out option" where
  "lightComputeStats st = (if ls_locked st then Some (Respond 429 ''Too many requests. Destination object is locked'') else None)"

text \<open>\<open>computeStats\<close>: its answer, if it gives one. What it returns counts as true in each case.\<close>

definition computeStats :: "lock_stats \<Rightarrow> api_out option" where
  "computeStats st =
     (if ls_modified st then None
      else if ls_locked st then Some (Respond 429 ''Too many requests. Destination object is locked'')
      else Some (Respond 403 ''Forbidden (user not changed)''))"

section \<open>Members in the database\<close>

datatype member_result = Unknown | OwnerStays | Gone

definition removeGroupUser :: "gid \<Rightarrow> string \<Rightarrow> db \<Rightarrow> member_result \<times> db" where
  "removeGroupUser i email s =
     (case getGroup i s of
        None \<Rightarrow> (Unknown, s)
      | Some g \<Rightarrow>
          (if bk_owner g = email then (OwnerStays, s)
           else (Gone, unsubscribe i email (update_group i (\<lambda>h. h\<lparr>bk_users := filter (\<lambda>e. e \<noteq> email) (bk_users h),
             bk_moderators := filter (\<lambda>e. e \<noteq> email) (bk_moderators h)\<rparr>) s))))"

definition isRemoveGroupUserAllowed :: "string \<Rightarrow> booking \<Rightarrow> db \<Rightarrow> bool" where
  "isRemoveGroupUserAllowed email target s \<longleftrightarrow>
     bk_class target \<noteq> BOOKABLE \<or>
     \<not> list_ex (\<lambda>g. bk_owner g = email \<and> set (bk_devices g) \<inter> set (bk_devices target) \<noteq> {}) (getTransientGroups s)"

text \<open>\<open>modifiedCount\<close> and the database.\<close>

definition addGroupModerator :: "gid \<Rightarrow> string \<Rightarrow> db \<Rightarrow> bool \<times> db" where
  "addGroupModerator i email s =
     (let t = snd (addGroupUser i email s) in
      (case getGroup i t of None \<Rightarrow> False | Some g \<Rightarrow> email \<notin> set (bk_moderators g),
       update_group i (\<lambda>g. g\<lparr>bk_moderators := add_to_set email (bk_moderators g)\<rparr>) t))"

definition removeGroupModerator :: "gid \<Rightarrow> string \<Rightarrow> db \<Rightarrow> bool \<times> db" where
  "removeGroupModerator i email s =
     (case getGroup i s of None \<Rightarrow> False | Some g \<Rightarrow> email \<in> set (bk_moderators g),
      update_group i (\<lambda>g. g\<lparr>bk_moderators := filter (\<lambda>e. e \<noteq> email) (bk_moderators g)\<rparr>) s)"

definition getGroupsByUser :: "string \<Rightarrow> db \<Rightarrow> booking list" where
  "getGroupsByUser email s = filter (\<lambda>g. email \<in> set (bk_users g)) (db_groups s)"

text \<open>
  \<open>getOwnerGroups\<close>: the owner of a group is a document with a name and an address, and the query compares it with an
  address alone, which no document equals.
\<close>

definition getOwnerGroups :: "string \<Rightarrow> db \<Rightarrow> booking list" where
  "getOwnerGroups email s = (case getRootGroup s of Some g \<Rightarrow> (if bk_owner g = email then db_groups s else []) | None \<Rightarrow> [])"

section \<open>Adding members\<close>

datatype add_result = Added string | Unchanged string | LockedOut

text \<open>
  \<open>addGroupUser\<close> of the controller. A user that does not exist makes the lock throw, which is not a \<open>TypeError\<close>
  and so ends the request (\<open>None\<close>).
\<close>

definition add_member :: "gid \<Rightarrow> string \<Rightarrow> db \<Rightarrow> add_result option \<times> db \<times> api_out list" where
  "add_member i email s =
     (case lockUser email s of
        (Inl err, t) \<Rightarrow> (None, t, [])
      | (Inr st, t) \<Rightarrow>
          (if ls_modified st
           then (let r = addGroupUser i email t in (Some (if fst r then Added email else Unchanged email), unlockUser email (snd r), []))
           else (case lightComputeStats st of Some out \<Rightarrow> (None, t, [out]) | None \<Rightarrow> (Some LockedOut, t, []))))"

fun add_members :: "gid \<Rightarrow> string list \<Rightarrow> db \<Rightarrow> add_result list option \<times> db \<times> api_out list" where
  "add_members i [] s = (Some [], s, [])"
| "add_members i (e # es) s =
     (case add_member i e s of
        (None, t, out) \<Rightarrow> (None, t, out)
      | (Some r, t, out) \<Rightarrow> (let b = add_members i es t in (map_option (Cons r) (fst b), fst (snd b), out @ snd (snd b))))"

text \<open>
  The answer looks for results that are exactly \<open>unchanged\<close>, which none is (they name the user), and for results that say
  that a user does not exist, which never come that far.
\<close>

definition add_users_answer :: "add_result list \<Rightarrow> api_out" where
  "add_users_answer results =
     (if results = [] then Respond 200 ''Unchanged (group users)''
      else if list_all (\<lambda>r. r = LockedOut) results then Respond 404 ''Not Found (group users)''
      else Respond 200 ''Added (group users)'')"

text \<open>Without permission to see the group the request is not answered at all.\<close>

definition add_users_api :: "requester \<Rightarrow> gid \<Rightarrow> string list option \<Rightarrow> db \<Rightarrow> db \<times> api_out list" where
  "add_users_api u i emails s =
     (case getUserGroup (rq_email u) i s of
        None \<Rightarrow> (s, [])
      | Some g \<Rightarrow>
          (if \<not> hasGroupEditPermission g u True then (s, [Respond 403 ''Forbidden (unauthorized)''])
           else
             (let wanted = (case emails of None \<Rightarrow> om_keys (db_users s) | Some es \<Rightarrow> filter (\<lambda>e. e \<noteq> []) es);
                  r = add_members i (difference wanted (bk_users g)) s
              in (fst (snd r), snd (snd r) @
                [case fst r of None \<Rightarrow> Respond 500 ''Internal Server Error'' | Some results \<Rightarrow> add_users_answer results]))))"

section \<open>Removing members\<close>

datatype removed = RNotFound | RForbidden | RBusy | RDone member_result

definition remove_member :: "gid \<Rightarrow> booking \<Rightarrow> booking \<Rightarrow> string \<Rightarrow> db \<Rightarrow> removed option \<times> db \<times> api_out list" where
  "remove_member i g root email s =
     (if email \<notin> set (bk_users g) then (Some RNotFound, s, [])
      else if email = bk_owner root \<or> email = bk_owner g then (Some RForbidden, s, [])
      else (case lockUser email s of
          (Inl err, t) \<Rightarrow> (None, t, [])
        | (Inr st, t) \<Rightarrow>
            (if ls_modified st
             then (if isRemoveGroupUserAllowed email g t
                   then (let r = removeGroupUser i email t in (Some (RDone (fst r)), unlockUser email (snd r), []))
                   else (Some RForbidden, unlockUser email t, []))
             else (case lightComputeStats st of Some out \<Rightarrow> (Some RBusy, t, [out]) | None \<Rightarrow> (Some RNotFound, t, [])))))"

fun remove_members :: "gid \<Rightarrow> booking \<Rightarrow> booking \<Rightarrow> string list \<Rightarrow> db \<Rightarrow> removed option list \<times> db \<times> api_out list" where
  "remove_members i g root [] s = ([], s, [])"
| "remove_members i g root (e # es) s =
     (let a = remove_member i g root e s; b = remove_members i g root es (fst (snd a))
      in (fst a # fst b, fst (snd b), snd (snd a) @ snd (snd b)))"

text \<open>The members are removed side by side: one that fails does not stop the others, but fails the request.\<close>

definition remove_users_answer :: "removed option list \<Rightarrow> api_out list" where
  "remove_users_answer results =
     (if None \<in> set results then [Respond 500 ''Internal Server Error'']
      else if Some RBusy \<in> set results then []
      else if results = [] then [Respond 200 ''Unchanged (group users)'']
      else if list_all (\<lambda>r. r = Some RNotFound) results then [Respond 404 ''Not Found (group users)'']
      else if list_all (\<lambda>r. r = Some RNotFound \<or> r = Some RForbidden) results then [Respond 403 ''Forbidden (group users)'']
      else [Respond 200 ''Removed (group users)''])"

definition remove_users_api :: "requester \<Rightarrow> gid \<Rightarrow> string list option \<Rightarrow> db \<Rightarrow> db \<times> api_out list" where
  "remove_users_api u i emails s =
     (case getUserGroup (rq_email u) i s of
        None \<Rightarrow> (s, [])
      | Some g \<Rightarrow>
          (case getRootGroup s of
             None \<Rightarrow> (s, [Respond 500 ''Internal Server Error''])
           | Some root \<Rightarrow>
               (let r = remove_members i g root (case emails of None \<Rightarrow> bk_users g | Some es \<Rightarrow> filter (\<lambda>e. e \<noteq> []) es) s
                in (fst (snd r), snd (snd r) @ remove_users_answer (fst r)))))"

section \<open>Moderators\<close>

definition add_moderator_api :: "requester \<Rightarrow> gid \<Rightarrow> string \<Rightarrow> db \<Rightarrow> db \<times> api_out list" where
  "add_moderator_api u i email s =
     (case getUserGroup (rq_email u) i s of
        None \<Rightarrow> (s, [Respond 404 ''Not Found (group)''])
      | Some g \<Rightarrow>
          (if \<not> hasGroupEditPermission g u True then (s, [Respond 403 ''Forbidden (unauthorized admin/owner/moderator)''])
           else (let r = addGroupModerator i email s in
             (snd r, [Respond 200 (if fst r then ''Added (moderator)'' else ''Unchanged (moderator)'')]))))"

definition remove_moderator_api :: "requester \<Rightarrow> gid \<Rightarrow> string \<Rightarrow> db \<Rightarrow> db \<times> api_out list" where
  "remove_moderator_api u i email s =
     (case getUserGroup (rq_email u) i s of
        None \<Rightarrow> (s, [Respond 404 ''Not Found (group)''])
      | Some g \<Rightarrow>
          (if \<not> hasGroupEditPermission g u True then (s, [Respond 403 ''Forbidden (unauthorized admin/owner/moderator)''])
           else (let r = removeGroupModerator i email s in
             (snd r, [Respond 200 (if fst r then ''Removed (moderator)'' else ''Unchanged (moderator)'')]))))"

section \<open>The devices that a group can take\<close>

text \<open>\<open>getGroupDevices\<close> for bookable devices: of the given devices, those in no conflict with the dates of the group.\<close>

definition bookable_serials :: "booking \<Rightarrow> serial list \<Rightarrow> db \<Rightarrow> serial list" where
  "bookable_serials g serials s = fold (\<lambda>c xs. difference xs (cf_devices c)) (checkConflicts (bk_id g) serials (bk_dates g) s) serials"

section \<open>Users\<close>

text \<open>The limits that the root group got from the environment.\<close>

record env_limits =
  en_number :: int
  en_duration :: int
  en_repetitions :: int

definition new_user :: "env_limits \<Rightarrow> privilege option \<Rightarrow> user option \<Rightarrow> user" where
  "new_user env p admin = \<lparr>
     us_privilege = (case p of Some q \<Rightarrow> q | None \<Rightarrow> (case admin of Some a \<Rightarrow> USER | None \<Rightarrow> ADMIN)),
     us_number = 0, us_max_number = (case admin of Some a \<Rightarrow> us_default_number a | None \<Rightarrow> en_number env),
     us_duration = 0, us_max_duration = (case admin of Some a \<Rightarrow> us_default_duration a | None \<Rightarrow> en_duration env),
     us_repetitions = (case admin of Some a \<Rightarrow> us_default_repetitions a | None \<Rightarrow> en_repetitions env),
     us_default_number = (case admin of Some a \<Rightarrow> 0 | None \<Rightarrow> en_number env),
     us_default_duration = (case admin of Some a \<Rightarrow> 0 | None \<Rightarrow> en_duration env),
     us_default_repetitions = (case admin of Some a \<Rightarrow> 0 | None \<Rightarrow> en_repetitions env),
     us_subscribed = [], us_lock = False\<rparr>"

text \<open>\<open>createUser\<close>; the addresses of users are unique in the database.\<close>

definition createUser :: "env_limits \<Rightarrow> string \<Rightarrow> privilege option \<Rightarrow> db \<Rightarrow> (string + user option) \<times> db" where
  "createUser env email p s =
     (case getRootGroup s of
        None \<Rightarrow> (Inl ''Root group not found'', s)
      | Some root \<Rightarrow>
          (if om_has (db_users s) email then (Inl ''duplicate key error collection'', s)
           else
             (let t = snd (addGroupUser (bk_id root) email
                    (s\<lparr>db_users := om_set email (new_user env p (om_get (db_users s) (bk_owner root))) (db_users s)\<rparr>))
              in (Inr (om_get (db_users t) email), t))))"

definition create_user_api :: "env_limits \<Rightarrow> string \<Rightarrow> db \<Rightarrow> db \<times> api_out list" where
  "create_user_api env email s =
     (let r = createUser env email None s in
      (snd r, [case fst r of
          Inl err \<Rightarrow> (if err = ''duplicate key error collection'' then Respond 400 ''Bad request (user already exists)''
            else Respond 500 ''Internal Server Error'')
        | Inr u \<Rightarrow> Respond 201 ''Created (user)'']))"

definition set_privilege_api :: "requester \<Rightarrow> string \<Rightarrow> privilege \<Rightarrow> db \<Rightarrow> db \<times> api_out list" where
  "set_privilege_api u email p s =
     (if rq_privilege u \<noteq> ADMIN then (s, [Respond 403 ''Forbidden (user doesnt have admin privilege)''])
      else if \<not> om_has (db_users s) email then (s, [Respond 404 ''Not Found (user)''])
      else (snd (update_user email (\<lambda>v. v\<lparr>us_privilege := p\<rparr>) s),
        [Respond 200 (if p = ADMIN then ''Grant admin for user'' else ''Revoke admin for user'')]))"

section \<open>Quotas of a user\<close>

definition update_quotas_api :: "string \<Rightarrow> int option \<Rightarrow> int option \<Rightarrow> int option \<Rightarrow> db \<Rightarrow> db \<times> api_out list" where
  "update_quotas_api email duration number repetitions s =
     (case om_get (db_users s) email of
        None \<Rightarrow> (s, [Respond 404 ''Unknown user''])
      | Some v \<Rightarrow>
          (case lockUser email s of
             (Inl err, t) \<Rightarrow> (t, [Respond 500 ''Internal Server Error''])
           | (Inr st, t) \<Rightarrow>
               (let r = updateUserGroupsQuotas email (given duration 0) (given number 0) (given repetitions 0) t;
                    first = (case computeStats st of None \<Rightarrow> [] | Some out \<Rightarrow> [out]);
                    answer =
                      (if fst r then Respond 200 ''Updated (user quotas)''
                       else if ls_modified st
                       then (if given duration (us_max_duration v) = us_max_duration v \<and> given number (us_max_number v) = us_max_number v \<and>
                                given repetitions (us_repetitions v) = us_repetitions v
                             then Respond 200 ''Unchanged (user quotas)''
                             else Respond 400 ''Bad Request (quotas must be >= actual consumed resources)'')
                       else if duration = None \<and> number = None \<and> repetitions = None then Respond 200 ''Unchanged (user quotas)''
                       else Respond 500 ''Internal Server Error'')
                in (if ls_modified st then unlockUser email (snd r) else snd r, first @ [answer]))))"

definition updateDefaultUserGroupsQuotas :: "string \<Rightarrow> int option \<Rightarrow> int option \<Rightarrow> int option \<Rightarrow> db \<Rightarrow> bool \<times> db" where
  "updateDefaultUserGroupsQuotas email duration number repetitions s =
     update_user email (\<lambda>u. u\<lparr>us_default_duration := given duration (us_default_duration u),
       us_default_number := given number (us_default_number u), us_default_repetitions := given repetitions (us_default_repetitions u)\<rparr>) s"

definition update_defaults_api :: "requester \<Rightarrow> int option \<Rightarrow> int option \<Rightarrow> int option \<Rightarrow> db \<Rightarrow> db \<times> api_out list" where
  "update_defaults_api u duration number repetitions s =
     (case lockUser (rq_email u) s of
        (Inl err, t) \<Rightarrow> (t, [Respond 500 ''Internal Server Error''])
      | (Inr st, t) \<Rightarrow>
          (let r = updateDefaultUserGroupsQuotas (rq_email u) duration number repetitions t
           in (if ls_modified st then unlockUser (rq_email u) (snd r) else snd r,
               (case computeStats st of None \<Rightarrow> [] | Some out \<Rightarrow> [out]) @
               [Respond 200 (if fst r then ''Updated (user default quotas)'' else ''Unchanged (user default quotas)'')])))"

section \<open>Deleting users\<close>

datatype deletion = UNotFound | UForbidden | UUnchanged | UBusy | UDeleted

definition computeUserGroupOwnership :: "bool option \<Rightarrow> string \<Rightarrow> booking list \<Rightarrow> bool" where
  "computeUserGroupOwnership groupOwner email gs =
     (case groupOwner of
        None \<Rightarrow> True
      | Some False \<Rightarrow> \<not> list_ex (\<lambda>g. bk_owner g = email) gs \<and> gs \<noteq> []
      | Some True \<Rightarrow> list_ex (\<lambda>g. bk_owner g = email) gs)"

definition leave_group :: "string \<Rightarrow> booking \<Rightarrow> db \<Rightarrow> db" where
  "leave_group email g s =
     (case getUserGroup (bk_owner g) (bk_id g) s of
        None \<Rightarrow> s
      | Some h \<Rightarrow> (if bk_owner g = email then deleteUserGroup (bk_id g) s else snd (removeGroupUser (bk_id g) email s)))"

definition removeUser :: "requester \<Rightarrow> bool option \<Rightarrow> string \<Rightarrow> db \<Rightarrow> deletion \<times> db \<times> api_out list" where
  "removeUser u groupOwner email s =
     (if \<not> om_has (db_users s) email then (UNotFound, s, [])
      else if rq_email u = email then (UForbidden, s, [])
      else (case lockUser email s of
          (Inl err, t) \<Rightarrow> (UBusy, t, [Respond 500 ''Internal Server Error''])
        | (Inr st, t) \<Rightarrow>
            (if \<not> ls_modified st then (case lightComputeStats st of Some out \<Rightarrow> (UBusy, t, [out]) | None \<Rightarrow> (UNotFound, t, []))
             else if \<not> computeUserGroupOwnership groupOwner email (getGroupsByUser email t) then (UUnchanged, t, [])
             else (let v = fold (leave_group email) (getGroupsByUser email t) t
               in (UDeleted, v\<lparr>db_users := om_del email (db_users v)\<rparr>, [])))))"

fun removeUsers :: "requester \<Rightarrow> bool option \<Rightarrow> string list \<Rightarrow> db \<Rightarrow> deletion list \<times> db \<times> api_out list" where
  "removeUsers u groupOwner [] s = ([], s, [])"
| "removeUsers u groupOwner (e # es) s =
     (let a = removeUser u groupOwner e s in
      if fst a = UBusy then ([UBusy], snd a)
      else (let b = removeUsers u groupOwner es (fst (snd a)) in (fst a # fst b, fst (snd b), snd (snd a) @ snd (snd b))))"

definition delete_users_answer :: "deletion list \<Rightarrow> api_out list" where
  "delete_users_answer results =
     (let r1 = filter (\<lambda>r. r \<noteq> UUnchanged) results; r2 = filter (\<lambda>r. r \<noteq> UNotFound) r1; r3 = filter (\<lambda>r. r \<noteq> UForbidden) r2 in
      if UBusy \<in> set results then []
      else if r1 = [] then [Respond 200 ''Unchanged (users)'']
      else if r2 = [] then [Respond 404 ''Not Found (users)'']
      else (if r3 = [] then [Respond 403 ''Forbidden (users)''] else []) @ [Respond 200 ''Deleted (users)''])"

definition getEmails :: "db \<Rightarrow> string list" where
  "getEmails s = map fst (filter (\<lambda>(e, u). us_privilege u \<noteq> ADMIN) (db_users s))"

definition delete_users_api :: "requester \<Rightarrow> bool option \<Rightarrow> string list option \<Rightarrow> db \<Rightarrow> db \<times> api_out list" where
  "delete_users_api u groupOwner emails s =
     (let r = removeUsers u groupOwner (case emails of None \<Rightarrow> getEmails s | Some es \<Rightarrow> filter (\<lambda>e. e \<noteq> []) es) s
      in (fst (snd r), snd (snd r) @ delete_users_answer (fst r)))"

section \<open>The machine\<close>

text \<open>\<open>deleteGroups\<close> without a list of groups.\<close>

definition delete_owned_api :: "requester \<Rightarrow> db \<Rightarrow> db \<times> api_out list" where
  "delete_owned_api u s = delete_api u (map bk_id (filter (\<lambda>g. bk_privilege g \<noteq> ROOT) (getOwnerGroups (rq_email u) s))) s"

datatype member_event =
    Booking api_event
  | AddUsers requester gid "string list option"
  | RemoveUsers requester gid "string list option"
  | AddModerator requester gid string
  | RemoveModerator requester gid string
  | CreateUser string
  | SetPrivilege requester string privilege
  | SetQuotas string "int option" "int option" "int option"
  | SetDefaults requester "int option" "int option" "int option"
  | DeleteUsers requester "bool option" "string list option"
  | DeleteOwned requester

fun member_step :: "env_limits \<Rightarrow> db \<Rightarrow> member_event \<Rightarrow> db \<times> api_out list" where
  "member_step env s (Booking e) = api_step s e"
| "member_step env s (AddUsers u i emails) = add_users_api u i emails s"
| "member_step env s (RemoveUsers u i emails) = remove_users_api u i emails s"
| "member_step env s (AddModerator u i email) = add_moderator_api u i email s"
| "member_step env s (RemoveModerator u i email) = remove_moderator_api u i email s"
| "member_step env s (CreateUser email) = create_user_api env email s"
| "member_step env s (SetPrivilege u email p) = set_privilege_api u email p s"
| "member_step env s (SetQuotas email d n r) = update_quotas_api email d n r s"
| "member_step env s (SetDefaults u d n r) = update_defaults_api u d n r s"
| "member_step env s (DeleteUsers u groupOwner emails) = delete_users_api u groupOwner emails s"
| "member_step env s (DeleteOwned u) = delete_owned_api u s"

section \<open>Who subscribes to a group is a member of it\<close>

definition subs_ok :: "db \<Rightarrow> bool" where
  "subs_ok s \<longleftrightarrow> (\<forall>e u i. om_get (db_users s) e = Some u \<longrightarrow> i \<in> set (us_subscribed u) \<longrightarrow>
     (\<exists>g \<in> set (db_groups s). bk_id g = i \<and> e \<in> set (bk_users g)))"

text \<open>No user gains a subscription and no group loses a member.\<close>

definition fewer_subs :: "db \<Rightarrow> db \<Rightarrow> bool" where
  "fewer_subs s t \<longleftrightarrow>
     (\<forall>e v. om_get (db_users t) e = Some v \<longrightarrow> (\<exists>u. om_get (db_users s) e = Some u \<and> set (us_subscribed v) \<subseteq> set (us_subscribed u)))"

definition more_members :: "db \<Rightarrow> db \<Rightarrow> bool" where
  "more_members s t \<longleftrightarrow> (\<forall>g \<in> set (db_groups s). \<exists>h \<in> set (db_groups t). bk_id h = bk_id g \<and> set (bk_users g) \<subseteq> set (bk_users h))"

definition keeps :: "db \<Rightarrow> db \<Rightarrow> bool" where
  "keeps s t \<longleftrightarrow> fewer_subs s t \<and> more_members s t"

lemma keeps_refl [simp]: "keeps s s"
  by (auto simp: keeps_def fewer_subs_def more_members_def)

lemma keeps_trans [trans]:
  assumes "keeps s t" and "keeps t v"
  shows "keeps s v"
  unfolding keeps_def
proof
  show "fewer_subs s v" using assms unfolding keeps_def fewer_subs_def by (meson order_trans)
  show "more_members s v" using assms unfolding keeps_def more_members_def by (metis order_trans)
qed

lemma keeps_subs:
  assumes "keeps s t" and "subs_ok s"
  shows "subs_ok t"
  unfolding subs_ok_def
proof (intro allI impI)
  fix e v i
  assume v: "om_get (db_users t) e = Some v" "i \<in> set (us_subscribed v)"
  obtain u where u: "om_get (db_users s) e = Some u" "set (us_subscribed v) \<subseteq> set (us_subscribed u)"
    using assms(1) v(1) unfolding keeps_def fewer_subs_def by blast
  then obtain g where g: "g \<in> set (db_groups s)" "bk_id g = i" "e \<in> set (bk_users g)" using assms(2) v(2) unfolding subs_ok_def by blast
  then show "\<exists>g \<in> set (db_groups t). bk_id g = i \<and> e \<in> set (bk_users g)"
    using assms(1) unfolding keeps_def more_members_def by blast
qed

lemma keeps_same: "db_users t = db_users s \<Longrightarrow> db_groups t = db_groups s \<Longrightarrow> keeps s t"
  by (auto simp: keeps_def fewer_subs_def more_members_def)

lemma keeps_user: "(\<And>u. set (us_subscribed (f u)) \<subseteq> set (us_subscribed u)) \<Longrightarrow> keeps s (snd (update_user e f s))"
  by (auto simp: keeps_def fewer_subs_def more_members_def updated_user)

lemma keeps_group:
  assumes "\<And>g. bk_id (f g) = bk_id g" and "\<And>g. set (bk_users g) \<subseteq> set (bk_users (f g))"
  shows "keeps s (update_group i f s)"
  unfolding keeps_def more_members_def
proof (intro conjI ballI)
  show "fewer_subs s (update_group i f s)" by (auto simp: fewer_subs_def)
  fix g assume "g \<in> set (db_groups s)"
  then have "(if bk_id g = i then f g else g) \<in> set (db_groups (update_group i f s))" by auto
  moreover have "bk_id (if bk_id g = i then f g else g) = bk_id g \<and> set (bk_users g) \<subseteq> set (bk_users (if bk_id g = i then f g else g))"
    using assms by auto
  ultimately show "\<exists>h \<in> set (db_groups (update_group i f s)). bk_id h = bk_id g \<and> set (bk_users g) \<subseteq> set (bk_users h)" by blast
qed

lemma keeps_quotas:
  "keeps s (snd (reserveUserGroupInstance e s))" "keeps s (releaseUserGroupInstance e s)" "keeps s (snd (snd (updateUserGroupDuration e old new s)))"
  "keeps s (snd (updateUserGroupsQuotas e d n r s))" "keeps s (snd (updateDefaultUserGroupsQuotas e d' n' r' s))"
  by (simp_all add: reserveUserGroupInstance_def releaseUserGroupInstance_def updateUserGroupDuration_def updateUserGroupsQuotas_def
      updateDefaultUserGroupsQuotas_def Let_def keeps_user charge_def)

lemma keeps_devices:
  "keeps s (updateDevicesCurrentGroup is g s)" "keeps s (updateDevicesCurrentGroupFromOrigin is s)" "keeps s (returnDevicesToRoot is s)"
  by (rule keeps_same; simp)+

lemma keeps_lock: "keeps s (snd (setLockOnUser e b s))" "keeps s (unlockUser e s)"
  by (auto simp: setLockOnUser_def unlockUser_def keeps_user split: option.split)

text \<open>An attempt to lock a user that exists always succeeds in the sense of \<open>lockResult\<close>.\<close>

lemma lockUser_cases:
  "lockUser e s = (case om_get (db_users s) e of
      None \<Rightarrow> (Inl (Inl ''not found''), s)
    | Some u \<Rightarrow> (Inr \<lparr>ls_modified = (\<not> us_lock u), ls_matched = True, ls_locked = False\<rparr>, snd (update_user e (\<lambda>u. u\<lparr>us_lock := True\<rparr>) s)))"
proof -
  have "(10::nat) = Suc 9" by simp
  then show ?thesis unfolding lockUser_def by (simp only: setIntervalWrapper.simps) (auto simp: setLockOnUser_def lockResult_def split: option.split)
qed

lemma keeps_lockUser: "keeps s (snd (lockUser e s))"
  by (auto simp: lockUser_cases keeps_user split: option.split)

lemma subs_add:
  assumes "subs_ok s" and "getGroup i s \<noteq> None"
  shows "subs_ok (snd (addGroupUser i e s))"
  unfolding subs_ok_def
proof (intro allI impI)
  fix k v j
  let ?t = "snd (addGroupUser i e s)"
  assume v: "om_get (db_users ?t) k = Some v" "j \<in> set (us_subscribed v)"
  have g: "db_groups ?t = map (\<lambda>g. if bk_id g = i then g\<lparr>bk_users := add_to_set e (bk_users g)\<rparr> else g) (db_groups s)"
    by (simp add: addGroupUser_def Let_def)
  have "om_get (db_users ?t) k = (if k = e then map_option (\<lambda>u. u\<lparr>us_subscribed := add_to_set i (us_subscribed u)\<rparr>) (om_get (db_users s) e)
      else om_get (db_users s) k)" by (simp add: addGroupUser_def Let_def updated_user)
  then obtain u where u: "om_get (db_users s) k = Some u" "k = e \<and> j = i \<or> j \<in> set (us_subscribed u)"
    using v by (cases "om_get (db_users s) k") (auto simp: add_to_set_def split: if_splits)
  obtain x where x: "x \<in> set (db_groups s)" "bk_id x = j" "k = e \<and> j = i \<or> k \<in> set (bk_users x)"
  proof (cases "j \<in> set (us_subscribed u)")
    case True
    then show ?thesis using that assms(1) u(1) unfolding subs_ok_def by blast
  next
    case False
    obtain y where "getGroup i s = Some y" using assms(2) by auto
    then show ?thesis using that found_group u(2) False by blast
  qed
  let ?x = "if bk_id x = i then x\<lparr>bk_users := add_to_set e (bk_users x)\<rparr> else x"
  have "?x \<in> set (db_groups ?t)" unfolding g using x(1) by simp
  moreover have "bk_id ?x = j \<and> k \<in> set (bk_users ?x)" using x by (auto simp: add_to_set_def)
  ultimately show "\<exists>g \<in> set (db_groups ?t). bk_id g = j \<and> k \<in> set (bk_users g)" by blast
qed

lemma subs_removed:
  assumes "subs_ok s"
  shows "subs_ok (snd (removeGroupUser i e s))"
proof (cases "getGroup i s")
  case (Some g)
  define f where "f = (\<lambda>h :: booking. h\<lparr>bk_users := filter (\<lambda>x. x \<noteq> e) (bk_users h), bk_moderators := filter (\<lambda>x. x \<noteq> e) (bk_moderators h)\<rparr>)"
  let ?t = "unsubscribe i e (update_group i f s)"
  have "subs_ok ?t" unfolding subs_ok_def
  proof (intro allI impI)
    fix k v j
    assume v: "om_get (db_users ?t) k = Some v" "j \<in> set (us_subscribed v)"
    then obtain u where u: "om_get (db_users s) k = Some u" "j \<in> set (us_subscribed u)" "k \<noteq> e \<or> j \<noteq> i"
      by (auto simp: unsubscribe_def updated_user split: if_splits)
    then obtain x where x: "x \<in> set (db_groups s)" "bk_id x = j" "k \<in> set (bk_users x)" using assms unfolding subs_ok_def by blast
    have "(if bk_id x = i then f x else x) \<in> set (db_groups ?t)" using x(1) by simp
    moreover have "bk_id (if bk_id x = i then f x else x) = j \<and> k \<in> set (bk_users (if bk_id x = i then f x else x))"
      using x u(3) by (auto simp: f_def)
    ultimately show "\<exists>g \<in> set (db_groups ?t). bk_id g = j \<and> k \<in> set (bk_users g)" by blast
  qed
  then show ?thesis using Some assms by (simp add: removeGroupUser_def f_def)
qed (simp add: removeGroupUser_def assms)

lemma subs_deleted:
  assumes "subs_ok s" and "distinct (map bk_id (db_groups s))"
  shows "subs_ok (deleteUserGroup i s)"
proof (cases "getGroup i s")
  case (Some g)
  then have g: "g \<in> set (db_groups s)" "bk_id g = i" using found_group by blast+
  define t where "t = fold (unsubscribe i) (bk_users g) (s\<lparr>db_groups := filter (\<lambda>h. bk_id h \<noteq> i) (db_groups s)\<rparr>)"
  have t: "subs_ok t" unfolding subs_ok_def
  proof (intro allI impI)
    fix k v j
    assume v: "om_get (db_users t) k = Some v" "j \<in> set (us_subscribed v)"
    then obtain u where w: "om_get (db_users s) k = Some u"
      "us_subscribed v = (if k \<in> set (bk_users g) then filter (\<lambda>j. j \<noteq> i) (us_subscribed u) else us_subscribed u)"
      by (cases "om_get (db_users s) k") (auto simp: t_def unsubscribed_user)
    then have u: "om_get (db_users s) k = Some u" "j \<in> set (us_subscribed u)" "k \<in> set (bk_users g) \<Longrightarrow> j \<noteq> i"
      using v(2) by (auto split: if_splits)
    then obtain x where x: "x \<in> set (db_groups s)" "bk_id x = j" "k \<in> set (bk_users x)" using assms(1) unfolding subs_ok_def by blast
    have "j \<noteq> i" using u(3) x g assms(2) by (metis distinct_map inj_on_eq_iff)
    then show "\<exists>h \<in> set (db_groups t). bk_id h = j \<and> k \<in> set (bk_users h)" using x by (auto simp: t_def)
  qed
  have k: "keeps t (returnDevicesToRoot is (snd (snd (updateUserGroupDuration o1 a b (releaseUserGroupInstance o2 t)))))"
    "keeps t (updateDevicesCurrentGroupFromOrigin is (snd (snd (updateUserGroupDuration o1 a b (releaseUserGroupInstance o2 t)))))" for "is" o1 a b o2
    by (meson keeps_trans keeps_quotas keeps_devices)+
  show ?thesis using Some assms(1) keeps_subs [OF k(1) t] keeps_subs [OF k(2) t] by (simp add: deleteUserGroup_def Let_def t_def)
qed (simp add: deleteUserGroup_def assms)

lemma subs_created:
  assumes "subs_ok s"
  shows "subs_ok (snd (createUserGroup g s))"
proof -
  define t where "t = snd (reserveUserGroupInstance (bk_owner g) s)"
  have t: "subs_ok t" using keeps_subs [OF keeps_quotas(1) assms] by (simp add: t_def)
  have "subs_ok (snd (addGroupUser i e (snd (addGroupUser i e' (snd (createGroup h t))))))" if "i = bk_id (fst (createGroup h t))" for i e e' h
  proof -
    have c: "db_groups (snd (createGroup h t)) = db_groups t @ [fst (createGroup h t)]" by (simp add: createGroup_def Let_def)
    have k: "keeps t (snd (createGroup h t))" by (auto simp: keeps_def fewer_subs_def more_members_def createGroup_def Let_def)
    have n: "getGroup i (snd (createGroup h t)) \<noteq> None" using that unfolding getGroup_def find_None_iff c by auto
    have "getGroup i (snd (addGroupUser i e' v)) \<noteq> None" if "getGroup i v \<noteq> None" for v
      using that unfolding getGroup_def find_None_iff by (auto simp: addGroupUser_def Let_def)
    then show ?thesis using n subs_add keeps_subs [OF k t] by blast
  qed
  then show ?thesis using t by (simp add: createUserGroup_def Let_def t_def split: option.split)
qed

text \<open>The invariant of both machines: bookings are apart and have their own numbers, and subscriptions are memberships.\<close>

definition farm_ok :: "db \<Rightarrow> bool" where
  "farm_ok s \<longleftrightarrow> bookings_ok s \<and> subs_ok s"

lemma farm_keeps: "farm_ok s \<Longrightarrow> keeps s t \<Longrightarrow> bookings_ok t \<Longrightarrow> farm_ok t"
  by (simp add: farm_ok_def keeps_subs)

lemma farm_same: "farm_ok s \<Longrightarrow> keeps s t \<Longrightarrow> db_groups t = db_groups s \<Longrightarrow> db_next t = db_next s \<Longrightarrow> farm_ok t"
  using farm_keeps bookings_same [of t s] unfolding farm_ok_def by blast

lemma farm_deleted: "farm_ok s \<Longrightarrow> farm_ok (deleteUserGroup i s)"
  unfolding farm_ok_def by (intro conjI bookings_deleted subs_deleted) (auto simp only: bookings_ok_def)

lemma farm_removed: "farm_ok s \<Longrightarrow> farm_ok (fst (snd (remove_groups u is s)))"
  by (induction "is" arbitrary: s) (simp_all add: Let_def remove_group_def farm_deleted split: option.split)

lemma farm_delete: "farm_ok s \<Longrightarrow> farm_ok (fst (delete_api u is s))"
  by (simp add: delete_api_def Let_def farm_removed)

lemma keeps_ops:
  "keeps s (snd (addGroupDevices g is s))" "keeps s (removeGroupDevices g is s)" "keeps s (updateGroupName i n s)" "keeps s (snd (updateUserGroup g d s))"
proof -
  have c: "keeps s (snd (charge_devices g is s))" by (simp add: charge_devices_def Let_def keeps_quotas)
  have k: "keeps s (update_group i f t)" if "keeps s t" "\<And>g. bk_id (f g) = bk_id g" "\<And>g. bk_users (f g) = bk_users g" for i f t
    using keeps_trans [OF that(1) keeps_group] that(2,3) by auto
  show "keeps s (snd (addGroupDevices g is s))"
    by (simp add: addGroupDevices_def Let_def c commit_devices_def) (intro impI k c; simp)
  show "keeps s (removeGroupDevices g is s)"
    unfolding removeGroupDevices_def Let_def by (rule k [OF keeps_quotas(3)]) simp_all
  show "keeps s (updateGroupName i n s)" unfolding updateGroupName_def by (rule k [OF keeps_refl]) simp_all
  show "keeps s (snd (updateUserGroup g d s))"
  proof -
    define t where "t = update_group (bk_id g) (set_data d) (snd (snd (updateUserGroupDuration (bk_owner g) (bk_duration g) (gd_duration d) s)))"
    have t: "keeps s t" unfolding t_def by (rule k [OF keeps_quotas(3)]) (simp_all add: set_data_def)
    have m: "keeps s (if b then updateDevicesCurrentGroup is h v else v)" "keeps s (if b then updateDevicesCurrentGroupFromOrigin is v else v)"
      if "keeps s v" for b "is" h v using keeps_trans [OF that keeps_devices(1)] keeps_trans [OF that keeps_devices(2)] that by simp_all
    show ?thesis unfolding updateUserGroup_def Let_def t_def [symmetric] using keeps_quotas(3) t m by (simp only: if_distrib [of snd] snd_conv split: if_split) blast
  qed
qed

lemma farm_add: "farm_ok s \<Longrightarrow> g \<in> set (db_groups s) \<Longrightarrow> farm_ok (fst (add_as u g is now s))"
proof -
  assume f: "farm_ok s" and g: "g \<in> set (db_groups s)"
  have a: "farm_ok (snd (addGroupDevices g ds s))" for ds
    using f g by (intro farm_keeps [OF f keeps_ops(1)] bookings_added) (simp_all add: farm_ok_def)
  have m: "farm_ok (updateDevicesCurrentGroup ds h t)" if "farm_ok t" for ds h t by (rule farm_same [OF that keeps_devices(1)]) simp_all
  show ?thesis using f a by (auto simp: add_as_def add_to_group_def Let_def farm_delete m split: option.split)
qed

lemma farm_api: "farm_ok s \<Longrightarrow> farm_ok (fst (api_step s e))"
proof (cases e)
  case (CreateRequest u r now)
  assume "farm_ok s"
  then show ?thesis using create_kept(2) [of s u r now] CreateRequest subs_created by (simp add: farm_ok_def create_api_def Let_def)
next
  case (DeleteRequest u "is")
  assume "farm_ok s"
  then show ?thesis using DeleteRequest farm_delete by simp
next
  case (AddRequest u i "is" now)
  assume f: "farm_ok s"
  then show ?thesis using AddRequest farm_add found_user_group by (auto simp: add_api_def split: option.split)
next
  case (RemoveRequest u i serials)
  assume f: "farm_ok s"
  have "keeps s (fst (remove_api u i serials s))"
    using keeps_trans [OF keeps_ops(2) keeps_devices(2)] by (auto simp: remove_api_def Let_def keeps_ops split: option.split)
  then show ?thesis using RemoveRequest f remove_kept(2) [of s u i serials] by (simp add: farm_ok_def keeps_subs)
next
  case (UpdateRequest u i r)
  assume f: "farm_ok s"
  have "keeps s (fst (update_api u i r s))"
    by (auto simp: update_api_def rename_group_def apply_update_def Let_def keeps_ops split: option.split)
  then show ?thesis using UpdateRequest f update_kept(2) [of s u i r] by (simp add: farm_ok_def keeps_subs)
next
  case (QuotaRequest email d n r)
  assume f: "farm_ok s"
  then show ?thesis using QuotaRequest farm_same [OF f keeps_quotas(4)] by simp
qed

lemma farm_lock: "farm_ok s \<Longrightarrow> farm_ok (snd (lockUser e s))" "farm_ok s \<Longrightarrow> farm_ok (unlockUser e s)"
proof -
  assume f: "farm_ok s"
  have "db_groups (snd (lockUser e s)) = db_groups s" "db_next (snd (lockUser e s)) = db_next s"
    "db_groups (unlockUser e s) = db_groups s" "db_next (unlockUser e s) = db_next s"
    by (simp_all add: lockUser_cases unlockUser_def setLockOnUser_def split: option.split)
  then show "farm_ok (snd (lockUser e s))" "farm_ok (unlockUser e s)" using farm_same [OF f keeps_lockUser] farm_same [OF f keeps_lock(2)] by blast+
qed

lemma group_stays:
  "(getGroup i (snd (lockUser e s)) = None) = (getGroup i s = None)" "(getGroup i (unlockUser e s) = None) = (getGroup i s = None)"
  "(getGroup i (snd (addGroupUser j e s)) = None) = (getGroup i s = None)"
proof -
  have k: "getGroup i t = None \<longleftrightarrow> i \<notin> bk_id ` set (db_groups t)" for t by (auto simp: getGroup_def find_None_iff)
  show "(getGroup i (snd (lockUser e s)) = None) = (getGroup i s = None)" "(getGroup i (unlockUser e s) = None) = (getGroup i s = None)"
    by (simp_all add: k lockUser_cases unlockUser_def setLockOnUser_def split: option.split)
  have "bk_id ` (\<lambda>g. if bk_id g = j then g\<lparr>bk_users := add_to_set e (bk_users g)\<rparr> else g) ` A = bk_id ` A" for A :: "booking set"
    unfolding image_image by (rule image_cong) simp_all
  then show "(getGroup i (snd (addGroupUser j e s)) = None) = (getGroup i s = None)"
    by (simp add: k addGroupUser_def Let_def)
qed

lemma farm_member: "farm_ok s \<Longrightarrow> getGroup i s \<noteq> None \<Longrightarrow> farm_ok (snd (addGroupUser i e s))"
  by (simp add: farm_ok_def bookings_subscribed subs_add)

lemma farm_add_member:
  assumes "farm_ok s" and "getGroup i s \<noteq> None"
  shows "farm_ok (fst (snd (add_member i e s))) \<and> getGroup i (fst (snd (add_member i e s))) \<noteq> None"
proof -
  obtain r t where l: "lockUser e s = (r, t)" by (cases "lockUser e s")
  then have t: "farm_ok t" "getGroup i t \<noteq> None" using farm_lock(1) [OF assms(1), of e] group_stays(1) [of i e s] assms(2) by simp_all
  then show ?thesis using farm_lock(2) [OF farm_member [OF t]] group_stays l
    by (auto simp: add_member_def Let_def simp del: not_None_eq split: sum.split option.split)
qed

lemma farm_add_members: "farm_ok s \<Longrightarrow> getGroup i s \<noteq> None \<Longrightarrow> farm_ok (fst (snd (add_members i es s)))"
proof (induction es arbitrary: s)
  case (Cons e es)
  obtain r t out where a: "add_member i e s = (r, t, out)" by (cases "add_member i e s") auto
  then have "farm_ok t" "getGroup i t \<noteq> None" using farm_add_member [OF Cons.prems, of e] by simp_all
  then show ?case using Cons.IH [of t] a by (cases r) (simp_all add: Let_def)
qed simp

lemma farm_gone: "farm_ok s \<Longrightarrow> farm_ok (snd (removeGroupUser i e s))"
proof -
  assume f: "farm_ok s"
  then have "bookings_ok (update_group i (\<lambda>h. h\<lparr>bk_users := x h, bk_moderators := y h\<rparr>) s)" for x y
    unfolding farm_ok_def by (intro bookings_unmoved) simp_all
  then have "bookings_ok (snd (removeGroupUser i e s))" using f
    by (auto simp: removeGroupUser_def bookings_ok_def farm_ok_def split: option.split)
  then show ?thesis using f subs_removed by (simp add: farm_ok_def)
qed

lemma farm_remove_member: "farm_ok s \<Longrightarrow> farm_ok (fst (snd (remove_member i g root e s)))"
proof -
  assume f: "farm_ok s"
  obtain r t where l: "lockUser e s = (r, t)" by (cases "lockUser e s")
  then have t: "farm_ok t" using farm_lock(1) [OF f, of e] by simp
  then show ?thesis using f l farm_lock(2) farm_gone by (auto simp: remove_member_def Let_def split: sum.split option.split)
qed

lemma farm_remove_members: "farm_ok s \<Longrightarrow> farm_ok (fst (snd (remove_members i g root es s)))"
  by (induction es arbitrary: s) (simp_all add: Let_def farm_remove_member)

lemma farm_moderators: "farm_ok s \<Longrightarrow> farm_ok (update_group i (\<lambda>g. g\<lparr>bk_moderators := f g\<rparr>) s)"
  by (rule farm_keeps, assumption, rule keeps_group) (auto simp: farm_ok_def intro: bookings_unmoved)

lemma farm_users:
  assumes "farm_ok s" and "\<And>e v. om_get m e = Some v \<Longrightarrow> us_subscribed v \<noteq> [] \<Longrightarrow> om_get (db_users s) e = Some v"
  shows "farm_ok (s\<lparr>db_users := m\<rparr>)"
proof -
  have "subs_ok (s\<lparr>db_users := m\<rparr>)" using assms unfolding subs_ok_def farm_ok_def
    by simp (metis empty_iff list.set(1))
  then show ?thesis using assms(1) by (simp add: farm_ok_def bookings_ok_def)
qed

lemma root_known: "getRootGroup s = Some g \<Longrightarrow> getGroup (bk_id g) s \<noteq> None"
  unfolding getRootGroup_def getGroup_def find_Some_iff find_None_iff by (metis nth_mem)

lemma farm_created: "farm_ok s \<Longrightarrow> farm_ok (snd (createUser env e p s))"
proof -
  assume f: "farm_ok s"
  have "farm_ok (s\<lparr>db_users := om_set e (new_user env p a) (db_users s)\<rparr>)" for a
    by (rule farm_users [OF f]) (auto simp: new_user_def split: if_splits)
  moreover have "getGroup i (s\<lparr>db_users := m\<rparr>) = getGroup i s" for i m by (simp add: getGroup_def)
  ultimately show ?thesis using f root_known farm_member by (simp add: createUser_def Let_def split: option.split)
qed

lemma farm_leave: "farm_ok s \<Longrightarrow> farm_ok (leave_group e g s)"
  by (simp add: leave_group_def farm_deleted farm_gone split: option.split)

lemma farm_removeUser: "farm_ok s \<Longrightarrow> farm_ok (fst (snd (removeUser u o1 e s)))"
proof -
  assume f: "farm_ok s"
  obtain r t where l: "lockUser e s = (r, t)" by (cases "lockUser e s")
  then have t: "farm_ok t" using farm_lock(1) [OF f, of e] by simp
  have "farm_ok (fold (leave_group e) gs v)" if "farm_ok v" for gs v using that by (induction gs arbitrary: v) (simp_all add: farm_leave)
  then have "farm_ok ((fold (leave_group e) gs t)\<lparr>db_users := om_del e (db_users (fold (leave_group e) gs t))\<rparr>)" for gs
    by (intro farm_users) (auto simp: t split: if_splits)
  then show ?thesis using f l t by (auto simp: removeUser_def Let_def split: sum.split option.split)
qed

lemma farm_removeUsers: "farm_ok s \<Longrightarrow> farm_ok (fst (snd (removeUsers u o1 es s)))"
  by (induction es arbitrary: s) (simp_all add: Let_def farm_removeUser)

lemma farm_quotas: "farm_ok s \<Longrightarrow> farm_ok (snd (updateUserGroupsQuotas e d n r s))" "farm_ok s \<Longrightarrow> farm_ok (snd (updateDefaultUserGroupsQuotas e d' n' r' s))"
  using farm_same [OF _ keeps_quotas(4)] farm_same [OF _ keeps_quotas(5)] by (simp_all add: updateDefaultUserGroupsQuotas_def)

lemma farm_step: "farm_ok s \<Longrightarrow> farm_ok (fst (member_step env s e))"
proof -
  assume f: "farm_ok s"
  have g: "getGroup i s \<noteq> None" if "getUserGroup m i s = Some g" for m i g
    using found_user_group [OF that] unfolding getGroup_def find_None_iff by blast
  have l: "farm_ok t" if "lockUser k s = (r, t)" for k r t using farm_lock(1) [OF f, of k] that by simp
  have m: "farm_ok (snd (addGroupModerator i k s))" if "getGroup i s \<noteq> None" for i k
    using farm_moderators [OF farm_member [OF f that]] by (simp add: addGroupModerator_def Let_def)
  show ?thesis
  proof (cases e)
    case (AddUsers u i emails)
    then show ?thesis using f g farm_add_members [OF f] by (auto simp: add_users_api_def Let_def split: option.split)
  next
    case (AddModerator u i k)
    then show ?thesis using f g m by (auto simp: add_moderator_api_def Let_def split: option.split)
  next
    case (SetPrivilege u k p)
    have "farm_ok (snd (update_user k (\<lambda>v. v\<lparr>us_privilege := p\<rparr>) s))" by (rule farm_same [OF f keeps_user]) simp_all
    then show ?thesis using SetPrivilege f by (simp add: set_privilege_api_def)
  next
    case (SetQuotas k d n r)
    obtain q t where q: "lockUser k s = (q, t)" by (cases "lockUser k s")
    have "farm_ok (snd (updateUserGroupsQuotas k x y z t))" "farm_ok (unlockUser k (snd (updateUserGroupsQuotas k x y z t)))" for x y z
      using farm_quotas(1) farm_lock(2) l [OF q] by blast+
    then show ?thesis using SetQuotas f q l [OF q] by (cases "om_get (db_users s) k"; cases q) (simp_all add: update_quotas_api_def Let_def)
  next
    case (SetDefaults u d n r)
    obtain q t where q: "lockUser (rq_email u) s = (q, t)" by (cases "lockUser (rq_email u) s")
    have "farm_ok (snd (updateDefaultUserGroupsQuotas k x y z t))" "farm_ok (unlockUser k (snd (updateDefaultUserGroupsQuotas k x y z t)))" for k x y z
      using farm_quotas(2) farm_lock(2) l [OF q] by blast+
    then show ?thesis using SetDefaults f q l [OF q] by (cases q) (simp_all add: update_defaults_api_def Let_def)
  qed (auto simp: f farm_api remove_users_api_def Let_def farm_remove_members remove_moderator_api_def removeGroupModerator_def farm_moderators
      create_user_api_def farm_created delete_users_api_def farm_removeUsers delete_owned_api_def farm_delete split: option.split)
qed

interpretation farm: invariant_machine "member_step env" farm_ok for env
  by unfold_locales (rule farm_step)

section \<open>What the requests do\<close>

text \<open>
  C17. Who subscribes to a group is a member of it: after any run of requests on groups, members, moderators, users and quotas, each group that a
  user subscribes to (which is what opens its devices to the user) exists and lists the user among its users.
\<close>

theorem subscribers_are_members:
  assumes "farm_ok s" and "om_get (db_users (fst (run (member_step env) s es))) e = Some u" and "i \<in> set (us_subscribed u)"
  shows "\<exists>g. g \<in> set (db_groups (fst (run (member_step env) s es))) \<and> bk_id g = i \<and> e \<in> set (bk_users g)"
  using farm.inv_run [OF assms(1), of es env] assms(2,3) unfolding farm_ok_def subs_ok_def by (simp add: list_all_iff) blast

lemma locked_silently: "lockUser e s = (Inr st, t) \<Longrightarrow> \<not> ls_locked st"
  by (auto simp: lockUser_cases split: option.splits)

text \<open>
  Any member of a group can remove any other: the request to remove users does not ask for permission. A member without permission to edit
  the group removes another member who is not an owner, and the answer is that it is done.
\<close>

theorem any_member_removes_others:
  assumes "getUserGroup (rq_email u) i s = Some g" and "\<not> hasGroupEditPermission g u True" and "getRootGroup s = Some root"
    and "bk_class g \<noteq> BOOKABLE" and "e \<in> set (bk_users g)" and "e \<noteq> bk_owner g" and "e \<noteq> bk_owner root" and "e \<noteq> []"
    and "om_get (db_users s) e = Some v" and "\<not> us_lock v" and "getGroup i s = Some g"
  shows "answer_of (snd (remove_users_api u i (Some [e]) s)) = Some (200, ''Removed (group users)'') \<and>
    map_option bk_users (getGroup i (fst (remove_users_api u i (Some [e]) s))) = Some (filter (\<lambda>x. x \<noteq> e) (bk_users g)) \<and>
    map_option us_subscribed (om_get (db_users (fst (remove_users_api u i (Some [e]) s))) e) = Some (filter (\<lambda>j. j \<noteq> i) (us_subscribed v))"
proof -
  let ?f = "\<lambda>h. h\<lparr>bk_users := filter (\<lambda>x. x \<noteq> e) (bk_users h), bk_moderators := filter (\<lambda>x. x \<noteq> e) (bk_moderators h)\<rparr>"
  define t where "t = snd (update_user e (\<lambda>u. u\<lparr>us_lock := True\<rparr>) s)"
  have l: "lockUser e s = (Inr \<lparr>ls_modified = True, ls_matched = True, ls_locked = False\<rparr>, t)"
    using assms(9,10) by (simp add: lockUser_cases t_def)
  have t: "getGroup i t = Some g" using assms(11) by (simp add: t_def getGroup_def)
  have r: "removeGroupUser i e t = (Gone, unsubscribe i e (update_group i ?f t))" using t assms(6) by (simp add: removeGroupUser_def)
  define w where "w = unlockUser e (unsubscribe i e (update_group i ?f t))"
  have "remove_member i g root e s = (Some (RDone Gone), w, [])"
    using assms(4-7) l r by (simp add: remove_member_def isRemoveGroupUserAllowed_def Let_def w_def)
  then have a: "remove_users_api u i (Some [e]) s = (w, [Respond 200 ''Removed (group users)''])"
    using assms(1,3,8) by (simp add: remove_users_api_def Let_def remove_users_answer_def)
  have "getGroup i w = getGroup i (update_group i ?f t)"
    by (simp add: getGroup_def w_def unlockUser_def setLockOnUser_def split: option.split)
  moreover have "getGroup i (update_group i ?f t) = map_option ?f (getGroup i t)"
  proof -
    have "List.find (\<lambda>g. bk_id g = i) (map (\<lambda>g. if bk_id g = i then ?f g else g) gs) = map_option ?f (List.find (\<lambda>g. bk_id g = i) gs)"
      for gs :: "booking list" by (induction gs) auto
    then show ?thesis by (simp add: getGroup_def)
  qed
  moreover have "om_get (db_users w) e = Some (v\<lparr>us_lock := False, us_subscribed := filter (\<lambda>j. j \<noteq> i) (us_subscribed v)\<rparr>)"
    using assms(9) by (auto simp: w_def unlockUser_def setLockOnUser_def unsubscribe_def updated_user t_def split: option.split)
  ultimately show ?thesis using t unfolding a by simp
qed

lemma locked_user:
  assumes "om_get (db_users s) e = Some v" and "us_lock v"
  shows "lockUser e s = (Inr \<lparr>ls_modified = False, ls_matched = True, ls_locked = False\<rparr>, s)"
proof -
  have "v\<lparr>us_lock := True\<rparr> = v" using assms(2) by simp
  moreover have "om_set e v (db_users s) = db_users s" using assms(1) unfolding om_set_def om_get_def by (rule update_triv)
  ultimately have "update_user e (\<lambda>u. u\<lparr>us_lock := True\<rparr>) s = (False, s)" using assms(1) by (simp add: update_user_def)
  then show ?thesis using assms by (simp add: lockUser_cases)
qed

text \<open>
  A lock is never reported: whatever the state, no request on members or users is answered that an object is locked
  (\<open>lockResult\<close> counts the user that the update found as a success), and a user whose lock is taken is reported as not found.
\<close>

theorem locks_are_never_reported:
  assumes "om_get (db_users s) e = Some v" and "us_lock v"
  shows "fst (add_member i e s) = Some LockedOut \<and> fst (snd (add_member i e s)) = s \<and> add_users_answer [LockedOut] = Respond 404 ''Not Found (group users)'' \<and>
    (rq_email u = e \<or> fst (removeUser u groupOwner e s) = UNotFound \<and> fst (snd (removeUser u groupOwner e s)) = s) \<and>
    (\<nexists>st t. lockUser k z = (Inr st, t) \<and> ls_locked st)"
  using assms(1) locked_user [OF assms] locked_silently [of k z]
  by (auto simp: add_member_def lightComputeStats_def add_users_answer_def removeUser_def om_has_def)

text \<open>
  A deletion that is filtered out locks the user for good: when a request to delete a user says that only owners (or only others) are to
  be deleted and the user is not one of them, the user stays but so does its lock; every later request to delete the user, whatever its filter,
  answers that the user is not found and changes nothing.
\<close>

theorem filtered_deletion_locks_user:
  assumes "fst (removeUser u groupOwner e s) = UUnchanged" and "rq_email u' \<noteq> e"
  shows "\<exists>v. om_get (db_users (fst (snd (removeUser u groupOwner e s)))) e = Some v \<and> us_lock v \<and>
    fst (removeUser u' groupOwner' e (fst (snd (removeUser u groupOwner e s)))) = UNotFound \<and>
    fst (snd (removeUser u' groupOwner' e (fst (snd (removeUser u groupOwner e s))))) = fst (snd (removeUser u groupOwner e s))"
proof -
  obtain v where v: "om_get (db_users s) e = Some v" using assms(1) by (cases "om_get (db_users s) e") (simp_all add: removeUser_def om_has_def)
  define t where "t = snd (update_user e (\<lambda>u. u\<lparr>us_lock := True\<rparr>) s)"
  have "rq_email u \<noteq> e" using assms(1) by (auto simp: removeUser_def split: if_splits)
  then have r: "fst (snd (removeUser u groupOwner e s)) = t" using assms(1) v
    by (simp add: removeUser_def lockUser_cases t_def lightComputeStats_def Let_def split: if_splits)
  have w: "om_get (db_users t) e = Some (v\<lparr>us_lock := True\<rparr>)" using v by (simp add: t_def updated_user)
  then have "fst (removeUser u' groupOwner' e t) = UNotFound \<and> fst (snd (removeUser u' groupOwner' e t)) = t"
    using locked_user [OF w] assms(2) by (simp add: removeUser_def om_has_def lightComputeStats_def)
  then show ?thesis unfolding r using w by auto
qed

text \<open>
  A refused change of quotas is made all the same: when the user is locked, the client gets 403, but the code goes on
  with what \<open>computeStats\<close> returned (the response, which counts as true) and sets the quotas.
\<close>

theorem refused_quotas_are_set:
  assumes "om_get (db_users s) e = Some v" and "us_lock v" and "0 < n" and "us_number v \<le> n"
  shows "answer_of (snd (update_quotas_api e None (Some n) None s)) = Some (403, ''Forbidden (user not changed)'') \<and>
    map_option us_max_number (om_get (db_users (fst (update_quotas_api e None (Some n) None s))) e) = Some n"
proof -
  have "lockUser e s = (Inr \<lparr>ls_modified = False, ls_matched = True, ls_locked = False\<rparr>, snd (update_user e (\<lambda>u. u\<lparr>us_lock := True\<rparr>) s))"
    using assms(1,2) by (simp add: lockUser_cases)
  then show ?thesis using assms
    by (simp add: update_quotas_api_def computeStats_def Let_def updateUserGroupsQuotas_def updated_user given_def)
qed

text \<open>
  A moderator who has no account yet never sees the group: when an address without a user becomes a moderator of a group and the user is
  created later, the group lists the user and moderator, but the user does not subscribe to the group.
\<close>

theorem early_moderator_is_not_subscribed:
  assumes "getGroup i s = Some g" and "om_get (db_users s) e = None" and "getRootGroup s = Some root" and "bk_id root \<noteq> i"
  shows "map_option (\<lambda>h. e \<in> set (bk_users h) \<and> e \<in> set (bk_moderators h)) (getGroup i (snd (createUser env e p (snd (addGroupModerator i e s))))) = Some True \<and>
    map_option us_subscribed (om_get (db_users (snd (createUser env e p (snd (addGroupModerator i e s))))) e) = Some [bk_id root]"
proof -
  define t where "t = snd (addGroupModerator i e s)"
  let ?f = "\<lambda>h. h\<lparr>bk_users := add_to_set e (bk_users h)\<rparr>" and ?m = "\<lambda>h. h\<lparr>bk_moderators := add_to_set e (bk_moderators h)\<rparr>"
  have u: "db_users t = db_users s" using assms(2) by (simp add: t_def addGroupModerator_def addGroupUser_def update_user_def Let_def)
  have gi: "getGroup k (update_group j f z) = (if k = j then map_option f (getGroup k z) else getGroup k z)" if "\<And>g. bk_id (f g) = bk_id g" for k j f z
  proof -
    have "List.find (\<lambda>g. bk_id g = k) (map (\<lambda>g. if bk_id g = j then f g else g) gs) =
      (if k = j then map_option f (List.find (\<lambda>g. bk_id g = k) gs) else List.find (\<lambda>g. bk_id g = k) gs)" for gs
      by (induction gs) (auto simp: that)
    then show ?thesis by (simp add: getGroup_def)
  qed
  have same: "getGroup k (snd (update_user x f z)) = getGroup k z" for k x f z by (simp add: getGroup_def)
  have g: "getGroup i t = Some (?m (?f g))" using assms(1) by (simp add: t_def addGroupModerator_def addGroupUser_def Let_def gi same)
  have r: "\<exists>h. getRootGroup t = Some h \<and> bk_id h = bk_id root"
  proof -
    have p: "List.find (\<lambda>g. bk_privilege g = ROOT) (map (\<lambda>g. if bk_id g = j then f g else g) gs) =
      map_option (\<lambda>g. if bk_id g = j then f g else g) (List.find (\<lambda>g. bk_privilege g = ROOT) gs)" if "\<And>g. bk_privilege (f g) = bk_privilege g" for f :: "booking \<Rightarrow> booking" and gs j
      by (induction gs) (auto simp: that)
    show ?thesis using assms(3) by (auto simp: t_def addGroupModerator_def addGroupUser_def Let_def getRootGroup_def p simp del: map_map)
  qed
  then obtain h where h: "getRootGroup t = Some h" "bk_id h = bk_id root" by blast
  define z where "z = t\<lparr>db_users := om_set e (new_user env p (om_get (db_users t) (bk_owner h))) (db_users t)\<rparr>"
  have c: "snd (createUser env e p t) = snd (addGroupUser (bk_id root) e z)"
    using h assms(2) u by (simp add: createUser_def Let_def z_def om_has_def)
  have "getGroup i (snd (addGroupUser (bk_id root) e z)) = getGroup i t"
    using assms(4) by (simp add: addGroupUser_def Let_def gi same) (simp add: z_def getGroup_def)
  moreover have "om_get (db_users (snd (addGroupUser (bk_id root) e z))) e =
      Some (new_user env p (om_get (db_users t) (bk_owner h))\<lparr>us_subscribed := [bk_id root]\<rparr>)"
    by (simp add: addGroupUser_def Let_def updated_user z_def new_user_def add_to_set_def)
  ultimately show ?thesis unfolding t_def [symmetric] c using g by (simp add: add_to_set_def)
qed

text \<open>
  A user cannot delete all groups of one's own: the groups of an owner are looked up by an address that is compared with the
  whole document of the owner, so for everybody but the owner of the root group there are none, and nothing is deleted.
\<close>

theorem owners_find_no_groups:
  assumes "getRootGroup s = Some root" and "rq_email u \<noteq> bk_owner root"
  shows "delete_owned_api u s = (s, [Respond 304 ''Unchanged''])"
  using assms by (simp add: delete_owned_api_def getOwnerGroups_def delete_api_def Let_def)

text \<open>
  The devices that a group is offered are those it can take: of the given devices, one that no group of that number has already is offered
  exactly when adding it would not be refused because it is busy.
\<close>

theorem offered_devices_are_free:
  assumes "\<forall>h \<in> set (db_groups s). bk_id h = bk_id g \<longrightarrow> d \<notin> set (bk_devices h)"
  shows "d \<in> set (bookable_serials g serials s) \<longleftrightarrow> d \<in> set serials \<and> \<not> devices_busy g [d] s"
proof -
  have f: "d \<in> set (fold (\<lambda>c xs. difference xs (cf_devices c)) cs xs) \<longleftrightarrow> d \<in> set xs \<and> (\<forall>c \<in> set cs. d \<notin> set (cf_devices c))" for cs xs
    by (induction cs arbitrary: xs) auto
  have c: "(\<exists>c \<in> set (computeConflicts (bk_id g) serials (bk_dates g) h). d \<in> set (cf_devices c)) \<longleftrightarrow>
      bk_id h \<noteq> bk_id g \<and> d \<in> set serials \<and> d \<in> set (bk_devices h) \<and> (\<exists>t \<in> set (bk_dates g). \<exists>w \<in> set (bk_dates h). overlaps t w)" for h
    by (auto simp: computeConflicts_def Let_def filter_empty_conv)
  have b: "devices_busy g [d] s \<longleftrightarrow> (\<exists>h \<in> set (getTransientGroups s). d \<in> set (bk_devices h) \<and> (\<exists>t \<in> set (bk_dates g). \<exists>w \<in> set (bk_dates h). overlaps t w))"
    by (auto simp: devices_busy_def checkDatesOverlaps_def find_None_iff)
  have n: "bk_id h \<noteq> bk_id g" if "h \<in> set (getTransientGroups s)" "d \<in> set (bk_devices h)" for h
    using assms that by (auto simp: getTransientGroups_def)
  have "(\<exists>c \<in> set (checkConflicts (bk_id g) serials (bk_dates g) s). d \<in> set (cf_devices c)) \<longleftrightarrow>
      (\<exists>h \<in> set (getTransientGroups s). \<exists>c \<in> set (computeConflicts (bk_id g) serials (bk_dates g) h). d \<in> set (cf_devices c))"
    by (auto simp: checkConflicts_def)
  then show ?thesis unfolding bookable_serials_def f b c using n by auto
qed




section \<open>Witnesses\<close>

definition wit_env :: env_limits where
  "wit_env = \<lparr>en_number = 5, en_duration = 100, en_repetitions = 3\<rparr>"

definition wit_farm :: "bool \<Rightarrow> db" where
  "wit_farm locked = \<lparr>db_groups = [wit_root, wit_group 1 ''ann'' [] 0 10], db_next = 2,
     db_users = [(''ann'', wit_user\<lparr>us_subscribed := [1]\<rparr>), (''bob'', wit_user\<lparr>us_subscribed := [1], us_lock := locked\<rparr>)], db_devices = []\<rparr>"

lemma wit_farm_facts:
  "farm_ok (wit_farm b)" "getRootGroup (wit_farm b) = Some wit_root" "getGroup 1 (wit_farm b) = Some (wit_group 1 ''ann'' [] 0 10)"
  "getUserGroup ''bob'' 1 (wit_farm b) = Some (wit_group 1 ''ann'' [] 0 10)" "getUserGroup ''ann'' 1 (wit_farm b) = Some (wit_group 1 ''ann'' [] 0 10)"
  "om_get (db_users (wit_farm b)) ''bob'' = Some (wit_user\<lparr>us_subscribed := [1], us_lock := b\<rparr>)" "om_get (db_users (wit_farm b)) ''zed'' = None"
proof -
  show "farm_ok (wit_farm b)"
    by (auto simp: farm_ok_def wit_farm_def subs_ok_def bookings_ok_def booking_ok_def apart_def om_get_def wit_user_def wit_root_def wit_group_def split: if_splits)
qed (simp_all add: wit_farm_def getRootGroup_def getGroup_def getUserGroup_def om_get_def wit_root_def wit_group_def)

theorem subscribers_are_members_witness:
  "\<exists>g. g \<in> set (db_groups (wit_farm False)) \<and> bk_id g = 1 \<and> ''bob'' \<in> set (bk_users g)"
  using subscribers_are_members [OF wit_farm_facts(1) [of False], of wit_env "[]" "''bob''" "wit_user\<lparr>us_subscribed := [1], us_lock := False\<rparr>" 1]
  by (simp add: wit_farm_facts(6))

theorem any_member_removes_others_witness:
  "answer_of (snd (remove_users_api \<lparr>rq_email = ''carl'', rq_privilege = USER\<rparr> 1 (Some [''bob''])
      ((wit_farm False)\<lparr>db_groups := [wit_root, (wit_group 1 ''ann'' [] 0 10)\<lparr>bk_users := [''ann'', ''bob'', ''carl'']\<rparr>]\<rparr>))) = Some (200, ''Removed (group users)'')"
proof -
  let ?g = "(wit_group 1 ''ann'' [] 0 10)\<lparr>bk_users := [''ann'', ''bob'', ''carl'']\<rparr>"
  let ?s = "(wit_farm False)\<lparr>db_groups := [wit_root, ?g]\<rparr>"
  have "getUserGroup ''carl'' 1 ?s = Some ?g" "getRootGroup ?s = Some wit_root" "getGroup 1 ?s = Some ?g"
    by (simp_all add: getUserGroup_def getRootGroup_def getGroup_def wit_root_def wit_group_def)
  moreover have "om_get (db_users ?s) ''bob'' = Some (wit_user\<lparr>us_subscribed := [1], us_lock := False\<rparr>)" using wit_farm_facts(6) [of False] by simp
  ultimately show ?thesis
    using any_member_removes_others [of "\<lparr>rq_email = ''carl'', rq_privilege = USER\<rparr>" 1 ?s ?g wit_root "''bob''"]
    by (simp add: wit_group_def hasGroupEditPermission_def wit_root_def)
qed

theorem locks_are_never_reported_witness:
  "fst (add_member 1 ''bob'' (wit_farm True)) = Some LockedOut"
  using locks_are_never_reported [OF wit_farm_facts(6) [of True], of 1] by simp

theorem filtered_deletion_locks_user_witness:
  "fst (removeUser \<lparr>rq_email = ''root'', rq_privilege = ADMIN\<rparr> None ''bob''
      (fst (snd (removeUser \<lparr>rq_email = ''root'', rq_privilege = ADMIN\<rparr> (Some True) ''bob'' (wit_farm False))))) = UNotFound"
proof -
  let ?u = "\<lparr>rq_email = ''root'', rq_privilege = ADMIN\<rparr>"
  have "fst (removeUser ?u (Some True) ''bob'' (wit_farm False)) = UUnchanged"
    by (simp add: removeUser_def om_has_def wit_farm_facts lockUser_cases Let_def computeUserGroupOwnership_def getGroupsByUser_def
        wit_user_def list_ex_iff) (simp add: wit_farm_def wit_root_def wit_group_def)
  moreover have "rq_email ?u \<noteq> ''bob''" by simp
  ultimately show ?thesis using filtered_deletion_locks_user [of ?u "Some True" "''bob''" "wit_farm False" ?u None] by blast
qed

theorem refused_quotas_are_set_witness:
  "map_option us_max_number (om_get (db_users (fst (update_quotas_api ''bob'' None (Some 7) None (wit_farm True)))) ''bob'') = Some 7"
  using refused_quotas_are_set [OF wit_farm_facts(6) [of True], of 7] by (simp add: wit_user_def)

theorem early_moderator_is_not_subscribed_witness:
  "map_option us_subscribed (om_get (db_users (snd (createUser wit_env ''zed'' None (snd (addGroupModerator 1 ''zed'' (wit_farm False)))))) ''zed'') = Some [0]"
  using early_moderator_is_not_subscribed [OF wit_farm_facts(3,7,2), of wit_env None] by (simp add: wit_root_def wit_group_def)

theorem owners_find_no_groups_witness:
  "delete_owned_api \<lparr>rq_email = ''ann'', rq_privilege = USER\<rparr> (wit_farm False) = (wit_farm False, [Respond 304 ''Unchanged''])"
  using owners_find_no_groups [OF wit_farm_facts(2), of "\<lparr>rq_email = ''ann'', rq_privilege = USER\<rparr>"] by (simp add: wit_root_def wit_group_def)

theorem offered_devices_are_free_witness:
  "bookable_serials (wit_group 1 ''ann'' [] 0 10) [''d'', ''e''] (wit_db [wit_group 1 ''ann'' [] 0 10, wit_group 2 ''bob'' [''d''] 5 15]) = [''e''] \<and>
    devices_busy (wit_group 1 ''ann'' [] 0 10) [''d''] (wit_db [wit_group 1 ''ann'' [] 0 10, wit_group 2 ''bob'' [''d''] 5 15])"
proof -
  let ?g = "wit_group 1 ''ann'' [] 0 10" and ?s = "wit_db [wit_group 1 ''ann'' [] 0 10, wit_group 2 ''bob'' [''d''] 5 15]"
  have "bookable_serials ?g [''d'', ''e''] ?s = [''e'']"
    by (simp add: bookable_serials_def checkConflicts_def getTransientGroups_def computeConflicts_def wit_groups overlaps_def common_def difference_def)
  moreover have "\<forall>h \<in> set (db_groups ?s). bk_id h = bk_id ?g \<longrightarrow> ''d'' \<notin> set (bk_devices h)" by (simp add: wit_groups)
  ultimately show ?thesis using offered_devices_are_free [of ?s ?g "''d''" "[''d'', ''e'']"] by simp
qed


end
