(* ===== verification/Screen_Stream.thy ===== *)
theory Screen_Stream imports Bytes begin

text \<open>
  What the screen plugin reads from the minicap socket (\<open>lib/units/device/plugins/screen/util/\<close>): the banner
  (\<open>banner.js\<close>), the frames (\<open>frameparser.js\<close> and \<open>nextFrame\<close> of \<open>stream.js\<close>), and the set of
  clients (\<open>broadcastset.js\<close>). The abstract machine at the end of each section works on the bytes
  that have arrived, without chunks. A read of the socket without a size takes all that is buffered, a read with a
  size takes exactly so many bytes or nothing.
\<close>

section \<open>Little-endian numbers\<close>

fun le :: "byte list \<Rightarrow> nat" where
  "le [] = 0"
| "le (b # bs) = unat b + 256 * le bs"

fun put_le :: "nat \<Rightarrow> nat \<Rightarrow> byte list" where
  "put_le 0 n = []"
| "put_le (Suc k) n = of_nat n # put_le k (n div 256)"

lemma length_put_le [simp]: "length (put_le k n) = k"
  by (induction k arbitrary: n) auto

lemma le_put_le: "n < 256 ^ k \<Longrightarrow> le (put_le k n) = n"
proof (induction k arbitrary: n)
  case 0
  then show ?case by simp
next
  case (Suc k)
  then have "n div 256 < 256 ^ k" by (simp add: less_mult_imp_div_less mult.commute)
  then show ?case using Suc.IH by (simp add: unat_byte)
qed

lemma le_snoc: "le (bs @ [b]) = le bs + unat b * 256 ^ length bs"
  by (induction bs) (auto simp: algebra_simps)

section \<open>The frame parser\<close>

record frame_parser =
  fp_read :: nat
  fp_need :: nat
  fp_body :: "byte list option"
  fp_cursor :: nat
  fp_chunk :: "byte list option"

definition fp_new :: frame_parser where
  "fp_new = \<lparr>fp_read = 0, fp_need = 0, fp_body = None, fp_cursor = 0, fp_chunk = None\<rparr>"

definition fp_push :: "byte list \<Rightarrow> frame_parser \<Rightarrow> string + frame_parser" where
  "fp_push c p =
     (if fp_chunk p \<noteq> None then Inl ''Must consume pending frames before pushing more chunks''
      else Inr (p\<lparr>fp_chunk := Some c\<rparr>))"

definition body_with :: "frame_parser \<Rightarrow> byte list \<Rightarrow> byte list" where
  "body_with p bs = (case fp_body p of None \<Rightarrow> bs | Some b \<Rightarrow> b @ bs)"

function fp_loop :: "byte list \<Rightarrow> frame_parser \<Rightarrow> byte list option \<times> frame_parser" where
  "fp_loop c p =
     (if length c \<le> fp_cursor p then (None, p\<lparr>fp_cursor := 0, fp_chunk := None\<rparr>)
      else if fp_read p < 4 then
        fp_loop c (p\<lparr>fp_need := fp_need p + unat (c ! fp_cursor p) * 256 ^ fp_read p, fp_cursor := fp_cursor p + 1,
          fp_read := fp_read p + 1\<rparr>)
      else (let left = length c - fp_cursor p in
        if fp_need p \<le> left then
          (Some (body_with p (take (fp_need p) (drop (fp_cursor p) c))),
           p\<lparr>fp_cursor := fp_cursor p + fp_need p, fp_need := 0, fp_read := 0, fp_body := None\<rparr>)
        else
          fp_loop c (p\<lparr>fp_body := Some (body_with p (drop (fp_cursor p) c)), fp_need := fp_need p - left,
            fp_read := fp_read p + left, fp_cursor := length c\<rparr>)))"
  by pat_completeness auto
termination
  by (relation "measure (\<lambda>(c, p). length c - fp_cursor p)") (auto simp: Let_def)

declare fp_loop.simps [simp del]

definition fp_next :: "frame_parser \<Rightarrow> byte list option \<times> frame_parser" where
  "fp_next p = (case fp_chunk p of None \<Rightarrow> (None, p) | Some c \<Rightarrow> fp_loop c p)"

section \<open>Frames of a socket\<close>

text \<open>
  \<open>FrameProducer.nextFrame\<close>: the parser is fed with what the socket has buffered until there is a
  frame or nothing more to read. An exception of \<open>push\<close> is a value; the third result tells that the socket was found
  empty (\<open>readable\<close> is cleared).
\<close>

datatype pulled = Frame "byte list" | NoFrame | PushError string

function pull :: "frame_parser \<Rightarrow> byte list \<Rightarrow> pulled \<times> frame_parser \<times> byte list" where
  "pull p buf =
     (case fp_next p of
        (Some f, p1) \<Rightarrow> (Frame f, p1, buf)
      | (None, p1) \<Rightarrow>
          (if buf = [] then (NoFrame, p1, [])
           else (case fp_push buf p1 of
               Inl e \<Rightarrow> (PushError e, p1, [])
             | Inr p2 \<Rightarrow> pull p2 [])))"
  by pat_completeness auto
termination
  by (relation "measure (\<lambda>(p, buf). length buf)") auto

declare pull.simps [simp del]

record frame_reader =
  fr_parser :: frame_parser
  fr_buffer :: "byte list"

definition reader_new :: frame_reader where
  "reader_new = \<lparr>fr_parser = fp_new, fr_buffer = []\<rparr>"

datatype read_event = Arrive "byte list" | Pull

fun reader_step :: "frame_reader \<Rightarrow> read_event \<Rightarrow> frame_reader \<times> pulled list" where
  "reader_step s (Arrive c) = (s\<lparr>fr_buffer := fr_buffer s @ c\<rparr>, [])"
| "reader_step s Pull =
     (let (r, p, buf) = pull (fr_parser s) (fr_buffer s) in (\<lparr>fr_parser = p, fr_buffer = buf\<rparr>, [r]))"

text \<open>
  The abstract machine: the first frame of the bytes is there when its length and its body are, and, when its
  body is empty, one byte more.
\<close>

definition first_frame :: "byte list \<Rightarrow> (byte list \<times> byte list) option" where
  "first_frame b =
     (let n = le (take 4 b) in
      if 4 < length b \<and> 4 + n \<le> length b then Some (take n (drop 4 b), drop (4 + n) b) else None)"

fun frames_step :: "byte list \<Rightarrow> read_event \<Rightarrow> byte list \<times> pulled list" where
  "frames_step b (Arrive c) = (b @ c, [])"
| "frames_step b Pull = (case first_frame b of None \<Rightarrow> (b, [NoFrame]) | Some (f, r) \<Rightarrow> (r, [Frame f]))"

text \<open>\<open>parsing h p\<close>: the parser has taken the bytes \<open>h\<close> of the frame it is in.\<close>

definition parsing :: "byte list \<Rightarrow> frame_parser \<Rightarrow> bool" where
  "parsing h p \<longleftrightarrow> length h = fp_read p \<and> le (take 4 h) = fp_need p + (fp_read p - 4) \<and>
     fp_body p = (if fp_read p \<le> 4 then None else Some (drop 4 h)) \<and> (4 < fp_read p \<longrightarrow> 0 < fp_need p)"

lemma parsing_new: "fp_read p = 0 \<Longrightarrow> fp_need p = 0 \<Longrightarrow> fp_body p = None \<Longrightarrow> parsing [] p"
  by (simp add: parsing_def)

lemma parsing_byte:
  assumes "parsing h p" and "fp_read p < 4"
  shows "parsing (h @ [b]) (p\<lparr>fp_need := fp_need p + unat b * 256 ^ fp_read p, fp_cursor := k, fp_read := fp_read p + 1\<rparr>)"
  using assms by (auto simp: parsing_def le_snoc)

lemma parsing_body:
  assumes "parsing h p" and "\<not> fp_read p < 4" and "length bs < fp_need p" and "bs \<noteq> []"
  shows "parsing (h @ bs) (p\<lparr>fp_body := Some (body_with p bs), fp_need := fp_need p - length bs,
    fp_read := fp_read p + length bs, fp_cursor := k\<rparr>)"
  using assms by (cases "fp_read p = 4") (auto simp: parsing_def body_with_def)

lemma parsing_frame:
  assumes "parsing h p" and "\<not> fp_read p < 4" and "bs \<noteq> []"
  shows "first_frame (h @ bs) =
    (if fp_need p \<le> length bs then Some (body_with p (take (fp_need p) bs), drop (fp_need p) bs) else None)"
proof -
  have h: "length h = fp_read p" "le (take 4 h) = fp_need p + (length h - 4)" "4 \<le> length h" using assms by (auto simp: parsing_def)
  have n: "le (take 4 (h @ bs)) = fp_need p + (length h - 4)" using h by simp
  have body: "body_with p xs = drop 4 h @ xs" for xs using assms h by (auto simp: parsing_def body_with_def)
  have "take (le (take 4 (h @ bs))) (drop 4 (h @ bs)) = drop 4 h @ take (fp_need p) bs"
    unfolding n using h(3) by simp
  moreover have "drop (4 + le (take 4 (h @ bs))) (h @ bs) = drop (fp_need p) bs" unfolding n using h(3) by simp
  moreover have "(4 < length (h @ bs) \<and> 4 + le (take 4 (h @ bs)) \<le> length (h @ bs)) = (fp_need p \<le> length bs)"
    unfolding n using h(3) assms(3) by (cases bs) auto
  ultimately show ?thesis by (simp add: first_frame_def Let_def body)
qed

lemma parsing_settled: "parsing h p \<Longrightarrow> parsing h (p\<lparr>fp_cursor := k, fp_chunk := c\<rparr>)"
  by (simp add: parsing_def)

lemma no_frame_yet: "parsing h p \<Longrightarrow> first_frame h = None"
  by (auto simp: parsing_def first_frame_def Let_def)

text \<open>The loop finds the first frame of the bytes it has, or takes them all.\<close>

lemma loop_finds:
  "parsing h p \<Longrightarrow> fp_cursor p \<le> length c \<Longrightarrow> fp_chunk p = Some c \<Longrightarrow>
   (case first_frame (h @ drop (fp_cursor p) c) of
      Some (f, r) \<Rightarrow> \<exists>q. fp_loop c p = (Some f, q) \<and> parsing [] q \<and> fp_chunk q = Some c \<and> fp_cursor q \<le> length c \<and>
        r = drop (fp_cursor q) c
    | None \<Rightarrow> \<exists>q. fp_loop c p = (None, q) \<and> parsing (h @ drop (fp_cursor p) c) q \<and> fp_chunk q = None \<and> fp_cursor q = 0)"
proof (induction c p arbitrary: h rule: fp_loop.induct)
  case (1 c p)
  let ?d = "drop (fp_cursor p) c"
  consider "fp_cursor p = length c" | "fp_cursor p < length c" "fp_read p < 4" | "fp_cursor p < length c" "\<not> fp_read p < 4"
    using "1.prems"(2) by linarith
  then show ?case
  proof cases
    case 1
    then have "parsing h (p\<lparr>fp_cursor := 0, fp_chunk := None\<rparr>)" using "1.prems"(1) by (simp add: parsing_def)
    then show ?thesis using 1 no_frame_yet [OF "1.prems"(1)] by (simp add: fp_loop.simps [of c p])
  next
    case 2
    let ?p = "p\<lparr>fp_need := fp_need p + unat (c ! fp_cursor p) * 256 ^ fp_read p, fp_cursor := fp_cursor p + 1, fp_read := fp_read p + 1\<rparr>"
    have d: "h @ ?d = (h @ [c ! fp_cursor p]) @ drop (fp_cursor ?p) c" using 2 by (simp add: Cons_nth_drop_Suc)
    have l: "fp_loop c p = fp_loop c ?p" using 2 by (subst fp_loop.simps) simp
    show ?thesis unfolding l d
      by (rule "1.IH"(1)) (use 2 "1.prems" parsing_byte [OF "1.prems"(1), of "c ! fp_cursor p" "fp_cursor p + 1"] in simp_all)
  next
    case 3
    have ne: "?d \<noteq> []" using 3 by simp
    note ff = parsing_frame [OF "1.prems"(1) 3(2) ne]
    show ?thesis
    proof (cases "fp_need p \<le> length ?d")
      case True
      then show ?thesis using 3 "1.prems" ff
        by (auto simp: fp_loop.simps [of c p] Let_def parsing_new add.commute)
    next
      case False
      let ?q = "p\<lparr>fp_body := Some (body_with p ?d), fp_need := fp_need p - length ?d, fp_read := fp_read p + length ?d, fp_cursor := length c\<rparr>"
      have q: "parsing (h @ ?d) ?q" by (rule parsing_body) (use "1.prems"(1) 3 False ne in simp_all)
      have "fp_loop c p = fp_loop c ?q" using 3 False by (subst fp_loop.simps) (simp add: Let_def)
      also have "\<dots> = (None, ?q\<lparr>fp_cursor := 0, fp_chunk := None\<rparr>)" by (simp add: fp_loop.simps)
      finally have "fp_loop c p = (None, ?q\<lparr>fp_cursor := 0, fp_chunk := None\<rparr>)" .
      moreover have "parsing (h @ ?d) (?q\<lparr>fp_cursor := 0, fp_chunk := None\<rparr>)" by (rule parsing_settled [OF q])
      ultimately show ?thesis using False ff by simp
    qed
  qed
qed


text \<open>\<open>holds b s\<close>: the reader holds the bytes \<open>b\<close>: of the frame it is in, of its chunk, of the socket.\<close>

definition holds_bytes :: "byte list \<Rightarrow> frame_parser \<Rightarrow> byte list \<Rightarrow> bool" where
  "holds_bytes b p buf \<longleftrightarrow> (\<exists>h. parsing h p \<and>
     (case fp_chunk p of None \<Rightarrow> fp_cursor p = 0 \<and> b = h @ buf
      | Some c \<Rightarrow> fp_cursor p \<le> length c \<and> b = h @ drop (fp_cursor p) c @ buf))"

lemma first_frame_more: "first_frame b = Some (f, r) \<Longrightarrow> first_frame (b @ c) = Some (f, r @ c)"
  by (auto simp: first_frame_def Let_def split: if_splits)

text \<open>Parsing what the parser has: either a frame, and the rest stays, or everything was taken.\<close>

lemma next_finds:
  assumes "holds_bytes b p buf"
  shows "(\<exists>f q r. fp_next p = (Some f, q) \<and> first_frame b = Some (f, r) \<and> holds_bytes r q buf) \<or>
    (\<exists>h q. fp_next p = (None, q) \<and> fp_chunk q = None \<and> fp_cursor q = 0 \<and> parsing h q \<and> b = h @ buf)"
proof (cases "fp_chunk p")
  case None
  then show ?thesis using assms by (auto simp: holds_bytes_def fp_next_def)
next
  case (Some c)
  then obtain h where h: "parsing h p" "fp_cursor p \<le> length c" "b = (h @ drop (fp_cursor p) c) @ buf"
    using assms by (auto simp: holds_bytes_def)
  note l = loop_finds [OF h(1,2) Some]
  show ?thesis
  proof (cases "first_frame (h @ drop (fp_cursor p) c)")
    case None
    then show ?thesis using l Some h(3) by (auto simp: fp_next_def)
  next
    case (Some x)
    obtain f r where x: "x = (f, r)" by (cases x)
    from l obtain q where q: "fp_loop c p = (Some f, q)" "parsing [] q" "fp_chunk q = Some c" "fp_cursor q \<le> length c"
      "r = drop (fp_cursor q) c" unfolding Some x by auto
    have "holds_bytes (r @ buf) q buf" unfolding holds_bytes_def using q by (intro exI [of _ "[]"]) simp
    moreover have "first_frame b = Some (f, r @ buf)" unfolding h(3) by (rule first_frame_more) (simp only: Some x)
    ultimately show ?thesis using q(1) \<open>fp_chunk p = Some c\<close> by (auto simp: fp_next_def)
  qed
qed

lemma pull_empty:
  assumes "holds_bytes b p []"
  shows "case first_frame b of
      Some (f, r) \<Rightarrow> \<exists>q. pull p [] = (Frame f, q, []) \<and> holds_bytes r q []
    | None \<Rightarrow> \<exists>q. pull p [] = (NoFrame, q, []) \<and> holds_bytes b q []"
  using next_finds [OF assms]
proof (elim disjE exE conjE)
  fix f q r
  assume "fp_next p = (Some f, q)" "first_frame b = Some (f, r)" "holds_bytes r q []"
  then show ?thesis by (simp add: pull.simps [of p])
next
  fix h q
  assume a: "fp_next p = (None, q)" "fp_chunk q = None" "fp_cursor q = 0" "parsing h q" "b = h @ []"
  then have "holds_bytes b q []" by (auto simp: holds_bytes_def)
  then show ?thesis using a no_frame_yet [OF a(4)] by (simp add: pull.simps [of p])
qed

lemma pull_finds:
  assumes "holds_bytes b p buf"
  shows "case first_frame b of
      Some (f, r) \<Rightarrow> \<exists>q w. pull p buf = (Frame f, q, w) \<and> holds_bytes r q w
    | None \<Rightarrow> \<exists>q w. pull p buf = (NoFrame, q, w) \<and> holds_bytes b q w"
  using next_finds [OF assms]
proof (elim disjE exE conjE)
  fix f q r
  assume "fp_next p = (Some f, q)" "first_frame b = Some (f, r)" "holds_bytes r q buf"
  then show ?thesis by (simp add: pull.simps [of p])
next
  fix h q
  assume a: "fp_next p = (None, q)" "fp_chunk q = None" "fp_cursor q = 0" "parsing h q" "b = h @ buf"
  show ?thesis
  proof (cases "buf = []")
    case True
    then show ?thesis using pull_empty [of b p] assms by (auto split: option.splits)
  next
    case False
    let ?q = "q\<lparr>fp_chunk := Some buf\<rparr>"
    have "holds_bytes b ?q []" unfolding holds_bytes_def using a by (intro exI [of _ h]) (simp add: parsing_def)
    moreover have "pull p buf = pull ?q []" using a(1,2) False by (simp add: pull.simps [of p] fp_push_def)
    ultimately show ?thesis using pull_empty [of b ?q] by (auto split: option.splits)
  qed
qed

lemma arrive_holds: "holds_bytes b p buf \<Longrightarrow> holds_bytes (b @ c) p (buf @ c)"
  by (auto simp: holds_bytes_def split: option.splits)

lemma reader_simulates:
  "holds_bytes b (fr_parser s) (fr_buffer s) \<Longrightarrow>
   snd (reader_step s e) = snd (frames_step b e) \<and>
   (let t = fst (reader_step s e) in holds_bytes (fst (frames_step b e)) (fr_parser t) (fr_buffer t))"
proof (cases e)
  case (Arrive c)
  then show "holds_bytes b (fr_parser s) (fr_buffer s) \<Longrightarrow> ?thesis" by (simp add: Let_def arrive_holds)
next
  case Pull
  assume "holds_bytes b (fr_parser s) (fr_buffer s)"
  from pull_finds [OF this] show ?thesis using Pull
    by (cases "first_frame b") auto
qed

lemma new_holds: "holds_bytes [] fp_new []"
  by (auto simp: holds_bytes_def fp_new_def parsing_def)

lemma reader_run:
  "holds_bytes b (fr_parser s) (fr_buffer s) \<Longrightarrow>
   snd (run reader_step s es) = snd (run frames_step b es) \<and>
   (let t = fst (run reader_step s es) in holds_bytes (fst (run frames_step b es)) (fr_parser t) (fr_buffer t))"
proof (induction es arbitrary: b s)
  case Nil
  then show ?case by simp
next
  case (Cons e es)
  from reader_simulates [OF Cons.prems, of e] Cons.IH [of "fst (frames_step b e)" "fst (reader_step s e)"]
  show ?case by (simp add: Let_def)
qed

text \<open>
  The frame reader implements the abstract machine on bytes: over any sequence of arriving chunks and pulls, every pull
  gives the frame (or nothing) that the bytes arrived so far hold, wherever the chunks were cut, and the parser never refuses a chunk.
\<close>

theorem frames_refine_bytes: "snd (run reader_step reader_new es) = snd (run frames_step [] es)"
  using reader_run [of "[]" reader_new es] new_holds by (simp add: reader_new_def)

section \<open>Encoded frames\<close>

text \<open>A frame on the wire: the length of its body, then the body.\<close>

definition wire_frame :: "byte list \<Rightarrow> byte list" where
  "wire_frame f = put_le 4 (length f) @ f"

definition frame_ok :: "byte list \<Rightarrow> bool" where
  "frame_ok f \<longleftrightarrow> f \<noteq> [] \<and> length f < 2 ^ 32"

lemma first_wire_frame: "frame_ok f \<Longrightarrow> first_frame (wire_frame f @ r) = Some (f, r)"
proof -
  assume f: "frame_ok f"
  then have "le (put_le 4 (length f)) = length f" by (intro le_put_le) (simp add: frame_ok_def)
  then show ?thesis using f by (simp add: first_frame_def wire_frame_def frame_ok_def Let_def)
qed

lemma arrivals: "run frames_step b (map Arrive cs) = (b @ concat cs, [])"
  by (induction cs arbitrary: b) (simp_all add: Let_def)

lemma pulls:
  "list_all frame_ok fs \<Longrightarrow> first_frame r = None \<Longrightarrow>
   run frames_step (concat (map wire_frame fs) @ r) (replicate (length fs) Pull @ [Pull]) = (r, map Frame fs @ [NoFrame])"
  by (induction fs) (simp_all add: Let_def first_wire_frame)

section \<open>The banner\<close>

record screen_banner =
  sb_version :: nat
  sb_length :: nat
  sb_pid :: nat
  sb_real_width :: nat
  sb_real_height :: nat
  sb_virtual_width :: nat
  sb_virtual_height :: nat
  sb_orientation :: nat
  sb_dumb :: bool
  sb_always_upright :: bool
  sb_tear :: bool

definition banner_new :: screen_banner where
  "banner_new = \<lparr>sb_version = 0, sb_length = 0, sb_pid = 0, sb_real_width = 0, sb_real_height = 0, sb_virtual_width = 0,
     sb_virtual_height = 0, sb_orientation = 0, sb_dumb = False, sb_always_upright = False, sb_tear = False\<rparr>"

text \<open>The \<open>switch\<close> of \<open>tryRead\<close>: the byte at a position. Bytes past the last known one are skipped.\<close>

definition banner_byte :: "nat \<Rightarrow> byte \<Rightarrow> screen_banner \<Rightarrow> screen_banner" where
  "banner_byte k b bn =
     (if k = 0 then bn\<lparr>sb_version := unat b\<rparr>
      else if k = 1 then bn\<lparr>sb_length := unat b\<rparr>
      else if k \<in> {2..5} then bn\<lparr>sb_pid := sb_pid bn + unat b * 256 ^ (k - 2)\<rparr>
      else if k \<in> {6..9} then bn\<lparr>sb_real_width := sb_real_width bn + unat b * 256 ^ (k - 6)\<rparr>
      else if k \<in> {10..13} then bn\<lparr>sb_real_height := sb_real_height bn + unat b * 256 ^ (k - 10)\<rparr>
      else if k \<in> {14..17} then bn\<lparr>sb_virtual_width := sb_virtual_width bn + unat b * 256 ^ (k - 14)\<rparr>
      else if k \<in> {18..21} then bn\<lparr>sb_virtual_height := sb_virtual_height bn + unat b * 256 ^ (k - 18)\<rparr>
      else if k = 22 then bn\<lparr>sb_orientation := sb_orientation bn + unat b * 90\<rparr>
      else if k = 23 then
        (let q = unat b in bn\<lparr>sb_dumb := odd q, sb_always_upright := odd (q div 2), sb_tear := odd (q div 4)\<rparr>)
      else bn)"

record banner_reader =
  br_read :: nat
  br_need :: nat
  br_banner :: screen_banner

definition banner_start :: banner_reader where
  "banner_start = \<lparr>br_read = 0, br_need = 2, br_banner = banner_new\<rparr>"

definition take_byte :: "byte \<Rightarrow> banner_reader \<Rightarrow> banner_reader" where
  "take_byte b s =
     s\<lparr>br_banner := banner_byte (br_read s) b (br_banner s), br_need := (if br_read s = 1 then unat b else br_need s),
       br_read := br_read s + 1\<rparr>"

datatype banner_result = Reading banner_reader | Resolved screen_banner | Impossible

text \<open>
  The inner loop over a chunk. Its \<open>else\<close> branch rejects and does not advance, so nothing would follow it; it is the
  value \<open>Impossible\<close>.
\<close>

fun banner_chunk :: "byte list \<Rightarrow> banner_reader \<Rightarrow> banner_result" where
  "banner_chunk [] s = Reading s"
| "banner_chunk (b # bs) s =
     (if br_read s < br_need s then
        (let t = take_byte b s in if br_read t = br_need t then Resolved (br_banner t) else banner_chunk bs t)
      else Impossible)"

text \<open>
  \<open>tryRead\<close>: \<open>read(n)\<close> gives nothing unless \<open>n\<close> is positive and so many bytes are buffered. The
  result has what stays in the buffer.
\<close>

definition read_exactly :: "nat \<Rightarrow> byte list \<Rightarrow> (byte list \<times> byte list) option" where
  "read_exactly n buf = (if n = 0 \<or> length buf < n then None else Some (take n buf, drop n buf))"

function try_read :: "banner_reader \<Rightarrow> byte list \<Rightarrow> banner_result \<times> byte list" where
  "try_read s buf =
     (case read_exactly (br_need s - br_read s) buf of
        None \<Rightarrow> (Reading s, buf)
      | Some (c, r) \<Rightarrow> (case banner_chunk c s of Reading t \<Rightarrow> try_read t r | x \<Rightarrow> (x, r)))"
  by pat_completeness auto
termination
  by (relation "measure (\<lambda>(s, buf). length buf)") (auto simp: read_exactly_def split: if_splits)

declare try_read.simps [simp del]

text \<open>The reader on a socket: chunks arrive until the banner is there, what follows stays in the buffer.\<close>

definition banner_arrive :: "banner_result \<times> byte list \<Rightarrow> byte list \<Rightarrow> banner_result \<times> byte list" where
  "banner_arrive s c = (case fst s of Reading t \<Rightarrow> try_read t (snd s @ c) | x \<Rightarrow> (x, snd s @ c))"

definition read_banner :: "byte list list \<Rightarrow> banner_result \<times> byte list" where
  "read_banner cs = foldl banner_arrive (try_read banner_start []) cs"

text \<open>What the reader has made of the bytes \<open>b\<close>, as a function of the bytes alone.\<close>

definition scan :: "byte list \<Rightarrow> banner_reader \<Rightarrow> banner_reader" where
  "scan bs s = fold take_byte bs s"

lemma take_byte_counts [simp]:
  "br_read (take_byte b s) = Suc (br_read s)" "1 < br_read s \<Longrightarrow> br_need (take_byte b s) = br_need s"
  by (simp_all add: take_byte_def)

lemma banner_chunk_scan:
  "1 < br_read s \<Longrightarrow> br_read s + length bs = br_need s \<Longrightarrow> bs \<noteq> [] \<Longrightarrow> banner_chunk bs s = Resolved (br_banner (scan bs s))"
proof (induction bs arbitrary: s)
  case Nil
  then show ?case by simp
next
  case (Cons b bs)
  have t: "1 < br_read (take_byte b s)" "br_read (take_byte b s) + length bs = br_need (take_byte b s)" using Cons.prems by simp_all
  show ?case
  proof (cases "bs = []")
    case True
    then show ?thesis using Cons.prems by (simp add: scan_def)
  next
    case False
    then have "br_read (take_byte b s) \<noteq> br_need (take_byte b s)" using t(2) by (cases bs) simp_all
    then show ?thesis using Cons.IH [OF t False] Cons.prems by (simp add: scan_def)
  qed
qed

definition bytes_banner :: "byte list \<Rightarrow> banner_result \<times> byte list" where
  "bytes_banner b =
     (if length b < 2 then (Reading banner_start, b)
      else if unat (b ! 1) < 2 \<or> length b < unat (b ! 1) then (Reading (scan (take 2 b) banner_start), drop 2 b)
      else (Resolved (br_banner (scan (take (unat (b ! 1)) b) banner_start)), drop (unat (b ! 1)) b))"

lemma two_bytes: "2 \<le> length b \<Longrightarrow> \<exists>v l r. b = v # l # r"
  by (cases b; cases "tl b") auto

lemma second_read:
  assumes "2 \<le> length b" and "unat (b ! 1) \<noteq> 2"
  shows "try_read (scan (take 2 b) banner_start) (drop 2 b) = bytes_banner b"
proof -
  obtain v l r where b: "b = v # l # r" using two_bytes [OF assms(1)] by blast
  obtain S where S: "S = scan (take 2 b) banner_start" by blast
  have s: "S = take_byte l (take_byte v banner_start)" unfolding S by (simp add: b scan_def numeral_2_eq_2)
  have c: "br_read S = 2" "br_need S = unat l" unfolding s by (simp_all add: take_byte_def banner_start_def)
  have B: "bytes_banner b = (if unat l < 2 \<or> length b < unat l then (Reading S, r) else (Resolved (br_banner (scan (take (unat l) b) banner_start)), drop (unat l) b))"
    unfolding bytes_banner_def S by (simp add: b)
  have d: "drop 2 b = r" by (simp add: b)
  consider "unat l < 2" | "2 < unat l" "length b < unat l" | "2 < unat l" "unat l \<le> length b" using assms(2) b by fastforce
  then have "try_read S r = bytes_banner b"
  proof cases
    case 1
    then show ?thesis using c by (simp add: B try_read.simps [of S] read_exactly_def)
  next
    case 2
    then have "length r < unat l - 2" using b by simp
    then show ?thesis using c 2 by (simp add: B try_read.simps [of S] read_exactly_def)
  next
    case 3
    let ?c = "take (unat l - 2) r"
    have l: "length ?c = unat l - 2" using 3 b by simp
    then have "banner_chunk ?c S = Resolved (br_banner (scan ?c S))" using c 3 by (intro banner_chunk_scan) auto
    moreover have "scan ?c S = scan (take (unat l) b) banner_start"
    proof -
      have "take (unat l) b = take 2 b @ ?c" using 3 b by (simp add: take_Cons' numeral_2_eq_2)
      then show ?thesis by (simp add: scan_def S)
    qed
    moreover have "drop (unat l) b = drop (unat l - 2) r" using 3 b by (simp add: drop_Cons' numeral_2_eq_2)
    ultimately show ?thesis using c l 3 by (simp add: B try_read.simps [of S] read_exactly_def)
  qed
  then show ?thesis by (simp add: S d)
qed

lemma first_read: "try_read banner_start b = bytes_banner b"
proof (cases "length b < 2")
  case True
  moreover have "br_need banner_start - br_read banner_start = 2" by (simp add: banner_start_def)
  ultimately show ?thesis by (simp add: try_read.simps [of banner_start] read_exactly_def bytes_banner_def)
next
  case False
  then obtain v l r where b: "b = v # l # r" using two_bytes [of b] by auto
  let ?s = "take_byte l (take_byte v banner_start)"
  have s: "scan (take 2 b) banner_start = ?s" by (simp add: b scan_def numeral_2_eq_2)
  have c: "br_read ?s = 2" "br_need ?s = unat l" "br_read banner_start = 0" "br_need banner_start = 2"
    "br_need (take_byte v banner_start) = 2" by (simp_all add: take_byte_def banner_start_def)
  have chunk: "banner_chunk [v, l] banner_start = (if unat l = 2 then Resolved (br_banner ?s) else Reading ?s)"
    using c by (simp add: Let_def)
  have t: "try_read banner_start b = (case banner_chunk [v, l] banner_start of Reading t \<Rightarrow> try_read t r | x \<Rightarrow> (x, r))"
    using b c by (simp add: try_read.simps [of banner_start] read_exactly_def numeral_2_eq_2 del: banner_chunk.simps)
  show ?thesis
  proof (cases "unat l = 2")
    case True
    then show ?thesis unfolding t chunk using b s by (simp add: bytes_banner_def)
  next
    case False
    then show ?thesis unfolding t chunk using second_read [of b] b s by simp
  qed
qed

lemma arrive_banner: "banner_arrive (bytes_banner b) c = bytes_banner (b @ c)"
proof -
  consider "length b < 2" | "2 \<le> length b" "unat (b ! 1) < 2 \<or> length b < unat (b ! 1)"
    | "2 \<le> length b" "2 \<le> unat (b ! 1)" "unat (b ! 1) \<le> length b" by linarith
  then show ?thesis
  proof cases
    case 1
    then show ?thesis by (simp add: bytes_banner_def [of b] banner_arrive_def first_read)
  next
    case 2
    then have "try_read (scan (take 2 (b @ c)) banner_start) (drop 2 (b @ c)) = bytes_banner (b @ c)"
      by (intro second_read) (auto simp: nth_append)
    then show ?thesis using 2 by (auto simp: bytes_banner_def [of b] banner_arrive_def)
  next
    case 3
    then show ?thesis by (simp add: bytes_banner_def banner_arrive_def nth_append)
  qed
qed

lemma read_banner_of: "read_banner cs = bytes_banner (concat cs)"
proof -
  have "foldl banner_arrive (bytes_banner b) cs = bytes_banner (b @ concat cs)" for b
    by (induction cs arbitrary: b) (simp_all add: arrive_banner)
  from this [of "[]"] show ?thesis by (simp add: read_banner_def first_read)
qed

text \<open>A banner on the wire: 24 bytes and what a later version may add.\<close>

definition wire_banner :: "screen_banner \<Rightarrow> byte list \<Rightarrow> byte list" where
  "wire_banner bn extra =
     [of_nat (sb_version bn), of_nat (sb_length bn)] @ put_le 4 (sb_pid bn) @ put_le 4 (sb_real_width bn) @
     put_le 4 (sb_real_height bn) @ put_le 4 (sb_virtual_width bn) @ put_le 4 (sb_virtual_height bn) @
     [of_nat (sb_orientation bn div 90),
      of_nat ((if sb_dumb bn then 1 else 0) + (if sb_always_upright bn then 2 else 0) + (if sb_tear bn then 4 else 0))] @ extra"

definition banner_ok :: "screen_banner \<Rightarrow> byte list \<Rightarrow> bool" where
  "banner_ok bn extra \<longleftrightarrow> sb_version bn < 256 \<and> sb_length bn = 24 + length extra \<and> sb_length bn < 256 \<and>
     list_all (\<lambda>n. n < 2 ^ 32) [sb_pid bn, sb_real_width bn, sb_real_height bn, sb_virtual_width bn, sb_virtual_height bn] \<and>
     sb_orientation bn mod 90 = 0 \<and> sb_orientation bn div 90 < 256"

lemma scan_counts: "br_read (scan bs s) = br_read s + length bs"
  unfolding scan_def by (induction bs arbitrary: s) simp_all

lemma scan_extra: "24 \<le> br_read s \<Longrightarrow> br_banner (scan bs s) = br_banner s"
proof (induction bs arbitrary: s)
  case Nil
  then show ?case by (simp add: scan_def)
next
  case (Cons b bs)
  have "br_banner (take_byte b s) = br_banner s" using Cons.prems by (simp add: take_byte_def banner_byte_def)
  then show ?case using Cons by (simp add: scan_def)
qed

text \<open>Four bytes of a number.\<close>

lemma put_le_4: "put_le 4 n = [of_nat n, of_nat (n div 256), of_nat (n div 256 div 256), of_nat (n div 256 div 256 div 256)]"
proof -
  have four: "4 = Suc (Suc (Suc (Suc 0)))" by simp
  show ?thesis unfolding four by (simp only: put_le.simps)
qed

lemma horner: "(a :: nat) + 256 * (b + 256 * (c + 256 * (d + 256 * 0))) = a + b * 256 + c * 65536 + d * 16777216"
  by simp

lemma sum_le_4:
  assumes "n < 2 ^ 32"
  shows "unat (of_nat n :: byte) + unat (of_nat (n div 256) :: byte) * 256 + unat (of_nat (n div 256 div 256) :: byte) * 65536 +
     unat (of_nat (n div 256 div 256 div 256) :: byte) * 16777216 = n"
proof -
  have "le (put_le 4 n) = n" using assms by (intro le_put_le) simp
  then have "unat (of_nat n :: byte) + 256 * (unat (of_nat (n div 256) :: byte) + 256 * (unat (of_nat (n div 256 div 256) :: byte) +
     256 * (unat (of_nat (n div 256 div 256 div 256) :: byte) + 256 * 0))) = n" unfolding put_le_4 by (simp only: le.simps)
  then show ?thesis unfolding horner .
qed

lemma scan_le_4:
  assumes "br_read s = k"
  shows "scan (put_le 4 n) s = take_byte (of_nat (n div 256 div 256 div 256)) (take_byte (of_nat (n div 256 div 256))
    (take_byte (of_nat (n div 256)) (take_byte (of_nat n) s)))"
  by (simp add: scan_def put_le_4)

lemma scan_append: "scan (xs @ ys) s = scan ys (scan xs s)"
  by (simp add: scan_def)

lemma scan_number:
  assumes "n < 2 ^ 32"
  shows "br_read s = 2 \<Longrightarrow> scan (put_le 4 n) s = s\<lparr>br_read := 6, br_banner := (br_banner s)\<lparr>sb_pid := sb_pid (br_banner s) + n\<rparr>\<rparr>"
    and "br_read s = 6 \<Longrightarrow> scan (put_le 4 n) s = s\<lparr>br_read := 10, br_banner := (br_banner s)\<lparr>sb_real_width := sb_real_width (br_banner s) + n\<rparr>\<rparr>"
    and "br_read s = 10 \<Longrightarrow> scan (put_le 4 n) s = s\<lparr>br_read := 14, br_banner := (br_banner s)\<lparr>sb_real_height := sb_real_height (br_banner s) + n\<rparr>\<rparr>"
    and "br_read s = 14 \<Longrightarrow> scan (put_le 4 n) s = s\<lparr>br_read := 18, br_banner := (br_banner s)\<lparr>sb_virtual_width := sb_virtual_width (br_banner s) + n\<rparr>\<rparr>"
    and "br_read s = 18 \<Longrightarrow> scan (put_le 4 n) s = s\<lparr>br_read := 22, br_banner := (br_banner s)\<lparr>sb_virtual_height := sb_virtual_height (br_banner s) + n\<rparr>\<rparr>"
  using sum_le_4 [OF assms]
  by (simp_all add: scan_def put_le_4 take_byte_def banner_byte_def add.assoc)

lemma scan_flags:
  "br_read s = 22 \<Longrightarrow> br_banner (scan [a, b] s) = (br_banner s)\<lparr>sb_orientation := sb_orientation (br_banner s) + unat a * 90,
     sb_dumb := odd (unat b), sb_always_upright := odd (unat b div 2), sb_tear := odd (unat b div 4)\<rparr>"
  by (simp add: scan_def take_byte_def banner_byte_def Let_def)

lemma scan_head:
  "scan [a, b] banner_start = \<lparr>br_read = 2, br_need = unat b, br_banner = banner_new\<lparr>sb_version := unat a, sb_length := unat b\<rparr>\<rparr>"
  by (simp add: scan_def take_byte_def banner_byte_def banner_start_def)

lemma scan_wire: "banner_ok bn extra \<Longrightarrow> br_banner (scan (wire_banner bn extra) banner_start) = bn"
proof -
  assume ok: "banner_ok bn extra"
  have n: "sb_pid bn < 2 ^ 32" "sb_real_width bn < 2 ^ 32" "sb_real_height bn < 2 ^ 32" "sb_virtual_width bn < 2 ^ 32"
    "sb_virtual_height bn < 2 ^ 32" using ok by (simp_all add: banner_ok_def)
  have u: "unat (of_nat k :: byte) = k" if "k < 256" for k using that by (simp add: unat_byte)
  have l: "unat (of_nat (sb_version bn) :: byte) = sb_version bn" "unat (of_nat (sb_length bn) :: byte) = sb_length bn"
    "unat (of_nat (sb_orientation bn div 90) :: byte) = sb_orientation bn div 90"
    by (rule u, use ok in \<open>simp add: banner_ok_def\<close>)+
  have o: "sb_orientation bn div 90 * 90 = sb_orientation bn" using ok by (auto simp: banner_ok_def)
  let ?q = "of_nat ((if sb_dumb bn then 1 else 0) + (if sb_always_upright bn then 2 else 0) + (if sb_tear bn then 4 else 0)) :: byte"
  have q: "odd (unat ?q) = sb_dumb bn" "odd (unat ?q div 2) = sb_always_upright bn" "odd (unat ?q div 4) = sb_tear bn"
    by (cases "sb_dumb bn"; cases "sb_always_upright bn"; cases "sb_tear bn"; simp)+
  obtain s4 where s4: "s4 = scan (put_le 4 (sb_virtual_height bn)) (scan (put_le 4 (sb_virtual_width bn)) (scan (put_le 4 (sb_real_height bn))
      (scan (put_le 4 (sb_real_width bn)) (scan (put_le 4 (sb_pid bn)) (scan [of_nat (sb_version bn), of_nat (sb_length bn)] banner_start)))))" by blast
  have r: "br_read s4 = 22" unfolding s4 scan_head by (simp add: scan_counts)
  have b: "br_banner s4 = banner_new\<lparr>sb_version := sb_version bn, sb_length := sb_length bn, sb_pid := sb_pid bn,
      sb_real_width := sb_real_width bn, sb_real_height := sb_real_height bn, sb_virtual_width := sb_virtual_width bn,
      sb_virtual_height := sb_virtual_height bn\<rparr>"
    unfolding s4 scan_head l
    by (simp add: scan_number [OF n(1)] scan_number [OF n(2)] scan_number [OF n(3)] scan_number [OF n(4)] scan_number [OF n(5)] banner_new_def)
  have "br_banner (scan [of_nat (sb_orientation bn div 90), ?q] s4) = bn"
    unfolding scan_flags [OF r] b l o q by (simp add: banner_new_def)
  moreover have "scan (wire_banner bn extra) banner_start = scan extra (scan [of_nat (sb_orientation bn div 90), ?q] s4)"
    unfolding wire_banner_def s4 by (simp only: scan_append)
  moreover have "br_read (scan [of_nat (sb_orientation bn div 90), ?q] s4) = 24" by (simp add: scan_counts r)
  ultimately show ?thesis by (simp add: scan_extra)
qed

lemma screen_stream_roundtrip_facts:
  assumes "banner_ok bn extra" and "list_all frame_ok fs"
    and "concat cs = wire_banner bn extra @ concat (map wire_frame fs)"
  shows "fst (read_banner cs) = Resolved bn"
    and "snd (run reader_step \<lparr>fr_parser = fp_new, fr_buffer = snd (read_banner cs)\<rparr> (replicate (length fs) Pull @ [Pull])) =
      map Frame fs @ [NoFrame]"
proof -
  let ?w = "wire_banner bn extra" and ?f = "concat (map wire_frame fs)"
  have len: "length ?w = 24 + length extra" by (simp add: wire_banner_def)
  have sb: "sb_length bn < 256" "sb_length bn = length ?w" using assms(1) by (simp_all add: banner_ok_def len)
  have "(?w @ ?f) ! 1 = of_nat (sb_length bn)" by (simp add: wire_banner_def)
  then have b1: "unat ((?w @ ?f) ! 1) = length ?w" by (simp only: unat_byte mod_less [OF sb(1)] sb(2) [symmetric])
  have "read_banner cs = bytes_banner (?w @ ?f)" using assms(3) by (simp add: read_banner_of)
  also have "\<dots> = (Resolved (br_banner (scan ?w banner_start)), ?f)"
    unfolding bytes_banner_def b1 by (simp add: len)
  finally have r: "read_banner cs = (Resolved bn, ?f)" by (simp add: scan_wire [OF assms(1)])
  then show "fst (read_banner cs) = Resolved bn" by simp
  have "holds_bytes ?f fp_new ?f" using arrive_holds [OF new_holds, of ?f] by simp
  then show "snd (run reader_step \<lparr>fr_parser = fp_new, fr_buffer = snd (read_banner cs)\<rparr> (replicate (length fs) Pull @ [Pull])) =
      map Frame fs @ [NoFrame]"
    using reader_run [of ?f "\<lparr>fr_parser = fp_new, fr_buffer = ?f\<rparr>"] pulls [OF assms(2), of "[]"] r
    by (simp add: first_frame_def)
qed

text \<open>
  C7. What minicap writes arrives whole: however the network cuts a stream of a banner and frames into chunks, the banner reader
  resolves with the fields of the banner and leaves the frames in the socket, and pulling then gives exactly the frames, in order, and
  nothing more.
\<close>

theorem screen_stream_roundtrip:
  assumes "banner_ok bn extra" and "list_all frame_ok fs"
    and "concat cs = wire_banner bn extra @ concat (map wire_frame fs)"
  shows "(fst (read_banner cs) = Resolved bn) \<and>
    (snd (run reader_step \<lparr>fr_parser = fp_new, fr_buffer = snd (read_banner cs)\<rparr> (replicate (length fs) Pull @ [Pull])) =
      map Frame fs @ [NoFrame])"
  using screen_stream_roundtrip_facts [OF assms] by blast

definition sample_banner :: screen_banner where
  "sample_banner = \<lparr>sb_version = 1, sb_length = 24, sb_pid = 70000, sb_real_width = 1080, sb_real_height = 1920, sb_virtual_width = 540,
     sb_virtual_height = 960, sb_orientation = 90, sb_dumb = False, sb_always_upright = True, sb_tear = False\<rparr>"

definition three_chunks :: "byte list \<Rightarrow> byte list list" where
  "three_chunks w = [take 1 w, take 27 (drop 1 w), drop 28 w]"

lemma three_chunks: "concat (three_chunks w) = w"
proof -
  have "take 27 (drop 1 w) @ drop 27 (drop 1 w) = drop 1 w" by (rule append_take_drop_id)
  then have "take 1 w @ take 27 (drop 1 w) @ drop 28 w = take 1 w @ drop 1 w" by (simp add: drop_drop)
  also have "\<dots> = w" by (rule append_take_drop_id)
  finally show ?thesis by (simp only: three_chunks_def concat.simps append_Nil2)
qed

definition sample_chunks :: "byte list list" where
  "sample_chunks = three_chunks (wire_banner sample_banner [] @ concat (map wire_frame [[255, 216], [7]]))"

lemma sample_chunks_ok:
  "banner_ok sample_banner []" "list_all frame_ok [[255, 216], [7]]"
  "concat sample_chunks = wire_banner sample_banner [] @ concat (map wire_frame [[255, 216], [7]])"
proof -
  show "banner_ok sample_banner []" by (simp add: banner_ok_def sample_banner_def)
  show "list_all frame_ok [[255, 216], [7]]" by (simp add: frame_ok_def)
  show "concat sample_chunks = wire_banner sample_banner [] @ concat (map wire_frame [[255, 216], [7]])"
    unfolding sample_chunks_def by (rule three_chunks)
qed

theorem screen_stream_roundtrip_witness:
  "fst (read_banner sample_chunks) = Resolved sample_banner \<and>
   snd (run reader_step \<lparr>fr_parser = fp_new, fr_buffer = snd (read_banner sample_chunks)\<rparr> [Pull, Pull, Pull]) =
     [Frame [255, 216], Frame [7], NoFrame]"
  using screen_stream_roundtrip [OF sample_chunks_ok] by (simp add: numeral_2_eq_2)

end
