(* ===== verification/Screen.thy ===== *)
theory Screen imports Touch Screen_Stream begin

text \<open>
  \<open>lib/units/device/plugins/screen/stream.js\<close>: the producer that runs minicap on the device and cuts its
  output into frames, the set of viewers (\<open>util/broadcastset.js\<close>), and the web socket server that lets clients view.
  Every await is a task of the state; an event resumes one with its outcome. \<open>lifecycle.fatal\<close> ends the process:
  a process that has ended does nothing. Streams are numbered in the order they are opened. Whether a token is
  valid, who uses the device, and the answers of the device are events. Promises that
  are settled run on at once where nothing but the queue of promises is between.
\<close>

section \<open>Configuration\<close>

record screen_options =
  so_scrcpy :: bool
  so_rate :: int

record frame_config =
  fc_real_width :: nat
  fc_real_height :: nat
  fc_virtual_width :: nat
  fc_virtual_height :: nat
  fc_rotation :: nat
  fc_quality :: int

definition config_string :: "frame_config \<Rightarrow> string" where
  "config_string c = show_nat (fc_real_width c) @ ''x'' @ show_nat (fc_real_height c) @ ''@'' @ show_nat (fc_virtual_width c) @ ''x'' @
     show_nat (fc_virtual_height c) @ ''/'' @ show_nat (fc_rotation c)"

definition start_command :: "screen_options \<Rightarrow> frame_config \<Rightarrow> string" where
  "start_command opts c =
     (if so_rate opts \<le> 0 then ''-S -Q '' @ show_number (Some (fc_quality c)) @ '' -P '' @ config_string c
      else ''-S -r '' @ show_number (Some (so_rate opts)) @ '' -Q '' @ show_number (Some (fc_quality c)) @ '' -P '' @ config_string c)"

section \<open>The state\<close>

datatype viewer = WebViewer | VncViewer

datatype ready = OPEN | CLOSING | CLOSED

record conn =
  cn_email :: string
  cn_ready :: ready
  cn_listens :: bool
  cn_ping :: bool

text \<open>Who waits for a call of \<open>_stop\<close>: a start that failed, or the stop of a started service.\<close>

datatype screen_stopper = StartFailed | StopRequested

datatype screen_task =
    RunTask
  | ScrcpyTask
  | PidTask bool
  | SocketTask nat millis
  | DelayTask nat millis
  | BannerTask nat banner_result
  | DisconnectTask screen_stopper
  | KillTask screen_stopper nat int bool
  | StoppedTask screen_stopper
  | EnsureTask
  | NextTask
  | GroupTask nat bool

record screen =
  sc_alive :: bool
  sc_running :: run_state
  sc_desired :: "run_state list"
  sc_output :: "nat option"
  sc_socket :: "nat option"
  sc_pid :: int
  sc_banner :: "screen_banner option"
  sc_parser :: "frame_parser option"
  sc_config :: frame_config
  sc_grabber :: string
  sc_readable :: bool
  sc_needs :: bool
  sc_failures :: "millis list"
  sc_failed :: bool
  sc_opened :: nat
  sc_ended :: "nat \<Rightarrow> bool"
  sc_expected :: "nat \<Rightarrow> bool"
  sc_piped :: "nat \<Rightarrow> bool"
  sc_heard :: "nat \<Rightarrow> bool"
  sc_buffer :: "nat \<Rightarrow> byte list"
  sc_tasks :: "screen_task list"
  sc_viewers :: "(nat, viewer) omap"
  sc_conns :: "nat \<Rightarrow> conn option"
  sc_raw :: "nat list"

definition screen_new :: "string \<Rightarrow> frame_config \<Rightarrow> screen" where
  "screen_new grabber config = \<lparr>sc_alive = True, sc_running = STATE_STOPPED, sc_desired = [], sc_output = None, sc_socket = None, sc_pid = -1,
     sc_banner = None, sc_parser = None, sc_config = config, sc_grabber = grabber, sc_readable = False, sc_needs = False,
     sc_failures = [], sc_failed = False, sc_opened = 0, sc_ended = (\<lambda>_. False), sc_expected = (\<lambda>_. False), sc_piped = (\<lambda>_. False), sc_heard = (\<lambda>_. False),
     sc_buffer = (\<lambda>_. []), sc_tasks = [], sc_viewers = [], sc_conns = (\<lambda>_. None), sc_raw = []\<rparr>"

datatype packet = AuthError string | AuthSuccess | StartPacket "screen_banner option" | Ping | Binary "byte list"

datatype screen_out =
    RunMinicap string string
  | StartScrcpy
  | OpenMinicap
  | Wait millis
  | CloseStream nat
  | KillProcess int int
  | ProcessExit
  | WsSend nat packet
  | WsClose nat string
  | VncStart nat
  | VncFrame nat "byte list"
  | StackOverflow
  | UnhandledRejection

text \<open>What follows in the same turn, unless the process has ended.\<close>

definition and_then :: "screen \<times> screen_out list \<Rightarrow> (screen \<Rightarrow> screen \<times> screen_out list) \<Rightarrow> screen \<times> screen_out list" where
  "and_then r f = (if sc_alive (fst r) then (let t = f (fst r) in (fst t, snd r @ snd t)) else r)"

definition later :: "screen_task \<Rightarrow> screen \<Rightarrow> screen" where
  "later t s = s\<lparr>sc_tasks := sc_tasks s @ [t]\<rparr>"

definition exit_process :: "screen \<Rightarrow> screen \<times> screen_out list" where
  "exit_process s = (s\<lparr>sc_alive := False\<rparr>, [ProcessExit])"

definition will_end :: "nat \<Rightarrow> screen \<Rightarrow> screen" where
  "will_end k s = s\<lparr>sc_expected := (sc_expected s)(k := True)\<rparr>"

section \<open>Stopping\<close>

text \<open>\<open>_stop\<close> up to its first await: \<open>_disconnectService\<close>.\<close>

definition disconnect :: "screen_stopper \<Rightarrow> screen \<Rightarrow> screen \<times> screen_out list" where
  "disconnect who s =
     (case sc_socket s of
        None \<Rightarrow> (later (DisconnectTask who) s, [])
      | Some k \<Rightarrow>
          (if sc_ended s k then (later (DisconnectTask who) s, [])
           else (later (DisconnectTask who) (will_end k (s\<lparr>sc_heard := (sc_heard s)(k := False)\<rparr>)), [CloseStream k])))"

definition force_end_output :: "screen_stopper \<Rightarrow> nat \<Rightarrow> screen \<Rightarrow> screen \<times> screen_out list" where
  "force_end_output who k s = (later (StoppedTask who) (will_end k s), [CloseStream k])"

definition kill_minicap :: "screen_stopper \<Rightarrow> nat \<Rightarrow> int \<Rightarrow> bool \<Rightarrow> screen \<Rightarrow> screen \<times> screen_out list" where
  "kill_minicap who k pid kindly s =
     (if pid \<le> 0 then force_end_output who k s
      else (later (KillTask who k pid kindly) (will_end k s), [KillProcess (if kindly then -15 else -9) pid]))"

definition stop_minicap :: "screen_stopper \<Rightarrow> screen \<Rightarrow> screen \<times> screen_out list" where
  "stop_minicap who s =
     (case sc_output s of
        None \<Rightarrow> (later (StoppedTask who) s, [])
      | Some k \<Rightarrow> (if sc_ended s k then (later (StoppedTask who) s, []) else kill_minicap who k (sc_pid s) True s))"

text \<open>The end of \<open>_stop\<close>, when nothing failed; an error of its first await is emitted, which ends the process.\<close>

definition cleared :: "screen \<Rightarrow> screen" where
  "cleared s = s\<lparr>sc_running := STATE_STOPPED, sc_output := None, sc_socket := None, sc_pid := -1, sc_banner := None, sc_parser := None\<rparr>"

section \<open>Reaching the desired state\<close>

definition next_desired :: "screen \<Rightarrow> run_state option \<times> screen" where
  "next_desired s = (fst (stq_next (sc_desired s)), s\<lparr>sc_desired := snd (stq_next (sc_desired s))\<rparr>)"

definition start_minicap :: "screen_options \<Rightarrow> screen \<Rightarrow> screen \<times> screen_out list" where
  "start_minicap opts s = (later RunTask s, [RunMinicap (sc_grabber s) (start_command opts (sc_config s))])"

definition ensure :: "screen_options \<Rightarrow> screen \<Rightarrow> screen \<times> screen_out list" where
  "ensure opts s =
     (if sc_desired s = [] \<or> sc_failed s then (s, [])
      else case sc_running s of
        STATE_STARTING \<Rightarrow> (s, [])
      | STATE_STOPPING \<Rightarrow> (s, [])
      | STATE_STOPPED \<Rightarrow>
          (let (d, s1) = next_desired s in
           if d = Some STATE_STARTED then
             (let s2 = s1\<lparr>sc_running := STATE_STARTING\<rparr> in
              if so_scrcpy opts then (later ScrcpyTask s2, [StartScrcpy]) else start_minicap opts s2)
           else (later EnsureTask s1, []))
      | STATE_STARTED \<Rightarrow>
          (let (d, s1) = next_desired s in
           if d = Some STATE_STOPPED then disconnect StopRequested (s1\<lparr>sc_running := STATE_STOPPING\<rparr>)
           else (later EnsureTask s1, [])))"

definition wish :: "run_state \<Rightarrow> screen \<Rightarrow> screen" where
  "wish d s = s\<lparr>sc_desired := stq_push (sc_desired s) d\<rparr>"

definition producer_start :: "screen_options \<Rightarrow> screen \<Rightarrow> screen \<times> screen_out list" where
  "producer_start opts s = ensure opts (wish STATE_STARTED s)"

definition producer_stop :: "screen_options \<Rightarrow> screen \<Rightarrow> screen \<times> screen_out list" where
  "producer_stop opts s = ensure opts (wish STATE_STOPPED s)"

definition producer_restart :: "screen_options \<Rightarrow> screen \<Rightarrow> screen \<times> screen_out list" where
  "producer_restart opts s =
     (if sc_running s \<in> {STATE_STARTED, STATE_STARTING} then ensure opts (wish STATE_STARTED (wish STATE_STOPPED s)) else (s, []))"

definition updateRotation :: "screen_options \<Rightarrow> nat \<Rightarrow> screen \<Rightarrow> screen \<times> screen_out list" where
  "updateRotation opts r s =
     (if fc_rotation (sc_config s) = r then (s, [])
      else producer_restart opts (s\<lparr>sc_config := (sc_config s)\<lparr>fc_rotation := r\<rparr>\<rparr>))"

definition changeQuality :: "screen_options \<Rightarrow> int \<Rightarrow> screen \<Rightarrow> screen \<times> screen_out list" where
  "changeQuality opts q s = producer_restart opts (s\<lparr>sc_config := (sc_config s)\<lparr>fc_quality := q\<rparr>\<rparr>)"

definition updateProjection :: "screen_options \<Rightarrow> nat \<Rightarrow> nat \<Rightarrow> screen \<Rightarrow> screen \<times> screen_out list" where
  "updateProjection opts w h s =
     (if fc_virtual_width (sc_config s) = w \<and> fc_virtual_height (sc_config s) = h then (s, [])
      else producer_restart opts (s\<lparr>sc_config := (sc_config s)\<lparr>fc_virtual_width := w, fc_virtual_height := h\<rparr>\<rparr>))"

text \<open>\<open>failCounter.inc\<close>: beyond the limit \<open>_failLimitExceeded\<close> begins to stop and emits an error, which ends the process.\<close>

definition screen_failure :: "millis \<Rightarrow> screen \<Rightarrow> screen \<times> screen_out list" where
  "screen_failure now s =
     (let (vs, over) = fail_inc 3 10000 (sc_failures s) now; s1 = s\<lparr>sc_failures := vs\<rparr> in
      if over then and_then (disconnect StopRequested s1) (\<lambda>t. exit_process (t\<lparr>sc_failed := True\<rparr>)) else (s1, []))"

definition screen_stream_ended :: "screen_options \<Rightarrow> nat \<Rightarrow> millis \<Rightarrow> screen \<Rightarrow> screen \<times> screen_out list" where
  "screen_stream_ended opts k now s =
     (if sc_opened s \<le> k \<or> sc_ended s k then (s, [])
      else (let s1 = s\<lparr>sc_ended := (sc_ended s)(k := True)\<rparr> in
        if sc_expected s1 k then (s1, []) else and_then (screen_failure now s1) (producer_restart opts)))"

definition stop_done :: "screen_options \<Rightarrow> screen_stopper \<Rightarrow> millis \<Rightarrow> screen \<Rightarrow> screen \<times> screen_out list" where
  "stop_done opts who now s =
     (case who of
        StopRequested \<Rightarrow> ensure opts (cleared s)
      | StartFailed \<Rightarrow>
          and_then (screen_failure now (cleared s)) (\<lambda>t. ensure opts (t\<lparr>sc_grabber := ''minicap-apk''\<rparr>)))"

section \<open>Viewers\<close>

text \<open>
  \<open>BroadcastSet\<close>: inserting tells a viewer at once when the producer runs, and starts the producer for the first viewer;
  removing the last one stops it. \<open>ws_send\<close> is \<open>send\<close> of a client: only an open socket gets the message; a closed one is
  removed from the set.
\<close>

definition set_conn :: "nat \<Rightarrow> conn \<Rightarrow> screen \<Rightarrow> screen" where
  "set_conn i c s = s\<lparr>sc_conns := (sc_conns s)(i := Some c)\<rparr>"

definition broadcast_remove :: "screen_options \<Rightarrow> nat \<Rightarrow> screen \<Rightarrow> screen \<times> screen_out list" where
  "broadcast_remove opts i s =
     (if om_has (sc_viewers s) i then
        (let s1 = s\<lparr>sc_viewers := om_del i (sc_viewers s)\<rparr> in if sc_viewers s1 = [] then producer_stop opts s1 else (s1, []))
      else (s, []))"

definition ws_send :: "screen_options \<Rightarrow> nat \<Rightarrow> packet \<Rightarrow> screen \<Rightarrow> screen \<times> screen_out list" where
  "ws_send opts i m s =
     (case sc_conns s i of
        None \<Rightarrow> (s, [])
      | Some c \<Rightarrow>
          (case cn_ready c of
             OPEN \<Rightarrow> (s, [WsSend i m])
           | CLOSING \<Rightarrow> (s, [])
           | CLOSED \<Rightarrow> broadcast_remove opts i (set_conn i (c\<lparr>cn_ping := False\<rparr>) s)))"

definition on_start :: "screen_options \<Rightarrow> screen \<Rightarrow> nat \<Rightarrow> screen \<times> screen_out list" where
  "on_start opts s i =
     (case om_get (sc_viewers s) i of
        None \<Rightarrow> (s, [])
      | Some WebViewer \<Rightarrow> ws_send opts i (StartPacket (sc_banner s)) s
      | Some VncViewer \<Rightarrow> (s, [VncStart i]))"

definition on_frame :: "screen_options \<Rightarrow> byte list \<Rightarrow> screen \<Rightarrow> nat \<Rightarrow> screen \<times> screen_out list" where
  "on_frame opts f s i =
     (case om_get (sc_viewers s) i of
        None \<Rightarrow> (s, [])
      | Some WebViewer \<Rightarrow> ws_send opts i (Binary f) s
      | Some VncViewer \<Rightarrow> (s, [VncFrame i f]))"

definition broadcast_insert :: "screen_options \<Rightarrow> nat \<Rightarrow> viewer \<Rightarrow> screen \<Rightarrow> screen \<times> screen_out list" where
  "broadcast_insert opts i v s =
     (if om_has (sc_viewers s) i then (s, [])
      else (let s1 = s\<lparr>sc_viewers := om_set i v (sc_viewers s)\<rparr>;
                a = (if sc_running s1 = STATE_STARTED then on_start opts s1 i else (s1, [])) in
        and_then a (\<lambda>t. if length (sc_viewers t) = 1 then producer_start opts t else (t, []))))"

text \<open>The listeners of \<open>start\<close> and of \<open>readable\<close> go through the keys of the set at that moment.\<close>

definition emit_start :: "screen_options \<Rightarrow> screen \<Rightarrow> screen \<times> screen_out list" where
  "emit_start opts s = run (on_start opts) s (om_keys (sc_viewers s))"

definition broadcast_frame :: "screen_options \<Rightarrow> byte list \<Rightarrow> screen \<Rightarrow> screen \<times> screen_out list" where
  "broadcast_frame opts f s = run (on_frame opts f) s (om_keys (sc_viewers s))"

section \<open>Frames\<close>

text \<open>
  \<open>nextFrame\<close>: without a parser there is no frame, and \<open>readable\<close> stays as it is. The parser and the socket come and go
  together, and \<open>push\<close> never refuses (theorem \<open>frames_refine_bytes\<close>), so the last branch does not occur.
\<close>

definition next_frame :: "screen \<Rightarrow> byte list option \<times> screen" where
  "next_frame s =
     (case (sc_parser s, sc_socket s) of
        (Some p, Some k) \<Rightarrow>
          (case pull p (sc_buffer s k) of
             (Frame f, q, b) \<Rightarrow> (Some f, s\<lparr>sc_parser := Some q, sc_buffer := (sc_buffer s)(k := b)\<rparr>)
           | (NoFrame, q, b) \<Rightarrow> (None, s\<lparr>sc_parser := Some q, sc_buffer := (sc_buffer s)(k := b), sc_readable := False\<rparr>)
           | (PushError e, q, b) \<Rightarrow> (None, s))
      | _ \<Rightarrow> (None, s))"

text \<open>
  The listener of \<open>readable\<close>: a frame is sent to the viewers and the next one is taken later (\<open>settle\<close> does not wait for
  the viewers: it is given one array in an array); without a frame \<open>needFrame\<close> may emit \<open>readable\<close> again, which runs
  the listener inside itself.
\<close>

partial_function (option) readable_loop :: "screen_options \<Rightarrow> screen \<Rightarrow> (screen \<times> screen_out list) option" where
  "readable_loop opts s =
     (case next_frame s of
        (Some f, s1) \<Rightarrow> (let r = broadcast_frame opts f s1 in Some (later NextTask (fst r), snd r))
      | (None, s1) \<Rightarrow>
          (if sc_readable s1 then readable_loop opts (s1\<lparr>sc_needs := False\<rparr>) else Some (s1\<lparr>sc_needs := True\<rparr>, [])))"

definition on_readable :: "screen_options \<Rightarrow> screen \<Rightarrow> screen \<times> screen_out list" where
  "on_readable opts s = (case readable_loop opts s of None \<Rightarrow> (s, [StackOverflow]) | Some r \<Rightarrow> r)"

definition maybe_emit_readable :: "screen_options \<Rightarrow> screen \<Rightarrow> screen \<times> screen_out list" where
  "maybe_emit_readable opts s =
     (if sc_readable s \<and> sc_needs s then on_readable opts (s\<lparr>sc_needs := False\<rparr>) else (s, []))"

definition readable_listener :: "screen_options \<Rightarrow> screen \<Rightarrow> screen \<times> screen_out list" where
  "readable_listener opts s = maybe_emit_readable opts (s\<lparr>sc_readable := True\<rparr>)"

text \<open>Data on a socket: the banner reader takes what it can, or the listener is told.\<close>

definition banner_data :: "nat \<Rightarrow> byte list \<Rightarrow> screen_task \<Rightarrow> screen_task \<times> byte list" where
  "banner_data k b t =
     (case t of
        BannerTask j (Reading r) \<Rightarrow> (if j = k then (let x = try_read r b in (BannerTask j (fst x), snd x)) else (t, b))
      | _ \<Rightarrow> (t, b))"

fun banner_tasks :: "nat \<Rightarrow> byte list \<Rightarrow> screen_task list \<Rightarrow> screen_task list \<times> byte list" where
  "banner_tasks k b [] = ([], b)"
| "banner_tasks k b (t # ts) =
     (let x = banner_data k b t; y = banner_tasks k (snd x) ts in (fst x # fst y, snd y))"

definition socket_data :: "screen_options \<Rightarrow> nat \<Rightarrow> byte list \<Rightarrow> screen \<Rightarrow> screen \<times> screen_out list" where
  "socket_data opts k c s =
     (if sc_opened s \<le> k \<or> sc_ended s k then (s, [])
      else (let x = banner_tasks k (sc_buffer s k @ c) (sc_tasks s);
                s1 = s\<lparr>sc_tasks := fst x, sc_buffer := (sc_buffer s)(k := snd x)\<rparr> in
        if sc_heard s1 k then readable_listener opts s1 else (s1, [])))"

section \<open>Starting\<close>

definition start_fails :: "screen \<Rightarrow> screen \<times> screen_out list" where
  "start_fails s = disconnect StartFailed s"

text \<open>\<open>/^PID: (\d+)$/\<close>, and a line of the service.\<close>

definition pid_of_line :: "string \<Rightarrow> int option" where
  "pid_of_line line =
     (if starts_with ''PID: '' line \<and> drop 5 line \<noteq> [] then read_digits (drop 5 line) else None)"

fun pid_known :: "screen_task \<Rightarrow> screen_task" where
  "pid_known (PidTask b) = PidTask True"
| "pid_known t = t"

definition output_line :: "nat \<Rightarrow> string \<Rightarrow> screen \<Rightarrow> screen \<times> screen_out list" where
  "output_line k line s =
     (if \<not> sc_piped s k \<or> sc_ended s k \<or> trim line = [] then (s, [])
      else if str_includes ''ERROR'' line then exit_process s
      else case pid_of_line line of
          None \<Rightarrow> (s, [])
        | Some p \<Rightarrow> (s\<lparr>sc_pid := p, sc_tasks := map pid_known (sc_tasks s)\<rparr>, []))"

definition open_stream :: "screen \<Rightarrow> nat \<times> screen" where
  "open_stream s = (sc_opened s, s\<lparr>sc_opened := Suc (sc_opened s)\<rparr>)"

definition service_runs :: "screen \<Rightarrow> screen \<times> screen_out list" where
  "service_runs s =
     (let (k, s1) = open_stream s in
      (later (PidTask (0 < sc_pid s1)) (s1\<lparr>sc_output := Some k, sc_piped := (sc_piped s1)(k := True)\<rparr>), []))"

definition connect_minicap :: "nat \<Rightarrow> millis \<Rightarrow> screen \<Rightarrow> screen \<times> screen_out list" where
  "connect_minicap tries delay s = (later (SocketTask tries delay) s, [OpenMinicap])"

definition minicap_connected :: "screen \<Rightarrow> screen \<times> screen_out list" where
  "minicap_connected s =
     (let (k, s1) = open_stream s in
      (later (BannerTask k (Reading banner_start)) (s1\<lparr>sc_parser := Some fp_new, sc_socket := Some k\<rparr>), []))"

definition connect_failed :: "nat \<Rightarrow> millis \<Rightarrow> string \<Rightarrow> screen \<Rightarrow> screen \<times> screen_out list" where
  "connect_failed tries delay msg s =
     (if str_includes ''closed'' msg \<and> 1 < tries then (later (DelayTask tries delay) s, [Wait delay]) else start_fails s)"

definition read_frames :: "screen_options \<Rightarrow> nat \<Rightarrow> screen \<Rightarrow> screen \<times> screen_out list" where
  "read_frames opts k s = readable_listener opts (s\<lparr>sc_needs := True, sc_heard := (sc_heard s)(k := True)\<rparr>)"

text \<open>After the banner; a socket that another \<open>_stop\<close> has taken away is an exception.\<close>

definition banner_there :: "screen_options \<Rightarrow> screen_banner \<Rightarrow> screen \<Rightarrow> screen \<times> screen_out list" where
  "banner_there opts b s =
     (let s1 = s\<lparr>sc_banner := Some b\<rparr> in
      case sc_socket s1 of
        None \<Rightarrow> start_fails s1
      | Some k \<Rightarrow>
          and_then (and_then (read_frames opts k s1) (\<lambda>t. emit_start opts (t\<lparr>sc_running := STATE_STARTED\<rparr>))) (ensure opts))"

section \<open>Clients of the web socket server\<close>

datatype screen_request = On | Off | Size nat nat

text \<open>\<open>/^(on|off|(size) ([0-9]+)x([0-9]+))$/\<close>\<close>

definition parse_request :: "string \<Rightarrow> screen_request option" where
  "parse_request s =
     (if s = ''on'' then Some On
      else if s = ''off'' then Some Off
      else if starts_with ''size '' s then
        (case split_char CHR ''x'' (drop 5 s) of
           [w, h] \<Rightarrow>
             (if w = [] \<or> h = [] then None
              else case (read_digits w, read_digits h) of (Some m, Some n) \<Rightarrow> Some (Size (nat m) (nat n)) | _ \<Rightarrow> None)
         | _ \<Rightarrow> None)
      else None)"

definition connection :: "nat \<Rightarrow> string option \<Rightarrow> screen \<Rightarrow> screen \<times> screen_out list" where
  "connection i user s =
     (if sc_conns s i \<noteq> None then (s, [])
      else case user of
          None \<Rightarrow> (set_conn i \<lparr>cn_email = [], cn_ready = CLOSING, cn_listens = False, cn_ping = False\<rparr> s,
            [WsSend i (AuthError ''Authentication token required''), WsClose i ''Authentication token required''])
        | Some email \<Rightarrow>
            (later (GroupTask i False) (set_conn i \<lparr>cn_email = email, cn_ready = OPEN, cn_listens = False, cn_ping = False\<rparr> s), []))"

text \<open>What \<open>group.get\<close> answers: the user of the device, that there is no group, or another error.\<close>

datatype group_answer = UsedBy string | NoGroup | GroupError

definition raw_send :: "nat \<Rightarrow> conn \<Rightarrow> packet \<Rightarrow> screen_out list" where
  "raw_send i c m = (if cn_ready c = OPEN then [WsSend i m] else [])"

definition ws_refused :: "nat \<Rightarrow> conn \<Rightarrow> string \<Rightarrow> string \<Rightarrow> screen \<Rightarrow> screen \<times> screen_out list" where
  "ws_refused i c msg reason s =
     (set_conn i (c\<lparr>cn_ready := (if cn_ready c = CLOSED then CLOSED else CLOSING)\<rparr>) s,
      raw_send i c (AuthError msg) @ (if cn_ready c = OPEN then [WsClose i reason] else []))"

text \<open>The handlers are installed after the check, whatever it found.\<close>

definition listen :: "screen_options \<Rightarrow> nat \<Rightarrow> screen \<Rightarrow> screen \<times> screen_out list" where
  "listen opts i s =
     ((case sc_conns s i of None \<Rightarrow> s | Some c \<Rightarrow> set_conn i (c\<lparr>cn_listens := True\<rparr>) s)
        \<lparr>sc_raw := (if so_scrcpy opts then sc_raw s @ [i] else sc_raw s)\<rparr>, [])"

definition group_checked :: "screen_options \<Rightarrow> nat \<Rightarrow> bool \<Rightarrow> group_answer \<Rightarrow> screen \<Rightarrow> screen \<times> screen_out list" where
  "group_checked opts i retried ans s =
     (case sc_conns s i of
        None \<Rightarrow> (s, [])
      | Some c \<Rightarrow>
          (case ans of
             UsedBy email \<Rightarrow>
               (if email \<noteq> cn_email c
                then and_then (ws_refused i c ''Device used by another user'' ''Authentication failed'' s) (listen opts i)
                else and_then (set_conn i (c\<lparr>cn_ping := True\<rparr>) s, raw_send i c AuthSuccess) (listen opts i))
           | NoGroup \<Rightarrow>
               (if retried then and_then (ws_refused i c ''Authentication error'' ''Authentication error'' s) (listen opts i)
                else (later (GroupTask i True) s, [Wait 1000]))
           | GroupError \<Rightarrow> and_then (ws_refused i c ''Authentication error'' ''Authentication error'' s) (listen opts i)))"

definition ws_message :: "screen_options \<Rightarrow> nat \<Rightarrow> string \<Rightarrow> screen \<Rightarrow> screen \<times> screen_out list" where
  "ws_message opts i data s =
     (case sc_conns s i of
        None \<Rightarrow> (s, [])
      | Some c \<Rightarrow>
          (if \<not> cn_listens c \<or> cn_ready c = CLOSED then (s, [])
           else case parse_request data of
               None \<Rightarrow> (s, [])
             | Some On \<Rightarrow> broadcast_insert opts i WebViewer s
             | Some Off \<Rightarrow> broadcast_remove opts i s
             | Some (Size w h) \<Rightarrow> updateProjection opts w h s))"

definition client_gone :: "screen_options \<Rightarrow> ready \<Rightarrow> nat \<Rightarrow> screen \<Rightarrow> screen \<times> screen_out list" where
  "client_gone opts r i s =
     (case sc_conns s i of
        None \<Rightarrow> (s, [])
      | Some c \<Rightarrow>
          (if cn_ready c = CLOSED then (s, [])
           else if cn_listens c then broadcast_remove opts i (set_conn i (c\<lparr>cn_ready := r, cn_ping := False\<rparr>) s)
           else (set_conn i (c\<lparr>cn_ready := r\<rparr>) s, [])))"

section \<open>Events\<close>

datatype screen_answer = Done | Fails string | Group group_answer

fun resume_screen :: "screen_options \<Rightarrow> screen_task \<Rightarrow> screen_answer \<Rightarrow> millis \<Rightarrow> screen \<Rightarrow> screen \<times> screen_out list" where
  "resume_screen opts RunTask ans now s = (case ans of Fails msg \<Rightarrow> start_fails s | _ \<Rightarrow> service_runs s)"
| "resume_screen opts ScrcpyTask ans now s =
     (case ans of Fails msg \<Rightarrow> (s, [UnhandledRejection]) | _ \<Rightarrow> emit_start opts (s\<lparr>sc_running := STATE_STARTED\<rparr>))"
| "resume_screen opts (PidTask known) ans now s =
     (case ans of Fails msg \<Rightarrow> start_fails s
      | _ \<Rightarrow> (if known then connect_minicap 10 100 s else (later (PidTask known) s, [])))"
| "resume_screen opts (SocketTask tries delay) ans now s =
     (case ans of Fails msg \<Rightarrow> connect_failed tries delay msg s | _ \<Rightarrow> minicap_connected s)"
| "resume_screen opts (DelayTask tries delay) ans now s = connect_minicap (tries - 1) (delay + 100) s"
| "resume_screen opts (BannerTask k r) ans now s =
     (case ans of Fails msg \<Rightarrow> start_fails s
      | _ \<Rightarrow> (case r of Resolved b \<Rightarrow> banner_there opts b s | Reading x \<Rightarrow> (later (BannerTask k r) s, []) | Impossible \<Rightarrow> start_fails s))"
| "resume_screen opts (DisconnectTask who) ans now s =
     (case ans of Fails msg \<Rightarrow> exit_process (s\<lparr>sc_running := STATE_STOPPED\<rparr>) | _ \<Rightarrow> stop_minicap who s)"
| "resume_screen opts (KillTask who k pid kindly) ans now s =
     (case ans of
        Fails msg \<Rightarrow> (if kindly \<and> msg = ''Timeout'' then kill_minicap who k pid False s else force_end_output who k s)
      | _ \<Rightarrow> stop_done opts who now s)"
| "resume_screen opts (StoppedTask who) ans now s = stop_done opts who now s"
| "resume_screen opts EnsureTask ans now s = ensure opts s"
| "resume_screen opts NextTask ans now s = on_readable opts s"
| "resume_screen opts (GroupTask i retried) ans now s =
     group_checked opts i retried (case ans of Group g \<Rightarrow> g | _ \<Rightarrow> GroupError) s"

datatype screen_event =
    Connection nat "string option"
  | ClientMessage nat string
  | ClientCloses nat
  | ClientError nat
  | PingTimer nat
  | VncInsert nat
  | VncRemove nat
  | RotationChange nat
  | ChangeQuality int
  | GracefulStop
  | OutputLine nat string
  | SocketData nat "byte list"
  | ScreenStreamEnds nat millis
  | RawData "byte list"
  | ResumeTask nat screen_answer millis

definition ping_client :: "screen_options \<Rightarrow> nat \<Rightarrow> screen \<Rightarrow> screen \<times> screen_out list" where
  "ping_client opts i s =
     (case sc_conns s i of None \<Rightarrow> (s, []) | Some c \<Rightarrow> (if cn_ping c then ws_send opts i Ping s else (s, [])))"

fun screen_event_step :: "screen_options \<Rightarrow> screen \<Rightarrow> screen_event \<Rightarrow> screen \<times> screen_out list" where
  "screen_event_step opts s (Connection i user) = connection i user s"
| "screen_event_step opts s (ClientMessage i data) = ws_message opts i data s"
| "screen_event_step opts s (ClientCloses i) = client_gone opts CLOSED i s"
| "screen_event_step opts s (ClientError i) = client_gone opts CLOSING i s"
| "screen_event_step opts s (PingTimer i) = ping_client opts i s"
| "screen_event_step opts s (VncInsert i) = broadcast_insert opts i VncViewer s"
| "screen_event_step opts s (VncRemove i) = broadcast_remove opts i s"
| "screen_event_step opts s (RotationChange r) = updateRotation opts r s"
| "screen_event_step opts s (ChangeQuality q) = changeQuality opts q s"
| "screen_event_step opts s GracefulStop = producer_stop opts s"
| "screen_event_step opts s (OutputLine k line) = output_line k line s"
| "screen_event_step opts s (SocketData k c) = socket_data opts k c s"
| "screen_event_step opts s (ScreenStreamEnds k now) = screen_stream_ended opts k now s"
| "screen_event_step opts s (RawData d) = run (\<lambda>t i. ws_send opts i (Binary d) t) s (sc_raw s)"
| "screen_event_step opts s (ResumeTask k ans now) =
     (if k < length (sc_tasks s)
      then resume_screen opts (sc_tasks s ! k) ans now (s\<lparr>sc_tasks := remove_nth k (sc_tasks s)\<rparr>) else (s, []))"

definition screen_step :: "screen_options \<Rightarrow> screen \<Rightarrow> screen_event \<Rightarrow> screen \<times> screen_out list" where
  "screen_step opts s e = (if sc_alive s then screen_event_step opts s e else (s, []))"

section \<open>Nothing that is desired is forgotten\<close>

text \<open>
  The tasks of a start and of a stop say in which state the producer is. \<open>base ps s\<close>: those tasks, with \<open>ps\<close> for the code that runs
  now, are the one that the running state asks for; the parser comes with the socket, and a started producer has both.
\<close>

fun phase :: "screen_task \<Rightarrow> run_state list" where
  "phase EnsureTask = []"
| "phase NextTask = []"
| "phase (GroupTask i retried) = []"
| "phase (DisconnectTask who) = [if who = StopRequested then STATE_STOPPING else STATE_STARTING]"
| "phase (KillTask who k pid kindly) = [if who = StopRequested then STATE_STOPPING else STATE_STARTING]"
| "phase (StoppedTask who) = [if who = StopRequested then STATE_STOPPING else STATE_STARTING]"
| "phase _ = [STATE_STARTING]"

definition phases :: "screen \<Rightarrow> run_state list" where
  "phases s = concat (map phase (sc_tasks s))"

definition base :: "run_state list \<Rightarrow> screen \<Rightarrow> bool" where
  "base ps s \<longleftrightarrow> phases s @ ps = (if sc_running s \<in> {STATE_STARTING, STATE_STOPPING} then [sc_running s] else []) \<and>
     ScrcpyTask \<notin> set (sc_tasks s) \<and> sc_alive s \<and> \<not> sc_failed s \<and> (sc_parser s = None \<longleftrightarrow> sc_socket s = None) \<and>
     (sc_running s = STATE_STARTED \<longrightarrow> sc_socket s \<noteq> None)"

definition heeded :: "screen \<Rightarrow> bool" where
  "heeded s \<longleftrightarrow> sc_desired s = [] \<or> sc_running s \<in> {STATE_STARTING, STATE_STOPPING} \<or> EnsureTask \<in> set (sc_tasks s)"

text \<open>\<open>minds a ps s\<close>: the invariant where the code runs now for \<open>ps\<close>, and \<open>a\<close> says whether the desired states are looked after.\<close>

definition minds :: "bool \<Rightarrow> run_state list \<Rightarrow> screen \<Rightarrow> bool" where
  "minds a ps s \<longleftrightarrow> base ps s \<and> (a \<longrightarrow> heeded s)"

lemma keeps_weaken: "minds True ps s \<Longrightarrow> minds a ps s"
  by (simp add: minds_def)

lemma keeps_phase: "minds a [p] s \<Longrightarrow> sc_running s = p \<and> phases s = [] \<and> p \<in> {STATE_STARTING, STATE_STOPPING} \<and> minds True [p] s"
  by (auto simp: minds_def base_def heeded_def split: if_splits)

lemma phases_later: "phases (later t s) = phases s @ phase t"
  by (simp add: phases_def later_def)

lemma later_moving: "minds a [p] s \<Longrightarrow> phase t = [p] \<Longrightarrow> t \<noteq> ScrcpyTask \<Longrightarrow> minds True [] (later t s)"
  by (auto simp: minds_def base_def heeded_def phases_def later_def split: if_splits)

lemma later_still: "minds a ps s \<Longrightarrow> phase t = [] \<Longrightarrow> minds a ps (later t s)"
  by (auto simp: minds_def base_def heeded_def phases_def later_def)

lemma minds_same:
  "minds a ps s \<Longrightarrow> sc_running t = sc_running s \<Longrightarrow> sc_desired t = sc_desired s \<Longrightarrow> sc_tasks t = sc_tasks s \<Longrightarrow> sc_alive t = sc_alive s \<Longrightarrow>
   sc_failed t = sc_failed s \<Longrightarrow> sc_socket t = sc_socket s \<Longrightarrow> (sc_parser t = None) = (sc_parser s = None) \<Longrightarrow> minds a ps t"
  by (simp add: minds_def base_def heeded_def phases_def)

lemma keeps_wish: "minds a ps s \<Longrightarrow> minds False ps (wish d s)"
  by (simp add: minds_def base_def wish_def phases_def)

lemma disconnect_keeps:
  "minds a [if who = StopRequested then STATE_STOPPING else STATE_STARTING] s \<Longrightarrow> minds True [] (fst (disconnect who s))"
proof -
  assume k: "minds a [if who = StopRequested then STATE_STOPPING else STATE_STARTING] s"
  have "minds a [if who = StopRequested then STATE_STOPPING else STATE_STARTING] (will_end j (s\<lparr>sc_heard := h\<rparr>))" for j h
    by (rule minds_same [OF k]) (simp_all add: will_end_def)
  from later_moving [OF this] later_moving [OF k] show ?thesis
    by (auto simp: disconnect_def split: option.split)
qed

lemma starting_keeps: "minds a [] s \<Longrightarrow> sc_running s = STATE_STOPPED \<Longrightarrow> minds True [STATE_STARTING] (s\<lparr>sc_running := STATE_STARTING\<rparr>)"
  by (simp add: minds_def base_def heeded_def phases_def)

lemma stopping_keeps: "minds a [] s \<Longrightarrow> sc_running s = STATE_STARTED \<Longrightarrow> minds True [STATE_STOPPING] (s\<lparr>sc_running := STATE_STOPPING\<rparr>)"
  by (simp add: minds_def base_def heeded_def phases_def)

lemma no_desire_keeps: "minds a ps s \<Longrightarrow> minds False ps (s\<lparr>sc_desired := d\<rparr>)"
  by (simp add: minds_def base_def phases_def)

lemma ensure_later: "minds a [] s \<Longrightarrow> minds True [] (later EnsureTask s)"
  by (simp add: minds_def base_def heeded_def phases_def later_def)

lemma ensure_keeps: "\<not> so_scrcpy opts \<Longrightarrow> minds a ps s \<Longrightarrow> minds True ps (fst (ensure opts s))"
proof -
  assume o: "\<not> so_scrcpy opts" and k: "minds a ps s"
  have alive: "\<not> sc_failed s" using k by (simp add: minds_def base_def)
  show ?thesis
  proof (cases "sc_desired s = [] \<or> sc_running s \<in> {STATE_STARTING, STATE_STOPPING}")
    case True
    then have "minds True ps s" using k by (auto simp: minds_def heeded_def)
    then show ?thesis using True alive by (auto simp: ensure_def)
  next
    case False
    then have ps: "ps = []" using k by (auto simp: minds_def base_def)
    let ?s = "s\<lparr>sc_desired := snd (stq_next (sc_desired s))\<rparr>"
    have d: "minds False [] ?s" using no_desire_keeps k ps by blast
    from False consider "sc_running s = STATE_STOPPED" | "sc_running s = STATE_STARTED" by (cases "sc_running s") auto
    then show ?thesis
    proof cases
      case 1
      then have "minds True [] (later RunTask (?s\<lparr>sc_running := STATE_STARTING\<rparr>))"
        by (intro later_moving [OF starting_keeps [OF d]]) simp_all
      then show ?thesis using 1 False o alive ensure_later [OF d] ps
        by (simp add: ensure_def next_desired_def start_minicap_def Let_def)
    next
      case 2
      then have "minds True [] (fst (disconnect StopRequested (?s\<lparr>sc_running := STATE_STOPPING\<rparr>)))"
        using stopping_keeps [OF d] 2 by (intro disconnect_keeps [of True]) simp
      then show ?thesis using 2 False alive ensure_later [OF d] ps
        by (simp add: ensure_def next_desired_def Let_def)
    qed
  qed
qed

lemma ensure_waits: "sc_running s \<in> {STATE_STARTING, STATE_STOPPING} \<Longrightarrow> ensure opts s = (s, [])"
  by (auto simp: ensure_def)

text \<open>What the calls on viewers keep, for the viewers themselves and for the code around them.\<close>

lemma wishes_keep:
  assumes "\<not> so_scrcpy opts" and "minds a ps s"
  shows "minds True ps (fst (producer_start opts s))" "minds True ps (fst (producer_stop opts s))" "minds a ps (fst (producer_restart opts s))"
proof -
  have "minds False ps (wish d s)" "minds False ps (wish d (wish d' s))" for d d' using keeps_wish assms(2) by blast+
  then have e: "minds True ps (fst (ensure opts (wish d s)))" "minds True ps (fst (ensure opts (wish d (wish d' s))))" for d d'
    using ensure_keeps [OF assms(1)] by blast+
  show "minds True ps (fst (producer_start opts s))" "minds True ps (fst (producer_stop opts s))"
    using e(1) by (simp_all add: producer_start_def producer_stop_def)
  show "minds a ps (fst (producer_restart opts s))" using keeps_weaken [OF e(2)] assms(2) by (simp add: producer_restart_def)
qed

lemma keeps_conn: "minds a ps s \<Longrightarrow> minds a ps (set_conn i c s)"
  by (rule minds_same [of a ps s]) (simp_all add: set_conn_def)

lemma broadcast_remove_keeps: "\<not> so_scrcpy opts \<Longrightarrow> minds a ps s \<Longrightarrow> minds a ps (fst (broadcast_remove opts i s))"
proof -
  assume o: "\<not> so_scrcpy opts" and k: "minds a ps s"
  have "minds a ps (s\<lparr>sc_viewers := v\<rparr>)" for v by (rule minds_same [OF k]) simp_all
  from keeps_weaken [OF wishes_keep(2) [OF o this]] this k show ?thesis by (simp add: broadcast_remove_def Let_def)
qed

lemma ws_send_keeps: "\<not> so_scrcpy opts \<Longrightarrow> minds a ps s \<Longrightarrow> minds a ps (fst (ws_send opts i m s))"
  using keeps_conn broadcast_remove_keeps by (auto simp: ws_send_def split: option.split ready.split)

lemma on_start_keeps: "\<not> so_scrcpy opts \<Longrightarrow> minds a ps s \<Longrightarrow> minds a ps (fst (on_start opts s i))"
  using ws_send_keeps by (auto simp: on_start_def split: option.split viewer.split)

lemma on_frame_keeps: "\<not> so_scrcpy opts \<Longrightarrow> minds a ps s \<Longrightarrow> minds a ps (fst (on_frame opts f s i))"
  using ws_send_keeps by (auto simp: on_frame_def split: option.split viewer.split)

lemma run_keeps:
  "(\<And>t i. minds a ps t \<Longrightarrow> minds a ps (fst (f t i))) \<Longrightarrow> minds a ps s \<Longrightarrow> minds a ps (fst (run f s is))"
  by (induction "is" arbitrary: s) (simp_all add: Let_def)

lemma emit_start_keeps: "\<not> so_scrcpy opts \<Longrightarrow> minds a ps s \<Longrightarrow> minds a ps (fst (emit_start opts s))"
  unfolding emit_start_def by (rule run_keeps) (rule on_start_keeps)

lemma broadcast_frame_keeps: "\<not> so_scrcpy opts \<Longrightarrow> minds a ps s \<Longrightarrow> minds a ps (fst (broadcast_frame opts f s))"
  unfolding broadcast_frame_def by (rule run_keeps) (rule on_frame_keeps)

lemma broadcast_insert_keeps: "\<not> so_scrcpy opts \<Longrightarrow> minds a ps s \<Longrightarrow> minds a ps (fst (broadcast_insert opts i v s))"
proof -
  assume o: "\<not> so_scrcpy opts" and k: "minds a ps s"
  have s: "minds a ps (s\<lparr>sc_viewers := w\<rparr>)" for w by (rule minds_same [OF k]) simp_all
  have "minds a ps (fst (producer_start opts t))" if "minds a ps t" for t by (rule keeps_weaken [OF wishes_keep(1) [OF o that]])
  then show ?thesis using s on_start_keeps [OF o s] k by (auto simp: broadcast_insert_def and_then_def Let_def)
qed

lemma next_frame_same:
  "sc_running (snd (next_frame s)) = sc_running s" "sc_desired (snd (next_frame s)) = sc_desired s" "sc_tasks (snd (next_frame s)) = sc_tasks s"
  "sc_alive (snd (next_frame s)) = sc_alive s" "sc_failed (snd (next_frame s)) = sc_failed s" "sc_socket (snd (next_frame s)) = sc_socket s"
  "(sc_parser (snd (next_frame s)) = None) = (sc_parser s = None)" "sc_viewers (snd (next_frame s)) = sc_viewers s"
  "sc_conns (snd (next_frame s)) = sc_conns s"
  unfolding next_frame_def
  by (cases "sc_parser s"; cases "sc_socket s"; simp split: prod.split pulled.split)+

lemma next_frame_keeps: "minds a ps s \<Longrightarrow> minds a ps (snd (next_frame s))"
  by (rule minds_same) (simp_all add: next_frame_same)

text \<open>The listener of \<open>readable\<close> in closed form: it never returns when there is no frame and \<open>readable\<close> stays set.\<close>

definition spinning :: "screen \<Rightarrow> bool" where
  "spinning s \<longleftrightarrow> fst (next_frame s) = None \<and> sc_readable (snd (next_frame s))"

lemma spinning_same: "spinning s \<Longrightarrow> snd (next_frame s) = s"
  unfolding spinning_def next_frame_def
  by (cases "sc_parser s"; cases "sc_socket s") (auto split: prod.splits pulled.splits)

lemma stuck_again: "spinning s \<Longrightarrow> spinning (s\<lparr>sc_needs := b\<rparr>)"
  unfolding spinning_def next_frame_def
  by (cases "sc_parser s"; cases "sc_socket s") (auto split: prod.splits pulled.splits)

lemma returns_not_stuck:
  assumes ret: "readable_loop opts s = Some r"
  shows "\<not> spinning s"
proof (rule readable_loop.raw_induct [where P = "\<lambda>opts s r. \<not> spinning s", OF _ ret])
  fix f opts s r
  assume IH: "\<And>opts s r. f opts s = Some r \<Longrightarrow> \<not> spinning s"
    and eq: "(case next_frame s of
        (Some f, s1) \<Rightarrow> (let r = broadcast_frame opts f s1 in Some (later NextTask (fst r), snd r))
      | (None, s1) \<Rightarrow> (if sc_readable s1 then f opts (s1\<lparr>sc_needs := False\<rparr>) else Some (s1\<lparr>sc_needs := True\<rparr>, []))) = Some r"
  show "\<not> spinning s"
  proof
    assume s: "spinning s"
    then obtain t where t: "next_frame s = (None, t)" "sc_readable t" by (cases "next_frame s") (simp add: spinning_def)
    then have "t = s" using spinning_same [OF s] by simp
    then have "f opts (s\<lparr>sc_needs := False\<rparr>) = Some r" using eq t by simp
    then have "\<not> spinning (s\<lparr>sc_needs := False\<rparr>)" by (rule IH)
    then show False using stuck_again [OF s] by simp
  qed
qed

lemma readable_loop_stuck: "spinning s \<Longrightarrow> readable_loop opts s = None"
  using returns_not_stuck by (cases "readable_loop opts s") auto

lemma readable_loop_frame:
  "next_frame s = (Some f, s1) \<Longrightarrow>
   readable_loop opts s = Some (later NextTask (fst (broadcast_frame opts f s1)), snd (broadcast_frame opts f s1))"
  by (simp add: readable_loop.simps Let_def)

lemma readable_loop_empty:
  "next_frame s = (None, s1) \<Longrightarrow> \<not> sc_readable s1 \<Longrightarrow> readable_loop opts s = Some (s1\<lparr>sc_needs := True\<rparr>, [])"
  by (simp add: readable_loop.simps)

lemma readable_loop_closed [code]:
  "readable_loop opts s =
     (case next_frame s of
        (Some f, s1) \<Rightarrow> Some (later NextTask (fst (broadcast_frame opts f s1)), snd (broadcast_frame opts f s1))
      | (None, s1) \<Rightarrow> (if sc_readable s1 then None else Some (s1\<lparr>sc_needs := True\<rparr>, [])))"
  using readable_loop_stuck [of s opts]
  by (auto simp: spinning_def readable_loop_frame readable_loop_empty split: prod.split option.split)

lemma on_readable_cases:
  obtains (frame) f s1 where "next_frame s = (Some f, s1)" "on_readable opts s = (later NextTask (fst (broadcast_frame opts f s1)), snd (broadcast_frame opts f s1))"
    | (empty) s1 where "next_frame s = (None, s1)" "\<not> sc_readable s1" "on_readable opts s = (s1\<lparr>sc_needs := True\<rparr>, [])"
    | (spinning) "spinning s" "on_readable opts s = (s, [StackOverflow])"
proof (cases "spinning s")
  case True
  then show ?thesis using spinning by (simp add: on_readable_def readable_loop_stuck)
next
  case False
  obtain fo s1 where n: "next_frame s = (fo, s1)" by (cases "next_frame s")
  show ?thesis
  proof (cases fo)
    case None
    then show ?thesis using empty [of s1] n False readable_loop_empty [of s s1 opts] by (simp add: on_readable_def spinning_def)
  next
    case (Some f)
    then show ?thesis using frame [of f s1] n readable_loop_frame [of s f s1 opts] by (simp add: on_readable_def)
  qed
qed

lemma on_readable_keeps: "\<not> so_scrcpy opts \<Longrightarrow> minds a ps s \<Longrightarrow> minds a ps (fst (on_readable opts s))"
proof -
  assume o: "\<not> so_scrcpy opts" and k: "minds a ps s"
  show ?thesis
  proof (cases rule: on_readable_cases [of s opts])
    case (frame f s1)
    then have "minds a ps s1" using next_frame_keeps [OF k] by simp
    then show ?thesis using frame(2) later_still broadcast_frame_keeps [OF o] by simp
  next
    case (empty s1)
    then have "minds a ps s1" using next_frame_keeps [OF k] by simp
    then have "minds a ps (s1\<lparr>sc_needs := True\<rparr>)" by (rule minds_same) simp_all
    then show ?thesis using empty(3) by simp
  qed (simp add: k)
qed

lemma readable_listener_keeps: "\<not> so_scrcpy opts \<Longrightarrow> minds a ps s \<Longrightarrow> minds a ps (fst (readable_listener opts s))"
proof -
  assume o: "\<not> so_scrcpy opts" and k: "minds a ps s"
  have "minds a ps (s\<lparr>sc_readable := True\<rparr>)" "minds a ps (s\<lparr>sc_readable := True, sc_needs := False\<rparr>)" by (rule minds_same [OF k]; simp)+
  then show ?thesis using on_readable_keeps [OF o] by (simp add: readable_listener_def maybe_emit_readable_def)
qed

text \<open>Data and lines change the tasks that wait for them, not what those tasks stand for.\<close>

lemma banner_data_phase: "phase (fst (banner_data k b t)) = phase t" "(ScrcpyTask = fst (banner_data k b t)) = (ScrcpyTask = t)"
  "(EnsureTask = fst (banner_data k b t)) = (EnsureTask = t)"
  by (simp_all add: banner_data_def Let_def split: screen_task.split banner_result.split)

lemma banner_tasks_phases:
  "map phase (fst (banner_tasks k b ts)) = map phase ts"
  "(ScrcpyTask \<in> set (fst (banner_tasks k b ts))) = (ScrcpyTask \<in> set ts)"
  "(EnsureTask \<in> set (fst (banner_tasks k b ts))) = (EnsureTask \<in> set ts)"
  by (induction ts arbitrary: b) (simp_all add: Let_def banner_data_phase)

lemma pid_known_phase: "phase (pid_known t) = phase t" "(ScrcpyTask = pid_known t) = (ScrcpyTask = t)" "(EnsureTask = pid_known t) = (EnsureTask = t)"
  by (cases t; simp)+

lemma pid_known_phases:
  "map phase (map pid_known ts) = map phase ts"
  "(ScrcpyTask \<in> set (map pid_known ts)) = (ScrcpyTask \<in> set ts)"
  "(EnsureTask \<in> set (map pid_known ts)) = (EnsureTask \<in> set ts)"
  by (induction ts) (simp_all add: pid_known_phase)

lemma keeps_tasks:
  "minds a ps s \<Longrightarrow> map phase ts = map phase (sc_tasks s) \<Longrightarrow> (ScrcpyTask \<in> set ts) = (ScrcpyTask \<in> set (sc_tasks s)) \<Longrightarrow>
   (EnsureTask \<in> set ts) = (EnsureTask \<in> set (sc_tasks s)) \<Longrightarrow> minds a ps (s\<lparr>sc_tasks := ts\<rparr>)"
  by (simp add: minds_def base_def heeded_def phases_def)

lemma socket_data_keeps: "\<not> so_scrcpy opts \<Longrightarrow> minds a ps s \<Longrightarrow> minds a ps (fst (socket_data opts k c s))"
proof -
  assume o: "\<not> so_scrcpy opts" and k: "minds a ps s"
  let ?x = "banner_tasks k (sc_buffer s k @ c) (sc_tasks s)"
  have "minds a ps (s\<lparr>sc_tasks := fst ?x\<rparr>)" by (rule keeps_tasks [OF k banner_tasks_phases])
  then have "minds a ps (s\<lparr>sc_tasks := fst ?x, sc_buffer := (sc_buffer s)(k := snd ?x)\<rparr>)" by (rule minds_same) simp_all
  then show ?thesis using k readable_listener_keeps [OF o] by (simp add: socket_data_def Let_def)
qed

definition good :: "screen \<Rightarrow> bool" where
  "good s \<longleftrightarrow> (sc_alive s \<longrightarrow> minds True [] s)"

lemma good_keeps: "minds True [] s \<Longrightarrow> good s"
  by (simp add: good_def)

lemma keeps_alive: "minds a ps s \<Longrightarrow> sc_alive s"
  by (simp add: minds_def base_def)

lemma good_exit: "good (fst (exit_process s))"
  by (simp add: good_def exit_process_def)

lemma good_then: "(sc_alive (fst r) \<Longrightarrow> good (fst (f (fst r)))) \<Longrightarrow> good (fst (and_then r f))"
  by (cases "sc_alive (fst r)") (simp_all add: and_then_def good_def Let_def)

lemma output_line_good: "minds True [] s \<Longrightarrow> good (fst (output_line k line s))"
proof -
  assume k: "minds True [] s"
  have "minds True [] (s\<lparr>sc_tasks := map pid_known (sc_tasks s)\<rparr>)" by (rule keeps_tasks [OF k pid_known_phases])
  then have "minds True [] (s\<lparr>sc_pid := p, sc_tasks := map pid_known (sc_tasks s)\<rparr>)" for p by (rule minds_same) simp_all
  then show ?thesis using k good_exit by (simp add: output_line_def good_keeps split: option.split)
qed

lemma start_fails_keeps: "minds a [STATE_STARTING] s \<Longrightarrow> minds True [] (fst (start_fails s))"
  unfolding start_fails_def by (rule disconnect_keeps) simp

lemma service_runs_keeps: "minds a [STATE_STARTING] s \<Longrightarrow> minds True [] (fst (service_runs s))"
proof -
  assume k: "minds a [STATE_STARTING] s"
  have "minds a [STATE_STARTING] (s\<lparr>sc_opened := n, sc_output := x, sc_piped := p\<rparr>)" for n x p by (rule minds_same [OF k]) simp_all
  from later_moving [OF this] show ?thesis by (simp add: service_runs_def open_stream_def)
qed

lemma connect_minicap_keeps: "minds a [STATE_STARTING] s \<Longrightarrow> minds True [] (fst (connect_minicap n d s))"
  by (simp add: connect_minicap_def later_moving)

lemma minicap_connected_keeps: "minds a [STATE_STARTING] s \<Longrightarrow> minds True [] (fst (minicap_connected s))"
proof -
  assume k: "minds a [STATE_STARTING] s"
  have "minds a [STATE_STARTING] (s\<lparr>sc_opened := n, sc_parser := Some p, sc_socket := Some j\<rparr>)" for n p j
    using k by (auto simp: minds_def base_def heeded_def phases_def split: if_splits)
  from later_moving [OF this] show ?thesis by (simp add: minicap_connected_def open_stream_def)
qed

lemma connect_failed_keeps: "minds a [STATE_STARTING] s \<Longrightarrow> minds True [] (fst (connect_failed n d msg s))"
  by (simp add: connect_failed_def later_moving start_fails_keeps)

lemma started_keeps: "minds a [STATE_STARTING] s \<Longrightarrow> sc_socket s \<noteq> None \<Longrightarrow> minds False [] (s\<lparr>sc_running := STATE_STARTED\<rparr>)"
  by (auto simp: minds_def base_def phases_def split: if_splits)

text \<open>While the producer starts, the viewers do not change its socket.\<close>

lemma waits_keep_socket:
  assumes "sc_running s = STATE_STARTING"
  shows "sc_socket (fst (broadcast_remove opts i s)) = sc_socket s \<and> sc_running (fst (broadcast_remove opts i s)) = STATE_STARTING"
    and "sc_socket (fst (on_frame opts f s i)) = sc_socket s \<and> sc_running (fst (on_frame opts f s i)) = STATE_STARTING"
proof -
  have r: "sc_socket (fst (broadcast_remove opts i s)) = sc_socket s \<and> sc_running (fst (broadcast_remove opts i s)) = STATE_STARTING"
    if "sc_running s = STATE_STARTING" for s i
    using that by (simp add: broadcast_remove_def producer_stop_def wish_def ensure_waits Let_def)
  show "sc_socket (fst (broadcast_remove opts i s)) = sc_socket s \<and> sc_running (fst (broadcast_remove opts i s)) = STATE_STARTING" by (rule r [OF assms])
  have "sc_socket (fst (ws_send opts i m s)) = sc_socket s \<and> sc_running (fst (ws_send opts i m s)) = STATE_STARTING" for m
    using assms r [of "set_conn i c s" for c] by (simp add: ws_send_def set_conn_def split: option.split ready.split)
  then show "sc_socket (fst (on_frame opts f s i)) = sc_socket s \<and> sc_running (fst (on_frame opts f s i)) = STATE_STARTING"
    using assms by (simp add: on_frame_def split: option.split viewer.split)
qed

lemma broadcast_frame_socket:
  "sc_running s = STATE_STARTING \<Longrightarrow> sc_socket (fst (broadcast_frame opts f s)) = sc_socket s"
proof -
  have "sc_socket (fst (run (on_frame opts f) s is)) = sc_socket s" if "sc_running s = STATE_STARTING" for "is"
    using that by (induction "is" arbitrary: s) (simp_all add: Let_def waits_keep_socket)
  then show "sc_running s = STATE_STARTING \<Longrightarrow> ?thesis" by (simp add: broadcast_frame_def)
qed

lemma on_readable_socket: "sc_running s = STATE_STARTING \<Longrightarrow> sc_socket (fst (on_readable opts s)) = sc_socket s"
proof -
  assume r: "sc_running s = STATE_STARTING"
  note same = next_frame_same(1,6) [of s]
  show ?thesis
    by (cases rule: on_readable_cases [of s opts]) (use r same in \<open>auto simp: later_def broadcast_frame_socket\<close>)
qed

lemma read_frames_keeps:
  assumes "\<not> so_scrcpy opts" and "minds a [STATE_STARTING] s"
  shows "minds a [STATE_STARTING] (fst (read_frames opts k s))" "sc_socket (fst (read_frames opts k s)) = sc_socket s"
proof -
  have k: "minds a [STATE_STARTING] (s\<lparr>sc_needs := True, sc_heard := h\<rparr>)" for h by (rule minds_same [OF assms(2)]) simp_all
  show "minds a [STATE_STARTING] (fst (read_frames opts k s))"
    unfolding read_frames_def by (rule readable_listener_keeps [OF assms(1) k])
  have r: "sc_running s = STATE_STARTING" using keeps_phase [OF assms(2)] by simp
  then show "sc_socket (fst (read_frames opts k s)) = sc_socket s"
    by (simp add: read_frames_def readable_listener_def maybe_emit_readable_def on_readable_socket)
qed

lemma banner_there_good:
  assumes "\<not> so_scrcpy opts" and "minds a [STATE_STARTING] s"
  shows "good (fst (banner_there opts b s))"
proof -
  have k: "minds a [STATE_STARTING] (s\<lparr>sc_banner := Some b\<rparr>)" by (rule minds_same [OF assms(2)]) simp_all
  show ?thesis
  proof (cases "sc_socket s")
    case None
    then show ?thesis using start_fails_keeps [OF k] by (simp add: banner_there_def Let_def good_keeps)
  next
    case (Some j)
    let ?r = "read_frames opts j (s\<lparr>sc_banner := Some b\<rparr>)"
    have s: "sc_socket (fst ?r) \<noteq> None" using read_frames_keeps(2) [OF assms(1) k] Some by simp
    have "minds False [] ((fst ?r)\<lparr>sc_running := STATE_STARTED\<rparr>)" by (rule started_keeps [OF read_frames_keeps(1) [OF assms(1) k] s])
    then have e: "minds False [] (fst (emit_start opts ((fst ?r)\<lparr>sc_running := STATE_STARTED\<rparr>)))" by (rule emit_start_keeps [OF assms(1)])
    have "sc_alive (fst ?r)" by (rule keeps_alive [OF read_frames_keeps(1) [OF assms(1) k]])
    then have "fst (and_then ?r (\<lambda>t. emit_start opts (t\<lparr>sc_running := STATE_STARTED\<rparr>))) =
        fst (emit_start opts ((fst ?r)\<lparr>sc_running := STATE_STARTED\<rparr>))" by (simp add: and_then_def Let_def)
    then show ?thesis using Some ensure_keeps [OF assms(1) e] by (simp add: banner_there_def Let_def good_then good_keeps)
  qed
qed

text \<open>Failures, the end of a stream and the end of a stop.\<close>

lemma screen_failure_cases:
  "(\<exists>vs. screen_failure now s = (s\<lparr>sc_failures := vs\<rparr>, [])) \<or> \<not> sc_alive (fst (screen_failure now s)) \<or> \<not> sc_alive s"
  by (auto simp: screen_failure_def Let_def and_then_def exit_process_def disconnect_def later_def will_end_def split: prod.splits option.splits)

lemma stream_ended_good:
  assumes "\<not> so_scrcpy opts" and "minds True [] s"
  shows "good (fst (screen_stream_ended opts k now s))"
proof -
  have s: "minds True [] (s\<lparr>sc_ended := e\<rparr>)" "minds True [] (s\<lparr>sc_ended := e, sc_failures := vs\<rparr>)" for e vs
    by (rule minds_same [OF assms(2)]; simp)+
  have "good (fst (and_then (screen_failure now (s\<lparr>sc_ended := e\<rparr>)) (producer_restart opts)))" for e
    using screen_failure_cases [of now "s\<lparr>sc_ended := e\<rparr>"] good_keeps [OF wishes_keep(3) [OF assms(1) s(2)]] keeps_alive [OF assms(2)]
    by (intro good_then) auto
  then show ?thesis using s(1) assms(2) by (simp add: screen_stream_ended_def Let_def good_keeps)
qed

lemma cleared_keeps: "minds a [STATE_STARTING] s \<or> minds a [STATE_STOPPING] s \<Longrightarrow> minds False [] (cleared s)"
  by (auto simp: minds_def base_def cleared_def phases_def split: if_splits)

lemma stop_done_good:
  assumes "\<not> so_scrcpy opts" and "minds a [if who = StopRequested then STATE_STOPPING else STATE_STARTING] s"
  shows "good (fst (stop_done opts who now s))"
proof -
  have c: "minds False [] (cleared s)" using assms(2) by (intro cleared_keeps) (auto split: if_splits)
  then have g: "minds False [] ((cleared s)\<lparr>sc_failures := vs, sc_grabber := n\<rparr>)" for vs n by (rule minds_same) simp_all
  show ?thesis
  proof (cases who)
    case StartFailed
    have "good (fst (and_then (screen_failure now (cleared s)) (\<lambda>t. ensure opts (t\<lparr>sc_grabber := ''minicap-apk''\<rparr>))))"
      using screen_failure_cases [of now "cleared s"] keeps_alive [OF c] good_keeps [OF ensure_keeps [OF assms(1) g]]
      by (intro good_then) auto
    then show ?thesis using StartFailed by (simp add: stop_done_def)
  next
    case StopRequested
    then show ?thesis using good_keeps [OF ensure_keeps [OF assms(1) c]] by (simp add: stop_done_def)
  qed
qed

lemma will_end_keeps: "minds a ps s \<Longrightarrow> minds a ps (will_end k s)"
  by (rule minds_same) (simp_all add: will_end_def)

lemma stopping_tasks_keep:
  assumes "minds a [if who = StopRequested then STATE_STOPPING else STATE_STARTING] s"
  shows "minds True [] (fst (force_end_output who k s))" "minds True [] (fst (kill_minicap who k pid kindly s))"
    "minds True [] (fst (stop_minicap who s))"
proof -
  have f: "minds True [] (later t (will_end k s))" "minds True [] (later t s)"
    if "phase t = [if who = StopRequested then STATE_STOPPING else STATE_STARTING]" "t \<noteq> ScrcpyTask" for t k
    using that later_moving [OF will_end_keeps [OF assms]] later_moving [OF assms] by blast+
  show g: "minds True [] (fst (force_end_output who k s))" for k by (simp add: force_end_output_def f)
  show h: "minds True [] (fst (kill_minicap who k pid kindly s))" for k pid kindly by (simp add: kill_minicap_def f g)
  show "minds True [] (fst (stop_minicap who s))" by (simp add: stop_minicap_def f h split: option.split)
qed

lemma clients_keep:
  assumes "\<not> so_scrcpy opts" and "minds True [] s"
  shows "minds True [] (fst (connection i user s))" "minds True [] (fst (group_checked opts i retried ans s))"
    "minds True [] (fst (ws_message opts i data s))" "minds True [] (fst (client_gone opts r i s))" "minds True [] (fst (ping_client opts i s))"
proof -
  note conn = keeps_conn [OF assms(2)]
  have l: "minds True [] (fst (listen opts j t))" if t: "minds True [] t" for j t
    by (rule minds_same [OF t]) (simp_all add: listen_def set_conn_def split: option.split)
  have r: "minds True [] (fst (and_then (ws_refused i c m n s) (listen opts i)))" for c m n
    using l conn keeps_alive [OF conn] by (simp add: and_then_def ws_refused_def Let_def)
  have p: "minds True [] (fst (and_then (set_conn i c s, out) (listen opts i)))" for c out
    using l conn keeps_alive [OF conn] by (simp add: and_then_def Let_def)
  show "minds True [] (fst (connection i user s))"
    using conn later_still [OF conn] assms(2) by (simp add: connection_def split: option.split)
  show "minds True [] (fst (group_checked opts i retried ans s))"
    using r p assms(2) later_still [OF assms(2)] by (simp add: group_checked_def split: option.split group_answer.split)
  have u: "minds True [] (fst (updateProjection opts w h s))" for w h
  proof -
    have "minds True [] (s\<lparr>sc_config := c\<rparr>)" for c by (rule minds_same [OF assms(2)]) simp_all
    then show ?thesis using wishes_keep(3) [OF assms(1)] assms(2) by (simp add: updateProjection_def)
  qed
  show "minds True [] (fst (ws_message opts i data s))"
    using assms u broadcast_insert_keeps broadcast_remove_keeps by (simp add: ws_message_def split: option.split screen_request.split)
  show "minds True [] (fst (client_gone opts r i s))"
    using assms conn broadcast_remove_keeps by (simp add: client_gone_def split: option.split)
  show "minds True [] (fst (ping_client opts i s))"
    using assms ws_send_keeps by (simp add: ping_client_def split: option.split)
qed

lemma config_keeps:
  assumes "\<not> so_scrcpy opts" and "minds True [] s"
  shows "minds True [] (fst (updateRotation opts r s))" "minds True [] (fst (changeQuality opts q s))"
proof -
  have "minds True [] (s\<lparr>sc_config := c\<rparr>)" for c by (rule minds_same [OF assms(2)]) simp_all
  then show "minds True [] (fst (updateRotation opts r s))" "minds True [] (fst (changeQuality opts q s))"
    using wishes_keep(3) [OF assms(1)] assms(2) by (simp_all add: updateRotation_def changeQuality_def)
qed

lemma one_moves_back: "length (xs @ ys @ zs) \<le> 1 \<Longrightarrow> (xs @ zs) @ ys = xs @ ys @ zs"
  by (cases ys; cases zs) auto

text \<open>Taking a task out of the list: the code that runs now stands for it.\<close>

lemma take_task:
  assumes "minds True [] s" and "k < length (sc_tasks s)"
  shows "minds (sc_tasks s ! k \<noteq> EnsureTask) (phase (sc_tasks s ! k)) (s\<lparr>sc_tasks := remove_nth k (sc_tasks s)\<rparr>)"
    and "sc_tasks s ! k \<noteq> ScrcpyTask"
proof -
  obtain ts us t where s: "sc_tasks s = ts @ t # us" "length ts = k" "sc_tasks s ! k = t"
    using id_take_nth_drop [OF assms(2)] assms(2) by (metis length_take min.absorb4)
  then have r: "remove_nth k (sc_tasks s) = ts @ us" by (simp add: remove_nth_def)
  have b: "base [] s" "heeded s" using assms(1) by (simp_all add: minds_def)
  then have p: "phases s = concat (map phase ts) @ phase t @ concat (map phase us)" by (simp add: phases_def s(1))
  have "length (phases s) \<le> 1" using b(1) by (simp add: base_def)
  then have q: "concat (map phase (ts @ us)) @ phase t = phases s" unfolding p
    using one_moves_back [of "concat (map phase ts)" "phase t" "concat (map phase us)"] by simp
  then have "base (phase t) (s\<lparr>sc_tasks := ts @ us\<rparr>)" using b(1) s(1) by (simp add: base_def phases_def)
  moreover have "t \<noteq> EnsureTask \<longrightarrow> heeded (s\<lparr>sc_tasks := ts @ us\<rparr>)" using b(2) s(1) by (auto simp: heeded_def)
  ultimately show "minds (sc_tasks s ! k \<noteq> EnsureTask) (phase (sc_tasks s ! k)) (s\<lparr>sc_tasks := remove_nth k (sc_tasks s)\<rparr>)"
    using s(3) r by (simp add: minds_def)
  show "sc_tasks s ! k \<noteq> ScrcpyTask" using b(1) assms(2) by (metis base_def nth_mem)
qed

lemma resume_good:
  assumes o: "\<not> so_scrcpy opts" and k: "minds (t \<noteq> EnsureTask) (phase t) s" and "t \<noteq> ScrcpyTask"
  shows "good (fst (resume_screen opts t ans now s))"
proof (cases t)
  case (PidTask b)
  then show ?thesis using k by (auto simp: good_keeps start_fails_keeps connect_minicap_keeps later_moving split: screen_answer.split)
next
  case (BannerTask j r)
  then show ?thesis using k o
    by (auto simp: good_keeps start_fails_keeps banner_there_good later_moving split: screen_answer.split banner_result.split)
next
  case (DisconnectTask who)
  then show ?thesis using k by (auto simp: good_keeps good_exit stopping_tasks_keep(3) split: screen_answer.split)
next
  case (KillTask who j pid kindly)
  then have w: "minds True [if who = StopRequested then STATE_STOPPING else STATE_STARTING] s" using k by simp
  show ?thesis unfolding KillTask using stopping_tasks_keep(1,2) [OF w] stop_done_good [OF o w]
    by (simp add: good_keeps split: screen_answer.split)
next
  case (StoppedTask who)
  then show ?thesis using k stop_done_good [OF o, of True who s] by simp
next
  case EnsureTask
  then show ?thesis using k good_keeps [OF ensure_keeps [OF o]] by simp
next
  case NextTask
  then show ?thesis using k good_keeps [OF on_readable_keeps [OF o]] by simp
next
  case (GroupTask i retried)
  then show ?thesis using k clients_keep(2) [OF o] by (simp add: good_keeps)
qed (use assms(3) k in \<open>auto simp: good_keeps start_fails_keeps service_runs_keeps minicap_connected_keeps connect_failed_keeps connect_minicap_keeps
  split: screen_answer.split\<close>)

lemma raw_data_keeps: "\<not> so_scrcpy opts \<Longrightarrow> minds a ps s \<Longrightarrow> minds a ps (fst (run (\<lambda>t i. ws_send opts i (Binary d) t) s is))"
  by (rule run_keeps) (rule ws_send_keeps)

lemma screen_step_good: "\<not> so_scrcpy opts \<Longrightarrow> good s \<Longrightarrow> good (fst (screen_step opts s e))"
proof (cases "sc_alive s")
  case False
  then show "good s \<Longrightarrow> ?thesis" by (simp add: screen_step_def)
next
  case True
  assume o: "\<not> so_scrcpy opts" and "good s"
  then have k: "minds True [] s" using True by (simp add: good_def)
  note all = clients_keep [OF o k] config_keeps [OF o k] wishes_keep [OF o k] broadcast_insert_keeps [OF o k] broadcast_remove_keeps [OF o k]
    socket_data_keeps [OF o k] raw_data_keeps [OF o k]
  show ?thesis
  proof (cases e)
    case (ResumeTask j ans now)
    then show ?thesis using True k resume_good [OF o take_task [OF k]] by (simp add: screen_step_def good_keeps)
  qed (use True k in \<open>simp_all add: screen_step_def good_keeps all output_line_good stream_ended_good o\<close>)
qed

lemma new_good: "good (screen_new grabber config)"
  by (simp add: good_def minds_def base_def heeded_def phases_def screen_new_def)

text \<open>The machine without scrcpy; with it, see below.\<close>

definition minicap_step :: "int \<Rightarrow> screen \<Rightarrow> screen_event \<Rightarrow> screen \<times> screen_out list" where
  "minicap_step rate = screen_step \<lparr>so_scrcpy = False, so_rate = rate\<rparr>"

interpretation producer: invariant_machine "minicap_step rate" good for rate
  by unfold_locales (simp add: minicap_step_def screen_step_good)

text \<open>
  No wish is forgotten: in every reachable state of a process that has not ended, a state that the producer should still reach is
  looked after by a start or a stop under way or by a scheduled look; the producer is starting or stopping exactly when one such task is under way;
  and a started producer has its socket and its parser.
\<close>

theorem wishes_are_heeded:
  assumes "sc_alive (fst (run (minicap_step rate) (screen_new grabber config) es))"
  shows "heeded (fst (run (minicap_step rate) (screen_new grabber config) es)) \<and>
    base [] (fst (run (minicap_step rate) (screen_new grabber config) es))"
  using producer.always_run [OF new_good, of rate grabber config es] assms by (simp add: good_def minds_def)

section \<open>A screen that is watched is on\<close>

text \<open>
  \<open>aim\<close> is the state the producer ends in when nothing more is asked of it. \<open>keen\<close>: it is the started one while somebody
  watches; no task follows a failed start; a banner is only waited for with a socket.
\<close>

definition aim :: "screen \<Rightarrow> run_state" where
  "aim s = (if sc_desired s \<noteq> [] then last (sc_desired s)
     else if sc_running s \<in> {STATE_STARTING, STATE_STARTED} then STATE_STARTED else STATE_STOPPED)"

definition reading_ok :: "banner_reader \<Rightarrow> bool" where
  "reading_ok t \<longleftrightarrow> br_read t = 0 \<and> br_need t = 2 \<or> br_read t = 2"

fun fine :: "screen_task \<Rightarrow> bool" where
  "fine (DisconnectTask who) = (who = StopRequested)"
| "fine (KillTask who k pid kindly) = (who = StopRequested)"
| "fine (StoppedTask who) = (who = StopRequested)"
| "fine (BannerTask k r) = (case r of Reading t \<Rightarrow> reading_ok t | Resolved b \<Rightarrow> True | Impossible \<Rightarrow> False)"
| "fine _ = True"

fun is_banner :: "screen_task \<Rightarrow> bool" where
  "is_banner (BannerTask k r) = True"
| "is_banner _ = False"

definition keen :: "screen \<Rightarrow> bool" where
  "keen s \<longleftrightarrow> list_all fine (sc_tasks s) \<and> (list_ex is_banner (sc_tasks s) \<longrightarrow> sc_socket s \<noteq> None) \<and>
     (sc_viewers s \<noteq> [] \<longrightarrow> aim s = STATE_STARTED)"

lemma aim_cong: "sc_running t = sc_running s \<Longrightarrow> sc_desired t = sc_desired s \<Longrightarrow> aim t = aim s"
  by (simp add: aim_def)

lemma aim_same: "aim (later t s) = aim s" "aim (will_end k s) = aim s" "aim (s\<lparr>sc_heard := h\<rparr>) = aim s" "aim (s\<lparr>sc_viewers := v\<rparr>) = aim s"
  by (rule aim_cong; simp add: later_def will_end_def)+

lemma keen_same:
  "keen s \<Longrightarrow> sc_running t = sc_running s \<Longrightarrow> sc_desired t = sc_desired s \<Longrightarrow> sc_tasks t = sc_tasks s \<Longrightarrow> sc_socket t = sc_socket s \<Longrightarrow>
   sc_viewers t = sc_viewers s \<Longrightarrow> keen t"
  using aim_cong [of t s] by (simp add: keen_def)

lemma keen_later: "keen s \<Longrightarrow> fine t \<Longrightarrow> \<not> is_banner t \<Longrightarrow> keen (later t s)"
  using aim_same(1) [of t s] by (simp add: keen_def later_def)

lemma keen_end: "keen s \<Longrightarrow> keen (will_end k s)"
  by (rule keen_same) (simp_all add: will_end_def)

lemma keen_disconnect: "keen s \<Longrightarrow> keen (fst (disconnect StopRequested s))"
proof -
  assume k: "keen s"
  then have "keen (s\<lparr>sc_heard := h\<rparr>)" for h by (rule keen_same) simp_all
  then show ?thesis using k keen_later keen_end by (simp add: disconnect_def split: option.split)
qed

lemma keen_take:
  assumes "keen s"
  shows "sc_running s = STATE_STOPPED \<Longrightarrow> sc_desired s = STATE_STARTED # ds \<Longrightarrow> keen (s\<lparr>sc_desired := ds, sc_running := STATE_STARTING\<rparr>)"
    and "sc_running s = STATE_STARTED \<Longrightarrow> sc_desired s = STATE_STOPPED # ds \<Longrightarrow> keen (s\<lparr>sc_desired := ds, sc_running := STATE_STOPPING\<rparr>)"
    and "sc_running s = STATE_STOPPED \<Longrightarrow> sc_desired s = d # ds \<Longrightarrow> d \<noteq> STATE_STARTED \<Longrightarrow> keen (s\<lparr>sc_desired := ds\<rparr>)"
    and "sc_running s = STATE_STARTED \<Longrightarrow> sc_desired s = d # ds \<Longrightarrow> d \<noteq> STATE_STOPPED \<Longrightarrow> keen (s\<lparr>sc_desired := ds\<rparr>)"
  using assms by (auto simp: keen_def aim_def split: if_splits)

lemma keen_ensure: "\<not> so_scrcpy opts \<Longrightarrow> keen s \<Longrightarrow> keen (fst (ensure opts s))"
proof -
  assume o: "\<not> so_scrcpy opts" and k: "keen s"
  show ?thesis
  proof (cases "sc_desired s = [] \<or> sc_failed s \<or> sc_running s \<in> {STATE_STARTING, STATE_STOPPING}")
    case True
    then show ?thesis using k by (auto simp: ensure_def)
  next
    case False
    then obtain d ds where d: "sc_desired s = d # ds" by (cases "sc_desired s") auto
    from False consider "sc_running s = STATE_STOPPED" | "sc_running s = STATE_STARTED" by (cases "sc_running s") auto
    then show ?thesis
    proof cases
      case 1
      show ?thesis
      proof (cases "d = STATE_STARTED")
        case True
        then show ?thesis using 1 False o d keen_later [OF keen_take(1) [OF k 1], of ds RunTask]
          by (simp add: ensure_def next_desired_def stq_next_def start_minicap_def Let_def)
      next
        case neq: False
        then show ?thesis using 1 False d keen_later [OF keen_take(3) [OF k 1 d], of EnsureTask]
          by (simp add: ensure_def next_desired_def stq_next_def Let_def)
      qed
    next
      case 2
      show ?thesis
      proof (cases "d = STATE_STOPPED")
        case True
        then show ?thesis using 2 False d keen_disconnect [OF keen_take(2) [OF k 2], of ds]
          by (simp add: ensure_def next_desired_def stq_next_def Let_def)
      next
        case neq: False
        then show ?thesis using 2 False d keen_later [OF keen_take(4) [OF k 2 d], of EnsureTask]
          by (simp add: ensure_def next_desired_def stq_next_def Let_def)
      qed
    qed
  qed
qed

lemma aim_wish: "aim (wish d s) = d"
  using stq_push_last [of "sc_desired s" d] by (simp add: aim_def wish_def)

lemma keen_tasks: "keen s \<Longrightarrow> list_all fine (sc_tasks s) \<and> (list_ex is_banner (sc_tasks s) \<longrightarrow> sc_socket s \<noteq> None)"
  by (simp add: keen_def)

lemma keen_wish:
  "list_all fine (sc_tasks s) \<Longrightarrow> (list_ex is_banner (sc_tasks s) \<longrightarrow> sc_socket s \<noteq> None) \<Longrightarrow> d = STATE_STARTED \<or> sc_viewers s = [] \<Longrightarrow> keen (wish d s)"
  using aim_wish [of d s] by (auto simp: keen_def wish_def)

lemma keen_wishes:
  assumes "\<not> so_scrcpy opts" and "list_all fine (sc_tasks s)" and "list_ex is_banner (sc_tasks s) \<longrightarrow> sc_socket s \<noteq> None"
  shows "keen (fst (producer_start opts s))" "sc_viewers s = [] \<Longrightarrow> keen (fst (producer_stop opts s))"
    "keen s \<Longrightarrow> keen (fst (producer_restart opts s))"
proof -
  note e = keen_ensure [OF assms(1)]
  show "keen (fst (producer_start opts s))" unfolding producer_start_def by (rule e) (simp add: keen_wish assms)
  show "sc_viewers s = [] \<Longrightarrow> keen (fst (producer_stop opts s))" unfolding producer_stop_def by (rule e) (simp add: keen_wish assms)
  have "keen (wish STATE_STARTED (wish STATE_STOPPED s))" by (rule keen_wish) (simp_all add: wish_def assms)
  then show "keen s \<Longrightarrow> keen (fst (producer_restart opts s))" using e by (simp add: producer_restart_def)
qed

lemma keen_conn: "keen s \<Longrightarrow> keen (set_conn i c s)"
  by (rule keen_same) (simp_all add: set_conn_def)

lemma keen_fewer: "keen s \<Longrightarrow> keen (s\<lparr>sc_viewers := om_del i (sc_viewers s)\<rparr>)"
  using aim_same(4) [where s = s] by (auto simp: keen_def om_del_def)

lemma keen_remove: "\<not> so_scrcpy opts \<Longrightarrow> keen s \<Longrightarrow> keen (fst (broadcast_remove opts i s))"
proof -
  assume o: "\<not> so_scrcpy opts" and k: "keen s"
  have "keen (fst (producer_stop opts (s\<lparr>sc_viewers := []\<rparr>)))"
    by (rule keen_wishes(2) [OF o]) (use keen_tasks [OF k] in simp_all)
  then show ?thesis using k keen_fewer [OF k] by (simp add: broadcast_remove_def Let_def)
qed

lemma keen_send: "\<not> so_scrcpy opts \<Longrightarrow> keen s \<Longrightarrow> keen (fst (ws_send opts i m s))"
  using keen_conn keen_remove by (auto simp: ws_send_def split: option.split ready.split)

lemma keen_on: "\<not> so_scrcpy opts \<Longrightarrow> keen s \<Longrightarrow> keen (fst (on_start opts s i))" "\<not> so_scrcpy opts \<Longrightarrow> keen s \<Longrightarrow> keen (fst (on_frame opts f s i))"
  using keen_send by (auto simp: on_start_def on_frame_def split: option.split viewer.split)

lemma keen_run: "(\<And>t i. keen t \<Longrightarrow> keen (fst (f t i))) \<Longrightarrow> keen s \<Longrightarrow> keen (fst (run f s is))"
  by (induction "is" arbitrary: s) (simp_all add: Let_def)

lemma keen_emit: "\<not> so_scrcpy opts \<Longrightarrow> keen s \<Longrightarrow> keen (fst (emit_start opts s))"
  unfolding emit_start_def by (rule keen_run) (rule keen_on(1))

lemma keen_broadcast: "\<not> so_scrcpy opts \<Longrightarrow> keen s \<Longrightarrow> keen (fst (broadcast_frame opts f s))"
  unfolding broadcast_frame_def by (rule keen_run) (rule keen_on(2))

text \<open>A new viewer: the one who is inserted may be found closed at once and be removed again.\<close>

lemma om_del_new: "\<not> om_has m i \<Longrightarrow> om_del i (om_set i v m) = m"
  by (induction m) (auto simp: om_has_def om_get_def om_del_def om_set_def split: if_splits)

lemma on_start_cases: "fst (on_start opts s i) = s \<or> (\<exists>c. fst (on_start opts s i) = fst (broadcast_remove opts i (set_conn i c s)))"
  by (auto simp: on_start_def ws_send_def split: option.split viewer.split ready.split)

lemma keen_insert: "\<not> so_scrcpy opts \<Longrightarrow> sc_alive s \<Longrightarrow> keen s \<Longrightarrow> keen (fst (broadcast_insert opts i v s))"
proof (cases "om_has (sc_viewers s) i")
  case True
  then show "keen s \<Longrightarrow> ?thesis" by (simp add: broadcast_insert_def)
next
  case False
  assume o: "\<not> so_scrcpy opts" and alive: "sc_alive s" and k: "keen s"
  let ?s = "s\<lparr>sc_viewers := om_set i v (sc_viewers s)\<rparr>"
  have start: "keen (fst (producer_start opts (t\<lparr>sc_conns := c\<rparr>)))" if "t = ?s" for t c
    by (rule keen_wishes(1) [OF o]) (use keen_tasks [OF k] that in simp_all)
  have here: "keen (fst (if length (sc_viewers ?s) = 1 then producer_start opts ?s else (?s, [])))"
  proof (cases "sc_viewers s = []")
    case True
    then show ?thesis using start [of ?s "sc_conns s"] by (simp add: om_set_def)
  next
    case nonempty: False
    then have "keen ?s" using k aim_same(4) [where s = s] by (simp add: keen_def)
    then show ?thesis using start [of ?s "sc_conns s"] by simp
  qed
  have gone: "keen (fst (broadcast_remove opts i (set_conn i c ?s)))" for c
  proof -
    have "keen (s\<lparr>sc_conns := x\<rparr>)" "sc_viewers s = [] \<Longrightarrow> keen (fst (producer_stop opts (s\<lparr>sc_conns := x\<rparr>)))" for x
    proof -
      show "keen (s\<lparr>sc_conns := x\<rparr>)" by (rule keen_same [OF k]) simp_all
      show "sc_viewers s = [] \<Longrightarrow> keen (fst (producer_stop opts (s\<lparr>sc_conns := x\<rparr>)))"
        by (rule keen_wishes(2) [OF o]) (use keen_tasks [OF k] in simp_all)
    qed
    then show ?thesis using om_del_new [OF False] by (simp add: broadcast_remove_def set_conn_def Let_def)
  qed
  have next_keen: "keen (fst (if length (sc_viewers t) = 1 then producer_start opts t else (t, [])))" if "keen t" for t
    using that keen_wishes(1) [OF o] keen_tasks [OF that] by auto
  have "keen (fst (and_then (on_start opts ?s i) (\<lambda>t. if length (sc_viewers t) = 1 then producer_start opts t else (t, []))))"
  proof (cases "fst (on_start opts ?s i) = ?s")
    case True
    then show ?thesis using here alive by (auto simp: and_then_def Let_def split: if_splits)
  next
    case False
    then obtain c where "fst (on_start opts ?s i) = fst (broadcast_remove opts i (set_conn i c ?s))" using on_start_cases [of opts ?s i] by auto
    then have "keen (fst (on_start opts ?s i))" using gone by simp
    then show ?thesis using next_keen by (simp add: and_then_def Let_def)
  qed
  moreover have "keen (fst (and_then (?s, []) (\<lambda>t. if length (sc_viewers t) = 1 then producer_start opts t else (t, []))))"
    using here alive by (auto simp: and_then_def Let_def split: if_splits)
  ultimately show ?thesis using False by (simp add: broadcast_insert_def Let_def)
qed

lemma keen_next: "keen s \<Longrightarrow> keen (snd (next_frame s))"
  by (rule keen_same) (simp_all add: next_frame_same)

lemma keen_readable: "\<not> so_scrcpy opts \<Longrightarrow> keen s \<Longrightarrow> keen (fst (on_readable opts s))"
proof -
  assume o: "\<not> so_scrcpy opts" and k: "keen s"
  show ?thesis
  proof (cases rule: on_readable_cases [of s opts])
    case (frame f s1)
    then have "keen s1" using keen_next [OF k] by simp
    then show ?thesis using frame(2) keen_later keen_broadcast [OF o] by simp
  next
    case (empty s1)
    then have "keen s1" using keen_next [OF k] by simp
    then have "keen (s1\<lparr>sc_needs := True\<rparr>)" by (rule keen_same) simp_all
    then show ?thesis using empty(3) by simp
  qed (simp add: k)
qed

lemma keen_listener: "\<not> so_scrcpy opts \<Longrightarrow> keen s \<Longrightarrow> keen (fst (readable_listener opts s))"
proof -
  assume o: "\<not> so_scrcpy opts" and k: "keen s"
  have "keen (s\<lparr>sc_readable := True\<rparr>)" "keen (s\<lparr>sc_readable := True, sc_needs := False\<rparr>)" by (rule keen_same [OF k]; simp)+
  then show ?thesis using keen_readable [OF o] by (simp add: readable_listener_def maybe_emit_readable_def)
qed

text \<open>The banner reader only ever is between its first two bytes and the rest, so it never rejects.\<close>

lemma try_read_fine: "reading_ok t \<Longrightarrow> fine (BannerTask k (fst (try_read t b)))"
proof -
  have two: "fine (BannerTask k (fst (try_read t b)))" if t: "br_read t = 2" for t b
  proof (cases "read_exactly (br_need t - br_read t) b")
    case None
    then show ?thesis using t by (simp add: try_read.simps [of t] reading_ok_def)
  next
    case (Some x)
    obtain c r where x: "x = (c, r)" by (cases x)
    then have c: "length c = br_need t - br_read t" "0 < br_need t - br_read t" using Some by (auto simp: read_exactly_def split: if_splits)
    then have "banner_chunk c t = Resolved (br_banner (scan c t))" using t by (intro banner_chunk_scan) auto
    then show ?thesis using Some x by (simp add: try_read.simps [of t])
  qed
  have first: "fine (BannerTask k (fst (try_read t b)))" if t: "br_read t = 0" "br_need t = 2" for t
  proof (cases "length b < 2")
    case True
    then show ?thesis using t by (simp add: try_read.simps [of t] read_exactly_def reading_ok_def)
  next
    case False
    then obtain v l r where b: "b = v # l # r" using two_bytes [of b] by auto
    let ?s = "take_byte l (take_byte v t)"
    have s: "br_read ?s = 2" "br_need (take_byte v t) = 2" "br_read (take_byte v t) = 1" using t by (simp_all add: take_byte_def)
    have "banner_chunk [v, l] t = (if br_need ?s = 2 then Resolved (br_banner ?s) else Reading ?s)"
      using t s by (simp add: Let_def)
    then have "fst (try_read t b) = (if br_need ?s = 2 then Resolved (br_banner ?s) else fst (try_read ?s r))"
      using t b by (simp add: try_read.simps [of t] read_exactly_def numeral_2_eq_2 del: banner_chunk.simps)
    then show ?thesis using two [OF s(1), of r] by (simp del: fine.simps) simp
  qed
  show "reading_ok t \<Longrightarrow> ?thesis" using two [of t b] first [of t] by (auto simp: reading_ok_def simp del: fine.simps)
qed

lemma banner_data_fine: "fine t \<Longrightarrow> fine (fst (banner_data k b t))" "is_banner (fst (banner_data k b t)) = is_banner t"
proof -
  have r: "fine (BannerTask j (Reading r)) \<Longrightarrow> fine (BannerTask j (fst (try_read r b)))" for j r by (rule try_read_fine) simp
  have "fine (BannerTask j x) \<Longrightarrow> fine (fst (banner_data k b (BannerTask j x)))" for j x
    by (cases x) (auto simp: banner_data_def Let_def r simp del: fine.simps(4))
  then show "fine t \<Longrightarrow> fine (fst (banner_data k b t))"
    by (cases t) (simp_all add: banner_data_def del: fine.simps(4))
  show "is_banner (fst (banner_data k b t)) = is_banner t"
    by (simp add: banner_data_def Let_def split: screen_task.split banner_result.split)
qed

lemma keen_data: "\<not> so_scrcpy opts \<Longrightarrow> keen s \<Longrightarrow> keen (fst (socket_data opts k c s))"
proof -
  assume o: "\<not> so_scrcpy opts" and k: "keen s"
  have "list_all fine (fst (banner_tasks k b ts))" if "list_all fine ts" for b ts
    using that by (induction ts arbitrary: b) (simp_all add: Let_def banner_data_fine)
  moreover have "list_ex is_banner (fst (banner_tasks k b ts)) = list_ex is_banner ts" for b ts
    by (induction ts arbitrary: b) (simp_all add: Let_def banner_data_fine)
  ultimately have "keen (s\<lparr>sc_tasks := fst (banner_tasks k b (sc_tasks s)), sc_buffer := w\<rparr>)" for b w
    using k by (simp add: keen_def aim_cong [of "s\<lparr>sc_tasks := fst (banner_tasks k b (sc_tasks s)), sc_buffer := w\<rparr>" s])
  then show ?thesis using k keen_listener [OF o] by (simp add: socket_data_def Let_def)
qed

lemma keen_line: "keen s \<Longrightarrow> keen (fst (output_line k line s))"
proof -
  assume k: "keen s"
  have p: "fine (pid_known t) = fine t" "is_banner (pid_known t) = is_banner t" for t by (cases t; simp)+
  have l: "list_all fine (map pid_known ts) = list_all fine ts" "list_ex is_banner (map pid_known ts) = list_ex is_banner ts" for ts
    by (induction ts) (simp_all add: p)
  have "keen (s\<lparr>sc_pid := x, sc_tasks := map pid_known (sc_tasks s)\<rparr>)" for x
    using k l by (simp add: keen_def aim_cong [of "s\<lparr>sc_pid := x, sc_tasks := map pid_known (sc_tasks s)\<rparr>" s])
  moreover have "keen (s\<lparr>sc_alive := False\<rparr>)" by (rule keen_same [OF k]) simp_all
  ultimately show ?thesis using k by (simp add: output_line_def exit_process_def split: option.split)
qed

text \<open>Starting without failures, and the stop of a started service.\<close>

lemma keen_start:
  assumes k: "keen s"
  shows "keen (fst (service_runs s))" "keen (fst (connect_minicap n d s))" "keen (fst (minicap_connected s))"
proof -
  have "keen (s\<lparr>sc_opened := m, sc_output := x, sc_piped := p\<rparr>)" for m x p by (rule keen_same [OF k]) simp_all
  then show "keen (fst (service_runs s))" using keen_later by (simp add: service_runs_def open_stream_def)
  show "keen (fst (connect_minicap n d s))" using k keen_later by (simp add: connect_minicap_def)
  show "keen (fst (minicap_connected s))"
    using k by (auto simp: minicap_connected_def open_stream_def keen_def later_def aim_def reading_ok_def banner_start_def split: if_splits)
qed

lemma keen_started: "keen s \<Longrightarrow> sc_running s = STATE_STARTING \<Longrightarrow> keen (s\<lparr>sc_running := STATE_STARTED\<rparr>)"
  by (auto simp: keen_def aim_def)

lemma keen_banner_there:
  assumes o: "\<not> so_scrcpy opts" and a: "minds a [STATE_STARTING] s" and k: "keen s" and j: "sc_socket s = Some j"
  shows "keen (fst (banner_there opts b s))"
proof -
  have b: "minds a [STATE_STARTING] (s\<lparr>sc_banner := Some b\<rparr>)" by (rule minds_same [OF a]) simp_all
  let ?r = "read_frames opts j (s\<lparr>sc_banner := Some b\<rparr>)"
  have "keen (s\<lparr>sc_banner := Some b, sc_needs := True, sc_heard := h\<rparr>)" for h by (rule keen_same [OF k]) simp_all
  then have "keen (fst ?r)" using keen_listener [OF o] by (simp add: read_frames_def)
  moreover have "sc_running (fst ?r) = STATE_STARTING" using keeps_phase [OF read_frames_keeps(1) [OF o b]] by simp
  ultimately have e: "keen (fst (emit_start opts ((fst ?r)\<lparr>sc_running := STATE_STARTED\<rparr>)))" using keen_started keen_emit [OF o] by blast
  have "sc_alive (fst ?r)" by (rule keeps_alive [OF read_frames_keeps(1) [OF o b]])
  then have r: "fst (and_then ?r (\<lambda>t. emit_start opts (t\<lparr>sc_running := STATE_STARTED\<rparr>))) =
      fst (emit_start opts ((fst ?r)\<lparr>sc_running := STATE_STARTED\<rparr>))" by (simp add: and_then_def Let_def)
  show ?thesis using j e keen_ensure [OF o e]
    by (simp add: banner_there_def Let_def) (simp add: and_then_def [of "and_then ?r _"] r Let_def)
qed

lemma keen_cleared: "minds a [STATE_STOPPING] s \<Longrightarrow> keen s \<Longrightarrow> keen (cleared s)"
proof -
  assume a: "minds a [STATE_STOPPING] s" and k: "keen s"
  have p: "phases s = []" "sc_running s = STATE_STOPPING" using keeps_phase [OF a] by simp_all
  have "phase t \<noteq> []" if "is_banner t" for t using that by (cases t) simp_all
  then have "\<not> list_ex is_banner (sc_tasks s)" using p(1) by (auto simp: phases_def list_ex_iff)
  then show ?thesis using k p(2) by (auto simp: keen_def aim_def cleared_def split: if_splits)
qed

lemma keen_stop:
  assumes o: "\<not> so_scrcpy opts" and a: "minds a [STATE_STOPPING] s" and k: "keen s"
  shows "keen (fst (stop_done opts StopRequested now s))" "keen (fst (force_end_output StopRequested j s))"
    "keen (fst (kill_minicap StopRequested j pid kindly s))" "keen (fst (stop_minicap StopRequested s))"
proof -
  show "keen (fst (stop_done opts StopRequested now s))"
    using keen_ensure [OF o keen_cleared [OF a k]] by (simp add: stop_done_def)
  show f: "keen (fst (force_end_output StopRequested j s))" for j using keen_later keen_end [OF k] by (simp add: force_end_output_def)
  show g: "keen (fst (kill_minicap StopRequested j pid kindly s))" for j pid kindly
    using f keen_later keen_end [OF k] by (simp add: kill_minicap_def)
  show "keen (fst (stop_minicap StopRequested s))" using g keen_later [OF k] by (simp add: stop_minicap_def split: option.split)
qed

lemma keen_config: "\<not> so_scrcpy opts \<Longrightarrow> keen s \<Longrightarrow> keen (fst (producer_restart opts (s\<lparr>sc_config := c\<rparr>)))"
proof -
  assume o: "\<not> so_scrcpy opts" and k: "keen s"
  have "keen (s\<lparr>sc_config := c\<rparr>)" by (rule keen_same [OF k]) simp_all
  then show ?thesis using keen_wishes(3) [OF o] keen_tasks by blast
qed

lemma keen_clients:
  assumes o: "\<not> so_scrcpy opts" and alive: "sc_alive s" and k: "keen s"
  shows "keen (fst (connection i user s))" "keen (fst (group_checked opts i retried ans s))"
    "keen (fst (ws_message opts i data s))" "keen (fst (client_gone opts r i s))" "keen (fst (ping_client opts i s))"
proof -
  note conn = keen_conn [OF k]
  have l: "keen (fst (listen opts j t))" if t: "keen t" for j t
    by (rule keen_same [OF t]) (simp_all add: listen_def set_conn_def split: option.split)
  have p: "keen (fst (and_then (set_conn i c s, out) (listen opts i)))" for c out
    using l conn by (simp add: and_then_def Let_def)
  then have r: "keen (fst (and_then (ws_refused i c m n s) (listen opts i)))" for c m n by (simp add: ws_refused_def)
  show "keen (fst (connection i user s))"
    using conn keen_later [OF conn] k by (simp add: connection_def split: option.split)
  show "keen (fst (group_checked opts i retried ans s))"
    using r p k keen_later [OF k] by (simp add: group_checked_def split: option.split group_answer.split)
  show "keen (fst (ws_message opts i data s))"
    using k keen_insert [OF o alive k] keen_remove [OF o k] keen_config [OF o k]
    by (simp add: ws_message_def updateProjection_def split: option.split screen_request.split)
  show "keen (fst (client_gone opts r i s))"
    using k conn keen_remove [OF o] by (simp add: client_gone_def split: option.split)
  show "keen (fst (ping_client opts i s))"
    using k keen_send [OF o] by (simp add: ping_client_def split: option.split)
qed

text \<open>The events of a calm run: no answer is a failure and nobody shuts the unit down.\<close>

fun calm :: "screen_event \<Rightarrow> bool" where
  "calm GracefulStop = False"
| "calm (ResumeTask k (Fails msg) now) = False"
| "calm _ = True"

lemma keen_resume:
  assumes o: "\<not> so_scrcpy opts" and a: "minds (t \<noteq> EnsureTask) (phase t) s" and k: "keen s" and t: "fine t" "is_banner t \<Longrightarrow> sc_socket s \<noteq> None"
    and ans: "\<not> (\<exists>msg. ans = Fails msg)" and "t \<noteq> ScrcpyTask"
  shows "keen (fst (resume_screen opts t ans now s))"
proof -
  have c: "(case ans of Fails msg \<Rightarrow> x msg | Done \<Rightarrow> y | Group g \<Rightarrow> y) = y" for x :: "string \<Rightarrow> screen \<times> screen_out list" and y using ans by (cases ans) simp_all
  note start = keen_start [OF k]
  have alive: "sc_alive s" by (rule keeps_alive [OF a])
  show ?thesis
  proof (cases t)
    case (PidTask known)
    then show ?thesis using start(2) keen_later [OF k] by (simp add: c)
  next
    case (BannerTask j r)
    then obtain i where i: "sc_socket s = Some i" using t(2) by auto
    have "minds (t \<noteq> EnsureTask) [STATE_STARTING] s" using a BannerTask by simp
    note there = keen_banner_there [OF o this k i]
    have "keen (later (BannerTask j r) s)" using k i t(1) BannerTask aim_same(1) [of "BannerTask j r" s] by (simp add: keen_def later_def)
    then show ?thesis using BannerTask there t(1) by (cases r) (simp_all add: c)
  next
    case (DisconnectTask who)
    then have w: "who = StopRequested" using t(1) by simp
    show ?thesis using keen_stop(4) [OF o _ k] a unfolding DisconnectTask w by (simp add: c)
  next
    case (KillTask who j pid kindly)
    then have w: "who = StopRequested" using t(1) by simp
    show ?thesis using keen_stop(1) [OF o _ k] a unfolding KillTask w by (simp add: c)
  next
    case (StoppedTask who)
    then have w: "who = StopRequested" using t(1) by simp
    show ?thesis using keen_stop(1) [OF o _ k] a unfolding StoppedTask w by simp
  next
    case EnsureTask
    then show ?thesis using keen_ensure [OF o k] by simp
  next
    case NextTask
    then show ?thesis using keen_readable [OF o k] by simp
  next
    case (GroupTask i retried)
    then show ?thesis using keen_clients(2) [OF o alive k] by simp
  qed (use start assms(7) in \<open>simp_all add: c\<close>)
qed

definition eager :: "screen \<Rightarrow> bool" where
  "eager s \<longleftrightarrow> (sc_alive s \<longrightarrow> minds True [] s \<and> keen s)"

lemma keen_removed: "keen s \<Longrightarrow> keen (s\<lparr>sc_tasks := remove_nth k (sc_tasks s)\<rparr>)"
proof -
  assume k: "keen s"
  have "set (remove_nth k (sc_tasks s)) \<subseteq> set (sc_tasks s)"
    unfolding remove_nth_def using set_take_subset set_drop_subset by fastforce
  then have "list_all fine (remove_nth k (sc_tasks s))" "list_ex is_banner (remove_nth k (sc_tasks s)) \<longrightarrow> sc_socket s \<noteq> None"
    using k by (auto simp: keen_def list_all_iff list_ex_iff)
  then show ?thesis using k aim_cong [of "s\<lparr>sc_tasks := remove_nth k (sc_tasks s)\<rparr>" s] by (simp add: keen_def)
qed

lemma keen_stream_ended:
  assumes o: "\<not> so_scrcpy opts" and alive: "sc_alive s" and k: "keen s"
  shows "sc_alive (fst (screen_stream_ended opts j now s)) \<longrightarrow> keen (fst (screen_stream_ended opts j now s))"
proof -
  have s: "keen (s\<lparr>sc_ended := e\<rparr>)" "keen (s\<lparr>sc_ended := e, sc_failures := vs\<rparr>)" for e vs by (rule keen_same [OF k]; simp)+
  have r: "keen (fst (producer_restart opts (s\<lparr>sc_ended := e, sc_failures := vs\<rparr>)))" for e vs
    using keen_wishes(3) [OF o] keen_tasks [OF s(2)] s(2) by blast
  have "sc_alive (fst (and_then (screen_failure now (s\<lparr>sc_ended := e\<rparr>)) (producer_restart opts))) \<longrightarrow>
      keen (fst (and_then (screen_failure now (s\<lparr>sc_ended := e\<rparr>)) (producer_restart opts)))" for e
    using screen_failure_cases [of now "s\<lparr>sc_ended := e\<rparr>"] r alive by (auto simp: and_then_def Let_def)
  then show ?thesis using s(1) k by (simp add: screen_stream_ended_def Let_def)
qed

lemma eager_step: "\<not> so_scrcpy opts \<Longrightarrow> eager s \<Longrightarrow> calm e \<Longrightarrow> eager (fst (screen_step opts s e))"
proof (cases "sc_alive s")
  case False
  then show "eager s \<Longrightarrow> ?thesis" by (simp add: screen_step_def)
next
  case True
  assume o: "\<not> so_scrcpy opts" and "eager s" and calm: "calm e"
  then have a: "minds True [] s" and k: "keen s" using True by (simp_all add: eager_def)
  have g: "good (fst (screen_step opts s e))" using screen_step_good [OF o] a by (simp add: good_keeps)
  note all = keen_clients [OF o True k] keen_config [OF o k] keen_insert [OF o True k] keen_remove [OF o k] keen_data [OF o k] keen_line [OF k]
  have "sc_alive (fst (screen_step opts s e)) \<longrightarrow> keen (fst (screen_step opts s e))"
  proof (cases e)
    case (RawData d)
    have "keen (fst (run (\<lambda>t i. ws_send opts i (Binary d) t) s is))" for "is"
      by (rule keen_run [OF _ k]) (rule keen_send [OF o])
    then show ?thesis using RawData True by (simp add: screen_step_def)
  next
    case (ScreenStreamEnds j now)
    then show ?thesis using keen_stream_ended [OF o True k] True by (simp add: screen_step_def)
  next
    case (ResumeTask j ans now)
    show ?thesis
    proof (cases "j < length (sc_tasks s)")
      case True
      let ?t = "sc_tasks s ! j"
      have mem: "?t \<in> set (sc_tasks s)" using True by simp
      then have f: "fine ?t" "is_banner ?t \<Longrightarrow> sc_socket s \<noteq> None" using k by (auto simp: keen_def list_all_iff list_ex_iff)
      have "\<not> (\<exists>msg. ans = Fails msg)" using calm ResumeTask by auto
      from keen_resume [OF o take_task(1) [OF a True] keen_removed [OF k] f(1) _ this take_task(2) [OF a True]] f(2)
      show ?thesis using ResumeTask True \<open>sc_alive s\<close> by (simp add: screen_step_def)
    next
      case False
      then show ?thesis using ResumeTask k \<open>sc_alive s\<close> by (simp add: screen_step_def)
    qed
  qed (use True k calm all in \<open>simp_all add: screen_step_def updateRotation_def changeQuality_def\<close>)
  then show ?thesis using g by (simp add: eager_def good_def)
qed

lemma new_eager: "eager (screen_new grabber config)"
  using new_good by (simp add: eager_def good_def keen_def screen_new_def)

interpretation viewing: guarded_machine "minicap_step rate" eager calm for rate
  by unfold_locales (simp add: minicap_step_def eager_step)

text \<open>
  C6. A screen that is watched is on: over any calm run (no answer of the device is a failure), whatever clients come and go, change the
  size or the rotation and whatever streams end, once no start, no stop and no scheduled look is under way, a
  producer that has a viewer is started, with its socket and its parser.
\<close>

theorem watched_screen_is_on:
  assumes "list_all calm es" and "s = fst (run (minicap_step rate) (screen_new grabber config) es)"
    and "sc_alive s" and "sc_viewers s \<noteq> []" and "phases s = []" and "EnsureTask \<notin> set (sc_tasks s)"
  shows "sc_running s = STATE_STARTED \<and> sc_socket s \<noteq> None \<and> sc_parser s \<noteq> None"
proof -
  have "minds True [] s" "keen s" using viewing.inv_run [OF new_eager assms(1), of rate grabber config] assms(2,3) by (simp_all add: eager_def)
  then have b: "base [] s" and d: "sc_desired s = [] \<or> sc_running s \<in> {STATE_STARTING, STATE_STOPPING}" and g: "aim s = STATE_STARTED"
    using assms(4,6) by (auto simp: minds_def heeded_def keen_def)
  have "sc_running s \<notin> {STATE_STARTING, STATE_STOPPING}" using b assms(5) by (auto simp: base_def)
  then have "sc_running s = STATE_STARTED" using d g by (auto simp: aim_def split: if_splits)
  then show ?thesis using b by (simp add: base_def)
qed

section \<open>Frames reach the viewers\<close>

definition watching :: "screen \<Rightarrow> nat \<Rightarrow> bool" where
  "watching s i \<longleftrightarrow> om_get (sc_viewers s) i = Some VncViewer \<or>
     om_get (sc_viewers s) i = Some WebViewer \<and> (\<exists>c. sc_conns s i = Some c \<and> cn_ready c = OPEN)"

definition frame_out :: "screen \<Rightarrow> byte list \<Rightarrow> nat \<Rightarrow> screen_out" where
  "frame_out s f i = (if om_get (sc_viewers s) i = Some VncViewer then VncFrame i f else WsSend i (Binary f))"

lemma broadcast_open:
  assumes "\<forall>i \<in> set is. watching s i"
  shows "run (on_frame opts f) s is = (s, map (frame_out s f) is)"
proof -
  have "on_frame opts f s i = (s, [frame_out s f i])" if "watching s i" for i
    using that by (auto simp: watching_def on_frame_def frame_out_def ws_send_def)
  then show ?thesis using assms by (induction "is") (simp_all add: Let_def)
qed

definition streaming :: "byte list \<Rightarrow> screen \<Rightarrow> bool" where
  "streaming b s \<longleftrightarrow> sc_alive s \<and> (\<exists>p k. sc_parser s = Some p \<and> sc_socket s = Some k \<and> holds_bytes b p (sc_buffer s k))"

text \<open>The state of the viewers, and of the tasks before the one that takes the next frame.\<close>

definition audience :: "screen \<Rightarrow> screen_task list \<Rightarrow> screen \<Rightarrow> bool" where
  "audience s ts t \<longleftrightarrow> sc_tasks t = ts @ [NextTask] \<and> sc_viewers t = sc_viewers s \<and> sc_conns t = sc_conns s"

lemma one_frame:
  assumes "streaming b t" and "audience s ts t" and "\<forall>i \<in> set (om_keys (sc_viewers s)). watching s i"
  shows "case first_frame b of
      Some (f, r) \<Rightarrow> \<exists>u. screen_step opts t (ResumeTask (length ts) ans now) = (u, map (frame_out s f) (om_keys (sc_viewers s))) \<and>
        streaming r u \<and> audience s ts u
    | None \<Rightarrow> \<exists>u. screen_step opts t (ResumeTask (length ts) ans now) = (u, []) \<and> streaming b u \<and> sc_needs u \<and> sc_tasks u = ts"
proof -
  let ?t = "t\<lparr>sc_tasks := ts\<rparr>"
  obtain p k where p: "sc_alive t" "sc_parser t = Some p" "sc_socket t = Some k" "holds_bytes b p (sc_buffer t k)"
    using assms(1) by (auto simp: streaming_def)
  have step: "screen_step opts t (ResumeTask (length ts) ans now) = on_readable opts ?t"
    using p(1) assms(2) by (simp add: screen_step_def audience_def remove_nth_def)
  note found = pull_finds [OF p(4)]
  show ?thesis
  proof (cases "first_frame b")
    case None
    then obtain q w where q: "pull p (sc_buffer t k) = (NoFrame, q, w)" "holds_bytes b q w" using found by auto
    then show ?thesis unfolding step using None p
      by (simp add: on_readable_def readable_loop_closed next_frame_def streaming_def)
  next
    case (Some x)
    obtain f r where x: "x = (f, r)" by (cases x)
    then obtain q w where q: "pull p (sc_buffer t k) = (Frame f, q, w)" "holds_bytes r q w" using found Some by auto
    let ?u = "?t\<lparr>sc_parser := Some q, sc_buffer := (sc_buffer t)(k := w)\<rparr>"
    have "frame_out ?u f = frame_out s f" "\<forall>i \<in> set (om_keys (sc_viewers ?u)). watching ?u i"
      using assms(2,3) by (auto simp: frame_out_def audience_def watching_def fun_eq_iff)
    then have "broadcast_frame opts f ?u = (?u, map (frame_out s f) (om_keys (sc_viewers s)))"
      using broadcast_open [of "om_keys (sc_viewers ?u)" ?u opts f] assms(2) by (simp add: broadcast_frame_def audience_def)
    then have "on_readable opts ?t = (later NextTask ?u, map (frame_out s f) (om_keys (sc_viewers s)))"
      using p q(1) by (simp add: on_readable_def readable_loop_closed next_frame_def)
    moreover have "streaming r (later NextTask ?u)" using p q(2) by (simp add: streaming_def later_def)
    moreover have "audience s ts (later NextTask ?u)" using assms(2) by (simp add: audience_def later_def)
    ultimately show ?thesis unfolding step Some x by simp
  qed
qed

lemma all_frames:
  assumes "\<forall>i \<in> set (om_keys (sc_viewers s)). watching s i"
  shows "list_all frame_ok fs \<Longrightarrow> streaming (concat (map wire_frame fs)) t \<Longrightarrow> audience s ts t \<Longrightarrow>
    \<exists>u. run (screen_step opts) t (replicate (Suc (length fs)) (ResumeTask (length ts) Done now)) =
        (u, concat (map (\<lambda>f. map (frame_out s f) (om_keys (sc_viewers s))) fs)) \<and> sc_needs u \<and> sc_tasks u = ts"
proof (induction fs arbitrary: t)
  case Nil
  have "first_frame [] = None" by (simp add: first_frame_def)
  then show ?case using one_frame [of "[]" t s ts opts Done now] Nil assms by (auto simp: Let_def)
next
  case (Cons f fs)
  have "first_frame (concat (map wire_frame (f # fs))) = Some (f, concat (map wire_frame fs))"
    using Cons.prems(1) first_wire_frame by simp
  then obtain v where v: "screen_step opts t (ResumeTask (length ts) Done now) = (v, map (frame_out s f) (om_keys (sc_viewers s)))"
    "streaming (concat (map wire_frame fs)) v" "audience s ts v"
    using one_frame [OF Cons.prems(2,3) assms, of opts Done now] by auto
  from Cons.IH [OF _ v(2,3)] Cons.prems(1) show ?case
    by (auto simp: v(1) Let_def simp del: replicate_Suc simp add: replicate_Suc [of "Suc (length fs)"])
qed

lemma frames_reach_viewers_facts:
  assumes "sc_alive s" and "sc_parser s = Some p" and "sc_socket s = Some k" and "holds_bytes (concat (map wire_frame fs)) p (sc_buffer s k)"
    and "list_all frame_ok fs" and "sc_tasks s = ts @ [NextTask]" and "\<forall>i \<in> set (om_keys (sc_viewers s)). watching s i"
  shows "snd (run (screen_step opts) s (replicate (Suc (length fs)) (ResumeTask (length ts) Done now))) =
      concat (map (\<lambda>f. map (frame_out s f) (om_keys (sc_viewers s))) fs)"
    and "sc_needs (fst (run (screen_step opts) s (replicate (Suc (length fs)) (ResumeTask (length ts) Done now))))"
  using all_frames [OF assms(7,5), of s ts opts now] assms(1-4,6) by (auto simp: streaming_def audience_def)

text \<open>
  C30. Every viewer gets every frame: when the bytes that have arrived are a sequence of frames (wherever their chunks were cut), the turns of the
  reader send each frame to each viewer, in the order of the frames, nothing else, and then ask for more.
\<close>

theorem frames_reach_viewers:
  assumes "sc_alive s" and "sc_parser s = Some p" and "sc_socket s = Some k" and "holds_bytes (concat (map wire_frame fs)) p (sc_buffer s k)"
    and "list_all frame_ok fs" and "sc_tasks s = ts @ [NextTask]" and "\<forall>i \<in> set (om_keys (sc_viewers s)). watching s i"
  shows "(snd (run (screen_step opts) s (replicate (Suc (length fs)) (ResumeTask (length ts) Done now))) =
      concat (map (\<lambda>f. map (frame_out s f) (om_keys (sc_viewers s))) fs)) \<and>
    (sc_needs (fst (run (screen_step opts) s (replicate (Suc (length fs)) (ResumeTask (length ts) Done now)))))"
  using frames_reach_viewers_facts [OF assms] by blast

section \<open>Faults\<close>

lemma readable_never_returns_facts:
  assumes "sc_alive s" and "k < length (sc_tasks s)" and "sc_tasks s ! k = NextTask" and "sc_parser s = None" and "sc_readable s"
  shows "readable_loop opts (s\<lparr>sc_tasks := remove_nth k (sc_tasks s)\<rparr>) = None"
    and "snd (screen_step opts s (ResumeTask k ans now)) = [StackOverflow]"
  using assms by (simp_all add: readable_loop_closed next_frame_def screen_step_def on_readable_def)

text \<open>
  A stop in the middle of a stream hangs the unit: when the next frame is taken after the parser is gone and while \<open>readable\<close> is still set
  (nothing resets it), the listener of \<open>readable\<close> calls itself without end.
\<close>

theorem readable_never_returns:
  assumes "sc_alive s" and "k < length (sc_tasks s)" and "sc_tasks s ! k = NextTask" and "sc_parser s = None" and "sc_readable s"
  shows "(readable_loop opts (s\<lparr>sc_tasks := remove_nth k (sc_tasks s)\<rparr>) = None) \<and>
    (snd (screen_step opts s (ResumeTask k ans now)) = [StackOverflow])"
  using readable_never_returns_facts [OF assms] by blast

lemma failed_start_is_not_retried_facts:
  assumes "sc_alive s" and "sc_tasks s = [StoppedTask StartFailed]" and "sc_desired s = []" and "sc_failures s = []"
    and "om_keys (sc_viewers s) = [i]" and "j \<noteq> i"
    and "t = fst (screen_step opts s (ResumeTask 0 Done now))"
  shows "sc_running t = STATE_STOPPED \<and> sc_tasks t = [] \<and> sc_desired t = [] \<and> om_keys (sc_viewers t) = [i] \<and> sc_grabber t = ''minicap-apk''"
    and "snd (screen_step opts s (ResumeTask 0 Done now)) = []"
    and "snd (screen_step opts t (VncInsert j)) = [] \<and> sc_tasks (fst (screen_step opts t (VncInsert j))) = []"
proof -
  have t: "screen_step opts s (ResumeTask 0 Done now) = ((cleared s)\<lparr>sc_tasks := [], sc_failures := [now], sc_grabber := ''minicap-apk''\<rparr>, [])"
    using assms(1-4) by (simp add: screen_step_def remove_nth_def stop_done_def screen_failure_def fail_inc_def cleared_def and_then_def ensure_def)
  then have t': "t = (cleared s)\<lparr>sc_tasks := [], sc_failures := [now], sc_grabber := ''minicap-apk''\<rparr>" using assms(7) by simp
  show "sc_running t = STATE_STOPPED \<and> sc_tasks t = [] \<and> sc_desired t = [] \<and> om_keys (sc_viewers t) = [i] \<and> sc_grabber t = ''minicap-apk''"
    "snd (screen_step opts s (ResumeTask 0 Done now)) = []"
    unfolding t' t using assms(3,5) by (simp_all add: cleared_def)
  obtain v where v: "sc_viewers s = [(i, v)]" using assms(5) by (auto simp: om_keys_def)
  then show "snd (screen_step opts t (VncInsert j)) = [] \<and> sc_tasks (fst (screen_step opts t (VncInsert j))) = []"
    using assms(1,6) unfolding t' by (simp add: screen_step_def broadcast_insert_def cleared_def and_then_def om_has_def om_get_def om_set_def Let_def)
qed

text \<open>
  A start that fails is not tried again: when the stop that follows a failed start ends and nothing else is asked for, the producer stays
  stopped under its viewers (with the other grabber, which nobody starts), and a further viewer does not start it either.
\<close>

theorem failed_start_is_not_retried:
  assumes "sc_alive s" and "sc_tasks s = [StoppedTask StartFailed]" and "sc_desired s = []" and "sc_failures s = []"
    and "om_keys (sc_viewers s) = [i]" and "j \<noteq> i"
    and "t = fst (screen_step opts s (ResumeTask 0 Done now))"
  shows "(sc_running t = STATE_STOPPED \<and> sc_tasks t = [] \<and> sc_desired t = [] \<and> om_keys (sc_viewers t) = [i] \<and> sc_grabber t = ''minicap-apk'') \<and>
    (snd (screen_step opts s (ResumeTask 0 Done now)) = []) \<and>
    (snd (screen_step opts t (VncInsert j)) = [] \<and> sc_tasks (fst (screen_step opts t (VncInsert j))) = [])"
  using failed_start_is_not_retried_facts [OF assms] by blast

text \<open>
  A screen that nobody watches is started again: a change of rotation (or of size or quality) while a stop waits for the start under way asks for
  a stop and then for a start, so the producer that lost its last viewer ends up started.
\<close>

theorem unwatched_screen_is_revived:
  assumes "sc_alive s" and "sc_running s = STATE_STARTING" and "sc_desired s = [STATE_STOPPED]" and "sc_viewers s = []"
    and "fc_rotation (sc_config s) \<noteq> r"
  shows "aim s = STATE_STOPPED" and "aim (fst (screen_step opts s (RotationChange r))) = STATE_STARTED"
    and "sc_viewers (fst (screen_step opts s (RotationChange r))) = []"
  using assms by (simp_all add: aim_def screen_step_def updateRotation_def producer_restart_def wish_def ensure_def)

text \<open>
  With scrcpy a stop that is asked for during the start is forgotten: when scrcpy has started nobody looks at what is still desired, so the
  producer stays started without viewers and without a task that would stop it.
\<close>

theorem scrcpy_forgets_the_stop:
  assumes "sc_alive s" and "sc_tasks s = [ScrcpyTask]" and "sc_desired s = [STATE_STOPPED]" and "sc_viewers s = []"
    and "t = fst (screen_step opts s (ResumeTask 0 Done now))"
  shows "sc_running t = STATE_STARTED \<and> sc_desired t = [STATE_STOPPED] \<and> sc_tasks t = [] \<and> \<not> heeded t"
  using assms by (simp add: screen_step_def remove_nth_def emit_start_def om_keys_def heeded_def)

lemma refused_client_resizes_facts:
  assumes "sc_alive s" and "sc_conns s i = None" and "a \<noteq> b" and "parse_request msg = Some (Size w h)"
    and "fc_virtual_width (sc_config s) \<noteq> w" and "sc_running s = STATE_STARTED" and "sc_desired s = []" and "\<not> sc_failed s"
    and "r = run (screen_step opts) s [Connection i (Some a), ResumeTask (length (sc_tasks s)) (Group (UsedBy b)) now, ClientMessage i msg]"
  shows "WsSend i (AuthError ''Device used by another user'') \<in> set (snd r)"
    and "fc_virtual_width (sc_config (fst r)) = w \<and> fc_virtual_height (sc_config (fst r)) = h"
    and "sc_running (fst r) = STATE_STOPPING \<and> sc_desired (fst r) = [STATE_STARTED]"
proof -
  let ?s1 = "later (GroupTask i False) (set_conn i \<lparr>cn_email = a, cn_ready = OPEN, cn_listens = False, cn_ping = False\<rparr> s)"
  let ?c = "\<lparr>cn_email = a, cn_ready = CLOSING, cn_listens = True, cn_ping = False\<rparr>"
  let ?s2 = "s\<lparr>sc_conns := (sc_conns s)(i := Some ?c), sc_raw := (if so_scrcpy opts then sc_raw s @ [i] else sc_raw s)\<rparr>"
  have e1: "screen_step opts s (Connection i (Some a)) = (?s1, [])" using assms(1,2) by (simp add: screen_step_def connection_def)
  have e2: "screen_step opts ?s1 (ResumeTask (length (sc_tasks s)) (Group (UsedBy b)) now) =
      (?s2, [WsSend i (AuthError ''Device used by another user''), WsClose i ''Authentication failed''])"
    using assms(1,3)
    by (simp add: screen_step_def later_def set_conn_def remove_nth_def group_checked_def ws_refused_def and_then_def listen_def raw_send_def)
  have e3: "screen_step opts ?s2 (ClientMessage i msg) =
      ensure opts (wish STATE_STARTED (wish STATE_STOPPED (?s2\<lparr>sc_config := (sc_config s)\<lparr>fc_virtual_width := w, fc_virtual_height := h\<rparr>\<rparr>)))"
    using assms(1,4-6) by (simp add: screen_step_def ws_message_def updateProjection_def producer_restart_def)
  have d: "sc_desired (fst (disconnect who t)) = sc_desired t" "sc_running (fst (disconnect who t)) = sc_running t"
    "sc_config (fst (disconnect who t)) = sc_config t" for who t
    by (simp_all add: disconnect_def later_def will_end_def split: option.split)
  have r: "fst r = fst (screen_step opts ?s2 (ClientMessage i msg))"
    "snd r = [WsSend i (AuthError ''Device used by another user''), WsClose i ''Authentication failed''] @
      snd (screen_step opts ?s2 (ClientMessage i msg))" unfolding assms(9) by (simp_all add: e1 e2 Let_def)
  show "WsSend i (AuthError ''Device used by another user'') \<in> set (snd r)" unfolding r by simp
  show "fc_virtual_width (sc_config (fst r)) = w \<and> fc_virtual_height (sc_config (fst r)) = h"
    "sc_running (fst r) = STATE_STOPPING \<and> sc_desired (fst r) = [STATE_STARTED]"
    unfolding r e3 using assms(6-8) by (simp_all add: ensure_def wish_def next_desired_def stq_next_def d Let_def)
qed

text \<open>
  A client who is refused controls the screen all the same: after a token of another user the handlers are installed, so the
  refused client can change the size of everybody's screen, which stops a running producer to start it anew.
\<close>

theorem refused_client_resizes:
  assumes "sc_alive s" and "sc_conns s i = None" and "a \<noteq> b" and "parse_request msg = Some (Size w h)"
    and "fc_virtual_width (sc_config s) \<noteq> w" and "sc_running s = STATE_STARTED" and "sc_desired s = []" and "\<not> sc_failed s"
    and "r = run (screen_step opts) s [Connection i (Some a), ResumeTask (length (sc_tasks s)) (Group (UsedBy b)) now, ClientMessage i msg]"
  shows "(WsSend i (AuthError ''Device used by another user'') \<in> set (snd r)) \<and>
    (fc_virtual_width (sc_config (fst r)) = w \<and> fc_virtual_height (sc_config (fst r)) = h) \<and>
    (sc_running (fst r) = STATE_STOPPING \<and> sc_desired (fst r) = [STATE_STARTED])"
  using refused_client_resizes_facts [OF assms] by blast

section \<open>Who sees the screen\<close>

text \<open>
  \<open>calls s r\<close>: what the producer does on its own leaves the clients as they are (a closed one loses its timer, viewers may be removed), and a
  message only goes to an open client that has a timer, watches, or listens to scrcpy.
\<close>

definition same_clients :: "screen \<Rightarrow> screen \<Rightarrow> bool" where
  "same_clients s t \<longleftrightarrow>
     (\<forall>i. sc_conns t i = sc_conns s i \<or> (\<exists>c. sc_conns s i = Some c \<and> cn_ready c = CLOSED \<and> sc_conns t i = Some (c\<lparr>cn_ping := False\<rparr>))) \<and>
     set (sc_viewers t) \<subseteq> set (sc_viewers s) \<and> sc_raw t = sc_raw s"

definition may_get :: "screen \<Rightarrow> nat \<Rightarrow> bool" where
  "may_get s i \<longleftrightarrow> (\<exists>c. sc_conns s i = Some c \<and> cn_ready c = OPEN \<and> (cn_ping c \<or> (i, WebViewer) \<in> set (sc_viewers s) \<or> i \<in> set (sc_raw s)))"

definition calls :: "screen \<Rightarrow> screen \<times> screen_out list \<Rightarrow> bool" where
  "calls s r \<longleftrightarrow> same_clients s (fst r) \<and> (\<forall>i m. WsSend i m \<in> set (snd r) \<longrightarrow> may_get s i)"

lemma same_clients_refl [simp]: "same_clients s s"
  by (simp add: same_clients_def)

lemma same_clients_trans:
  assumes "same_clients s t" and "same_clients t u"
  shows "same_clients s u"
proof -
  have "sc_conns u i = sc_conns s i \<or> (\<exists>c. sc_conns s i = Some c \<and> cn_ready c = CLOSED \<and> sc_conns u i = Some (c\<lparr>cn_ping := False\<rparr>))" for i
  proof -
    have "sc_conns t i = sc_conns s i \<or> (\<exists>c. sc_conns s i = Some c \<and> cn_ready c = CLOSED \<and> sc_conns t i = Some (c\<lparr>cn_ping := False\<rparr>))"
      "sc_conns u i = sc_conns t i \<or> (\<exists>c. sc_conns t i = Some c \<and> cn_ready c = CLOSED \<and> sc_conns u i = Some (c\<lparr>cn_ping := False\<rparr>))"
      using assms by (auto simp: same_clients_def)
    then show ?thesis by (elim disjE exE conjE) auto
  qed
  then show ?thesis using assms by (auto simp: same_clients_def)
qed

lemma may_get_before: "same_clients s t \<Longrightarrow> may_get t i \<Longrightarrow> may_get s i"
proof -
  assume s: "same_clients s t" and "may_get t i"
  then obtain c where c: "sc_conns t i = Some c" "cn_ready c = OPEN"
    "cn_ping c \<or> (i, WebViewer) \<in> set (sc_viewers t) \<or> i \<in> set (sc_raw t)" by (auto simp: may_get_def)
  have "sc_conns t i = sc_conns s i \<or> (\<exists>c. sc_conns s i = Some c \<and> cn_ready c = CLOSED \<and> sc_conns t i = Some (c\<lparr>cn_ping := False\<rparr>))"
    using s by (simp add: same_clients_def)
  then have "sc_conns s i = Some c" using c(1,2) by auto
  then show ?thesis using c s by (auto simp: may_get_def same_clients_def)
qed

lemma calls_seq: "calls s r \<Longrightarrow> calls (fst r) q \<Longrightarrow> calls s (fst q, snd r @ snd q)"
  unfolding calls_def fst_conv snd_conv set_append
  by (intro conjI allI impI) (blast intro: same_clients_trans, blast intro: may_get_before)

lemma calls_then: "calls s r \<Longrightarrow> (sc_alive (fst r) \<Longrightarrow> calls (fst r) (f (fst r))) \<Longrightarrow> calls s (and_then r f)"
  using calls_seq [of s r "f (fst r)"] by (simp add: and_then_def Let_def)

lemma calls_from: "calls t r \<Longrightarrow> sc_conns t = sc_conns s \<Longrightarrow> sc_viewers t = sc_viewers s \<Longrightarrow> sc_raw t = sc_raw s \<Longrightarrow> calls s r"
  by (simp add: calls_def same_clients_def may_get_def)

lemma calls_quiet:
  "sc_conns (fst r) = sc_conns s \<Longrightarrow> sc_viewers (fst r) = sc_viewers s \<Longrightarrow> sc_raw (fst r) = sc_raw s \<Longrightarrow>
   (\<forall>i m. WsSend i m \<notin> set (snd r)) \<Longrightarrow> calls s r"
  by (simp add: calls_def same_clients_def)

lemma calls_disconnect: "calls s (disconnect who s)"
  by (rule calls_quiet) (simp_all add: disconnect_def later_def will_end_def split: option.split)

lemma calls_ensure: "calls s (ensure opts s)"
proof -
  have "calls s (disconnect who (s\<lparr>sc_desired := d, sc_running := r\<rparr>))" for who d r
    by (rule calls_from [OF calls_disconnect]) simp_all
  moreover have "calls s (later t (s\<lparr>sc_desired := d\<rparr>), [])" "calls s (s, [])"
    "calls s (later t (s\<lparr>sc_desired := d, sc_running := r\<rparr>), [StartScrcpy])"
    "calls s (later t (s\<lparr>sc_desired := d, sc_running := r\<rparr>), [RunMinicap g c])" for t d r g c
    by (rule calls_quiet; simp add: later_def)+
  ultimately show ?thesis
    by (simp add: ensure_def next_desired_def start_minicap_def Let_def split: run_state.split)
qed

lemma calls_wishes: "calls s (producer_start opts s)" "calls s (producer_stop opts s)" "calls s (producer_restart opts s)"
proof -
  have "calls s (ensure opts (wish d s))" "calls s (ensure opts (wish d (wish d' s)))" "calls s (s, [])" for d d'
    by (rule calls_from [OF calls_ensure]; simp add: wish_def; fail)+ (rule calls_quiet; simp)
  then show "calls s (producer_start opts s)" "calls s (producer_stop opts s)" "calls s (producer_restart opts s)"
    by (simp_all add: producer_start_def producer_stop_def producer_restart_def)
qed

lemma calls_remove: "calls s (broadcast_remove opts i s)"
proof -
  let ?t = "s\<lparr>sc_viewers := om_del i (sc_viewers s)\<rparr>"
  have "set (om_del i (sc_viewers s)) \<subseteq> set (sc_viewers s)" by (auto simp: om_del_def AList.delete_eq)
  then have t: "calls s (?t, [])" by (simp add: calls_def same_clients_def)
  have "calls s (producer_stop opts ?t)" using calls_seq [OF t, of "producer_stop opts ?t"] calls_wishes(2) by simp
  moreover have "calls s (s, [])" by (simp add: calls_def)
  ultimately show ?thesis using t by (cases "om_del i (sc_viewers s) = []") (simp_all add: broadcast_remove_def)
qed

lemma calls_send:
  assumes "cn_ping (the (sc_conns s i)) \<or> (i, WebViewer) \<in> set (sc_viewers s) \<or> i \<in> set (sc_raw s)"
  shows "calls s (ws_send opts i m s)"
proof (cases "sc_conns s i")
  case None
  then show ?thesis by (simp add: ws_send_def calls_def)
next
  case (Some c)
  show ?thesis
  proof (cases "cn_ready c")
    case OPEN
    then show ?thesis using Some assms by (auto simp: ws_send_def calls_def may_get_def)
  next
    case CLOSING
    then show ?thesis using Some by (simp add: ws_send_def calls_def)
  next
    case CLOSED
    let ?t = "set_conn i (c\<lparr>cn_ping := False\<rparr>) s"
    have t: "calls s (?t, [])" using Some CLOSED by (simp add: calls_def same_clients_def set_conn_def)
    show ?thesis using calls_seq [OF t, of "broadcast_remove opts i ?t"] calls_remove Some CLOSED by (simp add: ws_send_def)
  qed
qed

lemma calls_on: "calls s (on_start opts s i)" "calls s (on_frame opts f s i)"
proof -
  have v: "(i, v) \<in> set (sc_viewers s)" if "om_get (sc_viewers s) i = Some v" for v
    using that by (simp add: om_get_def map_of_SomeD)
  have q: "calls s (s, [])" "calls s (s, [VncStart i])" "calls s (s, [VncFrame i f])" by (rule calls_quiet; simp)+
  have w: "calls s (ws_send opts i m s)" if "om_get (sc_viewers s) i = Some WebViewer" for m
    by (rule calls_send) (use v [OF that] in blast)
  show "calls s (on_start opts s i)" using q w by (simp add: on_start_def split: option.split viewer.split)
  show "calls s (on_frame opts f s i)" using q w by (simp add: on_frame_def split: option.split viewer.split)
qed

lemma calls_run: "(\<And>t i. i \<in> set is \<Longrightarrow> sc_raw t = sc_raw s \<Longrightarrow> calls t (f t i)) \<Longrightarrow> calls s (run f s is)"
proof (induction "is" arbitrary: s)
  case Nil
  then show ?case by (simp add: calls_def)
next
  case (Cons i "is")
  have a: "calls s (f s i)" using Cons.prems by simp
  then have "sc_raw (fst (f s i)) = sc_raw s" by (simp add: calls_def same_clients_def)
  then have "calls (fst (f s i)) (run f (fst (f s i)) is)" using Cons.prems by (intro Cons.IH) simp_all
  then show ?case using calls_seq [OF a] by (simp add: Let_def)
qed

lemma calls_emit: "calls s (emit_start opts s)" "calls s (broadcast_frame opts f s)"
  unfolding emit_start_def broadcast_frame_def by (rule calls_run, rule calls_on)+

lemma next_frame_raw: "sc_raw (snd (next_frame s)) = sc_raw s"
  unfolding next_frame_def by (cases "sc_parser s"; cases "sc_socket s"; simp split: prod.split pulled.split)

lemma calls_readable: "calls s (on_readable opts s)"
proof (cases rule: on_readable_cases [of s opts])
  case (frame f t)
  have "sc_conns t = sc_conns s" "sc_viewers t = sc_viewers s" "sc_raw t = sc_raw s"
    using next_frame_same(8,9) [of s] next_frame_raw [of s] frame(1) by simp_all
  then have b: "calls s (broadcast_frame opts f t)" by (rule calls_from [OF calls_emit(2)])
  have "calls (fst (broadcast_frame opts f t)) (later NextTask (fst (broadcast_frame opts f t)), [])"
    by (rule calls_quiet) (simp_all add: later_def)
  from calls_seq [OF b this] show ?thesis unfolding frame(2) by simp
next
  case (empty t)
  have "sc_conns t = sc_conns s" "sc_viewers t = sc_viewers s" "sc_raw t = sc_raw s"
    using next_frame_same(8,9) [of s] next_frame_raw [of s] empty(1) by simp_all
  then show ?thesis unfolding empty(3) by (intro calls_quiet) simp_all
next
  case spinning
  then show ?thesis by (simp add: calls_quiet)
qed

lemma calls_listener: "calls s (readable_listener opts s)"
proof -
  have "calls s (on_readable opts (s\<lparr>sc_readable := True, sc_needs := False\<rparr>))" by (rule calls_from [OF calls_readable]) simp_all
  moreover have "calls s (s\<lparr>sc_readable := True\<rparr>, [])" by (rule calls_quiet) simp_all
  ultimately show ?thesis by (simp add: readable_listener_def maybe_emit_readable_def)
qed

lemma calls_data: "calls s (socket_data opts k c s)"
proof -
  have "calls s (readable_listener opts (s\<lparr>sc_tasks := ts, sc_buffer := b\<rparr>))" for ts b by (rule calls_from [OF calls_listener]) simp_all
  moreover have "calls s (s\<lparr>sc_tasks := ts, sc_buffer := b\<rparr>, [])" "calls s (s, [])" for ts b by (rule calls_quiet; simp)+
  ultimately show ?thesis by (simp add: socket_data_def Let_def)
qed

lemma calls_line: "calls s (output_line k line s)"
  by (rule calls_quiet) (simp_all add: output_line_def exit_process_def split: option.split)

lemma calls_there: "calls s (banner_there opts b s)"
proof -
  have "calls s (start_fails (s\<lparr>sc_banner := Some b\<rparr>))" unfolding start_fails_def by (rule calls_from [OF calls_disconnect]) simp_all
  moreover have "calls s (read_frames opts k (s\<lparr>sc_banner := Some b\<rparr>))" for k
    unfolding read_frames_def by (rule calls_from [OF calls_listener]) simp_all
  moreover have "calls t (emit_start opts (t\<lparr>sc_running := STATE_STARTED\<rparr>))" for t by (rule calls_from [OF calls_emit(1)]) simp_all
  ultimately show ?thesis using calls_ensure by (simp add: banner_there_def Let_def calls_then split: option.split)
qed

lemma calls_failure: "calls s (screen_failure now s)"
proof -
  have d: "calls s (disconnect StopRequested (s\<lparr>sc_failures := vs\<rparr>))" for vs by (rule calls_from [OF calls_disconnect]) simp_all
  have e: "calls t (exit_process (t\<lparr>sc_failed := True\<rparr>))" for t by (rule calls_quiet) (simp_all add: exit_process_def)
  have "calls s (s\<lparr>sc_failures := vs\<rparr>, [])" for vs by (rule calls_quiet) simp_all
  moreover have "calls s (and_then (disconnect StopRequested (s\<lparr>sc_failures := vs\<rparr>)) (\<lambda>t. exit_process (t\<lparr>sc_failed := True\<rparr>)))" for vs
    by (rule calls_then [OF d]) (rule e)
  ultimately show ?thesis by (simp add: screen_failure_def Let_def split: prod.split)
qed

lemma calls_ended: "calls s (screen_stream_ended opts k now s)"
proof -
  have "calls s (screen_failure now (s\<lparr>sc_ended := e\<rparr>))" for e by (rule calls_from [OF calls_failure]) simp_all
  then have "calls s (and_then (screen_failure now (s\<lparr>sc_ended := e\<rparr>)) (producer_restart opts))" for e
    by (rule calls_then) (rule calls_wishes)
  moreover have "calls s (s\<lparr>sc_ended := e\<rparr>, [])" "calls s (s, [])" for e by (rule calls_quiet; simp)+
  ultimately show ?thesis by (simp add: screen_stream_ended_def Let_def)
qed

lemma calls_stop_done: "calls s (stop_done opts who now s)"
proof -
  have "calls s (ensure opts (cleared s))" by (rule calls_from [OF calls_ensure]) (simp_all add: cleared_def)
  moreover have f: "calls s (screen_failure now (cleared s))" by (rule calls_from [OF calls_failure]) (simp_all add: cleared_def)
  moreover have "calls t (ensure opts (t\<lparr>sc_grabber := g\<rparr>))" for t g by (rule calls_from [OF calls_ensure]) simp_all
  ultimately show ?thesis by (simp add: stop_done_def calls_then split: screen_stopper.split)
qed

lemma calls_config: "calls s (producer_restart opts (s\<lparr>sc_config := c\<rparr>))" "calls s (s, [])" "calls s (later t s, [])"
  by (rule calls_from [OF calls_wishes(3)], simp_all) (rule calls_quiet, simp_all add: later_def)+

text \<open>All tasks but the check of a client are the producer's own.\<close>

lemma calls_resume: "\<not> (\<exists>i retried. t = GroupTask i retried) \<Longrightarrow> calls s (resume_screen opts t ans now s)"
proof -
  assume t: "\<not> (\<exists>i retried. t = GroupTask i retried)"
  have q: "calls s (service_runs s)" "calls s (minicap_connected s)" "calls s (connect_minicap n d s)" "calls s (s, [UnhandledRejection])"
    "calls s (exit_process (s\<lparr>sc_running := r\<rparr>))" "calls s (force_end_output who k s)" "calls s (kill_minicap who k pid kindly s)"
    "calls s (later u s, [Wait d])" for n d r who k pid kindly u
    by (rule calls_quiet; simp add: service_runs_def minicap_connected_def open_stream_def connect_minicap_def exit_process_def force_end_output_def
      kill_minicap_def later_def will_end_def)+
  have f: "calls s (start_fails s)" unfolding start_fails_def by (rule calls_disconnect)
  have st: "calls s (stop_minicap who s)" for who using q calls_config by (simp add: stop_minicap_def split: option.split)
  have c: "calls s (connect_failed n d msg s)" for n d msg using q f by (simp add: connect_failed_def)
  have e: "calls s (emit_start opts (s\<lparr>sc_running := STATE_STARTED\<rparr>))" by (rule calls_from [OF calls_emit(1)]) simp_all
  show ?thesis using t q f st c e calls_there calls_stop_done calls_ensure calls_readable calls_config
    by (cases t) (simp_all split: screen_answer.split banner_result.split)
qed

text \<open>
  \<open>hist es s\<close>: what the clients of a state owe to the events that led to it. An open client came with a token; one that listens or has a
  timer was found to be the user of the device; who watches listens.
\<close>

definition checked :: "screen_event list \<Rightarrow> string \<Rightarrow> bool" where
  "checked es email \<longleftrightarrow> (\<exists>k now. ResumeTask k (Group (UsedBy email)) now \<in> set es)"

definition hist :: "screen_event list \<Rightarrow> screen \<Rightarrow> bool" where
  "hist es s \<longleftrightarrow>
     (\<forall>i c. sc_conns s i = Some c \<and> cn_ready c = OPEN \<longrightarrow>
        Connection i (Some (cn_email c)) \<in> set es \<and> (cn_listens c \<or> cn_ping c \<longrightarrow> checked es (cn_email c))) \<and>
     (\<forall>i. (i, WebViewer) \<in> set (sc_viewers s) \<or> i \<in> set (sc_raw s) \<longrightarrow> (\<exists>c. sc_conns s i = Some c \<and> cn_listens c))"

definition seen :: "screen_event list \<Rightarrow> screen_out list \<Rightarrow> bool" where
  "seen es out \<longleftrightarrow> (\<forall>i m. WsSend i m \<in> set out \<longrightarrow>
     (\<exists>msg. m = AuthError msg) \<or> (\<exists>email. Connection i (Some email) \<in> set es \<and> checked es email))"

lemma checked_mono: "checked es m \<Longrightarrow> set es \<subseteq> set fs \<Longrightarrow> checked fs m"
  by (auto simp: checked_def)

lemma hist_mono: "hist es s \<Longrightarrow> set es \<subseteq> set fs \<Longrightarrow> hist fs s"
  unfolding hist_def using checked_mono by blast

lemma seen_mono: "seen es out \<Longrightarrow> set es \<subseteq> set fs \<Longrightarrow> seen fs out"
  unfolding seen_def using checked_mono by blast

lemma hist_may_get:
  assumes "hist es s" and "may_get s i"
  shows "\<exists>email. Connection i (Some email) \<in> set es \<and> checked es email"
proof -
  obtain c where c: "sc_conns s i = Some c" "cn_ready c = OPEN" "cn_ping c \<or> (i, WebViewer) \<in> set (sc_viewers s) \<or> i \<in> set (sc_raw s)"
    using assms(2) by (auto simp: may_get_def)
  have "cn_listens c \<or> cn_ping c"
  proof (cases "cn_ping c")
    case False
    then obtain d where "sc_conns s i = Some d" "cn_listens d" using c(3) assms(1) unfolding hist_def by blast
    then show ?thesis using c(1) by simp
  qed simp
  then show ?thesis using assms(1) c(1,2) unfolding hist_def by blast
qed

lemma hist_same: "hist es s \<Longrightarrow> same_clients s t \<Longrightarrow> hist es t"
proof -
  assume h: "hist es s" and s: "same_clients s t"
  have c: "sc_conns t i = sc_conns s i \<or> (\<exists>c. sc_conns s i = Some c \<and> cn_ready c = CLOSED \<and> sc_conns t i = Some (c\<lparr>cn_ping := False\<rparr>))" for i
    using s by (simp add: same_clients_def)
  have "Connection i (Some (cn_email d)) \<in> set es \<and> (cn_listens d \<or> cn_ping d \<longrightarrow> checked es (cn_email d))"
    if "sc_conns t i = Some d" "cn_ready d = OPEN" for i d
  proof -
    have "sc_conns s i = Some d" using c [of i] that by auto
    then show ?thesis using h that(2) unfolding hist_def by blast
  qed
  moreover have "\<exists>d. sc_conns t i = Some d \<and> cn_listens d" if v: "(i, WebViewer) \<in> set (sc_viewers t) \<or> i \<in> set (sc_raw t)" for i
  proof -
    have "(i, WebViewer) \<in> set (sc_viewers s) \<or> i \<in> set (sc_raw s)" using v s by (auto simp: same_clients_def)
    then obtain d where "sc_conns s i = Some d" "cn_listens d" using h unfolding hist_def by blast
    then show ?thesis using c [of i] by auto
  qed
  ultimately show ?thesis unfolding hist_def by blast
qed

lemma hist_calls: "hist es s \<Longrightarrow> calls s r \<Longrightarrow> hist es (fst r) \<and> seen es (snd r)"
  using hist_same hist_may_get unfolding calls_def seen_def by blast

lemma hist_quiet: "hist es s \<Longrightarrow> sc_conns t = sc_conns s \<Longrightarrow> sc_viewers t = sc_viewers s \<Longrightarrow> sc_raw t = sc_raw s \<Longrightarrow> hist es t"
  by (simp only: hist_def)

lemma histI:
  "(\<And>i c. sc_conns s i = Some c \<Longrightarrow> cn_ready c = OPEN \<Longrightarrow>
      Connection i (Some (cn_email c)) \<in> set es \<and> (cn_listens c \<or> cn_ping c \<longrightarrow> checked es (cn_email c))) \<Longrightarrow>
   (\<And>i. (i, WebViewer) \<in> set (sc_viewers s) \<or> i \<in> set (sc_raw s) \<Longrightarrow> \<exists>c. sc_conns s i = Some c \<and> cn_listens c) \<Longrightarrow> hist es s"
  unfolding hist_def by blast

lemma histD:
  "hist es s \<Longrightarrow> sc_conns s i = Some c \<Longrightarrow> cn_ready c = OPEN \<Longrightarrow>
     Connection i (Some (cn_email c)) \<in> set es \<and> (cn_listens c \<or> cn_ping c \<longrightarrow> checked es (cn_email c))"
  "hist es s \<Longrightarrow> (i, WebViewer) \<in> set (sc_viewers s) \<or> i \<in> set (sc_raw s) \<Longrightarrow> \<exists>c. sc_conns s i = Some c \<and> cn_listens c"
  unfolding hist_def by blast+

lemma hist_raw: "hist es t \<Longrightarrow> sc_conns t i = Some c \<Longrightarrow> cn_listens c \<Longrightarrow> hist es (t\<lparr>sc_raw := sc_raw t @ [i]\<rparr>)"
proof -
  assume h: "hist es t" and c: "sc_conns t i = Some c" "cn_listens c"
  show ?thesis
  proof (rule histI)
    fix j d
    assume "sc_conns (t\<lparr>sc_raw := sc_raw t @ [i]\<rparr>) j = Some d" "cn_ready d = OPEN"
    then show "Connection j (Some (cn_email d)) \<in> set es \<and> (cn_listens d \<or> cn_ping d \<longrightarrow> checked es (cn_email d))"
      using histD(1) [OF h, of j d] by simp
  next
    fix j
    assume "(j, WebViewer) \<in> set (sc_viewers (t\<lparr>sc_raw := sc_raw t @ [i]\<rparr>)) \<or> j \<in> set (sc_raw (t\<lparr>sc_raw := sc_raw t @ [i]\<rparr>))"
    then show "\<exists>d. sc_conns (t\<lparr>sc_raw := sc_raw t @ [i]\<rparr>) j = Some d \<and> cn_listens d"
      using histD(2) [OF h, of j] c by auto
  qed
qed

text \<open>A client that changes keeps what it owes.\<close>

lemma hist_conn:
  assumes "hist es s" and "cn_listens (the (sc_conns s i)) \<longrightarrow> cn_listens c"
    and "cn_ready c = OPEN \<Longrightarrow> Connection i (Some (cn_email c)) \<in> set es \<and> (cn_listens c \<or> cn_ping c \<longrightarrow> checked es (cn_email c))"
  shows "hist es (set_conn i c s)"
  using assms unfolding hist_def set_conn_def by (auto split: if_splits)

lemma seen_Nil: "seen es []"
  by (simp add: seen_def)

lemma hist_connection:
  assumes "hist es s" and "Connection i user \<in> set es"
  shows "hist es (fst (connection i user s)) \<and> seen es (snd (connection i user s))"
proof (cases "sc_conns s i")
  case None
  have none: "hist es (set_conn i c s)" if "\<not> cn_listens c" "\<not> cn_ping c" "cn_ready c = OPEN \<Longrightarrow> Connection i (Some (cn_email c)) \<in> set es" for c
    using assms(1) None that unfolding hist_def set_conn_def by (auto split: if_splits)
  have later: "hist es (later t u)" if "hist es u" for t u by (rule hist_quiet [OF that]) (simp_all add: later_def)
  show ?thesis
  proof (cases user)
    case None
    have "hist es (set_conn i \<lparr>cn_email = [], cn_ready = CLOSING, cn_listens = False, cn_ping = False\<rparr> s)" by (rule none) simp_all
    then show ?thesis using None \<open>sc_conns s i = None\<close> by (simp add: connection_def seen_def)
  next
    case (Some email)
    have "hist es (set_conn i \<lparr>cn_email = email, cn_ready = OPEN, cn_listens = False, cn_ping = False\<rparr> s)"
      by (rule none) (use assms(2) Some in simp_all)
    then show ?thesis using Some \<open>sc_conns s i = None\<close> later by (simp add: connection_def seen_def)
  qed
next
  case (Some c)
  then show ?thesis using assms(1) by (simp add: connection_def seen_Nil)
qed

text \<open>The check of a client: the handlers are installed for an open client only if it is the user of the device.\<close>

lemma hist_listen:
  assumes "hist es s" and "sc_conns s i = Some c" and "cn_ready c = OPEN \<Longrightarrow> checked es (cn_email c)"
  shows "hist es (fst (listen opts i s))"
proof -
  have "hist es (set_conn i (c\<lparr>cn_listens := True\<rparr>) s)"
    using assms(1,2,3) by (intro hist_conn) (auto simp: hist_def)
  from hist_raw [OF this, of i "c\<lparr>cn_listens := True\<rparr>"] this show ?thesis
    using assms(2) by (simp add: listen_def set_conn_def)
qed

lemma hist_checked:
  assumes h: "hist es s" and a: "\<And>email. ans = UsedBy email \<Longrightarrow> checked es email"
  shows "hist es (fst (group_checked opts i retried ans s)) \<and> seen es (snd (group_checked opts i retried ans s))"
proof (cases "sc_conns s i")
  case None
  then show ?thesis using h by (simp add: group_checked_def seen_Nil)
next
  case (Some c)
  have r: "hist es (fst (and_then (ws_refused i c m n s) (listen opts i))) \<and> seen es (snd (and_then (ws_refused i c m n s) (listen opts i)))" for m n
  proof -
    let ?c = "c\<lparr>cn_ready := (if cn_ready c = CLOSED then CLOSED else CLOSING)\<rparr>"
    have "hist es (set_conn i ?c s)" using h Some by (intro hist_conn) (auto split: if_splits)
    moreover have "hist es (fst (listen opts i (set_conn i ?c s)))"
      by (rule hist_listen [OF calculation, of _ ?c]) (simp_all add: set_conn_def split: if_splits)
    moreover have "seen es (snd (ws_refused i c m n s))" by (simp add: ws_refused_def raw_send_def seen_def)
    moreover have "snd (listen opts i t) = []" for t by (simp add: listen_def)
    ultimately show ?thesis by (simp add: and_then_def ws_refused_def Let_def)
  qed
  have p: "hist es (fst (and_then (set_conn i (c\<lparr>cn_ping := True\<rparr>) s, raw_send i c AuthSuccess) (listen opts i))) \<and>
      seen es (snd (and_then (set_conn i (c\<lparr>cn_ping := True\<rparr>) s, raw_send i c AuthSuccess) (listen opts i)))"
    if e: "ans = UsedBy (cn_email c)"
  proof -
    let ?c = "c\<lparr>cn_ping := True\<rparr>"
    have ch: "checked es (cn_email c)" by (rule a [OF e])
    have "hist es (set_conn i ?c s)" using h Some ch by (intro hist_conn) (auto simp: hist_def)
    moreover have "hist es (fst (listen opts i (set_conn i ?c s)))"
      by (rule hist_listen [OF calculation, of _ ?c]) (simp_all add: set_conn_def ch)
    moreover have "seen es (raw_send i c AuthSuccess)" using h Some ch by (auto simp: raw_send_def seen_def hist_def)
    moreover have "snd (listen opts i t) = []" for t by (simp add: listen_def)
    ultimately show ?thesis by (simp add: and_then_def Let_def)
  qed
  have w: "hist es (later (GroupTask i True) s)" by (rule hist_quiet [OF h]) (simp_all add: later_def)
  show ?thesis using Some r p w h by (simp add: group_checked_def seen_def split: group_answer.split)
qed

lemma om_set_entries: "set (om_set k v m) \<subseteq> insert (k, v) (set m)"
  by (induction m) (auto simp: om_set_def)

lemma hist_insert:
  assumes h: "hist es s" and v: "v = WebViewer \<Longrightarrow> cn_listens (the (sc_conns s i)) \<and> sc_conns s i \<noteq> None"
  shows "hist es (fst (broadcast_insert opts i v s)) \<and> seen es (snd (broadcast_insert opts i v s))"
proof (cases "om_has (sc_viewers s) i")
  case True
  then show ?thesis using h by (simp add: broadcast_insert_def seen_Nil)
next
  case False
  let ?s = "s\<lparr>sc_viewers := om_set i v (sc_viewers s)\<rparr>"
  have "set (om_set i v (sc_viewers s)) \<subseteq> insert (i, v) (set (sc_viewers s))"
    by (rule om_set_entries)
  then have w: "(j, WebViewer) \<in> set (sc_viewers s) \<or> j = i \<and> v = WebViewer" if "(j, WebViewer) \<in> set (om_set i v (sc_viewers s))" for j
    using that by auto
  have hs: "hist es ?s"
  proof (rule histI)
    fix j d
    assume "sc_conns ?s j = Some d" "cn_ready d = OPEN"
    then show "Connection j (Some (cn_email d)) \<in> set es \<and> (cn_listens d \<or> cn_ping d \<longrightarrow> checked es (cn_email d))"
      using histD(1) [OF h, of j d] by simp
  next
    fix j
    assume "(j, WebViewer) \<in> set (sc_viewers ?s) \<or> j \<in> set (sc_raw ?s)"
    then show "\<exists>d. sc_conns ?s j = Some d \<and> cn_listens d" using histD(2) [OF h, of j] w [of j] v by auto
  qed
  have a: "calls ?s (on_start opts ?s i)" "calls ?s (?s, [])" using calls_on calls_config by blast+
  have "calls ?s (and_then r (\<lambda>t. if length (sc_viewers t) = 1 then producer_start opts t else (t, [])))" if "calls ?s r" for r
    by (rule calls_then [OF that]) (use calls_wishes calls_config in simp)
  then have "calls ?s (broadcast_insert opts i v s)" using False a by (simp add: broadcast_insert_def Let_def)
  then show ?thesis using hist_calls [OF hs] by blast
qed

lemma hist_message: "hist es s \<Longrightarrow> hist es (fst (ws_message opts i data s)) \<and> seen es (snd (ws_message opts i data s))"
proof -
  assume h: "hist es s"
  have "hist es (fst (updateProjection opts a b s)) \<and> seen es (snd (updateProjection opts a b s))" for a b
    by (rule hist_calls [OF h]) (simp add: updateProjection_def calls_config)
  moreover have "hist es (fst (broadcast_remove opts i s)) \<and> seen es (snd (broadcast_remove opts i s))" by (rule hist_calls [OF h calls_remove])
  moreover have "hist es (fst (broadcast_insert opts i WebViewer s)) \<and> seen es (snd (broadcast_insert opts i WebViewer s))"
    if "sc_conns s i = Some c" "cn_listens c" for c
    by (rule hist_insert [OF h]) (simp add: that)
  ultimately show ?thesis using h by (simp add: ws_message_def seen_Nil split: option.split screen_request.split)
qed

lemma hist_gone: "hist es s \<Longrightarrow> r \<noteq> OPEN \<Longrightarrow> hist es (fst (client_gone opts r i s)) \<and> seen es (snd (client_gone opts r i s))"
proof -
  assume h: "hist es s" and r: "r \<noteq> OPEN"
  have c: "hist es (set_conn i (c\<lparr>cn_ready := r, cn_ping := b\<rparr>) s)" "hist es (set_conn i (c\<lparr>cn_ready := r\<rparr>) s)" if "sc_conns s i = Some c" for c b
    using h r that by (intro hist_conn; simp)+
  then have "hist es (fst (broadcast_remove opts i (set_conn i (c\<lparr>cn_ready := r, cn_ping := False\<rparr>) s))) \<and>
      seen es (snd (broadcast_remove opts i (set_conn i (c\<lparr>cn_ready := r, cn_ping := False\<rparr>) s)))" if "sc_conns s i = Some c" for c
    using hist_calls [OF _ calls_remove] that by blast
  then show ?thesis using h c by (simp add: client_gone_def seen_Nil split: option.split)
qed

lemma hist_ping: "hist es s \<Longrightarrow> hist es (fst (ping_client opts i s)) \<and> seen es (snd (ping_client opts i s))"
proof -
  assume h: "hist es s"
  have "hist es (fst (ws_send opts i Ping s)) \<and> seen es (snd (ws_send opts i Ping s))" if "sc_conns s i = Some c" "cn_ping c" for c
    by (rule hist_calls [OF h calls_send]) (simp add: that)
  then show ?thesis using h by (simp add: ping_client_def seen_Nil split: option.split)
qed

lemma hist_step:
  assumes h: "hist es s"
  shows "hist (es @ [e]) (fst (screen_step opts s e)) \<and> seen (es @ [e]) (snd (screen_step opts s e))"
proof (cases "sc_alive s")
  case False
  then show ?thesis using hist_mono [OF h, of "es @ [e]"] by (simp add: screen_step_def seen_Nil subset_iff)
next
  case True
  let ?es = "es @ [e]"
  have h': "hist ?es s" by (rule hist_mono [OF h]) auto
  have c: "hist ?es (fst r) \<and> seen ?es (snd r)" if "calls s r" for r by (rule hist_calls [OF h' that])
  have "hist ?es (fst (screen_event_step opts s e)) \<and> seen ?es (snd (screen_event_step opts s e))"
  proof (cases e)
    case (Connection i user)
    then show ?thesis using hist_connection [OF h'] by simp
  next
    case (ClientMessage i data)
    then show ?thesis using hist_message [OF h'] by simp
  next
    case (ClientCloses i)
    then show ?thesis using hist_gone [OF h'] by simp
  next
    case (ClientError i)
    then show ?thesis using hist_gone [OF h'] by simp
  next
    case (PingTimer i)
    then show ?thesis using hist_ping [OF h'] by simp
  next
    case (VncInsert i)
    then show ?thesis using hist_insert [OF h', of VncViewer] by simp
  next
    case (RawData d)
    have "calls s (run (\<lambda>t i. ws_send opts i (Binary d) t) s (sc_raw s))" by (rule calls_run) (simp add: calls_send)
    then show ?thesis using c RawData by simp
  next
    case (ResumeTask k ans now)
    show ?thesis
    proof (cases "k < length (sc_tasks s)")
      case True
      let ?s = "s\<lparr>sc_tasks := remove_nth k (sc_tasks s)\<rparr>"
      have hs: "hist ?es ?s" by (rule hist_quiet [OF h']) simp_all
      show ?thesis
      proof (cases "\<exists>i retried. sc_tasks s ! k = GroupTask i retried")
        case True
        have "checked ?es email" if "ans = Group (UsedBy email)" for email using that ResumeTask by (auto simp: checked_def)
        then have "hist ?es (fst (group_checked opts i retried (case ans of Group g \<Rightarrow> g | _ \<Rightarrow> GroupError) ?s)) \<and>
            seen ?es (snd (group_checked opts i retried (case ans of Group g \<Rightarrow> g | _ \<Rightarrow> GroupError) ?s))" for i retried
          by (intro hist_checked [OF hs]) (auto split: screen_answer.splits)
        then show ?thesis using True ResumeTask \<open>k < length (sc_tasks s)\<close> by auto
      next
        case False
        then show ?thesis using hist_calls [OF hs calls_resume [OF False]] ResumeTask \<open>k < length (sc_tasks s)\<close> by simp
      qed
    next
      case False
      then show ?thesis using ResumeTask h' by (simp add: seen_Nil)
    qed
  next
    case (VncRemove i)
    then show ?thesis using c [OF calls_remove] by simp
  next
    case (RotationChange r)
    have "calls s (updateRotation opts r s)" using calls_config by (simp add: updateRotation_def)
    then show ?thesis using c RotationChange by simp
  next
    case (ChangeQuality q)
    have "calls s (changeQuality opts q s)" using calls_config by (simp add: changeQuality_def)
    then show ?thesis using c ChangeQuality by simp
  next
    case GracefulStop
    then show ?thesis using c [OF calls_wishes(2)] by simp
  next
    case (OutputLine k line)
    then show ?thesis using c [OF calls_line] by simp
  next
    case (SocketData k b)
    then show ?thesis using c [OF calls_data] by simp
  next
    case (ScreenStreamEnds k now)
    then show ?thesis using c [OF calls_ended] by simp
  qed
  then show ?thesis using True by (simp add: screen_step_def)
qed

lemma hist_run:
  "hist es s \<Longrightarrow> hist (es @ fs) (fst (run (screen_step opts) s fs)) \<and> seen (es @ fs) (snd (run (screen_step opts) s fs))"
proof (induction fs arbitrary: es s)
  case Nil
  then show ?case by (simp add: seen_Nil)
next
  case (Cons e fs)
  have a: "hist (es @ [e]) (fst (screen_step opts s e))" "seen (es @ e # fs) (snd (screen_step opts s e))"
    using hist_step [OF Cons.prems, of e opts] seen_mono [of "es @ [e]" _ "es @ e # fs"] by auto
  show ?case using Cons.IH [OF a(1)] a(2) by (auto simp: Let_def seen_def)
qed

text \<open>
  C8. Only the user of the device sees it: whatever the events, a web socket client that is sent anything but a refusal (the banner,
  a frame, a ping, data of scrcpy) came with a valid token, and the device was found to be used by the user of that token.
\<close>

theorem only_the_user_sees_the_screen:
  assumes "WsSend i m \<in> set (snd (run (screen_step opts) (screen_new grabber config) es))" and "\<And>msg. m \<noteq> AuthError msg"
  shows "\<exists>email k now. Connection i (Some email) \<in> set es \<and> ResumeTask k (Group (UsedBy email)) now \<in> set es"
proof -
  have "hist [] (screen_new grabber config)" by (simp add: hist_def screen_new_def)
  from hist_run [OF this, of es opts] have "seen es (snd (run (screen_step opts) (screen_new grabber config) es))" by simp
  then show ?thesis using assms unfolding seen_def checked_def by blast
qed

section \<open>Concrete runs\<close>

lemmas screen_eval = Let_def screen_step_def broadcast_insert_def broadcast_remove_def screen_new_def and_then_def producer_start_def producer_stop_def
  producer_restart_def ensure_def next_desired_def wish_def stq_next_def start_minicap_def later_def service_runs_def open_stream_def remove_nth_def
  output_line_def trim_def is_ws_def pid_of_line_def read_digits_def is_digit_def connect_minicap_def minicap_connected_def om_has_def om_set_def om_del_def
  socket_data_def banner_data_def banner_there_def read_frames_def readable_listener_def maybe_emit_readable_def on_readable_def
  readable_loop_closed next_frame_def broadcast_frame_def emit_start_def on_frame_def on_start_def om_keys_def om_get_def
  screen_stream_ended_def screen_failure_def fail_inc_def disconnect_def will_end_def stop_minicap_def kill_minicap_def force_end_output_def
  stop_done_def cleared_def start_fails_def

definition sample_config :: frame_config where
  "sample_config = \<lparr>fc_real_width = 1080, fc_real_height = 1920, fc_virtual_width = 540, fc_virtual_height = 960, fc_rotation = 0, fc_quality = 80\<rparr>"

text \<open>A short banner and two frames, and how they are read.\<close>

definition sample_stream :: "byte list" where
  "sample_stream = [1, 3, 0, 2, 0, 0, 0, 7, 8, 1, 0, 0, 0, 9]"

lemma sample_banner_read:
  "try_read banner_start sample_stream = (Resolved (banner_new\<lparr>sb_version := 1, sb_length := 3\<rparr>), [2, 0, 0, 0, 7, 8, 1, 0, 0, 0, 9])"
  by (simp add: sample_stream_def try_read.simps banner_start_def read_exactly_def Let_def take_byte_def banner_byte_def banner_new_def)

definition sample_parser :: frame_parser where
  "sample_parser = \<lparr>fp_read = 0, fp_need = 0, fp_body = None, fp_cursor = 6, fp_chunk = Some [2, 0, 0, 0, 7, 8, 1, 0, 0, 0, 9]\<rparr>"

lemma sample_pull: "pull fp_new [2, 0, 0, 0, 7, 8, 1, 0, 0, 0, 9] = (Frame [7, 8], sample_parser, [])"
  by (simp add: pull.simps fp_new_def fp_next_def fp_push_def fp_loop.simps Let_def body_with_def sample_parser_def)

text \<open>A viewer arrives, minicap starts, tells its process, is connected to, and sends everything at once.\<close>

definition sample_events :: "screen_event list" where
  "sample_events = [VncInsert 7, ResumeTask 0 Done 0, OutputLine 0 ''PID: 42'', ResumeTask 0 Done 0, ResumeTask 0 Done 0,
     SocketData 1 sample_stream, ResumeTask 0 Done 0]"

definition sample_screen :: screen where
  "sample_screen = fst (run (minicap_step 0) (screen_new ''minicap-bin'' sample_config) sample_events)"

lemma sample_run:
  "sample_screen = \<lparr>sc_alive = True, sc_running = STATE_STARTED, sc_desired = [], sc_output = Some 0, sc_socket = Some 1, sc_pid = 42,
     sc_banner = Some (banner_new\<lparr>sb_version := 1, sb_length := 3\<rparr>), sc_parser = Some sample_parser, sc_config = sample_config,
     sc_grabber = ''minicap-bin'', sc_readable = True, sc_needs = False, sc_failures = [], sc_failed = False, sc_opened = 2,
     sc_ended = (\<lambda>_. False), sc_expected = (\<lambda>_. False), sc_piped = (\<lambda>_. False)(0 := True), sc_heard = (\<lambda>_. False)(1 := True),
     sc_buffer = (\<lambda>_. []), sc_tasks = [NextTask], sc_viewers = [(7, VncViewer)], sc_conns = (\<lambda>_. None), sc_raw = []\<rparr>"
  by (simp add: sample_screen_def sample_events_def minicap_step_def screen_eval sample_banner_read sample_pull fun_eq_iff)

text \<open>The first frame is sent before the viewer is told that the screen starts.\<close>

lemma sample_outputs:
  "snd (run (minicap_step 0) (screen_new ''minicap-bin'' sample_config) sample_events) =
   [RunMinicap ''minicap-bin'' (start_command \<lparr>so_scrcpy = False, so_rate = 0\<rparr> sample_config), OpenMinicap, VncFrame 7 [7, 8], VncStart 7]"
  by (simp add: sample_events_def minicap_step_def screen_eval sample_banner_read sample_pull fun_eq_iff)

section \<open>Witnesses\<close>

theorem wishes_are_heeded_witness:
  "heeded (fst (run (minicap_step 0) (screen_new ''minicap-bin'' sample_config) sample_events)) \<and>
   base [] (fst (run (minicap_step 0) (screen_new ''minicap-bin'' sample_config) sample_events))"
  by (rule wishes_are_heeded) (simp add: sample_screen_def [symmetric] sample_run)

theorem watched_screen_is_on_witness:
  "sc_running sample_screen = STATE_STARTED \<and> sc_socket sample_screen \<noteq> None \<and> sc_parser sample_screen \<noteq> None"
  by (rule watched_screen_is_on [OF _ sample_screen_def]) (simp_all add: sample_run phases_def, simp add: sample_events_def)

lemma sample_holds: "holds_bytes (concat (map wire_frame [[9]])) sample_parser (sc_buffer sample_screen 1)"
  unfolding holds_bytes_def
  by (intro exI [of _ "[]"]) (simp add: sample_parser_def parsing_def sample_run wire_frame_def put_le_4)

theorem frames_reach_viewers_witness:
  "snd (run (screen_step \<lparr>so_scrcpy = False, so_rate = 0\<rparr>) sample_screen (replicate 2 (ResumeTask 0 Done 5))) = [VncFrame 7 [9]]"
proof -
  have f: "sc_alive sample_screen" "sc_parser sample_screen = Some sample_parser" "sc_socket sample_screen = Some 1" "list_all frame_ok [[9]]"
    "sc_tasks sample_screen = [] @ [NextTask]" "\<forall>i \<in> set (om_keys (sc_viewers sample_screen)). watching sample_screen i"
    by (simp_all add: sample_run frame_ok_def watching_def om_keys_def om_get_def)
  have e: "replicate 2 (ResumeTask 0 Done 5) = replicate (Suc (length [[9 :: byte]])) (ResumeTask (length ([] :: screen_task list)) Done 5)"
    by (simp add: numeral_2_eq_2)
  show ?thesis unfolding e conjunct1 [OF frames_reach_viewers [OF f(1-3) sample_holds f(4-6)]]
    by (simp add: sample_run om_keys_def om_get_def frame_out_def)
qed

text \<open>Both streams end on their own while a frame waits to be taken; the stop runs through.\<close>

definition sample_torn :: screen where
  "sample_torn = fst (run (minicap_step 0) sample_screen [ScreenStreamEnds 1 0, ScreenStreamEnds 0 0, ResumeTask 1 Done 0, ResumeTask 1 Done 0])"

lemma sample_torn:
  "sc_alive sample_torn \<and> sc_tasks sample_torn = [NextTask, RunTask] \<and> sc_parser sample_torn = None \<and> sc_readable sample_torn"
  by (simp add: sample_torn_def sample_run minicap_step_def screen_eval)

theorem readable_never_returns_witness:
  "readable_loop \<lparr>so_scrcpy = False, so_rate = 0\<rparr> (sample_torn\<lparr>sc_tasks := [RunTask]\<rparr>) = None \<and>
   snd (screen_step \<lparr>so_scrcpy = False, so_rate = 0\<rparr> sample_torn (ResumeTask 0 Done 0)) = [StackOverflow]"
proof -
  have t: "sc_alive sample_torn" "0 < length (sc_tasks sample_torn)" "sc_tasks sample_torn ! 0 = NextTask" "sc_parser sample_torn = None"
    "sc_readable sample_torn" using sample_torn by simp_all
  show ?thesis
    using readable_never_returns [where opts = "\<lparr>so_scrcpy = False, so_rate = 0\<rparr>" and ans = Done and now = 0, OF t] sample_torn by (simp add: remove_nth_def)
qed

definition sample_failed :: screen where
  "sample_failed = fst (run (minicap_step 0) (screen_new ''minicap-bin'' sample_config)
     [VncInsert 7, ResumeTask 0 (Fails ''operation timed out'') 0, ResumeTask 0 Done 0])"

theorem failed_start_is_not_retried_witness:
  "sc_running (fst (minicap_step 0 sample_failed (ResumeTask 0 Done 0))) = STATE_STOPPED \<and>
   snd (minicap_step 0 (fst (minicap_step 0 sample_failed (ResumeTask 0 Done 0))) (VncInsert 8)) = []"
proof -
  have s: "sc_alive sample_failed" "sc_tasks sample_failed = [StoppedTask StartFailed]" "sc_desired sample_failed = []"
    "sc_failures sample_failed = []" "om_keys (sc_viewers sample_failed) = [7]"
    by (simp_all add: sample_failed_def minicap_step_def screen_eval)
  show ?thesis
    using failed_start_is_not_retried [where j = 8 and opts = "\<lparr>so_scrcpy = False, so_rate = 0\<rparr>" and now = 0, OF s _ refl] by (simp add: minicap_step_def)
qed

definition sample_unwatched :: "bool \<Rightarrow> screen" where
  "sample_unwatched scrcpy = fst (run (screen_step \<lparr>so_scrcpy = scrcpy, so_rate = 0\<rparr>) (screen_new ''minicap-bin'' sample_config) [VncInsert 7, VncRemove 7])"

theorem unwatched_screen_is_revived_witness:
  "aim (sample_unwatched False) = STATE_STOPPED \<and>
   aim (fst (screen_step \<lparr>so_scrcpy = False, so_rate = 0\<rparr> (sample_unwatched False) (RotationChange 90))) = STATE_STARTED"
proof -
  have s: "sc_alive (sample_unwatched False)" "sc_running (sample_unwatched False) = STATE_STARTING" "sc_desired (sample_unwatched False) = [STATE_STOPPED]"
    "sc_viewers (sample_unwatched False) = []" "fc_rotation (sc_config (sample_unwatched False)) \<noteq> 90"
    by (simp_all add: sample_unwatched_def screen_eval sample_config_def)
  show ?thesis using unwatched_screen_is_revived(1,2) [OF s] by simp
qed

theorem scrcpy_forgets_the_stop_witness:
  "sc_running (fst (screen_step \<lparr>so_scrcpy = True, so_rate = 0\<rparr> (sample_unwatched True) (ResumeTask 0 Done 0))) = STATE_STARTED"
proof -
  have s: "sc_alive (sample_unwatched True)" "sc_tasks (sample_unwatched True) = [ScrcpyTask]" "sc_desired (sample_unwatched True) = [STATE_STOPPED]"
    "sc_viewers (sample_unwatched True) = []" by (simp_all add: sample_unwatched_def screen_eval)
  show ?thesis using scrcpy_forgets_the_stop [OF s refl] by blast
qed

theorem refused_client_resizes_witness:
  "sc_running (fst (run (minicap_step 0) sample_screen
     [Connection 3 (Some ''a''), ResumeTask 1 (Group (UsedBy ''b'')) 0, ClientMessage 3 ''size 12x34''])) = STATE_STOPPING"
proof -
  have p: "parse_request ''size 12x34'' = Some (Size 12 34)" by (simp add: parse_request_def read_digits_def is_digit_def)
  have s: "sc_alive sample_screen" "sc_conns sample_screen 3 = None" "''a'' \<noteq> ''b''" by (simp_all add: sample_run)
  have t: "fc_virtual_width (sc_config sample_screen) \<noteq> 12" "sc_running sample_screen = STATE_STARTED" "sc_desired sample_screen = []"
    "\<not> sc_failed sample_screen" "length (sc_tasks sample_screen) = 1" by (simp_all add: sample_run sample_config_def)
  show ?thesis using refused_client_resizes [where opts = "\<lparr>so_scrcpy = False, so_rate = 0\<rparr>" and now = 0, OF s p t(1-4) refl] t(5) by (simp add: minicap_step_def)
qed

theorem only_the_user_sees_the_screen_witness:
  "\<exists>email k now. Connection 3 (Some email) \<in> set [Connection 3 (Some ''me''), ResumeTask 0 (Group (UsedBy ''me'')) 9] \<and>
     ResumeTask k (Group (UsedBy email)) now \<in> set [Connection 3 (Some ''me''), ResumeTask 0 (Group (UsedBy ''me'')) 9]"
  by (rule only_the_user_sees_the_screen [where m = AuthSuccess and opts = "\<lparr>so_scrcpy = False, so_rate = 0\<rparr>" and grabber = "''minicap-bin''" and config = sample_config])
    (simp_all add: screen_eval connection_def set_conn_def group_checked_def raw_send_def listen_def)

end
