(* ===== verification/Js_Values.thy ===== *)
theory Js_Values imports Complex_Main Prelude "HOL-Library.AList" begin

text \<open>
  Values of the language where a component keeps or passes on what it does not look into: trees of fields. With them the documents of
  the database: \<open>stored\<close> is what the driver writes (an undefined field is written as null), and \<open>apply_set\<close> is \<open>$set\<close>, a list of paths
  with their values, which makes the objects that are missing on a path and fails at anything else that is no object. The lemmas say
  which fields an update leaves alone.
\<close>

section \<open>Values\<close>

datatype js = JUndef | JNull | JBool bool | JNum rat | JStr string | JArr "js list" | JObj "(string \<times> js) list" | JText js

text \<open>
  \<open>JText x\<close> stands for the text that \<open>JSON.stringify\<close> makes of \<open>x\<close>. \<open>jstr\<close>: what a value adds to the name of an event, which is a
  string where the program does so.
\<close>

definition jget :: "string \<Rightarrow> js \<Rightarrow> js" where
  "jget k x = (case x of JObj kv \<Rightarrow> (case map_of kv k of Some v \<Rightarrow> v | None \<Rightarrow> JUndef) | _ \<Rightarrow> JUndef)"

definition jset :: "string \<Rightarrow> js \<Rightarrow> js \<Rightarrow> js" where
  "jset k v x = (case x of JObj kv \<Rightarrow> JObj (AList.update k v kv) | _ \<Rightarrow> x)"

definition jdel :: "string \<Rightarrow> js \<Rightarrow> js" where
  "jdel k x = (case x of JObj kv \<Rightarrow> JObj (AList.delete k kv) | _ \<Rightarrow> x)"

definition falsy :: "js \<Rightarrow> bool" where
  "falsy x = (x = JUndef \<or> x = JNull \<or> x = JBool False \<or> x = JNum 0 \<or> x = JStr [])"

definition jstr :: "js \<Rightarrow> string" where
  "jstr x = (case x of JStr s \<Rightarrow> s | _ \<Rightarrow> ''undefined'')"

definition jhas :: "js \<Rightarrow> string \<Rightarrow> bool" where
  "jhas x s = (case x of JArr xs \<Rightarrow> JStr s \<in> set xs | _ \<Rightarrow> False)"

definition jlist :: "js \<Rightarrow> js list" where
  "jlist x = (case x of JArr xs \<Rightarrow> xs | _ \<Rightarrow> [])"

definition picked :: "string list \<Rightarrow> js \<Rightarrow> (string \<times> js) list" where
  "picked ks m = map (\<lambda>k. (k, jget k m)) ks"

definition one_of :: "string list \<Rightarrow> js \<Rightarrow> bool" where
  "one_of gs x = (case x of JStr g \<Rightarrow> g \<in> set gs | _ \<Rightarrow> False)"

section \<open>Documents\<close>

primrec stored :: "js \<Rightarrow> js" where
  "stored JUndef = JNull"
| "stored JNull = JNull"
| "stored (JBool b) = JBool b"
| "stored (JNum x) = JNum x"
| "stored (JStr s) = JStr s"
| "stored (JArr xs) = JArr (map stored xs)"
| "stored (JObj kv) = JObj (map (map_prod id stored) kv)"
| "stored (JText x) = JText x"

type_synonym dset = "(string list \<times> js) list"

fun set_path :: "string list \<Rightarrow> js \<Rightarrow> js \<Rightarrow> js option" where
  "set_path [] v x = Some v"
| "set_path (k # ks) v (JObj kv) =
     map_option (\<lambda>y. JObj (AList.update k y kv)) (set_path ks v (case map_of kv k of Some y \<Rightarrow> y | None \<Rightarrow> JObj []))"
| "set_path (k # ks) v x = None"

fun apply_set :: "dset \<Rightarrow> js \<Rightarrow> js option" where
  "apply_set [] d = Some d"
| "apply_set ((p, v) # u) d = Option.bind (set_path p (stored v) d) (apply_set u)"

definition whole :: "(string \<times> js) list \<Rightarrow> dset" where
  "whole kv = map (\<lambda>(k, v). ([k], v)) kv"

definition is_doc :: "js \<Rightarrow> bool" where
  "is_doc d = (case d of JObj kv \<Rightarrow> True | _ \<Rightarrow> False)"

text \<open>The first fields of the paths of an update.\<close>

definition heads :: "dset \<Rightarrow> string list" where
  "heads u = map (\<lambda>(p, v). hd p) u"

definition paths_ok :: "dset \<Rightarrow> bool" where
  "paths_ok u = list_all (\<lambda>(p, v). p \<noteq> []) u"

lemma whole_simps [simp]: "whole [] = []" "whole ((k, v) # kv) = ([k], v) # whole kv" "whole (xs @ ys) = whole xs @ whole ys"
  by (simp_all add: whole_def)

lemma heads_simps [simp]: "heads [] = []" "heads ((p, v) # u) = hd p # heads u" "heads (u @ w) = heads u @ heads w"
  by (simp_all add: heads_def)

lemma paths_ok_simps [simp]: "paths_ok []" "paths_ok ((p, v) # u) = (p \<noteq> [] \<and> paths_ok u)" "paths_ok (u @ w) = (paths_ok u \<and> paths_ok w)"
  by (simp_all add: paths_ok_def)

lemma paths_ok_whole [simp]: "paths_ok (whole kv)"
  by (induction kv) auto

lemma heads_whole [simp]: "heads (whole kv) = map fst kv"
  by (induction kv) auto

lemma is_doc_obj [simp]: "is_doc (JObj kv)"
  by (simp add: is_doc_def)

lemma jget_update: "jget j (JObj (AList.update k v kv)) = (if j = k then v else jget j (JObj kv))"
  by (simp add: jget_def update_conv')

lemma set_path_doc: "set_path (k # ks) v d = Some e \<Longrightarrow> is_doc d \<and> is_doc e"
  by (cases d) auto

lemma set_path_one: "is_doc d \<Longrightarrow> \<exists>e. set_path [k] v d = Some e \<and> is_doc e \<and> (\<forall>j. jget j e = (if j = k then v else jget j d))"
  by (cases d) (auto simp: is_doc_def jget_update)

lemma set_path_other: "set_path (k # ks) v d = Some e \<Longrightarrow> j \<noteq> k \<Longrightarrow> jget j e = jget j d"
  by (cases d) (auto simp: jget_update)

lemma apply_set_append: "apply_set (u @ w) d = Option.bind (apply_set u d) (apply_set w)"
  by (induction u d rule: apply_set.induct) (auto split: bind_splits)

lemma apply_set_doc: "apply_set u d = Some e \<Longrightarrow> paths_ok u \<Longrightarrow> is_doc d \<Longrightarrow> is_doc e"
proof (induction u d rule: apply_set.induct)
  case (2 p v u d)
  then show ?case by (cases p) (auto simp: bind_eq_Some_conv dest: set_path_doc)
qed auto

lemma apply_set_other: "apply_set u d = Some e \<Longrightarrow> paths_ok u \<Longrightarrow> j \<notin> set (heads u) \<Longrightarrow> jget j e = jget j d"
proof (induction u d rule: apply_set.induct)
  case (2 p v u d)
  then obtain k ks e1 where "p = k # ks" "set_path (k # ks) (stored v) d = Some e1" "apply_set u e1 = Some e"
    by (cases p) (auto simp: bind_eq_Some_conv)
  then show ?case using 2 by (auto simp: set_path_other)
qed auto

text \<open>An update of whole fields never fails on a document, and gives each field its last value.\<close>

fun last_field :: "(string \<times> js) list \<Rightarrow> string \<Rightarrow> js \<Rightarrow> js" where
  "last_field [] j x = x"
| "last_field ((k, v) # kv) j x = last_field kv j (if j = k then stored v else x)"

lemma apply_whole: "is_doc d \<Longrightarrow> \<exists>e. apply_set (whole kv) d = Some e \<and> is_doc e \<and> (\<forall>j. jget j e = last_field kv j (jget j d))"
proof (induction kv arbitrary: d)
  case (Cons a kv)
  obtain k v where a: "a = (k, v)" by force
  obtain e where e: "set_path [k] (stored v) d = Some e" "is_doc e" "\<forall>j. jget j e = (if j = k then stored v else jget j d)"
    using set_path_one [OF Cons.prems] by blast
  show ?case using Cons.IH [OF e(2)] e by (auto simp: a)
qed auto

end
