(* ===== verification/Device_Db.thy ===== *)
theory Device_Db imports Complex_Main Js_Values begin

text \<open>
  The documents of the devices (\<open>lib/db/models/all/model.js\<close>, \<open>lib/db/models/device/model.js\<close>): what each operation sets, the queries, and
  the ports that are given to devices. A collection is the list of its documents. An update is the serial number that it looks for and
  what it sets; it is applied to the first document that has the serial number, or fails and changes nothing. Dates are their
  milliseconds; \<open>_id\<close> and projections are left out.
\<close>

section \<open>Collections\<close>

definition has_serial :: "js \<Rightarrow> js \<Rightarrow> bool" where
  "has_serial s d = (jget ''serial'' d = s)"

text \<open>\<open>updateOne\<close>: nothing where an update fails, else the collection and how many documents have matched.\<close>

fun update_first :: "(js \<Rightarrow> bool) \<Rightarrow> dset \<Rightarrow> js list \<Rightarrow> (js list \<times> nat) option" where
  "update_first P u [] = Some ([], 0)"
| "update_first P u (d # ds) =
     (if P d then map_option (\<lambda>e. (e # ds, 1)) (apply_set u d)
      else map_option (\<lambda>(es, n). (d # es, n)) (update_first P u ds))"

fun delete_first :: "(js \<Rightarrow> bool) \<Rightarrow> js list \<Rightarrow> js list" where
  "delete_first P [] = []"
| "delete_first P (d # ds) = (if P d then ds else d # delete_first P ds)"

text \<open>\<open>insertOne\<close>: the serial number of a device is a unique index of its collection (\<open>lib/db/tables.ts\<close>, \<open>setup.ts\<close>).\<close>

definition insert_doc :: "js \<Rightarrow> js list \<Rightarrow> js list option" where
  "insert_doc d ds = (if list_ex (has_serial (jget ''serial'' d)) ds then None else Some (ds @ [d]))"

definition loadDeviceBySerial :: "js \<Rightarrow> js list \<Rightarrow> js option" where
  "loadDeviceBySerial s ds = find (has_serial s) ds"

definition loadPresentDevices :: "js list \<Rightarrow> js list" where
  "loadPresentDevices ds = filter (\<lambda>d. jget ''present'' d = JBool True) ds"

text \<open>The bound is \<open>Date.now() - time\<close>, of when the query is made; documents without a date are not compared.\<close>

definition getDeadDevice :: "rat \<Rightarrow> js list \<Rightarrow> js list" where
  "getDeadDevice bound ds =
     filter (\<lambda>d. jget ''present'' d = JBool False \<and> (case jget ''presenceChangedAt'' d of JNum t \<Rightarrow> t < bound | _ \<Rightarrow> False)) ds"

definition deleteDevice :: "js \<Rightarrow> js list \<Rightarrow> js list" where
  "deleteDevice s ds = delete_first (has_serial s) ds"

definition loadBookableDevices :: "js list \<Rightarrow> js list \<Rightarrow> js list" where
  "loadBookableDevices groups ds =
     filter (\<lambda>d. jget ''origin'' (jget ''group'' d) \<in> set groups \<and> jget ''present'' d = JBool True \<and> jget ''ready'' d = JBool True \<and>
                 jget ''owner'' d \<in> {JNull, JUndef}) ds"

definition loadDevices :: "js list \<Rightarrow> js list \<Rightarrow> js list" where
  "loadDevices groups ds = (if groups \<noteq> [] then filter (\<lambda>d. jget ''id'' (jget ''group'' d) \<in> set groups) ds else ds)"

definition loadDevice :: "js list \<Rightarrow> js \<Rightarrow> js list \<Rightarrow> js option" where
  "loadDevice groups s ds = find (\<lambda>d. has_serial s d \<and> jget ''id'' (jget ''group'' d) \<in> set groups) ds"

definition loadBookableDevice :: "js list \<Rightarrow> js \<Rightarrow> js list \<Rightarrow> js list" where
  "loadBookableDevice groups s ds =
     filter (\<lambda>d. has_serial s d \<and> jget ''origin'' (jget ''group'' d) \<in> set groups \<and> jget ''class'' (jget ''group'' d) \<noteq> JStr ''standard'') ds"

definition loadStandardDevices :: "js list \<Rightarrow> js list \<Rightarrow> js list" where
  "loadStandardDevices groups ds =
     filter (\<lambda>d. jget ''class'' (jget ''group'' d) = JStr ''standard'' \<and> jget ''id'' (jget ''group'' d) \<in> set groups) ds"

definition loadDevicesByOrigin :: "js list \<Rightarrow> js list \<Rightarrow> js list" where
  "loadDevicesByOrigin groups ds = filter (\<lambda>d. jget ''origin'' (jget ''group'' d) \<in> set groups) ds"

definition loadUserDevices :: "js \<Rightarrow> js list \<Rightarrow> js list \<Rightarrow> js list" where
  "loadUserDevices email subscribed ds =
     filter (\<lambda>d. jget ''email'' (jget ''owner'' d) = email \<and> jget ''present'' d = JBool True \<and> jget ''id'' (jget ''group'' d) \<in> set subscribed) ds"

section \<open>What the operations set\<close>

definition setDeviceConnectUrl :: "js \<Rightarrow> js \<Rightarrow> js \<times> dset" where
  "setDeviceConnectUrl s url = (s, whole [(''remoteConnectUrl'', url), (''remoteConnect'', JBool True)])"

definition unsetDeviceConnectUrl :: "js \<Rightarrow> js \<times> dset" where
  "unsetDeviceConnectUrl s = (s, whole [(''remoteConnectUrl'', JNull), (''remoteConnect'', JBool False)])"

definition saveDeviceStatus :: "rat \<Rightarrow> js \<Rightarrow> js \<Rightarrow> js \<times> dset" where
  "saveDeviceStatus now s status = (s, whole [(''status'', status), (''statusChangedAt'', JNum now)])"

definition enhanceStatusChangedAt :: "rat \<Rightarrow> js \<Rightarrow> js \<Rightarrow> js \<times> dset" where
  "enhanceStatusChangedAt now s timeout = (s, whole [(''statusChangedAt'', JNum now), (''bookedBefore'', timeout)])"

definition setDeviceOwner :: "js \<Rightarrow> js \<Rightarrow> js \<times> dset" where
  "setDeviceOwner s owner = (s, whole [(''owner'', owner)])"

definition setDevicePlace :: "js \<Rightarrow> js \<Rightarrow> js \<times> dset" where
  "setDevicePlace s place = (s, whole [(''place'', place)])"

definition setDeviceStorageId :: "js \<Rightarrow> js \<Rightarrow> js \<times> dset" where
  "setDeviceStorageId s i = (s, whole [(''storageId'', i)])"

definition unsetDeviceOwner :: "js \<Rightarrow> js \<times> dset" where
  "unsetDeviceOwner s = (s, whole [(''owner'', JNull)])"

definition setDevicePresent :: "rat \<Rightarrow> js \<Rightarrow> js \<times> dset" where
  "setDevicePresent now s = (s, whole [(''present'', JBool True), (''presenceChangedAt'', JNum now)])"

definition setDeviceAbsent :: "rat \<Rightarrow> js \<Rightarrow> js \<times> dset" where
  "setDeviceAbsent now s =
     (s, whole [(''owner'', JNull), (''usage'', JNull), (''logs_enabled'', JBool False), (''present'', JBool False), (''presenceChangedAt'', JNum now)])"

text \<open>The fields of the argument are \<open>usage\<close>, \<open>owner\<close> and \<open>timeout\<close>.\<close>

definition usage_set :: "rat \<Rightarrow> js \<Rightarrow> (string \<times> js) list" where
  "usage_set now usage =
     (if usage = JUndef then []
      else [(''usage'', usage), (''usageChangedAt'', JNum now)] @ (if falsy usage then [(''logs_enabled'', JBool False)] else []))"

definition setDeviceState :: "rat \<Rightarrow> js \<Rightarrow> js \<Rightarrow> js \<times> dset" where
  "setDeviceState now s a =
     (s, whole ([(''owner'', jget ''owner'' a)] @ usage_set now (jget ''usage'' a) @
       (case jget ''timeout'' a of JNum t \<Rightarrow> [(''statusChangedAt'', JNum now), (''bookedBefore'', JNum t)] | _ \<Rightarrow> [])))"

definition setDeviceAirplaneMode :: "js \<Rightarrow> js \<Rightarrow> js \<times> dset" where
  "setDeviceAirplaneMode s enabled = (s, whole [(''airplaneMode'', enabled)])"

definition setDeviceBattery :: "js \<Rightarrow> js \<Rightarrow> js \<times> dset" where
  "setDeviceBattery s b =
     (s, whole [(''battery'', JObj (picked [''status'', ''health'', ''source'', ''level'', ''scale'', ''temp'', ''voltage''] b))])"

definition setDeviceBrowser :: "js \<Rightarrow> js \<Rightarrow> js \<times> dset" where
  "setDeviceBrowser s b = (s, whole [(''browser'', JObj (picked [''selected'', ''apps''] b))])"

definition setDeviceServicesAvailability :: "js \<Rightarrow> js \<Rightarrow> js \<times> dset" where
  "setDeviceServicesAvailability s v = (s, whole [(''service'', JObj (picked [''hasHMS'', ''hasGMS''] v))])"

definition setDeviceConnectivity :: "js \<Rightarrow> js \<Rightarrow> js \<times> dset" where
  "setDeviceConnectivity s c =
     (s, whole [(''network'', JObj (picked [''connected'', ''type'', ''subtype''] c @
       [(''failover'', JBool (\<not> falsy (jget ''failover'' c))), (''roaming'', JBool (\<not> falsy (jget ''roaming'' c)))]))])"

definition setDevicePhoneState :: "js \<Rightarrow> js \<Rightarrow> js \<times> dset" where
  "setDevicePhoneState s p = (s, whole [(''network'', JObj (picked [''state'', ''manual'', ''operator''] p))])"

definition setDeviceRotation :: "js \<Rightarrow> js \<times> dset" where
  "setDeviceRotation m =
     (jget ''serial'' m,
      [([''display'', ''rotation''], jget ''rotation'' m)] @
      (if jget ''height'' m \<noteq> JNull then [([''display'', ''height''], jget ''height'' m), ([''display'', ''width''], jget ''width'' m)] else []))"

definition setDeviceCapabilities :: "js \<Rightarrow> js \<times> dset" where
  "setDeviceCapabilities m = (jget ''serial'' m, whole [(''capabilities'', JObj (picked [''hasCursor'', ''hasTouch''] m))])"

definition setDeviceNote :: "js \<Rightarrow> js \<Rightarrow> js \<times> dset" where
  "setDeviceNote s note = (s, whole [(''notes'', note)])"

definition setDeviceReverseForwards :: "js \<Rightarrow> js \<Rightarrow> js \<times> dset" where
  "setDeviceReverseForwards s fs = (s, whole [(''reverseForwards'', fs)])"

definition setDeviceReady :: "js \<Rightarrow> js \<Rightarrow> js \<times> dset" where
  "setDeviceReady s c =
     (s, whole [(''channel'', c), (''ready'', JBool True), (''owner'', JNull), (''present'', JBool True), (''reverseForwards'', JArr [])])"

definition saveDeviceIdentity :: "js \<Rightarrow> js \<Rightarrow> js \<times> dset" where
  "saveDeviceIdentity s i =
     (s, whole (picked [''platform'', ''manufacturer'', ''operator'', ''model'', ''version'', ''abi'', ''sdk'', ''display'', ''phone'', ''product'',
       ''cpuPlatform'', ''openGLESVersion'', ''marketName'', ''macAddress'', ''ram''] i))"

definition setDeviceType :: "js \<Rightarrow> js \<Rightarrow> js \<times> dset" where
  "setDeviceType s t = (s, whole [(''deviceType'', t)])"

definition setDeviceIosVersion :: "js \<Rightarrow> js \<times> dset" where
  "setDeviceIosVersion m = (jget ''id'' m, whole [(''version'', jget ''sdkVersion'' m)])"

definition sizeIosDevice :: "js \<Rightarrow> js \<Rightarrow> js \<Rightarrow> js \<Rightarrow> js \<times> dset" where
  "sizeIosDevice s h w scale =
     (s, [([''display'', ''scale''], scale), ([''display'', ''height''], h), ([''display'', ''width''], w)])"

text \<open>Nothing where the property of a value that is no object is read, which throws.\<close>

definition nullish :: "js \<Rightarrow> bool" where
  "nullish x = (x = JUndef \<or> x = JNull)"

definition updateIosDevice :: "js \<Rightarrow> (js \<times> dset) option" where
  "updateIosDevice m =
     (if nullish (jget ''options'' m) then None
      else Some (jget ''id'' m, whole [(''id'', jget ''id'' m), (''model'', jget ''name'' m), (''platform'', jget ''platform'' m), (''sdk'', jget ''sdk'' m),
        (''abi'', jget ''architecture'' m), (''version'', jget ''sdk'' m), (''service'', jget ''service'' (jget ''options'' m))]))"

definition setLockOnDevice :: "js \<Rightarrow> bool \<Rightarrow> js \<times> dset" where
  "setLockOnDevice s state = (s, [([''group'', ''lock''], JBool state)])"

definition updateDevicesOriginGroup :: "js \<Rightarrow> js \<Rightarrow> js \<times> dset" where
  "updateDevicesOriginGroup s g = (s, [([''group'', ''origin''], jget ''id'' g), ([''group'', ''originName''], jget ''name'' g)])"

section \<open>Introductions\<close>

text \<open>\<open>{...a, ...b}\<close>: the fields of the second on whole of the first.\<close>

definition spread :: "(string \<times> js) list \<Rightarrow> (string \<times> js) list \<Rightarrow> (string \<times> js) list" where
  "spread a b = foldl (\<lambda>kv (k, v). AList.update k v kv) a b"

definition obj_fields :: "js \<Rightarrow> (string \<times> js) list" where
  "obj_fields x = (case x of JObj kv \<Rightarrow> kv | _ \<Rightarrow> [])"

definition initial_fields :: "rat \<Rightarrow> js \<Rightarrow> (string \<times> js) list" where
  "initial_fields now d =
     spread [(''present'', JBool True), (''presenceChangedAt'', JNum now), (''provider'', jget ''provider'' d), (''owner'', JNull), (''channel'', JNull),
       (''status'', JNum 1), (''statusChangedAt'', JNum now), (''bookedBefore'', JNum 0), (''ready'', JBool False), (''reverseForwards'', JArr []),
       (''remoteConnect'', JBool False), (''remoteConnectUrl'', JNull), (''usage'', JNull), (''logs_enabled'', JBool False)] (obj_fields d)"

text \<open>The display of the devices of the other platform, and the administrator that the environment names. \<close>

definition ios_display :: "js \<Rightarrow> js" where
  "ios_display url = JObj [(''density'', JNum 2), (''fps'', JNum 60), (''id'', JNum 0), (''rotation'', JNum 0), (''secure'', JBool True),
     (''size'', JNum (4971253395080566 / 1000000000000000)), (''xdpi'', JNum (2949670104980469 / 10000000000000)),
     (''ydpi'', JNum (29556298828125 / 100000000000)), (''url'', url)]"

record env =
  ADMIN_EMAIL :: string
  ADMIN_NAME :: string

text \<open>The keys of an object are the paths of \<open>$set\<close>, at their dots; an inserted document keeps them as they are.\<close>

fun split_on :: "char \<Rightarrow> string \<Rightarrow> string list" where
  "split_on x [] = [[]]"
| "split_on x (c # cs) = (if c = x then [] # split_on x cs else (case split_on x cs of w # ws \<Rightarrow> (c # w) # ws | [] \<Rightarrow> [[c]]))"

definition as_set :: "(string \<times> js) list \<Rightarrow> dset" where
  "as_set data = map (\<lambda>(k, v). (split_on CHR ''.'' k, v)) data"

definition ios_fields :: "env \<Rightarrow> rat \<Rightarrow> bool \<Rightarrow> js \<Rightarrow> js \<Rightarrow> (string \<times> js) list" where
  "ios_fields e now ready url m =
     [(''present'', JBool True), (''presenceChangedAt'', JNum now), (''provider'', jget ''provider'' m), (''owner'', JNull), (''status'', jget ''status'' m),
      (''statusChangedAt'', JNum now), (''ready'', JBool ready), (''reverseForwards'', JArr []), (''remoteConnect'', JBool False),
      (''remoteConnectUrl'', JNull), (''usage'', JNull), (''display'', ios_display url),
      (''group.owner.email'', JStr (str_or (ADMIN_EMAIL e) ''administrator@fakedomain.com'')),
      (''group.owner.name'', JStr (str_or (ADMIN_NAME e) ''administrator''))]"

definition saveIosDeviceInitialState :: "env \<Rightarrow> rat \<Rightarrow> js \<Rightarrow> (string \<times> js) list option" where
  "saveIosDeviceInitialState e now m =
     (if nullish (jget ''provider'' m) then None
      else Some (ios_fields e now False (jget ''screenWsUrlPattern'' (jget ''provider'' m)) m @ [(''manufacturer'', JStr ''Apple'')]))"

fun decimal :: "nat \<Rightarrow> string" where
  "decimal n = (if n < 10 then [] else decimal (n div 10)) @ [char_of (48 + n mod 10)]"

declare decimal.simps [simp del]

text \<open>The text of a port in a template.\<close>

definition port_text :: "js \<Rightarrow> string" where
  "port_text x = (case x of JNum r \<Rightarrow> decimal (nat \<lfloor>r\<rfloor>) | JNull \<Rightarrow> ''null'' | _ \<Rightarrow> jstr x)"

definition screen_url :: "string \<Rightarrow> js \<Rightarrow> js" where
  "screen_url ip port = JStr (''ws://'' @ ip @ '':'' @ port_text port @ ''/'')"

definition initializeIosDeviceState :: "env \<Rightarrow> string \<Rightarrow> rat \<Rightarrow> js \<Rightarrow> (string \<times> js) list option" where
  "initializeIosDeviceState e ip now m =
     (let p = jget ''provider'' m; ports = jget ''ports'' m; opts = jget ''options'' m; pattern = jget ''screenWsUrlPattern'' p in
      if nullish p \<or> nullish ports \<or> nullish opts then None
      else Some (ios_fields e now True (if falsy pattern then screen_url ip (jget ''screenPort'' ports) else pattern) m @
        [(''screenPort'', jget ''screenPort'' ports), (''connectPort'', jget ''connectPort'' ports), (''model'', jget ''name'' opts),
         (''marketName'', jget ''name'' opts), (''product'', jget ''name'' opts), (''platform'', jget ''platform'' opts), (''sdk'', jget ''sdk'' opts),
         (''abi'', jget ''architecture'' opts), (''manufacturer'', JStr ''Apple''), (''service'', jget ''service'' opts)]))"

definition setDeviceSocketPorts :: "string \<Rightarrow> js \<Rightarrow> js \<times> dset" where
  "setDeviceSocketPorts ip m =
     (jget ''serial'' m, [([''display'', ''url''], screen_url ip (jget ''screenPort'' m)), ([''display'', ''screenPort''], jget ''screenPort'' m),
       ([''display'', ''connectPort''], jget ''connectPort'' m)])"

text \<open>The document of a device that nobody has seen: it belongs to the root group.\<close>

definition first_date :: "js \<Rightarrow> js" where
  "first_date g = (case jget ''dates'' g of JArr (x # xs) \<Rightarrow> x | _ \<Rightarrow> JUndef)"

definition group_fields :: "js \<Rightarrow> js" where
  "group_fields g = JObj [(''id'', jget ''id'' g), (''name'', jget ''name'' g), (''lifeTime'', first_date g), (''owner'', jget ''owner'' g),
     (''origin'', jget ''id'' g), (''class'', jget ''class'' g), (''repetitions'', jget ''repetitions'' g), (''originName'', jget ''name'' g),
     (''lock'', JBool False)]"

definition new_device :: "rat \<Rightarrow> (string \<times> js) list \<Rightarrow> js \<Rightarrow> js \<Rightarrow> js" where
  "new_device now data s g = stored (JObj (spread data [(''serial'', s), (''createdAt'', JNum now), (''group'', group_fields g)]))"

definition root_group :: "js list \<Rightarrow> js option" where
  "root_group gs = find (\<lambda>g. jget ''privilege'' g = JStr ''root'') gs"

text \<open>\<open>addOriginGroupDevice\<close>: \<open>$addToSet\<close> on the first group of this id. In this unit the handler of changes is not prepared, and does nothing.\<close>

definition add_device_to :: "js \<Rightarrow> js \<Rightarrow> js" where
  "add_device_to s g = (case jget ''devices'' g of
       JArr xs \<Rightarrow> if s \<in> set xs then g else jset ''devices'' (JArr (xs @ [s])) g
     | _ \<Rightarrow> jset ''devices'' (JArr [s]) g)"

fun addOriginGroupDevice :: "js \<Rightarrow> js \<Rightarrow> js list \<Rightarrow> js list" where
  "addOriginGroupDevice i s [] = []"
| "addOriginGroupDevice i s (g # gs) = (if jget ''id'' g = i then add_device_to s g # gs else g # addOriginGroupDevice i s gs)"

section \<open>Ports\<close>

text \<open>\<open>parseInt\<close> in base ten, of what is left without quotes: white space, a sign, digits up to the first other character; nothing for \<open>NaN\<close>.\<close>

definition decimal_digit :: "char \<Rightarrow> bool" where
  "decimal_digit c = (c \<in> set ''0123456789'')"

definition digits_value :: "string \<Rightarrow> int" where
  "digits_value cs = foldl (\<lambda>n c. 10 * n + int (of_char c) - 48) 0 cs"

definition parse_digits :: "string \<Rightarrow> int option" where
  "parse_digits cs = (let ds = takeWhile decimal_digit cs in if ds = [] then None else Some (digits_value ds))"

definition parseInt :: "string \<Rightarrow> int option" where
  "parseInt s = (case dropWhile (\<lambda>c. c \<in> set '' '' \<or> c = CHR 0x0A \<or> c = CHR 0x09) s of
       [] \<Rightarrow> None
     | c # cs \<Rightarrow> if c = CHR ''-'' then map_option uminus (parse_digits cs) else if c = CHR ''+'' then parse_digits cs else parse_digits (c # cs))"

definition port_number :: "js \<Rightarrow> rat option" where
  "port_number p = (case p of
       JStr s \<Rightarrow> map_option of_int (parseInt (filter (\<lambda>c. c \<noteq> CHR 0x22 \<and> c \<noteq> CHR 0x27) s))
     | JNum r \<Rightarrow> Some r
     | _ \<Rightarrow> None)"

text \<open>The ports in their order; with a \<open>NaN\<close> among them the comparison has no order, and they are left in that of the documents.\<close>

definition getAllocatedAdbPorts :: "js list \<Rightarrow> rat option list" where
  "getAllocatedAdbPorts ds =
     (let ps = map (\<lambda>d. port_number (jget ''adbPort'' d)) (filter (\<lambda>d. \<not> falsy (jget ''adbPort'' d)) ds) in
      if None \<in> set ps then ps else map Some (sort (map the ps)))"

text \<open>\<open>Math.max\<close> is \<open>NaN\<close> when one of the numbers is; \<open>find\<close> gives the port it finds, and zero counts as not found.\<close>

definition getLastAdbPort :: "js list \<Rightarrow> rat option" where
  "getLastAdbPort ds =
     (let ps = getAllocatedAdbPorts ds in
      if ps = [] then Some 0 else if None \<in> set ps then None else Some (Max (set (map the ps))))"

definition isPortExclusive :: "rat \<Rightarrow> js list \<Rightarrow> bool" where
  "isPortExclusive p ds = (p = 0 \<or> Some p \<notin> set (getAllocatedAdbPorts ds))"

definition getRange :: string where
  "getRange = ''20000-29999''"

definition range_bound :: "nat \<Rightarrow> rat" where
  "range_bound i = of_int (the (parseInt (split_on CHR ''-'' getRange ! i)))"

text \<open>
  The two questions reach the database one after the other: the first collection is that of the last port, the second that of the check. No port is
  \<open>null\<close> or \<open>NaN\<close>, which are both no port to its caller.
\<close>

definition getFreeAdbPort :: "js list \<Rightarrow> js list \<Rightarrow> rat option" where
  "getFreeAdbPort ds ds' = (case getLastAdbPort ds of
       None \<Rightarrow> None
     | Some l \<Rightarrow>
         if l = 0 then Some (range_bound 0)
         else if l + 1 > range_bound 1 \<or> l + 1 \<le> range_bound 0 then None
         else if isPortExclusive (l + 1) ds' then Some (l + 1) else None)"

definition setAdbPort :: "js \<Rightarrow> rat \<Rightarrow> js \<times> dset" where
  "setAdbPort s p = (s, whole [(''adbPort'', JNum p)])"

definition initiallySetAdbPort :: "js \<Rightarrow> js list \<Rightarrow> js list \<Rightarrow> (js \<times> dset) option" where
  "initiallySetAdbPort s ds ds' = (case getFreeAdbPort ds ds' of Some p \<Rightarrow> if p = 0 then None else Some (setAdbPort s p) | None \<Rightarrow> None)"

section \<open>What updates do to the documents\<close>

definition keeps_serial :: "js \<Rightarrow> dset \<Rightarrow> bool" where
  "keeps_serial s u = (\<forall>d e. is_doc d \<longrightarrow> jget ''serial'' d = s \<longrightarrow> apply_set u d = Some e \<longrightarrow> jget ''serial'' e = s)"

lemma keeps_serialI: "paths_ok u \<Longrightarrow> ''serial'' \<notin> set (heads u) \<Longrightarrow> keeps_serial s u"
  by (auto simp: keeps_serial_def dest: apply_set_other)

lemma keeps_serialD: "keeps_serial s u \<Longrightarrow> is_doc d \<Longrightarrow> has_serial s d \<Longrightarrow> apply_set u d = Some e \<Longrightarrow> jget ''serial'' e = s \<and> jget ''serial'' d = s"
  unfolding keeps_serial_def has_serial_def by blast

lemma has_serial_other: "jget ''serial'' d = s \<Longrightarrow> has_serial t d = (t = s)"
  by (auto simp: has_serial_def)

lemma update_serials:
  "update_first (has_serial s) u ds = Some (es, n) \<Longrightarrow> keeps_serial s u \<Longrightarrow> list_all is_doc ds \<Longrightarrow> map (jget ''serial'') es = map (jget ''serial'') ds"
  by (induction ds arbitrary: es n) (auto dest: keeps_serialD split: if_splits)

lemma update_docs:
  "update_first P u ds = Some (es, n) \<Longrightarrow> paths_ok u \<Longrightarrow> list_all is_doc ds \<Longrightarrow> list_all is_doc es"
  by (induction ds arbitrary: es n) (auto dest: apply_set_doc split: if_splits)

lemma update_find:
  assumes "update_first (has_serial s) u ds = Some (es, n)" and "keeps_serial s u" and "list_all is_doc ds"
  shows "find (has_serial t) es =
    (if t = s then Option.bind (find (has_serial s) ds) (apply_set u) else find (has_serial t) ds)"
  using assms
proof (induction ds arbitrary: es n)
  case (Cons d ds)
  show ?case
  proof (cases "has_serial s d")
    case True
    then obtain e where e: "apply_set u d = Some e" "es = e # ds" using Cons.prems by auto
    then have "jget ''serial'' e = s" "jget ''serial'' d = s" using keeps_serialD [OF Cons.prems(2) _ True e(1)] Cons.prems(3) by simp_all
    then have "has_serial t e = (t = s)" "has_serial t d = (t = s)" by (auto simp: has_serial_other)
    then show ?thesis using e True by simp
  next
    case False
    then obtain fs m where f: "update_first (has_serial s) u ds = Some (fs, m)" "es = d # fs" using Cons.prems by auto
    show ?thesis using Cons.IH [OF f(1) Cons.prems(2)] Cons.prems(3) f(2) False by (auto split: if_splits)
  qed
qed simp

lemma update_defined: "(\<And>d. is_doc d \<Longrightarrow> apply_set u d \<noteq> None) \<Longrightarrow> list_all is_doc ds \<Longrightarrow> update_first P u ds \<noteq> None"
  by (induction ds) auto

lemma update_fails_only_there:
  "update_first (has_serial s) u ds = None \<Longrightarrow> \<exists>d. find (has_serial s) ds = Some d \<and> apply_set u d = None"
  by (induction ds) (auto split: if_splits)

lemma split_on_not_Nil [simp]: "split_on x cs \<noteq> []"
  by (induction cs) (auto split: list.splits)

lemma paths_ok_as_set [simp]: "paths_ok (as_set data)"
  by (auto simp: paths_ok_def as_set_def list_all_iff)

lemma heads_as_set: "heads (as_set data) = map (\<lambda>(k, v). hd (split_on CHR ''.'' k)) data"
  by (induction data) (auto simp: as_set_def)

lemma delete_sub: "set (delete_first P ds) \<subseteq> set ds" "distinct (map f ds) \<Longrightarrow> distinct (map f (delete_first P ds))"
proof -
  show s: "set (delete_first P ds) \<subseteq> set ds" for ds by (induction ds) auto
  show "distinct (map f ds) \<Longrightarrow> distinct (map f (delete_first P ds))"
  proof (induction ds)
    case (Cons d ds)
    then show ?case using s [of ds] by (auto split: if_splits)
  qed simp
qed

lemma delete_find: "distinct (map (jget ''serial'') ds) \<Longrightarrow> find (has_serial s) (delete_first (has_serial s) ds) = None"
  by (induction ds) (auto simp: has_serial_def find_None_iff image_iff)

section \<open>Ports that are given are free\<close>

lemma range_bounds [simp]: "range_bound 0 = 20000" "range_bound (Suc 0) = 29999"
  by (simp_all add: range_bound_def getRange_def parseInt_def parse_digits_def digits_value_def decimal_digit_def)

lemma last_port: "getLastAdbPort ds = Some l \<Longrightarrow> Some p \<in> set (getAllocatedAdbPorts ds) \<Longrightarrow> p \<le> l"
  by (force simp: getLastAdbPort_def Let_def split: if_splits intro!: Max_ge)

text \<open>
  C39. A port that is given to a device is in the range, and no device has it when nothing has changed between the two questions.
\<close>

theorem given_port_is_free:
  assumes "getFreeAdbPort ds ds' = Some p"
  shows "20000 \<le> p \<and> p \<le> 29999 \<and> (ds' = ds \<longrightarrow> Some p \<notin> set (getAllocatedAdbPorts ds))"
proof -
  obtain l where l: "getLastAdbPort ds = Some l" using assms by (auto simp: getFreeAdbPort_def split: option.splits)
  have "Some p \<in> set (getAllocatedAdbPorts ds) \<Longrightarrow> p \<le> l" using last_port [OF l] by blast
  then show ?thesis using assms l by (auto simp: getFreeAdbPort_def split: if_splits)
qed

text \<open>
  The first two devices may get the same port: without any port there is no check, so two that ask before either is written
  are both given the first one.
\<close>

theorem first_devices_share_a_port:
  assumes "getAllocatedAdbPorts ds = []"
  shows "initiallySetAdbPort s ds ds' = Some (setAdbPort s 20000) \<and> initiallySetAdbPort t ds ds'' = Some (setAdbPort t 20000)"
  using assms by (simp add: initiallySetAdbPort_def getFreeAdbPort_def getLastAdbPort_def)

text \<open>Ports are not used again: when a device has the last port of the range, no other gets any, however many are free.\<close>

theorem last_port_ends_the_range:
  assumes "Some 29999 \<in> set (getAllocatedAdbPorts ds)"
  shows "getFreeAdbPort ds ds' = None"
proof (cases "getLastAdbPort ds")
  case (Some l)
  then have "29999 \<le> l" using last_port assms by blast
  then show ?thesis using Some by (simp add: getFreeAdbPort_def)
qed (simp add: getFreeAdbPort_def)

section \<open>What the documents lose\<close>

lemma jget_simps [simp]: "jget k (JObj []) = JUndef" "jget k (JObj ((j, v) # kv)) = (if k = j then v else jget k (JObj kv))"
  by (simp_all add: jget_def)

lemma doc_not_undef: "is_doc x \<Longrightarrow> x \<noteq> JUndef"
  by (auto simp: is_doc_def)

lemma set_path_in:
  assumes "is_doc d" and "is_doc (jget k d)"
  shows "\<exists>e. set_path (k # ks) v d = map_option e (set_path ks v (jget k d)) \<and> (\<forall>z. is_doc (e z) \<and> (\<forall>j. jget j (e z) = (if j = k then z else jget j d)))"
proof -
  obtain kv where d: "d = JObj kv" using assms(1) by (cases d) (auto simp: is_doc_def)
  then have m: "map_of kv k = Some (jget k d)" using doc_not_undef [OF assms(2)] by (auto simp: jget_def split: option.splits)
  show ?thesis by (rule exI [of _ "\<lambda>z. JObj (AList.update k z kv)"]) (simp add: d m [unfolded d] jget_update)
qed

lemma set_path_two:
  assumes "is_doc d" and "is_doc (jget k d)"
  shows "\<exists>e. set_path [k, l] v d = Some e \<and> is_doc e \<and> (\<forall>j. j \<noteq> k \<longrightarrow> jget j e = jget j d) \<and> is_doc (jget k e) \<and>
    (\<forall>j. jget j (jget k e) = (if j = l then v else jget j (jget k d)))"
proof -
  obtain y where y: "set_path [l] v (jget k d) = Some y" "is_doc y" "\<forall>j. jget j y = (if j = l then v else jget j (jget k d))"
    using set_path_one [OF assms(2)] by blast
  obtain e where e: "set_path [k, l] v d = map_option e (set_path [l] v (jget k d))" "\<forall>z. is_doc (e z) \<and> (\<forall>j. jget j (e z) = (if j = k then z else jget j d))"
    using set_path_in [OF assms] by blast
  show ?thesis using y e by auto
qed

lemma set_path_three:
  assumes "is_doc d" and "is_doc (jget k d)" and "is_doc (jget l (jget k d))"
  shows "\<exists>e. set_path [k, l, i] v d = Some e \<and> is_doc e \<and> (\<forall>j. j \<noteq> k \<longrightarrow> jget j e = jget j d) \<and> is_doc (jget k e) \<and>
    (\<forall>j. j \<noteq> l \<longrightarrow> jget j (jget k e) = jget j (jget k d)) \<and> is_doc (jget l (jget k e)) \<and>
    (\<forall>j. jget j (jget l (jget k e)) = (if j = i then v else jget j (jget l (jget k d))))"
proof -
  obtain y where y: "set_path [l, i] v (jget k d) = Some y" "is_doc y" "\<forall>j. j \<noteq> l \<longrightarrow> jget j y = jget j (jget k d)" "is_doc (jget l y)"
      "\<forall>j. jget j (jget l y) = (if j = i then v else jget j (jget l (jget k d)))"
    using set_path_two [OF assms(2,3)] by blast
  obtain e where e: "set_path [k, l, i] v d = map_option e (set_path [l, i] v (jget k d))" "\<forall>z. is_doc (e z) \<and> (\<forall>j. jget j (e z) = (if j = k then z else jget j d))"
    using set_path_in [OF assms(1,2)] by blast
  show ?thesis using y e by auto
qed

text \<open>
  The state of the phone and its connection are kept in the same field, and each update replaces what the other has written: after
  the one the device has no \<open>connected\<close>, after the other no \<open>state\<close> and no \<open>operator\<close>.
\<close>

theorem network_updates_erase_each_other:
  assumes "is_doc d"
  shows "(\<exists>e. apply_set (snd (setDevicePhoneState s p)) d = Some e \<and> jget ''connected'' (jget ''network'' e) = JUndef) \<and>
         (\<exists>e. apply_set (snd (setDeviceConnectivity s c)) d = Some e \<and> jget ''state'' (jget ''network'' e) = JUndef \<and> jget ''operator'' (jget ''network'' e) = JUndef)"
proof -
  have n: "\<exists>e. apply_set (whole [(''network'', x)]) d = Some e \<and> jget ''network'' e = stored x" for x
    using apply_whole [OF assms, of "[(''network'', x)]"] by (auto simp del: whole_simps)
  show ?thesis using n by (fastforce simp: setDevicePhoneState_def setDeviceConnectivity_def picked_def simp del: whole_simps)
qed

text \<open>
  A device that turns without saying its size loses it: the height that is missing in the message is undefined and not null, and
  null is what is written.
\<close>

theorem rotation_forgets_size:
  assumes "is_doc d" and "is_doc (jget ''display'' d)" and "jget ''height'' m = JUndef"
  shows "\<exists>e. apply_set (snd (setDeviceRotation m)) d = Some e \<and> jget ''rotation'' (jget ''display'' e) = stored (jget ''rotation'' m) \<and>
    jget ''height'' (jget ''display'' e) = JNull"
proof -
  obtain a where a: "set_path [''display'', ''rotation''] (stored (jget ''rotation'' m)) d = Some a" "is_doc a" "is_doc (jget ''display'' a)"
      "\<forall>j. jget j (jget ''display'' a) = (if j = ''rotation'' then stored (jget ''rotation'' m) else jget j (jget ''display'' d))"
    using set_path_two [OF assms(1,2)] by blast
  obtain b where b: "set_path [''display'', ''height''] JNull a = Some b" "is_doc b" "is_doc (jget ''display'' b)"
      "\<forall>j. jget j (jget ''display'' b) = (if j = ''height'' then JNull else jget j (jget ''display'' a))"
    using set_path_two [OF a(2,3)] by blast
  obtain e where e: "set_path [''display'', ''width''] (stored (jget ''width'' m)) b = Some e"
      "\<forall>j. jget j (jget ''display'' e) = (if j = ''width'' then stored (jget ''width'' m) else jget j (jget ''display'' b))"
    using set_path_two [OF b(2,3)] by blast
  show ?thesis using a b e assms(3) by (simp add: setDeviceRotation_def del: set_path.simps)
qed

lemma ios_fields_set:
  "as_set (ios_fields e now ready url m @ [(''manufacturer'', JStr ''Apple'')]) =
     whole [(''present'', JBool True), (''presenceChangedAt'', JNum now), (''provider'', jget ''provider'' m), (''owner'', JNull), (''status'', jget ''status'' m),
      (''statusChangedAt'', JNum now), (''ready'', JBool ready), (''reverseForwards'', JArr []), (''remoteConnect'', JBool False),
      (''remoteConnectUrl'', JNull), (''usage'', JNull), (''display'', ios_display url)] @
     [([''group'', ''owner'', ''email''], JStr (str_or (ADMIN_EMAIL e) ''administrator@fakedomain.com'')),
      ([''group'', ''owner'', ''name''], JStr (str_or (ADMIN_NAME e) ''administrator''))] @ whole [(''manufacturer'', JStr ''Apple'')]"
  by (simp add: as_set_def ios_fields_def)

text \<open>
  A device of the other platform that is introduced again while its group belongs to a user makes the administrator the
  owner of that group in its document: the group stays, its owner is overwritten.
\<close>

theorem ios_introduction_takes_the_group:
  assumes "is_doc d" and "is_doc (jget ''group'' d)" and "is_doc (jget ''owner'' (jget ''group'' d))" and "saveIosDeviceInitialState v now m = Some data"
  shows "\<exists>e. apply_set (as_set data) d = Some e \<and> jget ''id'' (jget ''group'' e) = jget ''id'' (jget ''group'' d) \<and>
    jget ''email'' (jget ''owner'' (jget ''group'' e)) = JStr (str_or (ADMIN_EMAIL v) ''administrator@fakedomain.com'')"
proof -
  define url where "url = jget ''screenWsUrlPattern'' (jget ''provider'' m)"
  have data: "data = ios_fields v now False url m @ [(''manufacturer'', JStr ''Apple'')]"
    using assms(4) by (auto simp: saveIosDeviceInitialState_def url_def split: if_splits)
  define own where "own = JStr (str_or (ADMIN_EMAIL v) ''administrator@fakedomain.com'')"
  define nam where "nam = JStr (str_or (ADMIN_NAME v) ''administrator'')"
  define kv where "kv = [(''present'', JBool True), (''presenceChangedAt'', JNum now), (''provider'', jget ''provider'' m), (''owner'', JNull), (''status'', jget ''status'' m),
      (''statusChangedAt'', JNum now), (''ready'', JBool False), (''reverseForwards'', JArr []), (''remoteConnect'', JBool False),
      (''remoteConnectUrl'', JNull), (''usage'', JNull), (''display'', ios_display url)]"
  have set: "as_set data = whole kv @ [([''group'', ''owner'', ''email''], own), ([''group'', ''owner'', ''name''], nam)] @ whole [(''manufacturer'', JStr ''Apple'')]"
    unfolding data ios_fields_set kv_def own_def nam_def by simp
  obtain a where a: "apply_set (whole kv) d = Some a" "is_doc a" "\<forall>j. jget j a = last_field kv j (jget j d)" using apply_whole [OF assms(1)] by blast
  have ag: "jget ''group'' a = jget ''group'' d" using a(3) by (simp add: kv_def)
  obtain b where b: "set_path [''group'', ''owner'', ''email''] own a = Some b" "is_doc b" "is_doc (jget ''group'' b)" "is_doc (jget ''owner'' (jget ''group'' b))"
      "jget ''id'' (jget ''group'' b) = jget ''id'' (jget ''group'' d)" "jget ''email'' (jget ''owner'' (jget ''group'' b)) = own"
    using set_path_three [of a "''group''" "''owner''" "''email''" own] a(2) assms(2,3) ag by (auto simp del: set_path.simps)
  obtain c where c: "set_path [''group'', ''owner'', ''name''] nam b = Some c" "is_doc c"
      "jget ''id'' (jget ''group'' c) = jget ''id'' (jget ''group'' d)" "jget ''email'' (jget ''owner'' (jget ''group'' c)) = own"
    using set_path_three [of b "''group''" "''owner''" "''name''" nam] b by (auto simp del: set_path.simps)
  obtain e where e: "apply_set (whole [(''manufacturer'', JStr ''Apple'')]) c = Some e" "jget ''group'' e = jget ''group'' c"
    using apply_whole [OF c(2), of "[(''manufacturer'', JStr ''Apple'')]"] by (auto simp del: whole_simps)
  have "stored own = own" "stored nam = nam" by (simp_all add: own_def nam_def)
  then have "apply_set (as_set data) d = Some e" unfolding set apply_set_append using a(1) b(1) c(1) e(1) by (simp del: set_path.simps whole_simps)
  then show ?thesis using c e(2) by (auto simp: own_def)
qed

theorem given_port_is_free_witness:
  "20000 \<le> (20006 :: rat) \<and> (20006 :: rat) \<le> 29999 \<and> Some 20006 \<notin> set (getAllocatedAdbPorts [JObj [(''adbPort'', JNum 20005)]])"
proof -
  have "getFreeAdbPort [JObj [(''adbPort'', JNum 20005)]] [JObj [(''adbPort'', JNum 20005)]] = Some 20006"
    by (simp add: getFreeAdbPort_def getLastAdbPort_def getAllocatedAdbPorts_def port_number_def falsy_def isPortExclusive_def)
  from given_port_is_free [OF this] show ?thesis by simp
qed

end
