(* ===== verification/Device_Use.thy ===== *)
theory Device_Use imports Group_Manager begin

text \<open>
  Taking, releasing and connecting to a device (\<open>lib/units/api/controllers/user.js\<close>, \<open>lib/units/api/helpers/useDevice.js\<close>, with
  \<open>lib/util/datautil.js\<close> and \<open>deviceutil.js\<close>). Every request keeps its listeners, its subscriptions and its timer; the database
  (the lock of a device, its record), the messages of the devices and the timers are events. A request is known by a key that stands
  for its response, or for the promise of \<open>useDevice\<close> and of a request from within the unit. The names that the packages for
  devices and browsers add to a record are left out, as are access tokens and keys.
\<close>

section \<open>Whose device it is\<close>

record used_device =
  ud_serial :: serial
  ud_channel :: channel
  ud_present :: bool
  ud_ready :: bool
  ud_owner :: "string option"
  ud_using :: bool
  ud_remote :: bool
  ud_url :: "string option"

record du_user =
  du_email :: string
  du_name :: string
  du_group :: channel
  du_admin :: bool
  du_keys :: "string list"

definition applyOwner :: "used_device \<Rightarrow> du_user \<Rightarrow> used_device" where
  "applyOwner d u = d\<lparr>ud_using := (case ud_owner d of Some e \<Rightarrow> e = du_email u \<or> du_admin u | None \<Rightarrow> False)\<rparr>"

definition applyOwnerOnlyInfo :: "used_device \<Rightarrow> du_user \<Rightarrow> bool \<Rightarrow> used_device" where
  "applyOwnerOnlyInfo d u generator =
     (if \<not> generator then
        (if (case ud_owner d of Some e \<Rightarrow> e = du_email u \<or> du_admin u | None \<Rightarrow> False) then d else d\<lparr>ud_remote := False, ud_url := None\<rparr>)
      else d\<lparr>ud_remote := False\<rparr>)"

definition normalize :: "used_device \<Rightarrow> du_user \<Rightarrow> bool \<Rightarrow> used_device" where
  "normalize d u generator =
     (let d1 = applyOwnerOnlyInfo (applyOwner d u) u generator in if ud_present d1 then d1 else d1\<lparr>ud_owner := None\<rparr>)"

definition isOwnedByUser :: "used_device \<Rightarrow> du_user \<Rightarrow> bool" where
  "isOwnedByUser d u = (ud_present d \<and> ud_ready d \<and> (case ud_owner d of Some e \<Rightarrow> e = du_email u \<or> du_admin u | None \<Rightarrow> False) \<and> ud_using d)"

definition isAddable :: "used_device \<Rightarrow> bool" where
  "isAddable d = (ud_present d \<and> ud_ready d \<and> \<not> ud_using d \<and> ud_owner d = None)"

section \<open>Requests\<close>

text \<open>
  What a request waits for: the lock of the device, the device to join the user's group, the record of the device, the device to leave,
  the device to start or stop its remote connection. \<open>useDevice\<close> waits for the device to leave whatever group it is in, to
  join, and to start the connection; its transaction for the join may still be pending then. Nothing is left to do for an \<open>Unanswered\<close> one.
\<close>

datatype du_op = Show | Release bool | Connect | Disconnect bool

datatype du_phase = AddLock "int option" | AddWait | LoadWait du_op | ReleaseWait bool | LinkWait bool bool channel
  | Unanswered
  | UseLeave string | UseJoin bool | UseLink bool channel | UseLate channel | Idle

record du_req =
  du_key :: nat
  du_user :: du_user
  du_serial :: serial
  du_channel :: channel
  du_phase :: du_phase
  du_listens :: "channel list"
  du_subs :: "channel list"
  du_timer :: bool

datatype du_message = MGroup serial du_user "int option" string | MUngroup serial | MConnectStart channel | MConnectStop channel

text \<open>
  \<open>Answer\<close> is a response with its code and text, \<open>Return\<close> the value of the promise of a request from within, \<open>Settled\<close> the end of the promise of
  \<open>useDevice\<close>, \<open>Outer\<close> a response of the request that an internal one is made for.
\<close>

datatype use_error = NOT_FOUND | ALREADY_IN_USE | FAILED_JOIN | FAILED_CONNECT

datatype du_out = Answer nat nat string | AnswerDevice nat used_device | AnswerUrl nat string | Return nat "bool option" | Outer nat string
  | Settled nat "use_error + string" | ToDevice channel du_message | UnlockDevice serial

definition GLOBAL :: channel where
  "GLOBAL = ''*ALL''"

definition du_idle :: "du_req \<Rightarrow> du_req" where
  "du_idle r = r\<lparr>du_phase := Idle\<rparr>"

text \<open>A listener with a timer; both go together. \<open>quit\<close> removes them, and the subscription of a transaction.\<close>

definition listen_on :: "channel \<Rightarrow> du_phase \<Rightarrow> du_req \<Rightarrow> du_req" where
  "listen_on c p r = r\<lparr>du_phase := p, du_listens := du_listens r @ [c], du_timer := True\<rparr>"

definition subscribe_to :: "channel \<Rightarrow> du_req \<Rightarrow> du_req" where
  "subscribe_to c r = r\<lparr>du_subs := du_subs r @ [c]\<rparr>"

definition quit :: "channel \<Rightarrow> du_req \<Rightarrow> du_req" where
  "quit c r = r\<lparr>du_listens := remove1 c (du_listens r), du_subs := remove1 c (du_subs r), du_timer := False\<rparr>"

definition refusal :: "du_op \<Rightarrow> string" where
  "refusal p = (case p of Show \<Rightarrow> ''Device is not owned by you''
     | Release i \<Rightarrow> ''Releasing this device is not possible as it does not belong to you''
     | _ \<Rightarrow> ''Device is not owned by you or is not available'')"

definition internal :: "du_op \<Rightarrow> bool" where
  "internal p = (case p of Release i \<Rightarrow> i | Disconnect i \<Rightarrow> i | _ \<Rightarrow> False)"

text \<open>\<open>addUserDevice\<close>: a response that refuses the lock counts as the lock, so the handler goes on without a device and fails; the client has its answer by then.\<close>

datatype lock_refusal = LockMissing | LockBusy | LockUnchanged

definition refused_lock :: "lock_refusal \<Rightarrow> du_req \<Rightarrow> du_req \<times> du_out list" where
  "refused_lock x r = (du_idle r, [case x of
       LockMissing \<Rightarrow> Answer (du_key r) 404 ''Not Found (device)''
     | LockBusy \<Rightarrow> Answer (du_key r) 429 ''Too many requests. Destination object is locked''
     | LockUnchanged \<Rightarrow> Answer (du_key r) 403 ''Forbidden (device not changed)''])"

definition failed_lock :: "du_req \<Rightarrow> du_req \<times> du_out list" where
  "failed_lock r = (du_idle r, [Answer (du_key r) 500 ''Internal Server Error''])"

definition add_locked :: "used_device \<Rightarrow> int option \<Rightarrow> du_req \<Rightarrow> du_req \<times> du_out list" where
  "add_locked d timeout r =
     (let d1 = normalize d (du_user r) False in
      if \<not> isAddable d1 then (du_idle r, [Answer (du_key r) 403 ''Device is being used or not available'', UnlockDevice (ud_serial d)])
      else (listen_on GLOBAL AddWait (r\<lparr>du_channel := ud_channel d1\<rparr>),
        [ToDevice (ud_channel d1) (MGroup (du_serial r) (du_user r) timeout ''automation''), UnlockDevice (ud_serial d)]))"

text \<open>The requests on a device of the user, once its record is there; \<open>c\<close> is the new channel of a transaction.\<close>

definition release_owned :: "bool \<Rightarrow> du_req \<Rightarrow> du_req \<times> du_out list" where
  [simp]: "release_owned i r = (r\<lparr>du_phase := ReleaseWait i\<rparr>, [ToDevice (du_channel r) (MUngroup (du_serial r))])"

definition connect_owned :: "channel \<Rightarrow> du_req \<Rightarrow> du_req \<times> du_out list" where
  [simp]: "connect_owned c r = (listen_on c (LinkWait True False c) (subscribe_to c r), [ToDevice (du_channel r) (MConnectStart c)])"

definition disconnect_owned :: "bool \<Rightarrow> channel \<Rightarrow> du_req \<Rightarrow> du_req \<times> du_out list" where
  [simp]: "disconnect_owned i c r = (listen_on c (LinkWait False i c) (subscribe_to c r),
     ToDevice (du_channel r) (MConnectStop c) # (if i then [Return (du_key r) None] else []))"

definition op_loaded :: "du_op \<Rightarrow> used_device option \<Rightarrow> channel \<Rightarrow> du_req \<Rightarrow> du_req \<times> du_out list" where
  "op_loaded p dev c r =
     (case dev of
        None \<Rightarrow> (du_idle r, [if internal p then Return (du_key r) (Some False) else Answer (du_key r) 404 ''Device not found''])
      | Some d \<Rightarrow>
          (let d1 = normalize d (du_user r) False; r1 = r\<lparr>du_channel := ud_channel d1\<rparr> in
           if \<not> isOwnedByUser d1 (du_user r) then
             (du_idle r, [if internal p then Return (du_key r) (Some False) else Answer (du_key r) 403 (refusal p)])
           else case p of
             Show \<Rightarrow> (du_idle r, [AnswerDevice (du_key r) d1])
           | Release i \<Rightarrow> release_owned i r1
           | Connect \<Rightarrow> connect_owned c r1
           | Disconnect i \<Rightarrow> disconnect_owned i c r1))"

text \<open>\<open>catch\<close> of the requests: the text of a failed release is the ending of the message only, as \<open>+\<close> binds stronger than \<open>?\<close>.\<close>

definition op_failed :: "du_op \<Rightarrow> string \<Rightarrow> du_req \<Rightarrow> du_req \<times> du_out list" where
  "op_failed p msg r =
     (du_idle r, (case p of
        Show \<Rightarrow> [Answer (du_key r) 500 ''Failed to load device'']
      | Release i \<Rightarrow> (if i then [Return (du_key r) (Some False)] else [Answer (du_key r) 500 ('': '' @ msg)])
      | Connect \<Rightarrow> [Answer (du_key r) 500 ''Internal Server Error'']
      | Disconnect i \<Rightarrow> (if i then [Outer 500 ''Failed to load device'', Return (du_key r) None] else [Answer (du_key r) 500 ''Failed to load device''])))"

text \<open>The first part of \<open>useDevice\<close>.\<close>

definition use_begin :: "used_device option \<Rightarrow> string \<Rightarrow> du_req \<Rightarrow> du_req \<times> du_out list" where
  "use_begin dev usage r =
     (case dev of
        None \<Rightarrow> (r, [Settled (du_key r) (Inl NOT_FOUND)])
      | Some d \<Rightarrow>
          (let d1 = normalize d (du_user r) False in
           if \<not> isAddable d1 then (r, [Settled (du_key r) (Inl ALREADY_IN_USE)])
           else (r\<lparr>du_channel := ud_channel d1, du_serial := ud_serial d1, du_phase := UseLeave usage\<rparr>,
             [ToDevice (ud_channel d1) (MUngroup (ud_serial d1))])))"

text \<open>A transaction of the request ends, well or not. \<open>useDevice\<close> does not care how the first one does.\<close>

definition req_tx :: "bool \<Rightarrow> string \<Rightarrow> du_req \<Rightarrow> du_req \<times> du_out list" where
  "req_tx ok msg r =
     (case du_phase r of
        ReleaseWait i \<Rightarrow> (if \<not> ok then op_failed (Release i) msg r
          else if i then (du_idle r, [Return (du_key r) None]) else (r\<lparr>du_phase := Unanswered\<rparr>, []))
      | UseLeave usage \<Rightarrow> (listen_on GLOBAL (UseJoin True) r, [ToDevice (du_channel r) (MGroup (du_serial r) (du_user r) None usage)])
      | UseJoin True \<Rightarrow> (if ok then (r\<lparr>du_phase := UseJoin False\<rparr>, [])
          else (du_idle (quit GLOBAL r), [Settled (du_key r) (Inl FAILED_JOIN)]))
      | UseLink True c \<Rightarrow> (if ok then (r\<lparr>du_phase := UseLink False c\<rparr>, [])
          else (r\<lparr>du_phase := UseLate c\<rparr>, [Settled (du_key r) (Inl FAILED_JOIN)]))
      | _ \<Rightarrow> (r, []))"

text \<open>\<open>JoinGroupMessage\<close> of a device.\<close>

definition req_join :: "serial \<Rightarrow> string \<Rightarrow> channel \<Rightarrow> du_req \<Rightarrow> du_req \<times> du_out list" where
  "req_join ser email c r =
     (if GLOBAL \<in> set (du_listens r) \<and> ser = du_serial r \<and> email = du_email (du_user r) then
        (case du_phase r of
           AddWait \<Rightarrow> (du_idle (quit GLOBAL r), [Answer (du_key r) 200 ''Device successfully added''])
         | UseJoin p \<Rightarrow> (listen_on c (UseLink p c) (subscribe_to c (quit GLOBAL r)), [ToDevice (du_channel r) (MConnectStart c)])
         | _ \<Rightarrow> (r, []))
      else (r, []))"

text \<open>\<open>ConnectStartedMessage\<close> and \<open>ConnectStoppedMessage\<close> on the channel of a transaction.\<close>

definition req_started :: "channel \<Rightarrow> serial \<Rightarrow> string \<Rightarrow> du_req \<Rightarrow> du_req \<times> du_out list" where
  "req_started c ser url r =
     (if c \<in> set (du_listens r) \<and> ser = du_serial r then
        (case du_phase r of
           LinkWait True False c' \<Rightarrow> (du_idle (quit c r), [AnswerUrl (du_key r) url])
         | UseLink p c' \<Rightarrow> (du_idle (quit c r), [Settled (du_key r) (Inr url)])
         | UseLate c' \<Rightarrow> (du_idle (quit c r), [])
         | _ \<Rightarrow> (r, []))
      else (r, []))"

definition req_stopped :: "channel \<Rightarrow> serial \<Rightarrow> du_req \<Rightarrow> du_req \<times> du_out list" where
  "req_stopped c ser r =
     (if c \<in> set (du_listens r) \<and> ser = du_serial r then
        (case du_phase r of
           LinkWait False i c' \<Rightarrow>
             (du_idle (quit c r), if i then [] else [Answer (du_key r) 200 ''Device remote disconnected successfully''])
         | _ \<Rightarrow> (r, []))
      else (r, []))"

definition req_timer :: "du_req \<Rightarrow> du_req \<times> du_out list" where
  "req_timer r =
     (if du_timer r then
        (case du_phase r of
           AddWait \<Rightarrow> (du_idle (quit GLOBAL r), [Answer (du_key r) 504 ''Device is not responding''])
         | LinkWait st i c \<Rightarrow> (du_idle (quit c r), if i then [] else [Answer (du_key r) 504 ''Device is not responding''])
         | UseJoin p \<Rightarrow> (du_idle (quit GLOBAL r), [Settled (du_key r) (Inl FAILED_JOIN)])
         | UseLink p c \<Rightarrow> (du_idle (quit c r), [Settled (du_key r) (Inl FAILED_CONNECT)])
         | UseLate c \<Rightarrow> (du_idle (quit c r), [])
         | _ \<Rightarrow> (r, []))
      else (r, []))"

section \<open>The unit\<close>

text \<open>
  The requests are numbered as they come. A message goes to all of them, in order; a new channel for each is a function of its key.
\<close>

datatype du_event = AddReq nat du_user serial "int option" | OpReq nat du_op du_user serial | UseReq nat du_user "used_device option" string
  | LockGot nat used_device | LockRefused nat lock_refusal | LockFailed nat
  | Loaded nat "used_device option" channel | LoadFailed nat string
  | TxDone nat bool string | JoinMsg serial string "nat \<Rightarrow> channel" | StartedMsg channel serial string | StoppedMsg channel serial | TimeIsUp nat

definition req_new :: "nat \<Rightarrow> du_user \<Rightarrow> serial \<Rightarrow> du_phase \<Rightarrow> du_req" where
  "req_new k u ser p = \<lparr>du_key = k, du_user = u, du_serial = ser, du_channel = [], du_phase = p, du_listens = [], du_subs = [], du_timer = False\<rparr>"

definition one_req :: "nat \<Rightarrow> (du_req \<Rightarrow> du_req \<times> du_out list) \<Rightarrow> du_req list \<Rightarrow> du_req list \<times> du_out list" where
  "one_req n f s = (if n < length s then (s[n := fst (f (s ! n))], snd (f (s ! n))) else (s, []))"

definition each_req :: "(du_req \<Rightarrow> du_req \<times> du_out list) \<Rightarrow> du_req list \<Rightarrow> du_req list \<times> du_out list" where
  "each_req f s = (map (\<lambda>r. fst (f r)) s, concat (map (\<lambda>r. snd (f r)) s))"

definition lock_answer :: "(int option \<Rightarrow> du_req \<Rightarrow> du_req \<times> du_out list) \<Rightarrow> du_req \<Rightarrow> du_req \<times> du_out list" where
  "lock_answer f r = (case du_phase r of AddLock t \<Rightarrow> f t r | _ \<Rightarrow> (r, []))"

definition load_answer :: "(du_op \<Rightarrow> du_req \<Rightarrow> du_req \<times> du_out list) \<Rightarrow> du_req \<Rightarrow> du_req \<times> du_out list" where
  "load_answer f r = (case du_phase r of LoadWait p \<Rightarrow> f p r | _ \<Rightarrow> (r, []))"

fun du_step :: "du_req list \<Rightarrow> du_event \<Rightarrow> du_req list \<times> du_out list" where
  "du_step s (AddReq k u ser t) = (s @ [req_new k u ser (AddLock t)], [])"
| "du_step s (OpReq k p u ser) = (s @ [req_new k u ser (LoadWait p)], [])"
| "du_step s (UseReq k u dev usage) = (let x = use_begin dev usage (req_new k u [] Idle) in (s @ [fst x], snd x))"
| "du_step s (LockGot n d) = one_req n (lock_answer (add_locked d)) s"
| "du_step s (LockRefused n x) = one_req n (lock_answer (\<lambda>t. refused_lock x)) s"
| "du_step s (LockFailed n) = one_req n (lock_answer (\<lambda>t. failed_lock)) s"
| "du_step s (Loaded n dev c) = one_req n (load_answer (\<lambda>p. op_loaded p dev c)) s"
| "du_step s (LoadFailed n msg) = one_req n (load_answer (\<lambda>p. op_failed p msg)) s"
| "du_step s (TxDone n ok msg) = one_req n (req_tx ok msg) s"
| "du_step s (JoinMsg ser email c) = each_req (\<lambda>r. req_join ser email (c (du_key r)) r) s"
| "du_step s (StartedMsg c ser url) = each_req (req_started c ser url) s"
| "du_step s (StoppedMsg c ser) = each_req (req_stopped c ser) s"
| "du_step s (TimeIsUp n) = one_req n req_timer s"

section \<open>Every request is answered once\<close>

fun owes_phase :: "du_phase \<Rightarrow> bool" where
  "owes_phase (LinkWait st i c) = (\<not> i)"
| "owes_phase (UseLate c) = False"
| "owes_phase Idle = False"
| "owes_phase p = True"

definition req_owed :: "du_req \<Rightarrow> nat list" where
  "req_owed r = (if owes_phase (du_phase r) then [du_key r] else [])"

definition du_owed :: "du_req list \<Rightarrow> nat list" where
  "du_owed s = concat (map req_owed s)"

fun du_answer :: "du_out \<Rightarrow> nat list" where
  "du_answer (Answer k c t) = [k]"
| "du_answer (AnswerDevice k d) = [k]"
| "du_answer (AnswerUrl k u) = [k]"
| "du_answer (Return k b) = [k]"
| "du_answer (Settled k x) = [k]"
| "du_answer x = []"

definition du_answers :: "du_out list \<Rightarrow> nat list" where
  "du_answers out = concat (map du_answer out)"

fun du_calls :: "du_event \<Rightarrow> nat list" where
  "du_calls (AddReq k u ser t) = [k]"
| "du_calls (OpReq k p u ser) = [k]"
| "du_calls (UseReq k u dev usage) = [k]"
| "du_calls e = []"

lemma du_answers_simps [simp]: "du_answers [] = []" "du_answers (x # xs) = du_answer x @ du_answers xs" "du_answers (xs @ ys) = du_answers xs @ du_answers ys"
  by (simp_all add: du_answers_def)

lemma req_simps [simp]: "du_key (du_idle r) = du_key r" "du_phase (du_idle r) = Idle" "du_key (quit c r) = du_key r" "du_phase (quit c r) = du_phase r"
  "du_key (listen_on c p r) = du_key r" "du_phase (listen_on c p r) = p" "du_key (subscribe_to c r) = du_key r" "du_phase (subscribe_to c r) = du_phase r"
  by (simp_all add: du_idle_def quit_def listen_on_def subscribe_to_def)

definition req_pays :: "(du_req \<Rightarrow> du_req \<times> du_out list) \<Rightarrow> bool" where
  "req_pays f \<longleftrightarrow> (\<forall>r. mset (req_owed (fst (f r))) + mset (du_answers (snd (f r))) = mset (req_owed r))"

lemma req_paysI: "(\<And>r. mset (req_owed (fst (f r))) + mset (du_answers (snd (f r))) = mset (req_owed r)) \<Longrightarrow> req_pays f"
  by (simp add: req_pays_def)

lemma load_pays:
  assumes "\<And>p r. mset (req_owed (fst (f p r))) + mset (du_answers (snd (f p r))) = {#du_key r#}"
  shows "req_pays (load_answer f)"
proof (rule req_paysI)
  fix r
  show "mset (req_owed (fst (load_answer f r))) + mset (du_answers (snd (load_answer f r))) = mset (req_owed r)"
    using assms by (cases "du_phase r") (simp_all add: load_answer_def, simp add: req_owed_def)
qed

lemma handler_pays: "req_pays (lock_answer (add_locked d))"
  "req_pays (lock_answer (\<lambda>t. refused_lock x))" "req_pays (lock_answer (\<lambda>t. failed_lock))"
  "req_pays (load_answer (\<lambda>p. op_loaded p dev c))" "req_pays (load_answer (\<lambda>p. op_failed p msg))"
proof -
  show "req_pays (lock_answer (add_locked d))"
    by (rule req_paysI) (simp add: lock_answer_def add_locked_def req_owed_def Let_def split: du_phase.split)
  show "req_pays (lock_answer (\<lambda>t. refused_lock x))" "req_pays (lock_answer (\<lambda>t. failed_lock))"
    by (rule req_paysI, simp add: lock_answer_def refused_lock_def failed_lock_def req_owed_def split: du_phase.split lock_refusal.split)+
  have "mset (req_owed (fst (op_loaded p dev c r))) + mset (du_answers (snd (op_loaded p dev c r))) = {#du_key r#}" for p r
    by (cases p; cases dev; simp add: op_loaded_def req_owed_def internal_def Let_def)
  then show "req_pays (load_answer (\<lambda>p. op_loaded p dev c))" by (rule load_pays)
  have "mset (req_owed (fst (op_failed p msg r))) + mset (du_answers (snd (op_failed p msg r))) = {#du_key r#}" for p r
    by (cases p; simp add: op_failed_def req_owed_def)
  then show "req_pays (load_answer (\<lambda>p. op_failed p msg))" by (rule load_pays)
qed

lemma handler_pays2: "req_pays (req_tx ok msg)" "req_pays (\<lambda>r. req_join ser email (c (du_key r)) r)" "req_pays (req_started ch ser url)"
  "req_pays (req_stopped ch ser)" "req_pays req_timer"
proof -
  have "mset (req_owed (fst (req_tx ok msg r))) + mset (du_answers (snd (req_tx ok msg r))) = mset (req_owed r)" for r
    by (cases "du_phase r") (simp_all add: req_tx_def op_failed_def req_owed_def split: bool.split)
  then show "req_pays (req_tx ok msg)" by (rule req_paysI)
  show "req_pays (\<lambda>r. req_join ser email (c (du_key r)) r)"
    by (rule req_paysI) (simp add: req_join_def req_owed_def split: du_phase.split)
  show "req_pays (req_started ch ser url)"
    by (rule req_paysI) (auto simp: req_started_def req_owed_def split: du_phase.split bool.split)
  show "req_pays (req_stopped ch ser)" by (rule req_paysI) (auto simp: req_stopped_def req_owed_def split: du_phase.split bool.split)
  show "req_pays req_timer" by (rule req_paysI) (simp add: req_timer_def req_owed_def split: du_phase.split)
qed

lemma owed_simps [simp]: "du_owed [] = []" "du_owed (r # s) = req_owed r @ du_owed s" "du_owed (s @ t) = du_owed s @ du_owed t"
  by (simp_all add: du_owed_def)

lemma one_pays: "req_pays f \<Longrightarrow> mset (du_owed (fst (one_req n f s))) + mset (du_answers (snd (one_req n f s))) = mset (du_owed s)"
proof (cases "n < length s")
  case True
  assume f: "req_pays f"
  have s: "s = take n s @ s ! n # drop (Suc n) s" using True by (rule id_take_nth_drop)
  have "mset (du_owed s) = mset (du_owed (take n s)) + mset (req_owed (s ! n)) + mset (du_owed (drop (Suc n) s))" by (subst s) simp
  moreover have "du_owed (s[n := x]) = du_owed (take n s) @ req_owed x @ du_owed (drop (Suc n) s)" for x using True by (simp add: upd_conv_take_nth_drop)
  moreover have "mset (req_owed (s ! n)) = mset (req_owed (fst (f (s ! n)))) + mset (du_answers (snd (f (s ! n))))" using f by (simp add: req_pays_def)
  ultimately show ?thesis using True by (simp add: one_req_def)
qed (simp add: one_req_def)

lemma each_pays: "req_pays f \<Longrightarrow> mset (du_owed (fst (each_req f s))) + mset (du_answers (snd (each_req f s))) = mset (du_owed s)"
proof (induction s)
  case (Cons r s)
  then have "mset (req_owed r) = mset (req_owed (fst (f r))) + mset (du_answers (snd (f r)))" by (simp add: req_pays_def)
  then show ?case using Cons by (simp add: each_req_def)
qed (simp add: each_req_def)

interpretation dur: obligations du_step du_owed du_answers du_calls
proof
  fix s e and xs ys :: "du_out list"
  show "mset (du_owed (fst (du_step s e))) + mset (du_answers (snd (du_step s e))) = mset (du_owed s) + mset (du_calls e)"
    by (cases e) (simp_all add: one_pays each_pays handler_pays handler_pays2, simp_all add: req_new_def req_owed_def use_begin_def Let_def split: option.split)
  show "du_answers [] = []" "du_answers (xs @ ys) = du_answers xs @ du_answers ys" by simp_all
qed

text \<open>
  Every request to take, show, release or connect to a device, and every \<open>useDevice\<close>, is answered exactly once or still waits:
  whatever the database, the devices and the timers do, and however the requests overlap, no response is sent twice.
\<close>

theorem device_requests_answered_once:
  assumes "distinct (concat (map du_calls es))"
  shows "let r = run du_step [] es in distinct (du_answers (snd r)) \<and> set (du_owed (fst r)) \<inter> set (du_answers (snd r)) = {} \<and>
     set (du_owed (fst r)) \<union> set (du_answers (snd r)) = set (concat (map du_calls es))"
  using dur.answered_once [OF _ assms, of "[]"] by (simp add: Let_def)

section \<open>Nothing is left behind\<close>

text \<open>
  What a request has registered, phase by phase: a listener with its timer while it waits for a message, and the subscription to the
  channel of a transaction.
\<close>

fun tidy_phase :: "du_phase \<Rightarrow> channel list \<Rightarrow> channel list \<Rightarrow> bool \<Rightarrow> bool" where
  "tidy_phase AddWait ls ss t = (ls = [GLOBAL] \<and> ss = [] \<and> t)"
| "tidy_phase (UseJoin p) ls ss t = (ls = [GLOBAL] \<and> ss = [] \<and> t)"
| "tidy_phase (LinkWait st i c) ls ss t = (ls = [c] \<and> ss = [c] \<and> t)"
| "tidy_phase (UseLink p c) ls ss t = (ls = [c] \<and> ss = [c] \<and> t)"
| "tidy_phase (UseLate c) ls ss t = (ls = [c] \<and> ss = [c] \<and> t)"
| "tidy_phase p ls ss t = (ls = [] \<and> ss = [] \<and> \<not> t)"

definition req_tidy :: "du_req \<Rightarrow> bool" where
  "req_tidy r = tidy_phase (du_phase r) (du_listens r) (du_subs r) (du_timer r)"

lemma req_regs [simp]: "du_listens (du_idle r) = du_listens r" "du_subs (du_idle r) = du_subs r" "du_timer (du_idle r) = du_timer r"
  "du_listens (quit c r) = remove1 c (du_listens r)" "du_subs (quit c r) = remove1 c (du_subs r)" "\<not> du_timer (quit c r)"
  "du_listens (listen_on c p r) = du_listens r @ [c]" "du_subs (listen_on c p r) = du_subs r" "du_timer (listen_on c p r)"
  "du_listens (subscribe_to c r) = du_listens r" "du_subs (subscribe_to c r) = du_subs r @ [c]" "du_timer (subscribe_to c r) = du_timer r"
  by (simp_all add: du_idle_def quit_def listen_on_def subscribe_to_def)

lemma handler_tidy:
  assumes "req_tidy r"
  shows "req_tidy (fst (lock_answer (add_locked d) r))" "req_tidy (fst (lock_answer (\<lambda>t. refused_lock x) r))" "req_tidy (fst (lock_answer (\<lambda>t. failed_lock) r))"
    "req_tidy (fst (load_answer (\<lambda>p. op_loaded p dev c) r))" "req_tidy (fst (load_answer (\<lambda>p. op_failed p msg) r))"
proof -
  show "req_tidy (fst (lock_answer (add_locked d) r))"
    using assms by (cases "du_phase r") (simp_all add: lock_answer_def add_locked_def req_tidy_def Let_def)
  show "req_tidy (fst (lock_answer (\<lambda>t. refused_lock x) r))" "req_tidy (fst (lock_answer (\<lambda>t. failed_lock) r))"
    using assms by (cases "du_phase r"; simp add: lock_answer_def refused_lock_def failed_lock_def req_tidy_def)+
  have "req_tidy (fst (op_loaded p dev c r))" if "du_phase r = LoadWait p" for p
    using assms that by (cases p; cases dev) (simp_all add: op_loaded_def req_tidy_def Let_def)
  then show "req_tidy (fst (load_answer (\<lambda>p. op_loaded p dev c) r))" using assms by (cases "du_phase r") (simp_all add: load_answer_def)
  show "req_tidy (fst (load_answer (\<lambda>p. op_failed p msg) r))" using assms by (cases "du_phase r") (simp_all add: load_answer_def op_failed_def req_tidy_def)
qed

lemma handler_tidy2:
  assumes "req_tidy r"
  shows "req_tidy (fst (req_tx ok msg r))" "req_tidy (fst (req_join ser email c r))" "req_tidy (fst (req_started ch ser url r))"
    "req_tidy (fst (req_stopped ch ser r))" "req_tidy (fst (req_timer r))"
proof -
  show "req_tidy (fst (req_tx ok msg r))"
    using assms by (cases "du_phase r") (simp_all add: req_tx_def op_failed_def req_tidy_def split: bool.split)
  show "req_tidy (fst (req_join ser email c r))" using assms by (cases "du_phase r") (simp_all add: req_join_def req_tidy_def)
  show "req_tidy (fst (req_started ch ser url r))" using assms by (cases "du_phase r") (auto simp: req_started_def req_tidy_def split: bool.split)
  show "req_tidy (fst (req_stopped ch ser r))" using assms by (cases "du_phase r") (auto simp: req_stopped_def req_tidy_def split: bool.split)
  show "req_tidy (fst (req_timer r))" using assms by (cases "du_phase r") (simp_all add: req_timer_def req_tidy_def)
qed

lemma one_keeps: "list_all P s \<Longrightarrow> (\<And>r. P r \<Longrightarrow> P (fst (f r))) \<Longrightarrow> list_all P (fst (one_req n f s))"
  by (auto simp: one_req_def list_all_length nth_list_update)

lemma each_keeps: "list_all P s \<Longrightarrow> (\<And>r. P r \<Longrightarrow> P (fst (f r))) \<Longrightarrow> list_all P (fst (each_req f s))"
  by (simp add: each_req_def list_all_length)

lemma step_tidy: "list_all req_tidy s \<Longrightarrow> list_all req_tidy (fst (du_step s e))"
proof (cases e)
  case (UseReq k u dev usage)
  assume "list_all req_tidy s"
  then show ?thesis using UseReq by (cases dev) (simp_all add: use_begin_def req_new_def req_tidy_def Let_def)
qed (simp_all add: one_keeps each_keeps handler_tidy handler_tidy2, simp_all add: req_new_def req_tidy_def)

interpretation dut: invariant_machine du_step "list_all req_tidy"
  by unfold_locales (rule step_tidy)

text \<open>
  Nothing is left behind and nothing waits for ever: in every reachable state, a request that waits for a message has exactly one
  listener and its timer runs, so its end is certain, and one that does not has no listener, no subscription and no timer.
\<close>

theorem requests_clean_up:
  assumes "r \<in> set (fst (run du_step [] es))"
  shows "tidy_phase (du_phase r) (du_listens r) (du_subs r) (du_timer r) \<and>
    (du_timer r \<longrightarrow> du_phase (fst (req_timer r)) = Idle \<and> du_listens (fst (req_timer r)) = [] \<and> du_subs (fst (req_timer r)) = [])"
proof -
  have "req_tidy r" using dut.always_run [of "[]" es] assms by (simp add: list_all_iff)
  then show ?thesis by (cases "du_phase r") (simp_all add: req_tidy_def req_timer_def)
qed

section \<open>Who commands a device\<close>

definition free_device :: "used_device \<Rightarrow> bool" where
  "free_device d \<longleftrightarrow> ud_present d \<and> ud_ready d \<and> ud_owner d = None"

definition ud_held :: "used_device \<Rightarrow> du_user \<Rightarrow> bool" where
  "ud_held d u \<longleftrightarrow> ud_present d \<and> ud_ready d \<and> (\<exists>e. ud_owner d = Some e \<and> (e = du_email u \<or> du_admin u))"

lemma normalize_same [simp]: "ud_serial (normalize d u g) = ud_serial d" "ud_channel (normalize d u g) = ud_channel d"
  by (simp_all add: normalize_def applyOwner_def applyOwnerOnlyInfo_def Let_def)

text \<open>What the two tests of \<open>deviceutil\<close> come to on a record that has been normalized.\<close>

lemma addable_iff: "isAddable (normalize d u g) \<longleftrightarrow> free_device d"
  by (auto simp: isAddable_def normalize_def applyOwner_def applyOwnerOnlyInfo_def free_device_def Let_def split: option.splits)

lemma owned_iff: "isOwnedByUser (normalize d u g) u \<longleftrightarrow> ud_held d u"
  by (auto simp: isOwnedByUser_def normalize_def applyOwner_def applyOwnerOnlyInfo_def ud_held_def Let_def split: option.splits)

text \<open>What a request has behind it, in terms of the events so far and of what has been sent.\<close>

definition begun :: "du_event set \<Rightarrow> du_req \<Rightarrow> bool" where
  "begun H r \<longleftrightarrow> (\<exists>d us. UseReq (du_key r) (du_user r) (Some d) us \<in> H \<and> free_device d \<and> ud_channel d = du_channel r)"

definition du_asked :: "du_event set \<Rightarrow> du_out set \<Rightarrow> du_req \<Rightarrow> bool" where
  "du_asked H Q r \<longleftrightarrow> (\<exists>t. AddReq (du_key r) (du_user r) (du_serial r) t \<in> H \<and>
     ToDevice (du_channel r) (MGroup (du_serial r) (du_user r) t ''automation'') \<in> Q)"

fun earned_phase :: "du_event set \<Rightarrow> du_out set \<Rightarrow> du_req \<Rightarrow> du_phase \<Rightarrow> bool" where
  "earned_phase H Q r (AddLock t) = (AddReq (du_key r) (du_user r) (du_serial r) t \<in> H)"
| "earned_phase H Q r AddWait = du_asked H Q r"
| "earned_phase H Q r (LoadWait p) = (OpReq (du_key r) p (du_user r) (du_serial r) \<in> H)"
| "earned_phase H Q r (UseLeave us) = begun H r"
| "earned_phase H Q r (UseJoin p) = begun H r"
| "earned_phase H Q r p = True"

definition earned :: "du_event set \<Rightarrow> du_out set \<Rightarrow> du_req \<Rightarrow> bool" where
  "earned H Q r = earned_phase H Q r (du_phase r)"

lemma earned_mono: "earned H Q r \<Longrightarrow> H \<subseteq> H' \<Longrightarrow> Q \<subseteq> Q' \<Longrightarrow> earned H' Q' r"
  by (cases "du_phase r") (auto simp: earned_def du_asked_def begun_def)

lemma earned_idle [simp]: "earned H Q (du_idle r)"
  by (simp add: earned_def)

text \<open>
  A message to a device is allowed when the device was free and the request has taken it, by the lock or as \<open>useDevice\<close> was told, or
  when it was the user's, or the user is an administrator.
\<close>

definition commands :: "du_event set \<Rightarrow> used_device \<Rightarrow> du_user \<Rightarrow> bool" where
  "commands H d u \<longleftrightarrow>
     free_device d \<and> (\<exists>n k ser t. LockGot n d \<in> H \<and> AddReq k u ser t \<in> H) \<or>
     free_device d \<and> (\<exists>k us. UseReq k u (Some d) us \<in> H) \<or>
     ud_held d u \<and> (\<exists>n c k p ser. Loaded n (Some d) c \<in> H \<and> OpReq k p u ser \<in> H)"

definition allowed :: "du_event set \<Rightarrow> du_out \<Rightarrow> bool" where
  "allowed H x \<longleftrightarrow> (\<forall>ch m. x = ToDevice ch m \<longrightarrow> (\<exists>d u. ud_channel d = ch \<and> commands H d u \<and>
     (\<forall>ser v t us. m = MGroup ser v t us \<longrightarrow> v = u \<and> free_device d)))"

lemma allowed_other [simp]: "(\<And>ch m. x \<noteq> ToDevice ch m) \<Longrightarrow> allowed H x"
  by (simp add: allowed_def)

lemma allowedI: "ud_channel d = ch \<Longrightarrow> commands H d u \<Longrightarrow> (\<And>ser v t us. m = MGroup ser v t us \<Longrightarrow> v = u \<and> free_device d) \<Longrightarrow> allowed H (ToDevice ch m)"
  unfolding allowed_def by blast

lemma begun_allowed: "begun H r \<Longrightarrow> (\<And>ser v t us. m = MGroup ser v t us \<Longrightarrow> v = du_user r) \<Longrightarrow> allowed H (ToDevice (du_channel r) m)"
  unfolding begun_def by (elim exE conjE) (rule allowedI, auto simp: commands_def)

text \<open>One handler keeps what is behind the request, and sends only what is allowed.\<close>

definition lawful :: "du_event set \<Rightarrow> du_out set \<Rightarrow> (du_req \<Rightarrow> du_req \<times> du_out list) \<Rightarrow> bool" where
  "lawful H Q f \<longleftrightarrow> (\<forall>r. earned H Q r \<longrightarrow> earned H (Q \<union> set (snd (f r))) (fst (f r)) \<and> (\<forall>x \<in> set (snd (f r)). allowed H x))"

lemma lawfulI: "(\<And>r. earned H Q r \<Longrightarrow> earned H (Q \<union> set (snd (f r))) (fst (f r)) \<and> (\<forall>x \<in> set (snd (f r)). allowed H x)) \<Longrightarrow> lawful H Q f"
  by (simp add: lawful_def)

lemma earned_later: "earned H Q r \<Longrightarrow> earned H (Q \<union> X) r"
  by (rule earned_mono) auto

lemma reg_fields [simp]: "du_user (du_idle r) = du_user r" "du_serial (du_idle r) = du_serial r" "du_channel (du_idle r) = du_channel r"
  "du_user (quit c r) = du_user r" "du_serial (quit c r) = du_serial r" "du_channel (quit c r) = du_channel r"
  "du_user (listen_on c p r) = du_user r" "du_serial (listen_on c p r) = du_serial r" "du_channel (listen_on c p r) = du_channel r"
  "du_user (subscribe_to c r) = du_user r" "du_serial (subscribe_to c r) = du_serial r" "du_channel (subscribe_to c r) = du_channel r"
  by (simp_all add: du_idle_def quit_def listen_on_def subscribe_to_def)

lemma lawful_lock:
  assumes "LockGot n d \<in> H"
  shows "lawful H Q (lock_answer (add_locked d))"
proof (rule lawfulI)
  fix r assume e: "earned H Q r"
  show "earned H (Q \<union> set (snd (lock_answer (add_locked d) r))) (fst (lock_answer (add_locked d) r)) \<and>
      (\<forall>x \<in> set (snd (lock_answer (add_locked d) r)). allowed H x)"
  proof (cases "du_phase r")
    case (AddLock t)
    then have a: "AddReq (du_key r) (du_user r) (du_serial r) t \<in> H" using e by (simp add: earned_def)
    show ?thesis
    proof (cases "free_device d")
      case True
      have "commands H d (du_user r)" using a assms True by (auto simp: commands_def)
      then have "allowed H (ToDevice (ud_channel d) (MGroup (du_serial r) (du_user r) t ''automation''))"
        by (rule allowedI [OF refl]) (simp add: True)
      then show ?thesis using True AddLock a by (auto simp: lock_answer_def add_locked_def addable_iff earned_def du_asked_def Let_def)
    next
      case False
      then show ?thesis using AddLock by (simp add: lock_answer_def add_locked_def addable_iff Let_def)
    qed
  qed (use e in \<open>simp_all add: lock_answer_def\<close>)
qed

lemma lawful_refused: "lawful H Q (lock_answer (\<lambda>t. refused_lock x))" "lawful H Q (lock_answer (\<lambda>t. failed_lock))"
  by (rule lawfulI, simp add: lock_answer_def refused_lock_def failed_lock_def split: du_phase.split lock_refusal.split)+

lemma lawful_loaded:
  assumes "Loaded n dev c \<in> H"
  shows "lawful H Q (load_answer (\<lambda>p. op_loaded p dev c))"
proof (rule lawfulI)
  fix r assume e: "earned H Q r"
  show "earned H (Q \<union> set (snd (load_answer (\<lambda>p. op_loaded p dev c) r))) (fst (load_answer (\<lambda>p. op_loaded p dev c) r)) \<and>
      (\<forall>x \<in> set (snd (load_answer (\<lambda>p. op_loaded p dev c) r)). allowed H x)"
  proof (cases "du_phase r")
    case (LoadWait p)
    then have a: "OpReq (du_key r) p (du_user r) (du_serial r) \<in> H" using e by (simp add: earned_def)
    show ?thesis
    proof (cases "\<exists>d. dev = Some d \<and> ud_held d (du_user r)")
      case True
      then obtain d where d: "dev = Some d" "ud_held d (du_user r)" by blast
      have "commands H d (du_user r)" using a assms d by (auto simp: commands_def)
      then have "allowed H (ToDevice (ud_channel d) m)" if "\<And>ser v t us. m \<noteq> MGroup ser v t us" for m
        by (rule allowedI [OF refl]) (simp add: that)
      then show ?thesis using d LoadWait by (cases p) (simp_all add: load_answer_def op_loaded_def owned_iff earned_def Let_def)
    next
      case False
      then show ?thesis using LoadWait by (cases dev) (simp_all add: load_answer_def op_loaded_def owned_iff Let_def)
    qed
  qed (use e in \<open>simp_all add: load_answer_def\<close>)
qed

lemma lawful_failed: "lawful H Q (load_answer (\<lambda>p. op_failed p msg))"
  by (rule lawfulI) (simp add: load_answer_def op_failed_def split: du_phase.split du_op.split)

lemma lawful_tx: "lawful H Q (req_tx ok msg)"
proof (rule lawfulI)
  fix r assume e: "earned H Q r"
  show "earned H (Q \<union> set (snd (req_tx ok msg r))) (fst (req_tx ok msg r)) \<and> (\<forall>x \<in> set (snd (req_tx ok msg r)). allowed H x)"
  proof (cases "du_phase r")
    case (UseLeave us)
    then have b: "begun H r" using e by (simp add: earned_def)
    have "allowed H (ToDevice (du_channel r) (MGroup (du_serial r) (du_user r) None us))" by (rule begun_allowed [OF b]) simp
    then show ?thesis using UseLeave b by (simp add: req_tx_def earned_def begun_def)
  next
    case (ReleaseWait i)
    then show ?thesis by (simp add: req_tx_def op_failed_def earned_def)
  next
    case (UseJoin p)
    then show ?thesis using e by (cases p) (simp_all add: req_tx_def earned_def begun_def)
  next
    case (UseLink p c)
    then show ?thesis using e by (cases p) (simp_all add: req_tx_def earned_def)
  qed (use e earned_later in \<open>simp_all add: req_tx_def\<close>)
qed

lemma lawful_join: "lawful H Q (\<lambda>r. req_join ser email (c (du_key r)) r)"
proof (rule lawfulI)
  fix r assume e: "earned H Q r"
  show "earned H (Q \<union> set (snd (req_join ser email (c (du_key r)) r))) (fst (req_join ser email (c (du_key r)) r)) \<and>
      (\<forall>x \<in> set (snd (req_join ser email (c (du_key r)) r)). allowed H x)"
  proof (cases "du_phase r")
    case (UseJoin p)
    then have b: "begun H r" using e by (simp add: earned_def)
    have "allowed H (ToDevice (du_channel r) (MConnectStart (c (du_key r))))" by (rule begun_allowed [OF b]) simp
    then show ?thesis using e UseJoin by (simp add: req_join_def earned_def)
  qed (use e in \<open>simp_all add: req_join_def\<close>)
qed

lemma lawful_rest: "lawful H Q (req_started ch ser url)" "lawful H Q (req_stopped ch ser)" "lawful H Q req_timer"
  by (rule lawfulI, auto simp: req_started_def req_stopped_def req_timer_def split: du_phase.split bool.split)+

definition lawful_state :: "du_event set \<Rightarrow> du_out set \<Rightarrow> du_req list \<Rightarrow> bool" where
  "lawful_state H Q s \<longleftrightarrow> list_all (earned H Q) s \<and> (\<forall>x \<in> Q. allowed H x)"

lemma lawfulD: "lawful H Q f \<Longrightarrow> earned H Q r \<Longrightarrow> earned H (Q \<union> set (snd (f r))) (fst (f r)) \<and> (\<forall>x \<in> set (snd (f r)). allowed H x)"
  unfolding lawful_def by blast

lemma lawful_stateD: "lawful_state H Q s \<Longrightarrow> r \<in> set s \<Longrightarrow> earned H Q r" "lawful_state H Q s \<Longrightarrow> x \<in> Q \<Longrightarrow> allowed H x"
  by (simp_all add: lawful_state_def list_all_iff)

lemma lawful_stateI: "(\<And>r. r \<in> set s \<Longrightarrow> earned H Q r) \<Longrightarrow> (\<And>x. x \<in> Q \<Longrightarrow> allowed H x) \<Longrightarrow> lawful_state H Q s"
  by (simp add: lawful_state_def list_all_iff)

lemma lawful_one:
  assumes "lawful_state H Q s" and "lawful H Q f"
  shows "lawful_state H (Q \<union> set (snd (one_req n f s))) (fst (one_req n f s))"
proof (cases "n < length s")
  case True
  then have f: "earned H (Q \<union> set (snd (f (s ! n)))) (fst (f (s ! n)))" "\<forall>x \<in> set (snd (f (s ! n))). allowed H x"
    using lawfulD [OF assms(2) lawful_stateD(1) [OF assms(1)], of "s ! n"] by simp_all
  show ?thesis
  proof (rule lawful_stateI)
    fix r assume "r \<in> set (fst (one_req n f s))"
    then have "r = fst (f (s ! n)) \<or> r \<in> set s" using True set_update_subset_insert [of s n] by (auto simp: one_req_def)
    then show "earned H (Q \<union> set (snd (one_req n f s))) r"
      using f(1) earned_later [OF lawful_stateD(1) [OF assms(1)]] True by (auto simp: one_req_def)
  qed (use f(2) lawful_stateD(2) [OF assms(1)] True in \<open>auto simp: one_req_def\<close>)
qed (use assms(1) in \<open>simp add: one_req_def\<close>)

lemma lawful_each:
  assumes "lawful_state H Q s" and "lawful H Q f"
  shows "lawful_state H (Q \<union> set (snd (each_req f s))) (fst (each_req f s))"
proof (rule lawful_stateI)
  note f = lawfulD [OF assms(2) lawful_stateD(1) [OF assms(1)]]
  show "earned H (Q \<union> set (snd (each_req f s))) r" if r: "r \<in> set (fst (each_req f s))" for r
  proof -
    obtain r0 where r0: "r0 \<in> set s" "r = fst (f r0)" using r by (auto simp: each_req_def)
    show ?thesis unfolding r0(2)
      by (rule earned_mono [OF conjunct1 [OF f [OF r0(1)]] order_refl]) (use r0(1) in \<open>auto simp: each_req_def\<close>)
  qed
  show "allowed H x" if "x \<in> Q \<union> set (snd (each_req f s))" for x
    using that f lawful_stateD(2) [OF assms(1)] by (auto simp: each_req_def)
qed

lemma lawful_new:
  assumes "lawful_state H Q s" and "earned H (Q \<union> X) r" and "\<And>x. x \<in> X \<Longrightarrow> allowed H x"
  shows "lawful_state H (Q \<union> X) (s @ [r])"
  by (rule lawful_stateI) (use assms(2,3) earned_later [OF lawful_stateD(1) [OF assms(1)]] lawful_stateD(2) [OF assms(1)] in auto)

lemma lawful_step:
  assumes "lawful_state H Q s" and "e \<in> H"
  shows "lawful_state H (Q \<union> set (snd (du_step s e))) (fst (du_step s e))"
proof (cases e)
  case (LockGot n d)
  then show ?thesis using lawful_one [OF assms(1) lawful_lock] assms(2) by simp
next
  case (Loaded n dev c)
  then show ?thesis using lawful_one [OF assms(1) lawful_loaded] assms(2) by simp
next
  case (UseReq k u dev us)
  show ?thesis
  proof (cases "\<exists>d. dev = Some d \<and> free_device d")
    case True
    then obtain d where d: "dev = Some d" "free_device d" by blast
    have "commands H d u" using d UseReq assms(2) by (auto simp: commands_def)
    then have "allowed H (ToDevice (ud_channel d) (MUngroup (ud_serial d)))" by (rule allowedI [OF refl]) simp
    moreover have "du_step s e = (s @ [(req_new k u [] Idle)\<lparr>du_channel := ud_channel d, du_serial := ud_serial d, du_phase := UseLeave us\<rparr>],
        [ToDevice (ud_channel d) (MUngroup (ud_serial d))])"
      using d UseReq by (simp add: use_begin_def addable_iff Let_def)
    moreover have "begun H ((req_new k u [] Idle)\<lparr>du_channel := ud_channel d, du_serial := ud_serial d, du_phase := UseLeave us\<rparr>)"
      using d UseReq assms(2) by (auto simp: begun_def req_new_def)
    ultimately show ?thesis
      using lawful_new [OF assms(1), of "{ToDevice (ud_channel d) (MUngroup (ud_serial d))}"
          "(req_new k u [] Idle)\<lparr>du_channel := ud_channel d, du_serial := ud_serial d, du_phase := UseLeave us\<rparr>"]
      by (simp add: earned_def begun_def)
  next
    case False
    then obtain x where "du_step s e = (s @ [req_new k u [] Idle], [Settled k x])"
      using UseReq by (cases dev) (auto simp: use_begin_def addable_iff req_new_def Let_def)
    then show ?thesis using lawful_new [OF assms(1), of "{Settled k x}" "req_new k u [] Idle"] by (simp add: earned_def req_new_def)
  qed
next
  case (AddReq k u ser t)
  then show ?thesis using assms by (simp add: lawful_state_def earned_def req_new_def)
next
  case (OpReq k p u ser)
  then show ?thesis using assms by (simp add: lawful_state_def earned_def req_new_def)
qed (use lawful_one [OF assms(1)] lawful_each [OF assms(1)] lawful_refused lawful_failed lawful_tx lawful_join lawful_rest in simp_all)

lemma lawful_run: "lawful_state H Q s \<Longrightarrow> set es \<subseteq> H \<Longrightarrow> lawful_state H (Q \<union> set (snd (run du_step s es))) (fst (run du_step s es))"
proof (induction es arbitrary: s Q)
  case (Cons e es)
  have "lawful_state H (Q \<union> set (snd (du_step s e))) (fst (du_step s e))" using lawful_step Cons.prems by simp
  from Cons.IH [OF this] Cons.prems(2) show ?case by (simp add: run_fst run_snd Un_assoc del: run.simps)
qed simp

lemma reach_lawful: "lawful_state (set es) (set (snd (run du_step [] es))) (fst (run du_step [] es))"
  using lawful_run [of "set es" "{}" "[]" es] by (simp add: lawful_state_def)

text \<open>
  C9. Nobody commands the device of another: whatever is sent to a device follows from a record of that device which was free and which
  the request has locked or been given, or which the user of the request held, or any user, when the user of the request is an
  administrator; and a message that puts a device into a group puts a free device into the group of the user who asked.
\<close>

theorem commands_are_authorised:
  assumes "ToDevice ch m \<in> set (snd (run du_step [] es))"
  shows "\<exists>d u. ud_channel d = ch \<and> commands (set es) d u \<and> (\<forall>ser v t us. m = MGroup ser v t us \<longrightarrow> v = u \<and> free_device d)"
  using reach_lawful [of es] assms unfolding lawful_state_def allowed_def by blast

section \<open>Success and silence\<close>

lemma added_only_by_join:
  assumes "Answer k 200 ''Device successfully added'' \<in> set (snd (du_step s e))"
  shows "\<exists>ser f r. e = JoinMsg ser (du_email (du_user r)) f \<and> r \<in> set s \<and> du_key r = k \<and> du_phase r = AddWait \<and> du_serial r = ser"
proof -
  let ?A = "Answer k 200 ''Device successfully added''"
  have one: "?A \<notin> set (snd (one_req n f s))" if "\<And>r. ?A \<notin> set (snd (f r))" for n f using that by (simp add: one_req_def)
  have each: "?A \<notin> set (snd (each_req f s))" if "\<And>r. ?A \<notin> set (snd (f r))" for f using that by (simp add: each_req_def)
  have h: "?A \<notin> set (snd (lock_answer (add_locked d) r))" "?A \<notin> set (snd (lock_answer (\<lambda>t. refused_lock x) r))" "?A \<notin> set (snd (lock_answer (\<lambda>t. failed_lock) r))"
      "?A \<notin> set (snd (load_answer (\<lambda>p. op_loaded p dev c) r))" "?A \<notin> set (snd (load_answer (\<lambda>p. op_failed p msg) r))" for d x dev c msg r
    by (simp_all add: lock_answer_def load_answer_def add_locked_def refused_lock_def failed_lock_def op_loaded_def op_failed_def Let_def
        split: du_phase.split lock_refusal.split du_op.split option.split)
  have h2: "?A \<notin> set (snd (req_tx ok msg r))" "?A \<notin> set (snd (req_started c ser url r))" "?A \<notin> set (snd (req_stopped c ser r))" "?A \<notin> set (snd (req_timer r))" for ok msg c ser url r
    by (auto simp: req_tx_def req_started_def req_stopped_def req_timer_def op_failed_def split: du_phase.split bool.split if_splits)
  have u: "?A \<notin> set (snd (use_begin dev us r))" for dev us r by (simp add: use_begin_def Let_def split: option.split)
  show ?thesis
  proof (cases e)
    case (JoinMsg ser email f)
    then obtain r where r: "r \<in> set s" "?A \<in> set (snd (req_join ser email (f (du_key r)) r))" using assms by (auto simp: each_req_def)
    then have "du_key r = k \<and> du_phase r = AddWait \<and> du_serial r = ser \<and> du_email (du_user r) = email"
      by (auto simp: req_join_def split: if_splits du_phase.splits)
    then show ?thesis using JoinMsg r(1) by auto
  qed (use assms one each h h2 u in \<open>simp_all add: Let_def\<close>)
qed

lemma run_output_split:
  "x \<in> set (snd (run step s es)) \<Longrightarrow> \<exists>as e bs. es = as @ e # bs \<and> x \<in> set (snd (step (fst (run step s as)) e))"
proof (induction es arbitrary: s)
  case (Cons e es)
  then consider "x \<in> set (snd (step s e))" | "x \<in> set (snd (run step (fst (step s e)) es))" by (auto simp: run_snd simp del: run.simps)
  then show ?case
  proof cases
    case 1
    then show ?thesis by (intro exI [of _ "[]"]) simp
  next
    case 2
    then obtain as e' bs where "es = as @ e' # bs" "x \<in> set (snd (step (fst (run step (fst (step s e)) as)) e'))" using Cons.IH by blast
    then show ?thesis by (intro exI [of _ "e # as"]) (simp add: run_fst del: run.simps)
  qed
qed simp

text \<open>
  Who is told that the device is theirs has it: when a request is answered with success, the device has just reported that it has
  joined a group of the user who asked, for the serial number that was asked for, and before that the device was told to by this request.
\<close>

theorem added_means_joined:
  assumes "Answer k 200 ''Device successfully added'' \<in> set (snd (run du_step [] es))"
  shows "\<exists>as bs ser u f t ch. es = as @ JoinMsg ser (du_email u) f # bs \<and> AddReq k u ser t \<in> set as \<and>
     ToDevice ch (MGroup ser u t ''automation'') \<in> set (snd (run du_step [] as))"
proof -
  obtain as e bs where e: "es = as @ e # bs" "Answer k 200 ''Device successfully added'' \<in> set (snd (du_step (fst (run du_step [] as)) e))"
    using run_output_split [OF assms] by blast
  obtain ser f r where r: "e = JoinMsg ser (du_email (du_user r)) f" "r \<in> set (fst (run du_step [] as))" "du_key r = k" "du_phase r = AddWait" "du_serial r = ser"
    using added_only_by_join [OF e(2)] by blast
  have "earned (set as) (set (snd (run du_step [] as))) r" using reach_lawful [of as] r(2) by (simp add: lawful_state_def list_all_iff)
  then have "\<exists>t. AddReq k (du_user r) ser t \<in> set as \<and> ToDevice (du_channel r) (MGroup ser (du_user r) t ''automation'') \<in> set (snd (run du_step [] as))"
    using r by (simp add: earned_def du_asked_def)
  then show ?thesis using e(1) r(1) by blast
qed




section \<open>With the device\<close>

text \<open>
  What the group plugin of a device gets from a message, and what the unit gets from the plugin. The device compares the serial number.
\<close>

definition group_owner :: "du_user \<Rightarrow> group_state" where
  "group_owner u = \<lparr>g_email = du_email u, g_name = du_name u, g_group = du_group u\<rparr>"

definition exact_serial :: "serial \<Rightarrow> requirement list" where
  "exact_serial ser = [\<lparr>rq_name = ''serial'', rq_value = ser, rq_type = EXACT\<rparr>]"

fun group_events :: "(string \<Rightarrow> string \<Rightarrow> bool) \<Rightarrow> (string \<Rightarrow> string \<Rightarrow> bool) \<Rightarrow> (string \<Rightarrow> string option) \<Rightarrow> channel \<Rightarrow> millis \<Rightarrow> millis \<Rightarrow>
    du_message \<Rightarrow> gm_event list" where
  "group_events sat mini ident ch now now' (MGroup ser u t usage) =
     [GroupMsg ch (device_check sat mini ident (Some (exact_serial ser))) (Some (group_owner u)) t usage (du_keys u) now now']"
| "group_events sat mini ident ch now now' (MUngroup ser) = [UngroupMsg ch (device_check sat mini ident (Some (exact_serial ser)))]"
| "group_events sat mini ident ch now now' m = []"

fun join_events :: "(nat \<Rightarrow> channel) \<Rightarrow> gm_out list \<Rightarrow> du_event list" where
  "join_events f [] = []"
| "join_events f (SendJoin ser g usage t # os) = JoinMsg ser (g_email g) f # join_events f os"
| "join_events f (_ # os) = join_events f os"

text \<open>
  C27. Asking for a free device gets it: when the record says that the device is free and the device is in no group, the message of the
  request, run through the group plugin of the device, puts the device into the user's group, and the message of the plugin that comes
  back answers the request with success.
\<close>

theorem free_device_is_taken:
  assumes "op_solo opts \<noteq> []" and "list_all (gm_event_ok opts) ges" and "gs = fst (run (gm_step opts) gm_new ges)" and "gm_group gs = None"
    and "n < length s" and "du_phase (s ! n) = AddLock t" and "du_serial (s ! n) = op_serial opts" and "free_device d"
    and "ident ''serial'' = Some (op_serial opts)" and "op_serial opts \<noteq> []"
    and "du_group (du_user (s ! n)) \<noteq> []" and "du_group (du_user (s ! n)) \<noteq> op_solo opts"
  shows "\<exists>m. snd (du_step s (LockGot n d)) = [ToDevice (ud_channel d) m, UnlockDevice (ud_serial d)] \<and>
    (let g = run (gm_step opts) gs (group_events sat mini ident ch now now' m) in
      gm_group (fst g) = Some (group_owner (du_user (s ! n))) \<and>
      Answer (du_key (s ! n)) 200 ''Device successfully added'' \<in> set (snd (run du_step (fst (du_step s (LockGot n d))) (join_events f (snd g)))))"
proof -
  let ?u = "du_user (s ! n)"
  let ?m = "MGroup (op_serial opts) ?u t ''automation''"
  let ?g = "run (gm_step opts) gs (group_events sat mini ident ch now now' ?m)"
  have inv: "gm_inv opts gs" unfolding assms(3) by (rule group.inv_run [OF gm_inv_new [OF assms(1)] assms(2)])
  have chk: "device_check sat mini ident (Some (exact_serial (op_serial opts))) = Inr True"
    using assms(9,10) by (simp add: device_check_def exact_serial_def)
  have join: "gm_group (fst (gm_join opts gs (Some (group_owner ?u)) t ''automation'' (du_keys ?u) now now')) = Some (group_owner ?u) \<and>
      snd (gm_join opts gs (Some (group_owner ?u)) t ''automation'' (du_keys ?u) now now') =
        [Subscribe (du_group ?u), EmitJoin (group_owner ?u) (du_keys ?u), SendJoin (op_serial opts) (group_owner ?u) ''automation'' t]"
    using inv by (cases rule: join_cases [where timeout = t and usage = "''automation''" and keys = "du_keys ?u"
          and now = now and now' = now' and owner = "Some (group_owner ?u)"])
      (use assms(4,11,12) in \<open>auto simp: truthy_str_def group_owner_def\<close>)
  then have g: "gm_group (fst ?g) = Some (group_owner ?u)" "join_events f (snd ?g) = [JoinMsg (op_serial opts) (du_email ?u) f]"
    using chk by (simp_all add: Let_def group_owner_def)
  let ?r = "listen_on GLOBAL AddWait ((s ! n)\<lparr>du_channel := ud_channel d\<rparr>)"
  have step: "du_step s (LockGot n d) = (s[n := ?r], [ToDevice (ud_channel d) ?m, UnlockDevice (ud_serial d)])"
    using assms(5-8) by (simp add: one_req_def lock_answer_def add_locked_def addable_iff Let_def)
  have "snd (req_join (op_serial opts) (du_email ?u) (f (du_key ?r)) ?r) = [Answer (du_key (s ! n)) 200 ''Device successfully added'']"
    using assms(7) by (simp add: req_join_def)
  moreover have "?r \<in> set (s[n := ?r])" using assms(5) by (simp add: set_update_memI)
  ultimately have "Answer (du_key (s ! n)) 200 ''Device successfully added'' \<in> set (snd (du_step (s[n := ?r]) (JoinMsg (op_serial opts) (du_email ?u) f)))"
    by (auto simp: each_req_def intro!: bexI [of _ ?r])
  then show ?thesis using g step by (intro exI [of _ ?m]) (simp add: Let_def del: du_step.simps)
qed

section \<open>Instances\<close>

abbreviation some_user :: du_user where
  "some_user \<equiv> \<lparr>du_email = ''a@b'', du_name = ''a'', du_group = ''g'', du_admin = False, du_keys = []\<rparr>"

abbreviation some_device :: "string option \<Rightarrow> used_device" where
  "some_device e \<equiv> \<lparr>ud_serial = ''s1'', ud_channel = ''dev'', ud_present = True, ud_ready = True, ud_owner = e, ud_using = False, ud_remote = False, ud_url = None\<rparr>"

abbreviation add_events :: "du_event list" where
  "add_events \<equiv> [AddReq 7 some_user ''s1'' None, LockGot 0 (some_device None)]"

lemma eval_add: "run du_step [] add_events =
  ([\<lparr>du_key = 7, du_user = some_user, du_serial = ''s1'', du_channel = ''dev'', du_phase = AddWait, du_listens = [GLOBAL], du_subs = [], du_timer = True\<rparr>],
   [ToDevice ''dev'' (MGroup ''s1'' some_user None ''automation''), UnlockDevice ''s1''])"
  by (simp add: one_req_def lock_answer_def add_locked_def addable_iff free_device_def req_new_def listen_on_def Let_def)

lemma eval_added: "snd (run du_step [] (add_events @ [JoinMsg ''s1'' ''a@b'' (\<lambda>k. ''t'')])) =
  [ToDevice ''dev'' (MGroup ''s1'' some_user None ''automation''), UnlockDevice ''s1'', Answer 7 200 ''Device successfully added'']"
  unfolding run_append eval_add by (simp add: each_req_def req_join_def)

theorem device_requests_answered_once_witness:
  "du_answers (snd (run du_step [] (add_events @ [JoinMsg ''s1'' ''a@b'' (\<lambda>k. ''t'')]))) = [7] \<and>
   distinct (du_answers (snd (run du_step [] (add_events @ [JoinMsg ''s1'' ''a@b'' (\<lambda>k. ''t'')]))))"
  using device_requests_answered_once [of "add_events @ [JoinMsg ''s1'' ''a@b'' (\<lambda>k. ''t'')]"] eval_added
  by (simp add: Let_def del: run.simps)

theorem requests_clean_up_witness:
  "\<exists>r \<in> set (fst (run du_step [] add_events)). du_timer r \<and> du_phase (fst (req_timer r)) = Idle \<and> du_listens (fst (req_timer r)) = []"
proof -
  let ?r = "\<lparr>du_key = 7, du_user = some_user, du_serial = ''s1'', du_channel = ''dev'', du_phase = AddWait, du_listens = [GLOBAL], du_subs = [], du_timer = True\<rparr>"
  have "?r \<in> set (fst (run du_step [] add_events))" unfolding eval_add by simp
  from requests_clean_up [OF this] this show ?thesis by (intro bexI [of _ ?r]) simp_all
qed

theorem commands_are_authorised_witness:
  "\<exists>d. ud_channel d = ''dev'' \<and> commands (set add_events) d some_user \<and> free_device d"
proof -
  have "ToDevice ''dev'' (MGroup ''s1'' some_user None ''automation'') \<in> set (snd (run du_step [] add_events))" unfolding eval_add by simp
  from commands_are_authorised [OF this] obtain d u where d: "ud_channel d = ''dev''" "commands (set add_events) d u"
    and m: "\<forall>ser v t us. MGroup ''s1'' some_user None ''automation'' = MGroup ser v t us \<longrightarrow> v = u \<and> free_device d" by (elim exE conjE)
  have "some_user = u \<and> free_device d" by (rule m [rule_format]) (rule refl)
  then show ?thesis using d by metis
qed

theorem added_means_joined_witness:
  "\<exists>as bs ser u f t. add_events @ [JoinMsg ''s1'' ''a@b'' (\<lambda>k. ''t'')] = as @ JoinMsg ser (du_email u) f # bs \<and> AddReq 7 u ser t \<in> set as"
proof -
  have "Answer 7 200 ''Device successfully added'' \<in> set (snd (run du_step [] (add_events @ [JoinMsg ''s1'' ''a@b'' (\<lambda>k. ''t'')])))"
    unfolding eval_added by simp
  from added_means_joined [OF this] show ?thesis by blast
qed


theorem free_device_is_taken_witness:
  "\<exists>m. gm_group (fst (run (gm_step wit_opts) gm_new (group_events (\<lambda>a b. False) (\<lambda>a b. False) (\<lambda>x. if x = ''serial'' then Some ''s1'' else None) [] 0 0 m))) =
     Some (group_owner some_user)"
proof -
  let ?s = "[req_new 7 some_user ''s1'' (AddLock None)]"
  have a: "op_solo wit_opts \<noteq> []" "list_all (gm_event_ok wit_opts) []" "gm_new = fst (run (gm_step wit_opts) gm_new [])" "gm_group gm_new = None"
    "0 < length ?s" "du_phase (?s ! 0) = AddLock None" "du_serial (?s ! 0) = op_serial wit_opts" "free_device (some_device None)"
    "(\<lambda>x. if x = ''serial'' then Some ''s1'' else None) ''serial'' = Some (op_serial wit_opts)" "op_serial wit_opts \<noteq> []"
    "du_group (du_user (?s ! 0)) \<noteq> []" "du_group (du_user (?s ! 0)) \<noteq> op_solo wit_opts" "du_user (?s ! 0) = some_user"
    by (simp_all add: wit_opts_def gm_new_def req_new_def free_device_def)
  show ?thesis using free_device_is_taken [of wit_opts "[]" gm_new 0 ?s None "some_device None" "\<lambda>x. if x = ''serial'' then Some ''s1'' else None", OF a(1-12), of "\<lambda>a b. False" "\<lambda>a b. False" "[]" 0 0 "\<lambda>k. ''t''"] unfolding a(13) Let_def by blast
qed

end
