(* ===== verification/Web_Socket.thy ===== *)
theory Web_Socket imports Complex_Main Device_Use Js_Values begin

text \<open>
  The web socket unit (\<open>lib/units/websocket/index.js\<close>): every browser has a socket; what a browser asks becomes a message to a device
  or a request to the database, and the messages of devices and units become events of the browsers. The state is what the sockets
  share and what is theirs: the subscriptions of the unit, the listeners of the router, and for each socket its user, its channels, and
  what waits for an answer. Values of the language are trees; the names that the package for devices adds are left out, and a handler is
  given the fields that it reads. Subscriptions are counted, as the documentation of the transport says, and match beginnings.
\<close>

section \<open>The state\<close>

record ws_user =
  wu_email :: string
  wu_name :: string
  wu_group :: channel
  wu_admin :: bool
  wu_subscribed :: "string list"
  wu_owned :: "channel list"

text \<open>What waits: the answers of the database, the timers of groups that are deleted later, and the debounced request for the applications.\<close>

datatype ws_task = AppsLoad js | InviteKeys channel channel js | NoteSet js | NoteLoad | ShellAll js | TokenGone
  | KeyParse js | KeyLookup bool js js | KeyInsert bool js js | KeyGone js | DropGroup string | Upload channel

record ws_socket =
  ws_user :: ws_user
  ws_ip :: js
  ws_jwt :: string
  ws_channels :: "channel list"
  ws_open :: bool
  ws_tasks :: "ws_task list"
  ws_apps :: "(channel \<times> channel) option"

record ws_unit =
  wn_subs :: "channel list"
  wn_router :: "(channel \<times> nat) list"
  wn_sockets :: "ws_socket list"

text \<open>
  \<open>Emit\<close>: an event of one browser; \<open>EmitAll\<close>: of all of them; \<open>PushTo\<close>: a message to a channel, with the channel of its transaction if it
  has one, its class and its arguments; \<open>Ask\<close>: a request to the database or the storage.
\<close>

datatype ws_out = Emit nat string "js list" | EmitAll string "js list" | PushTo channel "channel option" string "js list" | Ask string "js list"

definition upd_sock :: "nat \<Rightarrow> (ws_socket \<Rightarrow> ws_socket) \<Rightarrow> ws_unit \<Rightarrow> ws_unit" where
  "upd_sock n f U = U\<lparr>wn_sockets := (wn_sockets U)[n := f (wn_sockets U ! n)]\<rparr>"

definition upd_user :: "nat \<Rightarrow> (ws_user \<Rightarrow> ws_user) \<Rightarrow> ws_unit \<Rightarrow> ws_unit" where
  "upd_user n f = upd_sock n (\<lambda>s. s\<lparr>ws_user := f (ws_user s)\<rparr>)"

definition ws_wait :: "nat \<Rightarrow> ws_task \<Rightarrow> ws_unit \<Rightarrow> ws_unit" where
  "ws_wait n t = upd_sock n (\<lambda>s. s\<lparr>ws_tasks := ws_tasks s @ [t]\<rparr>)"

text \<open>\<open>removeListener\<close> removes the listener that was added last.\<close>

definition remove_last :: "'a \<Rightarrow> 'a list \<Rightarrow> 'a list" where
  "remove_last x xs = rev (remove1 x (rev xs))"

definition joinChannel :: "nat \<Rightarrow> channel \<Rightarrow> ws_unit \<Rightarrow> ws_unit" where
  "joinChannel n c U = (upd_sock n (\<lambda>s. s\<lparr>ws_channels := ws_channels s @ [c]\<rparr>) U)
     \<lparr>wn_router := wn_router U @ [(c, n)], wn_subs := wn_subs U @ [c]\<rparr>"

definition leaveChannel :: "nat \<Rightarrow> channel \<Rightarrow> ws_unit \<Rightarrow> ws_unit" where
  "leaveChannel n c U = (upd_sock n (\<lambda>s. s\<lparr>ws_channels := filter (\<lambda>d. d \<noteq> c) (ws_channels s)\<rparr>) U)
     \<lparr>wn_router := remove_last (c, n) (wn_router U), wn_subs := remove1 c (wn_subs U)\<rparr>"

text \<open>A connection, and its end: \<open>finally\<close> of the promise.\<close>

definition ws_connect :: "ws_user \<Rightarrow> js \<Rightarrow> string \<Rightarrow> ws_unit \<Rightarrow> ws_unit \<times> ws_out list" where
  "ws_connect u ip jwt U =
     (let n = length (wn_sockets U);
          s = \<lparr>ws_user = u\<lparr>wu_owned := []\<rparr>, ws_ip = ip, ws_jwt = jwt, ws_channels = [], ws_open = True, ws_tasks = [], ws_apps = None\<rparr>;
          U1 = U\<lparr>wn_sockets := wn_sockets U @ [s], wn_router := wn_router U @ [(GLOBAL, n)]\<rparr> in
      (joinChannel n (wu_group u) U1, [Emit n ''socket.ip'' [ip]]))"

definition drop_channel :: "nat \<Rightarrow> ws_unit \<Rightarrow> channel \<Rightarrow> ws_unit" where
  "drop_channel n U c = U\<lparr>wn_router := remove_last (c, n) (wn_router U), wn_subs := remove1 c (wn_subs U)\<rparr>"

definition ws_disconnect :: "nat \<Rightarrow> ws_unit \<Rightarrow> ws_unit" where
  "ws_disconnect n U =
     (if ws_open (wn_sockets U ! n) then
        upd_sock n (\<lambda>s. s\<lparr>ws_open := False\<rparr>)
          (foldl (drop_channel n) (U\<lparr>wn_router := remove_last (GLOBAL, n) (wn_router U)\<rparr>) (ws_channels (wn_sockets U ! n)))
      else U)"

section \<open>Messages for the browsers\<close>

text \<open>The classes that the router of a socket has listeners for.\<close>

datatype ws_kind = UpdateAccessToken | DeleteUser | DeviceChange | UserChange | GroupChange | DeviceGroupChange | GroupUserChange
  | DeviceLog | DeviceIntroduction | DeviceReady | DevicePresent | DeviceAbsent | Applications | JoinGroup | JoinByFingerprint | LeaveGroup
  | DeviceStatus | DeviceIdentity | TxProgress | TxFinished | TxTree | LogcatEntry | AirplaneMode | Battery | Services | Browser
  | Connectivity | PhoneState | Rotation | Capabilities | ReverseForwards | Unavailable | ConnectUrl

definition change :: "bool \<Rightarrow> (string \<times> js) list \<Rightarrow> js list" where
  "change important kv = [JObj [(''important'', JBool important), (''data'', JObj kv)]]"

definition serial_and :: "string \<Rightarrow> js \<Rightarrow> (string \<times> js) list" where
  "serial_and k m = [(''serial'', jget ''serial'' m), (k, jdel ''serial'' m)]"

text \<open>\<open>applyOwner\<close> on the record of an event.\<close>

definition using_field :: "js \<Rightarrow> ws_user \<Rightarrow> js" where
  "using_field owner u = JBool (\<not> falsy owner \<and> (jget ''email'' owner = JStr (wu_email u) \<or> wu_admin u))"

definition join_fields :: "js \<Rightarrow> js option \<Rightarrow> ws_user \<Rightarrow> (string \<times> js) list" where
  "join_fields m apps u = [(''serial'', jget ''serial'' m), (''owner'', jget ''owner'' m), (''likelyLeaveReason'', JStr ''owner_change''), (''usage'', jget ''usage'' m)] @
     (case apps of Some a \<Rightarrow> [(''applications'', a)] | None \<Rightarrow> []) @ [(''using'', using_field (jget ''owner'' m) u)]"

text \<open>The messages that are passed on as they are, to the socket or to all; first those on the state of a device.\<close>

definition status_events :: "nat \<Rightarrow> js \<Rightarrow> ws_kind \<Rightarrow> ws_out list" where
  "status_events n m k = (case k of
       AirplaneMode \<Rightarrow> [EmitAll ''device.change'' (change True [(''serial'', jget ''serial'' m), (''airplaneMode'', jget ''enabled'' m)])]
     | Battery \<Rightarrow> [EmitAll ''device.change'' (change False (serial_and ''battery'' m))]
     | Services \<Rightarrow> [EmitAll ''device.change'' (change True (serial_and ''service'' m))]
     | Browser \<Rightarrow> [EmitAll ''device.change'' (change True (serial_and ''browser'' m))]
     | Connectivity \<Rightarrow> [EmitAll ''device.change'' (change False (serial_and ''network'' m))]
     | PhoneState \<Rightarrow> [EmitAll ''device.change'' (change False (serial_and ''network'' m))]
     | Rotation \<Rightarrow> [Emit n ''device.change'' (change False [(''serial'', jget ''serial'' m), (''display'', JObj (picked [''rotation''] m))])]
     | Capabilities \<Rightarrow> [Emit n ''device.change'' (change False [(''serial'', jget ''serial'' m), (''capabilities'', JObj (picked [''hasTouch'', ''hasCursor''] m))])]
     | ReverseForwards \<Rightarrow> [Emit n ''device.change'' (change False [(''serial'', jget ''serial'' m), (''reverseForwards'', jget ''forwards'' m)])]
     | Unavailable \<Rightarrow> [Emit n ''temporarily-unavailable'' [JObj [(''data'', JObj (picked [''removeConnectUrl''] m))]]]
     | ConnectUrl \<Rightarrow> [Emit n ''device.change'' (change True (picked [''serial''] m))]
     | _ \<Rightarrow> [])"

definition plain_events :: "nat \<Rightarrow> channel \<Rightarrow> js \<Rightarrow> ws_user \<Rightarrow> ws_kind \<Rightarrow> ws_out list" where
  "plain_events n c m u k = (case k of
       UpdateAccessToken \<Rightarrow> [Emit n ''user.keys.accessToken.updated'' []]
     | UserChange \<Rightarrow> map (\<lambda>t. Emit n (''user.'' @ jstr t @ ''.users.'' @ jstr (jget ''action'' m)) [m]) (jlist (jget ''targets'' m))
     | DeviceLog \<Rightarrow> [EmitAll ''logcat.log'' [m]]
     | DeviceReady \<Rightarrow> [EmitAll ''device.change'' (change True (picked [''serial'', ''channel''] m @ [(''owner'', JNull), (''ready'', JBool True), (''reverseForwards'', JArr [])]))]
     | DevicePresent \<Rightarrow> [EmitAll ''device.change'' (change True (picked [''serial''] m @ [(''present'', JBool True)]))]
     | DeviceAbsent \<Rightarrow> [EmitAll ''device.remove'' (change True (picked [''serial''] m @ [(''present'', JBool False), (''likelyLeaveReason'', JStr ''device_absent'')]))]
     | Applications \<Rightarrow> [Emit n ''device.applications'' (change True (picked [''serial'', ''applications''] m))]
     | JoinByFingerprint \<Rightarrow> [Emit n ''user.keys.adb.confirm'' [JObj [(''title'', jget ''comment'' m), (''fingerprint'', jget ''fingerprint'' m)]]]
     | LeaveGroup \<Rightarrow> [EmitAll ''device.change'' (change True (picked [''serial''] m @
         [(''owner'', JNull), (''likelyLeaveReason'', jget ''reason'' m), (''using'', using_field JNull u)]))]
     | DeviceStatus \<Rightarrow> [EmitAll ''device.change'' [JObj [(''important'', JBool True), (''data'', jset ''likelyLeaveReason'' (JStr ''status_change'') m)]]]
     | DeviceIdentity \<Rightarrow> [EmitAll ''device.change'' [JObj [(''important'', JBool True), (''data'', m)]]]
     | TxProgress \<Rightarrow> [Emit n ''tx.progress'' [JStr c, m]]
     | TxFinished \<Rightarrow> [Emit n ''tx.done'' [JStr c, m]]
     | TxTree \<Rightarrow> [Emit n ''tx.tree'' [JStr c, m]]
     | LogcatEntry \<Rightarrow> [Emit n ''logcat.entry'' [m]]
     | _ \<Rightarrow> status_events n m k)"

text \<open>The messages that depend on what the user is subscribed to, or change it.\<close>

definition on_device_change :: "nat \<Rightarrow> js \<Rightarrow> ws_user \<Rightarrow> ws_out list" where
  "on_device_change n m u =
     (let d = jget ''device'' m; g = jget ''group'' d in
      (if one_of (wu_subscribed u) (jget ''id'' g)
       then [Emit n ''device.change'' (change True [(''serial'', jget ''serial'' d), (''group'', g)])] else []) @
      (if one_of (wu_subscribed u) (jget ''origin'' g) \<or> one_of (wu_subscribed u) (jget ''oldOriginGroupId'' m)
       then [Emit n (''user.settings.devices.'' @ jstr (jget ''action'' m)) [m]] else []))"

definition on_group_change :: "nat \<Rightarrow> js \<Rightarrow> ws_user \<Rightarrow> ws_out list" where
  "on_group_change n m u =
     (let g = jget ''group'' m; cls = jget ''class'' g in
      (if wu_admin u \<or> jget ''email'' (jget ''owner'' g) = JStr (wu_email u) \<or>
          cls \<noteq> JStr ''bookable'' \<and> cls \<noteq> JStr ''standard'' \<and>
            (\<not> falsy (jget ''isChangedDates'' m) \<or> \<not> falsy (jget ''isChangedClass'' m) \<or> jlist (jget ''devices'' m) \<noteq> [])
       then [Emit n (''user.settings.groups.'' @ jstr (jget ''action'' m)) [m]] else []) @
      (if jhas (jget ''subscribers'' m) (wu_email u) then [Emit n (''user.view.groups.'' @ jstr (jget ''action'' m)) [m]] else []))"

definition important_devices :: "js \<Rightarrow> js list" where
  "important_devices ds = [JObj [(''important'', JBool True), (''devices'', ds)]]"

definition on_device_group_change :: "nat \<Rightarrow> js \<Rightarrow> ws_user \<Rightarrow> ws_out list" where
  "on_device_group_change n m u =
     (let new = one_of (wu_subscribed u) (jget ''id'' (jget ''group'' m)) in
      if one_of (wu_subscribed u) (jget ''id'' m) then
        (if new then [Emit n ''device.updateGroupDevice'' (change True (picked [''serial'', ''group''] m))]
         else [Emit n ''device.removeGroupDevices'' (important_devices (JArr [jget ''serial'' m]))])
      else if new then [Emit n ''device.addGroupDevices'' (important_devices (JArr [jget ''serial'' m]))] else [])"

definition subscribe_group :: "string \<Rightarrow> ws_user \<Rightarrow> ws_user" where
  "subscribe_group g u = u\<lparr>wu_subscribed := (if g \<in> set (wu_subscribed u) then wu_subscribed u else wu_subscribed u @ [g])\<rparr>"

definition unsubscribe_group :: "string \<Rightarrow> ws_user \<Rightarrow> ws_user" where
  "unsubscribe_group g u = u\<lparr>wu_subscribed := filter (\<lambda>h. h \<noteq> g) (wu_subscribed u)\<rparr>"

definition on_group_user_change :: "nat \<Rightarrow> js \<Rightarrow> ws_unit \<Rightarrow> ws_unit \<times> ws_out list" where
  "on_group_user_change n m U =
     (let u = ws_user (wn_sockets U ! n); g = jstr (jget ''id'' m); ds = jget ''devices'' m in
      if \<not> jhas (jget ''users'' m) (wu_email u) then (U, [])
      else if \<not> falsy (jget ''isAdded'' m) then
        (upd_user n (subscribe_group g) U, if jlist ds \<noteq> [] then [Emit n ''device.addGroupDevices'' (important_devices ds)] else [])
      else
        (if \<not> falsy (jget ''isDeletedLater'' m) then ws_wait n (DropGroup g) U else upd_user n (unsubscribe_group g) U,
         if jlist ds \<noteq> [] then [Emit n ''device.removeGroupDevices'' (important_devices ds)] else []))"

definition on_introduction :: "js \<Rightarrow> ws_user \<Rightarrow> ws_out list" where
  "on_introduction m u =
     (if one_of (wu_subscribed u) (jget ''id'' (jget ''group'' m)) then
        [EmitAll ''device.add'' (change True ([(''serial'', jget ''serial'' m), (''present'', JBool True), (''provider'', jget ''provider'' m), (''owner'', JNull),
           (''status'', jget ''status'' m), (''ready'', JBool False), (''reverseForwards'', JArr []), (''group'', jget ''group'' m)]))]
      else [])"

fun on_message :: "nat \<Rightarrow> channel \<Rightarrow> ws_kind \<Rightarrow> js \<Rightarrow> ws_unit \<Rightarrow> ws_unit \<times> ws_out list" where
  "on_message n c DeleteUser m U = (ws_disconnect n U, [])"
| "on_message n c DeviceChange m U = (U, on_device_change n m (ws_user (wn_sockets U ! n)))"
| "on_message n c GroupChange m U = (U, on_group_change n m (ws_user (wn_sockets U ! n)))"
| "on_message n c DeviceGroupChange m U = (U, on_device_group_change n m (ws_user (wn_sockets U ! n)))"
| "on_message n c GroupUserChange m U = on_group_user_change n m U"
| "on_message n c DeviceIntroduction m U = (U, on_introduction m (ws_user (wn_sockets U ! n)))"
| "on_message n c JoinGroup m U = (ws_wait n (AppsLoad m) U, [])"
| "on_message n c k m U = (U, plain_events n c m (ws_user (wn_sockets U ! n)) k)"

text \<open>A message that arrives goes to the listeners of its channel that are there by then, if any subscription of the unit lets it through.\<close>

definition wire_in :: "channel \<Rightarrow> ws_kind \<Rightarrow> js \<Rightarrow> ws_unit \<Rightarrow> ws_unit \<times> ws_out list" where
  "wire_in c k m U =
     (if \<exists>f \<in> set (wn_subs U). starts_with f c then
        foldl (\<lambda>(V, out) n. let r = on_message n c k m V in (fst r, out @ snd r)) (U, []) (map snd (filter (\<lambda>x. fst x = c) (wn_router U)))
      else (U, []))"

section \<open>What a browser may ask a device\<close>

text \<open>
  A rule: whether the device has to be the user's, whether the socket joins the channel of the answer, whether the message is a
  transaction on that channel, its class, and its arguments from the token of the socket and the data of the event.
\<close>

record ws_rule =
  wr_guard :: bool
  wr_join :: bool
  wr_reply :: bool
  wr_class :: "js \<Rightarrow> string"
  wr_args :: "string \<Rightarrow> js \<Rightarrow> js list"

definition sends :: "string \<Rightarrow> string list \<Rightarrow> ws_rule" where
  "sends cls ks = \<lparr>wr_guard = True, wr_join = False, wr_reply = False, wr_class = (\<lambda>d. cls), wr_args = (\<lambda>jwt d. map (\<lambda>k. jget k d) ks)\<rparr>"

definition asks :: "bool \<Rightarrow> string \<Rightarrow> (string \<Rightarrow> js \<Rightarrow> js list) \<Rightarrow> ws_rule" where
  "asks guarded cls args = \<lparr>wr_guard = guarded, wr_join = True, wr_reply = True, wr_class = (\<lambda>d. cls), wr_args = args\<rparr>"

abbreviation no_args :: "string \<Rightarrow> js \<Rightarrow> js list" where
  "no_args \<equiv> \<lambda>jwt d. []"

abbreviation all_data :: "string \<Rightarrow> js \<Rightarrow> js list" where
  "all_data \<equiv> \<lambda>jwt d. [d]"

abbreviation only :: "string list \<Rightarrow> string \<Rightarrow> js \<Rightarrow> js list" where
  "only ks \<equiv> \<lambda>jwt d. map (\<lambda>k. jget k d) ks"

definition input_rules :: "(string \<times> ws_rule) list" where
  "input_rules =
    [(''input.touchDown'', sends ''TouchDownMessage'' [''seq'', ''contact'', ''x'', ''y'', ''pressure'']),
     (''input.touchMove'', sends ''TouchMoveMessage'' [''seq'', ''contact'', ''x'', ''y'', ''pressure'']),
     (''input.touchMoveIos'', (sends ''TouchMoveIosMessage'' [])\<lparr>wr_args := \<lambda>jwt d. map (\<lambda>k. jget k d) [''toX'', ''toY'', ''fromX'', ''fromY''] @ [JNum (42 / 1000)]\<rparr>),
     (''tapDeviceTreeElement'', sends ''TapDeviceTreeElement'' [''label'']),
     (''input.touchUp'', sends ''TouchUpMessage'' [''seq'', ''contact'']),
     (''input.touchCommit'', sends ''TouchCommitMessage'' [''seq'']),
     (''input.touchReset'', sends ''TouchResetMessage'' [''seq'']),
     (''input.gestureStart'', sends ''GestureStartMessage'' [''seq'']),
     (''input.gestureStop'', sends ''GestureStopMessage'' [''seq'']),
     (''input.keyDown'', sends ''KeyDownMessage'' [''key'']),
     (''input.keyUp'', sends ''KeyUpMessage'' [''key'']),
     (''input.keyPress'', sends ''KeyPressMessage'' [''key'']),
     (''input.type'', sends ''TypeMessage'' [''text'']),
     (''display.rotate'', sends ''RotateMessage'' [''rotation'']),
     (''quality.change'', sends ''ChangeQualityMessage'' [''quality''])]"

definition account_rules :: "(string \<times> ws_rule) list" where
  "account_rules =
    [(''airplane.set'', asks True ''AirplaneSetMessage'' all_data),
     (''clipboard.paste'', asks True ''PasteMessage'' (only [''text''])),
     (''clipboard.copy'', asks True ''CopyMessage'' no_args),
     (''clipboard.copyIos'', asks True ''CopyMessage'' no_args),
     (''device.identify'', (asks True ''PhysicalIdentifyMessage'' no_args)\<lparr>wr_join := False\<rparr>),
     (''device.reboot'', asks True ''RebootMessage'' no_args),
     (''device.rebootIos'', asks True ''RebootMessage'' no_args),
     (''account.check'', asks True ''AccountCheckMessage'' all_data),
     (''account.remove'', asks True ''AccountRemoveMessage'' all_data),
     (''account.addmenu'', asks True ''AccountAddMenuMessage'' no_args),
     (''account.add'', asks True ''AccountAddMessage'' (only [''user'', ''password'']))]"

definition radio_rules :: "(string \<times> ws_rule) list" where
  "radio_rules =
    [(''account.get'', asks False ''AccountGetMessage'' all_data),
     (''sd.status'', asks True ''SdStatusMessage'' no_args),
     (''ringer.set'', asks True ''RingerSetMessage'' (only [''mode''])),
     (''ringer.get'', asks True ''RingerGetMessage'' no_args),
     (''wifi.set'', asks True ''WifiSetEnabledMessage'' (only [''enabled''])),
     (''wifi.get'', asks True ''WifiGetStatusMessage'' no_args),
     (''bluetooth.set'', asks True ''BluetoothSetEnabledMessage'' (only [''enabled''])),
     (''bluetooth.get'', asks True ''BluetoothGetStatusMessage'' no_args),
     (''bluetooth.cleanBonds'', asks True ''BluetoothCleanBondedMessage'' no_args)]"

text \<open>\<open>toDeviceRequirements\<close>, and the two kinds of installation.\<close>

definition upper_case :: "string \<Rightarrow> string" where
  "upper_case = map (\<lambda>c. let n = of_char c :: nat in if 97 \<le> n \<and> n \<le> 122 then char_of (n - 32) else c)"

definition requirement_kind :: "js \<Rightarrow> js" where
  "requirement_kind x = (case x of JStr s \<Rightarrow> (if upper_case s \<in> {''SEMVER'', ''GLOB'', ''EXACT''} then JStr (upper_case s) else JUndef) | _ \<Rightarrow> JUndef)"

definition requirements :: "js \<Rightarrow> js" where
  "requirements x = JArr (case x of JObj kv \<Rightarrow> map (\<lambda>(k, v). JObj [(''name'', JStr k), (''value'', jget ''value'' v), (''type'', requirement_kind (jget ''match'' v))]) kv | _ \<Rightarrow> [])"

definition install_args :: "js list \<Rightarrow> string \<Rightarrow> js \<Rightarrow> js list" where
  "install_args flags jwt d = [jget ''href'' d, JBool (jget ''launch'' d = JBool True), JBool False, JText (jget ''manifest'' d), JArr flags, JStr jwt]"

definition install_rules :: "(string \<times> ws_rule) list" where
  "install_rules =
    [(''group.kick'', asks False ''UngroupMessage'' (\<lambda>jwt d. [requirements (jget ''requirements'' d)])),
     (''getTreeElementsIos'', asks False ''GetIosTreeElements'' no_args),
     (''shell.command'', asks True ''ShellCommandMessage'' all_data),
     (''shell.keepalive'', \<lparr>wr_guard = True, wr_join = False, wr_reply = False, wr_class = (\<lambda>d. ''ShellKeepAliveMessage''), wr_args = all_data\<rparr>),
     (''device.install'', asks True ''InstallMessage'' (install_args [JStr ''-r''])),
     (''device.installIos'', asks True ''InstallMessage'' (install_args [])),
     (''device.uninstall'', asks True ''UninstallMessage'' all_data),
     (''device.uninstallIos'', (asks True ''UninstallIosMessage'' (only [''packageName'']))\<lparr>wr_reply := False\<rparr>),
     (''device.launchApp'', asks True ''LaunchDeviceApp'' (only [''pkg'']))]"

definition app_rules :: "(string \<times> ws_rule) list" where
  "app_rules =
    [(''app.kill'', (asks True [] no_args)\<lparr>wr_class := \<lambda>d. if falsy (jget ''force'' d) then ''TerminateDeviceApp'' else ''KillDeviceApp''\<rparr>),
     (''app.getAssetList'', asks True ''GetAppAssetsList'' no_args),
     (''app.getAsset'', asks True ''GetAppAsset'' (only [''url''])),
     (''app.getAppHTML'', asks True ''GetAppHTML'' no_args),
     (''app.getInspectServerUrl'', asks True ''GetAppInspectServerUrl'' no_args),
     (''device.unlockDevice'', sends ''UnlockDeviceMessage'' [])]"

definition logcat_rules :: "(string \<times> ws_rule) list" where
  "logcat_rules =
    [(''forward.remove'', asks False ''ForwardRemoveMessage'' all_data),
     (''logcat.start'', asks True ''LogcatStartMessage'' all_data),
     (''logcat.startIos'', asks True ''LogcatStartMessage'' all_data),
     (''logcat.stop'', asks True ''LogcatStopMessage'' no_args),
     (''logcat.stopIos'', asks True ''LogcatStopMessage'' no_args),
     (''connect.start'', asks False ''ConnectStartMessage'' no_args),
     (''connect.startIos'', asks False ''ConnectStartMessage'' no_args),
     (''connect.stop'', asks False ''ConnectStopMessage'' no_args)]"

definition view_rules :: "(string \<times> ws_rule) list" where
  "view_rules =
    [(''browser.open'', asks True ''BrowserOpenMessage'' all_data),
     (''browser.openIos'', asks True ''BrowserOpenMessage'' all_data),
     (''browser.clear'', asks True ''BrowserClearMessage'' all_data),
     (''store.open'', asks True ''StoreOpenMessage'' no_args),
     (''store.openIos'', asks True ''StoreOpenMessage'' no_args),
     (''settings.open'', sends ''DashboardOpenMessage'' []),
     (''screen.capture'', asks True ''ScreenCaptureMessage'' no_args),
     (''screen.captureIos'', asks True ''ScreenCaptureMessage'' no_args),
     (''fs.retrieve'', asks False ''FileSystemGetMessage'' (\<lambda>jwt d. [jget ''file'' d, JStr jwt])),
     (''fs.list'', asks True ''FileSystemListMessage'' all_data),
     (''fs.listIos'', asks True ''FileSystemListMessage'' all_data),
     (''fs.retrieveIos'', asks True ''FileSystemGetMessage'' (\<lambda>jwt d. [jget ''file'' d, JStr jwt]))]"

definition ws_rules :: "(string \<times> ws_rule) list" where
  "ws_rules = input_rules @ account_rules @ radio_rules @ install_rules @ app_rules @ logcat_rules @ view_rules"

section \<open>What a browser asks\<close>

definition owns :: "nat \<Rightarrow> channel \<Rightarrow> ws_unit \<Rightarrow> bool" where
  "owns n c U = (c \<in> set (wu_owned (ws_user (wn_sockets U ! n))))"

definition apply_rule :: "nat \<Rightarrow> ws_rule \<Rightarrow> channel \<Rightarrow> channel \<Rightarrow> js \<Rightarrow> ws_unit \<Rightarrow> ws_unit \<times> ws_out list" where
  "apply_rule n r c resp d U =
     (if wr_guard r \<and> \<not> owns n c U then (U, [])
      else (if wr_join r then joinChannel n resp U else U,
        [PushTo c (if wr_reply r then Some resp else None) (wr_class r d) (wr_args r (ws_jwt (wn_sockets U ! n)) d)]))"

text \<open>\<open>forward.test\<close> and \<open>forward.create\<close>: the target is the browser's own address unless another is named.\<close>

definition forward_data :: "js \<Rightarrow> js \<Rightarrow> js" where
  "forward_data ip d = (if falsy (jget ''targetHost'' d) \<or> jget ''targetHost'' d = JStr ''localhost'' then jset ''targetHost'' ip d else d)"

definition forward_request :: "nat \<Rightarrow> string \<Rightarrow> channel \<Rightarrow> channel \<Rightarrow> js \<Rightarrow> ws_unit \<Rightarrow> ws_unit \<times> ws_out list" where
  "forward_request n cls c resp d U = (joinChannel n resp U, [PushTo c (Some resp) cls [forward_data (ws_ip (wn_sockets U ! n)) d]])"

text \<open>The requests to the database, and those that wait for it.\<close>

definition settings_update :: "string \<Rightarrow> js \<Rightarrow> ws_user \<Rightarrow> ws_out list" where
  "settings_update admin d u = [Ask ''updateUserSettings'' [JStr (if jget ''alertMessage'' d = JUndef then wu_email u else admin), d]]"

definition data_request :: "string \<Rightarrow> nat \<Rightarrow> string \<Rightarrow> js \<Rightarrow> ws_unit \<Rightarrow> ws_unit \<times> ws_out list" where
  "data_request admin n name d U =
     (let u = ws_user (wn_sockets U ! n) in
      if name = ''device.note'' then (ws_wait n (NoteSet d) U, [Ask ''setDeviceNote'' [jget ''serial'' d, jget ''note'' d]])
      else if name = ''user.settings.update'' then (U, settings_update admin d u)
      else if name = ''user.settings.reset'' then (U, [Ask ''resetUserSettings'' [JStr (wu_email u)]])
      else if name = ''user.keys.accessToken.remove'' then
        (ws_wait n TokenGone U, [Ask ''removeUserAccessToken''
          [if wu_admin u \<and> \<not> falsy (jget ''email'' d) then jget ''email'' d else JStr (wu_email u), jget ''title'' d]])
      else if name = ''user.keys.adb.add'' then (ws_wait n (KeyParse (jget ''title'' d)) U, [Ask ''parsePublicKey'' [jget ''key'' d]])
      else if name = ''user.keys.adb.accept'' then
        (ws_wait n (KeyLookup False (jget ''title'' d) (jget ''fingerprint'' d)) U, [Ask ''lookupUsersByAdbKey'' [jget ''fingerprint'' d]])
      else if name = ''user.keys.adb.remove'' then
        (ws_wait n (KeyGone d) U, [Ask ''deleteUserAdbKey'' [JStr (wu_email u), jget ''fingerprint'' d]])
      else if name = ''shell.settings.execute'' then (ws_wait n (ShellAll (jget ''command'' d)) U, [Ask ''loadDevices'' []])
      else if name = ''policy.accept'' then (U, [Ask ''acceptPolicy'' [JStr (wu_email u)]])
      else (U, []))"

definition other_request :: "string \<Rightarrow> nat \<Rightarrow> string \<Rightarrow> channel \<Rightarrow> channel \<Rightarrow> js \<Rightarrow> ws_unit \<Rightarrow> ws_unit \<times> ws_out list" where
  "other_request admin n name c resp d U =
     (let s = wn_sockets U ! n in
      if name = ''group.invite'' then (ws_wait n (InviteKeys c resp d) (joinChannel n resp U), [Ask ''getUserAdbKeys'' [JStr (wu_email (ws_user s))]])
      else if name = ''tx.cleanup'' then (leaveChannel n c U, [])
      else if name = ''tx.punch'' then (joinChannel n c U, [Emit n ''tx.punch'' [JStr c]])
      else if name = ''device.getApps'' then (upd_sock n (\<lambda>s. s\<lparr>ws_apps := Some (c, resp)\<rparr>) U, [])
      else if name = ''storage.upload'' then
        (if \<not> owns n c U then (U, []) else (ws_wait n (Upload resp) (joinChannel n resp U), [Ask ''storage'' [JStr resp, jget ''url'' d]]))
      else if name = ''forward.test'' then forward_request n ''ForwardTestMessage'' c resp d U
      else if name = ''forward.create'' then forward_request n ''ForwardCreateMessage'' c resp d U
      else data_request admin n name d U)"

definition ws_request :: "string \<Rightarrow> nat \<Rightarrow> string \<Rightarrow> channel \<Rightarrow> channel \<Rightarrow> js \<Rightarrow> ws_unit \<Rightarrow> ws_unit \<times> ws_out list" where
  "ws_request admin n name c resp d U =
     (case map_of ws_rules name of Some r \<Rightarrow> apply_rule n r c resp d U | None \<Rightarrow> other_request admin n name c resp d U)"

section \<open>What has been waited for\<close>

definition set_owned :: "js \<Rightarrow> js \<Rightarrow> ws_user \<Rightarrow> ws_user" where
  "set_owned m apps u =
     (case jget ''channel'' apps of
        JStr c \<Rightarrow> (if jget ''email'' (jget ''owner'' m) = JStr (wu_email u) then u\<lparr>wu_owned := List.insert c (wu_owned u)\<rparr>
          else u\<lparr>wu_owned := filter (\<lambda>x. x \<noteq> c) (wu_owned u)\<rparr>)
      | _ \<Rightarrow> u)"

definition apps_loaded :: "nat \<Rightarrow> js \<Rightarrow> string + js \<Rightarrow> ws_unit \<Rightarrow> ws_unit \<times> ws_out list" where
  "apps_loaded n m res U =
     (let u = ws_user (wn_sockets U ! n) in
      case res of
        Inr apps \<Rightarrow>
          (if apps = JNull \<or> apps = JUndef then (U, [Emit n ''device.change'' (change True (join_fields m None u))])
           else (upd_user n (set_owned m apps) U,
             [Emit n (''device.application-'' @ jstr (jget ''serial'' m)) [JObj [(''applications'', apps)]],
              Emit n ''device.change'' (change True (join_fields m (Some apps) u))]))
      | Inl err \<Rightarrow> (U, [Emit n ''device.change'' (change True (join_fields m None u))]))"

definition owner_message :: "ws_user \<Rightarrow> js" where
  "owner_message u = JObj [(''email'', JStr (wu_email u)), (''name'', JStr (wu_name u)), (''group'', JStr (wu_group u))]"

definition invite_args :: "js \<Rightarrow> js \<Rightarrow> ws_user \<Rightarrow> js list" where
  "invite_args d keys u = [owner_message u, if falsy (jget ''timeout'' d) then JNull else jget ''timeout'' d, requirements (jget ''requirements'' d), JNull,
     JArr (map (jget ''fingerprint'') (jlist keys))]"

definition key_fields :: "js \<Rightarrow> js \<Rightarrow> js" where
  "key_fields title fp = JObj [(''title'', title), (''fingerprint'', fp)]"

definition key_error :: "nat \<Rightarrow> bool \<Rightarrow> string \<Rightarrow> ws_out list" where
  "key_error n add msg = (if add then [Emit n ''user.keys.adb.error'' [JObj [(''message'', JStr msg)]]] else [])"

fun on_answer :: "nat \<Rightarrow> ws_task \<Rightarrow> string + js \<Rightarrow> ws_unit \<Rightarrow> ws_unit \<times> ws_out list" where
  "on_answer n (AppsLoad m) res U = apps_loaded n m res U"
| "on_answer n (InviteKeys c resp d) (Inr keys) U = (U, [PushTo c (Some resp) ''GroupMessage'' (invite_args d keys (ws_user (wn_sockets U ! n)))])"
| "on_answer n (NoteSet d) (Inr x) U = (ws_wait n NoteLoad U, [Ask ''loadDevice'' (JArr (map JStr (wu_subscribed (ws_user (wn_sockets U ! n)))) # [jget ''serial'' d])])"
| "on_answer n NoteLoad (Inr dev) U = (U, if falsy dev then [] else [EmitAll ''device.change'' (change True (picked [''serial'', ''notes''] dev))])"
| "on_answer n (ShellAll cmd) (Inr devs) U =
     (U, map (\<lambda>d. PushTo (jstr (jget ''channel'' d)) None ''ShellCommandMessage'' [JObj [(''command'', cmd), (''timeout'', JNum 10000)]]) (jlist devs))"
| "on_answer n TokenGone (Inr x) U = (U, [Emit n ''user.keys.accessToken.updated'' []])"
| "on_answer n (KeyParse title) (Inr key) U =
     (ws_wait n (KeyLookup True title (jget ''fingerprint'' key)) U, [Ask ''lookupUsersByAdbKey'' [jget ''fingerprint'' key]])"
| "on_answer n (KeyParse title) (Inl msg) U = (U, key_error n True msg)"
| "on_answer n (KeyLookup add title fp) (Inr users) U =
     (if jlist users \<noteq> [] then (U, key_error n add ''DuplicateSecondaryIndexError'')
      else (ws_wait n (KeyInsert add title fp) U, [Ask ''insertUserAdbKey'' [JStr (wu_email (ws_user (wn_sockets U ! n))), key_fields title fp]]))"
| "on_answer n (KeyLookup add title fp) (Inl msg) U = (U, key_error n add msg)"
| "on_answer n (KeyInsert add title fp) (Inr x) U =
     (U, [Emit n ''user.keys.adb.added'' [key_fields title fp],
          PushTo (if add then GLOBAL else wu_group (ws_user (wn_sockets U ! n))) None ''AdbKeysUpdatedMessage'' []])"
| "on_answer n (KeyInsert add title fp) (Inl msg) U = (U, key_error n add msg)"
| "on_answer n (KeyGone d) (Inr x) U = (U, [Emit n ''user.keys.adb.removed'' [d]])"
| "on_answer n (DropGroup g) x U = (upd_user n (unsubscribe_group g) U, [])"
| "on_answer n (Upload resp) (Inl err) U =
     (leaveChannel n resp U, [Emit n ''tx.cancel'' [JStr resp, JObj [(''success'', JBool False), (''data'', JStr ''fail_upload'')]]])"
| "on_answer n t res U = (U, [])"

definition apps_due :: "nat \<Rightarrow> ws_unit \<Rightarrow> ws_unit \<times> ws_out list" where
  "apps_due n U =
     (case ws_apps (wn_sockets U ! n) of
        None \<Rightarrow> (U, [])
      | Some (c, resp) \<Rightarrow>
          (let U1 = upd_sock n (\<lambda>s. s\<lparr>ws_apps := None\<rparr>) U in
           if \<not> owns n c U1 then (U1, []) else (joinChannel n resp U1, [PushTo c (Some resp) ''GetInstalledApplications'' []])))"

section \<open>The unit\<close>

datatype ws_event = Open ws_user js string | Gone nat | WireIn channel ws_kind js | FromBrowser nat string channel channel js
  | Answered nat nat "string + js" | AppsDue nat

definition ws_new :: ws_unit where
  "ws_new = \<lparr>wn_subs = [GLOBAL], wn_router = [], wn_sockets = []\<rparr>"

fun ws_step :: "string \<Rightarrow> ws_unit \<Rightarrow> ws_event \<Rightarrow> ws_unit \<times> ws_out list" where
  "ws_step admin U (Open u ip jwt) = ws_connect u ip jwt U"
| "ws_step admin U (Gone n) = (if n < length (wn_sockets U) then (ws_disconnect n U, []) else (U, []))"
| "ws_step admin U (WireIn c k m) = wire_in c k m U"
| "ws_step admin U (FromBrowser n name c resp d) =
     (if n < length (wn_sockets U) \<and> ws_open (wn_sockets U ! n) then ws_request admin n name c resp d U else (U, []))"
| "ws_step admin U (Answered n k res) =
     (if n < length (wn_sockets U) \<and> k < length (ws_tasks (wn_sockets U ! n)) then
        on_answer n (ws_tasks (wn_sockets U ! n) ! k) res (upd_sock n (\<lambda>s. s\<lparr>ws_tasks := remove_nth k (ws_tasks s)\<rparr>) U)
      else (U, []))"
| "ws_step admin U (AppsDue n) = (if n < length (wn_sockets U) then apps_due n U else (U, []))"

section \<open>Whose device a browser commands\<close>






text \<open>How a device becomes the user's.\<close>

definition joined_by :: "ws_event set \<Rightarrow> string \<Rightarrow> channel \<Rightarrow> bool" where
  "joined_by H email c \<longleftrightarrow> (\<exists>ch m n k apps. WireIn ch JoinGroup m \<in> H \<and> jget ''email'' (jget ''owner'' m) = JStr email \<and>
     Answered n k (Inr apps) \<in> H \<and> jget ''channel'' apps = JStr c)"

definition sock_ok :: "ws_event set \<Rightarrow> ws_socket \<Rightarrow> bool" where
  "sock_ok H s \<longleftrightarrow> (\<forall>c \<in> set (wu_owned (ws_user s)). joined_by H (wu_email (ws_user s)) c) \<and>
     (\<forall>m. AppsLoad m \<in> set (ws_tasks s) \<longrightarrow> (\<exists>ch. WireIn ch JoinGroup m \<in> H))"

definition socks_ok :: "ws_event set \<Rightarrow> ws_unit \<Rightarrow> bool" where
  "socks_ok H U = list_all (sock_ok H) (wn_sockets U)"


lemma socks_other [simp]: "socks_ok H (U\<lparr>wn_router := r\<rparr>) = socks_ok H U" "socks_ok H (U\<lparr>wn_subs := r'\<rparr>) = socks_ok H U"
  by (simp_all add: socks_ok_def)
















section \<open>Faults\<close>

lemma wire_same: "(\<And>n V. fst (on_message n c k m V) = V) \<Longrightarrow> fst (wire_in c k m U) = U"
proof -
  assume s: "\<And>n V. fst (on_message n c k m V) = V"
  have "fst (foldl (\<lambda>(V, out) n. let r = on_message n c k m V in (fst r, out @ snd r)) (V, out) ns) = V" for V out ns
    by (induction ns arbitrary: V out) (simp_all add: Let_def s)
  then show ?thesis by (simp add: wire_in_def)
qed

lemma wire_outputs:
  assumes "\<And>n V. fst (on_message n c k m V) = V" and "f \<in> set (wn_subs U)" and "starts_with f c"
  shows "snd (wire_in c k m U) = concat (map (\<lambda>n. snd (on_message n c k m U)) (map snd (filter (\<lambda>x. fst x = c) (wn_router U))))"
proof -
  have "snd (foldl (\<lambda>(V, out) n. let r = on_message n c k m V in (fst r, out @ snd r)) (U, out) ns) = out @ concat (map (\<lambda>n. snd (on_message n c k m U)) ns)" for out ns
    by (induction ns arbitrary: out) (simp_all add: Let_def assms(1))
  then show ?thesis using assms(2,3) by (auto simp: wire_in_def)
qed

lemma touch_rule: "map_of ws_rules ''input.touchDown'' = Some (sends ''TouchDownMessage'' [''seq'', ''contact'', ''x'', ''y'', ''pressure''])"
  by (simp add: ws_rules_def input_rules_def)

text \<open>
  Who has left a device still commands it: the message that the device has left the group of its user takes nothing from the user, so
  the touches of the browser are passed on as before.
\<close>

theorem left_device_is_still_commanded:
  assumes "n < length (wn_sockets U)" and "ws_open (wn_sockets U ! n)" and "owns n c U"
  shows "snd (ws_step admin (fst (ws_step admin U (WireIn g LeaveGroup m))) (FromBrowser n ''input.touchDown'' c resp d)) =
    [PushTo c None ''TouchDownMessage'' (map (\<lambda>k. jget k d) [''seq'', ''contact'', ''x'', ''y'', ''pressure''])]"
proof -
  have "fst (ws_step admin U (WireIn g LeaveGroup m)) = U" by (simp add: wire_same)
  then show ?thesis using assms touch_rule by (simp add: ws_request_def apply_rule_def sends_def)
qed

text \<open>
  One browser silences all: a browser may leave the channel of all messages, which takes the unit's only subscription to it, and then no
  message on that channel reaches any browser.
\<close>

theorem cleanup_silences_all:
  assumes "n < length (wn_sockets U)" and "ws_open (wn_sockets U ! n)" and "filter (\<lambda>f. starts_with f GLOBAL) (wn_subs U) = [GLOBAL]"
  shows "ws_step admin (fst (ws_step admin U (FromBrowser n ''tx.cleanup'' GLOBAL resp d))) (WireIn GLOBAL k m) =
    (fst (ws_step admin U (FromBrowser n ''tx.cleanup'' GLOBAL resp d)), [])"
proof -
  have r: "map_of ws_rules ''tx.cleanup'' = None"
    by (simp add: ws_rules_def input_rules_def account_rules_def radio_rules_def install_rules_def app_rules_def logcat_rules_def view_rules_def)
  then have "wn_subs (fst (ws_step admin U (FromBrowser n ''tx.cleanup'' GLOBAL resp d))) = remove1 GLOBAL (wn_subs U)"
    using assms(1,2) by (simp add: ws_request_def other_request_def leaveChannel_def)
  moreover have "filter (\<lambda>f. starts_with f GLOBAL) (remove1 GLOBAL (wn_subs U)) = []" using assms(3) by (simp add: filter_remove1)
  then have "\<not> (\<exists>f \<in> set (remove1 GLOBAL (wn_subs U)). starts_with f GLOBAL)" by (simp add: filter_empty_conv)
  ultimately show ?thesis by (simp add: wire_in_def del: ws_step.simps(4))
qed

text \<open>
  What is meant for all is sent once for each: every browser that listens to the channel makes the unit send the event to all
  browsers, so with as many browsers each of them gets it as many times.
\<close>

theorem broadcasts_are_multiplied:
  assumes "f \<in> set (wn_subs U)" and "starts_with f c"
  shows "snd (ws_step admin U (WireIn c DevicePresent m)) =
    replicate (length (filter (\<lambda>x. fst x = c) (wn_router U))) (EmitAll ''device.change'' (change True [(''serial'', jget ''serial'' m), (''present'', JBool True)]))"
proof -
  have o: "snd (wire_in c DevicePresent m U) = concat (map (\<lambda>n. [EmitAll ''device.change'' (change True [(''serial'', jget ''serial'' m), (''present'', JBool True)])])
      (map snd (filter (\<lambda>x. fst x = c) (wn_router U))))"
    using wire_outputs [OF _ assms, of DevicePresent m] by (simp add: plain_events_def picked_def)
  have r: "concat (map (\<lambda>n. [x]) xs) = replicate (length xs) x" for x :: ws_out and xs :: "nat list" by (induction xs) simp_all
  show ?thesis unfolding ws_step.simps o r by simp
qed

text \<open>
  A new device is shown to strangers: when one of the browsers belongs to a user who is subscribed to the group of the device, the
  device is added in all of them, whoever they belong to.
\<close>

theorem introduction_reaches_strangers:
  assumes "GLOBAL \<in> set (wn_subs U)" and "(GLOBAL, n) \<in> set (wn_router U)" and "one_of (wu_subscribed (ws_user (wn_sockets U ! n))) (jget ''id'' (jget ''group'' m))"
  shows "\<exists>d. EmitAll ''device.add'' d \<in> set (snd (ws_step admin U (WireIn GLOBAL DeviceIntroduction m)))"
proof -
  have o: "snd (wire_in GLOBAL DeviceIntroduction m U) = concat (map (\<lambda>n. on_introduction m (ws_user (wn_sockets U ! n))) (map snd (filter (\<lambda>x. fst x = GLOBAL) (wn_router U))))"
    using wire_outputs [OF _ assms(1), of GLOBAL DeviceIntroduction m] by (simp add: starts_with_iff)
  have "n \<in> set (map snd (filter (\<lambda>x. fst x = GLOBAL) (wn_router U)))" using assms(2) by force
  then show ?thesis using assms(3) unfolding ws_step.simps o by (fastforce simp: on_introduction_def)
qed

section \<open>Listeners and subscriptions\<close>

text \<open>What the open sockets need: a listener for all messages and one for each of their channels, and a subscription to each channel.\<close>

definition sock_regs :: "nat \<Rightarrow> bool \<times> channel list \<Rightarrow> (channel \<times> nat) multiset" where
  "sock_regs n x = (if fst x then image_mset (\<lambda>c. (c, n)) (add_mset GLOBAL (mset (snd x))) else {#})"

definition sock_subs :: "nat \<Rightarrow> bool \<times> channel list \<Rightarrow> channel multiset" where
  "sock_subs n x = (if fst x then mset (snd x) else {#})"

definition over_socks :: "(nat \<Rightarrow> bool \<times> channel list \<Rightarrow> 'a multiset) \<Rightarrow> (bool \<times> channel list) list \<Rightarrow> 'a multiset" where
  "over_socks f xs = (\<Sum>i<length xs. f i (xs ! i))"

definition sock_state :: "ws_unit \<Rightarrow> (bool \<times> channel list) list" where
  "sock_state U = map (\<lambda>s. (ws_open s, ws_channels s)) (wn_sockets U)"

definition regs_ok :: "ws_unit \<Rightarrow> bool" where
  "regs_ok U \<longleftrightarrow> mset (wn_router U) = over_socks sock_regs (sock_state U) \<and> mset (wn_subs U) = add_mset GLOBAL (over_socks sock_subs (sock_state U))"

definition ws_core :: "ws_unit \<Rightarrow> channel list \<times> (channel \<times> nat) list \<times> (bool \<times> channel list) list" where
  "ws_core U = (wn_subs U, wn_router U, sock_state U)"

lemma regs_core: "ws_core U = ws_core V \<Longrightarrow> regs_ok U = regs_ok V"
  by (simp add: ws_core_def regs_ok_def)

lemma over_update: "n < length xs \<Longrightarrow> over_socks f (xs[n := y]) + f n (xs ! n) = over_socks f xs + f n y"
proof -
  assume n: "n < length xs"
  have s: "{..<length xs} = insert n ({..<length xs} - {n})" using n by auto
  have "(\<Sum>i\<in>{..<length xs} - {n}. f i (xs[n := y] ! i)) = (\<Sum>i\<in>{..<length xs} - {n}. f i (xs ! i))" by (rule sum.cong) auto
  then show ?thesis using n by (simp add: over_socks_def sum.remove [of "{..<length xs}" n] ac_simps)
qed

lemma over_append: "over_socks f (xs @ [y]) = over_socks f xs + f (length xs) y"
  by (simp add: over_socks_def nth_append)

lemma over_part: "n < length xs \<Longrightarrow> f n (xs ! n) \<subseteq># over_socks f xs"
  by (simp add: over_socks_def sum.remove [of "{..<length xs}" n])

lemma mset_remove_last [simp]: "mset (remove_last x xs) = mset xs - {#x#}"
  by (simp add: remove_last_def)

lemma state_upd: "n < length (wn_sockets U) \<Longrightarrow> sock_state (upd_sock n f U) = (sock_state U)[n := (ws_open (f (wn_sockets U ! n)), ws_channels (f (wn_sockets U ! n)))]"
  by (simp add: sock_state_def upd_sock_def map_update)

lemma state_nth: "n < length (wn_sockets U) \<Longrightarrow> sock_state U ! n = (ws_open (wn_sockets U ! n), ws_channels (wn_sockets U ! n))"
  by (simp add: sock_state_def)

lemma state_simps [simp]: "length (sock_state U) = length (wn_sockets U)" "sock_state (U\<lparr>wn_router := r\<rparr>) = sock_state U" "sock_state (U\<lparr>wn_subs := r'\<rparr>) = sock_state U"
  "wn_router (upd_sock n f U) = wn_router U" "wn_subs (upd_sock n f U) = wn_subs U" "length (wn_sockets (upd_sock n f U)) = length (wn_sockets U)"
  by (simp_all add: sock_state_def upd_sock_def)

lemma upd_core: "(\<And>s. ws_open (f s) = ws_open s \<and> ws_channels (f s) = ws_channels s) \<Longrightarrow> ws_core (upd_sock n f U) = ws_core U"
  by (cases "n < length (wn_sockets U)") (auto simp: ws_core_def sock_state_def upd_sock_def map_update list_update_same_conv list_update_beyond)

lemma regs_join:
  assumes "regs_ok U" and "n < length (wn_sockets U)" and "ws_open (wn_sockets U ! n)"
  shows "regs_ok (joinChannel n c U)"
proof -
  note o = over_update [of n "sock_state U"]
  have n: "n < length (sock_state U)" using assms(2) by simp
  show ?thesis
    using assms o [OF n, of sock_regs "(True, ws_channels (wn_sockets U ! n) @ [c])"] o [OF n, of sock_subs "(True, ws_channels (wn_sockets U ! n) @ [c])"]
    by (simp add: regs_ok_def joinChannel_def state_upd state_nth sock_regs_def sock_subs_def)
qed

lemma leave_over:
  assumes "n < length xs" and "xs ! n = (True, cs)" and "mset cs = add_mset c (mset ds)"
  shows "over_socks sock_regs xs = add_mset (c, n) (over_socks sock_regs (xs[n := (True, ds)]))"
    and "over_socks sock_subs xs = add_mset c (over_socks sock_subs (xs[n := (True, ds)]))"
  using over_update [OF assms(1), of sock_regs "(True, ds)"] over_update [OF assms(1), of sock_subs "(True, ds)"] assms(2,3)
  by (simp_all add: sock_regs_def sock_subs_def)

lemma filter_out: "distinct cs \<Longrightarrow> c \<in> set cs \<Longrightarrow> mset cs = add_mset c (mset (filter (\<lambda>d. d \<noteq> c) cs))"
  by (induction cs) (auto simp del: mset_filter intro!: arg_cong [of _ _ mset] filter_True [symmetric])

lemma regs_leave:
  assumes "regs_ok U" and "n < length (wn_sockets U)" and "ws_open (wn_sockets U ! n)" and "c \<in> set (ws_channels (wn_sockets U ! n))"
    and "distinct (ws_channels (wn_sockets U ! n))"
  shows "regs_ok (leaveChannel n c U)"
proof -
  obtain cs ds where cs: "ws_channels (wn_sockets U ! n) = cs" "filter (\<lambda>d. d \<noteq> c) cs = ds" "mset cs = add_mset c (mset ds)"
    using filter_out [OF assms(5,4)] by blast
  have n: "n < length (sock_state U)" "sock_state U ! n = (True, cs)" using assms(2,3) cs(1) by (simp_all add: state_nth)
  have "sock_state (leaveChannel n c U) = (sock_state U)[n := (True, ds)]" using assms(2,3) cs(1,2) by (simp add: leaveChannel_def state_upd)
  then show ?thesis using assms(1) leave_over [OF n cs(3)] by (simp add: regs_ok_def) (simp add: leaveChannel_def)
qed

lemma drops: "mset (wn_router (foldl (drop_channel n) U cs)) = mset (wn_router U) - image_mset (\<lambda>c. (c, n)) (mset cs) \<and>
  mset (wn_subs (foldl (drop_channel n) U cs)) = mset (wn_subs U) - mset cs \<and> wn_sockets (foldl (drop_channel n) U cs) = wn_sockets U"
  by (induction cs arbitrary: U) (simp_all add: drop_channel_def)

lemma regs_disconnect:
  assumes "regs_ok U" and "n < length (wn_sockets U)"
  shows "regs_ok (ws_disconnect n U)"
proof (cases "ws_open (wn_sockets U ! n)")
  case True
  let ?cs = "ws_channels (wn_sockets U ! n)"
  let ?V = "foldl (drop_channel n) (U\<lparr>wn_router := remove_last (GLOBAL, n) (wn_router U)\<rparr>) ?cs"
  note o = over_update [of n "sock_state U"]
  have n: "n < length (sock_state U)" using assms(2) by simp
  have v: "wn_sockets ?V = wn_sockets U" using drops by auto
  then have st: "sock_state (upd_sock n (\<lambda>s. s\<lparr>ws_open := False\<rparr>) ?V) = (sock_state U)[n := (False, ?cs)]"
    using assms(2) by (simp add: sock_state_def upd_sock_def map_update)
  have r: "over_socks sock_regs (sock_state U) = over_socks sock_regs ((sock_state U)[n := (False, ?cs)]) + add_mset (GLOBAL, n) (image_mset (\<lambda>c. (c, n)) (mset ?cs))"
    using o [OF n, of sock_regs "(False, ?cs)"] True by (simp add: state_nth [OF assms(2)] sock_regs_def)
  have s: "over_socks sock_subs (sock_state U) = over_socks sock_subs ((sock_state U)[n := (False, ?cs)]) + mset ?cs"
    using o [OF n, of sock_subs "(False, ?cs)"] True by (simp add: state_nth [OF assms(2)] sock_subs_def)
  have "mset (wn_router ?V) = over_socks sock_regs ((sock_state U)[n := (False, ?cs)])"
    using drops [of n _ ?cs] assms(1) r by (simp add: regs_ok_def)
  moreover have "mset (wn_subs ?V) = add_mset GLOBAL (over_socks sock_subs ((sock_state U)[n := (False, ?cs)]))"
    using drops [of n _ ?cs] assms(1) s by (simp add: regs_ok_def)
  ultimately show ?thesis using True st by (simp add: regs_ok_def ws_disconnect_def)
qed (use assms(1) in \<open>simp add: ws_disconnect_def\<close>)

text \<open>
  A run is fair when no socket joins a channel it has joined, or the channel of all messages, or any after its end, and leaves only
  channels that it has joined. The interface of the program does so; the code does not check it.
\<close>

definition chans_ok :: "ws_unit \<Rightarrow> bool" where
  "chans_ok U = list_all (\<lambda>x. distinct (snd x) \<and> GLOBAL \<notin> set (snd x)) (sock_state U)"

fun left_by :: "ws_unit \<Rightarrow> ws_event \<Rightarrow> (nat \<times> channel) option" where
  "left_by U (FromBrowser n name c resp d) = (if name = ''tx.cleanup'' then Some (n, c) else None)"
| "left_by U (Answered n k (Inl err)) = (case ws_tasks (wn_sockets U ! n) ! k of Upload c \<Rightarrow> Some (n, c) | _ \<Rightarrow> None)"
| "left_by U e = None"

definition fair :: "string \<Rightarrow> ws_unit \<Rightarrow> ws_event \<Rightarrow> bool" where
  "fair admin U e \<longleftrightarrow> chans_ok (fst (ws_step admin U e)) \<and>
     (\<forall>n c. left_by U e = Some (n, c) \<longrightarrow> n < length (wn_sockets U) \<and> ws_open (wn_sockets U ! n) \<and> c \<in> set (ws_channels (wn_sockets U ! n))) \<and>
     (\<forall>n. e = AppsDue n \<longrightarrow> n < length (wn_sockets U) \<and> ws_open (wn_sockets U ! n))"

fun fair_run :: "string \<Rightarrow> ws_unit \<Rightarrow> ws_event list \<Rightarrow> bool" where
  "fair_run admin U [] = True"
| "fair_run admin U (e # es) = (fair admin U e \<and> fair_run admin (fst (ws_step admin U e)) es)"

text \<open>What a step does to listeners and subscriptions: nothing, or one socket joins or leaves a channel.\<close>

definition one_move :: "nat \<Rightarrow> ws_unit \<Rightarrow> ws_unit \<Rightarrow> bool" where
  "one_move n U V \<longleftrightarrow> ws_core V = ws_core U \<or> (\<exists>c. ws_core V = ws_core (joinChannel n c U))"

lemma core_join: "ws_core U = ws_core V \<Longrightarrow> ws_core (joinChannel n c U) = ws_core (joinChannel n c V)"
proof -
  assume c: "ws_core U = ws_core V"
  then have l: "length (wn_sockets U) = length (wn_sockets V)" unfolding ws_core_def by (metis prod.inject state_simps(1))
  have "sock_state (joinChannel n x W) = (if n < length (wn_sockets W) then (sock_state W)[n := (fst (sock_state W ! n), snd (sock_state W ! n) @ [x])] else sock_state W)" for x W
  proof (cases "n < length (wn_sockets W)")
    case True
    then show ?thesis by (simp add: joinChannel_def state_upd state_nth)
  next
    case False
    then show ?thesis by (simp add: joinChannel_def sock_state_def upd_sock_def list_update_beyond)
  qed
  then show ?thesis using c l by (simp add: ws_core_def) (simp add: joinChannel_def)
qed

lemma core_simps [simp]: "ws_core (ws_wait n t U) = ws_core U" "ws_core (upd_user n f U) = ws_core U"
  "ws_core (upd_sock n (\<lambda>s. s\<lparr>ws_apps := x\<rparr>) U) = ws_core U" "ws_core (upd_sock n (\<lambda>s. s\<lparr>ws_tasks := g s\<rparr>) U) = ws_core U"
  by (simp_all add: ws_wait_def upd_user_def upd_core)

lemma move_simps [simp]: "one_move n U U" "one_move n U (joinChannel n c U)" "one_move n U (ws_wait n t U)" "one_move n U (ws_wait n t (joinChannel n c U))"
  "one_move n U (upd_sock n (\<lambda>s. s\<lparr>ws_apps := x\<rparr>) U)"
  by (auto simp: one_move_def)

lemma move_if: "one_move n U (fst x) \<Longrightarrow> one_move n U (fst y) \<Longrightarrow> one_move n U (fst (if b then x else y))"
  by simp

lemma move_request: "name \<noteq> ''tx.cleanup'' \<Longrightarrow> one_move n U (fst (ws_request admin n name c resp d U))"
proof -
  assume c: "name \<noteq> ''tx.cleanup''"
  have "one_move n U (fst (data_request admin n name d U))" unfolding data_request_def Let_def by (intro move_if) simp_all
  then have "one_move n U (fst (other_request admin n name c resp d U))"
    unfolding other_request_def forward_request_def Let_def if_not_P [OF c] by (intro move_if) simp_all
  then show ?thesis by (simp add: ws_request_def apply_rule_def split: option.split)
qed

lemma move_answer: "\<not> (\<exists>c err. t = Upload c \<and> res = Inl err) \<Longrightarrow> ws_core (fst (on_answer n t res U)) = ws_core U"
  by (cases t; cases res) (simp_all add: apps_loaded_def Let_def)

lemma move_apps: "one_move n U (fst (apps_due n U))"
proof (cases "ws_apps (wn_sockets U ! n)")
  case (Some x)
  obtain c resp where "x = (c, resp)" by (cases x)
  then show ?thesis using Some core_join [of "upd_sock n (\<lambda>s. s\<lparr>ws_apps := None\<rparr>) U" U n resp] by (auto simp: apps_due_def one_move_def Let_def)
qed (simp add: apps_due_def)

lemma regs_move:
  assumes "regs_ok U" and "n < length (wn_sockets U)" and "ws_open (wn_sockets U ! n)" and "one_move n U V"
  shows "regs_ok V"
  using assms(4) regs_join [OF assms(1-3)] assms(1) regs_core unfolding one_move_def by blast

lemma regs_connect: "regs_ok U \<Longrightarrow> regs_ok (fst (ws_connect u ip jwt U))"
proof -
  assume r: "regs_ok U"
  let ?n = "length (wn_sockets U)"
  let ?s = "\<lparr>ws_user = u\<lparr>wu_owned := []\<rparr>, ws_ip = ip, ws_jwt = jwt, ws_channels = [], ws_open = True, ws_tasks = [], ws_apps = None\<rparr>"
  let ?U = "U\<lparr>wn_sockets := wn_sockets U @ [?s], wn_router := wn_router U @ [(GLOBAL, ?n)]\<rparr>"
  have "sock_state ?U = sock_state U @ [(True, [])]" by (simp add: sock_state_def)
  then have "regs_ok ?U" using r by (simp add: regs_ok_def over_append) (simp add: sock_regs_def sock_subs_def)
  then have "regs_ok (joinChannel ?n (wu_group u) ?U)" by (rule regs_join) simp_all
  then show ?thesis by (simp add: ws_connect_def Let_def)
qed

lemma message_core: "k \<noteq> DeleteUser \<Longrightarrow> ws_core (fst (on_message n c k m U)) = ws_core U"
  by (cases k) (simp_all add: on_group_user_change_def Let_def)

lemma message_length: "length (wn_sockets (fst (on_message n c k m U))) = length (wn_sockets U)"
proof (cases "k = DeleteUser")
  case True
  then show ?thesis using drops [of n "U\<lparr>wn_router := remove_last (GLOBAL, n) (wn_router U)\<rparr>" "ws_channels (wn_sockets U ! n)"]
    by (simp add: ws_disconnect_def)
next
  case False
  have "length (sock_state (fst (on_message n c k m U))) = length (sock_state U)" using message_core [OF False] unfolding ws_core_def by (metis prod.inject)
  then show ?thesis by simp
qed

lemma router_socks: "regs_ok U \<Longrightarrow> (c, n) \<in> set (wn_router U) \<Longrightarrow> n < length (wn_sockets U)"
proof -
  assume r: "regs_ok U" "(c, n) \<in> set (wn_router U)"
  then have "(c, n) \<in># over_socks sock_regs (sock_state U)" unfolding regs_ok_def by (metis set_mset_mset)
  then obtain i where "i < length (wn_sockets U)" "(c, n) \<in># sock_regs i (sock_state U ! i)" by (auto simp: over_socks_def set_mset_sum)
  then show ?thesis by (auto simp: sock_regs_def split: if_splits)
qed

lemma regs_wire: "regs_ok U \<Longrightarrow> regs_ok (fst (wire_in c k m U))"
proof -
  assume u: "regs_ok U"
  have one: "regs_ok (fst (on_message n c k m V))" if "regs_ok V" "n < length (wn_sockets V)" for n V
    using that regs_disconnect regs_core [OF message_core] by (cases "k = DeleteUser") auto
  have "regs_ok (fst (foldl (\<lambda>(V, out) n. let r = on_message n c k m V in (fst r, out @ snd r)) (V, out) ns))"
    if "regs_ok V" "\<forall>n \<in> set ns. n < length (wn_sockets V)" for V out ns
    using that by (induction ns arbitrary: V out) (simp_all add: Let_def one message_length)
  moreover have "\<forall>n \<in> set (map snd (filter (\<lambda>x. fst x = c) (wn_router U))). n < length (wn_sockets U)" using router_socks [OF u] by auto
  ultimately show ?thesis using u by (simp add: wire_in_def)
qed

lemma chans_nth: "chans_ok U \<Longrightarrow> n < length (wn_sockets U) \<Longrightarrow> distinct (ws_channels (wn_sockets U ! n))"
  by (simp add: chans_ok_def list_all_length state_nth)

lemma cleanup_request: "ws_request admin n ''tx.cleanup'' c resp d U = (leaveChannel n c U, [])"
  by (simp add: ws_request_def other_request_def ws_rules_def input_rules_def account_rules_def radio_rules_def install_rules_def app_rules_def logcat_rules_def view_rules_def)

lemma regs_step:
  assumes "regs_ok U" and "chans_ok U" and "fair admin U e"
  shows "regs_ok (fst (ws_step admin U e))"
proof (cases e)
  case (Open u ip jwt)
  then show ?thesis using regs_connect [OF assms(1)] by simp
next
  case (Gone n)
  then show ?thesis using regs_disconnect [OF assms(1)] assms(1) by simp
next
  case (WireIn c k m)
  then show ?thesis using regs_wire [OF assms(1)] by simp
next
  case (FromBrowser n name c resp d)
  show ?thesis
  proof (cases "name = ''tx.cleanup''")
    case True
    then have "n < length (wn_sockets U)" "ws_open (wn_sockets U ! n)" "c \<in> set (ws_channels (wn_sockets U ! n))"
      using assms(3) FromBrowser by (simp_all add: fair_def)
    then show ?thesis using FromBrowser True regs_leave [OF assms(1)] chans_nth [OF assms(2)] by (simp add: cleanup_request)
  next
    case False
    then show ?thesis using FromBrowser regs_move [OF assms(1) _ _ move_request [OF False]] assms(1) by simp
  qed
next
  case (Answered n k res)
  show ?thesis
  proof (cases "n < length (wn_sockets U) \<and> k < length (ws_tasks (wn_sockets U ! n))")
    case True
    let ?t = "ws_tasks (wn_sockets U ! n) ! k"
    let ?U = "upd_sock n (\<lambda>s. s\<lparr>ws_tasks := remove_nth k (ws_tasks s)\<rparr>) U"
    have r: "regs_ok ?U" using regs_core [of ?U U] assms(1) by simp
    have at: "ws_open (wn_sockets ?U ! n) = ws_open (wn_sockets U ! n)" "ws_channels (wn_sockets ?U ! n) = ws_channels (wn_sockets U ! n)"
      using True by (simp_all add: upd_sock_def)
    have "regs_ok (fst (on_answer n ?t res ?U))"
    proof (cases "\<exists>c err. ?t = Upload c \<and> res = Inl err")
      case True
      then obtain c err where t: "?t = Upload c" "res = Inl err" by blast
      then have "n < length (wn_sockets U)" "ws_open (wn_sockets U ! n)" "c \<in> set (ws_channels (wn_sockets U ! n))"
        using assms(3) Answered by (simp_all add: fair_def)
      then show ?thesis using t regs_leave [OF r] at chans_nth [OF assms(2)] by simp
    next
      case False
      then have "ws_core (fst (on_answer n ?t res ?U)) = ws_core ?U" by (rule move_answer)
      then show ?thesis using regs_core r by blast
    qed
    then show ?thesis using Answered True by simp
  next
    case False
    then show ?thesis using Answered assms(1) by auto
  qed
next
  case (AppsDue n)
  then have "n < length (wn_sockets U)" "ws_open (wn_sockets U ! n)" using assms(3) by (simp_all add: fair_def)
  then show ?thesis using AppsDue regs_move [OF assms(1) _ _ move_apps] by simp
qed

text \<open>
  C11. Nothing leaks and nothing is missed: in a fair run, whatever browsers come, ask and go, the listeners are exactly those of the open
  sockets (one for all messages and one for each of their channels) and the unit is subscribed exactly as often as it needs to be.
\<close>

theorem listeners_are_needed:
  assumes "fair_run admin ws_new es"
  shows "regs_ok (fst (run (ws_step admin) ws_new es))"
proof -
  have "regs_ok (fst (run (ws_step admin) U es))" if "regs_ok U" "chans_ok U" "fair_run admin U es" for U
    using that
  proof (induction es arbitrary: U)
    case (Cons e es)
    then have "chans_ok (fst (ws_step admin U e))" by (simp add: fair_def)
    then show ?case using Cons regs_step by (simp add: run_fst del: run.simps ws_step.simps)
  qed simp
  moreover have "regs_ok ws_new" "chans_ok ws_new" by (simp_all add: regs_ok_def chans_ok_def ws_new_def sock_state_def over_socks_def)
  ultimately show ?thesis using assms by blast
qed

text \<open>
  The answer reaches who asked: when a browser asks a device something on a new channel and the unit passes it on, then the result of
  the transaction, when it comes, becomes one event of that browser and of no other.
\<close>

theorem answer_reaches_asker:
  assumes "n < length (wn_sockets U)" and "ws_open (wn_sockets U ! n)" and "map_of ws_rules name = Some r" and "wr_join r"
    and "wr_guard r \<longrightarrow> owns n c U" and "\<And>i. (resp, i) \<notin> set (wn_router U)"
  shows "snd (ws_step admin (fst (ws_step admin U (FromBrowser n name c resp d))) (WireIn resp TxFinished m)) = [Emit n ''tx.done'' [JStr resp, m]]"
proof -
  have s: "fst (ws_step admin U (FromBrowser n name c resp d)) = joinChannel n resp U"
    using assms(1-5) by (auto simp: ws_request_def apply_rule_def)
  have "resp \<in> set (wn_subs (joinChannel n resp U))" "starts_with resp resp" by (simp_all add: joinChannel_def starts_with_iff)
  note o = wire_outputs [OF _ this, of TxFinished m]
  have "filter (\<lambda>x. fst x = resp) (wn_router U) = []" using assms(6) by (auto simp: filter_empty_conv)
  then have "filter (\<lambda>x. fst x = resp) (wn_router (joinChannel n resp U)) = [(resp, n)]" by (simp add: joinChannel_def)
  then show ?thesis using o s by (simp add: plain_events_def del: ws_step.simps(4))
qed

text \<open>
  A request for the applications that is still held back when the browser goes leaks: its timer makes the socket join the channel after
  the cleanup, and nothing takes the listener and the subscription away again.
\<close>

theorem late_apps_leak:
  assumes "n < length (wn_sockets U)" and "\<not> ws_open (wn_sockets U ! n)" and "owns n c U" and "ws_apps (wn_sockets U ! n) = Some (c, resp)"
  shows "let V = fst (ws_step admin U (AppsDue n)) in (resp, n) \<in> set (wn_router V) \<and> resp \<in> set (wn_subs V) \<and> fst (ws_step admin V (Gone n)) = V"
  using assms by (simp add: apps_due_def owns_def upd_sock_def joinChannel_def ws_disconnect_def Let_def)

lemma sock_at [simp]: "n < length (wn_sockets U) \<Longrightarrow> wn_sockets (upd_sock n f U) ! n = f (wn_sockets U ! n)"
  by (simp add: upd_sock_def)

text \<open>
  A removal that comes late takes back what has been given since: when a user is removed from a group that is deleted later and added to
  it again within five seconds, the timer of the removal ends the subscription all the same.
\<close>

theorem late_removal_wins:
  assumes "n < length (wn_sockets U)" and "e = wu_email (ws_user (wn_sockets U ! n))"
    and "jget ''id'' gone = JStr g" and "jhas (jget ''users'' gone) e" and "falsy (jget ''isAdded'' gone)" and "\<not> falsy (jget ''isDeletedLater'' gone)"
    and "jget ''id'' back = JStr g" and "jhas (jget ''users'' back) e" and "\<not> falsy (jget ''isAdded'' back)"
  shows "let U1 = fst (on_message n c GroupUserChange gone U); U2 = fst (on_message n c GroupUserChange back U1);
      U3 = fst (ws_step admin U2 (Answered n (length (ws_tasks (wn_sockets U ! n))) res)) in
    g \<in> set (wu_subscribed (ws_user (wn_sockets U2 ! n))) \<and> g \<notin> set (wu_subscribed (ws_user (wn_sockets U3 ! n)))"
  using assms by (simp add: on_group_user_change_def ws_wait_def upd_user_def subscribe_group_def unsubscribe_group_def jstr_def remove_nth_def Let_def)

text \<open>Two more requests that anybody may make.\<close>

lemma anyone_changes_admin_settings:
  assumes "n < length (wn_sockets U)" and "ws_open (wn_sockets U ! n)" and "jget ''alertMessage'' d \<noteq> JUndef"
  shows "snd (ws_step admin U (FromBrowser n ''user.settings.update'' c resp d)) = [Ask ''updateUserSettings'' [JStr admin, d]]"
  using assms by (simp add: ws_request_def other_request_def data_request_def settings_update_def Let_def ws_rules_def input_rules_def account_rules_def
      radio_rules_def install_rules_def app_rules_def logcat_rules_def view_rules_def)

lemma anyone_commands_every_device:
  assumes "n < length (wn_sockets U)" and "k < length (ws_tasks (wn_sockets U ! n))" and "ws_tasks (wn_sockets U ! n) ! k = ShellAll cmd" and "dev \<in> set devs"
  shows "PushTo (jstr (jget ''channel'' dev)) None ''ShellCommandMessage'' [JObj [(''command'', cmd), (''timeout'', JNum 10000)]]
    \<in> set (snd (ws_step admin U (Answered n k (Inr (JArr devs)))))"
  using assms by (auto simp: jlist_def)

section \<open>Instances\<close>

abbreviation browser_user :: ws_user where
  "browser_user \<equiv> \<lparr>wu_email = ''a@b'', wu_name = ''a'', wu_group = ''g'', wu_admin = False, wu_subscribed = [''r''], wu_owned = []\<rparr>"

abbreviation join_message :: js where
  "join_message \<equiv> JObj [(''serial'', JStr ''s1''), (''owner'', JObj [(''email'', JStr ''a@b'')])]"

abbreviation browser_sock :: "channel list \<Rightarrow> ws_socket" where
  "browser_sock own \<equiv> \<lparr>ws_user = browser_user\<lparr>wu_owned := own\<rparr>, ws_ip = JNull, ws_jwt = [], ws_channels = [''g''], ws_open = True, ws_tasks = [], ws_apps = None\<rparr>"

abbreviation browser_unit :: "channel list \<Rightarrow> ws_unit" where
  "browser_unit own \<equiv> \<lparr>wn_subs = [GLOBAL, ''g''], wn_router = [(GLOBAL, 0), (''g'', 0)], wn_sockets = [browser_sock own]\<rparr>"

abbreviation browser_events :: "ws_event list" where
  "browser_events \<equiv> [Open browser_user JNull [], WireIn GLOBAL JoinGroup join_message, Answered 0 0 (Inr (JObj [(''channel'', JStr ''dev'')]))]"

lemma eval_steps:
  "fst (ws_step admin ws_new (Open browser_user JNull [])) = browser_unit []"
  "ws_step admin (browser_unit []) (WireIn GLOBAL JoinGroup join_message) = (ws_wait 0 (AppsLoad join_message) (browser_unit []), [])"
  "fst (ws_step admin (ws_wait 0 (AppsLoad join_message) (browser_unit [])) (Answered 0 0 (Inr (JObj [(''channel'', JStr ''dev'')])))) = browser_unit [''dev'']"
proof -
  show "fst (ws_step admin ws_new (Open browser_user JNull [])) = browser_unit []"
    by (simp add: ws_connect_def ws_new_def joinChannel_def upd_sock_def Let_def)
  show "ws_step admin (browser_unit []) (WireIn GLOBAL JoinGroup join_message) = (ws_wait 0 (AppsLoad join_message) (browser_unit []), [])"
    by (simp add: wire_in_def starts_with_iff GLOBAL_def Let_def)
  show "fst (ws_step admin (ws_wait 0 (AppsLoad join_message) (browser_unit [])) (Answered 0 0 (Inr (JObj [(''channel'', JStr ''dev'')])))) = browser_unit [''dev'']"
    by (simp add: ws_wait_def upd_sock_def upd_user_def apps_loaded_def set_owned_def jget_def remove_nth_def Let_def)
qed





theorem left_device_is_still_commanded_witness:
  "snd (ws_step [] (fst (ws_step [] (browser_unit [''dev'']) (WireIn GLOBAL LeaveGroup (JObj [(''serial'', JStr ''s1'')])))) (FromBrowser 0 ''input.touchDown'' ''dev'' [] (JObj []))) =
   [PushTo ''dev'' None ''TouchDownMessage'' [JUndef, JUndef, JUndef, JUndef, JUndef]]"
  using left_device_is_still_commanded [of 0 "browser_unit [''dev'']" "''dev''" "[]" GLOBAL "JObj [(''serial'', JStr ''s1'')]" "[]" "JObj []"]
  by (simp add: owns_def jget_def del: ws_step.simps)

theorem cleanup_silences_all_witness:
  "snd (ws_step [] (fst (ws_step [] (browser_unit []) (FromBrowser 0 ''tx.cleanup'' GLOBAL [] JNull))) (WireIn GLOBAL DevicePresent JNull)) = []"
  using cleanup_silences_all [of 0 "browser_unit []" "[]" "[]" JNull DevicePresent JNull] by (simp add: starts_with_iff GLOBAL_def del: ws_step.simps)

theorem broadcasts_are_multiplied_witness:
  "length (snd (ws_step [] ((browser_unit [])\<lparr>wn_router := [(GLOBAL, 0), (''g'', 0), (GLOBAL, 1)], wn_sockets := [browser_sock [], browser_sock []]\<rparr>) (WireIn GLOBAL DevicePresent JNull))) = 2"
  using broadcasts_are_multiplied [of GLOBAL "(browser_unit [])\<lparr>wn_router := [(GLOBAL, 0), (''g'', 0), (GLOBAL, 1)], wn_sockets := [browser_sock [], browser_sock []]\<rparr>" GLOBAL "[]" JNull]
  by (simp add: starts_with_iff GLOBAL_def del: ws_step.simps)

theorem introduction_reaches_strangers_witness:
  "\<exists>d. EmitAll ''device.add'' d \<in> set (snd (ws_step [] (browser_unit []) (WireIn GLOBAL DeviceIntroduction (JObj [(''group'', JObj [(''id'', JStr ''r'')])]))))"
  by (rule introduction_reaches_strangers [of _ 0]) (simp_all add: one_of_def jget_def)

theorem answer_reaches_asker_witness:
  "snd (ws_step [] (fst (ws_step [] (browser_unit [''dev'']) (FromBrowser 0 ''wifi.get'' ''dev'' ''t'' JNull))) (WireIn ''t'' TxFinished JNull)) = [Emit 0 ''tx.done'' [JStr ''t'', JNull]]"
  by (rule answer_reaches_asker [where r = "asks True ''WifiGetStatusMessage'' no_args"])
    (simp_all add: owns_def asks_def GLOBAL_def ws_rules_def input_rules_def account_rules_def radio_rules_def)

theorem late_apps_leak_witness:
  "(''t'', 0) \<in> set (wn_router (fst (ws_step [] ((browser_unit [])\<lparr>wn_sockets := [(browser_sock [''dev''])\<lparr>ws_open := False, ws_apps := Some (''dev'', ''t'')\<rparr>]\<rparr>) (AppsDue 0))))"
  using late_apps_leak [of 0 "(browser_unit [])\<lparr>wn_sockets := [(browser_sock [''dev''])\<lparr>ws_open := False, ws_apps := Some (''dev'', ''t'')\<rparr>]\<rparr>" "''dev''" "''t''" "[]"]
  by (simp add: owns_def Let_def del: ws_step.simps)

theorem listeners_are_needed_witness: "regs_ok (fst (run (ws_step []) ws_new browser_events))"
proof (rule listeners_are_needed)
  show "fair_run [] ws_new browser_events"
    unfolding fair_run.simps fair_def eval_steps fst_conv
    by (simp add: chans_ok_def sock_state_def ws_wait_def upd_sock_def GLOBAL_def)
qed

end
