(* ===== verification/Processor.thy ===== *)
theory Processor imports Complex_Main Device_Db Web_Socket begin

text \<open>
  The processor (\<open>lib/units/processor/index.ts\<close>): it writes what the devices and providers report to the database, passes it on to the side of the
  browsers, and answers questions about devices. A handler is split at its \<open>await\<close>s: a task holds the requests to the database that are
  under way, and what is done when they are answered. The database takes the requests that are under way in any order (they go over several
  connections), so an event says which one is next. The log of what the database has done is part of the output. A rejected promise
  that nobody handles is an output too.
\<close>

section \<open>The database\<close>

record pdb =
  pd_devices :: "js list"
  pd_groups :: "js list"
  pd_users :: "js list"
  pd_vnc :: "js list"
  pd_stats :: "js list"

datatype db_op = DbSet js dset | DbRoot | DbInsert js | DbOrigin js js | DbFind js | DbEvent js | DbPresent | DbDead rat | DbDelete js
  | DbFingerprint js | DbVnc js js

datatype db_res = Matched nat | Doc "js option" | Docs "js list" | Okay | Broken

definition any_of :: "string \<Rightarrow> js \<Rightarrow> js \<Rightarrow> bool" where
  "any_of k v x = (case x of JArr xs \<Rightarrow> list_ex (\<lambda>y. jget k y = v) xs | _ \<Rightarrow> jget k x = v)"

definition with_key :: "js \<Rightarrow> js \<Rightarrow> bool" where
  "with_key fp u = list_ex (\<lambda>y. jget ''fingerprint'' y = fp) (jlist (jget ''adbKeys'' u))"

definition with_response :: "js \<Rightarrow> js \<Rightarrow> js \<Rightarrow> bool" where
  "with_response r s v = (any_of ''response'' r (jget ''responsePerDevice'' v) \<and> any_of ''serial'' s (jget ''responsePerDevice'' v))"

fun db_exec :: "db_op \<Rightarrow> pdb \<Rightarrow> pdb \<times> db_res" where
  "db_exec (DbSet s u) b = (case update_first (has_serial s) u (pd_devices b) of
       Some (ds, n) \<Rightarrow> (b\<lparr>pd_devices := ds\<rparr>, Matched n) | None \<Rightarrow> (b, Broken))"
| "db_exec DbRoot b = (b, case root_group (pd_groups b) of Some g \<Rightarrow> Doc (Some g) | None \<Rightarrow> Broken)"
| "db_exec (DbInsert d) b = (case insert_doc d (pd_devices b) of Some ds \<Rightarrow> (b\<lparr>pd_devices := ds\<rparr>, Okay) | None \<Rightarrow> (b, Broken))"
| "db_exec (DbOrigin i s) b = (b\<lparr>pd_groups := addOriginGroupDevice i s (pd_groups b)\<rparr>, Okay)"
| "db_exec (DbFind s) b = (b, Doc (loadDeviceBySerial s (pd_devices b)))"
| "db_exec (DbEvent d) b = (b\<lparr>pd_stats := pd_stats b @ [d]\<rparr>, Okay)"
| "db_exec DbPresent b = (b, Docs (loadPresentDevices (pd_devices b)))"
| "db_exec (DbDead t) b = (b, Docs (getDeadDevice t (pd_devices b)))"
| "db_exec (DbDelete s) b = (b\<lparr>pd_devices := deleteDevice s (pd_devices b)\<rparr>, Okay)"
| "db_exec (DbFingerprint fp) b = (b, Docs (filter (with_key fp) (pd_users b)))"
| "db_exec (DbVnc r s) b = (b, Docs (filter (with_response r s) (pd_vnc b)))"

section \<open>Messages and tasks\<close>

text \<open>The classes that the router has listeners for: those that browsers are told of, and others.\<close>

datatype pr_kind = Shared ws_kind | InstallResult | IosIntroduction | IosState | VncResponse | ConnectStarted | ConnectStopped | IsInOrigin
  | UpdateIos | IosVersion | IosSize | DeviceType | PresentDevices | Heartbeat | DeadDevices | DeleteDev

text \<open>
  \<open>ToApp\<close>: to the side of the browsers; \<open>ToDev\<close>: to the side of the devices, with the class; \<open>Relay\<close>: what has arrived, unread, to the side of the
  devices; \<open>DbDid\<close>: what the database has done; \<open>Rejected\<close>: a promise that nobody handles; \<open>Threw\<close>: an exception out of the listener.
\<close>

datatype pr_out = ToApp channel pr_kind js | ToDev channel string js | Relay channel js | DbDid db_op db_res | Rejected | Threw

datatype pr_done = Announce channel js | Register js | Quiet

datatype pr_cont = Forget | Ignore | Tell "pr_out list" | Saved "(string \<times> js) list" js pr_done | Rooted "(string \<times> js) list" js pr_done
  | Inserted js js pr_done | Origined js pr_done | Found pr_done | InOrigin channel | PresentList channel | DeadList channel
  | Finger channel js | Vnc channel js

type_synonym pr_task = "db_op list \<times> pr_cont"

record proc =
  pr_db :: pdb
  pr_tasks :: "pr_task list"
  pr_seq :: nat

record pr_opts =
  po_env :: env
  po_ip :: string

section \<open>The writes of plain messages\<close>

definition plain_shared :: "rat \<Rightarrow> ws_kind \<Rightarrow> js \<Rightarrow> (js \<times> dset) option" where
  "plain_shared now k m = (let s = jget ''serial'' m in case k of
       DevicePresent \<Rightarrow> Some (setDevicePresent now s)
     | DeviceAbsent \<Rightarrow> Some (setDeviceAbsent now s)
     | DeviceStatus \<Rightarrow> Some (saveDeviceStatus now s (jget ''status'' m))
     | DeviceReady \<Rightarrow> Some (setDeviceReady s (jget ''channel'' m))
     | JoinGroup \<Rightarrow> Some (setDeviceState now s m)
     | LeaveGroup \<Rightarrow> Some (setDeviceState now s (JObj [(''owner'', JNull), (''usage'', JNull), (''timeout'', JNum 0)]))
     | DeviceIdentity \<Rightarrow> Some (saveDeviceIdentity s m)
     | AirplaneMode \<Rightarrow> Some (setDeviceAirplaneMode s (jget ''enabled'' m))
     | Battery \<Rightarrow> Some (setDeviceBattery s m)
     | Browser \<Rightarrow> Some (setDeviceBrowser s m)
     | Connectivity \<Rightarrow> Some (setDeviceConnectivity s m)
     | PhoneState \<Rightarrow> Some (setDevicePhoneState s m)
     | Rotation \<Rightarrow> Some (setDeviceRotation m)
     | Capabilities \<Rightarrow> Some (setDeviceCapabilities m)
     | ReverseForwards \<Rightarrow> Some (setDeviceReverseForwards s (jget ''forwards'' m))
     | Services \<Rightarrow> Some (setDeviceServicesAvailability s m)
     | _ \<Rightarrow> None)"

fun plain_write :: "rat \<Rightarrow> pr_kind \<Rightarrow> js \<Rightarrow> (js \<times> dset) option" where
  "plain_write now (Shared k) m = plain_shared now k m"
| "plain_write now ConnectStarted m = Some (setDeviceConnectUrl (jget ''serial'' m) (jget ''url'' m))"
| "plain_write now ConnectStopped m = Some (unsetDeviceConnectUrl (jget ''serial'' m))"
| "plain_write now UpdateIos m = updateIosDevice m"
| "plain_write now IosVersion m = Some (setDeviceIosVersion m)"
| "plain_write now IosSize m = Some (sizeIosDevice (jget ''id'' m) (jget ''height'' m) (jget ''width'' m) (jget ''scale'' m))"
| "plain_write now DeviceType m = Some (setDeviceType (jget ''serial'' m) (jget ''type'' m))"
| "plain_write now k m = None"

text \<open>The messages whose write is awaited before they are passed on; those that are passed on at all.\<close>

definition write_awaited :: "pr_kind \<Rightarrow> bool" where
  "write_awaited k = (k \<in> {Shared DevicePresent, Shared DeviceAbsent, Shared DeviceReady, Shared JoinGroup, Shared LeaveGroup, ConnectStarted, ConnectStopped})"

definition passed_on :: "pr_kind \<Rightarrow> bool" where
  "passed_on k = (k \<notin> {UpdateIos, IosVersion, DeviceType})"

text \<open>\<open>sendEvent\<close>: the statistics of the uses.\<close>

definition use_event :: "rat \<Rightarrow> string \<Rightarrow> js \<Rightarrow> js" where
  "use_event now t m = JObj [(''eventType'', JStr t), (''eventDetails'', JObj []), (''linkedEntities'', JObj [(''deviceSerial'', jget ''serial'' m),
     (''userEmail'', jget ''email'' (jget ''owner'' m)), (''groupId'', jget ''group'' (jget ''owner'' m))]), (''timestamp'', JNum now)]"

definition events_of :: "rat \<Rightarrow> pr_kind \<Rightarrow> js \<Rightarrow> db_op list" where
  "events_of now k m =
     (if k = Shared JoinGroup then [DbEvent (use_event now (''device_'' @ (if falsy (jget ''usage'' m) then ''use'' else jstr (jget ''usage'' m))) m)]
      else if k = Shared LeaveGroup then [DbEvent (use_event now ''device_leave'' m)] else [])"

definition tells :: "channel \<Rightarrow> pr_kind \<Rightarrow> js \<Rightarrow> pr_out list" where
  "tells c k m = (if k = Shared DeviceReady then [ToDev (jstr (jget ''channel'' m)) ''ProbeMessage'' (JObj [])] else []) @
     (if passed_on k then [ToApp c k m] else [])"

definition write_plain :: "rat \<Rightarrow> channel \<Rightarrow> pr_kind \<Rightarrow> js \<Rightarrow> js \<times> dset \<Rightarrow> pr_task list \<times> pr_out list" where
  "write_plain now c k m w =
     (let set_op = DbSet (fst w) (snd w) in
      if events_of now k m \<noteq> [] \<and> nullish (jget ''owner'' m) then ([([set_op], Forget)], [Rejected])
      else if write_awaited k then ([(set_op # events_of now k m, Tell (tells c k m))], [])
      else ([([set_op], Forget)], tells c k m))"

section \<open>The listeners\<close>

text \<open>\<open>defaultWireHandler\<close>.\<close>

definition just_passed :: "pr_kind \<Rightarrow> bool" where
  "just_passed k = (k = InstallResult \<or> k \<in> Shared ` {UserChange, GroupChange, DeviceGroupChange, GroupUserChange, DeviceLog, TxProgress, TxFinished, TxTree,
     LogcatEntry, Unavailable, ConnectUrl, Applications})"

definition save_first :: "(string \<times> js) list \<Rightarrow> js \<Rightarrow> pr_done \<Rightarrow> pr_task list" where
  "save_first data s f = [([DbSet s (as_set data)], Saved data s f)]"

definition dead_bound :: "rat \<Rightarrow> js \<Rightarrow> rat" where
  "dead_bound now t = now - (case t of JNum x \<Rightarrow> x | _ \<Rightarrow> 60000)"

definition pr_handle :: "pr_opts \<Rightarrow> rat \<Rightarrow> channel \<Rightarrow> pr_kind \<Rightarrow> js \<Rightarrow> pr_task list \<times> pr_out list" where
  "pr_handle opt now c k m =
     (let s = jget ''serial'' m in
      if just_passed k then ([], [ToApp c k m])
      else case plain_write now k m of
        Some w \<Rightarrow> write_plain now c k m w
      | None \<Rightarrow> (case k of
          Shared DeviceIntroduction \<Rightarrow> (save_first (initial_fields now m) s (Announce c m), [])
        | IosIntroduction \<Rightarrow> (case saveIosDeviceInitialState (po_env opt) now m of
              Some data \<Rightarrow> (save_first data s (Register m), []) | None \<Rightarrow> ([], [Rejected]))
        | IosState \<Rightarrow> (case initializeIosDeviceState (po_env opt) (po_ip opt) now m of
              Some data \<Rightarrow> (save_first data s Quiet, []) | None \<Rightarrow> ([], [Threw]))
        | Shared JoinByFingerprint \<Rightarrow> ([([DbFingerprint (jget ''fingerprint'' m)], Finger c m)], [])
        | VncResponse \<Rightarrow> ([([DbVnc (jget ''response'' m) s], Vnc c m)], [])
        | IsInOrigin \<Rightarrow> ([([DbFind s], InOrigin c)], [])
        | PresentDevices \<Rightarrow> ([([DbPresent], PresentList c)], [])
        | Heartbeat \<Rightarrow> ([], [Relay c m])
        | DeadDevices \<Rightarrow> ([([DbDead (dead_bound now (jget ''time'' m))], DeadList c)], [])
        | DeleteDev \<Rightarrow> ([([DbDelete s], Forget)], [])
        | UpdateIos \<Rightarrow> ([], [Threw])
        | _ \<Rightarrow> ([], [])))"

section \<open>The answers of the database\<close>

definition announce :: "pr_done \<Rightarrow> pr_out list" where
  "announce f =
     (let registered = \<lambda>m. ToDev (jstr (jget ''channel'' (jget ''provider'' m))) ''DeviceRegisteredMessage'' (JObj (picked [''serial''] m)) in case f of
        Announce c m \<Rightarrow> if nullish (jget ''provider'' m) then [Rejected] else [registered m, ToApp c (Shared DeviceIntroduction) m]
      | Register m \<Rightarrow> if nullish (jget ''provider'' m) then [Rejected] else [registered m]
      | Quiet \<Rightarrow> [])"

definition okay_reply :: "channel \<Rightarrow> nat \<Rightarrow> js \<Rightarrow> pr_out" where
  "okay_reply c q body = ToDev c ''TransactionDoneMessage'' (JObj [(''source'', JStr GLOBAL), (''seq'', JNum (of_nat q)), (''success'', JBool True),
     (''data'', JStr ''success''), (''body'', JText body)])"

definition auto_group :: "channel \<Rightarrow> js \<Rightarrow> js \<Rightarrow> pr_out" where
  "auto_group c u i = ToDev c ''AutoGroupMessage'' (JObj [(''owner'', JObj (picked [''email'', ''name'', ''group''] u)), (''identifier'', i)])"

text \<open>One user takes the device, none is asked; several are an error, which is logged.\<close>

definition found_users :: "channel \<Rightarrow> js \<Rightarrow> js \<Rightarrow> pr_out \<Rightarrow> js list \<Rightarrow> pr_out list" where
  "found_users c m i ask us = (case us of [] \<Rightarrow> [ask] | [u] \<Rightarrow> [auto_group c u i] | _ \<Rightarrow> [])"

definition in_origin :: "js option \<Rightarrow> bool" where
  "in_origin d = (case d of Some d \<Rightarrow> jget ''id'' (jget ''group'' d) = jget ''origin'' (jget ''group'' d) | None \<Rightarrow> False)"

fun resume :: "rat \<Rightarrow> nat \<Rightarrow> pr_cont \<Rightarrow> db_res \<Rightarrow> pr_task list \<times> pr_out list \<times> nat" where
  "resume now q (Tell os) r = ([], os, q)"
| "resume now q (Saved data s f) (Matched n) = (if n = 0 then [([DbRoot], Rooted data s f)] else [([DbFind s], Found f)], [], q)"
| "resume now q (Rooted data s f) (Doc (Some g)) = ([([DbInsert (new_device now data s g)], Inserted g s f)], [], q)"
| "resume now q (Inserted g s f) r = ([([DbOrigin (jget ''id'' g) s], Origined s f)], [], q)"
| "resume now q (Origined s f) r = ([([DbFind s], Found f)], [], q)"
| "resume now q (Found f) r = ([], announce f, q)"
| "resume now q (InOrigin c) (Doc d) =
     (if (case d of Some x \<Rightarrow> nullish (jget ''group'' x) | None \<Rightarrow> False) then ([], [Rejected], q)
      else ([], [okay_reply c q (JObj [(''isInOrigin'', JBool (in_origin d))])], Suc q))"
| "resume now q (PresentList c) (Docs ds) = ([], [okay_reply c q (JObj [(''devices'', JArr (map (jget ''serial'') ds))])], Suc q)"
| "resume now q (DeadList c) (Docs ds) =
     ([], [okay_reply c q (JObj [(''deadDevices'', JArr (map (\<lambda>d. JObj (picked [''serial'', ''present'', ''presenceChangedAt''] d)) ds))])], Suc q)"
| "resume now q (Finger c m) (Docs us) =
     ([], found_users c m (jget ''fingerprint'' m)
       (ToApp (jstr (jget ''currentGroup'' m)) (Shared JoinByFingerprint) (JObj (picked [''serial'', ''fingerprint'', ''comment''] m))) us, q)"
| "resume now q (Vnc c m) (Docs us) =
     ([], found_users c m (jget ''response'' m) (ToApp (jstr (jget ''currentGroup'' m)) VncResponse (JObj (picked [''serial'', ''response''] m))) us, q)"
| "resume now q k r = ([], [], q)"

text \<open>A request that fails: the lookups of users log it, what \<open>Promise.all\<close> has rejected already is not rejected again.\<close>

fun failed :: "pr_cont \<Rightarrow> pr_out list" where
  "failed Ignore = []"
| "failed (Finger c m) = []"
| "failed (Vnc c m) = []"
| "failed k = [Rejected]"

section \<open>Steps\<close>

datatype pr_event = FromDev rat channel pr_kind js | FromApp channel js | Done rat nat nat

definition pr_done_step :: "rat \<Rightarrow> nat \<Rightarrow> nat \<Rightarrow> proc \<Rightarrow> proc \<times> pr_out list" where
  "pr_done_step now i j S =
     (let ps = fst (pr_tasks S ! i); k = snd (pr_tasks S ! i); (b, r) = db_exec (ps ! j) (pr_db S); qs = remove_nth j ps; S1 = S\<lparr>pr_db := b\<rparr>;
          rest = remove_nth i (pr_tasks S) in
      if r = Broken then (S1\<lparr>pr_tasks := (if qs = [] then rest else (pr_tasks S)[i := (qs, Ignore)])\<rparr>, DbDid (ps ! j) r # failed k)
      else if qs \<noteq> [] then (S1\<lparr>pr_tasks := (pr_tasks S)[i := (qs, k)]\<rparr>, [DbDid (ps ! j) r])
      else (case resume now (pr_seq S) k r of (ts, os, q) \<Rightarrow> (S1\<lparr>pr_tasks := rest @ ts, pr_seq := q\<rparr>, DbDid (ps ! j) r # os)))"

fun pr_step :: "pr_opts \<Rightarrow> proc \<Rightarrow> pr_event \<Rightarrow> proc \<times> pr_out list" where
  "pr_step opt S (FromDev now c k m) = (case pr_handle opt now c k m of (ts, os) \<Rightarrow> (S\<lparr>pr_tasks := pr_tasks S @ ts\<rparr>, os))"
| "pr_step opt S (FromApp c d) = (S, [Relay c d])"
| "pr_step opt S (Done now i j) =
     (if i < length (pr_tasks S) \<and> j < length (fst (pr_tasks S ! i)) then pr_done_step now i j S else (S, []))"

definition pr_new :: "pdb \<Rightarrow> proc" where
  "pr_new b = \<lparr>pr_db = b, pr_tasks = [], pr_seq = 0\<rparr>"

section \<open>What is told has been written\<close>

text \<open>
  A component whose outputs have to be justified by what it has put out before: the invariant is one of the history and the state.
\<close>

locale telling =
  fixes step :: "'s \<Rightarrow> 'e \<Rightarrow> 's \<times> 'o list"
    and inv :: "'o list \<Rightarrow> 's \<Rightarrow> bool"
    and just :: "'o list \<Rightarrow> 'o \<Rightarrow> bool"
  assumes keep: "inv h s \<Longrightarrow> inv (h @ snd (step s e)) (fst (step s e))"
    and justified: "inv h s \<Longrightarrow> snd (step s e) = xs @ x # ys \<Longrightarrow> just (h @ xs) x"
begin

lemma told_run: "inv h s \<Longrightarrow> snd (run step s es) = xs @ x # ys \<Longrightarrow> just (h @ xs) x"
proof (induction es arbitrary: h s xs)
  case (Cons e es)
  let ?os = "snd (step s e)" and ?rs = "snd (run step (fst (step s e)) es)"
  have "?os @ ?rs = xs @ x # ys" using Cons.prems(2) by (simp add: Let_def)
  then consider zs where "?os = xs @ x # zs" | zs where "xs = ?os @ zs" "?rs = zs @ x # ys"
    by (auto simp: append_eq_append_conv2 append_eq_Cons_conv)
  then show ?case
  proof cases
    case 1
    then show ?thesis using justified Cons.prems(1) by blast
  next
    case 2
    then show ?thesis using Cons.IH [OF keep [OF Cons.prems(1)] 2(2)] by simp
  qed
qed simp

end

text \<open>
  \<open>in_database h s\<close>: the database has found the document of the device, or has inserted it. \<open>just\<close>: a message whose write is awaited needs the
  write, an introduction and the answer to its provider need the document.
\<close>

definition in_database :: "pr_out list \<Rightarrow> js \<Rightarrow> bool" where
  "in_database h s = ((\<exists>u n. DbDid (DbSet s u) (Matched (Suc n)) \<in> set h) \<or> (\<exists>d. DbDid (DbInsert d) Okay \<in> set h \<and> jget ''serial'' d = stored s))"

definition written :: "pr_out list \<Rightarrow> pr_kind \<Rightarrow> js \<Rightarrow> bool" where
  "written h k m = (\<exists>now w n. plain_write now k m = Some w \<and> DbDid (DbSet (fst w) (snd w)) (Matched n) \<in> set h)"

fun just_told :: "pr_out list \<Rightarrow> pr_out \<Rightarrow> bool" where
  "just_told h (ToApp c k m) = ((write_awaited k \<longrightarrow> written h k m) \<and> (k = Shared DeviceIntroduction \<longrightarrow> in_database h (jget ''serial'' m)))"
| "just_told h (ToDev c cls m) = (cls = ''DeviceRegisteredMessage'' \<longrightarrow> in_database h (jget ''serial'' m))"
| "just_told h x = True"

lemma just_mono: "just_told h x \<Longrightarrow> just_told (h @ zs) x"
  by (cases x) (auto simp: in_database_def written_def)

lemma in_database_mono: "in_database h s \<Longrightarrow> in_database (h @ zs) s"
  by (auto simp: in_database_def)

fun done_for :: "pr_done \<Rightarrow> js \<Rightarrow> bool" where
  "done_for (Announce c m) s = (s = jget ''serial'' m)"
| "done_for (Register m) s = (s = jget ''serial'' m)"
| "done_for Quiet s = True"

fun due_from :: "pr_out list \<Rightarrow> db_op list \<Rightarrow> pr_out \<Rightarrow> bool" where
  "due_from h ps (ToApp c k m) =
     (k \<noteq> Shared DeviceIntroduction \<and> (write_awaited k \<longrightarrow> written h k m \<or> (\<exists>now w. plain_write now k m = Some w \<and> DbSet (fst w) (snd w) \<in> set ps)))"
| "due_from h ps (ToDev c cls m) = (cls \<noteq> ''DeviceRegisteredMessage'')"
| "due_from h ps x = True"

fun cont_ok :: "pr_out list \<Rightarrow> db_op list \<Rightarrow> pr_cont \<Rightarrow> bool" where
  "cont_ok h ps (Tell os) = (\<forall>x \<in> set os. due_from h ps x)"
| "cont_ok h ps (Saved data s f) = (done_for f s \<and> ps = [DbSet s (as_set data)])"
| "cont_ok h ps (Rooted data s f) = (done_for f s \<and> ps = [DbRoot])"
| "cont_ok h ps (Inserted g s f) = (done_for f s \<and> (\<exists>d. ps = [DbInsert d] \<and> jget ''serial'' d = stored s))"
| "cont_ok h ps (Origined s f) = (done_for f s \<and> (f \<noteq> Quiet \<longrightarrow> in_database h s))"
| "cont_ok h ps (Found f) = (\<forall>s. done_for f s \<longrightarrow> f \<noteq> Quiet \<longrightarrow> in_database h s)"
| "cont_ok h ps k = True"

definition tasks_ok :: "pr_out list \<Rightarrow> proc \<Rightarrow> bool" where
  "tasks_ok h S = (\<forall>t \<in> set (pr_tasks S). cont_ok h (fst t) (snd t))"

lemma due_from_mono: "due_from h ps x \<Longrightarrow> due_from (h @ zs) ps x"
  by (cases x) (auto simp: written_def)

lemma cont_mono: "cont_ok h ps k \<Longrightarrow> cont_ok (h @ zs) ps k"
  by (cases "(h, ps, k)" rule: cont_ok.cases) (auto simp: in_database_mono due_from_mono)

lemma tasks_mono: "tasks_ok h S \<Longrightarrow> tasks_ok (h @ zs) S"
  by (auto simp: tasks_ok_def cont_mono)

lemma map_of_spread: "map_of (spread a b) = map_of a ++ map_of (rev b)"
  by (induction b arbitrary: a) (auto simp: spread_def update_conv' split: prod.splits)

lemma jget_stored: "jget k (stored (JObj kv)) = (case map_of kv k of Some v \<Rightarrow> stored v | None \<Rightarrow> JUndef)"
  by (simp add: jget_def map_prod_def map_of_map split: option.splits)

lemma new_device_serial [simp]: "jget ''serial'' (new_device now data s g) = stored s"
  by (simp add: new_device_def jget_stored map_of_spread del: stored.simps)

text \<open>What a listener starts, and says at once.\<close>

lemma not_write_awaited: "plain_write now k m = None \<Longrightarrow> \<not> write_awaited k"
  by (auto simp: write_awaited_def plain_shared_def Let_def)

lemma tells_due:
  assumes "x \<in> set (tells c k m)" and "plain_write now k m = Some w"
  shows "due_from h (DbSet (fst w) (snd w) # ps) x"
proof -
  have "\<exists>now v. plain_write now k m = Some v \<and> DbSet (fst v) (snd v) \<in> set (DbSet (fst w) (snd w) # ps)" using assms(2) by (intro exI [of _ now] exI [of _ w]) simp
  moreover have "k \<noteq> Shared DeviceIntroduction" using assms(2) by (auto simp: plain_shared_def)
  ultimately show ?thesis using assms(1) unfolding tells_def by (auto simp del: list.set split: if_splits)
qed

lemma tells_just: "x \<in> set (tells c k m) \<Longrightarrow> plain_write now k m = Some w \<Longrightarrow> \<not> write_awaited k \<Longrightarrow> just_told h x"
  by (auto simp: tells_def plain_shared_def Let_def write_awaited_def split: if_splits)

lemma save_first_ok: "done_for f s \<Longrightarrow> t \<in> set (save_first data s f) \<Longrightarrow> cont_ok h (fst t) (snd t)"
  by (simp add: save_first_def)

lemma handle_ok: "t \<in> set (fst (pr_handle opt now c k m)) \<Longrightarrow> cont_ok h (fst t) (snd t)"
  unfolding pr_handle_def Let_def write_plain_def
  by (auto split: if_splits option.splits pr_kind.splits ws_kind.splits intro: tells_due dest!: save_first_ok [rotated])

lemma handle_just: "x \<in> set (snd (pr_handle opt now c k m)) \<Longrightarrow> just_told h x"
  unfolding pr_handle_def Let_def write_plain_def
  by (auto simp: just_passed_def write_awaited_def split: if_splits option.splits pr_kind.splits ws_kind.splits intro: tells_just)

text \<open>What an answer of the database leads to.\<close>

lemma announce_just:
  assumes "cont_ok h ps (Found f)" and "x \<in> set (announce f)"
  shows "just_told h x"
  using assms by (cases f) (auto simp: announce_def write_awaited_def picked_def split: if_splits)

lemma exec_set: "db_exec p b = (b', r) \<Longrightarrow> r \<noteq> Broken \<Longrightarrow> DbSet s u = p \<Longrightarrow> \<exists>n. r = Matched n"
  by (auto split: option.splits)

lemma due_just:
  assumes "due_from h [p] x" and "db_exec p b = (b', r)" and "r \<noteq> Broken"
  shows "just_told (h @ [DbDid p r]) x"
proof (cases x)
  case (ToApp c k m)
  have "DbSet (fst w) (snd w) = p \<Longrightarrow> \<exists>n. r = Matched n" for w using exec_set [OF assms(2,3)] by blast
  then show ?thesis using assms(1) unfolding ToApp by (fastforce simp: written_def)
qed (use assms(1) in auto)

lemma resume_ok:
  assumes "cont_ok h [p] k" and "db_exec p b = (b', r)" and "r \<noteq> Broken" and "resume now q k r = (ts, os, q')"
  shows "(\<forall>t \<in> set ts. cont_ok (h @ [DbDid p r]) (fst t) (snd t)) \<and> (\<forall>x \<in> set os. just_told (h @ [DbDid p r]) x)"
proof (cases k)
  case (Tell xs)
  then show ?thesis using assms due_just by auto
next
  case (Saved data s f)
  then obtain n where r: "r = Matched n" using assms(1-3) by (auto split: option.splits)
  have "n \<noteq> 0 \<Longrightarrow> in_database (h @ [DbDid p r]) s"
    using Saved r assms(1) by (cases n) (auto simp: in_database_def)
  then show ?thesis using Saved r assms(1,4) by (cases f) (auto split: if_splits)
next
  case (Inserted g s f)
  then have "in_database (h @ [DbDid p r]) s" using assms(1-3) by (auto simp: in_database_def split: option.splits)
  then show ?thesis using Inserted assms(1,4) by auto
next
  case (Rooted data s f)
  then show ?thesis using assms by (auto split: option.splits)
next
  case (Origined s f)
  then show ?thesis using assms by (cases f) (auto simp: in_database_mono)
next
  case (Found f)
  then show ?thesis using assms announce_just [of h _ f] just_mono by (fastforce simp del: cont_ok.simps)
next
  case (InOrigin c)
  then show ?thesis using assms by (cases r) (auto simp: okay_reply_def split: if_splits)
next
  case (PresentList c)
  then show ?thesis using assms by (cases r) (auto simp: okay_reply_def)
next
  case (DeadList c)
  then show ?thesis using assms by (cases r) (auto simp: okay_reply_def)
next
  case (Finger c m)
  then show ?thesis using assms by (cases r) (auto simp: found_users_def auto_group_def write_awaited_def split: list.splits)
next
  case (Vnc c m)
  then show ?thesis using assms by (cases r) (auto simp: found_users_def auto_group_def write_awaited_def split: list.splits)
qed (use assms in auto)

lemma set_remove_nth: "x \<in> set (remove_nth n xs) \<Longrightarrow> x \<in> set xs"
  by (auto simp: remove_nth_def dest: in_set_takeD in_set_dropD)

lemma one_left: "j < length ps \<Longrightarrow> remove_nth j ps = [] \<Longrightarrow> ps = [ps ! j]"
  by (cases ps; cases "tl ps") (auto simp: remove_nth_def)

lemma in_remove_nth: "j < length ps \<Longrightarrow> p \<in> set ps \<Longrightarrow> p = ps ! j \<or> p \<in> set (remove_nth j ps)"
  by (metis (no_types, lifting) UnE append_take_drop_id Cons_nth_drop_Suc remove_nth_def set_ConsD set_append UnI1 UnI2)

lemma due_from_part:
  assumes "due_from h ps x" and "j < length ps" and "db_exec (ps ! j) b = (b', r)" and "r \<noteq> Broken"
  shows "due_from (h @ [DbDid (ps ! j) r]) (remove_nth j ps) x"
proof (cases x)
  case (ToApp c k m)
  have "DbSet (fst w) (snd w) = ps ! j \<Longrightarrow> \<exists>n. r = Matched n" for w using exec_set [OF assms(3,4)] by blast
  then show ?thesis using assms(1) in_remove_nth [OF assms(2)] unfolding ToApp by (fastforce simp: written_def)
qed (use assms(1) in auto)

lemma part_ok:
  assumes "cont_ok h ps k" and "j < length ps" and "db_exec (ps ! j) b = (b', r)" and "r \<noteq> Broken" and "remove_nth j ps \<noteq> []"
  shows "cont_ok (h @ [DbDid (ps ! j) r]) (remove_nth j ps) k"
proof (cases k)
  case (Tell os)
  then show ?thesis using assms(1) due_from_part [OF _ assms(2-4)] by auto
next
  case (Saved data s f)
  then show ?thesis using assms by (auto simp: remove_nth_def)
next
  case (Rooted data s f)
  then show ?thesis using assms by (auto simp: remove_nth_def)
next
  case (Inserted g s f)
  then show ?thesis using assms by (auto simp: remove_nth_def)
qed (use assms(1) in \<open>auto simp: in_database_mono\<close>)

lemma failed_just: "x \<in> set (failed k) \<Longrightarrow> just_told h x"
  by (cases k rule: failed.cases) auto

lemma done_ok:
  assumes "tasks_ok h S" and "i < length (pr_tasks S)" and "j < length (fst (pr_tasks S ! i))"
  shows "tasks_ok (h @ snd (pr_done_step now i j S)) (fst (pr_done_step now i j S)) \<and>
    (\<exists>p r os. snd (pr_done_step now i j S) = DbDid p r # os \<and> (\<forall>x \<in> set os. just_told (h @ [DbDid p r]) x))"
proof -
  obtain ps k where t: "pr_tasks S ! i = (ps, k)" by force
  obtain b r where e: "db_exec (ps ! j) (pr_db S) = (b, r)" by force
  have j: "j < length ps" using assms(3) t by simp
  have c: "cont_ok h ps k" using assms(1,2) t by (metis fst_conv nth_mem snd_conv tasks_ok_def)
  have rest: "t \<in> set (remove_nth i (pr_tasks S)) \<Longrightarrow> cont_ok (h @ zs) (fst t) (snd t)" for t zs
    using assms(1) set_remove_nth by (fastforce simp: tasks_ok_def intro: cont_mono)
  have upd: "cont_ok (h @ zs) qs k' \<Longrightarrow> t \<in> set ((pr_tasks S)[i := (qs, k')]) \<Longrightarrow> cont_ok (h @ zs) (fst t) (snd t)" for t zs qs k'
    using assms(1) set_update_subset_insert [of "pr_tasks S" i] by (fastforce simp: tasks_ok_def intro: cont_mono)
  consider "r = Broken" | "r \<noteq> Broken" "remove_nth j ps \<noteq> []" | "r \<noteq> Broken" "remove_nth j ps = []" by blast
  then show ?thesis
  proof cases
    case 1
    then show ?thesis using rest upd [where k' = Ignore] by (auto simp: pr_done_step_def t e tasks_ok_def failed_just Let_def)
  next
    case 2
    then show ?thesis using upd [OF part_ok [OF c j e 2]] by (auto simp: pr_done_step_def t e tasks_ok_def Let_def)
  next
    case 3
    obtain ts os q where m: "resume now (pr_seq S) k r = (ts, os, q)" by (metis prod_cases3)
    have "cont_ok h [ps ! j] k" using c one_left [OF j 3(2)] by simp
    note res = resume_ok [OF this e 3(1) m]
    have "cont_ok (h @ DbDid (ps ! j) r # os) (fst t) (snd t)" if "t \<in> set ts" for t
      using res that cont_mono [of "h @ [DbDid (ps ! j) r]" "fst t" "snd t" os] by simp
    then show ?thesis using 3 rest res by (auto simp: pr_done_step_def t e m tasks_ok_def Let_def)
  qed
qed

lemma proc_step_ok: "tasks_ok h S \<Longrightarrow> tasks_ok (h @ snd (pr_step opt S e)) (fst (pr_step opt S e))"
proof (cases e)
  case (FromDev now c k m)
  assume "tasks_ok h S"
  then show ?thesis using handle_ok [of _ opt now c k m] tasks_mono unfolding FromDev
    by (cases "pr_handle opt now c k m") (fastforce simp: tasks_ok_def)
qed (auto simp: done_ok tasks_mono)

lemma step_just:
  assumes "tasks_ok h S" and "snd (pr_step opt S e) = xs @ x # ys"
  shows "just_told (h @ xs) x"
proof (cases e)
  case (FromDev now c k m)
  have "x \<in> set (snd (pr_handle opt now c k m))" using assms(2) unfolding FromDev by (auto split: prod.splits)
  then show ?thesis by (rule handle_just)
next
  case (FromApp c d)
  then show ?thesis using assms(2) by (cases xs) auto
next
  case (Done now i j)
  show ?thesis
  proof (cases "i < length (pr_tasks S) \<and> j < length (fst (pr_tasks S ! i))")
    case True
    then obtain p r os where d: "snd (pr_done_step now i j S) = DbDid p r # os" "\<forall>x \<in> set os. just_told (h @ [DbDid p r]) x"
      using done_ok [OF assms(1)] by blast
    have "DbDid p r # os = xs @ x # ys" using assms(2) True d(1) unfolding Done by simp
    then show ?thesis
    proof (cases xs)
      case (Cons y zs)
      then have "just_told ((h @ [DbDid p r]) @ zs) x" "y = DbDid p r" using d(2) \<open>DbDid p r # os = xs @ x # ys\<close> by (auto intro!: just_mono [of "h @ [DbDid p r]" x zs, simplified])
      then show ?thesis using Cons by simp
    qed auto
  next
    case False
    then show ?thesis using assms(2) unfolding Done by (simp split: if_splits)
  qed
qed

interpretation told: telling "pr_step opt" tasks_ok just_told
  by unfold_locales (auto intro: proc_step_ok step_just)

text \<open>
  C12. What the browsers are told of the presence, the readiness, the user and the connection of a device has been written to its document before,
  and an introduction is passed on, and its provider answered, only when the document is in the database; whatever
  messages come meanwhile and in whatever order the database answers.
\<close>

theorem told_after_written:
  assumes "snd (run (pr_step opt) (pr_new b) es) = xs @ x # ys"
  shows "just_told xs x"
  using told.told_run [of "[]" "pr_new b" opt es xs x ys] assms by (simp add: tasks_ok_def pr_new_def)

section \<open>One document for each device\<close>

lemmas set_defs = setDevicePresent_def setDeviceAbsent_def saveDeviceStatus_def setDeviceReady_def setDeviceState_def usage_set_def saveDeviceIdentity_def
  setDeviceAirplaneMode_def setDeviceBattery_def setDeviceBrowser_def setDeviceConnectivity_def setDevicePhoneState_def setDeviceRotation_def
  setDeviceCapabilities_def setDeviceReverseForwards_def setDeviceServicesAvailability_def setDeviceConnectUrl_def unsetDeviceConnectUrl_def
  setDeviceIosVersion_def sizeIosDevice_def setDeviceType_def

lemma shared_paths: "plain_shared now k m = Some w \<Longrightarrow> paths_ok (snd w) \<and> ''serial'' \<notin> set (heads (snd w))"
  by (cases k) (auto simp: plain_shared_def Let_def set_defs picked_def split: js.splits if_splits)

lemma plain_paths: "plain_write now k m = Some w \<Longrightarrow> paths_ok (snd w) \<and> ''serial'' \<notin> set (heads (snd w))"
  by (cases k) (auto simp: set_defs updateIosDevice_def dest: shared_paths split: if_splits)

text \<open>The fields of a message are different, without dots, and its serial number is a text.\<close>

definition plain_fields :: "(string \<times> js) list \<Rightarrow> bool" where
  "plain_fields kv = (distinct (map fst kv) \<and> list_all (\<lambda>(k, v). CHR ''.'' \<notin> set k) kv)"

definition well_formed :: "js \<Rightarrow> bool" where
  "well_formed m = (is_doc m \<and> plain_fields (obj_fields m) \<and> (\<exists>s. jget ''serial'' m = JStr s))"

lemma split_on_none: "x \<notin> set cs \<Longrightarrow> split_on x cs = [cs]"
  by (induction cs) auto

lemma as_set_whole: "list_all (\<lambda>(k, v). CHR ''.'' \<notin> set k) kv \<Longrightarrow> as_set kv = whole kv"
  by (induction kv) (auto simp: as_set_def split_on_none)

lemma last_field_map_of: "distinct (map fst kv) \<Longrightarrow> last_field kv j x = (case map_of kv j of Some v \<Rightarrow> stored v | None \<Rightarrow> x)"
proof (induction kv arbitrary: x)
  case (Cons a kv)
  obtain k v where a: "a = (k, v)" by force
  have "j = k \<Longrightarrow> map_of kv j = None" using Cons.prems by (simp add: a map_of_eq_None_iff)
  then show ?case using Cons by (auto simp: a)
qed simp

lemma spread_distinct: "distinct (map fst a) \<Longrightarrow> distinct (map fst (spread a b))"
  by (induction b arbitrary: a) (auto simp: spread_def distinct_update split: prod.splits)

lemma spread_keys: "set (map fst (spread a b)) = set (map fst a) \<union> set (map fst b)"
  using arg_cong [OF map_of_spread [of a b], of dom] by (auto simp: dom_map_of_conv_image_fst)

lemma initial_keeps:
  assumes "well_formed m"
  shows "paths_ok (as_set (initial_fields now m)) \<and> keeps_serial (jget ''serial'' m) (as_set (initial_fields now m))"
proof -
  obtain s where s: "jget ''serial'' m = JStr s" and d: "is_doc m" "plain_fields (obj_fields m)" using assms by (auto simp: well_formed_def)
  define base where "base = [(''present'', JBool True), (''presenceChangedAt'', JNum now), (''provider'', jget ''provider'' m), (''owner'', JNull), (''channel'', JNull),
       (''status'', JNum 1), (''statusChangedAt'', JNum now), (''bookedBefore'', JNum 0), (''ready'', JBool False), (''reverseForwards'', JArr []),
       (''remoteConnect'', JBool False), (''remoteConnectUrl'', JNull), (''usage'', JNull), (''logs_enabled'', JBool False)]"
  have i: "initial_fields now m = spread base (obj_fields m)" by (simp add: initial_fields_def base_def)
  have b: "distinct (map fst base)" "\<forall>k \<in> set (map fst base). CHR ''.'' \<notin> set k" by (simp_all add: base_def)
  have "list_all (\<lambda>(k, v). CHR ''.'' \<notin> set k) (initial_fields now m)"
  proof -
    have "\<forall>k \<in> set (map fst (spread base (obj_fields m))). CHR ''.'' \<notin> set k"
      unfolding spread_keys using b(2) d(2) by (fastforce simp: plain_fields_def list_all_iff)
    then show ?thesis by (fastforce simp: i list_all_iff)
  qed
  then have w: "as_set (initial_fields now m) = whole (initial_fields now m)" by (rule as_set_whole)
  have "map_of (rev (obj_fields m)) ''serial'' = Some (JStr s)"
  proof -
    obtain kv where kv: "m = JObj kv" using d(1) by (cases m) (auto simp: is_doc_def)
    then have k: "obj_fields m = kv" "distinct (map fst kv)" using d(2) by (auto simp: obj_fields_def plain_fields_def)
    have "map_of kv ''serial'' = Some (JStr s)" using s unfolding kv by (auto simp: jget_def split: option.splits)
    then have "(''serial'', JStr s) \<in> set (rev kv)" by (simp add: map_of_SomeD)
    moreover have "distinct (map fst (rev kv))" using k(2) by (simp add: rev_map [symmetric])
    ultimately show ?thesis using map_of_is_SomeI k(1) by metis
  qed
  then have "last_field (initial_fields now m) ''serial'' x = JStr s" for x
    using spread_distinct [OF b(1)] by (simp add: i last_field_map_of map_of_spread)
  then have "keeps_serial (JStr s) (whole (initial_fields now m))"
    unfolding keeps_serial_def using apply_whole by (metis option.inject)
  then show ?thesis by (simp add: w s)
qed

definition op_ok :: "db_op \<Rightarrow> bool" where
  "op_ok p = (case p of DbSet s u \<Rightarrow> paths_ok u \<and> keeps_serial s u | DbInsert d \<Rightarrow> is_doc d | _ \<Rightarrow> True)"

definition docs_ok :: "js list \<Rightarrow> bool" where
  "docs_ok ds = (list_all is_doc ds \<and> distinct (map (jget ''serial'') ds))"

definition proc_ok :: "proc \<Rightarrow> bool" where
  "proc_ok S = (docs_ok (pd_devices (pr_db S)) \<and> (\<forall>t \<in> set (pr_tasks S). list_all op_ok (fst t)))"

definition intro_ok :: "pr_event \<Rightarrow> bool" where
  "intro_ok e = (case e of FromDev now c k m \<Rightarrow> k = Shared DeviceIntroduction \<longrightarrow> well_formed m | _ \<Rightarrow> True)"

lemma exec_docs: "op_ok p \<Longrightarrow> docs_ok (pd_devices b) \<Longrightarrow> docs_ok (pd_devices (fst (db_exec p b)))"
proof (cases p)
  case (DbSet s u)
  assume "op_ok p" "docs_ok (pd_devices b)"
  then show ?thesis unfolding DbSet
    by (auto simp: docs_ok_def op_ok_def split: option.splits dest: update_docs update_serials)
next
  case (DbInsert d)
  assume "op_ok p" "docs_ok (pd_devices b)"
  then show ?thesis unfolding DbInsert
    by (auto simp: docs_ok_def op_ok_def insert_doc_def list_ex_iff has_serial_def list_all_iff split: option.splits)
next
  case (DbDelete s)
  assume "docs_ok (pd_devices b)"
  then show ?thesis unfolding DbDelete
    using delete_sub by (fastforce simp: docs_ok_def deleteDevice_def list_all_iff)
qed auto

lemma ios_keeps:
  "saveIosDeviceInitialState v now m = Some data \<Longrightarrow> paths_ok (as_set data) \<and> keeps_serial s (as_set data)"
  "initializeIosDeviceState v ip now m = Some data \<Longrightarrow> paths_ok (as_set data) \<and> keeps_serial s (as_set data)"
  by (auto simp: saveIosDeviceInitialState_def initializeIosDeviceState_def Let_def ios_fields_def heads_as_set split: if_splits intro!: keeps_serialI)

lemma handle_ops:
  assumes "k = Shared DeviceIntroduction \<longrightarrow> well_formed m" and "t \<in> set (fst (pr_handle opt now c k m))"
  shows "list_all op_ok (fst t)"
proof (cases "plain_write now k m")
  case (Some w)
  then have "op_ok (DbSet (fst w) (snd w))" using plain_paths [OF Some] by (simp add: op_ok_def keeps_serialI)
  then show ?thesis using assms(2) Some by (auto simp: pr_handle_def write_plain_def Let_def events_of_def op_ok_def split: if_splits)
next
  case None
  then show ?thesis using assms initial_keeps [of m now] ios_keeps
    by (auto simp: pr_handle_def save_first_def op_ok_def Let_def split: if_splits option.splits pr_kind.splits ws_kind.splits)
qed

lemma resume_ops: "resume now q k r = (ts, os, q') \<Longrightarrow> t \<in> set ts \<Longrightarrow> list_all op_ok (fst t)"
  by (cases "(now, q, k, r)" rule: resume.cases) (auto simp: op_ok_def new_device_def split: if_splits)

lemma proc_ok_step: "proc_ok S \<Longrightarrow> intro_ok e \<Longrightarrow> proc_ok (fst (pr_step opt S e))"
proof (cases e)
  case (FromDev now c k m)
  assume "proc_ok S" "intro_ok e"
  then show ?thesis using handle_ops [of k m _ opt now c] unfolding FromDev
    by (cases "pr_handle opt now c k m") (auto simp: proc_ok_def intro_ok_def)
next
  case (Done now i j)
  assume a: "proc_ok S"
  show ?thesis
  proof (cases "i < length (pr_tasks S) \<and> j < length (fst (pr_tasks S ! i))")
    case True
    obtain ps k where t: "pr_tasks S ! i = (ps, k)" by force
    obtain b r where e: "db_exec (ps ! j) (pr_db S) = (b, r)" by force
    obtain ts os q where m: "resume now (pr_seq S) k r = (ts, os, q)" by (metis prod_cases3)
    have ps: "list_all op_ok ps" using a True t by (metis fst_conv nth_mem proc_ok_def)
    have b: "docs_ok (pd_devices b)" using exec_docs [of "ps ! j" "pr_db S"] a ps True t e by (simp add: proc_ok_def list_all_iff)
    have qs: "list_all op_ok (remove_nth j ps)" using ps set_remove_nth by (fastforce simp: list_all_iff)
    have rest: "t \<in> set (remove_nth i (pr_tasks S)) \<Longrightarrow> list_all op_ok (fst t)" for t using a set_remove_nth by (fastforce simp: proc_ok_def)
    have upd: "t \<in> set ((pr_tasks S)[i := (remove_nth j ps, k')]) \<Longrightarrow> list_all op_ok (fst t)" for t k'
      using a qs set_update_subset_insert [of "pr_tasks S" i] by (fastforce simp: proc_ok_def)
    show ?thesis using True b rest upd resume_ops [OF m] unfolding Done
      by (auto simp: pr_done_step_def t e m proc_ok_def Let_def)
  qed (use a Done in auto)
qed auto

interpretation docs: guarded_machine "pr_step opt" proc_ok intro_ok
  by unfold_locales (rule proc_ok_step)


section \<open>The device behind its document\<close>

text \<open>What matters of a device to its users, and what the messages say of it.\<close>

record dev_view =
  dv_present :: js
  dv_ready :: js
  dv_owner :: js
  dv_usage :: js
  dv_status :: js
  dv_channel :: js
  dv_connect :: js
  dv_url :: js

definition view_of :: "(string \<Rightarrow> js) \<Rightarrow> dev_view" where
  "view_of f = \<lparr>dv_present = f ''present'', dv_ready = f ''ready'', dv_owner = f ''owner'', dv_usage = f ''usage'', dv_status = f ''status'',
     dv_channel = f ''channel'', dv_connect = f ''remoteConnect'', dv_url = f ''remoteConnectUrl''\<rparr>"

definition device_view :: "js \<Rightarrow> pdb \<Rightarrow> dev_view option" where
  "device_view s b = map_option (\<lambda>d. view_of (\<lambda>j. jget j d)) (find (has_serial s) (pd_devices b))"

fun view_step :: "pr_kind \<Rightarrow> js \<Rightarrow> dev_view \<Rightarrow> dev_view" where
  "view_step (Shared DevicePresent) m v = v\<lparr>dv_present := JBool True\<rparr>"
| "view_step (Shared DeviceAbsent) m v = v\<lparr>dv_present := JBool False, dv_owner := JNull, dv_usage := JNull\<rparr>"
| "view_step (Shared DeviceStatus) m v = v\<lparr>dv_status := stored (jget ''status'' m)\<rparr>"
| "view_step (Shared DeviceReady) m v = v\<lparr>dv_present := JBool True, dv_ready := JBool True, dv_owner := JNull, dv_channel := stored (jget ''channel'' m)\<rparr>"
| "view_step (Shared JoinGroup) m v =
     v\<lparr>dv_owner := stored (jget ''owner'' m), dv_usage := (if jget ''usage'' m = JUndef then dv_usage v else stored (jget ''usage'' m))\<rparr>"
| "view_step (Shared LeaveGroup) m v = v\<lparr>dv_owner := JNull, dv_usage := JNull\<rparr>"
| "view_step ConnectStarted m v = v\<lparr>dv_connect := JBool True, dv_url := stored (jget ''url'' m)\<rparr>"
| "view_step ConnectStopped m v = v\<lparr>dv_connect := JBool False, dv_url := JNull\<rparr>"
| "view_step k m v = v"

lemma view_whole:
  assumes "is_doc d"
  shows "\<exists>e. apply_set (whole kv) d = Some e \<and> view_of (\<lambda>j. jget j e) = view_of (\<lambda>j. last_field kv j (jget j d))"
proof -
  obtain e where e: "apply_set (whole kv) d = Some e" "\<forall>j. jget j e = last_field kv j (jget j d)" using apply_whole [OF assms] by blast
  then have "(\<lambda>j. jget j e) = (\<lambda>j. last_field kv j (jget j d))" by auto
  then show ?thesis using e(1) by metis
qed

definition view_matches :: "dset \<Rightarrow> pr_kind \<Rightarrow> js \<Rightarrow> js \<Rightarrow> bool" where
  "view_matches u k m d = (case apply_set u d of
       Some e \<Rightarrow> view_of (\<lambda>j. jget j e) = view_step k m (view_of (\<lambda>j. jget j d))
     | None \<Rightarrow> view_step k m (view_of (\<lambda>j. jget j d)) = view_of (\<lambda>j. jget j d))"

lemma whole_matches:
  assumes "is_doc d" and "view_of (\<lambda>j. last_field kv j (jget j d)) = view_step k m (view_of (\<lambda>j. jget j d))"
  shows "view_matches (whole kv) k m d"
  using view_whole [OF assms(1), of kv] assms(2) by (auto simp: view_matches_def)

lemma display_matches:
  assumes "\<And>v. view_step k m v = v" and "set (heads u) \<subseteq> {''display''}" and "paths_ok u"
  shows "view_matches u k m d"
proof (cases "apply_set u d")
  case (Some e)
  then have "jget j e = jget j d" if "j \<noteq> ''display''" for j using that assms by (blast intro: apply_set_other)
  then show ?thesis using Some assms(1) by (simp add: view_matches_def view_of_def)
qed (simp add: view_matches_def assms(1))

definition kv_of :: "dset \<Rightarrow> (string \<times> js) list" where
  "kv_of u = map (\<lambda>(p, v). (hd p, v)) u"

lemma kv_of_whole [simp]: "kv_of (whole kv) = kv"
  by (induction kv) (auto simp: kv_of_def)

lemma last_field_append [simp]: "last_field (a @ b) j x = last_field b j (last_field a j x)"
  by (induction a arbitrary: x) auto

lemma kv_matches:
  assumes "is_doc d" and "whole (kv_of u) = u" and "view_of (\<lambda>j. last_field (kv_of u) j (jget j d)) = view_step k m (view_of (\<lambda>j. jget j d))"
  shows "view_matches u k m d"
  using whole_matches [OF assms(1,3)] assms(2) by simp

lemma shared_matches:
  assumes "plain_shared now k m = Some w" and "is_doc d"
  shows "view_matches (snd w) (Shared k) m d"
proof (cases "k = Rotation")
  case True
  show ?thesis by (rule display_matches) (use assms(1) True in \<open>auto simp: plain_shared_def Let_def setDeviceRotation_def split: if_splits\<close>)
next
  case False
  have "whole (kv_of (snd w)) = snd w" using assms(1) False by (cases k) (auto simp: plain_shared_def Let_def set_defs simp del: whole_simps)
  then show ?thesis
  proof (rule kv_matches [OF assms(2)])
    show "view_of (\<lambda>j. last_field (kv_of (snd w)) j (jget j d)) = view_step (Shared k) m (view_of (\<lambda>j. jget j d))"
      using assms(1) False by (cases k) (auto simp: plain_shared_def Let_def set_defs picked_def view_of_def simp del: whole_simps split: js.splits)
  qed
qed

lemma plain_matches:
  assumes "plain_write now k m = Some w" and "is_doc d"
  shows "view_matches (snd w) k m d"
proof (cases "k = IosSize \<or> (\<exists>j. k = Shared j)")
  case True
  then show ?thesis using assms by (auto simp: sizeIosDevice_def intro!: shared_matches display_matches)
next
  case False
  have "whole (kv_of (snd w)) = snd w" using assms(1) False by (cases k) (auto simp: set_defs updateIosDevice_def simp del: whole_simps split: if_splits)
  then show ?thesis
  proof (rule kv_matches [OF assms(2)])
    show "view_of (\<lambda>j. last_field (kv_of (snd w)) j (jget j d)) = view_step k m (view_of (\<lambda>j. jget j d))"
      using assms(1) False by (cases k) (auto simp: set_defs updateIosDevice_def view_of_def simp del: whole_simps split: if_splits)
  qed
qed

lemma update_found: "update_first P u ds = Some r \<Longrightarrow> find P ds = Some d \<Longrightarrow> apply_set u d \<noteq> None"
  by (induction ds arbitrary: r) (auto split: if_splits)

lemma writes_refine_at:
  assumes "docs_ok (pd_devices b)" and "plain_write now k m = Some w"
  shows "device_view s (fst (db_exec (DbSet (fst w) (snd w)) b)) =
    (if s = fst w then map_option (view_step k m) (device_view s b) else device_view s b)"
proof (cases "update_first (has_serial (fst w)) (snd w) (pd_devices b)")
  case None
  obtain d where d: "find (has_serial (fst w)) (pd_devices b) = Some d" "apply_set (snd w) d = None" using update_fails_only_there [OF None] by blast
  have "is_doc d" using d(1) assms(1) by (auto simp: docs_ok_def find_Some_iff list_all_length)
  then have "view_step k m (view_of (\<lambda>j. jget j d)) = view_of (\<lambda>j. jget j d)" using plain_matches [OF assms(2)] d(2) by (force simp: view_matches_def)
  then show ?thesis using None d(1) by (simp add: device_view_def)
next
  case (Some r)
  obtain es n where r: "r = (es, n)" by force
  have p: "keeps_serial (fst w) (snd w)" using plain_paths [OF assms(2)] by (simp add: keeps_serialI)
  have docs: "list_all is_doc (pd_devices b)" using assms(1) by (simp add: docs_ok_def)
  note f = update_find [OF Some [unfolded r] p docs, of s]
  show ?thesis
  proof (cases "s = fst w \<and> find (has_serial s) (pd_devices b) \<noteq> None")
    case True
    then obtain d where d: "find (has_serial (fst w)) (pd_devices b) = Some d" by auto
    have "is_doc d" using d docs by (auto simp: find_Some_iff list_all_length)
    then have m: "view_matches (snd w) k m d" by (rule plain_matches [OF assms(2)])
    moreover have "apply_set (snd w) d \<noteq> None" by (rule update_found [OF Some d])
    ultimately show ?thesis using Some r f True d by (auto simp: device_view_def view_matches_def)
  next
    case False
    then show ?thesis using Some r f by (auto simp: device_view_def)
  qed
qed


text \<open>
  A device that is absent can have a user: when the message that somebody has joined it is written after the one that it is gone, its document says that it
  is absent and whose it is.
\<close>

theorem late_join_owns_absent_device:
  assumes "docs_ok (pd_devices b)" and "device_view s b = Some v" and "jget ''serial'' m = s" and "jget ''serial'' j = s"
    and "plain_write now (Shared DeviceAbsent) m = Some w" and "plain_write now' (Shared JoinGroup) j = Some w'"
  shows "\<exists>v'. device_view s (fst (db_exec (DbSet (fst w') (snd w')) (fst (db_exec (DbSet (fst w) (snd w)) b)))) = Some v' \<and>
    dv_present v' = JBool False \<and> dv_owner v' = stored (jget ''owner'' j)"
proof -
  have w: "fst w = s" "fst w' = s" using assms(3-6) by (auto simp: plain_shared_def setDeviceAbsent_def setDeviceState_def)
  have op: "op_ok (DbSet (fst w) (snd w))" using plain_paths [OF assms(5)] by (simp add: op_ok_def keeps_serialI)
  note d1 = writes_refine_at [OF assms(1,5), of s]
  note d2 = writes_refine_at [OF exec_docs [OF op assms(1)] assms(6), of s]
  show ?thesis unfolding d2 d1 using assms(2) w by simp
qed

section \<open>Order\<close>

lemma done_simps:
  "db_exec (ps ! j) (pr_db S) = (b, r) \<Longrightarrow> pr_tasks S ! i = (ps, k) \<Longrightarrow> i < length (pr_tasks S) \<Longrightarrow> j < length ps \<Longrightarrow> r \<noteq> Broken \<Longrightarrow> remove_nth j ps = [] \<Longrightarrow>
   resume now (pr_seq S) k r = (ts, os, q) \<Longrightarrow>
   pr_step opt S (Done now i j) = (S\<lparr>pr_db := b, pr_tasks := remove_nth i (pr_tasks S) @ ts, pr_seq := q\<rparr>, DbDid (ps ! j) r # os)"
  by (simp add: pr_done_step_def)

lemma set_exec: "update_first (has_serial s) u (pd_devices b) = Some (ds, n) \<Longrightarrow> db_exec (DbSet s u) b = (b\<lparr>pd_devices := ds\<rparr>, Matched n)"
  by simp

definition told_apps :: "pr_out list \<Rightarrow> pr_out list" where
  "told_apps os = filter (\<lambda>x. case x of ToApp c k m \<Rightarrow> True | _ \<Rightarrow> False) os"

lemma status_write: "plain_write now (Shared DeviceStatus) m = Some (saveDeviceStatus now (jget ''serial'' m) (jget ''status'' m))"
  by (simp add: plain_shared_def)

lemma status_exec:
  assumes "docs_ok (pd_devices b)"
  shows "\<exists>b' n. db_exec (DbSet (jget ''serial'' m) (snd (saveDeviceStatus now (jget ''serial'' m) (jget ''status'' m)))) b = (b', Matched n) \<and> docs_ok (pd_devices b') \<and>
    device_view (jget ''serial'' m) b' = map_option (view_step (Shared DeviceStatus) m) (device_view (jget ''serial'' m) b)"
proof -
  let ?w = "saveDeviceStatus now (jget ''serial'' m) (jget ''status'' m)"
  have f: "fst ?w = jget ''serial'' m" by (simp add: saveDeviceStatus_def)
  have "apply_set (snd ?w) d \<noteq> None" if "is_doc d" for d
    using apply_whole [OF that] by (force simp: saveDeviceStatus_def simp del: whole_simps)
  then obtain es n where u: "update_first (has_serial (jget ''serial'' m)) (snd ?w) (pd_devices b) = Some (es, n)"
    using update_defined [of "snd ?w" "pd_devices b"] assms by (fastforce simp: docs_ok_def)
  have op: "op_ok (DbSet (fst ?w) (snd ?w))" using plain_paths [OF status_write] by (simp add: op_ok_def keeps_serialI)
  have "db_exec (DbSet (jget ''serial'' m) (snd ?w)) b = (b\<lparr>pd_devices := es\<rparr>, Matched n)" using u by simp
  then show ?thesis using exec_docs [OF op assms] writes_refine_at [OF assms status_write, of "jget ''serial'' m" now m] unfolding f by simp
qed

text \<open>
  The last status that browsers are told need not be the one that stays: the two writes of a device that reports twice are both under
  way, and the database may take the newer one first.
\<close>

theorem older_status_may_stay:
  assumes "docs_ok (pd_devices b)" and "device_view s b = Some v" and "jget ''serial'' m1 = s" and "jget ''serial'' m2 = s"
  shows "told_apps (snd (run (pr_step opt) (pr_new b) [FromDev t1 c (Shared DeviceStatus) m1, FromDev t2 c (Shared DeviceStatus) m2, Done t3 1 0, Done t4 0 0])) =
      [ToApp c (Shared DeviceStatus) m1, ToApp c (Shared DeviceStatus) m2] \<and>
    map_option dv_status (device_view s (pr_db (fst (run (pr_step opt) (pr_new b)
      [FromDev t1 c (Shared DeviceStatus) m1, FromDev t2 c (Shared DeviceStatus) m2, Done t3 1 0, Done t4 0 0])))) = Some (stored (jget ''status'' m1))"
proof -
  let ?u1 = "snd (saveDeviceStatus t1 s (jget ''status'' m1))" and ?u2 = "snd (saveDeviceStatus t2 s (jget ''status'' m2))"
  have h: "pr_handle opt t c (Shared DeviceStatus) m =
      ([([DbSet (jget ''serial'' m) (snd (saveDeviceStatus t (jget ''serial'' m) (jget ''status'' m)))], Forget)], [ToApp c (Shared DeviceStatus) m])" for t m
    by (auto simp: pr_handle_def just_passed_def plain_shared_def write_plain_def events_of_def write_awaited_def tells_def passed_on_def saveDeviceStatus_def)
  obtain b2 n2 where b2: "db_exec (DbSet s ?u2) b = (b2, Matched n2)" "docs_ok (pd_devices b2)" "device_view s b2 = Some (view_step (Shared DeviceStatus) m2 v)"
    using status_exec [OF assms(1), of m2 t2] assms(2,4) by auto
  obtain b1 n1 where b1: "db_exec (DbSet s ?u1) b2 = (b1, Matched n1)" "device_view s b1 = Some (view_step (Shared DeviceStatus) m1 (view_step (Shared DeviceStatus) m2 v))"
    using status_exec [OF b2(2), of m1 t1] b2(3) assms(3) by auto
  show ?thesis
    using b1 b2 assms(3,4) by (simp add: run_fst run_snd h pr_new_def pr_done_step_def remove_nth_def told_apps_def del: db_exec.simps)
qed

lemma present_exec:
  assumes "docs_ok (pd_devices b)"
  shows "\<exists>b' n. db_exec (DbSet s (snd (setDevicePresent t s))) b = (b', Matched n) \<and> docs_ok (pd_devices b')"
proof -
  have p: "paths_ok (snd (setDevicePresent t s))" "keeps_serial s (snd (setDevicePresent t s))"
    by (auto simp: setDevicePresent_def intro!: keeps_serialI)
  have "apply_set (snd (setDevicePresent t s)) d \<noteq> None" if "is_doc d" for d
    using apply_whole [OF that] by (force simp: setDevicePresent_def simp del: whole_simps)
  then obtain es n where u: "update_first (has_serial s) (snd (setDevicePresent t s)) (pd_devices b) = Some (es, n)"
    using update_defined [of "snd (setDevicePresent t s)" "pd_devices b"] assms by (fastforce simp: docs_ok_def)
  have "op_ok (DbSet s (snd (setDevicePresent t s)))" using p by (simp add: op_ok_def)
  then show ?thesis using exec_docs [OF _ assms] u by fastforce
qed

definition revival :: "(nat \<Rightarrow> rat) \<Rightarrow> channel \<Rightarrow> channel \<Rightarrow> js \<Rightarrow> js \<Rightarrow> pr_event list" where
  "revival t c g q m = [FromDev (t 0) c DeadDevices q, Done (t 1) 0 0, FromDev (t 2) g (Shared DevicePresent) m, Done (t 3) 0 0, FromDev (t 4) g DeleteDev m, Done (t 5) 0 0]"

text \<open>
  A device that has come back is deleted all the same: between the answer that lists it as dead and the message that deletes it
  nothing looks whether it is present again, although the browsers have been told so.
\<close>

theorem revived_device_is_deleted:
  assumes "docs_ok (pd_devices b)" and "d \<in> set (getDeadDevice (dead_bound (t 0) (jget ''time'' q)) (pd_devices b))" and "jget ''serial'' m = jget ''serial'' d"
  shows "\<exists>ds. d \<in> set ds \<and> okay_reply c 0 (JObj [(''deadDevices'', JArr (map (\<lambda>d. JObj (picked [''serial'', ''present'', ''presenceChangedAt''] d)) ds))])
      \<in> set (snd (run (pr_step opt) (pr_new b) (revival t c g q m))) \<and>
    ToApp g (Shared DevicePresent) m \<in> set (snd (run (pr_step opt) (pr_new b) (revival t c g q m))) \<and>
    loadDeviceBySerial (jget ''serial'' d) (pd_devices (pr_db (fst (run (pr_step opt) (pr_new b) (revival t c g q m))))) = None"
proof -
  have h1: "pr_handle opt (t 0) c DeadDevices q = ([([DbDead (dead_bound (t 0) (jget ''time'' q))], DeadList c)], [])"
    by (auto simp: pr_handle_def just_passed_def)
  have h2: "pr_handle opt (t 2) g (Shared DevicePresent) m =
      ([([DbSet (jget ''serial'' m) (snd (setDevicePresent (t 2) (jget ''serial'' m)))], Tell [ToApp g (Shared DevicePresent) m])], [])"
    by (auto simp: pr_handle_def just_passed_def plain_shared_def write_plain_def events_of_def write_awaited_def tells_def passed_on_def setDevicePresent_def)
  have h3: "pr_handle opt (t 4) g DeleteDev m = ([([DbDelete (jget ''serial'' m)], Forget)], [])" by (auto simp: pr_handle_def just_passed_def)
  obtain b' n where b': "db_exec (DbSet (jget ''serial'' m) (snd (setDevicePresent (t 2) (jget ''serial'' m)))) b = (b', Matched n)" "docs_ok (pd_devices b')"
    using present_exec [OF assms(1)] by blast
  have "loadDeviceBySerial (jget ''serial'' d) (deleteDevice (jget ''serial'' d) (pd_devices b')) = None"
    using delete_find b'(2) by (simp add: docs_ok_def loadDeviceBySerial_def deleteDevice_def)
  then show ?thesis using assms(2,3) b'(1)
    by (intro exI [of _ "getDeadDevice (dead_bound (t 0) (jget ''time'' q)) (pd_devices b)"])
      (simp add: revival_def run_fst run_snd h1 h2 h3 pr_new_def pr_done_step_def remove_nth_def del: db_exec.simps(1))
qed

text \<open>
  A message with the new data of a device of the other platform ends in an exception: its class has no field \<open>options\<close>, which the listener reads.
\<close>

theorem ios_update_throws:
  assumes "jget ''options'' m = JUndef"
  shows "pr_step opt S (FromDev now c UpdateIos m) = (S, [Threw])"
  using assms by (auto simp: pr_handle_def just_passed_def updateIosDevice_def nullish_def)

lemma update_none: "\<not> list_ex P ds \<Longrightarrow> update_first P u ds = Some (ds, 0)"
  by (induction ds) auto

lemma run_case: "run step s (e # es) = (case step s e of (s', os) \<Rightarrow> (case run step s' es of (s'', os') \<Rightarrow> (s'', os @ os')))"
  by (simp add: Let_def split: prod.splits)

lemma done_first:
  "pr_step opt \<lparr>pr_db = b, pr_tasks = ([p], k) # rest, pr_seq = q\<rparr> (Done now 0 0) =
     (case db_exec p b of (b', r) \<Rightarrow>
        if r = Broken then (\<lparr>pr_db = b', pr_tasks = rest, pr_seq = q\<rparr>, DbDid p r # failed k)
        else (case resume now q k r of (ts, os, q') \<Rightarrow> (\<lparr>pr_db = b', pr_tasks = rest @ ts, pr_seq = q'\<rparr>, DbDid p r # os)))"
  by (auto simp: pr_done_step_def remove_nth_def Let_def split: prod.splits)

definition overlap :: "(nat \<Rightarrow> rat) \<Rightarrow> channel \<Rightarrow> js \<Rightarrow> js \<Rightarrow> pr_event list" where
  "overlap t c m1 m2 = [FromDev (t 0) c (Shared DeviceIntroduction) m1, FromDev (t 1) c (Shared DeviceIntroduction) m2] @ map (\<lambda>i. Done (t i) 0 0) [2..<10]"

text \<open>
  Two introductions of a device that nobody has seen, by two providers at a time: both miss the document, the second one that inserts
  it fails on the unique index, and its provider is never answered.
\<close>

theorem overlapping_introduction_is_lost:
  assumes "jget ''serial'' m1 = JStr s" and "jget ''serial'' m2 = JStr s" and "\<not> list_ex (has_serial (JStr s)) (pd_devices b)"
    and "root_group (pd_groups b) = Some g" and "\<not> nullish (jget ''provider'' m1)"
  shows "Rejected \<in> set (snd (run (pr_step opt) (pr_new b) (overlap t c m1 m2))) \<and> pr_tasks (fst (run (pr_step opt) (pr_new b) (overlap t c m1 m2))) = [] \<and>
    filter (\<lambda>x. case x of ToDev ch cls m \<Rightarrow> True | _ \<Rightarrow> False) (snd (run (pr_step opt) (pr_new b) (overlap t c m1 m2))) =
      [ToDev (jstr (jget ''channel'' (jget ''provider'' m1))) ''DeviceRegisteredMessage'' (JObj (picked [''serial''] m1))]"
proof -
  have h: "pr_handle opt now c (Shared DeviceIntroduction) m = (save_first (initial_fields now m) (jget ''serial'' m) (Announce c m), [])" for now m
    by (auto simp: pr_handle_def just_passed_def plain_shared_def)
  have u: "update_first (has_serial (JStr s)) u (pd_devices b) = Some (pd_devices b, 0)" for u using assms(3) by (rule update_none)
  have e: "overlap t c m1 m2 = [FromDev (t 0) c (Shared DeviceIntroduction) m1, FromDev (t 1) c (Shared DeviceIntroduction) m2, Done (t 2) 0 0, Done (t 3) 0 0,
      Done (t 4) 0 0, Done (t 5) 0 0, Done (t 6) 0 0, Done (t 7) 0 0, Done (t 8) 0 0, Done (t 9) 0 0]"
    by (simp add: overlap_def upt_rec)
  show ?thesis using assms
    by (simp add: e run_case done_first h u save_first_def pr_new_def insert_doc_def has_serial_def announce_def
        del: run.simps(2) pr_step.simps(3))
qed

section \<open>What the browsers see\<close>

text \<open>The processor and the unit of the sockets: what the one passes on is what the other receives.\<close>

fun to_browsers :: "string \<Rightarrow> ws_unit \<Rightarrow> pr_out \<Rightarrow> ws_unit \<times> ws_out list" where
  "to_browsers admin U (ToApp c (Shared k) m) = ws_step admin U (WireIn c k m)"
| "to_browsers admin U x = (U, [])"

lemma wire_from: "y \<in> set (snd (wire_in c k m U)) \<Longrightarrow> \<exists>n V. y \<in> set (snd (on_message n c k m V))"
proof -
  have "y \<in> set (snd (foldl (\<lambda>(V, out) n. let r = on_message n c k m V in (fst r, out @ snd r)) (V, out) ns)) \<Longrightarrow>
      y \<in> set out \<or> (\<exists>n V. y \<in> set (snd (on_message n c k m V)))" for V out ns
    by (induction ns arbitrary: V out) (fastforce simp: Let_def)+
  then show "y \<in> set (snd (wire_in c k m U)) \<Longrightarrow> ?thesis" by (fastforce simp: wire_in_def split: if_splits)
qed




text \<open>
  Introductions show nothing: their class has no group, and the listener of the sockets only adds a device whose message has one.
\<close>

theorem introductions_show_nothing:
  assumes "jget ''group'' m = JUndef"
  shows "snd (to_browsers admin U (ToApp c (Shared DeviceIntroduction) m)) = []"
proof -
  have "snd (on_message n c DeviceIntroduction m V) = []" for n V using assms by (simp add: on_introduction_def one_of_def jget_def)
  then have "y \<notin> set (snd (wire_in c DeviceIntroduction m U))" for y using wire_from [of y c DeviceIntroduction m U] by auto
  then have "snd (wire_in c DeviceIntroduction m U) = []" by (metis list.set_intros(1) neq_Nil_conv)
  then show ?thesis by simp
qed

section \<open>Instances\<close>

definition sample_opts :: pr_opts where
  "sample_opts = \<lparr>po_env = \<lparr>ADMIN_EMAIL = [], ADMIN_NAME = []\<rparr>, po_ip = []\<rparr>"

definition sample_msg :: js where
  "sample_msg = JObj [(''serial'', JStr ''s'')]"

definition sample_db :: pdb where
  "sample_db = \<lparr>pd_devices = [JObj [(''serial'', JStr ''s'')]], pd_groups = [], pd_users = [], pd_vnc = [], pd_stats = []\<rparr>"


lemma sample_serial: "jget ''serial'' sample_msg = JStr ''s''"
  by (simp add: sample_msg_def)

definition sample_write :: "ws_kind \<Rightarrow> db_op" where
  "sample_write k = (case plain_shared 0 k sample_msg of Some w \<Rightarrow> DbSet (fst w) (snd w) | None \<Rightarrow> DbRoot)"

lemma proc_sample_run:
  assumes "k \<in> {DevicePresent, DeviceAbsent}"
  shows "snd (run (pr_step sample_opts) (pr_new sample_db) [FromDev 0 GLOBAL (Shared k) sample_msg, Done 1 0 0]) =
    [DbDid (sample_write k) (Matched 1), ToApp GLOBAL (Shared k) sample_msg]"
proof -
  have h: "pr_handle sample_opts 0 GLOBAL (Shared k) sample_msg = ([([sample_write k], Tell [ToApp GLOBAL (Shared k) sample_msg])], [])"
    using assms by (auto simp: pr_handle_def just_passed_def plain_shared_def write_plain_def events_of_def write_awaited_def tells_def passed_on_def sample_write_def)
  have u: "\<exists>ds. update_first (has_serial (JStr ''s'')) (whole kv) (pd_devices sample_db) = Some (ds, 1)" for kv
    using apply_whole [of "JObj [(''serial'', JStr ''s'')]" kv] by (auto simp: sample_db_def has_serial_def)
  obtain kv where w: "sample_write k = DbSet (JStr ''s'') (whole kv)"
    using assms by (auto simp: sample_write_def plain_shared_def sample_serial setDevicePresent_def setDeviceAbsent_def simp del: whole_simps)
  obtain ds where "update_first (has_serial (JStr ''s'')) (whole kv) (pd_devices sample_db) = Some (ds, 1)" using u by blast
  then have "\<exists>b. db_exec (sample_write k) sample_db = (b, Matched 1)" by (simp add: w)
  then show ?thesis by (auto simp: run_case done_first h pr_new_def simp del: run.simps(2) pr_step.simps(3))
qed

theorem told_after_written_witness:
  "just_told [DbDid (sample_write DevicePresent) (Matched 1)] (ToApp GLOBAL (Shared DevicePresent) sample_msg)"
  by (rule told_after_written [of sample_opts sample_db "[FromDev 0 GLOBAL (Shared DevicePresent) sample_msg, Done 1 0 0]" _ _ "[]"])
    (simp add: proc_sample_run del: run.simps)




end
