(* ===== verification/Forwarding.thy ===== *)
theory Forwarding imports Screen_Stream begin

text \<open>
  Reverse port forwarding (\<open>lib/units/device/plugins/forward/\<close>). The device side of a forwarded port sends all its
  connections over one stream, in packets with a header of four bytes: \<open>util/reader.js\<close> takes the packets apart,
  \<open>util/writer.js\<close> makes them, \<open>util/manager.js\<close> keeps the forwards and a connection to the target host for each
  connection of the device, and \<open>index.js\<close> serves the requests. Handlers and connections are numbered in the order they are made;
  what a socket does on its own is an event. Back-pressure (\<open>drain\<close>) is left out: what is written is written at once.
\<close>

section \<open>The reader\<close>

text \<open>\<open>buf.copy\<close>: as many bytes as there are in the source range and as fit into the target.\<close>

definition buf_copy :: "byte list \<Rightarrow> byte list \<Rightarrow> nat \<Rightarrow> nat \<Rightarrow> nat \<Rightarrow> byte list" where
  "buf_copy src target at from till =
     (let bs = take (length target - at) (drop from (take till src)) in take at target @ bs @ drop (at + length bs) target)"

datatype fwd_packet = Data nat "byte list" | Fin nat

record fwd_reader =
  rd_header :: "byte list"
  rd_need :: int
  rd_target :: nat

definition rd_new :: fwd_reader where
  "rd_new = \<lparr>rd_header = [0, 0, 0, 0], rd_need = -4, rd_target = 0\<rparr>"

definition take_header :: "byte list \<Rightarrow> nat \<Rightarrow> fwd_reader \<Rightarrow> fwd_reader" where
  "take_header c cursor s = s\<lparr>rd_header := buf_copy c (rd_header s) (nat (4 + rd_need s)) cursor (cursor + nat (- rd_need s))\<rparr>"

text \<open>
  The loop of \<open>_transform\<close>. Bytes of a header that do not make it complete are copied, and the number of bytes that are missing stays as it is.
\<close>

function rd_loop :: "byte list \<Rightarrow> nat \<Rightarrow> fwd_reader \<Rightarrow> fwd_reader \<times> fwd_packet list" where
  "rd_loop c cursor s =
     (if length c \<le> cursor then (s, [])
      else if rd_need s < 0 then
        (if int (length c) < - rd_need s then (take_header c cursor s, [])
         else
           (let s1 = take_header c cursor s; t = le (take 2 (rd_header s1)); n = le (take 2 (drop 2 (rd_header s1)));
                cursor1 = cursor + nat (- rd_need s) in
            if n = 0 then (let r = rd_loop c cursor1 (s1\<lparr>rd_target := t, rd_need := -4\<rparr>) in (fst r, Fin t # snd r))
            else rd_loop c cursor1 (s1\<lparr>rd_target := t, rd_need := int n\<rparr>)))
      else (let diff = length c - cursor; n = nat (rd_need s) in
        if n \<le> diff then
          (let r = rd_loop c (cursor + n) (s\<lparr>rd_need := -4\<rparr>) in (fst r, Data (rd_target s) (take n (drop cursor c)) # snd r))
        else
          (let r = rd_loop c (cursor + diff) (s\<lparr>rd_need := rd_need s - int diff\<rparr>) in
           (fst r, Data (rd_target s) (drop cursor c) # snd r))))"
  by pat_completeness auto
termination
  by (relation "measures [\<lambda>(c, cursor, s). length c - cursor, \<lambda>(c, cursor, s). if rd_need s < 0 then 0 else 1]") auto

declare rd_loop.simps [simp del]

definition rd_transform :: "fwd_reader \<Rightarrow> byte list \<Rightarrow> fwd_reader \<times> fwd_packet list" where
  "rd_transform s c = rd_loop c 0 s"

section \<open>The writer\<close>

text \<open>\<open>_transform\<close> of the writer: packets of at most 65535 bytes; an empty chunk makes an empty packet. \<open>_flush\<close>: the final one.\<close>

definition packet_bytes :: "nat \<Rightarrow> byte list \<Rightarrow> byte list" where
  "packet_bytes t b = put_le 2 t @ put_le 2 (length b) @ b"

function wr_chunk :: "nat \<Rightarrow> byte list \<Rightarrow> byte list" where
  "wr_chunk t c =
     (let n = min 65535 (length c) in
      packet_bytes t (take n c) @ (if drop n c = [] then [] else wr_chunk t (drop n c)))"
  by pat_completeness auto
termination
  by (relation "measure (\<lambda>(t, c). length c)") auto

declare wr_chunk.simps [simp del]

definition wr_flush :: "nat \<Rightarrow> byte list" where
  "wr_flush t = packet_bytes t []"

section \<open>What a stream of packets carries\<close>

text \<open>Byte by byte: the connection with a byte of data, or with the end.\<close>

fun carried :: "fwd_packet \<Rightarrow> (nat \<times> byte option) list" where
  "carried (Data t b) = map (\<lambda>x. (t, Some x)) b"
| "carried (Fin t) = [(t, None)]"

definition content :: "fwd_packet list \<Rightarrow> (nat \<times> byte option) list" where
  "content ps = concat (map carried ps)"

fun wire_of :: "fwd_packet \<Rightarrow> byte list" where
  "wire_of (Data t b) = packet_bytes t b"
| "wire_of (Fin t) = packet_bytes t []"

fun packet_ok :: "fwd_packet \<Rightarrow> bool" where
  "packet_ok (Data t b) = (t < 65536 \<and> b \<noteq> [] \<and> length b < 65536)"
| "packet_ok (Fin t) = (t < 65536)"

definition packet_body :: "fwd_packet \<Rightarrow> byte list" where
  "packet_body p = (case p of Data t b \<Rightarrow> b | Fin t \<Rightarrow> [])"

definition target_of :: "fwd_packet \<Rightarrow> nat" where
  "target_of p = (case p of Data t b \<Rightarrow> t | Fin t \<Rightarrow> t)"

text \<open>A position of the stream is inside a header.\<close>

fun in_header :: "fwd_packet list \<Rightarrow> nat \<Rightarrow> bool" where
  "in_header [] n = False"
| "in_header (p # ps) n =
     (if n = 0 then False else if n < 4 then True
      else if n < 4 + length (packet_body p) then False else in_header ps (n - (4 + length (packet_body p))))"

lemma length_packet [simp]: "length (packet_bytes t b) = 4 + length b"
  by (simp add: packet_bytes_def)

lemma wire_of_body: "wire_of p = packet_bytes (target_of p) (packet_body p)"
  by (cases p) (simp_all add: target_of_def packet_body_def)

lemma content_simps [simp]: "content [] = []" "content (p # ps) = carried p @ content ps" "content (ps @ qs) = content ps @ content qs"
  by (simp_all add: content_def)

section \<open>Streams that are not cut inside a header\<close>

text \<open>
  \<open>rd_at s r qs\<close>: the reader is in front of the packets \<open>qs\<close>, after \<open>r\<close>, the rest of the body it is in. \<open>to_come\<close> is what is
  still to come, \<open>cuts_header\<close> says that a position ahead is inside a header.
\<close>

definition rd_at :: "fwd_reader \<Rightarrow> byte list \<Rightarrow> fwd_packet list \<Rightarrow> bool" where
  "rd_at s r qs \<longleftrightarrow> length (rd_header s) = 4 \<and> list_all packet_ok qs \<and> rd_need s = (if r = [] then -4 else int (length r))"

definition to_come :: "nat \<Rightarrow> byte list \<Rightarrow> fwd_packet list \<Rightarrow> (nat \<times> byte option) list" where
  "to_come t r qs = map (\<lambda>x. (t, Some x)) r @ content qs"

definition cuts_header :: "byte list \<Rightarrow> fwd_packet list \<Rightarrow> nat \<Rightarrow> bool" where
  "cuts_header r qs p = in_header qs (p - length r)"

lemma cut_header: "cuts_header [] (q # qs) (4 + p) = cuts_header (packet_body q) qs p"
proof -
  have "in_header qs (p - length (packet_body q)) = False" if "p < length (packet_body q)"
    using that by (cases qs) simp_all
  then show ?thesis by (auto simp: cuts_header_def)
qed

lemma cut_body: "k \<le> length r \<Longrightarrow> cuts_header (drop k r) qs p = cuts_header r qs (k + p)"
  by (simp add: cuts_header_def add.commute)

lemma header_read:
  assumes "length hdr = 4" and "length p = 4" and "drop cursor c = p @ x"
  shows "buf_copy c hdr 0 cursor (cursor + 4) = p"
proof -
  have "length c - cursor = 4 + length x" using arg_cong [OF assms(3), of length] assms(2) by simp
  then have l: "cursor + 4 \<le> length c" by linarith
  have "drop cursor (take (cursor + 4) c) = take 4 (drop cursor c)" by (simp add: drop_take)
  also have "\<dots> = p" using assms(2,3) by simp
  finally show ?thesis using assms(1,2) by (simp add: buf_copy_def Let_def)
qed

lemma le_2: "n < 65536 \<Longrightarrow> le (put_le 2 n) = n"
  by (rule le_put_le) simp

lemma carried_body: "packet_ok q \<Longrightarrow> packet_body q \<noteq> [] \<Longrightarrow> carried q = map (\<lambda>x. (target_of q, Some x)) (packet_body q)"
  "packet_ok q \<Longrightarrow> packet_body q = [] \<Longrightarrow> carried q = [(target_of q, None)]"
  by (cases q; simp add: packet_body_def target_of_def)+

lemma packet_ok_bounds: "packet_ok q \<Longrightarrow> target_of q < 65536 \<and> length (packet_body q) < 65536"
  by (cases q) (simp_all add: packet_body_def target_of_def)

text \<open>
  One turn of the loop: a header, or what there is of a body. \<open>reader_turn\<close> relates the state in front of the turn with the one behind it.
\<close>

definition reader_turn :: "byte list \<Rightarrow> byte list \<Rightarrow> nat \<Rightarrow> fwd_reader \<Rightarrow> byte list \<Rightarrow> fwd_packet list \<Rightarrow>
    nat \<Rightarrow> fwd_reader \<Rightarrow> byte list \<Rightarrow> fwd_packet list \<Rightarrow> fwd_packet list \<Rightarrow> bool" where
  "reader_turn c w k s r qs k1 s1 r1 qs1 ps \<longleftrightarrow> k < k1 \<and> k1 \<le> length c \<and>
     rd_loop c k s = (fst (rd_loop c k1 s1), ps @ snd (rd_loop c k1 s1)) \<and> rd_at s1 r1 qs1 \<and>
     drop k1 c @ w = r1 @ concat (map wire_of qs1) \<and> content ps @ to_come (rd_target s1) r1 qs1 = to_come (rd_target s) r qs \<and>
     (\<forall>p. cuts_header r1 qs1 (length c - k1 + p) = cuts_header r qs (length c - k + p))"

lemma header_turn:
  assumes at: "rd_at s [] qs" and str: "drop k c @ w = concat (map wire_of qs)" and nc: "\<not> cuts_header [] qs (length c - k)" and here: "k < length c"
  shows "\<exists>k1 s1 r1 qs1 ps. reader_turn c w k s [] qs k1 s1 r1 qs1 ps"
proof -
  have need: "rd_need s = -4" "length (rd_header s) = 4" using at by (simp_all add: rd_at_def)
  obtain q qs1 where q: "qs = q # qs1" using str here by (cases qs) auto
  have ok: "packet_ok q" "list_all packet_ok qs1" using at q by (simp_all add: rd_at_def)
  have d: "4 \<le> length c - k" using nc here q by (auto simp: cuts_header_def split: if_splits)
  have d4: "4 \<le> length c" using d by linarith
  let ?h = "put_le 2 (target_of q) @ put_le 2 (length (packet_body q))"
  have dc: "drop k c @ w = ?h @ packet_body q @ concat (map wire_of qs1)" using str q by (simp add: wire_of_body packet_bytes_def)
  have "take 4 (drop k c) = take 4 (drop k c @ w)" using d by simp
  also have "\<dots> = ?h" unfolding dc by simp
  finally have hx: "drop k c = ?h @ drop 4 (drop k c)" by (metis append_take_drop_id)
  let ?s1 = "take_header c k s"
  let ?n = "length (packet_body q)"
  have s1: "rd_header ?s1 = ?h" using header_read [OF need(2) _ hx] need(1) by (simp add: take_header_def)
  have hdr: "le (take 2 (rd_header ?s1)) = target_of q" "le (take 2 (drop 2 (rd_header ?s1))) = ?n"
    unfolding s1 using packet_ok_bounds [OF ok(1)] by (simp_all add: le_2)
  let ?s2 = "?s1\<lparr>rd_target := target_of q, rd_need := (if ?n = 0 then -4 else int ?n)\<rparr>"
  let ?ps = "if ?n = 0 then [Fin (target_of q)] else []"
  have loop: "rd_loop c k s = (fst (rd_loop c (k + 4) ?s2), ?ps @ snd (rd_loop c (k + 4) ?s2))"
    using here d4 need(1) hdr by (subst rd_loop.simps) (simp add: Let_def)
  have rest: "drop (k + 4) c @ w = packet_body q @ concat (map wire_of qs1)"
  proof -
    have "drop 4 (drop k c @ w) = drop 4 (?h @ packet_body q @ concat (map wire_of qs1))" unfolding dc ..
    then show ?thesis using d by (simp add: add.commute)
  qed
  have cuts: "cuts_header (packet_body q) qs1 (length c - (k + 4) + p) = cuts_header [] qs (length c - k + p)" for p
    using cut_header [of q qs1 "length c - (k + 4) + p"] d q by (simp add: ac_simps)
  have "reader_turn c w k s [] qs (k + 4) ?s2 (packet_body q) qs1 ?ps"
    unfolding reader_turn_def using loop rest cuts d here ok s1 q carried_body [OF ok(1)] by (auto simp: rd_at_def to_come_def)
  then show ?thesis by blast
qed

lemma body_turn:
  assumes at: "rd_at s r qs" and str: "drop k c @ w = r @ concat (map wire_of qs)" and r: "r \<noteq> []" and here: "k < length c"
  shows "\<exists>k1 s1 r1 qs1 ps. reader_turn c w k s r qs k1 s1 r1 qs1 ps"
proof -
  have need: "rd_need s = int (length r)" "0 < length r" using at r by (simp_all add: rd_at_def)
  let ?n = "min (length r) (length c - k)"
  let ?s1 = "s\<lparr>rd_need := (if length r \<le> length c - k then -4 else rd_need s - int (length c - k))\<rparr>"
  have tk: "take ?n (drop k c) = take ?n r"
  proof -
    have "take ?n (drop k c) = take ?n (drop k c @ w)" by simp
    then show ?thesis unfolding str by simp
  qed
  have loop: "rd_loop c k s = (fst (rd_loop c (k + ?n) ?s1), [Data (rd_target s) (take ?n r)] @ snd (rd_loop c (k + ?n) ?s1))"
    unfolding tk [symmetric] using here need by (subst rd_loop.simps) (simp add: Let_def min_def)
  have rest: "drop (k + ?n) c @ w = drop ?n r @ concat (map wire_of qs)"
  proof -
    have "drop ?n (drop k c @ w) = drop ?n (r @ concat (map wire_of qs))" unfolding str ..
    then show ?thesis by (simp add: add.commute)
  qed
  have "map (\<lambda>x. (t, Some x)) (take ?n r) @ map (\<lambda>x. (t, Some x)) (drop ?n r) = map (\<lambda>x. (t, Some x)) r" for t :: nat
    by (metis append_take_drop_id map_append)
  moreover have "cuts_header (drop ?n r) qs (length c - (k + ?n) + p) = cuts_header r qs (length c - k + p)" for p
    using cut_body [of ?n r qs "length c - (k + ?n) + p"] here by (simp add: min_def split: if_splits)
  ultimately have "reader_turn c w k s r qs (k + ?n) ?s1 (drop ?n r) qs [Data (rd_target s) (take ?n r)]"
    unfolding reader_turn_def using loop rest here need at by (auto simp: rd_at_def to_come_def)
  then show ?thesis by blast
qed

lemma rd_loop_reads:
  "rd_at s r qs \<Longrightarrow> drop k c @ w = r @ concat (map wire_of qs) \<Longrightarrow> \<not> cuts_header r qs (length c - k) \<Longrightarrow>
   \<exists>s' out r' qs'. rd_loop c k s = (s', out) \<and> rd_at s' r' qs' \<and> w = r' @ concat (map wire_of qs') \<and>
     content out @ to_come (rd_target s') r' qs' = to_come (rd_target s) r qs \<and> (\<forall>p. cuts_header r' qs' p = cuts_header r qs (length c - k + p))"
proof (induction "length c - k" arbitrary: k s r qs rule: less_induct)
  case less
  show ?case
  proof (cases "length c \<le> k")
    case True
    then show ?thesis using less.prems by (intro exI [of _ s] exI [of _ "[]"] exI [of _ r] exI [of _ qs]) (simp add: rd_loop.simps [of c k s])
  next
    case False
    then obtain k1 s1 r1 qs1 ps where t: "reader_turn c w k s r qs k1 s1 r1 qs1 ps"
      using header_turn [of s qs k c w] body_turn [of s r qs k c w] less.prems by (cases "r = []") auto
    then have u: "k < k1" "k1 \<le> length c" "rd_loop c k s = (fst (rd_loop c k1 s1), ps @ snd (rd_loop c k1 s1))" "rd_at s1 r1 qs1"
      "drop k1 c @ w = r1 @ concat (map wire_of qs1)" "content ps @ to_come (rd_target s1) r1 qs1 = to_come (rd_target s) r qs"
      "\<And>p. cuts_header r1 qs1 (length c - k1 + p) = cuts_header r qs (length c - k + p)" by (auto simp: reader_turn_def)
    have "\<not> cuts_header r1 qs1 (length c - k1)" using u(7) [of 0] less.prems(3) by simp
    moreover have "length c - k1 < length c - k" using False u(1) by linarith
    ultimately obtain s' out r' qs' where
      x: "rd_loop c k1 s1 = (s', out)" "rd_at s' r' qs'" "w = r' @ concat (map wire_of qs')"
        "content out @ to_come (rd_target s') r' qs' = to_come (rd_target s1) r1 qs1" "\<forall>p. cuts_header r' qs' p = cuts_header r1 qs1 (length c - k1 + p)"
      using less.hyps [OF _ u(4,5)] by blast
    have "content (ps @ out) @ to_come (rd_target s') r' qs' = to_come (rd_target s) r qs" using x(4) u(6) by simp
    then show ?thesis using u(3,7) x
      by (intro exI [of _ s'] exI [of _ "ps @ out"] exI [of _ r'] exI [of _ qs']) simp
  qed
qed

text \<open>A stream in chunks: the reader keeps its state from one to the next.\<close>

fun rd_all :: "fwd_reader \<Rightarrow> byte list list \<Rightarrow> fwd_packet list" where
  "rd_all s [] = []"
| "rd_all s (c # cs) = (let r = rd_transform s c in snd r @ rd_all (fst r) cs)"

text \<open>No chunk of the stream ends inside a header.\<close>

definition headers_whole :: "fwd_packet list \<Rightarrow> byte list list \<Rightarrow> bool" where
  "headers_whole ps cs \<longleftrightarrow> (\<forall>i\<le>length cs. \<not> in_header ps (length (concat (take i cs))))"

lemma all_le_Suc: "(\<forall>i\<le>Suc n. P i) \<longleftrightarrow> P 0 \<and> (\<forall>i\<le>n. P (Suc i))"
  by (metis Suc_le_mono not0_implies_Suc le0)

lemma wire_nonempty: "wire_of p \<noteq> []"
  using length_packet [of "target_of p" "packet_body p"] by (fastforce simp: wire_of_body simp del: length_packet)

lemma rd_all_reads:
  "rd_at s r qs \<Longrightarrow> concat cs = r @ concat (map wire_of qs) \<Longrightarrow> (\<And>i. i \<le> length cs \<Longrightarrow> \<not> cuts_header r qs (length (concat (take i cs)))) \<Longrightarrow>
   content (rd_all s cs) = to_come (rd_target s) r qs"
proof (induction cs arbitrary: s r qs)
  case Nil
  then show ?case by (cases qs) (simp_all add: to_come_def wire_nonempty)
next
  case (Cons c cs)
  have "drop 0 c @ concat cs = r @ concat (map wire_of qs)" using Cons.prems(2) by simp
  moreover have "\<not> cuts_header r qs (length c - 0)" using Cons.prems(3) [of 1] by simp
  ultimately obtain s' out r' qs' where x: "rd_loop c 0 s = (s', out)" "rd_at s' r' qs'" "concat cs = r' @ concat (map wire_of qs')"
      "content out @ to_come (rd_target s') r' qs' = to_come (rd_target s) r qs"
      "\<forall>p. cuts_header r' qs' p = cuts_header r qs (length c - 0 + p)"
    using rd_loop_reads [OF Cons.prems(1)] by blast
  have "\<not> cuts_header r' qs' (length (concat (take i cs)))" if "i \<le> length cs" for i
    using Cons.prems(3) [of "Suc i"] that x(5) by simp
  then have "content (rd_all s' cs) = to_come (rd_target s') r' qs'" by (rule Cons.IH [OF x(2,3)])
  then show ?case using x(1,4) by (simp add: rd_transform_def Let_def)
qed

lemma packets_read:
  assumes "list_all packet_ok ps" and "concat cs = concat (map wire_of ps)" and "headers_whole ps cs"
  shows "content (rd_all rd_new cs) = content ps"
proof -
  have "rd_at rd_new [] ps" using assms(1) by (simp add: rd_at_def rd_new_def)
  then show ?thesis using rd_all_reads [of rd_new "[]" ps cs] assms(2,3)
    by (simp add: cuts_header_def headers_whole_def to_come_def)
qed

section \<open>Reader and writer\<close>

text \<open>
  What the connections of a forward write to the stream, in the order in which they do: a chunk, or the end, of a connection.
\<close>

type_synonym wr_item = "nat \<times> byte list option"

fun wr_event :: "wr_item \<Rightarrow> byte list" where
  "wr_event (t, Some c) = wr_chunk t c"
| "wr_event (t, None) = wr_flush t"

fun wr_said :: "wr_item \<Rightarrow> (nat \<times> byte option) list" where
  "wr_said (t, Some c) = map (\<lambda>x. (t, Some x)) c"
| "wr_said (t, None) = [(t, None)]"

function data_packets :: "nat \<Rightarrow> byte list \<Rightarrow> fwd_packet list" where
  "data_packets t c = Data t (take 65535 c) # (if drop 65535 c = [] then [] else data_packets t (drop 65535 c))"
  by pat_completeness auto
termination
  by (relation "measure (\<lambda>(t, c). length c)") auto

declare data_packets.simps [simp del]

fun event_packets :: "wr_item \<Rightarrow> fwd_packet list" where
  "event_packets (t, Some c) = data_packets t c"
| "event_packets (t, None) = [Fin t]"

lemma chunk_packets: "wr_chunk t c = concat (map wire_of (data_packets t c))"
  by (induction t c rule: data_packets.induct) (subst wr_chunk.simps, subst data_packets.simps, simp add: Let_def min_def)

lemma chunk_content: "content (data_packets t c) = map (\<lambda>x. (t, Some x)) c"
proof (induction t c rule: data_packets.induct)
  case (1 t c)
  show ?case
  proof (cases "drop 65535 c = []")
    case True
    then show ?thesis by (subst data_packets.simps) simp
  next
    case False
    then have "content (data_packets t c) = map (\<lambda>x. (t, Some x)) (take 65535 c) @ map (\<lambda>x. (t, Some x)) (drop 65535 c)"
      using 1 by (subst data_packets.simps) simp
    then show ?thesis by (metis append_take_drop_id map_append)
  qed
qed

lemma chunk_ok: "c \<noteq> [] \<Longrightarrow> t < 65536 \<Longrightarrow> list_all packet_ok (data_packets t c)"
  by (induction t c rule: data_packets.induct) (subst data_packets.simps, simp)

text \<open>A socket has a number of two bytes, and passes on no empty chunk.\<close>

fun event_ok :: "wr_item \<Rightarrow> bool" where
  "event_ok (t, Some c) = (t < 65536 \<and> c \<noteq> [])"
| "event_ok (t, None) = (t < 65536)"

definition packets_of :: "wr_item list \<Rightarrow> fwd_packet list" where
  "packets_of es = concat (map event_packets es)"

lemma event_facts:
  "wr_event e = concat (map wire_of (event_packets e))" "content (event_packets e) = wr_said e" "event_ok e \<Longrightarrow> list_all packet_ok (event_packets e)"
  by (cases e rule: wr_event.cases; simp add: chunk_packets chunk_content chunk_ok wr_flush_def)+

lemma events_facts:
  "concat (map wr_event es) = concat (map wire_of (packets_of es))" "content (packets_of es) = concat (map wr_said es)"
  "list_all event_ok es \<Longrightarrow> list_all packet_ok (packets_of es)"
  by (induction es) (simp_all add: packets_of_def event_facts)

lemma sample_whole: "headers_whole [Data 1 [7, 8], Data 2 [9], Fin 1] [[1, 0, 2, 0, 7], [8, 2, 0, 1, 0], [9, 1, 0, 0, 0]]"
  unfolding headers_whole_def by (simp add: all_le_Suc packet_body_def)

text \<open>
  C31. What the writers of any number of connections put on the stream, in any interleaving of their chunks, is what the reader
  takes off it: the same bytes for the same connections in the same order, with the end of each connection in its place, however
  large the chunks of the writers are and however the stream is cut on its way, as long as it is not cut inside a header.
\<close>

theorem tunnel_roundtrip:
  assumes "list_all event_ok es" and "concat cs = concat (map wr_event es)" and "headers_whole (packets_of es) cs"
  shows "content (rd_all rd_new cs) = concat (map wr_said es)"
  using packets_read [OF events_facts(3) [OF assms(1)] _ assms(3)] assms(2) events_facts by metis

theorem tunnel_roundtrip_witness:
  "content (rd_all rd_new [[1, 0, 2, 0, 7], [8, 2, 0, 1, 0], [9, 1, 0, 0, 0]]) = [(1, Some 7), (1, Some 8), (2, Some 9), (1, None)]"
proof -
  have w: "wr_chunk 1 [7, 8] = [1, 0, 2, 0, 7, 8]" "wr_chunk 2 [9] = [2, 0, 1, 0, 9]" "wr_flush 1 = [1, 0, 0, 0]"
    by (simp_all add: wr_chunk.simps wr_flush_def packet_bytes_def numeral_2_eq_2)
  have p: "packets_of [(1, Some [7, 8]), (2, Some [9]), (1, None)] = [Data 1 [7, 8], Data 2 [9], Fin 1]"
    by (simp add: packets_of_def data_packets.simps)
  show ?thesis
    using sample_whole tunnel_roundtrip [of "[(1, Some [7, 8]), (2, Some [9]), (1, None)]" "[[1, 0, 2, 0, 7], [8, 2, 0, 1, 0], [9, 1, 0, 0, 0]]"]
    by (simp add: w [simplified] p [simplified] del: rd_all.simps)
qed

section \<open>Streams that are cut inside a header\<close>

lemma copy_whole: "length h = 4 \<Longrightarrow> 4 \<le> length d \<Longrightarrow> buf_copy d h 0 0 4 = take 4 d"
  by (simp add: buf_copy_def Let_def)

lemma short_chunk:
  assumes "rd_need s = -4" and "length (rd_header s) = 4" and "length c < 4"
  shows "\<exists>h. rd_transform s c = (s\<lparr>rd_header := h\<rparr>, []) \<and> length h = 4"
proof (cases "c = []")
  case True
  then show ?thesis using assms(2) by (intro exI [of _ "rd_header s"]) (simp add: rd_transform_def rd_loop.simps)
next
  case False
  then have "rd_transform s c = (take_header c 0 s, [])" using assms(1,3) by (simp add: rd_transform_def rd_loop.simps [of c 0 s])
  moreover have "length (buf_copy c (rd_header s) 0 0 4) = 4" using assms(2,3) by (simp add: buf_copy_def Let_def)
  ultimately show ?thesis using assms(1) by (auto simp: take_header_def)
qed

lemma long_chunk:
  assumes "rd_need s = -4" and "length (rd_header s) = 4" and "4 \<le> length d" and "length h = 4"
  shows "rd_transform (s\<lparr>rd_header := h\<rparr>) d = rd_transform s d"
proof -
  have "take_header d 0 (s\<lparr>rd_header := h\<rparr>) = take_header d 0 s"
    using assms by (simp add: take_header_def copy_whole)
  moreover have "d \<noteq> []" using assms(3) by auto
  ultimately show ?thesis using assms(1,3) by (simp add: rd_transform_def rd_loop.simps [of d 0])
qed

text \<open>
  A chunk that ends inside a header is lost: in front of a header, a chunk of less than four bytes makes no packet, and what
  the reader makes of the next chunk (of four bytes or more) is what it makes of it when the short one never came. The part of the
  header that was kept is overwritten, as the number of bytes that are missing is not counted down.
\<close>

theorem split_header_is_lost:
  assumes "rd_need s = -4" and "length (rd_header s) = 4" and "length c < 4" and "4 \<le> length d"
  shows "rd_all s (c # d # cs) = rd_all s (d # cs)"
proof -
  obtain h where "rd_transform s c = (s\<lparr>rd_header := h\<rparr>, [])" "length h = 4" using short_chunk [OF assms(1-3)] by blast
  then show ?thesis using long_chunk [OF assms(1,2,4)] by (simp add: Let_def)
qed

text \<open>The packet with the bytes 9, 0, 8 for the connection 1, cut after two bytes: the connection 3 gets the byte 8.\<close>

theorem split_header_is_lost_witness:
  "packet_bytes 1 [9, 0, 8] = [1, 0] @ [3, 0, 9, 0, 8] \<and> rd_all rd_new [[1, 0], [3, 0, 9, 0, 8]] = [Data 3 [8]]"
proof -
  have "rd_transform rd_new [3, 0, 9, 0, 8] = (\<lparr>rd_header = [3, 0, 9, 0], rd_need = 8, rd_target = 3\<rparr>, [Data 3 [8]])"
    by (simp add: rd_transform_def rd_loop.simps rd_new_def take_header_def buf_copy_def Let_def)
  then show ?thesis using split_header_is_lost [of rd_new "[1, 0]" "[3, 0, 9, 0, 8]" "[]"]
    by (simp add: rd_new_def packet_bytes_def numeral_2_eq_2)
qed

end
