(* ===== verification/Forward_Service.thy ===== *)
theory Forward_Service imports Forwarding begin

text \<open>
  The forwards of a device (\<open>lib/units/device/plugins/forward/util/manager.js\<close> and \<open>index.js\<close>): a handler for every forward, with a
  connection to the target host for every connection of the device, the table of the forwards, and the requests. Handlers, and the
  connections of a handler, are numbered in the order they are made, and stay in a list when nothing refers to them any more: they
  are still sockets. Identifiers are not the decimal numbers that an object would put first. What is written to a stream after its end is lost.
\<close>

section \<open>A handler and its connections\<close>

record fwd_opts =
  fo_port :: nat
  fo_host :: string
  fo_target :: nat

record fwd_dest =
  de_id :: nat
  de_in :: "byte list"
  de_ended :: bool
  de_over :: bool

record fwd_handler =
  fh_id :: string
  fh_opts :: fwd_opts
  fh_reader :: fwd_reader
  fh_map :: "(nat, nat) omap"
  fh_dests :: "fwd_dest list"
  fh_out :: "byte list"
  fh_ended :: bool
  fh_over :: bool

definition dest_new :: "nat \<Rightarrow> fwd_dest" where
  "dest_new t = \<lparr>de_id = t, de_in = [], de_ended = False, de_over = False\<rparr>"

definition handler_new :: "string \<Rightarrow> fwd_opts \<Rightarrow> byte list \<Rightarrow> fwd_handler" where
  "handler_new i o' out = \<lparr>fh_id = i, fh_opts = o', fh_reader = rd_new, fh_map = [], fh_dests = [], fh_out = out, fh_ended = False, fh_over = False\<rparr>"

definition dest_write :: "byte list \<Rightarrow> fwd_dest \<Rightarrow> fwd_dest" where
  "dest_write b d = (if de_ended d then d else d\<lparr>de_in := de_in d @ b\<rparr>)"

definition dest_end :: "fwd_dest \<Rightarrow> fwd_dest" where
  "dest_end d = d\<lparr>de_ended := True\<rparr>"

definition upd_dest :: "nat \<Rightarrow> (fwd_dest \<Rightarrow> fwd_dest) \<Rightarrow> fwd_handler \<Rightarrow> fwd_handler" where
  "upd_dest i f h = h\<lparr>fh_dests := (fh_dests h)[i := f (fh_dests h ! i)]\<rparr>"

text \<open>\<open>packetListener\<close>.\<close>

fun packet_in :: "fwd_handler \<Rightarrow> fwd_packet \<Rightarrow> fwd_handler" where
  "packet_in h (Data t b) =
     (case om_get (fh_map h) t of
        Some i \<Rightarrow> upd_dest i (dest_write b) h
      | None \<Rightarrow> h\<lparr>fh_dests := fh_dests h @ [dest_write b (dest_new t)], fh_map := om_set t (length (fh_dests h)) (fh_map h)\<rparr>)"
| "packet_in h (Fin t) = (case om_get (fh_map h) t of Some i \<Rightarrow> upd_dest i dest_end h | None \<Rightarrow> h)"

definition conn_data :: "byte list \<Rightarrow> fwd_handler \<Rightarrow> fwd_handler" where
  "conn_data c h = (let r = rd_transform (fh_reader h) c in foldl packet_in (h\<lparr>fh_reader := fst r\<rparr>) (snd r))"

definition conn_write :: "byte list \<Rightarrow> fwd_handler \<Rightarrow> fwd_handler" where
  "conn_write b h = (if fh_ended h then h else h\<lparr>fh_out := fh_out h @ b\<rparr>)"

text \<open>
  What the target host does: a connection has data, or it ends or fails, which ends its writer and takes it out of the table.
\<close>

definition dest_data :: "nat \<Rightarrow> byte list \<Rightarrow> fwd_handler \<Rightarrow> fwd_handler" where
  "dest_data i c h =
     (if i < length (fh_dests h) \<and> \<not> de_over (fh_dests h ! i) \<and> c \<noteq> [] then conn_write (wr_chunk (de_id (fh_dests h ! i)) c) h else h)"

definition dest_close :: "nat \<Rightarrow> fwd_handler \<Rightarrow> fwd_handler" where
  "dest_close i h =
     (if i < length (fh_dests h) \<and> \<not> de_over (fh_dests h ! i) then
        (let t = de_id (fh_dests h ! i); h1 = upd_dest i (\<lambda>d. d\<lparr>de_over := True\<rparr>) (conn_write (wr_flush t) h) in
         h1\<lparr>fh_map := om_del t (fh_map h1)\<rparr>)
      else h)"

section \<open>What the target host gets\<close>

text \<open>
  A connection as the device sees it: the bytes it has sent, and whether it has ended. The first byte opens it.
\<close>

type_synonym link = "(byte list \<times> bool) option"

fun link_item :: "link \<Rightarrow> byte option \<Rightarrow> link" where
  "link_item None (Some x) = Some ([x], False)"
| "link_item None None = None"
| "link_item (Some (b, e)) (Some x) = Some (if e then b else b @ [x], e)"
| "link_item (Some (b, e)) None = Some (b, True)"

definition link_of :: "fwd_handler \<Rightarrow> nat \<Rightarrow> link" where
  "link_of h t = map_option (\<lambda>i. (de_in (fh_dests h ! i), de_ended (fh_dests h ! i))) (om_get (fh_map h) t)"

definition for_conn :: "nat \<Rightarrow> (nat \<times> byte option) list \<Rightarrow> byte option list" where
  "for_conn t xs = map snd (filter (\<lambda>x. fst x = t) xs)"

text \<open>The table and the numbers of the connections agree; a connection that is not over is in the table.\<close>

definition dests_ok :: "fwd_handler \<Rightarrow> bool" where
  "dests_ok h \<longleftrightarrow> (\<forall>t i. om_get (fh_map h) t = Some i \<longleftrightarrow> i < length (fh_dests h) \<and> de_id (fh_dests h ! i) = t \<and> \<not> de_over (fh_dests h ! i))"

lemma dests_okD: "dests_ok h \<Longrightarrow> om_get (fh_map h) t = Some i \<longleftrightarrow> i < length (fh_dests h) \<and> de_id (fh_dests h ! i) = t \<and> \<not> de_over (fh_dests h ! i)"
  by (simp add: dests_ok_def)

lemma dest_write_simps [simp]: "de_id (dest_write b d) = de_id d" "de_over (dest_write b d) = de_over d" "de_ended (dest_write b d) = de_ended d"
  by (simp_all add: dest_write_def)

lemma dest_end_simps [simp]: "de_id (dest_end d) = de_id d" "de_over (dest_end d) = de_over d" "de_ended (dest_end d)" "de_in (dest_end d) = de_in d"
  by (simp_all add: dest_end_def)

lemma dest_new_simps [simp]: "de_id (dest_new t) = t" "\<not> de_over (dest_new t)" "\<not> de_ended (dest_new t)" "de_in (dest_new t) = []"
  by (simp_all add: dest_new_def)

lemma upd_dest_simps [simp]: "fh_map (upd_dest i f h) = fh_map h" "length (fh_dests (upd_dest i f h)) = length (fh_dests h)"
  "i < length (fh_dests h) \<Longrightarrow> fh_dests (upd_dest i f h) ! j = (if j = i then f (fh_dests h ! i) else fh_dests h ! j)"
  by (simp_all add: upd_dest_def nth_list_update)

lemma upd_dest_ok:
  assumes "dests_ok h" and "i < length (fh_dests h)" and "\<And>d. de_id (f d) = de_id d \<and> de_over (f d) = de_over d"
  shows "dests_ok (upd_dest i f h)"
  using assms by (simp add: dests_ok_def)

lemma packet_in_ok: "dests_ok h \<Longrightarrow> dests_ok (packet_in h p)"
proof (cases p)
  case (Data t b)
  assume h: "dests_ok h"
  show ?thesis
  proof (cases "om_get (fh_map h) t")
    case None
    then have n: "i < length (fh_dests h) \<Longrightarrow> de_id (fh_dests h ! i) = t \<Longrightarrow> de_over (fh_dests h ! i)" for i
      using dests_okD [OF h, of t i] by auto
    have "om_get (fh_map (packet_in h p)) u = Some i \<longleftrightarrow>
        i < length (fh_dests (packet_in h p)) \<and> de_id (fh_dests (packet_in h p) ! i) = u \<and> \<not> de_over (fh_dests (packet_in h p) ! i)" for u i
    proof (cases "i < length (fh_dests h)")
      case True
      then show ?thesis using Data None dests_okD [OF h, of u i] n [of i] by (auto simp: nth_append)
    next
      case False
      then have "om_get (fh_map h) u \<noteq> Some i" using dests_okD [OF h, of u i] by blast
      then show ?thesis using Data None False by (auto simp: nth_append less_Suc_eq)
    qed
    then show ?thesis by (simp only: dests_ok_def) blast
  next
    case (Some i)
    then show ?thesis using Data h dests_okD [OF h, of t i] by (simp add: upd_dest_ok)
  qed
next
  case (Fin t)
  assume h: "dests_ok h"
  then show ?thesis using Fin dests_okD [OF h, of t] by (auto simp: upd_dest_ok split: option.splits)
qed

lemma link_upd:
  assumes "dests_ok h" and "om_get (fh_map h) t = Some i"
  shows "link_of (upd_dest i f h) u = (if u = t then Some (de_in (f (fh_dests h ! i)), de_ended (f (fh_dests h ! i))) else link_of h u)"
proof -
  have i: "i < length (fh_dests h)" "de_id (fh_dests h ! i) = t" using dests_okD [OF assms(1), of t i] assms(2) by auto
  have "j \<noteq> i" if "om_get (fh_map h) u = Some j" "u \<noteq> t" for j using dests_okD [OF assms(1), of u j] that i(2) by auto
  then show ?thesis using assms(2) i(1) by (cases "u = t"; cases "om_get (fh_map h) u"; simp add: link_of_def)
qed

lemma packet_in_link:
  assumes "dests_ok h"
  shows "link_of (packet_in h (Data t [x])) u = (if u = t then link_item (link_of h t) (Some x) else link_of h u)"
    and "link_of (packet_in h (Fin t)) u = (if u = t then link_item (link_of h t) None else link_of h u)"
proof -
  have l: "j < length (fh_dests h)" if "om_get (fh_map h) u = Some j" for j using dests_okD [OF assms, of u j] that by auto
  show "link_of (packet_in h (Data t [x])) u = (if u = t then link_item (link_of h t) (Some x) else link_of h u)"
  proof (cases "om_get (fh_map h) t")
    case None
    then show ?thesis using l by (cases "om_get (fh_map h) u") (simp_all add: link_of_def dest_write_def nth_append)
  next
    case (Some i)
    then show ?thesis using link_upd [OF assms Some] by (simp add: link_of_def dest_write_def)
  qed
  show "link_of (packet_in h (Fin t)) u = (if u = t then link_item (link_of h t) None else link_of h u)"
  proof (cases "om_get (fh_map h) t")
    case None
    then show ?thesis by (simp add: link_of_def)
  next
    case (Some i)
    then show ?thesis using link_upd [OF assms Some] by (simp add: link_of_def)
  qed
qed

text \<open>A packet of many bytes is as good as many packets of one.\<close>

definition item_in :: "fwd_handler \<Rightarrow> nat \<times> byte option \<Rightarrow> fwd_handler" where
  "item_in h x = packet_in h (case snd x of Some b \<Rightarrow> Data (fst x) [b] | None \<Rightarrow> Fin (fst x))"

lemma data_append:
  assumes "dests_ok h" and "a \<noteq> []"
  shows "packet_in h (Data t (a @ b)) = packet_in (packet_in h (Data t a)) (Data t b)"
proof (cases "om_get (fh_map h) t")
  case None
  then show ?thesis by (simp add: upd_dest_def dest_write_def dest_new_def)
next
  case (Some i)
  then have "i < length (fh_dests h)" using dests_okD [OF assms(1)] by blast
  then show ?thesis using Some by (simp add: upd_dest_def dest_write_def)
qed

lemma data_items: "dests_ok h \<Longrightarrow> b \<noteq> [] \<Longrightarrow> packet_in h (Data t b) = foldl item_in h (map (\<lambda>x. (t, Some x)) b)"
proof (induction b arbitrary: h)
  case (Cons x b)
  show ?case
  proof (cases b)
    case Nil
    then show ?thesis by (simp add: item_in_def)
  next
    case (Cons y c)
    then show ?thesis using Cons.prems Cons.IH [OF packet_in_ok [OF Cons.prems(1), of "Data t [x]"]] data_append [OF Cons.prems(1), of "[x]" t b]
      by (simp add: item_in_def)
  qed
qed simp

fun full_packet :: "fwd_packet \<Rightarrow> bool" where
  "full_packet (Data t b) = (b \<noteq> [])"
| "full_packet (Fin t) = True"

lemma packet_items: "dests_ok h \<Longrightarrow> full_packet p \<Longrightarrow> packet_in h p = foldl item_in h (carried p)"
  by (cases p) (simp_all add: data_items item_in_def del: packet_in.simps(1))

lemma packets_ok: "dests_ok h \<Longrightarrow> dests_ok (foldl packet_in h ps)"
  by (induction ps arbitrary: h) (simp_all add: packet_in_ok)

lemma packets_items: "dests_ok h \<Longrightarrow> list_all full_packet ps \<Longrightarrow> foldl packet_in h ps = foldl item_in h (content ps)"
  by (induction ps arbitrary: h) (simp_all flip: packet_items add: packet_in_ok)

lemma item_in_facts:
  assumes "dests_ok h"
  shows "dests_ok (item_in h x)" and "link_of (item_in h x) u = (if u = fst x then link_item (link_of h u) (snd x) else link_of h u)"
  using packet_in_ok [OF assms] packet_in_link [OF assms] by (cases "snd x"; simp add: item_in_def del: packet_in.simps)+

lemma items_link: "dests_ok h \<Longrightarrow> link_of (foldl item_in h xs) t = foldl link_item (link_of h t) (for_conn t xs)"
  by (induction xs arbitrary: h) (simp_all add: for_conn_def item_in_facts)

text \<open>The reader hands on no empty piece of data.\<close>

lemma rd_loop_full: "rd_need s \<noteq> 0 \<Longrightarrow> list_all full_packet (snd (rd_loop c k s)) \<and> rd_need (fst (rd_loop c k s)) \<noteq> 0"
proof (induction c k s rule: rd_loop.induct)
  case (1 c k s)
  show ?case
  proof (cases "length c \<le> k \<or> (rd_need s < 0 \<and> int (length c) < - rd_need s)")
    case True
    then show ?thesis using 1(5) by (auto simp: rd_loop.simps [of c k s] take_header_def)
  next
    case False
    then have k: "\<not> length c \<le> k" by blast
    show ?thesis
    proof (cases "rd_need s < 0")
      case True
      then have "\<not> int (length c) < - rd_need s" using False by blast
      then show ?thesis using k True 1(1,2) by (simp add: rd_loop.simps [of c k s] Let_def)
    next
      case neg: False
      then show ?thesis using k 1(3,4,5) by (simp add: rd_loop.simps [of c k s] Let_def)
    qed
  qed
qed

lemma rd_all_full: "rd_need s \<noteq> 0 \<Longrightarrow> list_all full_packet (rd_all s cs)"
  by (induction cs arbitrary: s) (simp_all add: rd_transform_def rd_loop_full Let_def)

definition fwd_feed :: "fwd_handler \<Rightarrow> byte list list \<Rightarrow> fwd_handler" where
  "fwd_feed h cs = foldl (\<lambda>h c. conn_data c h) h cs"

lemma packet_in_reader [simp]: "fh_reader (packet_in h p) = fh_reader h"
  by (cases p) (simp_all add: upd_dest_def split: option.splits)

lemma packets_reader [simp]: "fh_reader (foldl packet_in h ps) = fh_reader h"
  by (induction ps arbitrary: h) simp_all

lemma packets_other_reader: "foldl packet_in (h\<lparr>fh_reader := r\<rparr>) ps = (foldl packet_in h ps)\<lparr>fh_reader := r\<rparr>"
proof (induction ps arbitrary: h)
  case (Cons p ps)
  have "packet_in (h\<lparr>fh_reader := r\<rparr>) p = (packet_in h p)\<lparr>fh_reader := r\<rparr>"
    by (cases p) (simp_all add: upd_dest_def split: option.splits)
  then show ?case using Cons.IH by simp
qed simp

lemma feed_packets: "\<exists>r. fwd_feed h cs = (foldl packet_in h (rd_all (fh_reader h) cs))\<lparr>fh_reader := r\<rparr>"
proof (induction cs arbitrary: h)
  case Nil
  show ?case by (rule exI [of _ "fh_reader h"]) (simp add: fwd_feed_def)
next
  case (Cons c cs)
  let ?x = "rd_transform (fh_reader h) c"
  have c: "conn_data c h = (foldl packet_in h (snd ?x))\<lparr>fh_reader := fst ?x\<rparr>" by (simp add: conn_data_def Let_def packets_other_reader)
  obtain r where "fwd_feed (conn_data c h) cs = (foldl packet_in (conn_data c h) (rd_all (fst ?x) cs))\<lparr>fh_reader := r\<rparr>"
    using Cons.IH [of "conn_data c h"] c by auto
  then show ?case by (intro exI [of _ r]) (simp add: fwd_feed_def c packets_other_reader Let_def)
qed

lemma link_of_reader [simp]: "link_of (h\<lparr>fh_reader := r\<rparr>) t = link_of h t"
  by (simp add: link_of_def)

text \<open>
  C28. What a forward hands to the target host: when the device sends the packets \<open>ps\<close> and no chunk of the stream ends inside a
  header, then every connection of the device has a connection to the host as soon as it has sent a byte, which has got the bytes
  the device has sent before its end, in order, and has been ended when the device has ended it; other connections do not matter.
\<close>

theorem forward_delivers:
  assumes "list_all packet_ok ps" and "concat cs = concat (map wire_of ps)" and "headers_whole ps cs"
  shows "link_of (fwd_feed (handler_new i o' out) cs) t = foldl link_item None (for_conn t (content ps))"
proof -
  let ?h = "handler_new i o' out"
  have ok: "dests_ok ?h" "fh_reader ?h = rd_new" "link_of ?h t = None" by (simp_all add: handler_new_def dests_ok_def link_of_def)
  obtain r where "fwd_feed ?h cs = (foldl packet_in ?h (rd_all rd_new cs))\<lparr>fh_reader := r\<rparr>" using feed_packets [of ?h cs] ok(2) by auto
  moreover have "foldl packet_in ?h (rd_all rd_new cs) = foldl item_in ?h (content ps)"
    using packets_items [OF ok(1) rd_all_full] packets_read [OF assms] by (simp add: rd_new_def)
  ultimately show ?thesis using items_link [OF ok(1)] ok(3) by simp
qed

theorem forward_delivers_witness:
  "link_of (fwd_feed (handler_new ''a'' \<lparr>fo_port = 8080, fo_host = ''h'', fo_target = 80\<rparr> []) [[1, 0, 2, 0, 7], [8, 2, 0, 1, 0], [9, 1, 0, 0, 0]]) 1
     = Some ([7, 8], True)"
proof -
  have w: "concat (map wire_of [Data 1 [7, 8], Data 2 [9], Fin 1]) = concat [[1, 0, 2, 0, 7], [8, 2, 0, 1, 0], [9, 1, 0, 0, 0]]"
    by (simp add: packet_bytes_def numeral_2_eq_2)
  show ?thesis
    using forward_delivers [of "[Data 1 [7, 8], Data 2 [9], Fin 1]", OF _ w [symmetric] sample_whole, of "''a''" _ "[]" 1]
    by (simp add: for_conn_def)
qed

section \<open>The forwards of a device\<close>

record fwd_manager =
  fm_ids :: "(string, nat) omap"
  fm_all :: "fwd_handler list"

datatype fm_emit = FwAdd string | FwRemove string

record fwd_listing =
  fl_id :: string
  fl_port :: nat
  fl_host :: string
  fl_target :: nat

definition fm_new :: fwd_manager where
  "fm_new = \<lparr>fm_ids = [], fm_all = []\<rparr>"

definition upd_handler :: "nat \<Rightarrow> (fwd_handler \<Rightarrow> fwd_handler) \<Rightarrow> fwd_manager \<Rightarrow> fwd_manager" where
  "upd_handler n f m = m\<lparr>fm_all := (fm_all m)[n := f (fm_all m ! n)]\<rparr>"

definition handler_end :: "fwd_handler \<Rightarrow> fwd_handler" where
  "handler_end h = h\<lparr>fh_ended := True\<rparr>"

definition fm_has :: "fwd_manager \<Rightarrow> string \<Rightarrow> bool" where
  "fm_has m i = om_has (fm_ids m) i"

text \<open>\<open>remove\<close>: the event comes even when there was nothing to remove.\<close>

definition fm_remove :: "string \<Rightarrow> fwd_manager \<Rightarrow> fwd_manager \<times> fm_emit list" where
  "fm_remove i m =
     (let m1 = (case om_get (fm_ids m) i of Some n \<Rightarrow> upd_handler n handler_end m | None \<Rightarrow> m) in
      (m1\<lparr>fm_ids := om_del i (fm_ids m1)\<rparr>, [FwRemove i]))"

definition on_port :: "nat \<Rightarrow> fwd_manager \<Rightarrow> string option" where
  "on_port p m = map_option fst (find (\<lambda>x. fo_port (fh_opts (fm_all m ! snd x)) = p) (fm_ids m))"

definition fm_add :: "string \<Rightarrow> byte list \<Rightarrow> fwd_opts \<Rightarrow> fwd_manager \<Rightarrow> fwd_manager \<times> fm_emit list" where
  "fm_add i out o' m =
     (let r1 = (if fm_has m i then fm_remove i m else (m, []));
          r2 = (case on_port (fo_port o') (fst r1) of Some j \<Rightarrow> fm_remove j (fst r1) | None \<Rightarrow> (fst r1, [])) in
      ((fst r2)\<lparr>fm_all := fm_all (fst r2) @ [handler_new i o' out], fm_ids := om_set i (length (fm_all (fst r2))) (fm_ids (fst r2))\<rparr>,
       snd r1 @ snd r2 @ [FwAdd i]))"

definition fm_remove_all :: "fwd_manager \<Rightarrow> fwd_manager \<times> fm_emit list" where
  "fm_remove_all m =
     foldl (\<lambda>(m, out) i. (let m1 = upd_handler (the (om_get (fm_ids m) i)) handler_end m in
       (m1\<lparr>fm_ids := om_del i (fm_ids m1)\<rparr>, out @ [FwRemove i]))) (m, []) (om_keys (fm_ids m))"

definition fm_list :: "fwd_manager \<Rightarrow> fwd_listing list" where
  "fm_list m = map (\<lambda>(i, n). (let o' = fh_opts (fm_all m ! n) in
     \<lparr>fl_id = i, fl_port = fo_port o', fl_host = fo_host o', fl_target = fo_target o'\<rparr>)) (fm_ids m)"

text \<open>\<open>endListener\<close>, when the stream of a forward has ended: what is under its identifier goes.\<close>

definition fm_conn_end :: "nat \<Rightarrow> fwd_manager \<Rightarrow> fwd_manager \<times> fm_emit list" where
  "fm_conn_end n m =
     (if n < length (fm_all m) \<and> \<not> fh_over (fm_all m ! n) then
        (let i = fh_id (fm_all m ! n); m1 = upd_handler n (\<lambda>h. h\<lparr>fh_over := True\<rparr>) m in
         (m1\<lparr>fm_ids := om_del i (fm_ids m1)\<rparr>, [FwRemove i]))
      else (m, []))"

section \<open>The plugin\<close>

text \<open>
  \<open>tryConnect\<close>: what the attempts come to, in turn; the answer, and the delays between the attempts.
\<close>

datatype connect_try = Connected | Closed | Broken

fun try_connect :: "nat \<Rightarrow> nat \<Rightarrow> connect_try list \<Rightarrow> connect_try option \<times> nat list" where
  "try_connect times' delay [] = (None, [])"
| "try_connect times' delay (a # as) =
     (if a = Closed \<and> 1 < times' then (let r = try_connect (times' - 1) (delay * 2) as in (fst r, delay # snd r)) else (Some a, []))"

datatype fwd_task = TestConn string | CreateConn string string fwd_opts

record fwd_service =
  fs_manager :: fwd_manager
  fs_tasks :: "fwd_task list"
  fs_timer :: bool

datatype fwd_event = TestReq string | CreateReq string string fwd_opts | RemoveReq string string | TaskDone nat bool
  | GroupLeft | PushDue | StreamData nat "byte list" | StreamEnd nat | HostData nat nat "byte list" | HostEnd nat nat

datatype fwd_out = FwOkay string string | FwFail string string | FwList "fwd_listing list"

definition fs_new :: fwd_service where
  "fs_new = \<lparr>fs_manager = fm_new, fs_tasks = [], fs_timer = False\<rparr>"

text \<open>An event of the manager restarts the timer of the listing.\<close>

definition fs_set :: "fwd_service \<Rightarrow> fwd_manager \<times> fm_emit list \<Rightarrow> fwd_service" where
  "fs_set s r = s\<lparr>fs_manager := fst r, fs_timer := fs_timer s \<or> snd r \<noteq> []\<rparr>"

definition create_header :: "fwd_opts \<Rightarrow> byte list" where
  "create_header o' = put_le 2 0 @ put_le 2 (fo_port o')"

fun task_done :: "fwd_service \<Rightarrow> fwd_task \<Rightarrow> bool \<Rightarrow> fwd_service \<times> fwd_out list" where
  "task_done s (TestConn ch) ok = (s, [if ok then FwOkay ch ''success'' else FwFail ch ''fail_connect''])"
| "task_done s (CreateConn ch i o') ok =
     (if ok then (fs_set s (fm_add i (create_header o') o' (fs_manager s)), [FwOkay ch ''success'']) else (s, [FwFail ch ''fail_forward'']))"

definition on_stream :: "nat \<Rightarrow> (fwd_handler \<Rightarrow> fwd_handler) \<Rightarrow> fwd_service \<Rightarrow> fwd_service" where
  "on_stream n f s = (if n < length (fm_all (fs_manager s)) then s\<lparr>fs_manager := upd_handler n f (fs_manager s)\<rparr> else s)"

fun fwd_step :: "fwd_service \<Rightarrow> fwd_event \<Rightarrow> fwd_service \<times> fwd_out list" where
  "fwd_step s (TestReq ch) = (s\<lparr>fs_tasks := fs_tasks s @ [TestConn ch]\<rparr>, [])"
| "fwd_step s (CreateReq ch i o') = (s\<lparr>fs_tasks := fs_tasks s @ [CreateConn ch i o']\<rparr>, [])"
| "fwd_step s (RemoveReq ch i) = (fs_set s (fm_remove i (fs_manager s)), [FwOkay ch ''success''])"
| "fwd_step s (TaskDone n ok) =
     (if n < length (fs_tasks s) then task_done (s\<lparr>fs_tasks := remove_nth n (fs_tasks s)\<rparr>) (fs_tasks s ! n) ok else (s, []))"
| "fwd_step s GroupLeft = (fs_set s (fm_remove_all (fs_manager s)), [])"
| "fwd_step s PushDue =
     (if fs_timer s then (s\<lparr>fs_timer := False\<rparr>, [FwList (fm_list (fs_manager s))]) else (s, []))"
| "fwd_step s (StreamData n c) = (on_stream n (\<lambda>h. if fh_over h then h else conn_data c h) s, [])"
| "fwd_step s (StreamEnd n) = (fs_set s (fm_conn_end n (fs_manager s)), [])"
| "fwd_step s (HostData n i c) = (on_stream n (dest_data i c) s, [])"
| "fwd_step s (HostEnd n i) = (on_stream n (dest_close i) s, [])"

section \<open>What the table promises\<close>

text \<open>
  The forwards in the table have different identifiers and different ports, each stands for a stream with its own identifier, and that
  stream has not been ended, by the device or by the manager.
\<close>

definition fwd_live :: "fwd_manager \<Rightarrow> string \<Rightarrow> nat \<Rightarrow> bool" where
  "fwd_live m i n \<longleftrightarrow> n < length (fm_all m) \<and> fh_id (fm_all m ! n) = i \<and> \<not> fh_ended (fm_all m ! n) \<and> \<not> fh_over (fm_all m ! n)"

definition port_of :: "fwd_manager \<Rightarrow> nat \<Rightarrow> nat" where
  "port_of m n = fo_port (fh_opts (fm_all m ! n))"

definition fm_ok :: "fwd_manager \<Rightarrow> bool" where
  "fm_ok m \<longleftrightarrow> om_ok (fm_ids m) \<and> (\<forall>i n. om_get (fm_ids m) i = Some n \<longrightarrow> fwd_live m i n) \<and>
     (\<forall>i j n k. om_get (fm_ids m) i = Some n \<longrightarrow> om_get (fm_ids m) j = Some k \<longrightarrow> port_of m n = port_of m k \<longrightarrow> i = j)"

lemma fm_okD: "fm_ok m \<Longrightarrow> om_ok (fm_ids m)" "fm_ok m \<Longrightarrow> om_get (fm_ids m) i = Some n \<Longrightarrow> fwd_live m i n"
  "fm_ok m \<Longrightarrow> om_get (fm_ids m) i = Some n \<Longrightarrow> om_get (fm_ids m) j = Some k \<Longrightarrow> port_of m n = port_of m k \<Longrightarrow> i = j"
  unfolding fm_ok_def by blast+

lemma fm_okI: "om_ok (fm_ids m) \<Longrightarrow> (\<And>i n. om_get (fm_ids m) i = Some n \<Longrightarrow> fwd_live m i n) \<Longrightarrow>
  (\<And>i j n k. om_get (fm_ids m) i = Some n \<Longrightarrow> om_get (fm_ids m) j = Some k \<Longrightarrow> port_of m n = port_of m k \<Longrightarrow> i = j) \<Longrightarrow> fm_ok m"
  unfolding fm_ok_def by blast

definition keeps_name :: "(fwd_handler \<Rightarrow> fwd_handler) \<Rightarrow> bool" where
  "keeps_name f \<longleftrightarrow> (\<forall>h. fh_id (f h) = fh_id h \<and> fh_opts (f h) = fh_opts h)"

definition keeps_life :: "(fwd_handler \<Rightarrow> fwd_handler) \<Rightarrow> bool" where
  "keeps_life f \<longleftrightarrow> (\<forall>h. fh_ended (f h) = fh_ended h \<and> fh_over (f h) = fh_over h)"

lemma upd_handler_simps [simp]: "fm_ids (upd_handler n f m) = fm_ids m" "length (fm_all (upd_handler n f m)) = length (fm_all m)"
  by (simp_all add: upd_handler_def)

lemma upd_handler_nth: "n < length (fm_all m) \<Longrightarrow> fm_all (upd_handler n f m) ! k = (if k = n then f (fm_all m ! n) else fm_all m ! k)"
  by (simp add: upd_handler_def nth_list_update)

lemma upd_handler_names:
  assumes "keeps_name f" and "n < length (fm_all m)"
  shows "fh_id (fm_all (upd_handler n f m) ! k) = fh_id (fm_all m ! k)" "fh_opts (fm_all (upd_handler n f m) ! k) = fh_opts (fm_all m ! k)"
    "port_of (upd_handler n f m) k = port_of m k"
  using assms by (simp_all add: upd_handler_nth keeps_name_def port_of_def)

lemma fm_ok_upd:
  assumes "fm_ok m" and "keeps_name f" and "keeps_life f" and "n < length (fm_all m)"
  shows "fm_ok (upd_handler n f m)"
proof (rule fm_okI)
  fix i k assume "om_get (fm_ids (upd_handler n f m)) i = Some k"
  then have "fwd_live m i k" using fm_okD(2) [OF assms(1)] by simp
  then show "fwd_live (upd_handler n f m) i k"
    using upd_handler_names(1) [OF assms(2,4), of k] assms(3,4)
    by (cases "k = n") (simp_all add: fwd_live_def upd_handler_nth keeps_life_def)
next
  fix i j k l
  assume "om_get (fm_ids (upd_handler n f m)) i = Some k" "om_get (fm_ids (upd_handler n f m)) j = Some l"
    "port_of (upd_handler n f m) k = port_of (upd_handler n f m) l"
  then show "i = j" using fm_okD(3) [OF assms(1), of i k j l] upd_handler_names(3) [OF assms(2,4)] by simp
qed (use fm_okD(1) [OF assms(1)] in simp)

lemma fm_ok_del: "fm_ok m \<Longrightarrow> fm_ok (m\<lparr>fm_ids := om_del i (fm_ids m)\<rparr>)"
  by (auto simp: fm_ok_def fwd_live_def port_of_def split: if_splits)

text \<open>The stream with an identifier changes, and the identifier goes: all the others are as they were.\<close>

definition dropped :: "nat \<Rightarrow> (fwd_handler \<Rightarrow> fwd_handler) \<Rightarrow> string \<Rightarrow> fwd_manager \<Rightarrow> fwd_manager" where
  "dropped n f i m = (upd_handler n f m)\<lparr>fm_ids := om_del i (fm_ids m)\<rparr>"

lemma fm_ok_dropped:
  assumes "fm_ok m" and "keeps_name f" and "n < length (fm_all m)" and "fh_id (fm_all m ! n) = i"
  shows "fm_ok (dropped n f i m)"
proof (rule fm_okI)
  fix j k assume "om_get (fm_ids (dropped n f i m)) j = Some k"
  then have "fwd_live m j k" "j \<noteq> i" using fm_okD(2) [OF assms(1)] by (auto simp: dropped_def split: if_splits)
  moreover from this have "k \<noteq> n" using assms(4) by (auto simp: fwd_live_def)
  ultimately show "fwd_live (dropped n f i m) j k" using assms(3) by (simp add: fwd_live_def dropped_def upd_handler_nth)
next
  fix j j' k l
  assume "om_get (fm_ids (dropped n f i m)) j = Some k" "om_get (fm_ids (dropped n f i m)) j' = Some l"
    "port_of (dropped n f i m) k = port_of (dropped n f i m) l"
  then show "j = j'" using fm_okD(3) [OF assms(1), of j k j' l] upd_handler_names [OF assms(2,3)]
    by (simp add: dropped_def port_of_def split: if_splits)
qed (use fm_okD(1) [OF assms(1)] in \<open>simp add: dropped_def\<close>)

lemma keeps_simps [simp, intro]: "keeps_name handler_end" "keeps_name (\<lambda>h. h\<lparr>fh_over := True\<rparr>)"
  by (simp_all add: keeps_name_def handler_end_def)

lemma remove_dropped: "fst (fm_remove i m) = (case om_get (fm_ids m) i of Some n \<Rightarrow> dropped n handler_end i m | None \<Rightarrow> m\<lparr>fm_ids := om_del i (fm_ids m)\<rparr>)"
  by (simp add: fm_remove_def dropped_def Let_def split: option.splits)

lemma fm_ok_remove: "fm_ok m \<Longrightarrow> fm_ok (fst (fm_remove i m))"
  using fm_okD(2) [of m i] by (auto simp: remove_dropped fm_ok_del fm_ok_dropped fwd_live_def split: option.splits)

lemma fm_ok_conn_end: "fm_ok m \<Longrightarrow> fm_ok (fst (fm_conn_end n m))"
  using fm_ok_dropped [of m "\<lambda>h. h\<lparr>fh_over := True\<rparr>" n] by (simp add: fm_conn_end_def Let_def dropped_def)

text \<open>\<open>removeAll\<close> ends every stream of the table, and empties it.\<close>

definition remove_step :: "fwd_manager \<times> fm_emit list \<Rightarrow> string \<Rightarrow> fwd_manager \<times> fm_emit list" where
  "remove_step r i = (dropped (the (om_get (fm_ids (fst r)) i)) handler_end i (fst r), snd r @ [FwRemove i])"

lemma remove_all_steps: "fm_remove_all m = foldl remove_step (m, []) (om_keys (fm_ids m))"
proof -
  have "(\<lambda>(m, out) i. (let m1 = upd_handler (the (om_get (fm_ids m) i)) handler_end m in
       (m1\<lparr>fm_ids := om_del i (fm_ids m1)\<rparr>, out @ [FwRemove i]))) = remove_step"
    by (intro ext) (simp add: remove_step_def dropped_def Let_def split: prod.splits)
  then show ?thesis by (simp add: fm_remove_all_def)
qed

lemma dropped_simps [simp]: "fm_ids (dropped n f i m) = om_del i (fm_ids m)" "length (fm_all (dropped n f i m)) = length (fm_all m)"
  by (simp_all add: dropped_def)

lemma dropped_nth: "n < length (fm_all m) \<Longrightarrow> fm_all (dropped n f i m) ! k = (if k = n then f (fm_all m ! n) else fm_all m ! k)"
  by (simp add: dropped_def upd_handler_nth)

lemma remove_steps:
  "fm_ok m \<Longrightarrow> distinct is \<Longrightarrow> (\<And>i. i \<in> set is \<longleftrightarrow> om_has (fm_ids m) i) \<Longrightarrow>
   let m1 = fst (foldl remove_step (m, out) is) in fm_ok m1 \<and> (\<forall>i. om_get (fm_ids m1) i = None) \<and> length (fm_all m1) = length (fm_all m) \<and>
     (\<forall>n < length (fm_all m). fm_all m1 ! n = (if \<exists>i. om_get (fm_ids m) i = Some n then handler_end (fm_all m ! n) else fm_all m ! n))"
proof (induction "is" arbitrary: m out)
  case Nil
  then show ?case by (simp add: om_has_def)
next
  case (Cons i js)
  obtain n where n: "om_get (fm_ids m) i = Some n" using Cons.prems(3) [of i] by (auto simp: om_has_def)
  have l: "n < length (fm_all m)" "fh_id (fm_all m ! n) = i" using fm_okD(2) [OF Cons.prems(1) n] by (simp_all add: fwd_live_def)
  have "fm_ok (dropped n handler_end i m)" by (rule fm_ok_dropped [OF Cons.prems(1) _ l]) simp
  moreover have "distinct js" using Cons.prems(2) by simp
  moreover have "j \<in> set js \<longleftrightarrow> om_has (fm_ids (dropped n handler_end i m)) j" for j
    using Cons.prems(2) Cons.prems(3) [of j] by auto
  ultimately have ih: "let m1 = fst (foldl remove_step (dropped n handler_end i m, out @ [FwRemove i]) js) in
     fm_ok m1 \<and> (\<forall>i. om_get (fm_ids m1) i = None) \<and> length (fm_all m1) = length (fm_all (dropped n handler_end i m)) \<and>
     (\<forall>k < length (fm_all (dropped n handler_end i m)). fm_all m1 ! k =
       (if \<exists>j. om_get (fm_ids (dropped n handler_end i m)) j = Some k then handler_end (fm_all (dropped n handler_end i m) ! k) else fm_all (dropped n handler_end i m) ! k))"
    by (rule Cons.IH)
  have only: "om_get (fm_ids m) j = Some n \<Longrightarrow> j = i" for j using fm_okD(2) [OF Cons.prems(1), of j n] l by (simp add: fwd_live_def)
  have "(if \<exists>j. om_get (fm_ids (dropped n handler_end i m)) j = Some k then handler_end (fm_all (dropped n handler_end i m) ! k) else fm_all (dropped n handler_end i m) ! k) =
      (if \<exists>j. om_get (fm_ids m) j = Some k then handler_end (fm_all m ! k) else fm_all m ! k)" for k
  proof (cases "k = n")
    case True
    then have "(\<exists>j. om_get (fm_ids (dropped n handler_end i m)) j = Some k) = False" using only by auto
    then show ?thesis using True n l(1) by (auto simp: dropped_nth)
  next
    case False
    then have "(\<exists>j. om_get (fm_ids (dropped n handler_end i m)) j = Some k) = (\<exists>j. om_get (fm_ids m) j = Some k)"
      using n False by (metis dropped_simps(1) om_get_del option.distinct(1) option.inject)
    then show ?thesis using False l(1) by (simp add: dropped_nth)
  qed
  moreover have "remove_step (m, out) i = (dropped n handler_end i m, out @ [FwRemove i])" using n by (simp add: remove_step_def)
  ultimately show ?case using ih unfolding Let_def foldl_Cons dropped_simps(2) by simp
qed

lemma remove_all_facts:
  assumes "fm_ok m"
  shows "fm_ok (fst (fm_remove_all m))" "fm_ids (fst (fm_remove_all m)) = []"
    "length (fm_all (fst (fm_remove_all m))) = length (fm_all m)"
    "n < length (fm_all m) \<Longrightarrow> fm_all (fst (fm_remove_all m)) ! n =
       (if \<exists>i. om_get (fm_ids m) i = Some n then handler_end (fm_all m ! n) else fm_all m ! n)"
proof -
  have x: "distinct (om_keys (fm_ids m))" using fm_okD(1) [OF assms] by (simp add: om_ok_def om_keys_def)
  have f: "let m1 = fst (fm_remove_all m) in fm_ok m1 \<and> (\<forall>i. om_get (fm_ids m1) i = None) \<and> length (fm_all m1) = length (fm_all m) \<and>
     (\<forall>n < length (fm_all m). fm_all m1 ! n = (if \<exists>i. om_get (fm_ids m) i = Some n then handler_end (fm_all m ! n) else fm_all m ! n))"
    unfolding remove_all_steps by (rule remove_steps [OF assms x]) (simp add: om_has_keys)
  show "fm_ok (fst (fm_remove_all m))" "length (fm_all (fst (fm_remove_all m))) = length (fm_all m)" using f by (simp_all add: Let_def)
  have "\<forall>i. om_get (fm_ids (fst (fm_remove_all m))) i = None" using f by (simp add: Let_def)
  then show "fm_ids (fst (fm_remove_all m)) = []" by (cases "fm_ids (fst (fm_remove_all m))") (auto simp: om_get_def split: if_splits)
  show "n < length (fm_all m) \<Longrightarrow> fm_all (fst (fm_remove_all m)) ! n =
       (if \<exists>i. om_get (fm_ids m) i = Some n then handler_end (fm_all m ! n) else fm_all m ! n)" using f by (simp add: Let_def)
qed

text \<open>Adding: the identifier and the port are free by then.\<close>

lemma on_port_None: "on_port p m = None \<Longrightarrow> om_get (fm_ids m) i = Some n \<Longrightarrow> port_of m n \<noteq> p"
proof
  assume "on_port p m = None" "om_get (fm_ids m) i = Some n" "port_of m n = p"
  then have "(i, n) \<in> set (fm_ids m)" by (simp add: om_get_def map_of_SomeD)
  then show False using \<open>on_port p m = None\<close> \<open>port_of m n = p\<close> by (auto simp: on_port_def port_of_def find_None_iff)
qed

lemma on_port_Some: "fm_ok m \<Longrightarrow> on_port p m = Some i \<Longrightarrow> \<exists>n. om_get (fm_ids m) i = Some n \<and> port_of m n = p"
proof -
  assume m: "fm_ok m" and p: "on_port p m = Some i"
  obtain n where "(i, n) \<in> set (fm_ids m)" "port_of m n = p" 
    using p by (auto simp: on_port_def port_of_def find_Some_iff) (metis nth_mem snd_conv)
  then show ?thesis using fm_okD(1) [OF m] by (auto simp: om_get_def om_ok_def)
qed

lemma remove_facts:
  assumes "fm_ok m"
  shows "fm_ids (fst (fm_remove i m)) = om_del i (fm_ids m)" "length (fm_all (fst (fm_remove i m))) = length (fm_all m)"
    "port_of (fst (fm_remove i m)) n = port_of m n"
    "n < length (fm_all m) \<Longrightarrow> fm_all (fst (fm_remove i m)) ! n = (if om_get (fm_ids m) i = Some n then handler_end (fm_all m ! n) else fm_all m ! n)"
  using fm_okD(2) [OF assms, of i]
  by (auto simp: remove_dropped dropped_nth port_of_def fwd_live_def handler_end_def split: option.splits)

definition add_first :: "string \<Rightarrow> fwd_manager \<Rightarrow> fwd_manager" where
  "add_first i m = (if fm_has m i then fst (fm_remove i m) else m)"

definition add_second :: "nat \<Rightarrow> fwd_manager \<Rightarrow> fwd_manager" where
  "add_second p m = (case on_port p m of Some j \<Rightarrow> fst (fm_remove j m) | None \<Rightarrow> m)"

lemma add_parts: "fst (fm_add i out o' m) =
  (let m2 = add_second (fo_port o') (add_first i m) in
   m2\<lparr>fm_all := fm_all m2 @ [handler_new i o' out], fm_ids := om_set i (length (fm_all m2)) (fm_ids m2)\<rparr>)"
  by (simp add: fm_add_def add_first_def add_second_def Let_def split: option.splits)

lemma add_first_facts:
  assumes "fm_ok m"
  shows "fm_ok (add_first i m)" "om_get (fm_ids (add_first i m)) i = None"
  using assms by (simp_all add: add_first_def fm_ok_remove remove_facts fm_has_def om_has_def)

lemma add_second_facts:
  assumes "fm_ok m" and "om_get (fm_ids m) i = None"
  shows "fm_ok (add_second p m)" "om_get (fm_ids (add_second p m)) i = None"
    "om_get (fm_ids (add_second p m)) j = Some n \<Longrightarrow> port_of (add_second p m) n \<noteq> p"
proof -
  show "fm_ok (add_second p m)" "om_get (fm_ids (add_second p m)) i = None"
    using assms by (simp_all add: add_second_def fm_ok_remove remove_facts split: option.splits)
  assume j: "om_get (fm_ids (add_second p m)) j = Some n"
  show "port_of (add_second p m) n \<noteq> p"
  proof (cases "on_port p m")
    case None
    then show ?thesis using j on_port_None by (simp add: add_second_def)
  next
    case (Some l)
    then obtain k where "om_get (fm_ids m) l = Some k" "port_of m k = p" using on_port_Some [OF assms(1)] by blast
    then show ?thesis using Some j fm_okD(3) [OF assms(1), of j n l k] by (auto simp: add_second_def remove_facts [OF assms(1)] split: if_splits)
  qed
qed

lemma fm_ok_new:
  assumes "fm_ok m" and "om_get (fm_ids m) i = None" and "\<And>j n. om_get (fm_ids m) j = Some n \<Longrightarrow> port_of m n \<noteq> fo_port o'"
  shows "fm_ok (m\<lparr>fm_all := fm_all m @ [handler_new i o' out], fm_ids := om_set i (length (fm_all m)) (fm_ids m)\<rparr>)" (is "fm_ok ?m")
proof (rule fm_okI)
  have old: "n < length (fm_all m)" if "om_get (fm_ids m) j = Some n" for j n using fm_okD(2) [OF assms(1) that] by (simp add: fwd_live_def)
  show "om_ok (fm_ids ?m)" using fm_okD(1) [OF assms(1)] by simp
  show "fwd_live ?m j n" if "om_get (fm_ids ?m) j = Some n" for j n
    using that fm_okD(2) [OF assms(1), of j n] by (auto simp: fwd_live_def nth_append handler_new_def split: if_splits)
  show "j = k" if "om_get (fm_ids ?m) j = Some n" "om_get (fm_ids ?m) k = Some l" "port_of ?m n = port_of ?m l" for j k n l
    using that fm_okD(3) [OF assms(1), of j n k l] assms(3) [of j n] assms(3) [of k l] old [of j n] old [of k l]
    by (auto simp: port_of_def nth_append handler_new_def split: if_splits)
qed

lemma fm_ok_add: "fm_ok m \<Longrightarrow> fm_ok (fst (fm_add i out o' m))"
  unfolding add_parts Let_def
  using add_first_facts [of m i] add_second_facts [of "add_first i m" i "fo_port o'"] by (intro fm_ok_new) auto

lemma fm_ok_start: "fm_ok fm_new"
  by (simp add: fm_ok_def fm_new_def)

text \<open>What the streams and the target hosts do leaves the names, the ports and the ends of the forwards alone.\<close>

lemma packet_in_keeps [simp]: "fh_id (packet_in h p) = fh_id h" "fh_opts (packet_in h p) = fh_opts h"
  "fh_ended (packet_in h p) = fh_ended h" "fh_over (packet_in h p) = fh_over h"
  by (cases p; simp add: upd_dest_def split: option.splits)+

lemma packets_keep [simp]: "fh_id (foldl packet_in h ps) = fh_id h" "fh_opts (foldl packet_in h ps) = fh_opts h"
  "fh_ended (foldl packet_in h ps) = fh_ended h" "fh_over (foldl packet_in h ps) = fh_over h"
  by (induction ps arbitrary: h) simp_all

definition calm_change :: "(fwd_handler \<Rightarrow> fwd_handler) \<Rightarrow> bool" where
  "calm_change f \<longleftrightarrow> keeps_name f \<and> keeps_life f"

lemma quiet_data: "calm_change (\<lambda>h. if fh_over h then h else conn_data c h)" "calm_change (dest_data i c)" "calm_change (dest_close i)"
  by (simp_all add: calm_change_def keeps_name_def keeps_life_def conn_data_def dest_data_def dest_close_def conn_write_def upd_dest_def Let_def)

lemma stream_ok: "calm_change f \<Longrightarrow> fm_ok (fs_manager s) \<Longrightarrow> fm_ok (fs_manager (on_stream n f s))"
  by (simp add: on_stream_def fm_ok_upd calm_change_def)

lemma stream_list: "calm_change f \<Longrightarrow> fm_list (fs_manager (on_stream n f s)) = fm_list (fs_manager s)"
proof -
  assume "calm_change f"
  then have "fh_opts (fm_all (fs_manager (on_stream n f s)) ! k) = fh_opts (fm_all (fs_manager s) ! k)" for k
    by (simp add: on_stream_def calm_change_def upd_handler_names)
  then show ?thesis by (simp add: fm_list_def) (simp add: on_stream_def)
qed

section \<open>Runs of the plugin\<close>

lemma fs_set_simps [simp]: "fs_manager (fs_set s r) = fst r" "fs_timer (fs_set s r) = (fs_timer s \<or> snd r \<noteq> [])" "fs_tasks (fs_set s r) = fs_tasks s"
  by (simp_all add: fs_set_def)

lemma task_done_manager: "fs_manager (fst (task_done s t b)) =
  (case t of CreateConn ch i o' \<Rightarrow> if b then fst (fm_add i (create_header o') o' (fs_manager s)) else fs_manager s | TestConn ch \<Rightarrow> fs_manager s)"
  by (cases t) simp_all

lemma step_ok: "fm_ok (fs_manager s) \<Longrightarrow> fm_ok (fs_manager (fst (fwd_step s e)))"
proof (cases e)
  case (TaskDone n b)
  assume "fm_ok (fs_manager s)"
  then show ?thesis using TaskDone by (simp add: task_done_manager fm_ok_add split: fwd_task.splits)
qed (simp_all add: fm_ok_remove remove_all_facts(1) fm_ok_conn_end stream_ok quiet_data)

interpretation fwd: invariant_machine fwd_step "\<lambda>s. fm_ok (fs_manager s)"
  by unfold_locales (rule step_ok)

lemma reach_ok: "fm_ok (fs_manager (fst (run fwd_step fs_new es)))"
  by (rule fwd.always_run) (simp add: fs_new_def fm_ok_start)

lemma list_ids: "map fl_id (fm_list m) = om_keys (fm_ids m)"
  by (simp add: fm_list_def om_keys_def Let_def case_prod_unfold comp_def)

lemma list_ports: "map fl_port (fm_list m) = map (port_of m) (map snd (fm_ids m))"
  by (simp add: fm_list_def port_of_def Let_def case_prod_unfold comp_def)

lemma ports_distinct: "fm_ok m \<Longrightarrow> distinct (map fl_port (fm_list m))"
proof -
  assume m: "fm_ok m"
  have d: "distinct (map fst (fm_ids m))" using fm_okD(1) [OF m] by (simp add: om_ok_def)
  have "fst x = fst y" if "x \<in> set (fm_ids m)" "y \<in> set (fm_ids m)" "port_of m (snd x) = port_of m (snd y)" for x y
    using fm_okD(3) [OF m, of "fst x" "snd x" "fst y" "snd y"] that d by (simp add: om_get_def)
  then have "inj_on (\<lambda>x. port_of m (snd x)) (set (fm_ids m))"
    using d by (intro inj_onI) (metis eq_key_imp_eq_value prod.collapse)
  then show ?thesis using d by (simp add: list_ports distinct_map comp_def)
qed

text \<open>
  At any time the listing of the forwards names every identifier and every port of the device once, and each of its entries
  stands for a stream that is open: neither the manager has ended it nor the device.
\<close>

theorem forwards_exclusive:
  "let m = fs_manager (fst (run fwd_step fs_new es)) in
   distinct (map fl_id (fm_list m)) \<and> distinct (map fl_port (fm_list m)) \<and> list_all (\<lambda>(i, n). fwd_live m i n) (fm_ids m)"
proof -
  obtain m where m: "m = fs_manager (fst (run fwd_step fs_new es))" by blast
  have ok: "fm_ok m" using reach_ok m by simp
  have "distinct (map fst (fm_ids m))" using fm_okD(1) [OF ok] by (simp add: om_ok_def)
  then have "list_all (\<lambda>(i, n). fwd_live m i n) (fm_ids m)" "distinct (om_keys (fm_ids m))"
    using fm_okD(2) [OF ok] by (auto simp: list_all_iff om_get_def om_keys_def)
  then show ?thesis using ports_distinct [OF ok] m by (simp add: list_ids)
qed

text \<open>What the last message of the plugin said the forwards are.\<close>

definition last_list :: "fwd_listing list \<Rightarrow> fwd_out list \<Rightarrow> fwd_listing list" where
  "last_list l out = foldl (\<lambda>l x. case x of FwList k \<Rightarrow> k | _ \<Rightarrow> l) l out"

lemma conn_end_quiet: "snd (fm_conn_end n m) = [] \<Longrightarrow> fst (fm_conn_end n m) = m"
  by (auto simp: fm_conn_end_def Let_def split: if_splits)

lemma remove_emits: "snd (fm_remove i m) = [FwRemove i]"
  by (simp add: fm_remove_def Let_def)

lemma remove_steps_emit: "snd (foldl remove_step r is) = snd r @ map FwRemove is"
  by (induction "is" arbitrary: r) (simp_all add: remove_step_def)

lemma remove_all_quiet: "snd (fm_remove_all m) = [] \<Longrightarrow> fst (fm_remove_all m) = m"
  by (cases "om_keys (fm_ids m)") (simp_all add: remove_all_steps remove_steps_emit remove_step_def)

lemma task_done_list:
  "fs_timer s \<or> l = fm_list (fs_manager s) \<Longrightarrow>
   fs_timer (fst (task_done s t b)) \<or> last_list l (snd (task_done s t b)) = fm_list (fs_manager (fst (task_done s t b)))"
  by (cases t) (auto simp: last_list_def fm_add_def Let_def)

lemma on_stream_timer: "fs_timer (on_stream n f s) = fs_timer s"
  by (simp add: on_stream_def)

lemma step_list:
  assumes "fs_timer s \<or> l = fm_list (fs_manager s)"
  shows "fs_timer (fst (fwd_step s e)) \<or> last_list l (snd (fwd_step s e)) = fm_list (fs_manager (fst (fwd_step s e)))"
proof (cases e)
  case (TaskDone n b)
  then show ?thesis using assms task_done_list [of "s\<lparr>fs_tasks := remove_nth n (fs_tasks s)\<rparr>"] by (simp add: last_list_def)
next
  case GroupLeft
  then show ?thesis using assms remove_all_quiet [of "fs_manager s"] by (auto simp: last_list_def)
next
  case (StreamEnd n)
  then show ?thesis using assms conn_end_quiet [of n "fs_manager s"] by (auto simp: last_list_def)
qed (use assms in \<open>auto simp: last_list_def remove_emits stream_list quiet_data on_stream_timer\<close>)

lemma run_list:
  "fs_timer s \<or> l = fm_list (fs_manager s) \<Longrightarrow>
   fs_timer (fst (run fwd_step s es)) \<or> last_list l (snd (run fwd_step s es)) = fm_list (fs_manager (fst (run fwd_step s es)))"
proof (induction es arbitrary: s l)
  case Nil
  then show ?case by (simp add: last_list_def)
next
  case (Cons e es)
  have "last_list l (snd (run fwd_step s (e # es))) = last_list (last_list l (snd (fwd_step s e))) (snd (run fwd_step (fst (fwd_step s e)) es))"
    by (simp add: last_list_def run_snd del: run.simps)
  then show ?case using Cons.IH [OF step_list [OF Cons.prems, of e]] by (simp add: run_fst del: run.simps)
qed

text \<open>
  Whoever listens to the plugin knows the forwards: the last listing that has been sent (the empty one at first) is the table
  as it is, or the timer of the next one is running; when it fires, the listing that is sent is the table.
\<close>

theorem listing_is_current:
  "let r = run fwd_step fs_new es in
   (fs_timer (fst r) \<or> last_list [] (snd r) = fm_list (fs_manager (fst r))) \<and>
   last_list [] (snd (run fwd_step fs_new (es @ [PushDue]))) = fm_list (fs_manager (fst (run fwd_step fs_new (es @ [PushDue]))))"
proof -
  have now: "fs_timer (fst (run fwd_step fs_new es)) \<or> last_list [] (snd (run fwd_step fs_new es)) = fm_list (fs_manager (fst (run fwd_step fs_new es)))" for es
    by (rule run_list) (simp add: fs_new_def fm_new_def fm_list_def)
  moreover have "\<not> fs_timer (fst (run fwd_step fs_new (es @ [PushDue])))" by (simp add: run_append Let_def)
  ultimately show ?thesis by (auto simp: Let_def)
qed

section \<open>Every request is answered once\<close>

definition task_chan :: "fwd_task \<Rightarrow> string" where
  "task_chan t = (case t of TestConn ch \<Rightarrow> ch | CreateConn ch i o' \<Rightarrow> ch)"

definition fwd_owed :: "fwd_service \<Rightarrow> string list" where
  "fwd_owed s = map task_chan (fs_tasks s)"

definition fwd_answers :: "fwd_out list \<Rightarrow> string list" where
  "fwd_answers out = concat (map (\<lambda>x. case x of FwOkay ch m \<Rightarrow> [ch] | FwFail ch m \<Rightarrow> [ch] | FwList l \<Rightarrow> []) out)"

fun fwd_calls :: "fwd_event \<Rightarrow> string list" where
  "fwd_calls (TestReq ch) = [ch]"
| "fwd_calls (CreateReq ch i o') = [ch]"
| "fwd_calls (RemoveReq ch i) = [ch]"
| "fwd_calls e = []"

lemma on_stream_tasks: "fs_tasks (on_stream n f s) = fs_tasks s"
  by (simp add: on_stream_def)

lemma task_done_answers: "fwd_answers (snd (task_done s t b)) = [task_chan t]" "fs_tasks (fst (task_done s t b)) = fs_tasks s"
  by (cases t; simp add: fwd_answers_def task_chan_def)+

interpretation fwq: obligations fwd_step fwd_owed fwd_answers fwd_calls
proof
  fix s e and xs ys :: "fwd_out list"
  show "mset (fwd_owed (fst (fwd_step s e))) + mset (fwd_answers (snd (fwd_step s e))) = mset (fwd_owed s) + mset (fwd_calls e)"
  proof (cases e)
    case (TaskDone n b)
    show ?thesis
    proof (cases "n < length (fs_tasks s)")
      case True
      then show ?thesis using TaskDone mset_remove_nth [OF True, of task_chan] by (simp add: task_done_answers fwd_owed_def)
    next
      case False
      then show ?thesis using TaskDone by (simp add: fwd_answers_def)
    qed
  qed (simp_all add: fwd_owed_def fwd_answers_def task_chan_def on_stream_tasks)
  show "fwd_answers [] = []" "fwd_answers (xs @ ys) = fwd_answers xs @ fwd_answers ys" by (simp_all add: fwd_answers_def)
qed

text \<open>
  Every request to test, create or remove a forward is answered exactly once on its channel, or its connection is still being
  made: no channel is answered twice, and none that has not asked.
\<close>

theorem forward_requests_answered:
  assumes "distinct (concat (map fwd_calls es))"
  shows "let r = run fwd_step fs_new es in distinct (fwd_answers (snd r)) \<and> set (fwd_owed (fst r)) \<inter> set (fwd_answers (snd r)) = {} \<and>
     set (fwd_owed (fst r)) \<union> set (fwd_answers (snd r)) = set (concat (map fwd_calls es))"
proof -
  have "fwd_owed fs_new = []" by (simp add: fwd_owed_def fs_new_def)
  then show ?thesis using fwq.answered_once [OF _ assms] by (simp add: Let_def)
qed

section \<open>Leaving, and streams that are left\<close>

text \<open>
  When the group leaves, every stream in the table is ended, all others stay as they are, and the table is empty.
\<close>

theorem leave_ends_forwards:
  "let m = fs_manager (fst (run fwd_step fs_new es)); m1 = fs_manager (fst (run fwd_step fs_new (es @ [GroupLeft]))) in
   fm_list m1 = [] \<and> length (fm_all m1) = length (fm_all m) \<and>
   (\<forall>n. n < length (fm_all m) \<longrightarrow> fm_all m1 ! n = (if \<exists>i. om_get (fm_ids m) i = Some n then handler_end (fm_all m ! n) else fm_all m ! n))"
proof -
  have "fs_manager (fst (run fwd_step fs_new (es @ [GroupLeft]))) = fst (fm_remove_all (fs_manager (fst (run fwd_step fs_new es))))"
    by (simp add: run_append Let_def)
  then show ?thesis using remove_all_facts [OF reach_ok [of es]] by (simp add: Let_def fm_list_def)
qed

definition stream_open :: "fwd_manager \<Rightarrow> nat \<Rightarrow> bool" where
  "stream_open m n \<longleftrightarrow> n < length (fm_all m) \<and> \<not> fh_ended (fm_all m ! n) \<and> \<not> fh_over (fm_all m ! n)"

definition accounted :: "fwd_manager \<Rightarrow> bool" where
  "accounted m \<longleftrightarrow> (\<forall>n. stream_open m n \<longrightarrow> om_get (fm_ids m) (fh_id (fm_all m ! n)) = Some n)"

definition names :: "fwd_manager \<Rightarrow> string list" where
  "names m = map fh_id (fm_all m)"

lemma names_upd [simp]: "keeps_name f \<Longrightarrow> names (upd_handler n f m) = names m"
  by (cases "n < length (fm_all m)") (simp_all add: names_def upd_handler_def map_update keeps_name_def list_update_same_conv list_update_beyond)

lemma names_del [simp]: "names (m\<lparr>fm_ids := x\<rparr>) = names m"
  by (simp add: names_def)

lemma names_dropped [simp]: "keeps_name f \<Longrightarrow> names (dropped n f i m) = names m"
  by (simp add: dropped_def)

lemma names_remove [simp]: "names (fst (fm_remove i m)) = names m"
  by (simp add: remove_dropped split: option.splits)

lemma names_conn_end [simp]: "names (fst (fm_conn_end n m)) = names m"
  by (simp add: fm_conn_end_def Let_def)

lemma names_steps: "names (fst (foldl remove_step r is)) = names (fst r)"
  by (induction "is" arbitrary: r) (simp_all add: remove_step_def)

lemma names_remove_all [simp]: "names (fst (fm_remove_all m)) = names m"
  by (simp add: remove_all_steps names_steps)

lemma names_add: "names (fst (fm_add i out o' m)) = names m @ [i]"
proof -
  have "names (add_second p (add_first i m)) = names m" for p by (simp add: add_second_def add_first_def split: option.splits)
  then show ?thesis by (simp add: add_parts Let_def) (simp add: names_def handler_new_def)
qed

lemma names_step: "\<exists>x. names (fs_manager (fst (fwd_step s e))) = names (fs_manager s) @ x"
proof (cases e)
  case (TaskDone n b)
  then show ?thesis by (simp add: task_done_manager names_add split: fwd_task.splits)
qed (use quiet_data in \<open>auto simp: on_stream_def calm_change_def\<close>)

text \<open>A name that is used once: who has it is the stream that has it in the table.\<close>

lemma unique_name: "distinct (names m) \<Longrightarrow> n < length (fm_all m) \<Longrightarrow> k < length (fm_all m) \<Longrightarrow> fh_id (fm_all m ! n) = fh_id (fm_all m ! k) \<Longrightarrow> n = k"
  unfolding names_def by (metis distinct_conv_nth length_map nth_map)

lemma accounted_dropped:
  assumes "accounted m" and "distinct (names m)" and "keeps_name f" and "n < length (fm_all m)" and "fh_id (fm_all m ! n) = i"
    and "\<And>h. fh_ended (f h) \<or> fh_over (f h)"
  shows "accounted (dropped n f i m)"
proof -
  have "om_get (fm_ids (dropped n f i m)) (fh_id (fm_all (dropped n f i m) ! k)) = Some k" if "stream_open (dropped n f i m) k" for k
  proof -
    have k: "k \<noteq> n" "stream_open m k" using that assms(4,6) by (auto simp: stream_open_def dropped_nth split: if_splits)
    then have "fh_id (fm_all m ! k) \<noteq> i" using unique_name [OF assms(2,4), of k] assms(5) by (auto simp: stream_open_def)
    then show ?thesis using k assms(1,4) by (simp add: accounted_def dropped_nth)
  qed
  then show ?thesis by (simp add: accounted_def)
qed

lemma accounted_upd:
  assumes "accounted m" and "calm_change f" and "n < length (fm_all m)"
  shows "accounted (upd_handler n f m)"
  using assms upd_handler_names [of f n m]
  by (auto simp: accounted_def stream_open_def calm_change_def keeps_life_def keeps_name_def upd_handler_nth split: if_splits)

lemma accounted_remove:
  assumes "accounted m" and "distinct (names m)" and "fm_ok m"
  shows "accounted (fst (fm_remove i m))"
proof (cases "om_get (fm_ids m) i")
  case None
  then show ?thesis using assms(1) by (auto simp: remove_dropped accounted_def stream_open_def)
next
  case (Some n)
  then show ?thesis using accounted_dropped [OF assms(1,2), of handler_end n i] fm_okD(2) [OF assms(3) Some]
    by (simp add: remove_dropped fwd_live_def handler_end_def keeps_name_def)
qed

lemma accounted_second:
  assumes "accounted m" and "distinct (names m)" and "fm_ok m"
  shows "accounted (add_second p m)"
  using assms accounted_remove by (simp add: add_second_def split: option.splits)

lemma accounted_add:
  assumes "accounted m" and "fm_ok m" and "distinct (names m @ [i])"
  shows "accounted (fst (fm_add i out o' m))"
proof -
  have old: "i \<notin> set (names m)" "distinct (names m)" using assms(3) by simp_all
  have first: "add_first i m = m"
  proof -
    have "om_get (fm_ids m) i = None"
    proof (rule ccontr)
      assume "om_get (fm_ids m) i \<noteq> None"
      then obtain n where "fwd_live m i n" using fm_okD(2) [OF assms(2)] by auto
      then show False using old(1) by (auto simp: fwd_live_def names_def)
    qed
    then show ?thesis by (simp add: add_first_def fm_has_def om_has_def)
  qed
  let ?m = "add_second (fo_port o') m"
  have "accounted ?m" using accounted_second assms(1,2) old(2) by blast
  moreover have "names ?m = names m" by (simp add: add_second_def split: option.splits)
  then have "n < length (fm_all ?m) \<Longrightarrow> fh_id (fm_all ?m ! n) \<noteq> i" for n using old(1) by (metis length_map names_def nth_map nth_mem)
  ultimately show ?thesis by (auto simp: add_parts first Let_def accounted_def stream_open_def nth_append handler_new_def less_Suc_eq)
qed

lemma accounted_remove_all:
  assumes "accounted m" and "fm_ok m"
  shows "accounted (fst (fm_remove_all m))"
proof -
  note f = remove_all_facts [OF assms(2)]
  have "\<not> stream_open (fst (fm_remove_all m)) n" for n
  proof
    assume o: "stream_open (fst (fm_remove_all m)) n"
    then have n: "n < length (fm_all m)" using f(3) by (simp add: stream_open_def)
    then have "\<not> (\<exists>i. om_get (fm_ids m) i = Some n)" using o f(4) [OF n] by (cases "\<exists>i. om_get (fm_ids m) i = Some n") (simp_all add: stream_open_def handler_end_def)
    moreover from this have "stream_open m n" using o f(3) f(4) [OF n] by (simp add: stream_open_def)
    ultimately show False using assms(1) by (auto simp: accounted_def)
  qed
  then show ?thesis by (simp add: accounted_def)
qed

lemma accounted_step:
  assumes "accounted (fs_manager s)" and "fm_ok (fs_manager s)" and "distinct (names (fs_manager (fst (fwd_step s e))))"
  shows "accounted (fs_manager (fst (fwd_step s e)))"
proof -
  have d: "distinct (names (fs_manager s))" using names_step [of s e] assms(3) by auto
  have q: "accounted (fs_manager (on_stream n f s))" if "calm_change f" for n f
    using that assms(1) accounted_upd by (simp add: on_stream_def)
  show ?thesis
  proof (cases e)
    case (TaskDone n b)
    then show ?thesis using assms(1,2,3) accounted_add by (auto simp: task_done_manager names_add split: fwd_task.splits if_splits)
  next
    case (StreamEnd n)
    have "accounted (fst (fm_conn_end n (fs_manager s)))"
      using assms(1) accounted_dropped [OF assms(1) d, of "\<lambda>h. h\<lparr>fh_over := True\<rparr>" n] by (simp add: fm_conn_end_def Let_def dropped_def)
    then show ?thesis using StreamEnd by simp
  next
    case (RemoveReq ch i)
    then show ?thesis using accounted_remove [OF assms(1) d assms(2)] by simp
  next
    case GroupLeft
    then show ?thesis using accounted_remove_all [OF assms(1,2)] by simp
  qed (use q quiet_data assms(1) in simp_all)
qed

lemma names_run: "\<exists>x. names (fs_manager (fst (run fwd_step s es))) = names (fs_manager s) @ x"
proof (induction es arbitrary: s)
  case (Cons e es)
  obtain x where "names (fs_manager (fst (fwd_step s e))) = names (fs_manager s) @ x" using names_step [of s e] by blast
  moreover obtain y where "names (fs_manager (fst (run fwd_step (fst (fwd_step s e)) es))) = names (fs_manager (fst (fwd_step s e))) @ y"
    using Cons.IH [of "fst (fwd_step s e)"] by blast
  ultimately show ?case by (simp add: run_fst del: run.simps)
qed simp

lemma accounted_run:
  "accounted (fs_manager s) \<Longrightarrow> fm_ok (fs_manager s) \<Longrightarrow> distinct (names (fs_manager (fst (run fwd_step s es)))) \<Longrightarrow>
   accounted (fs_manager (fst (run fwd_step s es)))"
proof (induction es arbitrary: s)
  case (Cons e es)
  let ?s = "fst (fwd_step s e)"
  have "distinct (names (fs_manager ?s))" using names_run [of ?s es] Cons.prems(3) by (auto simp: run_fst simp del: run.simps)
  then have "accounted (fs_manager ?s)" by (rule accounted_step [OF Cons.prems(1,2)])
  then show ?case using Cons.IH [of ?s] Cons.prems(2,3) step_ok by (simp add: run_fst del: run.simps)
qed simp

text \<open>
  C29. As long as no two forwards have been created with the same identifier, no stream is forgotten: a stream that neither the
  manager nor the device has ended is in the table, so it is listed, and ended when the group leaves.
\<close>

theorem open_forwards_listed:
  assumes "distinct (names (fs_manager (fst (run fwd_step fs_new es))))" and "stream_open (fs_manager (fst (run fwd_step fs_new es))) n"
  shows "let m = fs_manager (fst (run fwd_step fs_new es)) in om_get (fm_ids m) (fh_id (fm_all m ! n)) = Some n"
proof -
  have "accounted (fs_manager fs_new)" by (simp add: fs_new_def fm_new_def accounted_def stream_open_def)
  then have "accounted (fs_manager (fst (run fwd_step fs_new es)))"
    by (rule accounted_run) (use assms(1) in \<open>simp_all add: fs_new_def fm_ok_start\<close>)
  then show ?thesis using assms(2) by (simp add: accounted_def Let_def)
qed

text \<open>
  When an identifier is used again it is different: the stream that is replaced is ended, and when its end comes, the entry of
  the new one is deleted from the table. The new stream is open, but it is not listed, and it stays open when the group leaves.
\<close>

theorem replaced_forward_vanishes:
  assumes "s = fst (run fwd_step fs_new es)" and "om_get (fm_ids (fs_manager s)) i = Some n" and "k < length (fs_tasks s)"
    and "fs_tasks s ! k = CreateConn ch i o'"
  shows "let m = fs_manager (fst (run fwd_step s [TaskDone k True, StreamEnd n])); m1 = fs_manager (fst (run fwd_step s [TaskDone k True, StreamEnd n, GroupLeft]));
      new = length (fm_all (fs_manager s)) in
    fh_id (fm_all m ! new) = i \<and> stream_open m new \<and> \<not> fm_has m i \<and> stream_open m1 new"
proof -
  let ?m = "fs_manager s"
  let ?m1 = "fst (fm_add i (create_header o') o' ?m)"
  let ?a = "add_second (fo_port o') (add_first i ?m)"
  let ?m2 = "fst (fm_conn_end n ?m1)"
  have ok: "fm_ok ?m" "fm_ok ?m2" using reach_ok [of es] assms(1) fm_ok_add fm_ok_conn_end by blast+
  have n: "n < length (fm_all ?m)" "fh_id (fm_all ?m ! n) = i" "\<not> fh_over (fm_all ?m ! n)" using fm_okD(2) [OF ok(1) assms(2)] by (simp_all add: fwd_live_def)
  have keep: "length (fm_all (fst (fm_remove j m))) = length (fm_all m)" "fh_id (fm_all (fst (fm_remove j m)) ! n) = fh_id (fm_all m ! n)"
      "fh_over (fm_all (fst (fm_remove j m)) ! n) = fh_over (fm_all m ! n)" if "fm_ok m" "n < length (fm_all m)" for j m
    using remove_facts(2,4) [OF that(1)] that(2) by (simp_all add: handler_end_def)
  have fst_ok: "fm_ok (add_first i ?m)" using add_first_facts(1) [OF ok(1)] .
  have first: "length (fm_all (add_first i ?m)) = length (fm_all ?m)" "fh_id (fm_all (add_first i ?m) ! n) = i" "\<not> fh_over (fm_all (add_first i ?m) ! n)"
    using keep [OF ok(1) n(1)] n by (simp_all add: add_first_def)
  have a: "length (fm_all ?a) = length (fm_all ?m)" "fh_id (fm_all ?a ! n) = i" "\<not> fh_over (fm_all ?a ! n)"
    using keep [OF fst_ok] first n(1) by (simp_all add: add_second_def split: option.splits)
  have m2: "?m2 = dropped n (\<lambda>h. h\<lparr>fh_over := True\<rparr>) i ?m1"
    using a n(1) by (simp add: fm_conn_end_def add_parts Let_def dropped_def nth_append)
  have new: "fh_id (fm_all ?m2 ! length (fm_all ?m)) = i" "stream_open ?m2 (length (fm_all ?m))" "om_get (fm_ids ?m2) i = None"
    unfolding m2 using a n(1) by (simp_all add: dropped_nth stream_open_def add_parts Let_def nth_append handler_new_def)
  have "stream_open (fst (fm_remove_all ?m2)) (length (fm_all ?m))"
  proof -
    have "\<not> (\<exists>j. om_get (fm_ids ?m2) j = Some (length (fm_all ?m)))" using fm_okD(2) [OF ok(2)] new(1,3) by (auto simp: fwd_live_def)
    then show ?thesis using remove_all_facts(3) [OF ok(2)] remove_all_facts(4) [OF ok(2), of "length (fm_all ?m)"] new(2) by (simp add: stream_open_def)
  qed
  then show ?thesis using assms(3,4) new by (simp add: Let_def fm_has_def om_has_def)
qed

text \<open>
  A forward that is still being made when the group leaves is made all the same: the reset does not see it, and afterwards it
  is open and in the table.
\<close>

theorem late_forward_survives_leave:
  assumes "s = fst (run fwd_step fs_new es)" and "k < length (fs_tasks s)" and "fs_tasks s ! k = CreateConn ch i o'"
  shows "let m = fs_manager (fst (run fwd_step s [GroupLeft, TaskDone k True])); new = length (fm_all (fs_manager s)) in
    om_get (fm_ids m) i = Some new \<and> stream_open m new"
proof -
  let ?m = "fst (fm_remove_all (fs_manager s))"
  have e: "fm_ids ?m = []" "length (fm_all ?m) = length (fm_all (fs_manager s))" using remove_all_facts [OF reach_ok [of es]] assms(1) by simp_all
  then have "add_second (fo_port o') (add_first i ?m) = ?m" by (simp add: add_second_def add_first_def on_port_def fm_has_def om_has_def)
  then show ?thesis using assms(2,3) e
    by (simp add: add_parts Let_def stream_open_def nth_append handler_new_def)
qed

section \<open>Instances\<close>

abbreviation some_opts :: fwd_opts where
  "some_opts \<equiv> \<lparr>fo_port = 8080, fo_host = ''h'', fo_target = 80\<rparr>"

lemma eval_forwards: "fst (run fwd_step fs_new [CreateReq ''c'' ''a'' some_opts, TaskDone 0 True]) =
  \<lparr>fs_manager = \<lparr>fm_ids = [(''a'', 0)], fm_all = [handler_new ''a'' some_opts (create_header some_opts)]\<rparr>, fs_tasks = [], fs_timer = True\<rparr>"
  by (simp add: fs_new_def fm_new_def remove_nth_def fs_set_def fm_add_def fm_has_def om_has_def on_port_def om_set_def)

theorem forward_requests_answered_witness:
  "fwd_answers (snd (run fwd_step fs_new [CreateReq ''c'' ''a'' some_opts, RemoveReq ''d'' ''b'', TaskDone 0 False])) = [''d'', ''c''] \<and>
   distinct (fwd_answers (snd (run fwd_step fs_new [CreateReq ''c'' ''a'' some_opts, RemoveReq ''d'' ''b'', TaskDone 0 False])))"
  using forward_requests_answered [of "[CreateReq ''c'' ''a'' some_opts, RemoveReq ''d'' ''b'', TaskDone 0 False]"]
  by (simp add: Let_def fwd_answers_def fs_new_def)

theorem open_forwards_listed_witness:
  "om_get (fm_ids (fs_manager (fst (run fwd_step fs_new [CreateReq ''c'' ''a'' some_opts, TaskDone 0 True])))) ''a'' = Some 0"
  using open_forwards_listed [of "[CreateReq ''c'' ''a'' some_opts, TaskDone 0 True]" 0, unfolded eval_forwards]
  by (simp add: eval_forwards names_def stream_open_def handler_new_def Let_def del: run.simps)

text \<open>The same identifier twice.\<close>

theorem replaced_forward_vanishes_witness:
  "let s = fst (run fwd_step fs_new [CreateReq ''c'' ''a'' some_opts, TaskDone 0 True, CreateReq ''d'' ''a'' some_opts]);
       m = fs_manager (fst (run fwd_step s [TaskDone 0 True, StreamEnd 0])) in
   fh_id (fm_all m ! 1) = ''a'' \<and> stream_open m 1 \<and> \<not> fm_has m ''a''"
proof -
  let ?es = "[CreateReq ''c'' ''a'' some_opts, TaskDone 0 True] @ [CreateReq ''d'' ''a'' some_opts]"
  have s: "fst (run fwd_step fs_new ?es) = \<lparr>fs_manager = \<lparr>fm_ids = [(''a'', 0)], fm_all = [handler_new ''a'' some_opts (create_header some_opts)]\<rparr>,
      fs_tasks = [CreateConn ''d'' ''a'' some_opts], fs_timer = True\<rparr>"
    by (simp only: run_append eval_forwards Let_def fst_conv) simp
  have "let m = fs_manager (fst (run fwd_step (fst (run fwd_step fs_new ?es)) [TaskDone 0 True, StreamEnd 0])) in
      fh_id (fm_all m ! 1) = ''a'' \<and> stream_open m 1 \<and> \<not> fm_has m ''a''"
    using replaced_forward_vanishes [of "fst (run fwd_step fs_new ?es)" ?es "''a''" 0 0 "''d''" some_opts]
    unfolding s by (simp add: om_get_def Let_def del: run.simps)
  then show ?thesis unfolding append_Cons append_Nil Let_def .
qed

theorem late_forward_survives_leave_witness:
  "om_get (fm_ids (fs_manager (fst (run fwd_step fs_new [CreateReq ''c'' ''a'' some_opts, GroupLeft, TaskDone 0 True])))) ''a'' = Some 0"
proof -
  have s: "fst (run fwd_step fs_new [CreateReq ''c'' ''a'' some_opts]) = \<lparr>fs_manager = fm_new, fs_tasks = [CreateConn ''c'' ''a'' some_opts], fs_timer = False\<rparr>"
    by (simp add: fs_new_def)
  then show ?thesis
    using late_forward_survives_leave [of "fst (run fwd_step fs_new [CreateReq ''c'' ''a'' some_opts])" "[CreateReq ''c'' ''a'' some_opts]" 0 "''c''" "''a''" some_opts]
    by (simp add: Let_def fm_new_def)
qed

section \<open>What the device gets\<close>

text \<open>
  The data and the ends of the connections to the target host, in the order in which they come; \<open>said\<close> are those that count: the connection
  is there and not over, and there is data.
\<close>

definition host_event :: "fwd_handler \<Rightarrow> nat \<times> byte list option \<Rightarrow> fwd_handler" where
  "host_event h x = (case snd x of Some c \<Rightarrow> dest_data (fst x) c h | None \<Rightarrow> dest_close (fst x) h)"

fun said :: "fwd_handler \<Rightarrow> (nat \<times> byte list option) list \<Rightarrow> wr_item list" where
  "said h [] = []"
| "said h ((i, x) # es) =
     (if i < length (fh_dests h) \<and> \<not> de_over (fh_dests h ! i) \<and> x \<noteq> Some [] then [(de_id (fh_dests h ! i), x)] else []) @ said (host_event h (i, x)) es"

lemma host_event_out:
  "\<not> fh_ended h \<Longrightarrow> fh_out (host_event h (i, x)) = fh_out h @ concat (map wr_event (said h [(i, x)])) \<and> \<not> fh_ended (host_event h (i, x))"
  by (cases x) (auto simp: host_event_def dest_data_def dest_close_def conn_write_def upd_dest_def Let_def)

lemma host_events_out: "\<not> fh_ended h \<Longrightarrow> fh_out (foldl host_event h es) = fh_out h @ concat (map wr_event (said h es))"
proof (induction es arbitrary: h)
  case (Cons e es)
  obtain i x where e: "e = (i, x)" by (cases e)
  show ?case using Cons.IH [of "host_event h e"] host_event_out [OF Cons.prems, of i x] e by simp
qed simp

lemma host_event_ids: "length (fh_dests (host_event h e)) = length (fh_dests h) \<and> map de_id (fh_dests (host_event h e)) = map de_id (fh_dests h)"
proof -
  have "map de_id (fh_dests (upd_dest i (\<lambda>d. d\<lparr>de_over := True\<rparr>) h)) = map de_id (fh_dests h)" for i h
    by (cases "i < length (fh_dests h)") (simp_all add: upd_dest_def map_update list_update_same_conv list_update_beyond)
  then show ?thesis by (simp add: host_event_def dest_data_def dest_close_def conn_write_def Let_def split: option.splits)
qed

lemma said_ok: "list_all (\<lambda>t. t < 65536) (map de_id (fh_dests h)) \<Longrightarrow> list_all event_ok (said h es)"
proof (induction es arbitrary: h)
  case (Cons e es)
  obtain i x where e: "e = (i, x)" by (cases e)
  have "list_all event_ok (said (host_event h e) es)" using Cons.IH Cons.prems host_event_ids [of h e] by simp
  moreover have "i < length (fh_dests h) \<Longrightarrow> de_id (fh_dests h ! i) < 65536" using Cons.prems by (simp add: list_all_length)
  ultimately show ?case using e by (cases x) auto
qed simp

text \<open>
  What the target host answers reaches the device: after the header, the stream of a forward is what its connections have said,
  each byte under the number the device has given the connection, in order, and the end of a connection once, after its last byte;
  a reader at the other end gets just that, however the stream is cut between packets and inside their data.
\<close>

theorem host_answers_arrive:
  assumes "\<not> fh_ended h" and "list_all (\<lambda>t. t < 65536) (map de_id (fh_dests h))"
    and "fh_out (foldl host_event h es) = fh_out h @ concat cs" and "headers_whole (packets_of (said h es)) cs"
  shows "content (rd_all rd_new cs) = concat (map wr_said (said h es))"
proof -
  have "concat cs = concat (map wr_event (said h es))" using host_events_out [OF assms(1), of es] assms(3) by simp
  then show ?thesis using packets_read [OF events_facts(3) [OF said_ok [OF assms(2)]] _ assms(4)] events_facts by metis
qed

theorem host_answers_arrive_witness:
  "content (rd_all rd_new [[1, 0, 1, 0, 7], [1, 0, 0, 0]]) = [(1, Some 7), (1, None)]"
proof -
  let ?h = "(handler_new ''a'' some_opts [])\<lparr>fh_dests := [dest_new 1], fh_map := [(1, 0)]\<rparr>"
  let ?es = "[(0, Some [7]), (0, None)]"
  have w: "wr_chunk 1 [7] = [1, 0, 1, 0, 7]" "wr_flush 1 = [1, 0, 0, 0]"
    by (simp_all add: wr_chunk.simps wr_flush_def packet_bytes_def numeral_2_eq_2)
  have said: "said ?h ?es = [(1, Some [7]), (1, None)]"
    by (simp add: host_event_def dest_data_def conn_write_def handler_new_def)
  have out: "fh_out (foldl host_event ?h ?es) = fh_out ?h @ concat [[1, 0, 1, 0, 7], [1, 0, 0, 0]]"
    using host_events_out [of ?h ?es] w unfolding said by (simp add: handler_new_def)
  have "packets_of [(1, Some [7]), (1, None)] = [Data 1 [7], Fin 1]" by (simp add: packets_of_def data_packets.simps)
  then have "headers_whole (packets_of (said ?h ?es)) [[1, 0, 1, 0, 7], [1, 0, 0, 0]]"
    unfolding said by (simp add: headers_whole_def all_le_Suc packet_body_def)
  from host_answers_arrive [OF _ _ out this] show ?thesis unfolding said by (simp add: handler_new_def)
qed

section \<open>Connecting to the service\<close>

text \<open>The delays between the attempts double, and there are fewer than attempts.\<close>

lemma try_connect_delays: "0 < t \<Longrightarrow> snd (try_connect t d as) = map (\<lambda>k. d * 2 ^ k) [0..<length (snd (try_connect t d as))] \<and> length (snd (try_connect t d as)) < t"
proof (induction t d as rule: try_connect.induct)
  case (2 t d a as)
  show ?case
  proof (cases "a = Closed \<and> 1 < t")
    case True
    then have ih: "snd (try_connect (t - 1) (d * 2) as) = map (\<lambda>k. d * 2 * 2 ^ k) [0..<length (snd (try_connect (t - 1) (d * 2) as))]"
        "length (snd (try_connect (t - 1) (d * 2) as)) < t - 1" using 2 by simp_all
    let ?n = "length (snd (try_connect (t - 1) (d * 2) as))"
    have "[0..<Suc ?n] = 0 # map Suc [0..<?n]" by (simp add: upt_conv_Cons map_Suc_upt del: upt_Suc)
    then have "d # map (\<lambda>k. d * 2 * 2 ^ k) [0..<?n] = map (\<lambda>k. d * 2 ^ k) [0..<Suc ?n]" by (simp add: comp_def mult.assoc)
    then show ?thesis using True ih by (simp add: Let_def del: upt_Suc)
  next
    case False
    then show ?thesis using 2(2) by auto
  qed
qed simp

end
