(* ===== verification/Spec2Isabelle.thy ===== *)
theory Spec2Isabelle imports Prelude Bytes Ttl_Set Channel_Manager Message_Stream Group_Manager Transactions Reaper Process_Manager Provider Adb_Protocol Adb_Observer Vnc_Connection Vnc Touch_Queue Touch Bookings Booking_Api Booking_Scheduler Members Screen_Stream Screen Js_Values Device_Db Device_Use Web_Socket Processor Forwarding Forward_Service begin

text \<open>
  This library models the core of DeviceHub, a farm of phones that users control from a browser,
  and proves what its parts promise. Providers watch the devices of their hosts and run one worker process
  (a device unit) for each; units talk to each other over a message bus; a device unit belongs to one
  group of users at a time, takes touches and VNC clients for it and gives the device back when the time is
  up; the reaper tells everyone which devices are present.

  Theories and sources. Each theory models the files below; names are those of the code wherever
  Isabelle allows it.

  \<^item> \<open>Prelude\<close>: conversions of the language, its insertion-ordered \<open>Map\<close>, runs of a component, and the
    interfaces as locales: \<open>keyed_store\<close> (maps), \<open>invariant_machine\<close> and \<open>guarded_machine\<close> (step functions with an
    invariant), \<open>obligations\<close> (every call is answered once). \<open>Bytes\<close>: buffers, big-endian numbers, hexadecimal text.
  \<^item> \<open>Ttl_Set\<close>: \<open>lib/util/ttlset.ts\<close>, an explicit heap of linked items, and the abstract set it
    implements. \<open>Reaper\<close>: \<open>lib/units/reaper/index.ts\<close> on top of it.
  \<^item> \<open>Channel_Manager\<close>: \<open>lib/wire/channelmanager.ts\<close>. \<open>Group_Manager\<close>: the group plugins
    (\<open>lib/units/base-device/plugins/group.ts\<close>, \<open>lib/units/device/plugins/group.ts\<close>) and \<open>lib/util/grouputil.ts\<close>.
  \<^item> \<open>Message_Stream\<close>: \<open>lib/wire/messagestream.ts\<close>. \<open>Transactions\<close>: \<open>lib/wire/transmanager.ts\<close>,
    \<open>lib/wire/router.ts\<close> and the replies of \<open>lib/wire/util.ts\<close>.
  \<^item> \<open>Process_Manager\<close>: \<open>lib/util/ProcessManager.ts\<close>. \<open>Provider\<close>: \<open>lib/units/provider/index.ts\<close>, its client.
  \<^item> \<open>Adb_Protocol\<close> and \<open>Adb_Observer\<close>: the two halves of \<open>lib/units/provider/ADBObserver.ts\<close>, the connection to the
    ADB server and the tracking of devices.
  \<^item> \<open>Vnc_Connection\<close> and \<open>Vnc\<close>: \<open>lib/units/device/plugins/vnc/\<close> (the protocol of one client; the pointer, the frames
    and the authentication of the plugin). \<open>Touch_Queue\<close>: \<open>lib/wire/seqqueue.js\<close>, \<open>lib/util/statequeue.js\<close>,
    \<open>lib/util/failcounter.ts\<close>. \<open>Touch\<close>: \<open>lib/units/device/plugins/touch/index.ts\<close>.
  \<^item> \<open>Bookings\<close>: groups of devices and their quotas in the database (\<open>lib/db/models/group/model.js\<close>,
    \<open>lib/db/models/user/model.js\<close>, \<open>lib/util/apiutil.js\<close>). \<open>Booking_Api\<close>: the requests on them
    (\<open>lib/units/api/controllers/groups.js\<close>). \<open>Booking_Scheduler\<close>: \<open>lib/db/handlers/group/scheduler.js\<close>.
    \<open>Members\<close>: the members and moderators of groups, and users with their limits and locks (the rest of
    \<open>groups.js\<close>, \<open>lib/units/api/controllers/users.js\<close>, \<open>lib/util/lockutil.js\<close>).
  \<^item> \<open>Screen_Stream\<close>: what minicap sends (\<open>lib/units/device/plugins/screen/util/banner.js\<close>, \<open>frameparser.js\<close>). \<open>Screen\<close>: the
    frame producer, its viewers and the web socket server (\<open>lib/units/device/plugins/screen/stream.js\<close>,
    \<open>util/frameconfig.js\<close>, \<open>util/broadcastset.js\<close>).
  \<^item> \<open>Device_Use\<close>: taking, releasing and connecting to a device (\<open>lib/units/api/controllers/user.js\<close>,
    \<open>lib/units/api/helpers/useDevice.js\<close>, \<open>lib/util/datautil.js\<close>, \<open>lib/util/deviceutil.js\<close>).
    \<open>Web_Socket\<close>: the sockets of the browsers, what they may ask of devices and what they are told
    (\<open>lib/units/websocket/index.js\<close>).
  \<^item> \<open>Device_Db\<close>: the documents of the devices, what each operation sets, and their ports (\<open>lib/db/models/all/model.js\<close>,
    \<open>lib/db/models/device/model.js\<close>), on the trees of \<open>Js_Values\<close>. \<open>Processor\<close>: who writes what
    devices report to them and tells the browsers (\<open>lib/units/processor/index.ts\<close>).
  \<^item> \<open>Forwarding\<close>: the packets of reverse port forwarding (\<open>lib/units/device/plugins/forward/util/reader.js\<close>, \<open>writer.js\<close>).
    \<open>Forward_Service\<close>: its forwards, connections and requests (\<open>util/manager.js\<close>, \<open>index.js\<close>).


  State and steps. A component's state is a record; its operations are functions to the new state
  and the list of what the code sends, emits or calls, in order; all of it is executable. A handler is split
  at its \<open>await\<close>s: what remains to be done waits as a task of the state, and an event resumes it, so a run over a list of events
  is an interleaving of the program. Objects that are shared by reference live in explicit stores. Clocks are
  arguments of the events, timers are events.

  Groups of lemmas. For each component: an invariant kept by every step (by an interpretation of
  one of the locales of \<open>Prelude\<close> on the step function), the functional behaviour of its operations, and a refinement
  where there is an abstract specification: \<open>Ttl_Set\<close> and \<open>Reaper\<close> implement a set of present
  devices, \<open>Adb_Observer\<close> the map that the server lists, \<open>Screen_Stream\<close> a machine on the bytes that have arrived. Parsers are shown not to depend on how the network
  cuts the data (\<open>Message_Stream\<close>, \<open>Adb_Protocol\<close>, \<open>Vnc_Connection\<close>, \<open>Screen_Stream\<close>). \<open>Bookings\<close> to \<open>Booking_Scheduler\<close> show that
  no device is booked twice at a time and that quotas hold over any run of requests and of the scheduler; \<open>Members\<close> that who subscribes to a group is a member of it;
  \<open>Screen\<close> that a watched screen ends up started, that only the user of the device sees it, and that each viewer gets each frame; \<open>Device_Use\<close> that a device is commanded only by
  who takes it while it is free, by its user or by an administrator; \<open>Web_Socket\<close> that input of a browser reaches a device only after it
  joined the user's group, and that listeners and subscriptions are those of the open sockets; \<open>Forward_Service\<close> that a forward carries its connections unmixed in both directions and that the table
  of the forwards is the open streams; \<open>Processor\<close> that what browsers are told has been written before, that the documents implement the devices
  and that each device has one. Across components: the reaper on the set, the group
  plugin on the channel manager, the provider on the process manager, VNC on the group plugin and on the touch
  plugin, the touch plugin on the sequence queue, the requests and the scheduler on the bookings, the members on the requests, the screen on its
  stream formats and on the state queue of the touch plugin, the forwards on their packets, the sockets of the browsers on what the processor passes on, and taking a
  device on the group plugin of the device. Theorems that show a fault of the code state the fault as the code has it; the
  manifest lists them as findings.

  Bounds and fuel. No definition has fuel. Loops are structural or have a measure; two loops
  that nothing in the code bounds are partial functions: \<open>check\<close> of the set, whose value is shown to exist in every
  reachable state, and the listener of \<open>readable\<close> of the screen, for which the states where it does not return are given. Numbers of the language are integers, the 32-bit shifts of the framing are written
  out, bytes are words of eight bits, and the coordinates of touches are rationals (the rounding of floating-point
  products is not modelled).

  Not modelled. The generated protobuf code (\<open>lib/wire/wire.ts\<close>) and the encoding of messages are
  parameters or left out; sockets, log output and statistics output are left out. The database is modelled by its documents: a request runs
  without others in between, except where a theorem takes a request apart to show what interleaving does; its driver, access tokens, adb keys, service
  users, the listings and the alert message are left out. The web
  application, the user interface, the command line, the iOS and Tizen units, WebDriverAgent, storage and the
  plugins that only call a service of the device are not modelled: they are mostly glue around libraries, other programs and other
  languages. Of the modelled files, \<open>destroy\<close> of the touch consumer (nothing calls it), the listening VNC
  server, the JPEG decoder and the access tokens of the web socket unit are left out.
\<close>

end
